(* ===== verification/CBase.thy ===== *)
theory CBase
  imports Main "HOL-Library.Word" "HOL-Library.Monad_Syntax"
begin

unbundle bit_operations_syntax

text \<open>
  Prelude of the development: the machine types of the ILP32 target the kernel is built for
  (\<^verbatim>\<open>gcc -m32\<close>: \<^verbatim>\<open>int\<close> and \<^verbatim>\<open>long\<close> are 32 bits, \<^verbatim>\<open>char\<close> is signed), the flat byte
  memory that the C code addresses, NUL-terminated strings in that memory, and the generic
  facts on words, offsets and memory updates that the component theories share.
\<close>

section \<open>Machine types\<close>

type_synonym u8 = "8 word"
type_synonym u16 = "16 word"
type_synonym u32 = "32 word"
type_synonym u64 = "64 word"

text \<open>Flat physical memory: one byte per 32-bit address.\<close>

type_synonym mem = "u32 \<Rightarrow> u8"

named_theorems mem_simps "loads and stores of the flat memory"
named_theorems word_facts "conversions between words and numbers"

section \<open>Offsets from a base address\<close>

lemma of_nat_u32_eq_iff:
  assumes "i < 2 ^ 32" and "j < 2 ^ 32"
  shows "(of_nat i :: u32) = of_nat j \<longleftrightarrow> i = j"
proof
  assume "(of_nat i :: u32) = of_nat j"
  then have "unat (of_nat i :: u32) = unat (of_nat j :: u32)"
    by simp
  with assms show "i = j"
    by (simp add: unat_of_nat)
qed simp

lemma offset_eq_iff [mem_simps]:
  assumes "i < 2 ^ 32" and "j < 2 ^ 32"
  shows "(a + of_nat i :: u32) = a + of_nat j \<longleftrightarrow> i = j"
  using of_nat_u32_eq_iff [OF assms] by simp

lemma offset_Suc: "(a :: u32) + of_nat (Suc i) = (a + 1) + of_nat i"
  by (simp add: algebra_simps)

lemma unat_of_nat_u32 [word_facts]: "n < 2 ^ 32 \<Longrightarrow> unat (of_nat n :: u32) = n"
  by (simp add: unat_of_nat)

lemma unat_lt_u32 [word_facts]: "unat (x :: u32) < 4294967296"
  using unsigned_less [of x] by simp

lemma unat_add_nowrap [word_facts]:
  "unat (x :: u32) + unat y < 4294967296 \<Longrightarrow> unat (x + y) = unat x + unat y"
  by (simp add: unat_word_ariths)

lemma unat_sub_nowrap [word_facts]:
  "unat (y :: u32) \<le> unat x \<Longrightarrow> unat (x - y) = unat x - unat y"
  by (simp add: unat_sub_if_size)

lemma ucast_u64_u32 [simp]: "(ucast (ucast (a :: u32) :: u64) :: u32) = a"
  by (rule bit_word_eqI) (auto simp: bit_simps)

lemma take_bit_0_bits:
  fixes x :: "'a::len word"
  assumes "take_bit k x = 0" and "n < k"
  shows "\<not> bit x n"
  using arg_cong [OF assms(1), of "\<lambda>w. bit w n"] assms(2) by (simp add: bit_take_bit_iff)

lemma drop_bit_0_bits:
  fixes x :: "'a::len word"
  assumes "drop_bit k x = 0" and "k \<le> n"
  shows "\<not> bit x n"
  using arg_cong [OF assms(1), of "\<lambda>w. bit w (n - k)"] assms(2) by (simp add: bit_drop_bit_eq)

text \<open>The byte addresses of \<open>n\<close> bytes that start at \<open>a\<close>.\<close>

definition region :: "u32 \<Rightarrow> nat \<Rightarrow> u32 set" where
  "region a n = (\<lambda>i. a + of_nat i) ` {..<n}"

lemma region_0 [simp]: "region a 0 = {}"
  by (simp add: region_def)

lemma region_Suc: "region a (Suc n) = insert a (region (a + 1) n)"
  by (auto simp: region_def lessThan_Suc_eq_insert_0 image_image offset_Suc)

lemma region_Suc_last: "region a (Suc n) = insert (a + of_nat n) (region a n)"
  by (simp add: region_def lessThan_Suc)

lemma in_region [intro]: "i < n \<Longrightarrow> a + of_nat i \<in> region a n"
  by (auto simp: region_def)

lemma region_mono: "n \<le> k \<Longrightarrow> region a n \<subseteq> region a k"
  by (auto simp: region_def)

lemma region_shift: "region (a + of_nat k) l \<subseteq> region a (k + l)"
  by (auto simp: region_def add.assoc simp flip: of_nat_add)

lemma region_bounds: "x \<in> region a n \<Longrightarrow> unat a + n < 4294967296 \<Longrightarrow> unat a \<le> unat x \<and> unat x < unat a + n"
  by (auto simp: region_def unat_add_nowrap unat_of_nat_u32)

lemma region_apart:
  assumes "unat a + n \<le> unat b \<or> unat b + k \<le> unat a" and "unat a + n < 4294967296" and "unat b + k < 4294967296"
  shows "region a n \<inter> region b k = {}"
  using assms region_bounds [of _ a n] region_bounds [of _ b k] by fastforce

section \<open>Signed views\<close>

text \<open>
  C's \<^verbatim>\<open>int\<close> comparisons read a 32-bit word as two's complement; a \<^verbatim>\<open>char\<close> widened
  to \<^verbatim>\<open>int\<close> keeps its sign.
\<close>

definition int_of_char :: "u8 \<Rightarrow> int" where
  "int_of_char c = sint c"

lemma int_of_char_eq_iff [simp]: "int_of_char a = int_of_char b \<longleftrightarrow> a = b"
  by (simp add: int_of_char_def flip: word_eq_iff_signed)

lemma int_of_char_0 [simp]: "int_of_char 0 = 0"
  by (simp add: int_of_char_def)

lemma int_of_char_eq_0_iff [simp]: "int_of_char a = 0 \<longleftrightarrow> a = 0"
  using int_of_char_eq_iff [of a 0] by (simp del: int_of_char_eq_iff)

lemma int_of_char_range: "- 128 \<le> int_of_char c \<and> int_of_char c < 128"
  using sint_range_size [of c] by (simp add: int_of_char_def word_size)

lemma sint_diff_small:
  fixes x y :: u32
  assumes "\<bar>sint x - sint y\<bar> < 2147483648"
  shows "sint (x - y) = sint x - sint y"
  unfolding sint_word_ariths(2) by (rule signed_take_bit_int_eq_self) (use assms in simp_all)

lemma sint_of_int_small: "\<bar>k\<bar> < 2147483648 \<Longrightarrow> sint (word_of_int k :: u32) = k"
  by (simp add: sint_sbintrunc') (rule signed_take_bit_int_eq_self; simp)

text \<open>
  The value an \<^verbatim>\<open>int\<close> holds after a signed operation with the exact result \<open>x\<close>: two's complement
  at 32 bits, as the compiled code computes it. Within the range of the type it is \<open>x\<close> itself.
\<close>

definition i32 :: "int \<Rightarrow> int" where
  "i32 x = sint (word_of_int x :: u32)"

lemma i32_id: "- 2147483648 \<le> x \<Longrightarrow> x < 2147483648 \<Longrightarrow> i32 x = x"
  unfolding i32_def by (simp add: sint_sbintrunc') (rule signed_take_bit_int_eq_self; simp)

lemma i32_range: "- 2147483648 \<le> i32 x \<and> i32 x < 2147483648"
  using sint_range_size [of "word_of_int x :: u32"] by (simp add: i32_def word_size)

lemma word_of_int_i32 [word_facts]: "(word_of_int (i32 x) :: u32) = word_of_int x"
  by (simp add: i32_def)

lemma i32_sint [simp]: "i32 (sint (w :: u32)) = sint w"
  by (simp add: i32_def)

lemma i32_i32 [simp]: "i32 (i32 x) = i32 x"
  by (simp add: i32_def)

lemma sint_u32_range: "- 2147483648 \<le> sint (w :: u32) \<and> sint w < 2147483648"
  using i32_range [of "sint w"] by simp

text \<open>C's integer division truncates towards zero; the remainder has the dividend's sign.\<close>

definition sdiv_c :: "int \<Rightarrow> int \<Rightarrow> int" where
  "sdiv_c a b = (if (0 \<le> a) = (0 \<le> b) then \<bar>a\<bar> div \<bar>b\<bar> else - (\<bar>a\<bar> div \<bar>b\<bar>))"

definition smod_c :: "int \<Rightarrow> int \<Rightarrow> int" where
  "smod_c a b = a - sdiv_c a b * b"

lemma sdiv_c_nonneg: "0 \<le> a \<Longrightarrow> 0 \<le> b \<Longrightarrow> sdiv_c a b = a div b"
  by (simp add: sdiv_c_def)

lemma smod_c_nonneg: "0 \<le> a \<Longrightarrow> 0 \<le> b \<Longrightarrow> smod_c a b = a mod b"
  by (simp add: smod_c_def sdiv_c_nonneg minus_div_mult_eq_mod)

section \<open>Little-endian words in memory\<close>

definition load32 :: "mem \<Rightarrow> u32 \<Rightarrow> u32" where
  "load32 m a = ucast (m a) OR push_bit 8 (ucast (m (a + 1)))
     OR push_bit 16 (ucast (m (a + 2))) OR push_bit 24 (ucast (m (a + 3)))"

definition store32 :: "mem \<Rightarrow> u32 \<Rightarrow> u32 \<Rightarrow> mem" where
  "store32 m a v = m(a := ucast v, a + 1 := ucast (drop_bit 8 v),
     a + 2 := ucast (drop_bit 16 v), a + 3 := ucast (drop_bit 24 v))"

lemma load32_store32_same [mem_simps]: "load32 (store32 m a v) a = v"
proof (rule bit_word_eqI)
  fix n assume "n < LENGTH(32)"
  then have n: "n < 32" by simp
  consider "n < 8" | "8 \<le> n" "n < 16" | "16 \<le> n" "n < 24" | "24 \<le> n"
    by linarith
  then show "bit (load32 (store32 m a v) a) n = bit v n"
    using n by cases
      (auto simp: load32_def store32_def bit_simps
        simp del: add_Suc_right)
qed

lemma store32_other: "c \<notin> {a, a + 1, a + 2, a + 3} \<Longrightarrow> store32 m a v c = m c"
  by (simp add: store32_def)

text \<open>Naturally aligned words never overlap unless they are the same word.\<close>

definition aligned4 :: "u32 \<Rightarrow> bool" where
  "aligned4 a \<longleftrightarrow> unat a mod 4 = 0"

lemma unat_aligned4_add:
  assumes "aligned4 a" and "i < 4"
  shows "unat (a + of_nat i) = unat a + i"
proof -
  have "unat a < 4294967296" by (rule unat_lt_u32)
  with assms have "unat a + i < 4294967296"
    unfolding aligned4_def by presburger
  with assms show ?thesis
    by (simp add: unat_add_nowrap unat_of_nat_u32)
qed

lemma aligned4_disjoint:
  assumes "aligned4 a" and "aligned4 b" and "a \<noteq> b" and "i < 4" and "j < 4"
  shows "a + of_nat i \<noteq> b + of_nat j"
proof
  assume "a + of_nat i = b + of_nat j"
  then have eq: "unat a + i = unat b + j"
    using unat_aligned4_add assms by metis
  then have "i = j"
    using assms(1,2,4,5) unfolding aligned4_def by presburger
  with eq assms(3) show False by (simp add: word_unat_eq_iff)
qed

lemma load32_store32_other [mem_simps]:
  assumes "aligned4 a" and "aligned4 b" and "a \<noteq> b"
  shows "load32 (store32 m a v) b = load32 m b"
proof -
  have *: "b + of_nat j \<notin> {a, a + 1, a + 2, a + 3}" if "j < 4" for j
    using aligned4_disjoint [OF assms(2,1), of j 0] aligned4_disjoint [OF assms(2,1), of j 1]
      aligned4_disjoint [OF assms(2,1), of j 2] aligned4_disjoint [OF assms(2,1), of j 3]
      assms(3) that by simp
  show ?thesis
    using * [of 0] * [of 1] * [of 2] * [of 3]
    by (simp add: load32_def store32_other)
qed

section \<open>Counting loops\<close>

text \<open>
  The search loop \<^verbatim>\<open>for (; i < n; i++) if (P) ...\<close>: the first index in \<open>[i, n)\<close> with the
  property, if there is one.
\<close>

function for_find :: "(nat \<Rightarrow> bool) \<Rightarrow> nat \<Rightarrow> nat \<Rightarrow> nat option" where
  "for_find P i n = (if i < n then if P i then Some i else for_find P (Suc i) n else None)"
  by pat_completeness auto
termination
  by (relation "measure (\<lambda>(P, i, n). n - i)") auto

declare for_find.simps [simp del]

lemma for_find_None_iff: "for_find P i n = None \<longleftrightarrow> (\<forall>j. i \<le> j \<and> j < n \<longrightarrow> \<not> P j)"
proof (induction P i n rule: for_find.induct)
  case (1 P i n)
  show ?case
  proof (cases "i < n \<and> \<not> P i")
    case True
    with 1 have "for_find P i n = None \<longleftrightarrow> (\<forall>j. Suc i \<le> j \<and> j < n \<longrightarrow> \<not> P j)"
      by (simp add: for_find.simps [of P i n])
    with True show ?thesis by (metis Suc_leI le_neq_implies_less Suc_leD)
  next
    case False
    then show ?thesis by (auto simp: for_find.simps [of P i n])
  qed
qed

lemma for_find_Some_iff:
  "for_find P i n = Some k \<longleftrightarrow> i \<le> k \<and> k < n \<and> P k \<and> (\<forall>j. i \<le> j \<and> j < k \<longrightarrow> \<not> P j)"
proof (induction P i n rule: for_find.induct)
  case (1 P i n)
  show ?case
  proof (cases "i < n \<and> \<not> P i")
    case True
    with 1 have "for_find P i n = Some k \<longleftrightarrow>
        Suc i \<le> k \<and> k < n \<and> P k \<and> (\<forall>j. Suc i \<le> j \<and> j < k \<longrightarrow> \<not> P j)"
      by (simp add: for_find.simps [of P i n])
    with True show ?thesis by (metis Suc_leI le_neq_implies_less Suc_leD)
  next
    case False
    then show ?thesis
      by (auto simp: for_find.simps [of P i n])
  qed
qed

lemma for_find_takeWhile:
  "for_find (\<lambda>i. P (xs ! i)) 0 (length xs) =
    (let k = length (takeWhile (\<lambda>x. \<not> P x) xs) in if k < length xs then Some k else None)"
proof (cases "length (takeWhile (\<lambda>x. \<not> P x) xs) < length xs")
  case True
  then have "P (xs ! length (takeWhile (\<lambda>x. \<not> P x) xs))"
    using nth_length_takeWhile by blast
  moreover have "\<not> P (xs ! j)" if "j < length (takeWhile (\<lambda>x. \<not> P x) xs)" for j
    using that by (metis nth_mem set_takeWhileD takeWhile_nth)
  ultimately show ?thesis
    using True by (simp add: for_find_Some_iff)
next
  case False
  then have "\<forall>x\<in>set xs. \<not> P x"
    by (metis length_takeWhile_le nat_less_le takeWhile_eq_all_conv takeWhile_eq_take take_all)
  with False show ?thesis
    by (auto simp: for_find_None_iff Let_def)
qed

text \<open>\<^verbatim>\<open>for (j = i; j < n; j++) body\<close> over a state.\<close>

function for_int :: "(int \<Rightarrow> 'a \<Rightarrow> 'a) \<Rightarrow> int \<Rightarrow> int \<Rightarrow> 'a \<Rightarrow> 'a" where
  "for_int f i n s = (if i < n then for_int f (i + 1) n (f i s) else s)"
  by pat_completeness auto
termination
  by (relation "measure (\<lambda>(f, i, n, s). nat (n - i))") auto

declare for_int.simps [simp del]

lemma for_int_done [simp]: "n \<le> i \<Longrightarrow> for_int f i n s = s"
  by (simp add: for_int.simps [of f i n s])

lemma for_int_step: "i < n \<Longrightarrow> for_int f i n s = for_int f (i + 1) n (f i s)"
  by (simp add: for_int.simps [of f i n s])

lemma for_int_inv:
  assumes "P i s" and "i \<le> n" and "\<And>j t. i \<le> j \<Longrightarrow> j < n \<Longrightarrow> P j t \<Longrightarrow> P (j + 1) (f j t)"
  shows "P n (for_int f i n s)"
  using assms
proof (induction f i n s rule: for_int.induct)
  case (1 f i n s)
  show ?case
  proof (cases "i < n")
    case True
    have "P n (for_int f (i + 1) n (f i s))"
      by (rule "1.IH" [OF True]) (use True "1.prems" in auto)
    with True show ?thesis by (simp add: for_int_step)
  next
    case False
    with "1.prems" show ?thesis by simp
  qed
qed

lemma for_int_pres:
  assumes "P s" and "\<And>j t. i \<le> j \<Longrightarrow> j < n \<Longrightarrow> P t \<Longrightarrow> P (f j t)"
  shows "P (for_int f i n s)"
proof (cases "i \<le> n")
  case True
  then show ?thesis using assms by (intro for_int_inv [where P = "\<lambda>_. P"]) auto
qed (use assms in simp)

lemma for_int_snoc: "i \<le> n \<Longrightarrow> for_int f i (n + 1) s = f n (for_int f i n s)"
proof (induction f i n s rule: for_int.induct)
  case (1 f i n s)
  show ?case
  proof (cases "i < n")
    case True
    with 1 show ?thesis by (simp add: for_int_step)
  next
    case False
    with "1.prems" have "i = n" by simp
    then show ?thesis by (simp add: for_int_step)
  qed
qed

lemma for_int_shift: "for_int f i n s = for_int (\<lambda>j. f (j - k)) (i + k) (n + k) s"
proof (induction f i n s rule: for_int.induct)
  case (1 f i n s)
  show ?case
  proof (cases "i < n")
    case True
    have "for_int (\<lambda>j. f (j - k)) (i + k) (n + k) s = for_int (\<lambda>j. f (j - k)) (i + 1 + k) (n + k) (f i s)"
      using True by (simp add: for_int_step [of "i + k"] algebra_simps)
    also have "\<dots> = for_int f (i + 1) n (f i s)" using "1.IH" [OF True] by simp
    finally show ?thesis using True by (simp add: for_int_step)
  qed simp
qed

section \<open>NUL-terminated strings in memory\<close>

text \<open>\<open>cstr m s xs\<close>: the bytes \<open>xs\<close>, none of them zero, start at \<open>s\<close> and end with a zero.\<close>

primrec cstr :: "mem \<Rightarrow> u32 \<Rightarrow> u8 list \<Rightarrow> bool" where
  "cstr m s [] \<longleftrightarrow> m s = 0"
| "cstr m s (x # xs) \<longleftrightarrow> m s = x \<and> x \<noteq> 0 \<and> cstr m (s + 1) xs"

lemma cstr_drop: "cstr m s xs \<Longrightarrow> i \<le> length xs \<Longrightarrow> cstr m (s + of_nat i) (drop i xs)"
proof (induction xs arbitrary: s i)
  case (Cons x xs)
  then show ?case by (cases i) (auto simp: add.assoc [symmetric])
qed simp

lemma cstr_nth: "cstr m s xs \<Longrightarrow> i < length xs \<Longrightarrow> m (s + of_nat i) = xs ! i \<and> xs ! i \<noteq> 0"
proof (induction xs arbitrary: s i)
  case (Cons x xs)
  then show ?case by (cases i) (auto simp: add.assoc [symmetric])
qed simp

lemma cstr_end: "cstr m s xs \<Longrightarrow> m (s + of_nat (length xs)) = 0"
  using cstr_drop [of m s xs "length xs"] by simp

lemma cstr_unique: "cstr m s xs \<Longrightarrow> cstr m s ys \<Longrightarrow> xs = ys"
proof (induction xs arbitrary: s ys)
  case Nil
  then show ?case by (cases ys) auto
next
  case (Cons x xs)
  then show ?case by (cases ys) auto
qed

lemma cstr_cong:
  "(\<And>x. x \<in> region s (Suc (length xs)) \<Longrightarrow> m x = m' x) \<Longrightarrow> cstr m s xs = cstr m' s xs"
proof (induction xs arbitrary: s)
  case (Cons x xs)
  then show ?case by (simp add: region_Suc [of s])
qed (simp add: region_Suc)

lemma cstr_intro:
  assumes "\<And>i. i < length xs \<Longrightarrow> m (s + of_nat i) = xs ! i \<and> xs ! i \<noteq> 0"
    and "m (s + of_nat (length xs)) = 0"
  shows "cstr m s xs"
  using assms
proof (induction xs arbitrary: s)
  case (Cons x xs)
  have head: "m s = x \<and> x \<noteq> 0" using Cons.prems(1) [of 0] by simp
  have "cstr m (s + 1) xs"
  proof (rule Cons.IH)
    fix i assume "i < length xs"
    then show "m (s + 1 + of_nat i) = xs ! i \<and> xs ! i \<noteq> 0"
      using Cons.prems(1) [of "Suc i"] by (simp only: offset_Suc) simp
  next
    show "m (s + 1 + of_nat (length xs)) = 0"
      using Cons.prems(2) by (simp only: length_Cons offset_Suc)
  qed
  with head show ?case by simp
qed simp

lemma cstr_iff_nth:
  "cstr m s xs \<longleftrightarrow> (\<forall>i<length xs. m (s + of_nat i) = xs ! i \<and> xs ! i \<noteq> 0) \<and>
     m (s + of_nat (length xs)) = 0"
proof
  assume "cstr m s xs"
  then show "(\<forall>i<length xs. m (s + of_nat i) = xs ! i \<and> xs ! i \<noteq> 0) \<and>
     m (s + of_nat (length xs)) = 0"
    by (simp add: cstr_nth cstr_end)
next
  assume "(\<forall>i<length xs. m (s + of_nat i) = xs ! i \<and> xs ! i \<noteq> 0) \<and>
     m (s + of_nat (length xs)) = 0"
  then show "cstr m s xs" by (intro cstr_intro) auto
qed

text \<open>The bytes of a string literal.\<close>

definition bytes :: "string \<Rightarrow> u8 list" where
  "bytes s = map of_char s"

lemma bytes_simps [simp]: "bytes [] = []" "bytes (c # s) = of_char c # bytes s" "length (bytes s) = length s"
  by (simp_all add: bytes_def)

section \<open>Invariants of step relations\<close>

text \<open>
  The contract of a state machine and an invariant: every step keeps it. It then holds in every state that
  is reached, by steps, by rounds of a function or by a sequence of events.
\<close>

locale kept_by_steps =
  fixes step :: "'s \<Rightarrow> 's \<Rightarrow> bool" and inv :: "'s \<Rightarrow> bool"
  assumes step_keeps: "step s t \<Longrightarrow> inv s \<Longrightarrow> inv t"
begin

lemma reachable: "step\<^sup>*\<^sup>* s t \<Longrightarrow> inv s \<Longrightarrow> inv t"
  by (induction rule: rtranclp_induct) (use step_keeps in blast)+

lemma rounds: "(\<And>s. step s (f s)) \<Longrightarrow> inv s \<Longrightarrow> inv ((f ^^ n) s)"
  by (induction n) (use step_keeps in auto)

lemma events:
  assumes "\<And>e s. step s (f e s)"
  shows "inv s \<Longrightarrow> inv (fold f es s)"
proof (induction es arbitrary: s)
  case (Cons e es)
  then have "inv (f e s)" using step_keeps [OF assms] by blast
  with Cons show ?case by simp
qed simp

end

end
