(* ===== verification/Mm.thy ===== *)
theory Mm
  imports CBase
begin

text \<open>
  The physical memory manager (\<^verbatim>\<open>mm.c\<close>, \<^verbatim>\<open>include/mm.h\<close>): a pool of block descriptors
  chained into a singly linked list, filled from the multiboot memory map by \<open>mem_init\<close>,
  searched first-fit by \<open>mem_malloc\<close>, and walked by \<open>mem_free\<close> and \<open>mem_get_size\<close>.
  The list-level functions \<open>alloc\<close> and \<open>release\<close> are the abstract specification that the
  pointer-level operations refine; the interface \<open>region_allocator\<close> is what clients of the
  allocator rely on.
\<close>

section \<open>State\<close>

definition NR_BLOCKS :: nat where "NR_BLOCKS = 10240"
definition MEM_FREE :: u32 where "MEM_FREE = 1"
definition MEM_USED :: u32 where "MEM_USED = 0x10"

text \<open>
  A pointer to a block descriptor: \<open>Null\<close>, the address of \<open>blocks[i]\<close>, or \<open>Wild\<close>, the
  address \<^verbatim>\<open>&t\<close> of a local variable that the exhausted-pool branch of \<open>mem_malloc\<close> links
  into the list.
\<close>

datatype blkptr = Null | Blk nat | Wild

record mem_block =
  blk_addr :: u32
  blk_size :: u32
  blk_type :: u32
  blk_next :: blkptr

text \<open>
  \<open>ram\<close> is the memory the blocks describe, \<open>blocks_base\<close> the address of the static array and
  \<open>frame_slot\<close> the address of the local \<^verbatim>\<open>t\<close> (the two values the C program takes from the
  linker and the stack).
\<close>

record mm_state =
  ram :: mem
  blocks :: "nat \<Rightarrow> mem_block"
  block_head :: blkptr
  block_tail :: blkptr
  mem_nr :: nat
  blocks_base :: u32
  frame_slot :: u32

datatype mm_error =
    Wild_pointer      \<comment> \<open>the list walk dereferences \<^verbatim>\<open>&t\<close>\<close>
  | No_return_value   \<comment> \<open>\<open>mem_get_size\<close> falls off its end\<close>
  | Blocks_overflow   \<comment> \<open>\<open>mem_init\<close> writes past \<open>blocks[NR_BLOCKS]\<close>\<close>

definition ptr_value :: "mm_state \<Rightarrow> blkptr \<Rightarrow> u32" where
  "ptr_value s p = (case p of Null \<Rightarrow> 0 | Blk i \<Rightarrow> blocks_base s + of_nat (16 * i)
     | Wild \<Rightarrow> frame_slot s)"

section \<open>Building the list from the multiboot memory map\<close>

definition mmap_entry :: "mem \<Rightarrow> u32 \<Rightarrow> blkptr \<Rightarrow> mem_block" where
  "mmap_entry m e nx = \<lparr>blk_addr = load32 m (e + 4), blk_size = load32 m (e + 12),
     blk_type = load32 m (e + 20), blk_next = nx\<rparr>"

definition add_block :: "u32 \<Rightarrow> mm_state \<Rightarrow> mm_state" where
  "add_block e s =
     (let k = mem_nr s;
          b = mmap_entry (ram s) e (block_head s)
      in s\<lparr>blocks := (blocks s)(k := b), block_head := Blk k,
           block_tail := (if block_head s = Null then Blk k else block_tail s),
           mem_nr := Suc k\<rparr>)"

partial_function (option) mem_init_loop ::
  "u32 \<Rightarrow> u32 \<Rightarrow> mm_state \<Rightarrow> (mm_error + mm_state) option" where
  "mem_init_loop stop mmap s =
     (if mmap < stop
      then if mem_nr s < NR_BLOCKS
           then mem_init_loop stop (mmap + load32 (ram s) mmap + 4) (add_block mmap s)
           else Some (Inl Blocks_overflow)
      else Some (Inr s))"

definition mem_init :: "u32 \<Rightarrow> mm_state \<Rightarrow> (mm_error + mm_state) option" where
  "mem_init mbi s =
     (let mmap_length = load32 (ram s) (mbi + 44);
          mmap_addr = load32 (ram s) (mbi + 48)
      in mem_init_loop (mmap_addr + mmap_length) mmap_addr
           (s\<lparr>block_head := Null, mem_nr := 0\<rparr>))"

section \<open>Allocation and release\<close>

definition fits :: "u32 \<Rightarrow> mem_block \<Rightarrow> bool" where
  "fits n b \<longleftrightarrow> blk_type b = MEM_FREE \<and> n \<le> blk_size b"

text \<open>The first block of the walk \<^verbatim>\<open>for(;p!=NULL;p=p->next)\<close> that satisfies a test.\<close>

partial_function (option) find_block ::
  "(mem_block \<Rightarrow> bool) \<Rightarrow> (nat \<Rightarrow> mem_block) \<Rightarrow> blkptr \<Rightarrow> (mm_error + nat option) option" where
  "find_block P h p =
     (case p of
        Null \<Rightarrow> Some (Inr None)
      | Wild \<Rightarrow> Some (Inl Wild_pointer)
      | Blk i \<Rightarrow> if P (h i) then Some (Inr (Some i)) else find_block P h (blk_next (h i)))"

definition split_block :: "nat \<Rightarrow> u32 \<Rightarrow> mm_state \<Rightarrow> u32 \<times> mm_state" where
  "split_block i n s =
     (let p = blocks s i; k = mem_nr s;
          b = \<lparr>blk_addr = blk_addr p + blk_size p - n, blk_size = n, blk_type = MEM_USED,
               blk_next = blk_next p\<rparr>;
          p' = p\<lparr>blk_size := blk_size p - n, blk_next := Blk k\<rparr>
      in (blk_addr b, s\<lparr>blocks := (blocks s)(k := b, i := p'), mem_nr := Suc k\<rparr>))"

text \<open>
  The branch marked \<^verbatim>\<open>fix me\<close>, after its recursive call returned \<open>t\<close>: a descriptor is
  written through \<open>t\<close> into raw memory, and \<^verbatim>\<open>p->next\<close> receives \<^verbatim>\<open>&t\<close>.
\<close>

definition split_outside :: "nat \<Rightarrow> u32 \<Rightarrow> u32 \<Rightarrow> mm_state \<Rightarrow> u32 \<times> mm_state" where
  "split_outside i n t s =
     (let p = blocks s i;
          a = blk_addr p + blk_size p - n;
          r1 = store32 (ram s) t a;
          r2 = store32 r1 (t + 4) n;
          r3 = store32 r2 (t + 8) MEM_USED;
          r4 = store32 r3 (t + 12) (ptr_value s (blk_next p))
      in (load32 r4 t, s\<lparr>ram := r4, blocks := (blocks s)(i := p\<lparr>blk_next := Wild\<rparr>),
           mem_nr := Suc (mem_nr s)\<rparr>))"

partial_function (option) mem_malloc ::
  "u32 \<Rightarrow> mm_state \<Rightarrow> ((mm_error + u32) \<times> mm_state) option" where
  "mem_malloc n s = Option.bind (find_block (fits n) (blocks s) (block_head s)) (\<lambda>r.
     case r of
       Inl e \<Rightarrow> Some (Inl e, s)
     | Inr None \<Rightarrow> Some (Inr 0, s)
     | Inr (Some i) \<Rightarrow>
         let p = blocks s i in
         if blk_size p = n
         then Some (Inr (blk_addr p), s\<lparr>blocks := (blocks s)(i := p\<lparr>blk_type := MEM_USED\<rparr>)\<rparr>)
         else if mem_nr s < NR_BLOCKS - 1
         then (case split_block i n s of (a, s') \<Rightarrow> Some (Inr a, s'))
         else Option.bind (mem_malloc 16 s) (\<lambda>(q, s1).
                case q of
                  Inl e \<Rightarrow> Some (Inl e, s1)
                | Inr t \<Rightarrow> (case split_outside i n t s1 of (a, s2) \<Rightarrow> Some (Inr a, s2))))"

definition mem_free :: "u32 \<Rightarrow> mm_state \<Rightarrow> (mm_error + mm_state) option" where
  "mem_free a s = Option.bind (find_block (\<lambda>b. blk_addr b = a) (blocks s) (block_head s)) (\<lambda>r.
     case r of
       Inl e \<Rightarrow> Some (Inl e)
     | Inr None \<Rightarrow> Some (Inr s)
     | Inr (Some i) \<Rightarrow>
         Some (Inr (s\<lparr>blocks := (blocks s)(i := (blocks s i)\<lparr>blk_type := MEM_FREE\<rparr>)\<rparr>)))"

definition mem_get_size :: "u32 \<Rightarrow> mm_state \<Rightarrow> (mm_error + u32) option" where
  "mem_get_size a s = Option.bind (find_block (\<lambda>b. blk_addr b = a) (blocks s) (block_head s)) (\<lambda>r.
     case r of
       Inl e \<Rightarrow> Some (Inl e)
     | Inr None \<Rightarrow> Some (Inl No_return_value)
     | Inr (Some i) \<Rightarrow> Some (Inr (blk_size (blocks s i))))"

section \<open>Abstract specification: a list of blocks\<close>

text \<open>An abstract block: base address, size and type.\<close>

type_synonym blk = "u32 \<times> u32 \<times> u32"

definition blk_of :: "mem_block \<Rightarrow> blk" where
  "blk_of b = (blk_addr b, blk_size b, blk_type b)"

fun alloc :: "u32 \<Rightarrow> blk list \<Rightarrow> (u32 \<times> blk list) option" where
  "alloc n [] = None"
| "alloc n ((a, sz, t) # bs) =
     (if t = MEM_FREE \<and> sz = n then Some (a, (a, sz, MEM_USED) # bs)
      else if t = MEM_FREE \<and> n < sz
      then Some (a + sz - n, (a, sz - n, t) # (a + sz - n, n, MEM_USED) # bs)
      else map_option (apsnd ((#) (a, sz, t))) (alloc n bs))"

fun release :: "u32 \<Rightarrow> blk list \<Rightarrow> blk list" where
  "release x [] = []"
| "release x ((a, sz, t) # bs) =
     (if a = x then (a, sz, MEM_FREE) # bs else (a, sz, t) # release x bs)"

text \<open>The addresses a block covers, as numbers, so that no wrap-around is hidden.\<close>

definition span :: "u32 \<Rightarrow> u32 \<Rightarrow> nat set" where
  "span a n = {unat a ..< unat a + unat n}"

definition bytes_where :: "(u32 \<Rightarrow> bool) \<Rightarrow> blk list \<Rightarrow> nat set" where
  "bytes_where P bs = (\<Union>(a, sz, t)\<in>set bs. if P t then span a sz else {})"

abbreviation free_bytes :: "blk list \<Rightarrow> nat set" where
  "free_bytes \<equiv> bytes_where (\<lambda>t. t = MEM_FREE)"

abbreviation taken_bytes :: "blk list \<Rightarrow> nat set" where
  "taken_bytes \<equiv> bytes_where (\<lambda>t. t \<noteq> MEM_FREE)"

fun wf_blocks :: "blk list \<Rightarrow> bool" where
  "wf_blocks [] = True"
| "wf_blocks ((a, sz, t) # bs) =
     (0 < sz \<and> unat a + unat sz \<le> 4294967296 \<and>
      span a sz \<inter> bytes_where (\<lambda>_. True) bs = {} \<and> wf_blocks bs)"

text \<open>The pointer-level list: which descriptors the head pointer reaches, in order.\<close>

fun chain :: "(nat \<Rightarrow> mem_block) \<Rightarrow> blkptr \<Rightarrow> nat list \<Rightarrow> bool" where
  "chain h p [] = (p = Null)"
| "chain h p (i # is) = (p = Blk i \<and> chain h (blk_next (h i)) is)"

definition mm_repr :: "mm_state \<Rightarrow> nat list \<Rightarrow> blk list \<Rightarrow> bool" where
  "mm_repr s is bs \<longleftrightarrow> chain (blocks s) (block_head s) is \<and> distinct is \<and>
     (\<forall>i\<in>set is. i < mem_nr s) \<and> bs = map (\<lambda>i. blk_of (blocks s i)) is"

section \<open>Walking a well-formed chain\<close>

lemma chain_upd [simp]: "i \<notin> set is \<Longrightarrow> chain (h(i := b)) p is = chain h p is"
  by (induction "is" arbitrary: p) auto

lemma chain_append:
  "chain h p (xs @ i # ys) \<Longrightarrow> chain (h(i := b)) p (xs @ i # zs) \<longleftrightarrow>
     chain (h(i := b)) (blk_next b) zs" if "i \<notin> set xs"
  using that by (induction xs arbitrary: p) auto

lemma chain_tail: "chain h p (xs @ i # ys) \<Longrightarrow> chain h (blk_next (h i)) ys"
  by (induction xs arbitrary: p) auto

text \<open>On a chain the walk terminates, meets no wild pointer and finds the first match.\<close>

lemma find_block_chain:
  "chain h p is \<Longrightarrow> find_block P h p = Some (Inr (List.find (\<lambda>i. P (h i)) is))"
proof (induction "is" arbitrary: p)
  case Nil
  then show ?case by (simp add: find_block.simps)
next
  case (Cons i "is")
  then show ?case by (simp add: find_block.simps [of P h "Blk i"])
qed

lemma find_split:
  assumes "List.find P xs = Some x"
  obtains ys zs where "xs = ys @ x # zs" and "P x" and "\<forall>y\<in>set ys. \<not> P y"
  using assms
proof (induction xs arbitrary: thesis)
  case (Cons a xs)
  show ?case
  proof (cases "P a")
    case True
    with Cons.prems(2) show ?thesis by (intro Cons.prems(1) [of "[]" xs]) auto
  next
    case False
    with Cons.prems(2) have "List.find P xs = Some x" by simp
    then obtain ys zs where "xs = ys @ x # zs" "P x" "\<forall>y\<in>set ys. \<not> P y"
      using Cons.IH by blast
    with False show ?thesis by (intro Cons.prems(1) [of "a # ys" zs]) auto
  qed
qed simp

section \<open>First-fit on lists\<close>

definition blk_fits :: "u32 \<Rightarrow> blk \<Rightarrow> bool" where
  "blk_fits n b = (case b of (a, sz, t) \<Rightarrow> t = MEM_FREE \<and> n \<le> sz)"

lemma fits_blk_of: "fits n b \<longleftrightarrow> blk_fits n (blk_of b)"
  by (simp add: fits_def blk_fits_def blk_of_def)

lemma alloc_append:
  "\<forall>b\<in>set xs. \<not> blk_fits n b \<Longrightarrow> alloc n (xs @ ys) = map_option (apsnd ((@) xs)) (alloc n ys)"
proof (induction xs)
  case Nil
  then show ?case by (cases "alloc n ys") auto
next
  case (Cons b xs)
  then show ?case
    by (cases b; cases "alloc n ys") (auto simp: blk_fits_def order_le_less)
qed

lemma alloc_None_iff: "alloc n bs = None \<longleftrightarrow> (\<forall>b\<in>set bs. \<not> blk_fits n b)"
  by (induction n bs rule: alloc.induct) (auto simp: blk_fits_def order_le_less)

lemma release_append:
  "\<forall>b\<in>set xs. fst b \<noteq> x \<Longrightarrow> release x (xs @ ys) = xs @ release x ys"
  by (induction xs) auto

lemma release_absent: "\<forall>b\<in>set xs. fst b \<noteq> x \<Longrightarrow> release x xs = xs"
  using release_append [of xs x "[]"] by simp

section \<open>Refinement of the pointer-level operations\<close>

abbreviation view :: "mm_state \<Rightarrow> nat list \<Rightarrow> blk list" where
  "view s is \<equiv> map (\<lambda>i. blk_of (blocks s i)) is"

lemma mm_reprD:
  assumes "mm_repr s is bs"
  shows "chain (blocks s) (block_head s) is" "distinct is" "\<forall>i\<in>set is. i < mem_nr s"
    "bs = view s is"
  using assms by (auto simp: mm_repr_def)

lemma mm_repr_set_type:
  fixes t :: u32
  assumes "mm_repr s (xs @ i # ys) bs"
  defines "s' \<equiv> s\<lparr>blocks := (blocks s)(i := (blocks s i)\<lparr>blk_type := t\<rparr>)\<rparr>"
  shows "mm_repr s' (xs @ i # ys)
    (view s xs @ (blk_addr (blocks s i), blk_size (blocks s i), t) # view s ys)"
proof -
  have "i \<notin> set xs" "i \<notin> set ys"
    using mm_reprD(2) [OF assms(1)] by auto
  moreover have "chain (blocks s') (block_head s') (xs @ i # ys)"
    using mm_reprD(1) [OF assms(1)] \<open>i \<notin> set xs\<close> \<open>i \<notin> set ys\<close>
    by (simp add: s'_def chain_append chain_tail)
  ultimately show ?thesis
    using assms(1) by (auto simp: mm_repr_def s'_def blk_of_def)
qed

lemma mm_repr_split:
  assumes "mm_repr s (xs @ i # ys) bs" and "split_block i n s = (a, s')"
  defines "p \<equiv> blocks s i"
  shows "mm_repr s' (xs @ i # mem_nr s # ys)
      (view s xs @ (blk_addr p, blk_size p - n, blk_type p)
        # (blk_addr p + blk_size p - n, n, MEM_USED) # view s ys)"
    and "a = blk_addr p + blk_size p - n" and "mem_nr s' = Suc (mem_nr s)" and "ram s' = ram s"
proof -
  let ?k = "mem_nr s"
  let ?b = "\<lparr>blk_addr = blk_addr p + blk_size p - n, blk_size = n, blk_type = MEM_USED,
    blk_next = blk_next p\<rparr>"
  let ?p = "p\<lparr>blk_size := blk_size p - n, blk_next := Blk ?k\<rparr>"
  have fresh: "?k \<notin> set (xs @ i # ys)"
    using mm_reprD(3) [OF assms(1)] by auto
  have i: "i \<notin> set xs" "i \<notin> set ys"
    using mm_reprD(2) [OF assms(1)] by auto
  have s': "s' = s\<lparr>blocks := (blocks s)(?k := ?b, i := ?p), mem_nr := Suc ?k\<rparr>"
    using assms(2) by (auto simp: split_block_def p_def Let_def)
  have "chain ((blocks s)(?k := ?b)) (block_head s) (xs @ i # ys)"
    using mm_reprD(1) [OF assms(1)] fresh by simp
  note reach = chain_append [OF i(1) this, of ?p "?k # ys"]
  have "chain (blocks s) (blk_next p) ys"
    using mm_reprD(1) [OF assms(1)] by (simp add: p_def chain_tail)
  then have "chain (blocks s') (block_head s') (xs @ i # ?k # ys)"
    using i fresh reach by (simp add: s')
  then show "mm_repr s' (xs @ i # ?k # ys)
      (view s xs @ (blk_addr p, blk_size p - n, blk_type p)
        # (blk_addr p + blk_size p - n, n, MEM_USED) # view s ys)"
    using assms(1) i fresh by (auto simp: mm_repr_def s' blk_of_def intro: less_SucI)
  show "a = blk_addr p + blk_size p - n" "mem_nr s' = Suc (mem_nr s)" "ram s' = ram s"
    using assms(2) by (auto simp: split_block_def p_def Let_def)
qed

lemma alloc_at:
  assumes "\<forall>b\<in>set xs. \<not> blk_fits n b" and "blk_fits n (a, sz, t)"
  shows "alloc n (xs @ (a, sz, t) # ys) =
    (if sz = n then Some (a, xs @ (a, sz, MEM_USED) # ys)
     else Some (a + sz - n, xs @ (a, sz - n, t) # (a + sz - n, n, MEM_USED) # ys))"
  using assms by (auto simp: alloc_append blk_fits_def)

lemma mem_malloc_refines:
  assumes r: "mm_repr s is bs" and room: "mem_nr s < NR_BLOCKS - 1"
  shows "case alloc n bs of
      None \<Rightarrow> mem_malloc n s = Some (Inr 0, s)
    | Some (a, bs') \<Rightarrow> \<exists>s' is'. mem_malloc n s = Some (Inr a, s') \<and> mm_repr s' is' bs' \<and>
        ram s' = ram s \<and> mem_nr s' \<le> Suc (mem_nr s)"
proof (cases "List.find (\<lambda>i. fits n (blocks s i)) is")
  case None
  have "alloc n bs = None"
    using None mm_reprD(4) [OF r] by (auto simp: alloc_None_iff find_None_iff fits_blk_of)
  with None mm_reprD(1) [OF r] show ?thesis
    by (simp add: mem_malloc.simps find_block_chain)
next
  case (Some i)
  then obtain xs ys where split: "is = xs @ i # ys" and fit: "fits n (blocks s i)"
    and nofit: "\<forall>j\<in>set xs. \<not> fits n (blocks s j)"
    by (rule find_split)
  let ?p = "blocks s i"
  have walk: "find_block (fits n) (blocks s) (block_head s) = Some (Inr (Some i))"
    using mm_reprD(1) [OF r] Some by (simp add: find_block_chain)
  have bs: "bs = view s xs @ (blk_addr ?p, blk_size ?p, blk_type ?p) # view s ys"
    using mm_reprD(4) [OF r] split by (simp add: blk_of_def)
  have "\<forall>b\<in>set (view s xs). \<not> blk_fits n b"
    using nofit by (auto simp: fits_blk_of)
  moreover have "blk_fits n (blk_addr ?p, blk_size ?p, blk_type ?p)"
    using fit by (simp add: fits_def blk_fits_def)
  ultimately have al: "alloc n bs = (if blk_size ?p = n
      then Some (blk_addr ?p, view s xs @ (blk_addr ?p, blk_size ?p, MEM_USED) # view s ys)
      else Some (blk_addr ?p + blk_size ?p - n,
        view s xs @ (blk_addr ?p, blk_size ?p - n, blk_type ?p)
          # (blk_addr ?p + blk_size ?p - n, n, MEM_USED) # view s ys))"
    unfolding bs by (rule alloc_at)
  show ?thesis
  proof (cases "blk_size ?p = n")
    case True
    then show ?thesis
      using mm_repr_set_type [OF r [unfolded split], of MEM_USED]
      by (auto simp: al mem_malloc.simps [of n s] walk Let_def)
  next
    case False
    obtain a s' where sp: "split_block i n s = (a, s')"
      by (cases "split_block i n s")
    from False room mm_repr_split [OF r [unfolded split] sp] show ?thesis
      by (auto simp: al mem_malloc.simps [of n s] walk sp Let_def)
  qed
qed

lemma mem_free_refines:
  assumes r: "mm_repr s is bs"
  shows "\<exists>s'. mem_free a s = Some (Inr s') \<and> mm_repr s' is (release a bs) \<and>
    ram s' = ram s \<and> mem_nr s' = mem_nr s"
proof (cases "List.find (\<lambda>i. blk_addr (blocks s i) = a) is")
  case None
  then have "release a bs = bs"
    using mm_reprD(4) [OF r] by (intro release_absent) (auto simp: find_None_iff blk_of_def)
  with None r mm_reprD(1) [OF r] show ?thesis
    by (simp add: mem_free_def find_block_chain)
next
  case (Some i)
  then obtain xs ys where split: "is = xs @ i # ys" and hit: "blk_addr (blocks s i) = a"
    and miss: "\<forall>j\<in>set xs. blk_addr (blocks s j) \<noteq> a"
    by (rule find_split)
  have "release a bs = view s xs @ (blk_addr (blocks s i), blk_size (blocks s i), MEM_FREE) # view s ys"
    using mm_reprD(4) [OF r] split hit miss by (simp add: release_append blk_of_def)
  with Some mm_reprD(1) [OF r] mm_repr_set_type [OF r [unfolded split], of MEM_FREE] split
  show ?thesis
    by (auto simp: mem_free_def find_block_chain)
qed

lemma mem_get_size_refines:
  assumes "mm_repr s is bs"
  shows "mem_get_size a s = Some (case List.find (\<lambda>b. fst b = a) bs of
     None \<Rightarrow> Inl No_return_value | Some (_, sz, _) \<Rightarrow> Inr sz)"
proof -
  have "List.find (\<lambda>b. fst b = a) (view s is) =
      map_option (\<lambda>i. blk_of (blocks s i)) (List.find (\<lambda>i. blk_addr (blocks s i) = a) is)"
    by (induction "is") (auto simp: blk_of_def)
  then show ?thesis
    using mm_reprD(1,4) [OF assms]
    by (auto simp: mem_get_size_def find_block_chain blk_of_def split: option.split)
qed

section \<open>Geometry of allocated blocks\<close>

lemma bytes_where_Nil [simp]: "bytes_where P [] = {}"
  by (simp add: bytes_where_def)

lemma bytes_where_Cons [simp]:
  "bytes_where P ((a, sz, t) # bs) = (if P t then span a sz else {}) \<union> bytes_where P bs"
  by (auto simp: bytes_where_def)

lemma bytes_where_mono: "(\<And>t. P t \<Longrightarrow> Q t) \<Longrightarrow> bytes_where P bs \<subseteq> bytes_where Q bs"
  by (fastforce simp: bytes_where_def split: if_splits)

lemma bytes_where_all: "bytes_where P bs \<subseteq> bytes_where (\<lambda>_. True) bs"
  by (rule bytes_where_mono) simp

lemma bytes_where_release_all:
  "bytes_where (\<lambda>_. True) (release x bs) = bytes_where (\<lambda>_. True) bs"
  by (induction x bs rule: release.induct) auto

lemma wf_blocks_release: "wf_blocks bs \<Longrightarrow> wf_blocks (release x bs)"
  by (induction x bs rule: release.induct) (auto simp: bytes_where_release_all)

lemma free_taken_disjoint: "wf_blocks bs \<Longrightarrow> free_bytes bs \<inter> taken_bytes bs = {}"
proof (induction bs)
  case (Cons b bs)
  obtain a sz t where b: "b = (a, sz, t)" by (cases b)
  with Cons.prems have "span a sz \<inter> bytes_where P bs = {}" for P
    using bytes_where_all [of P bs] by auto
  with Cons b show ?case by auto
qed simp

lemma free_taken_all: "free_bytes bs \<union> taken_bytes bs = bytes_where (\<lambda>_. True) bs"
  by (fastforce simp: bytes_where_def split: if_splits)

lemma unat_split_addr:
  assumes "n < (sz :: u32)" and "0 < n" and "unat a + unat sz \<le> 4294967296"
  shows "unat (a + sz - n) = unat a + unat sz - unat n" and "unat (sz - n) = unat sz - unat n"
    and "unat n < unat sz" and "0 < unat n"
proof -
  show n: "unat n < unat sz" "0 < unat n"
    using assms(1,2) by (simp_all add: word_less_nat_alt unat_gt_0)
  show sz: "unat (sz - n) = unat sz - unat n"
    using n by (simp add: unat_sub_nowrap)
  have eq: "a + sz - n = a + (sz - n)" by (simp add: algebra_simps)
  have "unat (a + (sz - n)) = unat a + unat (sz - n)"
    using assms(3) n sz by (intro unat_add_nowrap) simp
  then show "unat (a + sz - n) = unat a + unat sz - unat n"
    unfolding eq using sz n by simp
qed

text \<open>A split cuts the span of the free block into its front and the returned tail.\<close>

lemma span_split:
  assumes "n < (sz :: u32)" and "0 < n" and "unat a + unat sz \<le> 4294967296"
  shows "span a (sz - n) \<union> span (a + sz - n) n = span a sz"
    and "span a (sz - n) \<inter> span (a + sz - n) n = {}"
  using unat_split_addr [OF assms] by (auto simp: span_def)

lemma alloc_spec:
  assumes "alloc n bs = Some (a, bs')" and "wf_blocks bs" and "0 < n"
  shows "span a n \<subseteq> free_bytes bs \<and> wf_blocks bs' \<and>
    taken_bytes bs' = taken_bytes bs \<union> span a n \<and> free_bytes bs' = free_bytes bs - span a n \<and>
    bytes_where (\<lambda>_. True) bs' = bytes_where (\<lambda>_. True) bs"
  using assms
proof (induction n bs arbitrary: a bs' rule: alloc.induct)
  case (2 n x sz t bs)
  have wf: "0 < sz" "unat x + unat sz \<le> 4294967296" "wf_blocks bs"
    and disj: "span x sz \<inter> bytes_where (\<lambda>_. True) bs = {}"
    using "2.prems"(2) by auto
  have disj': "span x sz \<inter> bytes_where P bs = {}" for P
    using disj bytes_where_all [of P bs] by auto
  consider (exact) "t = MEM_FREE" "sz = n" | (cut) "t = MEM_FREE" "n < sz" "sz \<noteq> n"
    | (later) "\<not> (t = MEM_FREE \<and> sz = n)" "\<not> (t = MEM_FREE \<and> n < sz)"
    by auto
  then show ?case
  proof cases
    case exact
    with "2.prems"(1) wf disj disj' [of "\<lambda>t. t = MEM_FREE"] show ?thesis
      by (auto simp: MEM_FREE_def MEM_USED_def)
  next
    case cut
    note sp = span_split [OF cut(2) "2.prems"(3) wf(2)]
    note un = unat_split_addr [OF cut(2) "2.prems"(3) wf(2)]
    have "a = x + sz - n" "bs' = (x, sz - n, t) # (x + sz - n, n, MEM_USED) # bs"
      using "2.prems"(1) cut by auto
    moreover have "0 < sz - n" "0 < n" "unat x + unat (sz - n) \<le> 4294967296"
      "unat (x + sz - n) + unat n \<le> 4294967296"
      using un wf(2) "2.prems"(3) by (simp_all add: word_less_nat_alt)
    moreover have "span (x + sz - n) n \<inter> bytes_where (\<lambda>_. True) bs = {}"
      "span x (sz - n) \<inter> bytes_where (\<lambda>_. True) bs = {}"
      "span (x + sz - n) n \<inter> free_bytes bs = {}"
      using sp(1) disj disj' [of "\<lambda>t. t = MEM_FREE"] by auto
    ultimately show ?thesis
      using cut sp wf(3) by (auto simp: MEM_FREE_def MEM_USED_def)
  next
    case later
    then obtain bs'' where rec: "alloc n bs = Some (a, bs'')" and bs': "bs' = (x, sz, t) # bs''"
      using "2.prems"(1) by auto
    from "2.IH" [OF later rec wf(3) "2.prems"(3)] have IH: "span a n \<subseteq> free_bytes bs"
      "wf_blocks bs''" "taken_bytes bs'' = taken_bytes bs \<union> span a n"
      "free_bytes bs'' = free_bytes bs - span a n"
      "bytes_where (\<lambda>_. True) bs'' = bytes_where (\<lambda>_. True) bs"
      by auto
    moreover have "span x sz \<inter> span a n = {}"
      using IH(1) disj' [of "\<lambda>t. t = MEM_FREE"] by auto
    ultimately show ?thesis
      using bs' wf disj by auto
  qed
qed simp

lemma unat_in_span: "0 < n \<Longrightarrow> unat a \<in> span a n"
  by (simp add: span_def unat_gt_0)

lemma release_after_alloc:
  assumes "alloc n bs = Some (a, bs')" and "wf_blocks bs" and "0 < n"
  shows "taken_bytes (release a bs') = taken_bytes bs \<and> free_bytes (release a bs') = free_bytes bs"
  using assms
proof (induction n bs arbitrary: a bs' rule: alloc.induct)
  case (2 n x sz t bs)
  have wf: "0 < sz" "unat x + unat sz \<le> 4294967296" "wf_blocks bs"
    and disj: "span x sz \<inter> bytes_where (\<lambda>_. True) bs = {}"
    using "2.prems"(2) by auto
  consider (exact) "t = MEM_FREE" "sz = n" | (cut) "t = MEM_FREE" "n < sz" "sz \<noteq> n"
    | (later) "\<not> (t = MEM_FREE \<and> sz = n)" "\<not> (t = MEM_FREE \<and> n < sz)"
    by auto
  then show ?case
  proof cases
    case exact
    with "2.prems"(1) show ?thesis by auto
  next
    case cut
    note un = unat_split_addr [OF cut(2) "2.prems"(3) wf(2)]
    have "unat (x + sz - n) \<noteq> unat x" using un by simp
    then have "x \<noteq> x + sz - n" by metis
    with "2.prems"(1) cut span_split [OF cut(2) "2.prems"(3) wf(2)] show ?thesis by auto
  next
    case later
    then obtain bs'' where rec: "alloc n bs = Some (a, bs'')" and bs': "bs' = (x, sz, t) # bs''"
      using "2.prems"(1) by auto
    have "unat a \<in> free_bytes bs"
      using alloc_spec [OF rec wf(3) "2.prems"(3)] unat_in_span [OF "2.prems"(3)] by blast
    then have "x \<noteq> a"
      using disj unat_in_span [OF wf(1), of x] bytes_where_all by blast
    with "2.IH" [OF later rec wf(3) "2.prems"(3)] bs' show ?thesis by auto
  qed
qed simp

section \<open>The allocator as an interface\<close>

text \<open>
  What a client of the allocator relies on: while descriptors remain (\<open>room\<close>), a nonzero
  result is a span disjoint from everything taken before, and giving the span back restores
  what was taken. A zero result is C's \<^verbatim>\<open>NULL\<close>.
\<close>

locale region_allocator =
  fixes inv :: "'s \<Rightarrow> bool"
    and room :: "'s \<Rightarrow> nat"
    and taken :: "'s \<Rightarrow> nat set"
    and malloc :: "u32 \<Rightarrow> 's \<Rightarrow> u32 \<times> 's"
    and free :: "u32 \<Rightarrow> 's \<Rightarrow> 's"
  assumes malloc_keeps: "inv s \<Longrightarrow> 0 < n \<Longrightarrow> 0 < room s \<Longrightarrow> malloc n s = (a, s') \<Longrightarrow>
      inv s' \<and> room s \<le> Suc (room s') \<and> taken s \<subseteq> taken s'"
    and malloc_fresh: "inv s \<Longrightarrow> 0 < n \<Longrightarrow> 0 < room s \<Longrightarrow> malloc n s = (a, s') \<Longrightarrow> a \<noteq> 0 \<Longrightarrow>
      span a n \<inter> taken s = {} \<and> taken s' = taken s \<union> span a n"
    and free_undoes: "inv s \<Longrightarrow> 0 < n \<Longrightarrow> 0 < room s \<Longrightarrow> malloc n s = (a, s') \<Longrightarrow> a \<noteq> 0 \<Longrightarrow>
      inv (free a s') \<and> taken (free a s') = taken s"
begin

fun malloc_all :: "u32 list \<Rightarrow> 's \<Rightarrow> u32 list \<times> 's" where
  "malloc_all [] s = ([], s)"
| "malloc_all (n # ns) s =
     (case malloc n s of (a, s1) \<Rightarrow> case malloc_all ns s1 of (as, s2) \<Rightarrow> (a # as, s2))"

text \<open>Everything a sequence of calls hands out is new, and pairwise disjoint.\<close>

lemma malloc_all_disjoint:
  assumes "inv s" and "\<forall>n\<in>set ns. 0 < n" and "length ns \<le> room s"
    and "malloc_all ns s = (as, s')" and "\<forall>a\<in>set as. a \<noteq> 0"
  shows "length as = length ns \<and> taken s \<subseteq> taken s' \<and>
    (\<forall>i<length ns. span (as ! i) (ns ! i) \<subseteq> taken s' \<and> span (as ! i) (ns ! i) \<inter> taken s = {}) \<and>
    (\<forall>i<length ns. \<forall>j<i. span (as ! i) (ns ! i) \<inter> span (as ! j) (ns ! j) = {})"
  using assms
proof (induction ns arbitrary: s as)
  case (Cons n ns)
  obtain a s1 where m: "malloc n s = (a, s1)" by (cases "malloc n s")
  obtain as1 where rest: "malloc_all ns s1 = (as1, s')" and as: "as = a # as1"
    using Cons.prems(4) m by (auto split: prod.splits)
  have "0 < n" "0 < room s" "a \<noteq> 0" using Cons.prems as by auto
  note keep = malloc_keeps [OF Cons.prems(1) this(1,2) m]
  note fresh = malloc_fresh [OF Cons.prems(1) \<open>0 < n\<close> \<open>0 < room s\<close> m \<open>a \<noteq> 0\<close>]
  have IH: "length as1 = length ns" "taken s1 \<subseteq> taken s'"
    "\<forall>i<length ns. span (as1 ! i) (ns ! i) \<subseteq> taken s' \<and> span (as1 ! i) (ns ! i) \<inter> taken s1 = {}"
    "\<forall>i<length ns. \<forall>j<i. span (as1 ! i) (ns ! i) \<inter> span (as1 ! j) (ns ! j) = {}"
    using Cons.IH [of s1 as1] keep rest Cons.prems as by auto
  show ?case
    unfolding as using IH fresh keep
    by (auto simp: less_Suc_eq_0_disj nth_Cons' split: if_splits) blast+
qed simp

end

section \<open>The memory manager provides the interface\<close>

definition mm_inv :: "mm_state \<Rightarrow> bool" where
  "mm_inv s \<longleftrightarrow> (\<exists>is bs. mm_repr s is bs \<and> wf_blocks bs)"

definition mm_room :: "mm_state \<Rightarrow> nat" where
  "mm_room s = NR_BLOCKS - 1 - mem_nr s"

definition mm_taken :: "mm_state \<Rightarrow> nat set" where
  "mm_taken s = {x. \<exists>is bs. mm_repr s is bs \<and> x \<in> taken_bytes bs}"

text \<open>The pointer a C caller sees, and the state after the call.\<close>

definition malloc_step :: "u32 \<Rightarrow> mm_state \<Rightarrow> u32 \<times> mm_state" where
  "malloc_step n s = (case mem_malloc n s of Some (Inr a, s') \<Rightarrow> (a, s') | _ \<Rightarrow> (0, s))"

definition free_step :: "u32 \<Rightarrow> mm_state \<Rightarrow> mm_state" where
  "free_step a s = (case mem_free a s of Some (Inr s') \<Rightarrow> s' | _ \<Rightarrow> s)"

lemma chain_unique: "chain h p xs \<Longrightarrow> chain h p ys \<Longrightarrow> xs = ys"
proof (induction xs arbitrary: p ys)
  case Nil
  then show ?case by (cases ys) auto
next
  case (Cons x xs)
  then show ?case by (cases ys) auto
qed

lemma mm_repr_unique: "mm_repr s js cs \<Longrightarrow> mm_repr s is bs \<Longrightarrow> cs = bs"
  by (metis chain_unique mm_reprD(1,4))

lemma mm_taken_eq: "mm_repr s is bs \<Longrightarrow> mm_taken s = taken_bytes bs"
  unfolding mm_taken_def by (blast dest: mm_repr_unique)

text \<open>One call of \<open>mem_malloc\<close> on a well-formed pool with descriptors left.\<close>

lemma mem_malloc_cases:
  assumes r: "mm_repr s is bs" and wf: "wf_blocks bs" and room: "mem_nr s < NR_BLOCKS - 1"
    and n: "0 < n"
  obtains (none) "\<forall>b\<in>set bs. \<not> blk_fits n b" and "mem_malloc n s = Some (Inr 0, s)"
  | (some) a s' is' bs' where "\<exists>b\<in>set bs. blk_fits n b" and "mem_malloc n s = Some (Inr a, s')"
      and "alloc n bs = Some (a, bs')" and "mm_repr s' is' bs'" and "wf_blocks bs'"
      and "ram s' = ram s" and "mem_nr s' \<le> Suc (mem_nr s)"
proof (cases "alloc n bs")
  case None
  then have "\<forall>b\<in>set bs. \<not> blk_fits n b" by (simp add: alloc_None_iff)
  then show ?thesis
    using none mem_malloc_refines [OF r room, of n] None by simp
next
  case (Some p)
  obtain a bs' where p: "p = (a, bs')" by (cases p)
  obtain s' is' where "mem_malloc n s = Some (Inr a, s')" "mm_repr s' is' bs'" "ram s' = ram s"
    "mem_nr s' \<le> Suc (mem_nr s)"
    using mem_malloc_refines [OF r room, of n] Some p by auto
  moreover have "\<exists>b\<in>set bs. blk_fits n b"
    using Some alloc_None_iff [of n bs] by (cases "\<exists>b\<in>set bs. blk_fits n b") auto
  moreover have "wf_blocks bs'"
    using alloc_spec [of n bs a bs'] Some p wf n by simp
  ultimately show ?thesis
    using some Some p by simp
qed

interpretation pool: region_allocator mm_inv mm_room mm_taken malloc_step free_step
proof unfold_locales
  fix s n a s'
  assume "mm_inv s" and n: "0 < (n :: u32)" and room: "0 < mm_room s"
    and m: "malloc_step n s = (a, s')"
  then obtain "is" bs where r: "mm_repr s is bs" and wf: "wf_blocks bs"
    by (auto simp: mm_inv_def)
  have room': "mem_nr s < NR_BLOCKS - 1" using room by (simp add: mm_room_def)
  note tk = mm_taken_eq [OF r]
  show "mm_inv s' \<and> mm_room s \<le> Suc (mm_room s') \<and> mm_taken s \<subseteq> mm_taken s'"
    using r wf room' n
  proof (cases rule: mem_malloc_cases)
    case none
    then show ?thesis using m \<open>mm_inv s\<close> by (simp add: malloc_step_def)
  next
    case (some b t "is'" bs')
    then have "s' = t" using m by (simp add: malloc_step_def)
    with some tk mm_taken_eq [OF some(4)] alloc_spec [OF some(3) wf n]
    show ?thesis by (auto simp: mm_inv_def mm_room_def)
  qed
  assume "a \<noteq> 0"
  then obtain "is'" bs' where some: "mem_malloc n s = Some (Inr a, s')"
      "alloc n bs = Some (a, bs')" "mm_repr s' is' bs'" "wf_blocks bs'"
    using m by (cases rule: mem_malloc_cases [OF r wf room' n]) (auto simp: malloc_step_def)
  note al = alloc_spec [OF some(2) wf n]
  show "span a n \<inter> mm_taken s = {} \<and> mm_taken s' = mm_taken s \<union> span a n"
    using al free_taken_disjoint [OF wf] tk mm_taken_eq [OF some(3)] by auto
  obtain s'' where fr: "mem_free a s' = Some (Inr s'')" "mm_repr s'' is' (release a bs')"
    using mem_free_refines [OF some(3)] by blast
  show "mm_inv (free_step a s') \<and> mm_taken (free_step a s') = mm_taken s"
    using fr wf_blocks_release [OF some(4)] release_after_alloc [OF some(2) wf n]
      mm_taken_eq [OF fr(2)] tk
    by (auto simp: free_step_def mm_inv_def)
qed

section \<open>The initial list\<close>

text \<open>
  A multiboot map laid out in memory: the addresses of its entries, each followed by the next
  one \<^verbatim>\<open>size + 4\<close> bytes later, up to the end of the buffer.
\<close>

fun mmap_at :: "mem \<Rightarrow> u32 \<Rightarrow> u32 \<Rightarrow> u32 list \<Rightarrow> bool" where
  "mmap_at m stop e [] = (\<not> e < stop)"
| "mmap_at m stop e (x # xs) = (x = e \<and> e < stop \<and> mmap_at m stop (e + load32 m e + 4) xs)"

definition entry_blk :: "mem \<Rightarrow> u32 \<Rightarrow> blk" where
  "entry_blk m e = blk_of (mmap_entry m e Null)"

lemma entry_blk_next: "blk_of (mmap_entry m e p) = entry_blk m e"
  by (simp add: entry_blk_def mmap_entry_def blk_of_def)

lemma mm_repr_add_block:
  assumes "mm_repr s is bs"
  shows "mm_repr (add_block e s) (mem_nr s # is) (entry_blk (ram s) e # bs)"
proof -
  have "mem_nr s \<notin> set is"
    using mm_reprD(3) [OF assms] by auto
  moreover have "blk_next (mmap_entry m e p) = p" for m p
    by (simp add: mmap_entry_def)
  ultimately show ?thesis
    using assms by (auto simp: mm_repr_def add_block_def Let_def entry_blk_next intro: less_SucI)
qed

lemma add_block_frame [simp]:
  "ram (add_block e s) = ram s" "mem_nr (add_block e s) = Suc (mem_nr s)"
  by (simp_all add: add_block_def Let_def)

lemma mem_init_loop_builds:
  assumes "mmap_at (ram s) stop e es" and "mm_repr s is bs" and "mem_nr s + length es \<le> NR_BLOCKS"
  shows "\<exists>s' js. mem_init_loop stop e s = Some (Inr s') \<and>
    mm_repr s' js (rev (map (entry_blk (ram s)) es) @ bs) \<and>
    mem_nr s' = mem_nr s + length es \<and> ram s' = ram s"
  using assms
proof (induction es arbitrary: e s "is" bs)
  case Nil
  then show ?case by (auto simp: mem_init_loop.simps)
next
  case (Cons x es)
  have "\<exists>s' js. mem_init_loop stop (e + load32 (ram s) e + 4) (add_block e s) = Some (Inr s') \<and>
      mm_repr s' js (rev (map (entry_blk (ram s)) es) @ entry_blk (ram s) e # bs) \<and>
      mem_nr s' = Suc (mem_nr s) + length es \<and> ram s' = ram s"
    using Cons.IH [of "add_block e s"] mm_repr_add_block [OF Cons.prems(2), of e] Cons.prems
    by auto
  then show ?case
    using Cons.prems by (auto simp: mem_init_loop.simps [of stop e s])
qed

lemma mem_init_loop_overflow:
  assumes "mmap_at (ram s) stop e es" and "mem_nr s \<le> NR_BLOCKS" and "NR_BLOCKS < mem_nr s + length es"
  shows "mem_init_loop stop e s = Some (Inl Blocks_overflow)"
  using assms
proof (induction es arbitrary: e s)
  case (Cons x es)
  then show ?case
    using Cons.IH [of "add_block e s"] by (auto simp: mem_init_loop.simps [of stop e s])
qed simp

section \<open>Exhausted descriptors\<close>

text \<open>
  \<open>needs_split n bs\<close>: the first free block that can hold \<open>n\<close> bytes is larger than \<open>n\<close>.
\<close>

definition needs_split :: "u32 \<Rightarrow> blk list \<Rightarrow> bool" where
  "needs_split n bs = (case List.find (blk_fits n) bs of None \<Rightarrow> False | Some (a, sz, t) \<Rightarrow> sz \<noteq> n)"

lemma needs_split_find:
  assumes "mm_repr s is bs" and "needs_split n bs"
  obtains i where "find_block (fits n) (blocks s) (block_head s) = Some (Inr (Some i))"
    and "blk_size (blocks s i) \<noteq> n"
proof -
  have "List.find (blk_fits n) (view s is) =
      map_option (\<lambda>i. blk_of (blocks s i)) (List.find (\<lambda>i. fits n (blocks s i)) is)"
    by (induction "is") (auto simp: fits_blk_of)
  with assms that show ?thesis
    using find_block_chain [OF mm_reprD(1) [OF assms(1)], of "fits n"]
    by (auto simp: needs_split_def mm_reprD(4) [OF assms(1)] blk_of_def split: option.splits)
qed

lemma mem_malloc_exhausted:
  assumes "mem_malloc n s = Some r"
  shows "\<not> (mm_repr s is bs \<and> NR_BLOCKS - 1 \<le> mem_nr s \<and> needs_split n bs \<and> needs_split 16 bs)"
proof (rule mem_malloc.raw_induct [where P = "\<lambda>n s r. \<not> (mm_repr s is bs \<and>
    NR_BLOCKS - 1 \<le> mem_nr s \<and> needs_split n bs \<and> needs_split 16 bs)", OF _ assms], rule notI)
  fix f n s r
  assume IH: "\<And>n s r. f n s = Some r \<Longrightarrow> \<not> (mm_repr s is bs \<and> NR_BLOCKS - 1 \<le> mem_nr s \<and>
      needs_split n bs \<and> needs_split 16 bs)"
    and bad: "mm_repr s is bs \<and> NR_BLOCKS - 1 \<le> mem_nr s \<and> needs_split n bs \<and> needs_split 16 bs"
    and body: "Option.bind (find_block (fits n) (blocks s) (block_head s)) (\<lambda>r.
     case r of
       Inl e \<Rightarrow> Some (Inl e, s)
     | Inr None \<Rightarrow> Some (Inr 0, s)
     | Inr (Some i) \<Rightarrow>
         let p = blocks s i in
         if blk_size p = n
         then Some (Inr (blk_addr p), s\<lparr>blocks := (blocks s)(i := p\<lparr>blk_type := MEM_USED\<rparr>)\<rparr>)
         else if mem_nr s < NR_BLOCKS - 1
         then (case split_block i n s of (a, s') \<Rightarrow> Some (Inr a, s'))
         else Option.bind (f 16 s) (\<lambda>(q, s1).
                case q of
                  Inl e \<Rightarrow> Some (Inl e, s1)
                | Inr t \<Rightarrow> (case split_outside i n t s1 of (a, s2) \<Rightarrow> Some (Inr a, s2)))) = Some r"
  obtain i where "find_block (fits n) (blocks s) (block_head s) = Some (Inr (Some i))"
    "blk_size (blocks s i) \<noteq> n"
    using bad needs_split_find by blast
  with body bad obtain r' where "f 16 s = Some r'"
    by (cases "f 16 s") (auto simp: Let_def)
  with IH bad show False by blast
qed

section \<open>Properties\<close>

text \<open>A pool with one free block of 32 KiB, and the same with every descriptor in use.\<close>

definition demo_pool :: "nat \<Rightarrow> mm_state" where
  "demo_pool k = \<lparr>ram = (\<lambda>_. 0),
     blocks = (\<lambda>_. \<lparr>blk_addr = 0x100000, blk_size = 0x8000, blk_type = MEM_FREE, blk_next = Null\<rparr>),
     block_head = Blk 0, block_tail = Blk 0, mem_nr = Suc k, blocks_base = 0, frame_slot = 0\<rparr>"

lemma demo_pool_repr: "mm_repr (demo_pool k) [0] [(0x100000, 0x8000, MEM_FREE)]"
  by (simp add: mm_repr_def demo_pool_def blk_of_def)

lemma demo_pool_wf: "wf_blocks [(0x100000, 0x8000, MEM_FREE)]"
  by simp

lemma demo_pool_nr [simp]: "mem_nr (demo_pool k) = Suc k"
  by (simp add: demo_pool_def)

text \<open>
  Property C1. First-fit allocation is sound: on a well-formed pool with descriptors left, a
  request for \<open>n > 0\<close> bytes returns. If some free block is large enough the result is a span
  that was free, exactly that span becomes taken and nothing else changes; otherwise the
  result is \<^verbatim>\<open>NULL\<close> and the state is unchanged. The block list stays well-formed either way,
  and no byte of memory is written.
\<close>

theorem mem_malloc_correct:
  assumes "mm_repr s is bs" and "wf_blocks bs" and "mem_nr s < NR_BLOCKS - 1" and "0 < n"
  shows "\<exists>a s' is' bs'. mem_malloc n s = Some (Inr a, s') \<and> mm_repr s' is' bs' \<and> wf_blocks bs' \<and>
    ram s' = ram s \<and>
    (if \<exists>(b, sz, t)\<in>set bs. t = MEM_FREE \<and> n \<le> sz
     then span a n \<subseteq> free_bytes bs \<and> span a n \<inter> taken_bytes bs = {} \<and>
       taken_bytes bs' = taken_bytes bs \<union> span a n \<and> free_bytes bs' = free_bytes bs - span a n
     else a = 0 \<and> s' = s)"
  using assms
proof (cases rule: mem_malloc_cases)
  case none
  then show ?thesis
    using assms(1,2) by (auto simp: blk_fits_def)
next
  case (some a s' is' bs')
  then have "\<exists>(b, sz, t)\<in>set bs. t = MEM_FREE \<and> n \<le> sz"
    by (auto simp: blk_fits_def)
  with some alloc_spec [OF some(3) assms(2,4)] free_taken_disjoint [OF assms(2)]
  show ?thesis by (auto simp: Int_absorb2)
qed

theorem mem_malloc_correct_witness:
  "\<exists>a s' is' bs'. mem_malloc 0x1000 (demo_pool 0) = Some (Inr a, s') \<and> mm_repr s' is' bs' \<and>
    span a 0x1000 \<subseteq> free_bytes [(0x100000, 0x8000, MEM_FREE)]"
  using mem_malloc_correct [OF demo_pool_repr [of 0] demo_pool_wf, where n = "0x1000"]
  by (auto simp: NR_BLOCKS_def)

text \<open>
  Property C2. Allocation and release are inverse: freeing the address that \<open>mem_malloc\<close>
  returned finds the right descriptor, and afterwards exactly the bytes that were free (taken)
  before the allocation are free (taken) again, although the split block is not merged back.
\<close>

theorem mem_free_undoes_malloc:
  assumes "mm_repr s is bs" and "wf_blocks bs" and "mem_nr s < NR_BLOCKS - 1" and "0 < n"
    and "\<exists>(b, sz, t)\<in>set bs. t = MEM_FREE \<and> n \<le> sz"
  shows "\<exists>a s1 s2 is2 bs2. mem_malloc n s = Some (Inr a, s1) \<and> mem_free a s1 = Some (Inr s2) \<and>
    mm_repr s2 is2 bs2 \<and> wf_blocks bs2 \<and> free_bytes bs2 = free_bytes bs \<and>
    taken_bytes bs2 = taken_bytes bs"
  using assms(1-4)
proof (cases rule: mem_malloc_cases)
  case none
  then show ?thesis using assms(5) by (auto simp: blk_fits_def)
next
  case (some a s' is' bs')
  obtain s2 where "mem_free a s' = Some (Inr s2)" "mm_repr s2 is' (release a bs')"
    using mem_free_refines [OF some(4)] by blast
  with some release_after_alloc [OF some(3) assms(2,4)] wf_blocks_release [OF some(5)]
  show ?thesis by blast
qed

theorem mem_free_undoes_malloc_witness:
  "\<exists>a s1 s2. mem_malloc 0x1000 (demo_pool 0) = Some (Inr a, s1) \<and> mem_free a s1 = Some (Inr s2)"
  using mem_free_undoes_malloc [OF demo_pool_repr [of 0] demo_pool_wf, where n = "0x1000"]
  by (auto simp: NR_BLOCKS_def MEM_FREE_def)

text \<open>
  Property C3. \<open>mem_init\<close> turns the multiboot memory map into the block list: with room for
  every entry, the list holds exactly the entries' base, length and type, last entry first; a
  map with more entries than descriptors runs past the array.
\<close>

theorem mem_init_builds:
  assumes "mmap_at (ram s) (load32 (ram s) (mbi + 48) + load32 (ram s) (mbi + 44))
    (load32 (ram s) (mbi + 48)) es"
  shows "if length es \<le> NR_BLOCKS
    then \<exists>s' is. mem_init mbi s = Some (Inr s') \<and> mm_repr s' is (rev (map (entry_blk (ram s)) es)) \<and>
      mem_nr s' = length es
    else mem_init mbi s = Some (Inl Blocks_overflow)"
proof -
  let ?s = "s\<lparr>block_head := Null, mem_nr := 0\<rparr>"
  let ?e = "load32 (ram s) (mbi + 48)"
  let ?stop = "?e + load32 (ram s) (mbi + 44)"
  have "mm_repr ?s [] []" by (simp add: mm_repr_def)
  then show ?thesis
    using mem_init_loop_builds [of ?s ?stop ?e es "[]" "[]"]
      mem_init_loop_overflow [of ?s ?stop ?e es] assms
    by (auto simp: mem_init_def Let_def)
qed

text \<open>A map with one entry: 64 KiB of free memory at 1 MiB; the information block is at 0.\<close>

definition demo_mmap :: mem where
  "demo_mmap = store32 (store32 (store32 (store32 (store32 (store32 (\<lambda>_. 0)
     44 24) 48 0x100) 0x100 20) 0x104 0x100000) 0x10c 0x10000) 0x114 1"

theorem mem_init_builds_witness:
  "\<exists>s' is. mem_init 0 ((demo_pool 0)\<lparr>ram := demo_mmap\<rparr>) = Some (Inr s') \<and>
    mm_repr s' is [entry_blk demo_mmap 0x100] \<and> mem_nr s' = 1"
proof -
  have "mmap_at demo_mmap (load32 demo_mmap (0 + 48) + load32 demo_mmap (0 + 44))
      (load32 demo_mmap (0 + 48)) [0x100]"
    by (simp add: demo_mmap_def load32_def store32_def)
  then show ?thesis
    using mem_init_builds [of "(demo_pool 0)\<lparr>ram := demo_mmap\<rparr>" 0 "[0x100]"]
    by (simp add: NR_BLOCKS_def del: mmap_at.simps)
qed

text \<open>
  Property C4. The branch for an exhausted descriptor array never returns: when every
  descriptor is in use and the first fitting free block must be split both for the request and
  for the 16 bytes of a descriptor, \<open>mem_malloc\<close> calls itself with unchanged arguments for ever.
\<close>

theorem mem_malloc_exhausted_diverges:
  assumes "mm_repr s is bs" and "NR_BLOCKS - 1 \<le> mem_nr s"
    and "needs_split n bs" and "needs_split 16 bs"
  shows "mem_malloc n s = None"
  using mem_malloc_exhausted [of n s _ "is" bs] assms by (cases "mem_malloc n s") auto

theorem mem_malloc_exhausted_diverges_witness: "mem_malloc 0x1000 (demo_pool 10239) = None"
  by (rule mem_malloc_exhausted_diverges [OF demo_pool_repr])
    (simp_all add: NR_BLOCKS_def needs_split_def blk_fits_def)

text \<open>
  Two live allocations never overlap: the spans returned by two successive calls
  are disjoint, and both are disjoint from everything that was taken before.
\<close>

theorem mem_malloc_disjoint:
  assumes "mm_inv s" and "2 \<le> mm_room s" and "0 < n" and "0 < k"
    and "malloc_step n s = (a, s1)" and "malloc_step k s1 = (b, s2)" and "a \<noteq> 0" and "b \<noteq> 0"
  shows "span a n \<inter> span b k = {} \<and> (span a n \<union> span b k) \<inter> mm_taken s = {} \<and>
    span a n \<union> span b k \<subseteq> mm_taken s2"
  using pool.malloc_all_disjoint [of s "[n, k]" "[a, b]" s2] assms
  by (auto simp: less_Suc_eq)

theorem mem_malloc_disjoint_witness:
  "span 0x107000 0x1000 \<inter> span 0x105000 0x2000 = {}"
proof -
  have "mm_inv (demo_pool 0)"
    unfolding mm_inv_def using demo_pool_repr demo_pool_wf by blast
  then show ?thesis
    using mem_malloc_disjoint [of "demo_pool 0" "0x1000" "0x2000" "0x107000" _ "0x105000"]
    by (simp add: mm_room_def NR_BLOCKS_def malloc_step_def mem_malloc.simps find_block.simps
        fits_def demo_pool_def MEM_FREE_def MEM_USED_def split_block_def Let_def)
qed

end
