(* ===== verification/CString.thy ===== *)
theory CString
  imports CBase
begin

text \<open>
  The memory and string routines of \<^verbatim>\<open>lib/string.c\<close> and the block copy of \<^verbatim>\<open>libcc.c\<close>, on
  the flat byte memory, so that overlapping arguments behave as they do in the code. A
  \<^verbatim>\<open>size_t\<close> count is a natural number and loop counters that run from 0 to it are too;
  addresses wrap at 32 bits. A routine that scans for a terminating zero is an \<open>option\<close>:
  \<open>None\<close> means that it never returns. A null pointer result is the address 0.
\<close>

section \<open>Block operations\<close>

text \<open>\<^verbatim>\<open>memcpy\<close>: first whole 32-bit words, then the remaining bytes.\<close>

fun memcpy_words :: "u32 \<Rightarrow> u32 \<Rightarrow> nat \<Rightarrow> mem \<Rightarrow> u32 \<times> u32 \<times> nat \<times> mem" where
  "memcpy_words d s n m =
     (if 4 \<le> n then memcpy_words (d + 4) (s + 4) (n - 4) (store32 m d (load32 m s))
      else (d, s, n, m))"

declare memcpy_words.simps [simp del]

fun copy_up :: "u32 \<Rightarrow> u32 \<Rightarrow> nat \<Rightarrow> mem \<Rightarrow> mem" where
  "copy_up d s 0 m = m"
| "copy_up d s (Suc n) m = copy_up (d + 1) (s + 1) n (m(d := m s))"

definition memcpy :: "u32 \<Rightarrow> u32 \<Rightarrow> nat \<Rightarrow> mem \<Rightarrow> mem" where
  "memcpy d s n m = (case memcpy_words d s n m of (d', s', n', m') \<Rightarrow> copy_up d' s' n' m')"

function memmove_loop :: "u32 \<Rightarrow> u32 \<Rightarrow> nat \<Rightarrow> nat \<Rightarrow> mem \<Rightarrow> mem" where
  "memmove_loop d s i n m =
     (if i < n then memmove_loop d s (Suc i) n (m(d + of_nat i := m (s + of_nat i))) else m)"
  by pat_completeness auto
termination
  by (relation "measure (\<lambda>(d, s, i, n, m). n - i)") auto

declare memmove_loop.simps [simp del]

definition memmove :: "u32 \<Rightarrow> u32 \<Rightarrow> nat \<Rightarrow> mem \<Rightarrow> mem" where
  "memmove d s n m = memmove_loop d s 0 n m"

fun copy_down :: "u32 \<Rightarrow> u32 \<Rightarrow> nat \<Rightarrow> mem \<Rightarrow> mem" where
  "copy_down d s 0 m = m"
| "copy_down d s (Suc n) m = copy_down d s n (m(d + of_nat n := m (s + of_nat n)))"

definition bcopy :: "u32 \<Rightarrow> u32 \<Rightarrow> nat \<Rightarrow> mem \<Rightarrow> mem" where
  "bcopy s d n m = (if s \<le> d then copy_down d s n m else copy_up d s n m)"

function memset_loop :: "u32 \<Rightarrow> u8 \<Rightarrow> nat \<Rightarrow> nat \<Rightarrow> mem \<Rightarrow> mem" where
  "memset_loop s c i n m =
     (if i < n then memset_loop s c (Suc i) n (m(s + of_nat i := c)) else m)"
  by pat_completeness auto
termination
  by (relation "measure (\<lambda>(s, c, i, n, m). n - i)") auto

declare memset_loop.simps [simp del]

definition memset :: "u32 \<Rightarrow> u32 \<Rightarrow> nat \<Rightarrow> mem \<Rightarrow> mem" where
  "memset s c n m = memset_loop s (ucast c) 0 n m"

definition bzero :: "u32 \<Rightarrow> nat \<Rightarrow> mem \<Rightarrow> mem" where
  "bzero d n m = memset d 0 n m"

definition memcmp :: "mem \<Rightarrow> u32 \<Rightarrow> u32 \<Rightarrow> nat \<Rightarrow> int" where
  "memcmp m s t n = (case for_find (\<lambda>i. m (s + of_nat i) \<noteq> m (t + of_nat i)) 0 n of
     None \<Rightarrow> 0
   | Some i \<Rightarrow> if int_of_char (m (s + of_nat i)) < int_of_char (m (t + of_nat i)) then -1 else 1)"

definition memchr :: "mem \<Rightarrow> u32 \<Rightarrow> int \<Rightarrow> nat \<Rightarrow> u32" where
  "memchr m s c n = (case for_find (\<lambda>i. int_of_char (m (s + of_nat i)) = c) 0 n of
     None \<Rightarrow> 0 | Some i \<Rightarrow> s + of_nat i)"

section \<open>String operations\<close>

partial_function (option) strlen_loop :: "mem \<Rightarrow> u32 \<Rightarrow> nat \<Rightarrow> nat option" where
  "strlen_loop m s ans = (if m (s + of_nat ans) \<noteq> 0 then strlen_loop m s (Suc ans) else Some ans)"

definition strlen :: "mem \<Rightarrow> u32 \<Rightarrow> nat option" where
  "strlen m s = strlen_loop m s 0"

partial_function (option) strcpy_loop :: "u32 \<Rightarrow> u32 \<Rightarrow> nat \<Rightarrow> mem \<Rightarrow> mem option" where
  "strcpy_loop d s i m =
     (let m' = m(d + of_nat i := m (s + of_nat i))
      in if m' (s + of_nat i) \<noteq> 0 then strcpy_loop d s (Suc i) m' else Some m')"

definition strcpy :: "u32 \<Rightarrow> u32 \<Rightarrow> mem \<Rightarrow> mem option" where
  "strcpy d s m = strcpy_loop d s 0 m"

function strncpy_copy :: "u32 \<Rightarrow> u32 \<Rightarrow> nat \<Rightarrow> nat \<Rightarrow> mem \<Rightarrow> nat \<times> mem" where
  "strncpy_copy d s i n m =
     (if i < n
      then let m' = m(d + of_nat i := m (s + of_nat i))
           in if m' (s + of_nat i) = 0 then (i, m') else strncpy_copy d s (Suc i) n m'
      else (i, m))"
  by pat_completeness auto
termination
  by (relation "measure (\<lambda>(d, s, i, n, m). n - i)") auto

declare strncpy_copy.simps [simp del]

definition strncpy :: "u32 \<Rightarrow> u32 \<Rightarrow> nat \<Rightarrow> mem \<Rightarrow> mem" where
  "strncpy d s n m = (case strncpy_copy d s 0 n m of (i, m') \<Rightarrow> memset_loop d 0 i n m')"

text \<open>\<^verbatim>\<open>while (*s1 != '\0') s1++;\<close>\<close>

partial_function (option) str_end :: "mem \<Rightarrow> u32 \<Rightarrow> u32 option" where
  "str_end m s = (if m s \<noteq> 0 then str_end m (s + 1) else Some s)"

partial_function (option) strcat_loop :: "u32 \<Rightarrow> u32 \<Rightarrow> mem \<Rightarrow> mem option" where
  "strcat_loop d s m = (if m s \<noteq> 0 then strcat_loop (d + 1) (s + 1) (m(d := m s))
     else Some (m(d := m s)))"

definition strcat :: "u32 \<Rightarrow> u32 \<Rightarrow> mem \<Rightarrow> mem option" where
  "strcat d s m = Option.bind (str_end m d) (\<lambda>e. strcat_loop e s m)"

fun strncat_loop :: "u32 \<Rightarrow> u32 \<Rightarrow> nat \<Rightarrow> mem \<Rightarrow> mem" where
  "strncat_loop d s 0 m = m"
| "strncat_loop d s (Suc n) m =
     (let m' = m(d := m s)
      in if m s \<noteq> 0
         then if n = 0 then m'(d + 1 := 0) else strncat_loop (d + 1) (s + 1) n m'
         else m')"

definition strncat :: "u32 \<Rightarrow> u32 \<Rightarrow> nat \<Rightarrow> mem \<Rightarrow> mem option" where
  "strncat d s n m =
     (if 0 < n then map_option (\<lambda>e. strncat_loop e s n m) (str_end m d) else Some m)"

text \<open>The difference is kept in a \<^verbatim>\<open>char\<close>: it wraps at 8 bits.\<close>

partial_function (option) strcmp :: "mem \<Rightarrow> u32 \<Rightarrow> u32 \<Rightarrow> int option" where
  "strcmp m a b =
     (let c = m a - m b
      in if c \<noteq> 0 \<or> m a = 0 then Some (int_of_char c) else strcmp m (a + 1) (b + 1))"

fun strncmp :: "mem \<Rightarrow> u32 \<Rightarrow> u32 \<Rightarrow> nat \<Rightarrow> int" where
  "strncmp m a b 0 = 0"
| "strncmp m a b (Suc n) =
     (let c = m a - m b
      in if c \<noteq> 0 \<or> m a = 0 then int_of_char c else strncmp m (a + 1) (b + 1) n)"

definition strchr :: "mem \<Rightarrow> u32 \<Rightarrow> int \<Rightarrow> u32 option" where
  "strchr m s c = map_option (memchr m s c) (strlen m s)"

function strrchr_loop :: "mem \<Rightarrow> u32 \<Rightarrow> int \<Rightarrow> int \<Rightarrow> u32" where
  "strrchr_loop m s c i =
     (if 0 \<le> i
      then if int_of_char (m (s + of_int i)) = c then s + of_int i else strrchr_loop m s c (i - 1)
      else 0)"
  by pat_completeness auto
termination
  by (relation "measure (\<lambda>(m, s, c, i). nat (i + 1))") auto

declare strrchr_loop.simps [simp del]

definition strrchr :: "mem \<Rightarrow> u32 \<Rightarrow> int \<Rightarrow> u32 option" where
  "strrchr m s c = map_option (\<lambda>len. strrchr_loop m s c (int len - 1)) (strlen m s)"

text \<open>
  The scans with a second string: \<open>str_has\<close> is the inner loop that looks for the character in
  it, \<open>str_differs\<close> the inner loop of \<^verbatim>\<open>strspn\<close>, which looks for a character different from it.
\<close>

definition str_has :: "mem \<Rightarrow> u32 \<Rightarrow> nat \<Rightarrow> u8 \<Rightarrow> bool" where
  "str_has m t len2 c \<longleftrightarrow> for_find (\<lambda>j. m (t + of_nat j) = c) 0 len2 \<noteq> None"

definition str_differs :: "mem \<Rightarrow> u32 \<Rightarrow> nat \<Rightarrow> u8 \<Rightarrow> bool" where
  "str_differs m t len2 c \<longleftrightarrow> for_find (\<lambda>j. m (t + of_nat j) \<noteq> c) 0 len2 \<noteq> None"

definition strcspn :: "mem \<Rightarrow> u32 \<Rightarrow> u32 \<Rightarrow> nat option" where
  "strcspn m s t = do {
     len1 \<leftarrow> strlen m s;
     len2 \<leftarrow> strlen m t;
     Some (case for_find (\<lambda>i. str_has m t len2 (m (s + of_nat i))) 0 len1 of
             Some i \<Rightarrow> i | None \<Rightarrow> len1) }"

definition strpbrk :: "mem \<Rightarrow> u32 \<Rightarrow> u32 \<Rightarrow> u32 option" where
  "strpbrk m s t = do {
     len1 \<leftarrow> strlen m s;
     len2 \<leftarrow> strlen m t;
     Some (case for_find (\<lambda>i. str_has m t len2 (m (s + of_nat i))) 0 len1 of
             Some i \<Rightarrow> s + of_nat i | None \<Rightarrow> 0) }"

definition strspn :: "mem \<Rightarrow> u32 \<Rightarrow> u32 \<Rightarrow> nat option" where
  "strspn m s t = do {
     len1 \<leftarrow> strlen m s;
     len2 \<leftarrow> strlen m t;
     Some (case for_find (\<lambda>i. str_differs m t len2 (m (s + of_nat i))) 0 len1 of
             Some i \<Rightarrow> i | None \<Rightarrow> len1) }"

function strstr_loop :: "mem \<Rightarrow> u32 \<Rightarrow> u32 \<Rightarrow> nat \<Rightarrow> nat \<Rightarrow> u32 option" where
  "strstr_loop m s t i len1 =
     (if i < len1
      then Option.bind (strcmp m (s + of_nat i) t) (\<lambda>c.
             if c = 0 then Some (s + of_nat i) else strstr_loop m s t (Suc i) len1)
      else Some 0)"
  by pat_completeness auto
termination
  by (relation "measure (\<lambda>(m, s, t, i, len1). len1 - i)") auto

declare strstr_loop.simps [simp del]

definition strstr :: "mem \<Rightarrow> u32 \<Rightarrow> u32 \<Rightarrow> u32 option" where
  "strstr m s t = do {
     len2 \<leftarrow> strlen m t;
     if len2 = 0 then Some s
     else do { len1 \<leftarrow> strlen m s; strstr_loop m s t 0 len1 } }"

definition strerror :: "int \<Rightarrow> string" where
  "strerror e = (if e = 18 then ''domain error'' else if e = 69 then ''range error''
     else ''unknown error number.'')"

section \<open>What a correct copy does\<close>

text \<open>The memory after \<open>n\<close> bytes at \<open>s\<close> have been copied to \<open>d\<close> as if through a buffer.\<close>

definition copied :: "u32 \<Rightarrow> u32 \<Rightarrow> nat \<Rightarrow> mem \<Rightarrow> mem" where
  "copied d s n m = (\<lambda>x. if x \<in> region d n then m (s + (x - d)) else m x)"

lemma copied_0 [simp]: "copied d s 0 m = m"
  by (simp add: copied_def)

lemma copied_at: "i < n \<Longrightarrow> copied d s n m (d + of_nat i) = m (s + of_nat i)"
  by (auto simp: copied_def)

lemma copied_outside: "x \<notin> region d n \<Longrightarrow> copied d s n m x = m x"
  by (simp add: copied_def)

lemma copied_eqI:
  assumes "\<And>i. i < n \<Longrightarrow> m' (d + of_nat i) = m (s + of_nat i)"
    and "\<And>x. x \<notin> region d n \<Longrightarrow> m' x = m x"
  shows "m' = copied d s n m"
proof
  fix x show "m' x = copied d s n m x"
  proof (cases "x \<in> region d n")
    case True
    then obtain i where "i < n" "x = d + of_nat i" by (auto simp: region_def)
    with assms(1) show ?thesis by (simp add: copied_at)
  next
    case False
    with assms(2) show ?thesis by (simp add: copied_outside)
  qed
qed

text \<open>An upward copy is correct when no byte is read after it was overwritten.\<close>

lemma copy_up_copied:
  assumes "\<forall>i<n. \<forall>j<i. s + of_nat i \<noteq> d + of_nat j"
  shows "copy_up d s n m = copied d s n m"
  using assms
proof (induction d s n m rule: copy_up.induct)
  case (2 d s n m)
  let ?m = "m(d := m s)"
  have step: "s + 1 + of_nat i \<noteq> d + 1 + of_nat j" if "i < n" "j < i" for i j
    using "2.prems"[rule_format, of "Suc i" "Suc j"] that by (simp only: offset_Suc) simp
  have fresh: "s + 1 + of_nat i \<noteq> d" if "i < n" for i
    using "2.prems"[rule_format, of "Suc i" 0] that by (simp only: offset_Suc) simp
  have IH: "copy_up (d + 1) (s + 1) n ?m = copied (d + 1) (s + 1) n ?m"
    by (rule "2.IH") (use step in blast)
  show ?case
  proof (rule copied_eqI)
    fix i assume i: "i < Suc n"
    show "copy_up d s (Suc n) m (d + of_nat i) = m (s + of_nat i)"
    proof (cases "\<exists>k<n. d + of_nat i = d + 1 + of_nat k")
      case True
      then obtain k where k: "k < n" "d + of_nat i = d + 1 + of_nat k" by blast
      then have "s + of_nat i = s + 1 + of_nat k" by (simp add: algebra_simps)
      with k fresh [of k] copied_at [OF k(1), of "d + 1" "s + 1" ?m] show ?thesis
        by (simp only: copy_up.simps IH) simp
    next
      case False
      then have "d + of_nat i \<notin> region (d + 1) n" by (auto simp: region_def)
      moreover have "i = 0"
      proof (rule ccontr)
        assume "i \<noteq> 0"
        then obtain k where "i = Suc k" by (cases i) auto
        with False i show False by (auto simp: algebra_simps)
      qed
      ultimately show ?thesis by (simp add: IH copied_outside)
    qed
  next
    fix x assume "x \<notin> region d (Suc n)"
    then show "copy_up d s (Suc n) m x = m x"
      by (simp add: IH copied_outside region_Suc [of d n])
  qed
qed simp

lemma copy_down_copied:
  assumes "\<forall>i<n. \<forall>j<i. s + of_nat j \<noteq> d + of_nat i" and "n \<le> 2 ^ 32"
  shows "copy_down d s n m = copied d s n m"
  using assms
proof (induction d s n m rule: copy_down.induct)
  case (2 d s n m)
  let ?m = "m(d + of_nat n := m (s + of_nat n))"
  have IH: "copy_down d s n ?m = copied d s n ?m"
    by (rule "2.IH") (use "2.prems" in auto)
  show ?case
  proof (rule copied_eqI)
    fix i assume i: "i < Suc n"
    show "copy_down d s (Suc n) m (d + of_nat i) = m (s + of_nat i)"
    proof (cases "i < n")
      case True
      then have "s + of_nat i \<noteq> d + of_nat n" using "2.prems"(1) by blast
      with True show ?thesis by (simp add: IH copied_at)
    next
      case False
      then have "i = n" using i by simp
      moreover have "d + of_nat n \<notin> region d n"
        using "2.prems"(2) by (auto simp: region_def of_nat_u32_eq_iff)
      ultimately show ?thesis by (simp add: IH copied_outside)
    qed
  next
    fix x assume "x \<notin> region d (Suc n)"
    then show "copy_down d s (Suc n) m x = m x"
      by (simp add: IH copied_outside region_Suc_last)
  qed
qed simp

lemma memmove_loop_copy_up:
  "i \<le> n \<Longrightarrow> memmove_loop d s i n m = copy_up (d + of_nat i) (s + of_nat i) (n - i) m"
proof (induction d s i n m rule: memmove_loop.induct)
  case (1 d s i n m)
  show ?case
  proof (cases "i < n")
    case True
    then obtain k where k: "n - i = Suc k" by (cases "n - i") auto
    with True have "memmove_loop d s (Suc i) n (m(d + of_nat i := m (s + of_nat i))) =
        copy_up (d + of_nat (Suc i)) (s + of_nat (Suc i)) k (m(d + of_nat i := m (s + of_nat i)))"
      using "1.IH" [OF True Suc_leI [OF True]] k Suc_diff_Suc [OF True] by (metis nat.inject)
    with True k show ?thesis
      by (simp add: memmove_loop.simps [of d s i n m] algebra_simps)
  next
    case False
    with 1 show ?thesis by (subst memmove_loop.simps) simp
  qed
qed

lemma memmove_copy_up: "memmove d s n m = copy_up d s n m"
  by (simp add: memmove_def memmove_loop_copy_up)

lemma copied_append:
  assumes "\<forall>i<k + l. \<forall>j<i. s + of_nat i \<noteq> d + of_nat j" and "k + l \<le> 2 ^ 32"
  shows "copied (d + of_nat k) (s + of_nat k) l (copied d s k m) = copied d s (k + l) m"
proof (rule copied_eqI)
  fix i assume i: "i < k + l"
  show "copied (d + of_nat k) (s + of_nat k) l (copied d s k m) (d + of_nat i) = m (s + of_nat i)"
  proof (cases "i < k")
    case True
    have "d + of_nat i \<noteq> d + of_nat (k + j)" if "j < l" for j
      using True that assms(2) by (subst offset_eq_iff) auto
    then have "d + of_nat i \<notin> region (d + of_nat k) l"
      by (auto simp: region_def add.assoc)
    with True show ?thesis by (simp add: copied_outside copied_at)
  next
    case False
    then obtain j where j: "i = k + j" "j < l" using i by (metis le_Suc_ex nat_add_left_cancel_less not_less)
    have "s + of_nat i \<notin> region d k" using assms(1) i False by (auto simp: region_def)
    then show ?thesis
      using copied_at [OF j(2), of "d + of_nat k" "s + of_nat k" "copied d s k m"] j(1)
      by (simp add: copied_outside add.assoc)
  qed
next
  fix x assume x: "x \<notin> region d (k + l)"
  have "region d k \<subseteq> region d (k + l)" by (rule region_mono) simp
  moreover have "region (d + of_nat k) l \<subseteq> region d (k + l)"
    by (rule region_shift)
  ultimately show "copied (d + of_nat k) (s + of_nat k) l (copied d s k m) x = m x"
    using x by (metis copied_outside subsetD)
qed

lemma load32_bytes:
  "ucast (load32 m s) = m s" "ucast (drop_bit 8 (load32 m s)) = m (s + 1)"
  "ucast (drop_bit 16 (load32 m s)) = m (s + 2)" "ucast (drop_bit 24 (load32 m s)) = m (s + 3)"
  by (rule bit_word_eqI; auto simp: load32_def bit_simps dest: bit_imp_le_length)+

lemma region_4: "region d 4 = {d, d + 1, d + 2, d + 3}"
  by (simp add: region_def numeral_eq_Suc lessThan_Suc algebra_simps insert_commute)

lemma load32_cong: "(\<And>x. x \<in> region a 4 \<Longrightarrow> m x = m' x) \<Longrightarrow> load32 m a = load32 m' a"
  by (simp add: load32_def region_4)

lemma store32_load32: "store32 m d (load32 m s) = copied d s 4 m"
proof
  fix x
  show "store32 m d (load32 m s) x = copied d s 4 m x"
    by (auto simp: copied_def region_4 store32_def load32_bytes)
qed

lemma copy_up_disjoint:
  assumes "region s n \<inter> region d n = {}"
  shows "copy_up d s n m = copied d s n m"
proof (rule copy_up_copied, intro allI impI)
  fix i j assume "i < n" "j < i"
  then have "s + of_nat i \<in> region s n" "d + of_nat j \<in> region d n" by auto
  with assms show "s + of_nat i \<noteq> d + of_nat j" by auto
qed

text \<open>
  A copy is right when no byte is overwritten before it is read, in particular for disjoint areas
  and for a destination below the source.
\<close>

lemma memcpy_forward:
  assumes "\<forall>i<n. \<forall>j<i. s + of_nat i \<noteq> d + of_nat j" and "n \<le> 2 ^ 32"
  shows "memcpy d s n m = copied d s n m"
  using assms unfolding memcpy_def
proof (induction d s n m rule: memcpy_words.induct)
  case (1 d s n m)
  show ?case
  proof (cases "4 \<le> n")
    case True
    have "s + 4 + of_nat i \<noteq> d + 4 + of_nat j" if "i < n - 4" "j < i" for i j
    proof -
      have "s + of_nat (4 + i) \<noteq> d + of_nat (4 + j)" using "1.prems"(1) that by auto
      then show ?thesis by (simp add: add.assoc)
    qed
    with "1.IH" [OF True] "1.prems"(2)
    have "(case memcpy_words (d + 4) (s + 4) (n - 4) (store32 m d (load32 m s)) of
        (d', s', n', m') \<Rightarrow> copy_up d' s' n' m') =
        copied (d + of_nat 4) (s + of_nat 4) (n - 4) (copied d s 4 m)"
      by (simp add: store32_load32)
    also have "\<dots> = copied d s n m"
      using copied_append [of 4 "n - 4" s d m] "1.prems" True by simp
    finally show ?thesis using True by (simp add: memcpy_words.simps [of d s n m])
  next
    case False
    with 1 show ?thesis by (simp add: memcpy_words.simps [of d s n m] copy_up_copied)
  qed
qed

lemma memcpy_copied:
  assumes "region s n \<inter> region d n = {}" and "n \<le> 2 ^ 32"
  shows "memcpy d s n m = copied d s n m"
proof (rule memcpy_forward [OF _ assms(2)], intro allI impI)
  fix i j assume "i < n" "j < i"
  then have "s + of_nat i \<in> region s n" "d + of_nat j \<in> region d n" by auto
  with assms show "s + of_nat i \<noteq> d + of_nat j" by auto
qed

lemma copy_up_frame: "x \<notin> region d n \<Longrightarrow> copy_up d s n m x = m x"
  by (induction d s n m rule: copy_up.induct) (auto simp: region_Suc)

text \<open>The forward loop of \<^verbatim>\<open>memmove\<close> on an overlap upwards repeats the first bytes.\<close>

lemma copy_up_periodic:
  assumes "0 < k" and "i < n" and "n + k \<le> 2 ^ 32"
  shows "copy_up (s + of_nat k) s n m (s + of_nat k + of_nat i) = m (s + of_nat (i mod k))"
  using assms(2,3)
proof (induction n arbitrary: s m i)
  case (Suc n)
  let ?m = "m(s + of_nat k := m s)"
  have unfold: "copy_up (s + of_nat k) s (Suc n) m = copy_up (s + 1 + of_nat k) (s + 1) n ?m"
    by (simp add: algebra_simps)
  show ?case
  proof (cases i)
    case 0
    have "s + of_nat k \<noteq> s + of_nat (k + Suc j)" if "j < n" for j
      using that Suc.prems(2) by (subst offset_eq_iff) auto
    then have "s + of_nat k \<notin> region (s + 1 + of_nat k) n"
      by (auto simp: region_def algebra_simps)
    then show ?thesis using 0 unfold by (simp add: copy_up_frame)
  next
    case (Suc j)
    then have j: "j < n" using Suc.prems by simp
    have "copy_up (s + of_nat k) s (Suc n) m (s + of_nat k + of_nat i) =
        copy_up (s + 1 + of_nat k) (s + 1) n ?m (s + 1 + of_nat k + of_nat j)"
      unfolding unfold Suc by (simp add: algebra_simps)
    also have "\<dots> = ?m (s + 1 + of_nat (j mod k))"
      by (rule Suc.IH [OF j]) (use Suc.prems(2) in simp)
    also have "\<dots> = ?m (s + of_nat (Suc (j mod k)))"
      by (simp add: algebra_simps)
    also have "\<dots> = m (s + of_nat (i mod k))"
    proof (cases "Suc (j mod k) = k")
      case True
      then have "i mod k = 0" using Suc by (simp add: mod_Suc)
      then show ?thesis unfolding True by simp
    next
      case False
      have "Suc (j mod k) < k" using False assms(1) by (simp add: Suc_lessI)
      then have "s + of_nat (Suc (j mod k)) \<noteq> s + of_nat k"
        using Suc.prems(2) by (subst offset_eq_iff) auto
      moreover have "i mod k = Suc (j mod k)" using Suc False by (simp add: mod_Suc)
      ultimately show ?thesis by (simp del: of_nat_Suc)
    qed
    finally show ?thesis .
  qed
qed simp

lemma memset_loop_spec:
  "memset_loop s c i n m = (\<lambda>x. if x \<in> (\<lambda>j. s + of_nat j) ` {i..<n} then c else m x)"
proof (induction s c i n m rule: memset_loop.induct)
  case (1 s c i n m)
  show ?case
  proof (cases "i < n")
    case True
    then have "{i..<n} = insert i {Suc i..<n}" by auto
    with True show ?thesis
      unfolding memset_loop.simps [of s c i n m] "1.IH" [OF True] by (auto simp: fun_eq_iff)
  next
    case False
    then show ?thesis by (subst memset_loop.simps) auto
  qed
qed

lemma memset_spec: "memset s c n m = (\<lambda>x. if x \<in> region s n then ucast c else m x)"
  by (simp add: memset_def memset_loop_spec region_def atLeast0LessThan)

section \<open>Strings\<close>

lemma strlen_loop_cstr:
  assumes "cstr m s xs" and "i \<le> length xs"
  shows "strlen_loop m s i = Some (length xs)"
  using assms(2)
proof (induction "length xs - i" arbitrary: i)
  case 0
  then have "i = length xs" by simp
  then show ?case using cstr_end [OF assms(1)] by (simp add: strlen_loop.simps)
next
  case (Suc k)
  then have "i < length xs" by simp
  with Suc cstr_nth [OF assms(1), of i] show ?case
    by (simp add: strlen_loop.simps [of m s i])
qed

lemma strlen_cstr: "cstr m s xs \<Longrightarrow> strlen m s = Some (length xs)"
  by (simp add: strlen_def strlen_loop_cstr)

lemma str_end_cstr: "cstr m s xs \<Longrightarrow> str_end m s = Some (s + of_nat (length xs))"
proof (induction xs arbitrary: s)
  case Nil
  then show ?case by (simp add: str_end.simps)
next
  case (Cons x xs)
  then show ?case by (simp add: str_end.simps [of m s] algebra_simps)
qed

lemma strcat_loop_cstr:
  assumes "cstr m s xs" and "region s (Suc (length xs)) \<inter> region d (Suc (length xs)) = {}"
  shows "strcat_loop d s m = Some (copy_up d s (Suc (length xs)) m)"
  using assms
proof (induction xs arbitrary: d s m)
  case Nil
  then show ?case by (simp add: strcat_loop.simps fun_eq_iff)
next
  case (Cons x xs)
  let ?m = "m(d := m s)"
  have "d \<notin> region (s + 1) (Suc (length xs))"
    using Cons.prems(2) by (auto simp: region_Suc [of _ "Suc _"])
  then have "cstr ?m (s + 1) xs = cstr m (s + 1) xs"
    by (intro cstr_cong) auto
  then have "cstr ?m (s + 1) xs" using Cons.prems(1) by simp
  moreover have "region (s + 1) (Suc (length xs)) \<inter> region (d + 1) (Suc (length xs)) = {}"
    using Cons.prems(2) by (auto simp: region_Suc [of _ "Suc _"])
  ultimately have "strcat_loop (d + 1) (s + 1) ?m =
      Some (copy_up (d + 1) (s + 1) (Suc (length xs)) ?m)"
    by (rule Cons.IH)
  then show ?case
    using Cons.prems(1) by (simp add: strcat_loop.simps [of d s m])
qed

lemma cstr_copied:
  assumes "cstr m s xs" and "length xs < 2 ^ 32"
  shows "cstr (copied d s (Suc (length xs)) m) d xs"
proof (rule cstr_intro)
  fix i assume "i < length xs"
  then show "copied d s (Suc (length xs)) m (d + of_nat i) = xs ! i \<and> xs ! i \<noteq> 0"
    using cstr_nth [OF assms(1)] by (simp add: copied_at del: of_nat_Suc)
next
  show "copied d s (Suc (length xs)) m (d + of_nat (length xs)) = 0"
    using cstr_end [OF assms(1)] by (simp add: copied_at)
qed

lemma strcpy_loop_cstr:
  assumes "cstr m s xs" and "region s (Suc (length xs)) \<inter> region d (Suc (length xs)) = {}"
    and "i \<le> length xs"
  shows "strcpy_loop d s i m =
    Some (copy_up (d + of_nat i) (s + of_nat i) (Suc (length xs) - i) m)"
  using assms(1,3)
proof (induction "length xs - i" arbitrary: i m)
  case 0
  then have i: "i = length xs" by simp
  have "s + of_nat i \<in> region s (Suc (length xs))" "d + of_nat i \<in> region d (Suc (length xs))"
    using i by auto
  with assms(2) have "s + of_nat i \<noteq> d + of_nat i" by auto
  then show ?case
    using cstr_end [OF 0(2)]
    by (simp add: i strcpy_loop.simps [of d s "length xs"] Suc_diff_le fun_eq_iff)
next
  case (Suc k)
  then have i: "i < length xs" by simp
  let ?m = "m(d + of_nat i := m (s + of_nat i))"
  have ne: "x \<noteq> d + of_nat i" if "x \<in> region s (Suc (length xs))" for x
    using that i assms(2) in_region [of i "Suc (length xs)" d] by auto
  then have c: "cstr ?m s xs"
    using Suc.prems(1) cstr_cong [of s xs ?m m] by auto
  have sz: "Suc (length xs) - i = Suc (Suc (length xs) - Suc i)" using i by simp
  have "strcpy_loop d s (Suc i) ?m =
      Some (copy_up (d + of_nat (Suc i)) (s + of_nat (Suc i)) (Suc (length xs) - Suc i) ?m)"
    using Suc(1) [of "Suc i" ?m] Suc.hyps(2) c i by simp
  then show ?case
    using cstr_nth [OF Suc.prems(1) i] ne [of "s + of_nat i"] i
    unfolding sz by (simp add: strcpy_loop.simps [of d s i] Let_def algebra_simps)
qed

lemma strcpy_cstr:
  assumes "cstr m s xs" and "region s (Suc (length xs)) \<inter> region d (Suc (length xs)) = {}"
  shows "strcpy d s m = Some (copied d s (Suc (length xs)) m)"
  using strcpy_loop_cstr [OF assms, of 0] copy_up_disjoint [OF assms(2)]
  by (simp add: strcpy_def)

text \<open>\<open>strcmp\<close> compares the first differing bytes; the difference is a wrapped \<^verbatim>\<open>char\<close>.\<close>

fun cmp_bytes :: "u8 list \<Rightarrow> u8 list \<Rightarrow> u8" where
  "cmp_bytes [] [] = 0"
| "cmp_bytes [] (y # ys) = - y"
| "cmp_bytes (x # xs) [] = x"
| "cmp_bytes (x # xs) (y # ys) = (if x = y then cmp_bytes xs ys else x - y)"

lemma strcmp_cstr:
  "cstr m a xs \<Longrightarrow> cstr m b ys \<Longrightarrow> strcmp m a b = Some (int_of_char (cmp_bytes xs ys))"
proof (induction xs ys arbitrary: a b rule: cmp_bytes.induct)
  case 4
  then show ?case by (simp add: strcmp.simps [of m a b])
qed (auto simp: strcmp.simps)

lemma cmp_bytes_0_iff: "0 \<notin> set xs \<Longrightarrow> 0 \<notin> set ys \<Longrightarrow> cmp_bytes xs ys = 0 \<longleftrightarrow> xs = ys"
  by (induction xs ys rule: cmp_bytes.induct) auto

lemma cstr_nonzero: "cstr m s xs \<Longrightarrow> 0 \<notin> set xs"
  by (induction xs arbitrary: s) auto

lemma strstr_loop_cstr:
  assumes "cstr m s xs" and "cstr m t ys" and "i \<le> length xs"
  shows "strstr_loop m s t i (length xs) =
    Some (case for_find (\<lambda>j. drop j xs = ys) i (length xs) of None \<Rightarrow> 0 | Some j \<Rightarrow> s + of_nat j)"
  using assms(3)
proof (induction "length xs - i" arbitrary: i)
  case 0
  then show ?case by (simp add: strstr_loop.simps for_find.simps)
next
  case (Suc k)
  then have i: "i < length xs" by simp
  have "cstr m (s + of_nat i) (drop i xs)" using assms(1) i by (simp add: cstr_drop)
  then have "strcmp m (s + of_nat i) t = Some (int_of_char (cmp_bytes (drop i xs) ys))"
    "cmp_bytes (drop i xs) ys = 0 \<longleftrightarrow> drop i xs = ys"
    using assms(2) strcmp_cstr cstr_nonzero cmp_bytes_0_iff by blast+
  moreover have "int_of_char c = 0 \<longleftrightarrow> c = 0" for c
    using int_of_char_eq_iff [of c 0] by simp
  ultimately show ?case
    using Suc(1) [of "Suc i"] Suc.hyps(2) i
    by (simp add: strstr_loop.simps [of m s t i] for_find.simps [of _ i])
qed

lemma cstr_append:
  assumes "\<And>i. i < length xs \<Longrightarrow> m (s + of_nat i) = xs ! i \<and> xs ! i \<noteq> 0"
    and "cstr m (s + of_nat (length xs)) ys"
  shows "cstr m s (xs @ ys)"
  using assms
proof (induction xs arbitrary: s)
  case (Cons x xs)
  have "m s = x \<and> x \<noteq> 0" using Cons.prems(1) [of 0] by simp
  moreover have "cstr m (s + 1) (xs @ ys)"
    using Cons.prems(1) [of "Suc i" for i] Cons.prems(2)
    by (intro Cons.IH) (auto simp: offset_Suc simp del: of_nat_Suc)
  ultimately show ?case by simp
qed simp

lemma int_of_char_sub_ascii:
  assumes "x < 128" and "y < (128 :: u8)"
  shows "int_of_char (x - y) < 0 \<longleftrightarrow> x < y"
proof -
  have xy: "uint x < 128" "uint y < 128" using assms by (simp_all add: word_less_def)
  then have "signed_take_bit 7 (uint x) = uint x" "signed_take_bit 7 (uint y) = uint y"
    by (simp_all add: signed_take_bit_int_eq_self order_trans [OF _ uint_ge_0])
  then have s: "sint x = uint x" "sint y = uint y" by (simp_all add: sint_uint)
  have "- 128 \<le> uint x - uint y" "uint x - uint y < 128"
    using xy uint_ge_0 [of x] uint_ge_0 [of y] by linarith+
  then have "sint (x - y) = uint x - uint y"
    unfolding sint_word_ariths(2) s by (intro signed_take_bit_int_eq_self) simp_all
  then show ?thesis by (simp add: int_of_char_def word_less_def)
qed

lemma cmp_bytes_less_iff:
  assumes "\<forall>x\<in>set xs. x < 128 \<and> x \<noteq> 0" and "\<forall>y\<in>set ys. y < 128 \<and> y \<noteq> 0"
  shows "int_of_char (cmp_bytes xs ys) < 0 \<longleftrightarrow> ord_class.lexordp xs ys"
  using assms
proof (induction xs ys rule: cmp_bytes.induct)
  case (2 y ys)
  then show ?case
    using int_of_char_sub_ascii [of 0 y] by (auto simp: word_neq_0_conv)
next
  case (3 x xs)
  then show ?case
    using int_of_char_sub_ascii [of x 0] by auto
next
  case (4 x xs y ys)
  then show ?case
    using int_of_char_sub_ascii [of x y] by (auto simp: neq_iff)
qed auto

section \<open>Properties\<close>

text \<open>
  Property C5. \<open>bcopy\<close> keeps the promise of its comment, that the result is correct even when
  both areas overlap: for any two areas that do not run past the end of the address space, every
  destination byte holds the original source byte and nothing else changes.
\<close>

theorem bcopy_correct:
  assumes "unat s + n \<le> 4294967296" and "unat d + n \<le> 4294967296"
  shows "bcopy s d n m = copied d s n m"
proof -
  have s: "unat (s + of_nat i) = unat s + i" and d: "unat (d + of_nat i) = unat d + i" if "i < n" for i
    using that assms by (simp_all add: unat_add_nowrap unat_of_nat_u32)
  show ?thesis
  proof (cases "s \<le> d")
    case True
    have "s + of_nat j \<noteq> d + of_nat i" if "i < n" "j < i" for i j
      using s [of j] d [of i] that True by (auto simp: word_le_nat_alt)
    with True assms show ?thesis by (simp add: bcopy_def copy_down_copied)
  next
    case False
    have "s + of_nat i \<noteq> d + of_nat j" if "i < n" "j < i" for i j
      using s [of i] d [of j] that False by (auto simp: word_le_nat_alt)
    with False show ?thesis by (simp add: bcopy_def copy_up_copied)
  qed
qed

theorem bcopy_correct_witness:
  "bcopy 0x1000 0x1001 3 (\<lambda>x. ucast x) 0x1003 = 2"
  unfolding bcopy_correct [of "0x1000" 3 "0x1001", simplified]
  using copied_at [of 2 3 "0x1001" "0x1000"] by simp

text \<open>
  \<open>memmove\<close> copies upwards only, so it is not an overlapping copy: when the
  destination lies \<open>k\<close> bytes above the source, the result repeats the first \<open>k\<close> source bytes
  with period \<open>k\<close> instead of moving the block.
\<close>

theorem memmove_upward_overlap:
  assumes "0 < k" and "i < n" and "n + k \<le> 2 ^ 32"
  shows "memmove (s + of_nat k) s n m (s + of_nat k + of_nat i) = m (s + of_nat (i mod k))"
  by (simp add: memmove_copy_up copy_up_periodic [OF assms])

theorem memmove_upward_overlap_witness:
  "memmove 0x1001 0x1000 3 (\<lambda>x. ucast x) 0x1003 = 0 \<and> (ucast (0x1002 :: u32) :: u8) = 2"
  using memmove_upward_overlap [of 1 2 3 "0x1000" "\<lambda>x. ucast x"] by simp

text \<open>
  Property C6. \<open>memcpy\<close>, which moves words and then the remaining bytes, copies exactly the
  requested bytes between disjoint areas, for every count and alignment.
\<close>

theorem memcpy_correct:
  assumes "region s n \<inter> region d n = {}" and "n \<le> 2 ^ 32"
  shows "(\<forall>i<n. memcpy d s n m (d + of_nat i) = m (s + of_nat i)) \<and>
    (\<forall>x. x \<notin> region d n \<longrightarrow> memcpy d s n m x = m x)"
  using memcpy_copied [OF assms] by (simp add: copied_at copied_outside)

theorem memcpy_correct_witness: "memcpy 0x2000 0x1000 7 (\<lambda>x. ucast x) 0x2006 = 6"
proof -
  have "region 0x1000 7 \<inter> region 0x2000 7 = {}"
    by (simp add: region_def lessThan_nat_numeral lessThan_Suc)
  from memcpy_correct [OF this, of "\<lambda>x. ucast x"] show ?thesis
    by (auto dest: spec [of _ 6])
qed

text \<open>
  \<open>strcat\<close> appends: with room after the destination string that does not meet the
  source, it returns, the destination holds both strings, the source is intact and no byte
  outside the appended part changes.
\<close>

theorem strcat_correct:
  assumes "cstr m d xs" and "cstr m s ys" and "length xs + length ys < 2 ^ 32 - 1"
    and "region s (Suc (length ys)) \<inter> region d (Suc (length xs + length ys)) = {}"
  shows "\<exists>m'. strcat d s m = Some m' \<and> cstr m' d (xs @ ys) \<and> cstr m' s ys \<and>
    (\<forall>x. x \<notin> region (d + of_nat (length xs)) (Suc (length ys)) \<longrightarrow> m' x = m x)"
proof -
  let ?e = "d + of_nat (length xs)" and ?n = "Suc (length ys)"
  let ?m = "copied ?e s ?n m"
  have sub: "region ?e ?n \<subseteq> region d (Suc (length xs + length ys))"
    using region_shift [of d "length xs" ?n] by simp
  then have dj: "region s ?n \<inter> region ?e ?n = {}" using assms(4) by blast
  have run: "strcat d s m = Some ?m"
    using assms(1,2) dj
    by (simp add: strcat_def str_end_cstr strcat_loop_cstr copy_up_disjoint del: copy_up.simps)
  have "cstr ?m ?e ys"
    using cstr_copied [OF assms(2)] assms(3) by simp
  moreover have "?m (d + of_nat i) = xs ! i \<and> xs ! i \<noteq> 0" if "i < length xs" for i
  proof -
    have "d + of_nat i \<noteq> d + of_nat (length xs + j)" if "j < ?n" for j
      using that \<open>i < length xs\<close> assms(3) by (subst offset_eq_iff) auto
    then have "d + of_nat i \<notin> region ?e ?n" by (auto simp: region_def add.assoc)
    with that cstr_nth [OF assms(1)] show ?thesis by (simp add: copied_outside)
  qed
  ultimately have "cstr ?m d (xs @ ys)" by (intro cstr_append) simp_all
  moreover have "cstr ?m s ys"
    by (rule cstr_cong [THEN iffD2, OF _ assms(2)])
      (use dj in \<open>blast intro: copied_outside\<close>)
  ultimately show ?thesis using run by (auto simp: copied_outside)
qed


theorem strcat_correct_witness:
  "strcat 0 8 (\<lambda>a. if a = 8 then 65 else 0) \<noteq> None"
  using strcat_correct [of "\<lambda>a. if a = 8 then 65 else 0" 0 "[]" 8 "[65]"]
  by (auto simp: region_def lessThan_Suc)

text \<open>
  \<open>strcmp\<close> always returns; it answers zero exactly for equal strings, and for
  strings of 7-bit characters its sign is the lexicographic order.  (The subtraction is done in a
  \<^verbatim>\<open>char\<close>, so the sign is not the order of the bytes beyond that range: see the last part.)
\<close>

theorem strcmp_correct:
  assumes "cstr m s xs" and "cstr m t ys"
  shows "\<exists>r. strcmp m s t = Some r \<and> (r = 0 \<longleftrightarrow> xs = ys) \<and>
    ((\<forall>x\<in>set xs \<union> set ys. x < 128) \<longrightarrow> (r < 0 \<longleftrightarrow> ord_class.lexordp xs ys)) \<and>
    (xs = [200] \<and> ys = [10] \<longrightarrow> r < 0)"
proof -
  have nz: "0 \<notin> set xs" "0 \<notin> set ys"
    using assms by (auto dest: cstr_nonzero)
  have "int_of_char (cmp_bytes xs ys) < 0 \<longleftrightarrow> ord_class.lexordp xs ys"
    if "\<forall>x\<in>set xs \<union> set ys. x < 128"
    using that nz by (intro cmp_bytes_less_iff) auto
  moreover have "int_of_char (cmp_bytes [200] [10]) < 0"
    by (simp add: int_of_char_def)
  ultimately show ?thesis
    using strcmp_cstr [OF assms] nz by (auto simp: cmp_bytes_0_iff)
qed

theorem strcmp_correct_witness:
  "\<exists>r. strcmp (\<lambda>a. if a = 0 then 200 else if a = 8 then 10 else 0) 0 8 = Some r \<and> r < 0"
  using strcmp_correct [of "\<lambda>a. if a = 0 then 200 else if a = 8 then 10 else 0" 0 "[200]" 8 "[10]"]
  by auto

text \<open>
  \<open>strstr\<close> finds only suffixes: because it compares with \<open>strcmp\<close> instead of a
  prefix test, it answers the position where the rest of the string \<^emph>\<open>equals\<close> the
  needle, and NULL when the needle occurs elsewhere only.
\<close>

theorem strstr_finds_suffixes:
  assumes "cstr m s xs" and "cstr m t ys" and "ys \<noteq> []" and "length xs < 2 ^ 31"
  shows "(\<forall>us. xs = us @ ys \<longrightarrow> strstr m s t = Some (s + of_nat (length us))) \<and>
    ((\<nexists>us. xs = us @ ys) \<longrightarrow> strstr m s t = Some 0)"
proof -
  let ?f = "for_find (\<lambda>j. drop j xs = ys) 0 (length xs)"
  have run: "strstr m s t = Some (case ?f of None \<Rightarrow> 0 | Some j \<Rightarrow> s + of_nat j)"
    using strlen_cstr [OF assms(1)] strlen_cstr [OF assms(2)] assms(3)
      strstr_loop_cstr [OF assms(1,2), of 0] by (simp add: strstr_def)
  have "?f = Some (length us)" if "xs = us @ ys" for us
    using that assms(3) by (auto simp: for_find_Some_iff dest: arg_cong [of _ ys length])
  moreover have "?f = None" if "\<nexists>us. xs = us @ ys"
    using that by (auto simp: for_find_None_iff) (metis append_take_drop_id)
  ultimately show ?thesis using run by auto
qed

theorem strstr_finds_suffixes_witness:
  "strstr (\<lambda>a. if a = 0 then 65 else if a = 1 then 66 else if a = 8 then 65 else 0) 0 8 = Some 0"
  using strstr_finds_suffixes
    [of "\<lambda>a. if a = 0 then 65 else if a = 1 then 66 else if a = 8 then 65 else 0" 0 "[65, 66]" 8 "[65]"]
  by simp

end
