(* ===== verification/Kmalloc.thy ===== *)
theory Kmalloc
  imports Mm CString
begin

text \<open>
  The allocation front ends over the memory manager: \<^verbatim>\<open>kmalloc.c\<close> (page-rounded, cleared
  allocation), \<^verbatim>\<open>malloc.c\<close> (the C names) and the two string duplicators of
  \<^verbatim>\<open>lib/string.c\<close>. Results are those of \<open>mem_malloc\<close>: a pointer or a memory-manager error, and
  the state; the memory itself is the component \<open>ram\<close> of that state.
\<close>

section \<open>Operations\<close>

definition kmalloc_size :: "u32 \<Rightarrow> u32" where
  "kmalloc_size n = ((n + 4096) div 4096) * 4096"

definition kmalloc :: "u32 \<Rightarrow> mm_state \<Rightarrow> ((mm_error + u32) \<times> mm_state) option" where
  "kmalloc n s = Option.bind (mem_malloc (kmalloc_size n) s) (\<lambda>(r, s1).
     case r of
       Inl e \<Rightarrow> Some (Inl e, s1)
     | Inr a \<Rightarrow> Some (Inr a, s1\<lparr>ram := memset a 0 (unat (kmalloc_size n)) (ram s1)\<rparr>))"

definition kfree :: "u32 \<Rightarrow> mm_state \<Rightarrow> (mm_error + mm_state) option" where
  "kfree a s = mem_free a s"

definition libc_malloc :: "u32 \<Rightarrow> mm_state \<Rightarrow> ((mm_error + u32) \<times> mm_state) option" where
  "libc_malloc n s = kmalloc n s"

definition libc_free :: "u32 \<Rightarrow> mm_state \<Rightarrow> (mm_error + mm_state) option" where
  "libc_free a s = kfree a s"

text \<open>
  \<^verbatim>\<open>realloc\<close> calls \<^verbatim>\<open>memcpy(p, block)\<close> without its count: the callee reads whatever the stack
  holds, here the parameter \<open>junk\<close>.
\<close>

definition libc_realloc :: "u32 \<Rightarrow> u32 \<Rightarrow> u32 \<Rightarrow> mm_state \<Rightarrow> ((mm_error + u32) \<times> mm_state) option" where
  "libc_realloc junk block n s = Option.bind (mem_get_size block s) (\<lambda>q.
     case q of
       Inl e \<Rightarrow> Some (Inl e, s)
     | Inr old \<Rightarrow> Option.bind (libc_malloc (n + old) s) (\<lambda>(r, s1).
         case r of
           Inl e \<Rightarrow> Some (Inl e, s1)
         | Inr p \<Rightarrow>
             let s2 = s1\<lparr>ram := memcpy p block (unat junk) (ram s1)\<rparr>
             in Option.bind (libc_free block s2) (\<lambda>f.
                  case f of Inl e \<Rightarrow> Some (Inl e, s2) | Inr s3 \<Rightarrow> Some (Inr p, s3))))"

definition strndup :: "u32 \<Rightarrow> u32 \<Rightarrow> mm_state \<Rightarrow> ((mm_error + u32) \<times> mm_state) option" where
  "strndup p n s = Option.bind (libc_malloc (n + 1) s) (\<lambda>(r, s1).
     case r of
       Inl e \<Rightarrow> Some (Inl e, s1)
     | Inr a \<Rightarrow> Some (Inr a, s1\<lparr>ram := (memcpy a p (unat (n + 1)) (ram s1))(a + n := 0)\<rparr>))"

definition strdup :: "u32 \<Rightarrow> mm_state \<Rightarrow> ((mm_error + u32) \<times> mm_state) option" where
  "strdup p s = Option.bind (strlen (ram s) p) (\<lambda>len.
     Option.bind (libc_malloc (of_nat len + 1) s) (\<lambda>(r, s1).
       case r of
         Inl e \<Rightarrow> Some (Inl e, s1)
       | Inr a \<Rightarrow> Some (Inr a, s1\<lparr>ram := memcpy a p (unat (of_nat len + 1 :: u32)) (ram s1)\<rparr>)))"

section \<open>Sizes and regions\<close>

lemma unat_kmalloc_size:
  assumes "unat n < 2 ^ 32 - 4096"
  shows "unat (kmalloc_size n) = (unat n div 4096 + 1) * 4096"
proof -
  have s: "unat (n + 4096) = unat n + 4096"
    using assms by (subst unat_add_nowrap) simp_all
  have q: "(unat n + 4096) div 4096 = unat n div 4096 + 1" by simp
  have "(unat n div 4096 + 1) * 4096 < 2 ^ 32"
    using assms div_times_less_eq_dividend [of "unat n" 4096] by (simp add: algebra_simps)
  then show ?thesis
    unfolding kmalloc_size_def by (simp add: unat_word_ariths unat_div s q del: One_nat_def)
qed

lemma kmalloc_size_pos: "unat n < 2 ^ 32 - 4096 \<Longrightarrow> 0 < kmalloc_size n"
  using unat_kmalloc_size [of n] by (simp add: word_less_nat_alt)

lemma kmalloc_size_gt: "unat n < 2 ^ 32 - 4096 \<Longrightarrow> unat n < unat (kmalloc_size n)"
  using div_mult_mod_eq [of "unat n" 4096] mod_less_divisor [of 4096 "unat n"]
  by (simp add: unat_kmalloc_size)

lemma unat_region:
  assumes "x \<in> region a k" and "unat a + k \<le> 2 ^ 32"
  shows "unat a \<le> unat x \<and> unat x < unat a + k"
proof -
  from assms(1) obtain i where i: "i < k" "x = a + of_nat i" by (auto simp: region_def)
  with assms(2) have "unat x = unat a + i"
    by (simp add: unat_add_nowrap unat_of_nat_u32)
  with i show ?thesis by simp
qed

lemma region_in_span: "x \<in> region a (unat k) \<Longrightarrow> unat a + unat k \<le> 2 ^ 32 \<Longrightarrow> unat x \<in> span a k"
  using unat_region [of x a "unat k"] by (auto simp: span_def)

lemma alloc_bound:
  assumes "alloc n bs = Some (a, bs')" and "wf_blocks bs" and "0 < n"
  shows "unat a + unat n \<le> 2 ^ 32"
proof -
  have "span a n \<subseteq> free_bytes bs" using alloc_spec [OF assms] by blast
  moreover have "free_bytes bs \<subseteq> {..<4294967296}"
    using assms(2) by (induction bs) (auto simp: span_def split: if_splits)
  moreover have "unat a + unat n - 1 \<in> span a n"
    using assms(3) unfolding span_def word_less_nat_alt by simp
  ultimately show ?thesis by fastforce
qed

text \<open>One call of \<open>kmalloc\<close> on a well-formed pool.\<close>

lemma kmalloc_cases:
  assumes r: "mm_repr s is bs" and wf: "wf_blocks bs" and room: "mem_nr s < NR_BLOCKS - 1"
    and n: "unat n < 2 ^ 32 - 4096"
  obtains (none) "\<forall>b\<in>set bs. \<not> blk_fits (kmalloc_size n) b"
      and "kmalloc n s = Some (Inr 0, s\<lparr>ram := memset 0 0 (unat (kmalloc_size n)) (ram s)\<rparr>)"
  | (some) a s' is' bs' where "\<exists>b\<in>set bs. blk_fits (kmalloc_size n) b"
      and "kmalloc n s = Some (Inr a, s')"
      and "alloc (kmalloc_size n) bs = Some (a, bs')" and "mm_repr s' is' bs'" and "wf_blocks bs'"
      and "ram s' = memset a 0 (unat (kmalloc_size n)) (ram s)"
  using r wf room kmalloc_size_pos [OF n]
proof (cases rule: mem_malloc_cases)
  case none
  then show ?thesis using that(1) by (simp add: kmalloc_def)
next
  case (some a s' is' bs')
  let ?s = "s'\<lparr>ram := memset a 0 (unat (kmalloc_size n)) (ram s')\<rparr>"
  have "mm_repr ?s is' bs'" using some(4) by (simp add: mm_repr_def)
  then show ?thesis
    using that(2) [of a ?s bs' is'] some by (simp add: kmalloc_def)
qed

section \<open>Properties\<close>

text \<open>
  \<open>kmalloc\<close> hands out cleared pages: for a request below the last page of the address
  space on a well-formed pool with descriptors left, the size is rounded up to the next multiple of
  4096 above the request; if some free block has that size, the result is a fresh span of it, all
  its bytes read zero and no other byte changes. If none has, the result is NULL \<^emph>\<open>and the bytes at
  physical address 0 have been cleared\<close>, since the failure is not tested before \<open>memset\<close>.
\<close>

theorem kmalloc_clears:
  assumes "mm_repr s is bs" and "wf_blocks bs" and "mem_nr s < NR_BLOCKS - 1"
    and "unat n < 2 ^ 32 - 4096"
  shows "unat n < unat (kmalloc_size n) \<and> unat (kmalloc_size n) \<le> unat n + 4096 \<and>
    unat (kmalloc_size n) mod 4096 = 0 \<and>
    (\<exists>a s' is' bs'. kmalloc n s = Some (Inr a, s') \<and> mm_repr s' is' bs' \<and> wf_blocks bs' \<and>
      (\<forall>x\<in>region a (unat (kmalloc_size n)). ram s' x = 0) \<and>
      (\<forall>x. x \<notin> region a (unat (kmalloc_size n)) \<longrightarrow> ram s' x = ram s x) \<and>
      (if \<exists>b\<in>set bs. blk_fits (kmalloc_size n) b
       then span a (kmalloc_size n) \<subseteq> free_bytes bs \<and>
         taken_bytes bs' = taken_bytes bs \<union> span a (kmalloc_size n)
       else a = 0 \<and> bs' = bs))"
proof -
  obtain a s' is' bs' where *: "kmalloc n s = Some (Inr a, s') \<and> mm_repr s' is' bs' \<and> wf_blocks bs' \<and>
      ram s' = memset a 0 (unat (kmalloc_size n)) (ram s) \<and>
      (if \<exists>b\<in>set bs. blk_fits (kmalloc_size n) b
       then span a (kmalloc_size n) \<subseteq> free_bytes bs \<and>
         taken_bytes bs' = taken_bytes bs \<union> span a (kmalloc_size n)
       else a = 0 \<and> bs' = bs)"
    using assms
  proof (cases rule: kmalloc_cases)
    case none
    let ?s = "s\<lparr>ram := memset 0 0 (unat (kmalloc_size n)) (ram s)\<rparr>"
    have "mm_repr ?s is bs" using assms(1) by (simp add: mm_repr_def)
    with none assms(2) that show thesis by force
  next
    case (some a s' is' bs')
    with alloc_spec [OF some(3) assms(2) kmalloc_size_pos [OF assms(4)]] show thesis
      by (intro that [of a s' "is'" bs']) simp
  qed
  have "unat (kmalloc_size n) \<le> unat n + 4096" "unat (kmalloc_size n) mod 4096 = 0"
    using div_times_less_eq_dividend [of "unat n" 4096] by (simp_all add: unat_kmalloc_size [OF assms(4)])
  moreover have "\<forall>x\<in>region a (unat (kmalloc_size n)). ram s' x = 0"
    "\<forall>x. x \<notin> region a (unat (kmalloc_size n)) \<longrightarrow> ram s' x = ram s x"
    using * by (simp_all add: memset_spec)
  ultimately show ?thesis
    using kmalloc_size_gt [OF assms(4)] * by blast
qed

theorem kmalloc_clears_witness:
  "\<exists>a s'. kmalloc 5000 (demo_pool 0) = Some (Inr a, s') \<and> ram s' a = 0"
proof -
  have "a \<in> region a (unat (kmalloc_size 5000))" for a by (simp add: region_def kmalloc_size_def image_iff)
      (intro bexI [of _ 0]; simp)
  then show ?thesis
    using kmalloc_clears [OF demo_pool_repr [of 0] demo_pool_wf, where n = 5000]
    by (fastforce simp: NR_BLOCKS_def)
qed

text \<open>
  \<open>strdup\<close> duplicates: when the pool has a free block for the string, the result points
  to a fresh span that holds the same string, and the argument is unchanged.
\<close>

theorem strdup_copies:
  assumes "mm_repr s is bs" and "wf_blocks bs" and "mem_nr s < NR_BLOCKS - 1"
    and "cstr (ram s) p xs" and "length xs + 1 < 2 ^ 32 - 4096"
    and "\<exists>b\<in>set bs. blk_fits (kmalloc_size (of_nat (length xs) + 1)) b"
    and "unat ` region p (Suc (length xs)) \<inter> free_bytes bs = {}"
  shows "\<exists>a s' is' bs'. strdup p s = Some (Inr a, s') \<and> cstr (ram s') a xs \<and> cstr (ram s') p xs \<and>
    mm_repr s' is' bs' \<and> wf_blocks bs' \<and>
    taken_bytes bs' = taken_bytes bs \<union> span a (kmalloc_size (of_nat (length xs) + 1))"
proof -
  let ?n = "of_nat (length xs) + 1 :: u32" and ?k = "Suc (length xs)"
  have n: "unat ?n = ?k" using assms(5) unat_of_nat_u32 [of ?k] by (simp add: add.commute)
  then have n': "unat ?n < 2 ^ 32 - 4096" using assms(5) by simp
  from assms(1,2,3) n' show ?thesis
  proof (cases rule: kmalloc_cases)
    case none
    with assms(6) show ?thesis by blast
  next
    case (some a s' is' bs')
    note al = alloc_spec [OF some(3) assms(2) kmalloc_size_pos [OF n']]
    have "region a (unat (kmalloc_size ?n)) \<inter> region p ?k = {}"
      using region_in_span [OF _ alloc_bound [OF some(3) assms(2) kmalloc_size_pos [OF n']]] al assms(7)
      by blast
    then have dj: "region p ?k \<inter> region a (unat (kmalloc_size ?n)) = {}" by blast
    then have dj': "region p ?k \<inter> region a ?k = {}"
      using region_mono [of ?k "unat (kmalloc_size ?n)" a] kmalloc_size_gt [OF n'] n by fastforce
    have src: "cstr (ram s') p xs"
      by (rule cstr_cong [THEN iffD2, OF _ assms(4)]) (use dj in \<open>auto simp: some(6) memset_spec\<close>)
    let ?r = "s'\<lparr>ram := memcpy a p ?k (ram s')\<rparr>"
    have run: "strdup p s = Some (Inr a, ?r)"
      using strlen_cstr [OF assms(4)] some(2) n by (simp add: strdup_def libc_malloc_def)
    have cp: "ram ?r = copied a p ?k (ram s')"
      using memcpy_copied [OF dj'] assms(5) by simp
    have "cstr (ram ?r) a xs" unfolding cp using cstr_copied [OF src] assms(5) by simp
    moreover have "cstr (ram ?r) p xs"
      by (rule cstr_cong [THEN iffD2, OF _ src]) (use dj' in \<open>unfold cp, blast intro: copied_outside\<close>)
    moreover have "mm_repr ?r is' bs'" using some(4) by (simp add: mm_repr_def)
    ultimately show ?thesis using run some(5) al by blast
  qed
qed

theorem strdup_copies_witness: "\<exists>a s'. strdup 0 (demo_pool 0) = Some (Inr a, s') \<and> cstr (ram s') a []"
proof -
  have "cstr (ram (demo_pool 0)) 0 []" by (simp add: demo_pool_def)
  then show ?thesis
    using strdup_copies [OF demo_pool_repr [of 0] demo_pool_wf, of 0 "[]"]
    by (auto simp: NR_BLOCKS_def kmalloc_size_def blk_fits_def MEM_FREE_def region_def span_def
        lessThan_Suc)
qed

end
