(* ===== verification/Task.thy ===== *)
theory Task
  imports CBase
begin

text \<open>
  Tasks and the scheduler: \<^verbatim>\<open>task.c\<close>, \<^verbatim>\<open>include/task.h\<close>, the selectors of
  \<^verbatim>\<open>include/kernel.h\<close> and \<^verbatim>\<open>timer.c\<close>. Task structures live at 32-bit addresses, as the
  code takes their addresses for the descriptors; a null pointer is 0. A loop over the task list
  is an \<open>option\<close> value: \<open>None\<close> when the list is cyclic. The component \<open>cpu_tss\<close> of the state is
  the base address of the task-state segment the processor loaded last (the far jump to the TSS
  selector), which lets the theorems compare what the kernel believes with what runs.
\<close>

section \<open>Data\<close>

definition TS_RUNNING :: u32 where "TS_RUNNING = 0"
definition TS_RUNABLE :: u32 where "TS_RUNABLE = 1"
definition TS_STOPPED :: u32 where "TS_STOPPED = 2"
definition TS_WAITING :: u32 where "TS_WAITING = 3"
definition TS_SLEEP :: u32 where "TS_SLEEP = 4"

lemmas TS_defs = TS_RUNNING_def TS_RUNABLE_def TS_STOPPED_def TS_WAITING_def TS_SLEEP_def

definition DATA_SEL :: u32 where "DATA_SEL = 0x10"
definition USER_CODE_SEL :: u32 where "USER_CODE_SEL = 0x07"
definition USER_DATA_SEL :: u32 where "USER_DATA_SEL = 0x0f"
definition CURR_TASK_TSS :: u32 where "CURR_TASK_TSS = 3"
definition CURR_TASK_LDT :: u32 where "CURR_TASK_LDT = 4"
definition DEFAULT_LDT_CODE :: u64 where "DEFAULT_LDT_CODE = 0x00cffa000000ffff"
definition DEFAULT_LDT_DATA :: u64 where "DEFAULT_LDT_DATA = 0x00cff2000000ffff"
definition PAGE_DIR_ADDR :: u32 where "PAGE_DIR_ADDR = 0x400000"
definition INITIAL_PRIO :: u32 where "INITIAL_PRIO = 200"

record tss_struct =
  tss_back_link :: u32
  tss_esp0 :: u32  tss_ss0 :: u32
  tss_esp1 :: u32  tss_ss1 :: u32
  tss_esp2 :: u32  tss_ss2 :: u32
  tss_cr3 :: u32
  tss_eip :: u32
  tss_eflags :: u32
  tss_eax :: u32  tss_ecx :: u32  tss_edx :: u32  tss_ebx :: u32
  tss_esp :: u32  tss_ebp :: u32
  tss_esi :: u32  tss_edi :: u32
  tss_es :: u32  tss_cs :: u32  tss_ss :: u32  tss_ds :: u32  tss_fs :: u32  tss_gs :: u32
  tss_ldt :: u32
  tss_trace_bitmap :: u32

record task_struct =
  tss :: tss_struct
  tss_entry :: u64
  task_ldt :: "u64 \<times> u64"
  ldt_entry :: u64
  task_state :: u32
  priority :: u32
  nxt :: u32

text \<open>Offset of the member \<^verbatim>\<open>ldt\<close> in the structure: 26 words of TSS and the 64-bit entry.\<close>

definition ldt_offset :: u32 where "ldt_offset = 112"

record kstate =
  TASK0 :: u32
  tasks :: "u32 \<Rightarrow> task_struct"
  current :: u32
  gdt :: "u32 \<Rightarrow> u64"
  timer_ticks :: u32
  cpu_tss :: u32

abbreviation task_of :: "kstate \<Rightarrow> u32 \<Rightarrow> task_struct" where
  "task_of s v \<equiv> tasks s v"

definition upd_task :: "u32 \<Rightarrow> (task_struct \<Rightarrow> task_struct) \<Rightarrow> kstate \<Rightarrow> kstate" where
  "upd_task v f s = s\<lparr>tasks := (tasks s)(v := f (tasks s v))\<rparr>"

text \<open>The statically initialised first task; \<open>stk\<close> is the address of \<^verbatim>\<open>TASK0_STACK\<close>.\<close>

definition task0_init :: "u32 \<Rightarrow> task_struct" where
  "task0_init stk = \<lparr>tss = \<lparr>tss_back_link = 0, tss_esp0 = stk + 1024, tss_ss0 = DATA_SEL,
      tss_esp1 = 0, tss_ss1 = 0, tss_esp2 = 0, tss_ss2 = 0, tss_cr3 = PAGE_DIR_ADDR,
      tss_eip = 0, tss_eflags = 0, tss_eax = 0, tss_ecx = 0, tss_edx = 0, tss_ebx = 0,
      tss_esp = 0, tss_ebp = 0, tss_esi = 0, tss_edi = 0,
      tss_es = USER_DATA_SEL, tss_cs = USER_CODE_SEL, tss_ss = USER_DATA_SEL,
      tss_ds = USER_DATA_SEL, tss_fs = USER_DATA_SEL, tss_gs = USER_DATA_SEL,
      tss_ldt = 0x20, tss_trace_bitmap = 0\<rparr>,
    tss_entry = 0, task_ldt = (DEFAULT_LDT_CODE, DEFAULT_LDT_DATA), ldt_entry = 0,
    task_state = TS_RUNNING, priority = INITIAL_PRIO, nxt = 0\<rparr>"

section \<open>Descriptors\<close>

definition tss_descriptor :: "u64 \<Rightarrow> u64" where
  "tss_descriptor t = 0x0080890000000067 OR (push_bit 16 t AND 0xffffff0000)
     OR (push_bit 32 t AND 0xff00000000000000)"

definition set_tss :: "u64 \<Rightarrow> kstate \<Rightarrow> u64 \<times> kstate" where
  "set_tss t s = (tss_descriptor t, s\<lparr>gdt := (gdt s)(CURR_TASK_TSS := tss_descriptor t)\<rparr>)"

definition ldt_descriptor :: "u64 \<Rightarrow> u64" where
  "ldt_descriptor l = 0x008082000000000f OR (push_bit 16 l AND 0xffffff0000)
     OR (push_bit 32 l AND 0xff00000000000000)"

definition set_ldt :: "u64 \<Rightarrow> kstate \<Rightarrow> u64 \<times> kstate" where
  "set_ldt l s = (ldt_descriptor l, s\<lparr>gdt := (gdt s)(CURR_TASK_LDT := ldt_descriptor l)\<rparr>)"

text \<open>The packed \<^verbatim>\<open>GDT\<close> structure laid over one 64-bit entry.\<close>

definition gdt_fields :: "u16 \<Rightarrow> u16 \<Rightarrow> u8 \<Rightarrow> u16 \<Rightarrow> u8 \<Rightarrow> u64" where
  "gdt_fields limit_low base_low base_middle attr_plus_limit base_high =
     ucast limit_low OR push_bit 16 (ucast base_low) OR push_bit 32 (ucast base_middle)
     OR push_bit 40 (ucast attr_plus_limit) OR push_bit 56 (ucast base_high)"

definition set_gdt_des :: "u32 \<Rightarrow> u16 \<Rightarrow> u32 \<Rightarrow> u16 \<Rightarrow> kstate \<Rightarrow> kstate" where
  "set_gdt_des i attrib a limitl s = s\<lparr>gdt := (gdt s)(i :=
     gdt_fields limitl (ucast a AND 0xffff) (ucast (drop_bit 16 a) AND 0xff) attrib
       (ucast (drop_bit 24 a) AND 0xff))\<rparr>"

definition get_tss :: "kstate \<Rightarrow> u64" where "get_tss s = gdt s CURR_TASK_TSS"
definition get_ldt :: "kstate \<Rightarrow> u64" where "get_ldt s = gdt s CURR_TASK_LDT"

text \<open>The base address the processor reads from a descriptor.\<close>

definition desc_base :: "u64 \<Rightarrow> u32" where
  "desc_base e = ucast ((drop_bit 16 e AND 0xffffff) OR (drop_bit 32 e AND 0xff000000))"

section \<open>The scheduler\<close>

partial_function (option) sched_loop ::
  "(u32 \<Rightarrow> task_struct) \<Rightarrow> u32 \<Rightarrow> u32 \<Rightarrow> u32 \<Rightarrow> u32 option" where
  "sched_loop ts v tmp cp =
     (if v = 0 then Some tmp
      else if task_state (ts v) = TS_RUNABLE \<and> sint cp \<ge> sint (priority (ts v))
      then sched_loop ts (nxt (ts v)) v (priority (ts v))
      else sched_loop ts (nxt (ts v)) tmp cp)"

text \<open>The body of the second \<^verbatim>\<open>if\<close>: the switch to \<open>tmp\<close>, ending in the far jump.\<close>

definition switch_to :: "u32 \<Rightarrow> kstate \<Rightarrow> kstate" where
  "switch_to tmp s0 =
     (let s1 = upd_task (current s0) (\<lambda>t. t\<lparr>tss_entry := get_tss s0\<rparr>) s0;
          s2 = upd_task (current s1) (\<lambda>t. t\<lparr>ldt_entry := get_ldt s1\<rparr>) s1;
          (e, s3) = set_tss (ucast tmp) s2;
          s4 = upd_task tmp (\<lambda>t. t\<lparr>tss_entry := e\<rparr>) s3;
          (l, s5) = set_ldt (ucast (tmp + ldt_offset)) s4;
          s6 = upd_task tmp (\<lambda>t. t\<lparr>ldt_entry := l\<rparr>) s5;
          s7 = upd_task (current s6) (\<lambda>t. t\<lparr>task_state := TS_RUNABLE\<rparr>) s6;
          s8 = upd_task tmp (\<lambda>t. t\<lparr>task_state := TS_RUNNING\<rparr>) s7;
          s9 = s8\<lparr>current := tmp\<rparr>
      in s9\<lparr>cpu_tss := desc_base (gdt s9 CURR_TASK_TSS)\<rparr>)"

definition scheduler :: "kstate \<Rightarrow> kstate option" where
  "scheduler s =
     (let s' = (if task_state (task_of s (current s)) = TS_SLEEP then s\<lparr>current := TASK0 s\<rparr> else s)
      in map_option
           (\<lambda>tmp. if tmp \<noteq> 0 \<and> tmp \<noteq> current s' then switch_to tmp s' else s')
           (sched_loop (tasks s') (TASK0 s') 0 (priority (task_of s' (current s')))))"

section \<open>Task list operations\<close>

definition new_task :: "u32 \<Rightarrow> u32 \<Rightarrow> u32 \<Rightarrow> u32 \<Rightarrow> kstate \<Rightarrow> kstate" where
  "new_task task eip stack0 stack3 s =
     (let s1 = upd_task task (\<lambda>_. task_of s (TASK0 s)) s;
          s2 = upd_task task (\<lambda>t. t\<lparr>tss := (tss t)\<lparr>tss_esp0 := stack0, tss_eip := eip,
                 tss_eflags := 0x3202, tss_esp := stack3\<rparr>\<rparr>) s1;
          s3 = upd_task task (\<lambda>t. t\<lparr>priority := INITIAL_PRIO\<rparr>) s2;
          s4 = upd_task task (\<lambda>t. t\<lparr>task_state := TS_STOPPED\<rparr>) s3;
          s5 = upd_task task (\<lambda>t. t\<lparr>nxt := nxt (task_of s4 (current s4))\<rparr>) s4;
          s6 = upd_task (current s5) (\<lambda>t. t\<lparr>nxt := task\<rparr>) s5
      in upd_task task (\<lambda>t. t\<lparr>task_state := TS_RUNABLE\<rparr>) s6)"

definition insert_task :: "u32 \<Rightarrow> u32 \<Rightarrow> kstate \<Rightarrow> kstate" where
  "insert_task task st s =
     (let s1 = upd_task task (\<lambda>t. t\<lparr>priority := INITIAL_PRIO\<rparr>) s;
          s2 = upd_task task (\<lambda>t. t\<lparr>task_state := TS_STOPPED\<rparr>) s1;
          s3 = upd_task task (\<lambda>t. t\<lparr>nxt := nxt (task_of s2 (current s2))\<rparr>) s2;
          s4 = upd_task (current s3) (\<lambda>t. t\<lparr>nxt := task\<rparr>) s3
      in upd_task task (\<lambda>t. t\<lparr>task_state := st\<rparr>) s4)"

text \<open>\<^verbatim>\<open>remove_task\<close> unlinks the current task; it answers NULL when no task precedes it.\<close>

partial_function (option) remove_loop :: "u32 \<Rightarrow> kstate \<Rightarrow> (u32 \<times> kstate) option" where
  "remove_loop v s =
     (if v = 0 then Some (0, s)
      else if nxt (task_of s v) = current s
      then (let t = nxt (task_of s v);
                s1 = upd_task v (\<lambda>k. k\<lparr>nxt := nxt (task_of s t)\<rparr>) s
            in Some (t, upd_task t (\<lambda>k. k\<lparr>task_state := TS_STOPPED\<rparr>) s1))
      else remove_loop (nxt (task_of s v)) s)"

definition remove_task :: "kstate \<Rightarrow> (u32 \<times> kstate) option" where
  "remove_task s = remove_loop (TASK0 s) s"

text \<open>
  \<^verbatim>\<open>sleep_on(p)\<close> and \<^verbatim>\<open>wake_up(p)\<close> take a pointer to a task pointer. \<open>None\<close> stands for a null
  \<open>p\<close>, \<open>Some t\<close> for one whose target holds \<open>t\<close>; the first result is the target afterwards.
\<close>

definition sleep_on :: "u32 option \<Rightarrow> kstate \<Rightarrow> u32 option \<times> kstate" where
  "sleep_on p s =
     (case p of None \<Rightarrow> (None, s)
      | Some t \<Rightarrow> if current s = TASK0 s then (Some t, s)
                 else (Some (current s), upd_task (current s) (\<lambda>k. k\<lparr>task_state := TS_SLEEP\<rparr>) s))"

definition wake_up :: "u32 option \<Rightarrow> kstate \<Rightarrow> kstate" where
  "wake_up p s =
     (case p of Some t \<Rightarrow> if t \<noteq> 0 then upd_task t (\<lambda>k. k\<lparr>task_state := TS_RUNABLE\<rparr>) s else s
      | None \<Rightarrow> s)"

definition get_current_task :: "kstate \<Rightarrow> u32" where "get_current_task s = current s"

section \<open>The timer interrupt\<close>

text \<open>
  \<^verbatim>\<open>timer_install\<close>: the port writes, in order, as (value, port); \<open>imr\<close> is what port 0x21 reads
  and a frequency of 0 is the division trap.
\<close>

definition timer_install :: "u32 \<Rightarrow> u8 \<Rightarrow> (u8 \<times> u16) list option" where
  "timer_install hz imr =
     (if hz = 0 then None
      else let divisor = word_of_int (sdiv_c 1193180 (sint hz)) :: u32
           in Some [(0x36, 0x43), (ucast (divisor AND 0xff), 0x40),
                    (ucast (drop_bit 8 divisor), 0x40), (imr AND 0xfe, 0x21)])"

definition tick_task :: "task_struct \<Rightarrow> task_struct" where
  "tick_task t =
     (let t' = (if task_state t = TS_RUNNING
                then if sint (priority t + 30) \<le> 0 then t\<lparr>priority := 0xffffffff\<rparr>
                     else t\<lparr>priority := priority t + 30\<rparr>
                else t)
      in if task_state t' = TS_SLEEP then t' else t'\<lparr>priority := priority t' - 10\<rparr>)"

partial_function (option) timer_loop :: "u32 \<Rightarrow> kstate \<Rightarrow> kstate option" where
  "timer_loop v s =
     (if v = 0 then Some s
      else let s' = upd_task v tick_task s in timer_loop (nxt (task_of s' v)) s')"

definition do_timer :: "kstate \<Rightarrow> kstate option" where
  "do_timer s =
     (let s1 = s\<lparr>timer_ticks := timer_ticks s + 1\<rparr>
      in Option.bind (timer_loop (TASK0 s1) s1)
           (\<lambda>s2. if timer_ticks s2 mod 1 = 0 then scheduler s2 else Some s2))"

section \<open>Descriptor facts\<close>

lemma addr_masks:
  "(0xffffff0000 :: u64) = push_bit 16 (mask 24)" "(0xff00000000000000 :: u64) = push_bit 56 (mask 8)"
  "(0xffffff :: u64) = mask 24" "(0xff000000 :: u64) = push_bit 24 (mask 8)"
  by (simp_all add: mask_eq_exp_minus_1 push_bit_eq_mult)

lemma byte_masks: "(0xffff :: u16) = mask 16" "(0xff :: u8) = mask 8"
  by (simp_all add: mask_eq_exp_minus_1)

lemma desc_base_fields:
  fixes k t :: u64
  assumes "drop_bit 16 k AND 0xffffff = 0" and "drop_bit 32 k AND 0xff000000 = 0"
  shows "desc_base (k OR (push_bit 16 t AND 0xffffff0000) OR (push_bit 32 t AND 0xff00000000000000))
    = ucast t"
proof -
  have "drop_bit 16 (k OR (push_bit 16 t AND 0xffffff0000) OR (push_bit 32 t AND 0xff00000000000000))
      AND 0xffffff = t AND mask 24" (is "?l = _")
  proof -
    have "drop_bit 16 ((push_bit 16 t AND 0xffffff0000) OR (push_bit 32 t AND 0xff00000000000000))
        AND 0xffffff = t AND mask 24"
      unfolding addr_masks by (rule bit_word_eqI) (auto simp: bit_simps)
    with assms(1) show ?thesis
      by (simp add: drop_bit_or bit.conj_disj_distrib2 or.assoc)
  qed
  moreover have "drop_bit 32 (k OR (push_bit 16 t AND 0xffffff0000) OR (push_bit 32 t AND 0xff00000000000000))
      AND 0xff000000 = t AND push_bit 24 (mask 8)"
  proof -
    have "drop_bit 32 ((push_bit 16 t AND 0xffffff0000) OR (push_bit 32 t AND 0xff00000000000000))
        AND 0xff000000 = t AND push_bit 24 (mask 8)"
      unfolding addr_masks by (rule bit_word_eqI) (auto simp: bit_simps)
    with assms(2) show ?thesis
      by (simp add: drop_bit_or bit.conj_disj_distrib2 or.assoc)
  qed
  moreover have "ucast ((t AND mask 24) OR (t AND push_bit 24 (mask 8))) = (ucast t :: u32)"
    by (rule bit_word_eqI) (auto simp: bit_simps)
  ultimately show ?thesis by (simp add: desc_base_def)
qed

lemma desc_base_tss [simp]: "desc_base (tss_descriptor (ucast a)) = a"
  unfolding tss_descriptor_def by (rule trans [OF desc_base_fields]) simp_all

lemma desc_base_ldt [simp]: "desc_base (ldt_descriptor (ucast a)) = a"
  unfolding ldt_descriptor_def by (rule trans [OF desc_base_fields]) simp_all

section \<open>The task list\<close>

primrec linked :: "(u32 \<Rightarrow> task_struct) \<Rightarrow> u32 \<Rightarrow> u32 list \<Rightarrow> bool" where
  "linked ts v [] \<longleftrightarrow> v = 0"
| "linked ts v (x # xs) \<longleftrightarrow> v = x \<and> x \<noteq> 0 \<and> linked ts (nxt (ts x)) xs"

lemma linked_cong:
  "(\<And>x. x \<in> set xs \<Longrightarrow> nxt (ts x) = nxt (ts' x)) \<Longrightarrow> linked ts v xs = linked ts' v xs"
  by (induction xs arbitrary: v) auto

lemma linked_nonzero: "linked ts v xs \<Longrightarrow> 0 \<notin> set xs"
  by (induction xs arbitrary: v) auto

lemma linked_unique: "linked ts v xs \<Longrightarrow> linked ts v ys \<Longrightarrow> xs = ys"
proof (induction xs arbitrary: v ys)
  case Nil
  then show ?case by (cases ys) auto
next
  case (Cons x xs)
  then show ?case by (cases ys) auto
qed

text \<open>Inserting after a member.\<close>

lemma linked_insert_after:
  assumes "linked ts v (as @ c # bs)" and "distinct (as @ c # bs)"
    and "t \<noteq> 0" and "t \<notin> set (as @ c # bs)"
    and "\<And>x. x \<in> set as \<union> set bs \<Longrightarrow> nxt (ts' x) = nxt (ts x)"
    and "nxt (ts' c) = t" and "nxt (ts' t) = nxt (ts c)"
  shows "linked ts' v (as @ c # t # bs)"
  using assms
proof (induction as arbitrary: v)
  case Nil
  then have "linked ts' (nxt (ts c)) bs = linked ts (nxt (ts c)) bs"
    by (intro linked_cong) auto
  with Nil show ?case by auto
next
  case (Cons a as)
  have "linked ts' (nxt (ts a)) (as @ c # t # bs)"
    using Cons.prems by (intro Cons.IH) auto
  with Cons.prems show ?case by auto
qed

text \<open>Unlinking the successor of a member.\<close>

lemma linked_remove_after:
  assumes "linked ts v (as @ p # c # bs)" and "distinct (as @ p # c # bs)"
    and "\<And>x. x \<in> set as \<union> set bs \<Longrightarrow> nxt (ts' x) = nxt (ts x)" and "nxt (ts' p) = nxt (ts c)"
  shows "linked ts' v (as @ p # bs)"
  using assms
proof (induction as arbitrary: v)
  case Nil
  then have "linked ts' (nxt (ts c)) bs = linked ts (nxt (ts c)) bs"
    by (intro linked_cong) auto
  with Nil show ?case by auto
next
  case (Cons a as)
  have "linked ts' (nxt (ts a)) (as @ p # bs)"
    using Cons.prems by (intro Cons.IH) auto
  with Cons.prems show ?case by auto
qed

section \<open>What the scheduler chooses\<close>

abbreviation runable :: "(u32 \<Rightarrow> task_struct) \<Rightarrow> u32 \<Rightarrow> bool" where
  "runable ts v \<equiv> task_state (ts v) = TS_RUNABLE"

abbreviation prio :: "(u32 \<Rightarrow> task_struct) \<Rightarrow> u32 \<Rightarrow> int" where
  "prio ts v \<equiv> sint (priority (ts v))"

text \<open>\<open>t\<close> is the last task of least priority number among the runnable ones that beat \<open>b\<close>.\<close>

definition chosen :: "(u32 \<Rightarrow> task_struct) \<Rightarrow> u32 list \<Rightarrow> int \<Rightarrow> u32 \<Rightarrow> bool" where
  "chosen ts vs b t \<longleftrightarrow> (\<exists>as bs. vs = as @ t # bs \<and> runable ts t \<and> prio ts t \<le> b \<and>
     (\<forall>u\<in>set as. runable ts u \<longrightarrow> prio ts t \<le> prio ts u) \<and>
     (\<forall>u\<in>set bs. runable ts u \<longrightarrow> prio ts t < prio ts u))"

lemma chosenD:
  assumes "chosen ts vs b t"
  shows "t \<in> set vs" and "runable ts t" and "prio ts t \<le> b"
    and "u \<in> set vs \<Longrightarrow> runable ts u \<Longrightarrow> prio ts t \<le> prio ts u"
proof -
  from assms obtain as bs where *: "vs = as @ t # bs" "runable ts t" "prio ts t \<le> b"
    "\<forall>u\<in>set as. runable ts u \<longrightarrow> prio ts t \<le> prio ts u"
    "\<forall>u\<in>set bs. runable ts u \<longrightarrow> prio ts t < prio ts u" unfolding chosen_def by blast
  show "t \<in> set vs" "runable ts t" "prio ts t \<le> b" using * by simp_all
  show "prio ts t \<le> prio ts u" if "u \<in> set vs" "runable ts u"
    using that * by (cases "u \<in> set bs") (auto dest!: bspec)
qed

lemma chosen_Cons:
  assumes "chosen ts xs c t" and "runable ts x \<Longrightarrow> prio ts t \<le> prio ts x" and "prio ts t \<le> b"
  shows "chosen ts (x # xs) b t"
proof -
  from assms(1) obtain as bs where *: "xs = as @ t # bs" "runable ts t"
    "\<forall>u\<in>set as. runable ts u \<longrightarrow> prio ts t \<le> prio ts u"
    "\<forall>u\<in>set bs. runable ts u \<longrightarrow> prio ts t < prio ts u" unfolding chosen_def by blast
  show ?thesis
    unfolding chosen_def
    by (rule exI [of _ "x # as"], rule exI [of _ bs]) (use * assms(2,3) in simp)
qed

lemma chosen_hd:
  "runable ts x \<Longrightarrow> prio ts x \<le> b \<Longrightarrow> \<forall>u\<in>set xs. runable ts u \<longrightarrow> prio ts x < prio ts u \<Longrightarrow>
   chosen ts (x # xs) b x"
  unfolding chosen_def by (rule exI [of _ "[]"], rule exI [of _ xs]) simp

lemma sched_loop_linked:
  assumes "linked ts v vs"
  shows "\<exists>r. sched_loop ts v tmp cp = Some r \<and>
    (if \<exists>u\<in>set vs. runable ts u \<and> prio ts u \<le> sint cp then chosen ts vs (sint cp) r else r = tmp)"
  using assms
proof (induction vs arbitrary: v tmp cp)
  case Nil
  then show ?case by (simp add: sched_loop.simps)
next
  case (Cons x xs)
  then have x: "v = x" "x \<noteq> 0" and tl: "linked ts (nxt (ts x)) xs" by auto
  show ?case
  proof (cases "runable ts x \<and> prio ts x \<le> sint cp")
    case True
    from Cons.IH [OF tl, of x "priority (ts x)"] obtain r where
      r: "sched_loop ts (nxt (ts x)) x (priority (ts x)) = Some r" and
      c: "if \<exists>u\<in>set xs. runable ts u \<and> prio ts u \<le> prio ts x
          then chosen ts xs (prio ts x) r else r = x" by blast
    have "chosen ts (x # xs) (sint cp) r"
    proof (cases "\<exists>u\<in>set xs. runable ts u \<and> prio ts u \<le> prio ts x")
      case True
      with c have "chosen ts xs (prio ts x) r" by simp
      with chosenD(3) [OF this] \<open>runable ts x \<and> prio ts x \<le> sint cp\<close> show ?thesis
        by (auto intro: chosen_Cons)
    next
      case False
      with c have "r = x" by simp
      with False \<open>runable ts x \<and> prio ts x \<le> sint cp\<close> show ?thesis
        by (auto intro!: chosen_hd simp: not_le)
    qed
    moreover have "\<exists>u\<in>set (x # xs). runable ts u \<and> prio ts u \<le> sint cp" using True by simp
    ultimately have "if \<exists>u\<in>set (x # xs). runable ts u \<and> prio ts u \<le> sint cp
       then chosen ts (x # xs) (sint cp) r else r = tmp" by (simp only: if_True)
    moreover have "sched_loop ts v tmp cp = Some r" using True r x by (simp add: sched_loop.simps [of ts x tmp cp])
    ultimately show ?thesis by blast
  next
    case False
    from Cons.IH [OF tl, of tmp cp] obtain r where
      r: "sched_loop ts (nxt (ts x)) tmp cp = Some r" and
      c: "if \<exists>u\<in>set xs. runable ts u \<and> prio ts u \<le> sint cp
          then chosen ts xs (sint cp) r else r = tmp" by blast
    have run: "sched_loop ts v tmp cp = Some r"
      using False r x by (auto simp: sched_loop.simps [of ts x tmp cp])
    show ?thesis
    proof (cases "\<exists>u\<in>set xs. runable ts u \<and> prio ts u \<le> sint cp")
      case True
      with c have *: "chosen ts xs (sint cp) r" by simp
      have "chosen ts (x # xs) (sint cp) r"
        by (rule chosen_Cons [OF *]) (use chosenD(3) [OF *] False in auto)
      with run True show ?thesis by auto
    next
      case no: False
      with c have "r = tmp" by simp
      with run no False show ?thesis by auto
    qed
  qed
qed

section \<open>Effect of a switch and of a scheduling decision\<close>

lemma switch_to_simps [simp]:
  "current (switch_to t s) = t" "cpu_tss (switch_to t s) = t" "TASK0 (switch_to t s) = TASK0 s"
  "timer_ticks (switch_to t s) = timer_ticks s"
  by (simp_all add: switch_to_def Let_def upd_task_def set_tss_def set_ldt_def CURR_TASK_TSS_def
      CURR_TASK_LDT_def)

lemma tasks_switch_to:
  assumes "t \<noteq> current s"
  shows "tasks (switch_to t s) x =
    (if x = t then (tasks s t)\<lparr>tss_entry := tss_descriptor (ucast t),
        ldt_entry := ldt_descriptor (ucast (t + ldt_offset)), task_state := TS_RUNNING\<rparr>
     else if x = current s then (tasks s x)\<lparr>tss_entry := get_tss s, ldt_entry := get_ldt s,
        task_state := TS_RUNABLE\<rparr>
     else tasks s x)"
  using assms by (simp add: switch_to_def Let_def upd_task_def set_tss_def set_ldt_def get_ldt_def)

lemma switch_to_keeps [simp]:
  assumes "t \<noteq> current s"
  shows "nxt (tasks (switch_to t s) x) = nxt (tasks s x)"
    and "priority (tasks (switch_to t s) x) = priority (tasks s x)"
  using assms by (simp_all add: tasks_switch_to)

text \<open>The task the scheduler takes to be current: a sleeping one is replaced by the first task.\<close>

definition effective :: "kstate \<Rightarrow> u32" where
  "effective s = (if task_state (tasks s (current s)) = TS_SLEEP then TASK0 s else current s)"

lemma scheduler_cases:
  assumes "linked (tasks s) (TASK0 s) vs"
  obtains (idle) "scheduler s = Some (s\<lparr>current := effective s\<rparr>)"
      "\<forall>u\<in>set vs. \<not> (runable (tasks s) u \<and> prio (tasks s) u \<le> prio (tasks s) (effective s))"
  | (stay) "scheduler s = Some (s\<lparr>current := effective s\<rparr>)"
      "chosen (tasks s) vs (prio (tasks s) (effective s)) (effective s)"
  | (switch) t where "t \<noteq> effective s" "t \<noteq> 0"
      "scheduler s = Some (switch_to t (s\<lparr>current := effective s\<rparr>))"
      "chosen (tasks s) vs (prio (tasks s) (effective s)) t"
proof -
  let ?s = "s\<lparr>current := effective s\<rparr>"
  have eq: "(if task_state (task_of s (current s)) = TS_SLEEP then s\<lparr>current := TASK0 s\<rparr> else s) = ?s"
    by (simp add: effective_def)
  obtain r where r: "sched_loop (tasks s) (TASK0 s) 0 (priority (tasks s (effective s))) = Some r"
    and c: "if \<exists>u\<in>set vs. runable (tasks s) u \<and> prio (tasks s) u \<le> prio (tasks s) (effective s)
      then chosen (tasks s) vs (prio (tasks s) (effective s)) r else r = 0"
    using sched_loop_linked [OF assms] by blast
  from r have run: "scheduler s = Some (if r \<noteq> 0 \<and> r \<noteq> effective s then switch_to r ?s else ?s)"
    unfolding scheduler_def Let_def eq by simp
  show thesis
  proof (cases "\<exists>u\<in>set vs. runable (tasks s) u \<and> prio (tasks s) u \<le> prio (tasks s) (effective s)")
    case True
    with c have ch: "chosen (tasks s) vs (prio (tasks s) (effective s)) r" by simp
    then have "r \<noteq> 0" using chosenD(1) linked_nonzero [OF assms] by metis
    with ch run stay switch show ?thesis by (cases "r = effective s") auto
  next
    case False
    with c run idle show ?thesis by auto
  qed
qed

section \<open>The timer loop\<close>

lemma tick_task_keeps [simp]:
  "nxt (tick_task t) = nxt t" "task_state (tick_task t) = task_state t" "tss (tick_task t) = tss t"
  by (simp_all add: tick_task_def Let_def)

definition map_tasks ::
  "u32 list \<Rightarrow> (task_struct \<Rightarrow> task_struct) \<Rightarrow> (u32 \<Rightarrow> task_struct) \<Rightarrow> u32 \<Rightarrow> task_struct" where
  "map_tasks vs f ts x = (if x \<in> set vs then f (ts x) else ts x)"

lemma map_tasks_in [simp]: "x \<in> set vs \<Longrightarrow> map_tasks vs f ts x = f (ts x)"
  and map_tasks_out [simp]: "x \<notin> set vs \<Longrightarrow> map_tasks vs f ts x = ts x"
  by (simp_all add: map_tasks_def)

lemma map_tasks_Cons:
  "x \<notin> set xs \<Longrightarrow> map_tasks xs f (ts(x := f (ts x))) = map_tasks (x # xs) f ts"
  by (simp add: map_tasks_def fun_eq_iff)

lemma timer_loop_linked:
  "linked (tasks s) v vs \<Longrightarrow> distinct vs \<Longrightarrow>
   timer_loop v s = Some (s\<lparr>tasks := map_tasks vs tick_task (tasks s)\<rparr>)"
proof (induction vs arbitrary: v s)
  case Nil
  have "map_tasks [] tick_task (tasks s) = tasks s" by (simp add: map_tasks_def fun_eq_iff)
  with Nil show ?case by (simp add: timer_loop.simps)
next
  case (Cons x xs)
  let ?s = "upd_task x tick_task s"
  have "linked (tasks ?s) (nxt (tasks ?s x)) xs"
    using Cons.prems by (subst linked_cong [of _ _ "tasks s"]) (auto simp: upd_task_def)
  with Cons have "timer_loop (nxt (tasks ?s x)) ?s =
    Some (?s\<lparr>tasks := map_tasks xs tick_task (tasks ?s)\<rparr>)" by simp
  moreover have "map_tasks xs tick_task (tasks ?s) = map_tasks (x # xs) tick_task (tasks s)"
    using Cons.prems by (simp add: upd_task_def map_tasks_Cons)
  ultimately show ?case
    using Cons.prems by (simp add: timer_loop.simps [of x s] Let_def upd_task_def)
qed

definition ticked :: "u32 list \<Rightarrow> kstate \<Rightarrow> kstate" where
  "ticked vs s = s\<lparr>tasks := map_tasks vs tick_task (tasks s), timer_ticks := timer_ticks s + 1\<rparr>"

lemma ticked_simps [simp]:
  "TASK0 (ticked vs s) = TASK0 s" "current (ticked vs s) = current s" "cpu_tss (ticked vs s) = cpu_tss s"
  "nxt (tasks (ticked vs s) x) = nxt (tasks s x)"
  "task_state (tasks (ticked vs s) x) = task_state (tasks s x)"
  "x \<in> set vs \<Longrightarrow> tasks (ticked vs s) x = tick_task (tasks s x)"
  by (simp_all add: ticked_def map_tasks_def)

lemma linked_ticked [simp]: "linked (tasks (ticked vs s)) v us = linked (tasks s) v us"
  by (rule linked_cong) simp

lemma do_timer_linked:
  assumes "linked (tasks s) (TASK0 s) vs" and "distinct vs"
  shows "do_timer s = scheduler (ticked vs s)"
proof -
  have "timer_loop (TASK0 s) (s\<lparr>timer_ticks := timer_ticks s + 1\<rparr>) = Some (ticked vs s)"
    using timer_loop_linked [of "s\<lparr>timer_ticks := timer_ticks s + 1\<rparr>" "TASK0 s" vs] assms
    by (simp add: ticked_def)
  then show ?thesis by (simp add: do_timer_def Let_def)
qed

section \<open>The kernel as a transition system\<close>

text \<open>
  The list invariant: the task list is finite and free of cycles, it contains the current task,
  and no other task is marked running.
\<close>

definition kinv :: "u32 list \<Rightarrow> kstate \<Rightarrow> bool" where
  "kinv vs s \<longleftrightarrow> linked (tasks s) (TASK0 s) vs \<and> distinct vs \<and> current s \<in> set vs \<and>
     (\<forall>v\<in>set vs. task_state (tasks s v) = TS_RUNNING \<longrightarrow> v = current s)"

lemma kinv_first: "kinv vs s \<Longrightarrow> TASK0 s \<in> set vs"
  by (cases vs) (auto simp: kinv_def)

lemma kinv_effective: "kinv vs s \<Longrightarrow> effective s \<in> set vs"
  using kinv_first by (auto simp: effective_def kinv_def)

text \<open>When the sleeper is replaced, no task is marked running, so the invariant is kept.\<close>

lemma effective_running:
  "kinv vs s \<Longrightarrow> v \<in> set vs \<Longrightarrow> task_state (tasks s v) = TS_RUNNING \<Longrightarrow> v = effective s"
  by (auto simp: kinv_def effective_def TS_defs)

lemma kinv_switch:
  assumes "kinv vs s" and "t \<in> set vs" and "t \<noteq> current s"
  shows "kinv vs (switch_to t s)"
proof -
  have "linked (tasks (switch_to t s)) (TASK0 s) vs"
    using assms by (subst linked_cong [of _ _ "tasks s"]) (simp_all add: kinv_def)
  then show ?thesis using assms by (auto simp: kinv_def tasks_switch_to TS_defs)
qed

lemma kinv_scheduler:
  assumes "kinv vs s"
  shows "\<exists>s'. scheduler s = Some s' \<and> kinv vs s'"
proof -
  have l: "linked (tasks s) (TASK0 s) vs" and d: "distinct vs" using assms by (auto simp: kinv_def)
  have e: "kinv vs (s\<lparr>current := effective s\<rparr>)"
    using assms effective_running [OF assms] kinv_effective [OF assms] by (simp add: kinv_def)
  from l show ?thesis
  proof (cases rule: scheduler_cases)
    case (switch t)
    have "t \<in> set vs" using switch(4) by (rule chosenD)
    then show ?thesis
      using switch kinv_switch [OF e, of t] by simp
  qed (use e in auto)
qed

lemma kinv_ticked: "kinv vs s \<Longrightarrow> kinv vs (ticked vs s)"
  by (simp add: kinv_def)

lemma kinv_do_timer: "kinv vs s \<Longrightarrow> \<exists>s'. do_timer s = Some s' \<and> kinv vs s'"
  using kinv_scheduler [OF kinv_ticked, of vs s] do_timer_linked [of s vs] by (simp add: kinv_def)

section \<open>Effect of the list operations\<close>

lemma tasks_new_task:
  assumes "t \<noteq> current s"
  shows "tasks (new_task t e s0 s3 s) x =
    (if x = t then (tasks s (TASK0 s))\<lparr>tss := (tss (tasks s (TASK0 s)))\<lparr>tss_esp0 := s0, tss_eip := e,
        tss_eflags := 0x3202, tss_esp := s3\<rparr>, task_state := TS_RUNABLE, priority := INITIAL_PRIO,
        nxt := nxt (tasks s (current s))\<rparr>
     else if x = current s then (tasks s x)\<lparr>nxt := t\<rparr> else tasks s x)"
  using assms by (simp add: new_task_def Let_def upd_task_def)

lemma tasks_insert_task:
  assumes "t \<noteq> current s"
  shows "tasks (insert_task t st s) x =
    (if x = t then (tasks s t)\<lparr>task_state := st, priority := INITIAL_PRIO, nxt := nxt (tasks s (current s))\<rparr>
     else if x = current s then (tasks s x)\<lparr>nxt := t\<rparr> else tasks s x)"
  using assms by (simp add: insert_task_def Let_def upd_task_def)

lemma list_ops_keep [simp]:
  "TASK0 (new_task t e s0 s3 s) = TASK0 s" "current (new_task t e s0 s3 s) = current s"
  "TASK0 (insert_task t st s) = TASK0 s" "current (insert_task t st s) = current s"
  "cpu_tss (new_task t e s0 s3 s) = cpu_tss s" "cpu_tss (insert_task t st s) = cpu_tss s"
  "TASK0 (snd (sleep_on p s)) = TASK0 s" "current (snd (sleep_on p s)) = current s"
  "TASK0 (wake_up p s) = TASK0 s" "current (wake_up p s) = current s"
  by (simp_all add: new_task_def insert_task_def Let_def upd_task_def sleep_on_def wake_up_def
      split: option.split)

lemma nxt_sleep_wake [simp]:
  "nxt (tasks (snd (sleep_on p s)) x) = nxt (tasks s x)" "nxt (tasks (wake_up p s) x) = nxt (tasks s x)"
  by (simp_all add: sleep_on_def wake_up_def upd_task_def split: option.split)

text \<open>A new member after the current one, for both ways to insert.\<close>

lemma kinv_insert_after:
  assumes inv: "kinv vs s" and t: "t \<noteq> 0" "t \<notin> set vs" and vs: "vs = as @ current s # bs"
    and "TASK0 s' = TASK0 s" and "current s' = current s"
    and "\<And>x. x \<noteq> t \<Longrightarrow> tasks s' x = (if x = current s then (tasks s x)\<lparr>nxt := t\<rparr> else tasks s x)"
    and "nxt (tasks s' t) = nxt (tasks s (current s))" and "task_state (tasks s' t) \<noteq> TS_RUNNING"
  shows "kinv (as @ current s # t # bs) s'"
proof -
  have d: "distinct (as @ current s # bs)" and l: "linked (tasks s) (TASK0 s) (as @ current s # bs)"
    using inv vs by (simp_all add: kinv_def)
  have nt: "t \<notin> set (as @ current s # bs)" using t vs by simp
  have "linked (tasks s') (TASK0 s) (as @ current s # t # bs)"
  proof (rule linked_insert_after [OF l d t(1) nt])
    fix x assume "x \<in> set as \<union> set bs"
    then have "x \<noteq> t" "x \<noteq> current s" using d nt by auto
    then show "nxt (tasks s' x) = nxt (tasks s x)" by (simp add: assms(7))
  qed (use nt assms(7,8) in auto)
  moreover have "v = current s"
    if "v \<in> set (as @ current s # t # bs)" "task_state (tasks s' v) = TS_RUNNING" for v
  proof -
    have "v \<noteq> t" using that(2) assms(9) by auto
    then have "task_state (tasks s v) = TS_RUNNING" "v \<in> set vs"
      using that vs by (auto simp: assms(7) split: if_splits)
    with inv show ?thesis by (auto simp: kinv_def)
  qed
  ultimately show ?thesis
    using d nt assms(5,6) by (auto simp: kinv_def)
qed

lemma kinv_new_task:
  assumes "kinv vs s" and "t \<noteq> 0" and "t \<notin> set vs" and "vs = as @ current s # bs"
  shows "kinv (as @ current s # t # bs) (new_task t e s0 s3 s)"
proof -
  have "t \<noteq> current s" using assms by auto
  then show ?thesis
    using assms by (intro kinv_insert_after) (simp_all add: tasks_new_task TS_defs)
qed

lemma kinv_insert_task:
  assumes "kinv vs s" and "t \<noteq> 0" and "t \<notin> set vs" and "vs = as @ current s # bs"
    and "st \<noteq> TS_RUNNING"
  shows "kinv (as @ current s # t # bs) (insert_task t st s)"
proof -
  have "t \<noteq> current s" using assms by auto
  then show ?thesis
    using assms by (intro kinv_insert_after) (simp_all add: tasks_insert_task)
qed

lemma kinv_sleep_on: "kinv vs s \<Longrightarrow> kinv vs (snd (sleep_on p s))"
  unfolding kinv_def
  by (subst linked_cong [of _ _ "tasks s"])
    (auto simp: sleep_on_def upd_task_def TS_defs split: option.split if_splits)

lemma kinv_wake_up: "kinv vs s \<Longrightarrow> kinv vs (wake_up p s)"
  unfolding kinv_def
  by (subst linked_cong [of _ _ "tasks s"])
    (auto simp: wake_up_def upd_task_def TS_defs split: option.split if_splits)

definition unlinked :: "u32 \<Rightarrow> kstate \<Rightarrow> kstate" where
  "unlinked p s = upd_task (current s) (\<lambda>k. k\<lparr>task_state := TS_STOPPED\<rparr>)
     (upd_task p (\<lambda>k. k\<lparr>nxt := nxt (tasks s (current s))\<rparr>) s)"

lemma remove_loop_linked:
  "linked (tasks s) v (as @ p # current s # bs) \<Longrightarrow> distinct (as @ p # current s # bs) \<Longrightarrow>
   remove_loop v s = Some (current s, unlinked p s)"
proof (induction as arbitrary: v)
  case Nil
  then have "v = p" "p \<noteq> 0" "p \<noteq> current s" "nxt (tasks s p) = current s" by auto
  then show ?case
    by (simp add: remove_loop.simps [of p s] Let_def unlinked_def)
next
  case (Cons a as)
  then have v: "v = a" "a \<noteq> 0" and tl: "linked (tasks s) (nxt (tasks s a)) (as @ p # current s # bs)"
    by auto
  have "nxt (tasks s a) \<noteq> current s"
    using tl Cons.prems(2) by (cases as) auto
  then show ?case
    using v Cons.IH [OF tl] Cons.prems(2) by (simp add: remove_loop.simps [of a s])
qed

lemma linked_unlinked:
  assumes "linked (tasks s) v (as @ p # current s # bs)" and "distinct (as @ p # current s # bs)"
  shows "linked (tasks (unlinked p s)) v (as @ p # bs)"
  by (rule linked_remove_after [OF assms]) (use assms(2) in \<open>auto simp: unlinked_def upd_task_def\<close>)

lemma remove_loop_absent:
  "linked (tasks s) v vs \<Longrightarrow> current s \<notin> set (tl vs) \<Longrightarrow> current s \<noteq> 0 \<Longrightarrow> remove_loop v s = Some (0, s)"
proof (induction vs arbitrary: v)
  case Nil
  then show ?case by (simp add: remove_loop.simps)
next
  case (Cons x xs)
  then have "nxt (tasks s x) \<noteq> current s" by (cases xs) auto
  with Cons show ?case by (cases xs) (auto simp: remove_loop.simps [of x s] remove_loop.simps [of 0 s])
qed

section \<open>Steps of the kernel\<close>

inductive kstep :: "kstate \<Rightarrow> kstate \<Rightarrow> bool" where
  tick: "do_timer s = Some s' \<Longrightarrow> kstep s s'"
| yield: "scheduler s = Some s' \<Longrightarrow> kstep s s'"
| spawn: "linked (tasks s) (TASK0 s) vs \<Longrightarrow> t \<noteq> 0 \<Longrightarrow> t \<notin> set vs \<Longrightarrow> kstep s (new_task t e s0 s3 s)"
| sleep: "kstep s (snd (sleep_on p s))"
| wake: "kstep s (wake_up p s)"

text \<open>The state the boot code leaves: the first task alone.\<close>

definition booted :: "kstate \<Rightarrow> bool" where
  "booted s \<longleftrightarrow> TASK0 s \<noteq> 0 \<and> current s = TASK0 s \<and> nxt (tasks s (TASK0 s)) = 0"

lemma kinv_booted: "booted s \<Longrightarrow> kinv [TASK0 s] s"
  by (simp add: booted_def kinv_def)

lemma kinv_step: "kstep s s' \<Longrightarrow> kinv vs s \<Longrightarrow> \<exists>vs'. kinv vs' s'"
proof -
  assume "kstep s s'" and inv: "kinv vs s"
  from \<open>kstep s s'\<close> show ?thesis
  proof (cases rule: kstep.cases)
    case tick
    with kinv_do_timer [OF inv] show ?thesis by auto
  next
    case yield
    with kinv_scheduler [OF inv] show ?thesis by auto
  next
    case (spawn us t e s0 s3)
    have "us = vs" using spawn(2) inv by (auto simp: kinv_def intro: linked_unique)
    moreover obtain as bs where "vs = as @ current s # bs"
      using inv by (auto simp: kinv_def dest: split_list)
    ultimately show ?thesis using kinv_new_task [OF inv spawn(3)] spawn by blast
  next
    case (sleep p)
    then show ?thesis using kinv_sleep_on [OF inv] by blast
  next
    case (wake p)
    then show ?thesis using kinv_wake_up [OF inv] by blast
  qed
qed

interpretation kernel_run: kept_by_steps kstep "\<lambda>s. \<exists>vs. kinv vs s"
  by unfold_locales (use kinv_step in blast)

lemma kinv_reachable: "kstep\<^sup>*\<^sup>* s s' \<Longrightarrow> booted s \<Longrightarrow> \<exists>vs. kinv vs s'"
  using kernel_run.reachable kinv_booted by blast

section \<open>Waiting times\<close>

text \<open>All tasks compete for the processor: the current one runs, every other one is runnable.\<close>

definition competing :: "u32 list \<Rightarrow> kstate \<Rightarrow> bool" where
  "competing vs s \<longleftrightarrow> kinv vs s \<and> task_state (tasks s (current s)) = TS_RUNNING \<and>
     (\<forall>v\<in>set vs. v = current s \<or> runable (tasks s) v)"

definition within :: "u32 list \<Rightarrow> int \<Rightarrow> kstate \<Rightarrow> bool" where
  "within vs B s \<longleftrightarrow> (\<forall>v\<in>set vs. \<bar>prio (tasks s) v\<bar> \<le> B)"

text \<open>
  How often the others can be preferred to \<open>w\<close>: a task that runs for a tick loses at least 29
  against the waiting ones.
\<close>

definition lag :: "u32 list \<Rightarrow> u32 \<Rightarrow> kstate \<Rightarrow> nat" where
  "lag vs w s = (\<Sum>u\<in>set vs - {w}. nat ((prio (tasks s) w - prio (tasks s) u) div 29 + 1))"

fun ticks :: "nat \<Rightarrow> kstate \<Rightarrow> kstate option" where
  "ticks 0 s = Some s"
| "ticks (Suc n) s = Option.bind (do_timer s) (ticks n)"

lemma sint_add_small:
  fixes x y :: u32
  assumes "\<bar>sint x + sint y\<bar> < 2147483648"
  shows "sint (x + y) = sint x + sint y"
  unfolding sint_word_ariths(1) by (rule signed_take_bit_int_eq_self) (use assms in simp_all)

lemma tick_runable:
  assumes "task_state t = TS_RUNABLE" and "\<bar>sint (priority t)\<bar> < 2147483600"
  shows "sint (priority (tick_task t)) = sint (priority t) - 10"
proof -
  have "sint (priority t + (- 10)) = sint (priority t) + sint (- 10 :: u32)"
    by (rule sint_add_small) (use assms(2) in simp)
  with assms(1) show ?thesis by (simp add: tick_task_def TS_defs)
qed

lemma tick_running:
  assumes "task_state t = TS_RUNNING" and "\<bar>sint (priority t)\<bar> < 2147483600"
  shows "sint (priority t) + 19 \<le> sint (priority (tick_task t))"
    and "\<bar>sint (priority (tick_task t))\<bar> \<le> \<bar>sint (priority t)\<bar> + 30"
proof -
  have 30: "sint (priority t + 30) = sint (priority t) + 30"
    using sint_add_small [of "priority t" 30] assms(2) by simp
  have 20: "sint (priority t + 30 - 10) = sint (priority t) + 20"
    using sint_add_small [of "priority t" 20] assms(2) by (simp add: add.commute)
  have "sint (priority (tick_task t)) = (if sint (priority t) + 30 \<le> 0 then - 11 else sint (priority t) + 20)"
    using assms(1) 20 by (simp add: tick_task_def TS_defs 30)
  then show "sint (priority t) + 19 \<le> sint (priority (tick_task t))"
    and "\<bar>sint (priority (tick_task t))\<bar> \<le> \<bar>sint (priority t)\<bar> + 30"
    by (auto split: if_splits)
qed

lemma prio_ticked:
  assumes "competing vs s" and "within vs B s" and "B < 2147483600" and "v \<in> set vs"
  shows "v \<noteq> current s \<Longrightarrow> prio (tasks (ticked vs s)) v = prio (tasks s) v - 10"
    and "v = current s \<Longrightarrow> prio (tasks s) v + 19 \<le> prio (tasks (ticked vs s)) v"
    and "\<bar>prio (tasks (ticked vs s)) v\<bar> \<le> B + 30"
proof -
  have b: "\<bar>prio (tasks s) v\<bar> \<le> B" "\<bar>prio (tasks s) v\<bar> < 2147483600"
    using assms by (auto simp: within_def)
  have r: "v = current s \<Longrightarrow> task_state (tasks s v) = TS_RUNNING"
    and w: "v \<noteq> current s \<Longrightarrow> task_state (tasks s v) = TS_RUNABLE"
    using assms(1,4) by (auto simp: competing_def)
  show 1: "v \<noteq> current s \<Longrightarrow> prio (tasks (ticked vs s)) v = prio (tasks s) v - 10"
    using tick_runable [OF w b(2)] assms(4) by simp
  show "v = current s \<Longrightarrow> prio (tasks s) v + 19 \<le> prio (tasks (ticked vs s)) v"
    using tick_running(1) [OF r b(2)] assms(4) by simp
  show "\<bar>prio (tasks (ticked vs s)) v\<bar> \<le> B + 30"
  proof (cases "v = current s")
    case True
    then show ?thesis using tick_running(2) [OF r b(2)] assms(4) b(1) by simp
  next
    case False
    then show ?thesis using 1 b(1) by simp
  qed
qed

lemma current_self: "current s = c \<Longrightarrow> s\<lparr>current := c\<rparr> = s"
  by (cases s) simp

lemma competing_tick:
  assumes c: "competing vs s" and w: "within vs B s" and B: "B < 2147483600"
  obtains s' where "do_timer s = Some s'" "competing vs s'" "within vs (B + 30) s'"
    "\<And>v. v \<in> set vs \<Longrightarrow> prio (tasks s') v = prio (tasks (ticked vs s)) v"
    "\<And>v. v \<in> set vs \<Longrightarrow> v \<noteq> current s' \<Longrightarrow> prio (tasks s') (current s') \<le> prio (tasks s') v"
proof -
  let ?s = "ticked vs s"
  have inv: "kinv vs s" and run: "task_state (tasks s (current s)) = TS_RUNNING"
    and oth: "\<And>v. v \<in> set vs \<Longrightarrow> v \<noteq> current s \<Longrightarrow> runable (tasks s) v"
    using c by (auto simp: competing_def)
  have inv': "kinv vs ?s" by (rule kinv_ticked [OF inv])
  have eff: "effective ?s = current s" using run by (simp add: effective_def TS_defs)
  have l: "linked (tasks ?s) (TASK0 ?s) vs" using inv' by (simp add: kinv_def)
  have c': "competing vs ?s" using c inv' by (simp add: competing_def)
  have w': "within vs (B + 30) ?s" using prio_ticked(3) [OF c w B] by (simp add: within_def)
  have dt: "do_timer s = scheduler ?s" using inv by (simp add: do_timer_linked kinv_def)
  have same: "?s\<lparr>current := effective ?s\<rparr> = ?s" by (rule current_self) (simp add: eff)
  from l show thesis
  proof (cases rule: scheduler_cases)
    case idle
    have "prio (tasks ?s) (current s) \<le> prio (tasks ?s) v" if "v \<in> set vs" "v \<noteq> current s" for v
      using idle(2) oth [OF that] that(1) by (fastforce simp: eff)
    with idle(1) show thesis
      using that [of ?s] c' w' dt by (simp add: same)
  next
    case stay
    then show thesis using chosenD(2) [OF stay(2)] run by (simp add: eff TS_defs)
  next
    case (switch t)
    let ?t = "switch_to t ?s"
    have t: "t \<noteq> current ?s" "t \<in> set vs" using switch(1) chosenD(1) [OF switch(4)] by (simp_all add: eff)
    have keep: "kinv vs ?t" using kinv_scheduler [OF inv'] switch(3) by (simp add: same)
    have "competing vs ?t"
      using keep t oth by (auto simp: competing_def tasks_switch_to)
    moreover have "prio (tasks ?t) t \<le> prio (tasks ?t) v" if "v \<in> set vs" "v \<noteq> t" for v
    proof (cases "v = current s")
      case True
      then show ?thesis using chosenD(3) [OF switch(4)] t by (simp add: eff)
    next
      case False
      then show ?thesis using chosenD(4) [OF switch(4) that(1)] oth that t by simp
    qed
    ultimately show thesis
      using that [of ?t] switch(3) dt w' t by (simp add: same within_def)
  qed
qed

lemma lag_tick:
  assumes c: "competing vs s" and w: "within vs B s" and B: "B < 2147483600"
    and m: "w \<in> set vs" "w \<noteq> current s"
    and s': "\<And>v. v \<in> set vs \<Longrightarrow> prio (tasks s') v = prio (tasks (ticked vs s)) v"
  shows "lag vs w s' \<le> lag vs w s"
    and "prio (tasks s) (current s) \<le> prio (tasks s) w \<Longrightarrow> lag vs w s' < lag vs w s"
proof -
  let ?f = "\<lambda>s u. nat ((prio (tasks s) w - prio (tasks s) u) div 29 + 1)"
  have cur: "current s \<in> set vs - {w}" using c m by (auto simp: competing_def kinv_def)
  have le: "prio (tasks s') w - prio (tasks s') u \<le> prio (tasks s) w - prio (tasks s) u"
    if "u \<in> set vs" for u
    using prio_ticked(1,2) [OF c w B that] prio_ticked(1) [OF c w B m(1)] m s' that
    by (cases "u = current s") simp_all
  have less: "prio (tasks s') w - prio (tasks s') (current s) \<le>
      prio (tasks s) w - prio (tasks s) (current s) - 29"
    using prio_ticked(2) [OF c w B, of "current s"] prio_ticked(1) [OF c w B m(1)] m s' cur by simp
  have mono: "?f s' u \<le> ?f s u" if "u \<in> set vs - {w}" for u
    by (intro nat_mono add_right_mono zdiv_mono1) (use le that in auto)
  then show "lag vs w s' \<le> lag vs w s" by (auto simp: lag_def intro: sum_mono)
  assume "prio (tasks s) (current s) \<le> prio (tasks s) w"
  then have "?f s' (current s) < ?f s (current s)" using less by (simp add: nat_less_eq_zless) linarith
  with mono cur show "lag vs w s' < lag vs w s"
    unfolding lag_def by (intro sum_strict_mono_ex1) auto
qed

lemma ticks_reach:
  assumes "competing vs s" and "within vs B s" and "B + 30 * int (lag vs w s) < 2147483600"
    and "w \<in> set vs" and "w \<noteq> current s \<Longrightarrow> prio (tasks s) (current s) \<le> prio (tasks s) w"
  shows "\<exists>n\<le>lag vs w s. \<exists>s'. ticks n s = Some s' \<and> current s' = w"
  using assms
proof (induction "lag vs w s" arbitrary: s B rule: less_induct)
  case less
  show ?case
  proof (cases "w = current s")
    case True
    then show ?thesis by (intro exI [of _ 0]) simp
  next
    case False
    have B: "B < 2147483600" using less.prems(3) by simp
    from less.prems(1,2) B obtain s1 where s1: "do_timer s = Some s1" "competing vs s1"
      "within vs (B + 30) s1" "\<And>v. v \<in> set vs \<Longrightarrow> prio (tasks s1) v = prio (tasks (ticked vs s)) v"
      "\<And>v. v \<in> set vs \<Longrightarrow> v \<noteq> current s1 \<Longrightarrow> prio (tasks s1) (current s1) \<le> prio (tasks s1) v"
      using competing_tick by metis
    have dec: "lag vs w s1 < lag vs w s"
      using lag_tick(2) [OF less.prems(1,2) B less.prems(4) False s1(4)] less.prems(5) False by simp
    have "B + 30 + 30 * int (lag vs w s1) < 2147483600" using less.prems(3) dec by linarith
    from less.hyps [OF dec s1(2,3) this less.prems(4)] s1(5) [OF less.prems(4)] obtain n s' where
      "n \<le> lag vs w s1" "ticks n s1 = Some s'" "current s' = w" by blast
    with dec s1(1) show ?thesis by (intro exI [of _ "Suc n"]) auto
  qed
qed

section \<open>A small concrete kernel\<close>

definition demo_boot :: kstate where
  "demo_boot = \<lparr>TASK0 = 0x1000, tasks = \<lambda>_. task0_init 0x5000, current = 0x1000, gdt = \<lambda>_. 0,
     timer_ticks = 0, cpu_tss = 0x1000\<rparr>"

definition demo_two :: kstate where
  "demo_two = new_task 0x2000 0x100 0x8000 0x9000 demo_boot"

lemma booted_demo: "booted demo_boot"
  by (simp add: booted_def demo_boot_def task0_init_def)

lemma demo_two_fields:
  "TASK0 demo_two = 0x1000" "current demo_two = 0x1000"
  "task_state (tasks demo_two 0x1000) = TS_RUNNING" "task_state (tasks demo_two 0x2000) = TS_RUNABLE"
  "priority (tasks demo_two 0x1000) = 200" "priority (tasks demo_two 0x2000) = 200"
  by (simp_all add: demo_two_def tasks_new_task demo_boot_def task0_init_def INITIAL_PRIO_def)

lemma kinv_demo_two: "kinv [0x1000, 0x2000] demo_two"
  using kinv_new_task [OF kinv_booted [OF booted_demo], of "0x2000" "[]" "[]"]
  by (simp add: demo_two_def demo_boot_def)

lemma competing_demo_two: "competing [0x1000, 0x2000] demo_two"
  using kinv_demo_two by (simp add: competing_def demo_two_fields)

section \<open>Properties\<close>

text \<open>
  Property C7. One call of \<open>scheduler\<close>, with \<open>c\<close> the current task (or the first one when the
  current task sleeps): when some runnable task has a priority number not above that of \<open>c\<close>, the
  task chosen is the last one of least priority number, it is marked running, \<open>c\<close> is marked
  runnable and the processor loads the chosen task's segment; nothing else in the list changes.
  When there is none, only the current-task pointer can change.
\<close>

theorem scheduler_correct:
  assumes "kinv vs s" and "c = (if task_state (tasks s (current s)) = TS_SLEEP then TASK0 s else current s)"
  shows "\<exists>s'. scheduler s = Some s' \<and> kinv vs s' \<and>
    (\<forall>v. prio (tasks s') v = prio (tasks s) v) \<and>
    (\<forall>v. v \<noteq> c \<and> v \<noteq> current s' \<longrightarrow> tasks s' v = tasks s v) \<and>
    (if \<exists>u\<in>set vs. runable (tasks s) u \<and> prio (tasks s) u \<le> prio (tasks s) c
     then chosen (tasks s) vs (prio (tasks s) c) (current s') \<and>
       (current s' \<noteq> c \<longrightarrow> task_state (tasks s' (current s')) = TS_RUNNING \<and>
          task_state (tasks s' c) = TS_RUNABLE \<and> cpu_tss s' = current s')
     else s' = s\<lparr>current := c\<rparr>)"
proof -
  have c: "c = effective s" using assms(2) by (simp add: effective_def)
  obtain s' where s': "scheduler s = Some s'" "kinv vs s'" using kinv_scheduler [OF assms(1)] by blast
  have l: "linked (tasks s) (TASK0 s) vs" using assms(1) by (simp add: kinv_def)
  from l show ?thesis
  proof (cases rule: scheduler_cases)
    case idle
    with s' c show ?thesis by auto
  next
    case stay
    with s' c chosenD(1-3) [OF stay(2)] show ?thesis by auto
  next
    case (switch t)
    with s' c chosenD(1-3) [OF switch(4)] show ?thesis by (auto simp: tasks_switch_to)
  qed
qed

theorem scheduler_correct_witness:
  "\<exists>s'. scheduler demo_two = Some s' \<and> current s' = 0x2000 \<and> cpu_tss s' = 0x2000 \<and>
     task_state (tasks s' 0x2000) = TS_RUNNING"
proof -
  have pick: "t = 0x2000" if "chosen (tasks demo_two) [0x1000, 0x2000] 200 t" for t
    using chosenD(1,2) [OF that] by (auto simp: demo_two_fields TS_defs)
  obtain s' where "scheduler demo_two = Some s'" "chosen (tasks demo_two) [0x1000, 0x2000] 200 (current s')"
    "current s' \<noteq> 0x1000 \<longrightarrow> task_state (tasks s' (current s')) = TS_RUNNING \<and> cpu_tss s' = current s'"
    using scheduler_correct [OF kinv_demo_two refl] by (auto simp: demo_two_fields TS_defs)
  with pick [OF this(2)] show ?thesis by simp
qed

text \<open>
  Property C8. From the booted kernel, whatever ticks, yields, task creations, sleeps and wake-ups
  happen in whatever order, the task list stays finite and free of cycles, contains the current
  task, and at most one task, the current one, is marked running; so the timer interrupt always
  returns.
\<close>

theorem kernel_keeps_task_list:
  assumes "booted s" and "kstep\<^sup>*\<^sup>* s s'"
  shows "\<exists>vs. linked (tasks s') (TASK0 s') vs \<and> distinct vs \<and> current s' \<in> set vs \<and>
    (\<forall>v\<in>set vs. task_state (tasks s' v) = TS_RUNNING \<longrightarrow> v = current s') \<and> do_timer s' \<noteq> None"
proof -
  obtain vs where "kinv vs s'" using kinv_reachable assms by blast
  with kinv_do_timer [OF this] show ?thesis by (auto simp: kinv_def)
qed

theorem kernel_keeps_task_list_witness:
  "\<exists>vs. linked (tasks demo_two) (TASK0 demo_two) vs \<and> current demo_two \<in> set vs"
proof -
  have "kstep demo_boot demo_two"
    unfolding demo_two_def using kinv_booted [OF booted_demo]
    by (intro kstep.spawn [of _ "[0x1000]"]) (simp_all add: kinv_def demo_boot_def)
  then show ?thesis using kernel_keeps_task_list [OF booted_demo r_into_rtranclp] by blast
qed

text \<open>
  Property C9. No starvation: when every task competes for the processor, a task \<open>w\<close> runs after at
  most one tick more than the sum, over the other tasks, of how often they can be preferred to it
  (as long as no priority can overflow in that time).
\<close>

theorem waiting_task_runs:
  assumes "competing vs s" and "within vs B s" and "w \<in> set vs"
    and "B + 30 * int (lag vs w s + 1) < 2147483600"
  shows "\<exists>n\<le>lag vs w s + 1. \<exists>s'. ticks n s = Some s' \<and> current s' = w"
proof (cases "w = current s")
  case True
  then show ?thesis by (intro exI [of _ 0]) simp
next
  case False
  have B: "B < 2147483600" using assms(4) by simp
  from assms(1,2) B obtain s1 where s1: "do_timer s = Some s1" "competing vs s1"
    "within vs (B + 30) s1" "\<And>v. v \<in> set vs \<Longrightarrow> prio (tasks s1) v = prio (tasks (ticked vs s)) v"
    "\<And>v. v \<in> set vs \<Longrightarrow> v \<noteq> current s1 \<Longrightarrow> prio (tasks s1) (current s1) \<le> prio (tasks s1) v"
    using competing_tick by metis
  have le: "lag vs w s1 \<le> lag vs w s"
    using lag_tick(1) [OF assms(1,2) B assms(3) False s1(4)] by simp
  then have "B + 30 + 30 * int (lag vs w s1) < 2147483600" using assms(4) by simp
  from ticks_reach [OF s1(2,3) this assms(3)] s1(5) [OF assms(3)] obtain n s' where
    "n \<le> lag vs w s1" "ticks n s1 = Some s'" "current s' = w" by blast
  with le s1(1) show ?thesis by (intro exI [of _ "Suc n"]) auto
qed

theorem waiting_task_runs_witness: "\<exists>n\<le>2. \<exists>s'. ticks n demo_two = Some s' \<and> current s' = 0x2000"
proof -
  have "lag [0x1000, 0x2000] 0x2000 demo_two = 1" by (simp add: lag_def demo_two_fields insert_Diff_if)
  moreover have "within [0x1000, 0x2000] 200 demo_two" by (simp add: within_def demo_two_fields)
  ultimately show ?thesis
    using waiting_task_runs [OF competing_demo_two, of 200 "0x2000"] by (simp add: numeral_2_eq_2)
qed

text \<open>
  A task that goes to sleep keeps the processor when the first task is the best
  choice: the scheduler has already made the first task current, sees no change and performs no
  task switch, so the kernel and the processor disagree about who runs.
\<close>

theorem sleeper_keeps_processor:
  assumes "kinv vs s" and "current s \<noteq> TASK0 s" and "cpu_tss s = current s"
    and "\<forall>u\<in>set vs. runable (tasks s) u \<longrightarrow> u = TASK0 s \<or> prio (tasks s) (TASK0 s) < prio (tasks s) u"
  shows "\<exists>s'. scheduler (snd (sleep_on (Some t) s)) = Some s' \<and> current s' = TASK0 s \<and>
    cpu_tss s' = current s \<and> task_state (tasks s' (current s)) = TS_SLEEP"
proof -
  let ?s = "snd (sleep_on (Some t) s)"
  have ts: "tasks ?s = (tasks s)(current s := (tasks s (current s))\<lparr>task_state := TS_SLEEP\<rparr>)"
    and cpu: "cpu_tss ?s = cpu_tss s"
    using assms(2) by (simp_all add: sleep_on_def upd_task_def)
  have eff: "effective ?s = TASK0 s" by (simp add: effective_def ts)
  have "linked (tasks ?s) (TASK0 ?s) vs" using kinv_sleep_on [OF assms(1)] by (simp add: kinv_def)
  then show ?thesis
  proof (cases rule: scheduler_cases)
    case (switch u)
    have "runable (tasks s) u" "u \<in> set vs" "u \<noteq> TASK0 s" "u \<noteq> current s"
      and "prio (tasks ?s) u \<le> prio (tasks ?s) (TASK0 s)"
      using chosenD(1-3) [OF switch(4)] switch(1) by (auto simp: eff ts TS_defs split: if_splits)
    with assms(2,4) show ?thesis by (auto simp: ts)
  qed (use assms(3) eff ts cpu in auto)
qed

theorem sleeper_keeps_processor_witness:
  "\<exists>s s'. cpu_tss s = current s \<and> scheduler (snd (sleep_on (Some 0) s)) = Some s' \<and>
     cpu_tss s' = 0x2000 \<and> current s' = 0x1000"
proof -
  have ne: "0x2000 \<noteq> current demo_two" by (simp add: demo_two_fields)
  let ?s = "switch_to 0x2000 demo_two"
  have t: "task_state (tasks ?s 0x1000) = TS_RUNABLE" "task_state (tasks ?s 0x2000) = TS_RUNNING"
    using ne by (simp_all add: tasks_switch_to demo_two_fields)
  have "kinv [0x1000, 0x2000] ?s" using kinv_switch [OF kinv_demo_two _ ne] by simp
  from sleeper_keeps_processor [OF this, of 0] t obtain s' where
    "scheduler (snd (sleep_on (Some 0) ?s)) = Some s'" "current s' = 0x1000" "cpu_tss s' = 0x2000"
    by (auto simp: demo_two_fields TS_defs)
  moreover have "cpu_tss ?s = current ?s" by simp
  ultimately show ?thesis by blast
qed

text \<open>
  The descriptors decode to what was encoded: the base the processor reads from the
  TSS entry, from the LDT entry and from any entry written by \<open>set_gdt_des\<close> is the address given,
  and other entries are untouched.
\<close>

theorem descriptors_decode:
  "desc_base (get_tss (snd (set_tss (ucast a) s))) = a \<and>
   desc_base (get_ldt (snd (set_ldt (ucast a) s))) = a \<and>
   desc_base (gdt (set_gdt_des i attr a lim s) i) = a \<and>
   ucast (gdt (set_gdt_des i attr a lim s) i) = lim \<and>
   ucast (drop_bit 40 (gdt (set_gdt_des i attr a lim s) i)) = attr \<and>
   gdt (set_gdt_des i attr a lim s) = (gdt s)(i := gdt (set_gdt_des i attr a lim s) i)"
proof -
  have "desc_base (gdt (set_gdt_des i attr a lim s) i) = a"
  proof (rule bit_word_eqI)
    fix n assume "n < LENGTH(32)"
    then consider "n < 16" | "16 \<le> n" "n < 24" | "24 \<le> n" "n < 32" by fastforce
    then show "bit (desc_base (gdt (set_gdt_des i attr a lim s) i)) n = bit a n"
      by cases (auto simp: set_gdt_des_def gdt_fields_def desc_base_def addr_masks byte_masks bit_simps
          dest: bit_imp_le_length)
  qed
  moreover have "ucast (gdt (set_gdt_des i attr a lim s) i) = lim"
    unfolding set_gdt_des_def gdt_fields_def
    by (rule bit_word_eqI) (auto simp: bit_simps)
  moreover have "ucast (drop_bit 40 (gdt (set_gdt_des i attr a lim s) i)) = attr"
    unfolding set_gdt_des_def gdt_fields_def byte_masks
    by (rule bit_word_eqI) (auto simp: bit_simps dest: bit_imp_le_length)
  ultimately show ?thesis
    by (simp add: get_tss_def get_ldt_def set_tss_def set_ldt_def set_gdt_des_def)
qed

text \<open>
  Creating a task puts it, runnable with the initial priority and its entry point and
  stacks, right after the current task, and removing the current task takes exactly it out; but
  inserting the removed task again, as \<open>test_task_op\<close> does, loses it: it is still the current
  task, so it is linked to itself and not to the list.
\<close>

theorem task_list_operations:
  assumes "kinv (as @ p # current s # bs) s" and "t \<noteq> 0" and "t \<notin> set (as @ p # current s # bs)"
  shows "kinv (as @ p # current s # t # bs) (new_task t e s0 s3 s) \<and>
    (let k = tasks (new_task t e s0 s3 s) t in runable (tasks (new_task t e s0 s3 s)) t \<and>
       priority k = INITIAL_PRIO \<and> tss_eip (tss k) = e \<and> tss_esp0 (tss k) = s0 \<and> tss_esp (tss k) = s3) \<and>
    (\<exists>s'. remove_task s = Some (current s, s') \<and> linked (tasks s') (TASK0 s') (as @ p # bs) \<and>
       linked (tasks (insert_task (current s) TS_RUNABLE s')) (TASK0 s') (as @ p # bs) \<and>
       nxt (tasks (insert_task (current s) TS_RUNABLE s') (current s)) = current s)"
proof -
  let ?vs = "as @ p # current s # bs" and ?u = "unlinked p s"
  have l: "linked (tasks s) (TASK0 s) ?vs" and d: "distinct ?vs"
    using assms(1) by (simp_all add: kinv_def)
  have ne: "t \<noteq> current s" using assms(3) by auto
  have u: "TASK0 ?u = TASK0 s" "current ?u = current s" by (simp_all add: unlinked_def upd_task_def)
  have ul: "linked (tasks ?u) (TASK0 s) (as @ p # bs)" by (rule linked_unlinked [OF l d])
  let ?i = "insert_task (current s) TS_RUNABLE ?u"
  have i: "nxt (tasks ?i x) = (if x = current s then current s else nxt (tasks ?u x))" for x
    using u by (simp add: insert_task_def Let_def upd_task_def)
  have "linked (tasks ?i) (TASK0 s) (as @ p # bs)"
    using ul d by (subst linked_cong [of _ _ "tasks ?u"]) (auto simp: i)
  moreover have "kinv (as @ p # current s # t # bs) (new_task t e s0 s3 s)"
    using kinv_new_task [OF assms(1,2,3), of "as @ [p]" bs] by simp
  ultimately show ?thesis
    using remove_loop_linked [OF l d] ul u i ne by (simp add: remove_task_def tasks_new_task)
qed

theorem task_list_operations_witness:
  "\<exists>s s'. current s = 0x2000 \<and> remove_task s = Some (0x2000, s') \<and>
     nxt (tasks (insert_task 0x2000 TS_RUNABLE s') 0x2000) = 0x2000"
proof -
  have ne: "0x2000 \<noteq> current demo_two" by (simp add: demo_two_fields)
  let ?s = "switch_to 0x2000 demo_two"
  have "kinv ([] @ 0x1000 # current ?s # []) ?s" using kinv_switch [OF kinv_demo_two _ ne] by simp
  from task_list_operations [OF this, of "0x3000" 0 0 0] have
    "\<exists>s'. remove_task ?s = Some (0x2000, s') \<and>
       nxt (tasks (insert_task 0x2000 TS_RUNABLE s') 0x2000) = 0x2000" by auto
  then have "current ?s = 0x2000 \<and> (\<exists>s'. remove_task ?s = Some (0x2000, s') \<and>
       nxt (tasks (insert_task 0x2000 TS_RUNABLE s') 0x2000) = 0x2000)" by simp
  then show ?thesis by blast
qed

end
