(* ===== verification/SimpleQueue.thy ===== *)
theory SimpleQueue
  imports CBase
begin

text \<open>
  The simple queues of \<^verbatim>\<open>include/queue.h\<close> (the \<^verbatim>\<open>SIMPLEQ\<close> macros, on which the wait queues
  of the semaphores are built): a head with the address of the first element and the address of
  the link cell to extend, and one link per element. The macros are refined to operations on
  lists. The interface \<open>fifo_queue\<close> states what a client of a first-in first-out queue relies on;
  the simple queues provide it here and the byte queue of the pipes provides it in its theory.
\<close>

section \<open>The interface of a queue\<close>

datatype 'a queue_op = Put 'a | Get

locale fifo_queue =
  fixes repr :: "'q \<Rightarrow> 'a list \<Rightarrow> bool"
    and fits :: "'q \<Rightarrow> 'a list \<Rightarrow> 'a \<Rightarrow> bool"
    and put :: "'a \<Rightarrow> 'q \<Rightarrow> 'q"
    and get :: "'q \<Rightarrow> ('a \<times> 'q) option"
  assumes put_appends: "repr q xs \<Longrightarrow> fits q xs x \<Longrightarrow> repr (put x q) (xs @ [x])"
    and get_first: "repr q (x # xs) \<Longrightarrow> \<exists>q'. get q = Some (x, q') \<and> repr q' xs"
    and get_empty: "repr q [] \<Longrightarrow> get q = None"
begin

text \<open>A sequence of operations and what the \<open>Get\<close>s among them delivered.\<close>

fun run :: "'a queue_op list \<Rightarrow> 'q \<Rightarrow> 'a list \<times> 'q" where
  "run [] q = ([], q)"
| "run (Put x # ops) q = run ops (put x q)"
| "run (Get # ops) q =
     (case get q of None \<Rightarrow> run ops q
      | Some (x, q') \<Rightarrow> case run ops q' of (out, r) \<Rightarrow> (x # out, r))"

text \<open>Every \<open>Put\<close> of the sequence finds room.\<close>

fun feasible :: "'a queue_op list \<Rightarrow> 'q \<Rightarrow> 'a list \<Rightarrow> bool" where
  "feasible [] q xs = True"
| "feasible (Put x # ops) q xs = (fits q xs x \<and> feasible ops (put x q) (xs @ [x]))"
| "feasible (Get # ops) q xs =
     (case get q of None \<Rightarrow> feasible ops q xs | Some (_, q') \<Rightarrow> feasible ops q' (tl xs))"

fun puts :: "'a queue_op list \<Rightarrow> 'a list" where
  "puts [] = []"
| "puts (Put x # ops) = x # puts ops"
| "puts (Get # ops) = puts ops"

lemma run_in_order:
  "repr q xs \<Longrightarrow> feasible ops q xs \<Longrightarrow>
   \<exists>out q' rest. run ops q = (out, q') \<and> repr q' rest \<and> out @ rest = xs @ puts ops"
proof (induction ops arbitrary: q xs)
  case (Cons a ops)
  show ?case
  proof (cases a)
    case (Put x)
    with Cons.prems have "repr (put x q) (xs @ [x])" "feasible ops (put x q) (xs @ [x])"
      by (simp_all add: put_appends)
    from Cons.IH [OF this] Put show ?thesis by auto
  next
    case Get
    show ?thesis
    proof (cases xs)
      case Nil
      with Cons.prems have "get q = None" by (simp add: get_empty)
      moreover from this have "feasible ops q xs" using Cons.prems(2) Get by simp
      ultimately show ?thesis using Cons.IH [OF Cons.prems(1)] Get by auto
    next
      case (Cons y ys)
      with Cons.prems(1) get_first obtain q' where q': "get q = Some (y, q')" "repr q' ys" by blast
      have "feasible ops q' ys" using Cons.prems(2) Get Cons q'(1) by simp
      from Cons.IH [OF q'(2) this] q'(1) Get Cons show ?thesis by fastforce
    qed
  qed
qed simp

end

section \<open>State and macros\<close>

text \<open>
  The address of a link cell: the head's first pointer, the link of an element, or the null
  pointer of a head that was never initialised (a store through it goes to memory word 0 and
  leaves the queue as it is).
\<close>

datatype link_cell = Null_cell | First | Next_of u32

record simpleq =
  sqh_first :: u32
  sqh_last :: link_cell
  sqe_next :: "u32 \<Rightarrow> u32"

definition SIMPLEQ_INIT :: "simpleq \<Rightarrow> simpleq" where
  "SIMPLEQ_INIT q = q\<lparr>sqh_first := 0, sqh_last := First\<rparr>"

definition set_next :: "u32 \<Rightarrow> u32 \<Rightarrow> simpleq \<Rightarrow> simpleq" where
  "set_next e v q = q\<lparr>sqe_next := (sqe_next q)(e := v)\<rparr>"

text \<open>\<^verbatim>\<open>*(head)->sqh_last = v\<close>\<close>

definition store_last :: "u32 \<Rightarrow> simpleq \<Rightarrow> simpleq" where
  "store_last v q = (case sqh_last q of First \<Rightarrow> q\<lparr>sqh_first := v\<rparr>
     | Next_of e \<Rightarrow> set_next e v q | Null_cell \<Rightarrow> q)"

definition SIMPLEQ_INSERT_HEAD :: "u32 \<Rightarrow> simpleq \<Rightarrow> simpleq" where
  "SIMPLEQ_INSERT_HEAD e q =
     (let q1 = set_next e (sqh_first q) q;
          q2 = (if sqe_next q1 e = 0 then q1\<lparr>sqh_last := Next_of e\<rparr> else q1)
      in q2\<lparr>sqh_first := e\<rparr>)"

definition SIMPLEQ_INSERT_TAIL :: "u32 \<Rightarrow> simpleq \<Rightarrow> simpleq" where
  "SIMPLEQ_INSERT_TAIL e q =
     (let q1 = set_next e 0 q; q2 = store_last e q1 in q2\<lparr>sqh_last := Next_of e\<rparr>)"

definition SIMPLEQ_INSERT_AFTER :: "u32 \<Rightarrow> u32 \<Rightarrow> simpleq \<Rightarrow> simpleq" where
  "SIMPLEQ_INSERT_AFTER l e q =
     (let q1 = set_next e (sqe_next q l) q;
          q2 = (if sqe_next q1 e = 0 then q1\<lparr>sqh_last := Next_of e\<rparr> else q1)
      in set_next l e q2)"

text \<open>Removing from an empty queue dereferences the null pointer: no result.\<close>

definition SIMPLEQ_REMOVE_HEAD :: "simpleq \<Rightarrow> simpleq option" where
  "SIMPLEQ_REMOVE_HEAD q =
     (if sqh_first q = 0 then None
      else let q1 = q\<lparr>sqh_first := sqe_next q (sqh_first q)\<rparr>
           in Some (if sqh_first q1 = 0 then q1\<lparr>sqh_last := First\<rparr> else q1))"

text \<open>
  \<^verbatim>\<open>while (curelm->field.sqe_next != (elm))\<close>: \<open>None\<close> when the walk reaches the null pointer or
  never meets the element.
\<close>

partial_function (option) find_pred :: "simpleq \<Rightarrow> u32 \<Rightarrow> u32 \<Rightarrow> u32 option" where
  "find_pred q e c =
     (if c = 0 then None else if sqe_next q c = e then Some c else find_pred q e (sqe_next q c))"

definition SIMPLEQ_REMOVE :: "u32 \<Rightarrow> simpleq \<Rightarrow> simpleq option" where
  "SIMPLEQ_REMOVE e q =
     (if sqh_first q = e then SIMPLEQ_REMOVE_HEAD q
      else Option.bind (find_pred q e (sqh_first q)) (\<lambda>c.
             if sqe_next q c = 0 then None
             else let q1 = set_next c (sqe_next q (sqe_next q c)) q
                  in Some (if sqe_next q1 c = 0 then q1\<lparr>sqh_last := Next_of c\<rparr> else q1)))"

definition SIMPLEQ_EMPTY :: "simpleq \<Rightarrow> bool" where "SIMPLEQ_EMPTY q \<longleftrightarrow> sqh_first q = 0"
definition SIMPLEQ_FIRST :: "simpleq \<Rightarrow> u32" where "SIMPLEQ_FIRST q = sqh_first q"
definition SIMPLEQ_NEXT :: "u32 \<Rightarrow> simpleq \<Rightarrow> u32" where "SIMPLEQ_NEXT e q = sqe_next q e"

text \<open>The elements \<^verbatim>\<open>SIMPLEQ_FOREACH\<close> visits, in order.\<close>

partial_function (option) visit :: "simpleq \<Rightarrow> u32 \<Rightarrow> u32 list option" where
  "visit q e = (if e = 0 then Some [] else Option.bind (visit q (sqe_next q e)) (\<lambda>es. Some (e # es)))"

definition SIMPLEQ_FOREACH :: "simpleq \<Rightarrow> u32 list option" where
  "SIMPLEQ_FOREACH q = visit q (sqh_first q)"

section \<open>Representation\<close>

primrec sq_chain :: "(u32 \<Rightarrow> u32) \<Rightarrow> u32 \<Rightarrow> u32 list \<Rightarrow> bool" where
  "sq_chain nx v [] \<longleftrightarrow> v = 0"
| "sq_chain nx v (x # xs) \<longleftrightarrow> v = x \<and> x \<noteq> 0 \<and> sq_chain nx (nx x) xs"

definition sq_repr :: "simpleq \<Rightarrow> u32 list \<Rightarrow> bool" where
  "sq_repr q xs \<longleftrightarrow> sq_chain (sqe_next q) (sqh_first q) xs \<and> distinct xs \<and>
     sqh_last q = (if xs = [] then First else Next_of (last xs))"

text \<open>What may be inserted: a fresh non-null element.\<close>

definition sq_fits :: "u32 list \<Rightarrow> u32 \<Rightarrow> bool" where
  "sq_fits xs e \<longleftrightarrow> e \<noteq> 0 \<and> e \<notin> set xs"

lemma sq_chain_cong:
  "(\<And>x. x \<in> set xs \<Longrightarrow> nx x = nx' x) \<Longrightarrow> sq_chain nx v xs = sq_chain nx' v xs"
  by (induction xs arbitrary: v) auto

lemma sq_chain_upd [simp]: "e \<notin> set xs \<Longrightarrow> sq_chain (nx(e := w)) v xs = sq_chain nx v xs"
  by (rule sq_chain_cong) auto

lemma sq_chain_snoc:
  "sq_chain nx v xs \<Longrightarrow> distinct xs \<Longrightarrow> sq_fits xs e \<Longrightarrow> xs \<noteq> [] \<Longrightarrow>
   sq_chain (nx(e := 0, last xs := e)) v (xs @ [e])"
proof (induction xs arbitrary: v)
  case (Cons x xs)
  show ?case
  proof (cases "xs = []")
    case True
    with Cons.prems show ?thesis by (auto simp: sq_fits_def)
  next
    case False
    with Cons.prems have "x \<noteq> last xs" "x \<noteq> e" by (auto simp: sq_fits_def)
    with Cons False show ?thesis by (auto simp: sq_fits_def)
  qed
qed simp

lemma sq_chain_Nil_iff: "sq_chain nx v xs \<Longrightarrow> v = 0 \<longleftrightarrow> xs = []"
  by (cases xs) auto

lemma insert_tail_refines:
  assumes "sq_repr q xs" and "sq_fits xs e"
  shows "sq_repr (SIMPLEQ_INSERT_TAIL e q) (xs @ [e])"
proof (cases "xs = []")
  case True
  with assms show ?thesis
    by (simp add: sq_repr_def SIMPLEQ_INSERT_TAIL_def Let_def set_next_def store_last_def sq_fits_def)
next
  case False
  with assms have "sqh_last q = Next_of (last xs)" by (simp add: sq_repr_def)
  with False assms show ?thesis
    using sq_chain_snoc [of "sqe_next q" "sqh_first q" xs e]
    by (simp add: sq_repr_def SIMPLEQ_INSERT_TAIL_def Let_def set_next_def store_last_def sq_fits_def)
qed

lemma insert_head_refines:
  assumes "sq_repr q xs" and "sq_fits xs e"
  shows "sq_repr (SIMPLEQ_INSERT_HEAD e q) (e # xs)"
  using assms sq_chain_Nil_iff [of "sqe_next q" "sqh_first q" xs]
  by (auto simp: sq_repr_def SIMPLEQ_INSERT_HEAD_def Let_def set_next_def sq_fits_def)

lemma remove_head_refines:
  assumes "sq_repr q (x # xs)"
  shows "sqh_first q = x" and "\<exists>q'. SIMPLEQ_REMOVE_HEAD q = Some q' \<and> sq_repr q' xs"
  using assms sq_chain_Nil_iff [of "sqe_next q" "sqe_next q x" xs]
  by (auto simp: sq_repr_def SIMPLEQ_REMOVE_HEAD_def Let_def)

lemma remove_head_empty: "sq_repr q [] \<Longrightarrow> SIMPLEQ_REMOVE_HEAD q = None"
  by (simp add: sq_repr_def SIMPLEQ_REMOVE_HEAD_def)

lemma foreach_refines:
  assumes "sq_repr q xs"
  shows "SIMPLEQ_FOREACH q = Some xs"
proof -
  have "visit q v = Some xs" if "sq_chain (sqe_next q) v xs" for v
    using that by (induction xs arbitrary: v) (simp_all add: visit.simps [of q])
  with assms show ?thesis by (simp add: sq_repr_def SIMPLEQ_FOREACH_def)
qed

text \<open>Insertion after and removal of an arbitrary member.\<close>

lemma sq_chain_insert_after:
  "sq_chain nx v (as @ l # bs) \<Longrightarrow> distinct (as @ l # bs) \<Longrightarrow> sq_fits (as @ l # bs) e \<Longrightarrow>
   sq_chain (nx(e := nx l, l := e)) v (as @ l # e # bs)"
  by (induction as arbitrary: v) (auto simp: sq_fits_def)

lemma sq_chain_remove_after:
  "sq_chain nx v (as @ c # e # bs) \<Longrightarrow> distinct (as @ c # e # bs) \<Longrightarrow>
   sq_chain (nx(c := nx e)) v (as @ c # bs)"
  by (induction as arbitrary: v) auto

lemma sq_chain_tail: "sq_chain nx v (as @ l # bs) \<Longrightarrow> sq_chain nx (nx l) bs"
  by (induction as arbitrary: v) auto

lemma insert_after_refines:
  assumes "sq_repr q (as @ l # bs)" and "sq_fits (as @ l # bs) e"
  shows "sq_repr (SIMPLEQ_INSERT_AFTER l e q) (as @ l # e # bs)"
proof -
  have ch: "sq_chain (sqe_next q) (sqh_first q) (as @ l # bs)" and d: "distinct (as @ l # bs)"
    using assms(1) by (auto simp: sq_repr_def)
  have "sqe_next q l = 0 \<longleftrightarrow> bs = []" using sq_chain_Nil_iff [OF sq_chain_tail [OF ch]] .
  with sq_chain_insert_after [OF ch d assms(2)] assms show ?thesis
    by (auto simp: sq_repr_def SIMPLEQ_INSERT_AFTER_def Let_def set_next_def sq_fits_def)
qed

lemma find_pred_chain:
  "sq_chain (sqe_next q) v (as @ c # e # bs) \<Longrightarrow> distinct (as @ c # e # bs) \<Longrightarrow>
   find_pred q e v = Some c"
proof (induction as arbitrary: v)
  case Nil
  then show ?case by (simp add: find_pred.simps [of q e c])
next
  case (Cons a as)
  then have "sqe_next q a \<noteq> e" by (cases as) auto
  with Cons show ?case by (auto simp: find_pred.simps [of q e a])
qed

lemma remove_refines:
  assumes "sq_repr q xs" and "e \<in> set xs"
  shows "\<exists>q'. SIMPLEQ_REMOVE e q = Some q' \<and> sq_repr q' (remove1 e xs)"
proof (cases "sqh_first q = e")
  case True
  with assms obtain ys where "xs = e # ys" by (cases xs) (auto simp: sq_repr_def)
  with True remove_head_refines(2) [of q e ys] assms(1) show ?thesis
    by (simp add: SIMPLEQ_REMOVE_def)
next
  case False
  from assms(2) obtain as bs where xs: "xs = as @ e # bs" by (auto dest: split_list)
  with False assms(1) obtain as' c where as: "as = as' @ [c]"
    by (cases as rule: rev_cases) (auto simp: sq_repr_def)
  have ch: "sq_chain (sqe_next q) (sqh_first q) (as' @ c # e # bs)" and d: "distinct (as' @ c # e # bs)"
    using assms(1) xs as by (auto simp: sq_repr_def)
  have ce: "sqe_next q c = e" "e \<noteq> 0" "sqe_next q e = 0 \<longleftrightarrow> bs = []"
    using sq_chain_tail [OF ch] sq_chain_Nil_iff [of "sqe_next q" "sqe_next q e" bs] by auto
  have "remove1 e xs = as' @ c # bs" using xs as d by (simp add: remove1_append)
  with False assms(1) sq_chain_remove_after [OF ch d] find_pred_chain [OF ch d] ce d xs as
  show ?thesis
    by (auto simp: SIMPLEQ_REMOVE_def sq_repr_def Let_def set_next_def)
qed

section \<open>The simple queue provides the interface\<close>

definition sq_get :: "simpleq \<Rightarrow> (u32 \<times> simpleq) option" where
  "sq_get q = map_option (Pair (SIMPLEQ_FIRST q)) (SIMPLEQ_REMOVE_HEAD q)"

interpretation waitq: fifo_queue sq_repr "\<lambda>_. sq_fits" SIMPLEQ_INSERT_TAIL sq_get
proof unfold_locales
  show "\<And>q x xs. sq_repr q (x # xs) \<Longrightarrow> \<exists>q'. sq_get q = Some (x, q') \<and> sq_repr q' xs"
    using remove_head_refines by (fastforce simp: sq_get_def SIMPLEQ_FIRST_def)
  show "\<And>q. sq_repr q [] \<Longrightarrow> sq_get q = None"
    by (simp add: sq_get_def remove_head_empty)
qed (rule insert_tail_refines)

section \<open>Properties\<close>

text \<open>
  Property C13. The pointer macros implement a list: on a queue that represents \<open>as @ l # bs\<close>, each
  insertion and removal returns and yields the queue of the corresponding list, and a traversal
  visits exactly the list, in order.
\<close>

theorem simpleq_refines_list:
  assumes "sq_repr q (as @ l # bs)" and "e \<noteq> 0" and "e \<notin> set (as @ l # bs)"
  shows "sq_repr (SIMPLEQ_INIT q) [] \<and>
    sq_repr (SIMPLEQ_INSERT_HEAD e q) (e # as @ l # bs) \<and>
    sq_repr (SIMPLEQ_INSERT_TAIL e q) (as @ l # bs @ [e]) \<and>
    sq_repr (SIMPLEQ_INSERT_AFTER l e q) (as @ l # e # bs) \<and>
    (\<exists>q'. SIMPLEQ_REMOVE_HEAD q = Some q' \<and> sq_repr q' (tl (as @ l # bs))) \<and>
    (\<exists>q'. SIMPLEQ_REMOVE l q = Some q' \<and> sq_repr q' (as @ bs)) \<and>
    SIMPLEQ_FIRST q = hd (as @ l # bs) \<and> SIMPLEQ_FOREACH q = Some (as @ l # bs)"
proof -
  have f: "sq_fits (as @ l # bs) e" using assms(2,3) by (simp add: sq_fits_def)
  have l: "l \<notin> set as" using assms(1) by (simp add: sq_repr_def)
  obtain x xs where xs: "as @ l # bs = x # xs" by (cases "as @ l # bs") auto
  have "\<exists>q'. SIMPLEQ_REMOVE l q = Some q' \<and> sq_repr q' (as @ bs)"
    using remove_refines [OF assms(1), of l] l by (simp add: remove1_append)
  moreover have "SIMPLEQ_FIRST q = x" "\<exists>q'. SIMPLEQ_REMOVE_HEAD q = Some q' \<and> sq_repr q' xs"
    using remove_head_refines [of q x xs] assms(1) by (simp_all add: xs SIMPLEQ_FIRST_def)
  moreover have "sq_repr (SIMPLEQ_INIT q) []" by (simp add: sq_repr_def SIMPLEQ_INIT_def)
  moreover have "sq_repr (SIMPLEQ_INSERT_TAIL e q) (as @ l # bs @ [e])"
    using insert_tail_refines [OF assms(1) f] by simp
  ultimately show ?thesis
    using insert_head_refines [OF assms(1) f] insert_after_refines [OF assms(1) f]
      foreach_refines [OF assms(1)] by (simp add: xs)
qed

definition demo_queue :: simpleq where
  "demo_queue = SIMPLEQ_INSERT_TAIL 8 (SIMPLEQ_INIT \<lparr>sqh_first = 1, sqh_last = First, sqe_next = \<lambda>_. 7\<rparr>)"

lemma demo_queue_repr: "sq_repr demo_queue [8]"
  by (simp add: demo_queue_def sq_repr_def SIMPLEQ_INSERT_TAIL_def SIMPLEQ_INIT_def set_next_def
      store_last_def Let_def)

theorem simpleq_refines_list_witness:
  "SIMPLEQ_FOREACH demo_queue = Some [8] \<and> sq_repr (SIMPLEQ_INSERT_TAIL 16 demo_queue) [8, 16]"
  using simpleq_refines_list [of demo_queue "[]" 8 "[]" 16] demo_queue_repr by simp

text \<open>
  First in, first out: whatever sequence of tail insertions (of fresh elements) and
  head removals runs on a queue, the elements removed followed by those left are the original
  elements followed by the inserted ones.
\<close>

theorem simpleq_fifo:
  assumes "sq_repr q xs" and "waitq.feasible ops q xs"
  shows "\<exists>out q' rest. waitq.run ops q = (out, q') \<and> sq_repr q' rest \<and>
    out @ rest = xs @ waitq.puts ops"
  by (rule waitq.run_in_order [OF assms])

theorem simpleq_fifo_witness:
  "\<exists>out q' rest. waitq.run [Put 16, Get, Put 24, Get] demo_queue = (out, q') \<and> sq_repr q' rest \<and>
     out @ rest = [8, 16, 24]"
proof -
  have f: "waitq.feasible [Put 16, Get, Put 24, Get] demo_queue [8]"
    by (simp add: sq_fits_def sq_get_def demo_queue_def SIMPLEQ_INIT_def SIMPLEQ_INSERT_TAIL_def
        SIMPLEQ_REMOVE_HEAD_def SIMPLEQ_FIRST_def set_next_def store_last_def Let_def)
  show ?thesis using simpleq_fifo [OF demo_queue_repr f] by simp
qed

end
