(* ===== verification/Queues.thy ===== *)
theory Queues
  imports SimpleQueue
begin

text \<open>
  The other containers of \<^verbatim>\<open>include/queue.h\<close>: singly-linked lists and tail queues, doubly-linked lists and tail
  queues, and circular queues. Heads and the link members of elements are objects of two pointers, named by the
  address of the head or of the element; an element pointer is a word, the null pointer zero. In the
  null-terminated containers the first pointer is an element and the second one the address of such an object,
  whose first pointer is meant.
\<close>

section \<open>Memory\<close>

text \<open>A head or the links of an element, by the address of the structure.\<close>

datatype link = Head u32 | Elm u32

record links =
  nxt_of :: "link \<Rightarrow> u32"
  prv_of :: "link \<Rightarrow> link"

definition set_nxt :: "link \<Rightarrow> u32 \<Rightarrow> links \<Rightarrow> links" where
  "set_nxt a v m = m\<lparr>nxt_of := (nxt_of m)(a := v)\<rparr>"

definition set_prv :: "link \<Rightarrow> link \<Rightarrow> links \<Rightarrow> links" where
  "set_prv a v m = m\<lparr>prv_of := (prv_of m)(a := v)\<rparr>"

section \<open>Lists\<close>

definition LIST_INIT :: "u32 \<Rightarrow> links \<Rightarrow> links" where
  "LIST_INIT h m = set_nxt (Head h) 0 m"

definition LIST_INSERT_AFTER :: "u32 \<Rightarrow> u32 \<Rightarrow> links \<Rightarrow> links" where
  "LIST_INSERT_AFTER l e m =
     (let m = set_nxt (Elm e) (nxt_of m (Elm l)) m;
          m = (if nxt_of m (Elm e) \<noteq> 0 then set_prv (Elm (nxt_of m (Elm l))) (Elm e) m else m);
          m = set_nxt (Elm l) e m
      in set_prv (Elm e) (Elm l) m)"

definition LIST_INSERT_BEFORE :: "u32 \<Rightarrow> u32 \<Rightarrow> links \<Rightarrow> links" where
  "LIST_INSERT_BEFORE l e m =
     (let m = set_prv (Elm e) (prv_of m (Elm l)) m;
          m = set_nxt (Elm e) l m;
          m = set_nxt (prv_of m (Elm l)) e m
      in set_prv (Elm l) (Elm e) m)"

definition LIST_INSERT_HEAD :: "u32 \<Rightarrow> u32 \<Rightarrow> links \<Rightarrow> links" where
  "LIST_INSERT_HEAD h e m =
     (let m = set_nxt (Elm e) (nxt_of m (Head h)) m;
          m = (if nxt_of m (Elm e) \<noteq> 0 then set_prv (Elm (nxt_of m (Head h))) (Elm e) m else m);
          m = set_nxt (Head h) e m
      in set_prv (Elm e) (Head h) m)"

definition LIST_REMOVE :: "u32 \<Rightarrow> links \<Rightarrow> links" where
  "LIST_REMOVE e m =
     (let m = (if nxt_of m (Elm e) \<noteq> 0 then set_prv (Elm (nxt_of m (Elm e))) (prv_of m (Elm e)) m else m)
      in set_nxt (prv_of m (Elm e)) (nxt_of m (Elm e)) m)"

text \<open>The elements a \<^verbatim>\<open>FOREACH\<close> from an element on visits; it is the same loop in four containers.\<close>

partial_function (option) elements :: "links \<Rightarrow> u32 \<Rightarrow> u32 list option" where
  "elements m v = (if v = 0 then Some [] else Option.bind (elements m (nxt_of m (Elm v))) (\<lambda>es. Some (v # es)))"

definition LIST_FOREACH :: "u32 \<Rightarrow> links \<Rightarrow> u32 list option" where
  "LIST_FOREACH h m = elements m (nxt_of m (Head h))"

definition LIST_EMPTY :: "u32 \<Rightarrow> links \<Rightarrow> bool" where "LIST_EMPTY h m \<longleftrightarrow> nxt_of m (Head h) = 0"
definition LIST_FIRST :: "u32 \<Rightarrow> links \<Rightarrow> u32" where "LIST_FIRST h m = nxt_of m (Head h)"
definition LIST_NEXT :: "u32 \<Rightarrow> links \<Rightarrow> u32" where "LIST_NEXT e m = nxt_of m (Elm e)"

section \<open>Singly-linked lists\<close>

definition SLIST_INIT :: "u32 \<Rightarrow> links \<Rightarrow> links" where
  "SLIST_INIT h m = set_nxt (Head h) 0 m"

definition SLIST_INSERT_AFTER :: "u32 \<Rightarrow> u32 \<Rightarrow> links \<Rightarrow> links" where
  "SLIST_INSERT_AFTER l e m = (let m = set_nxt (Elm e) (nxt_of m (Elm l)) m in set_nxt (Elm l) e m)"

definition SLIST_INSERT_HEAD :: "u32 \<Rightarrow> u32 \<Rightarrow> links \<Rightarrow> links" where
  "SLIST_INSERT_HEAD h e m = (let m = set_nxt (Elm e) (nxt_of m (Head h)) m in set_nxt (Head h) e m)"

text \<open>Removing from an empty list dereferences the null pointer: no result.\<close>

definition SLIST_REMOVE_HEAD :: "u32 \<Rightarrow> links \<Rightarrow> links option" where
  "SLIST_REMOVE_HEAD h m =
     (if nxt_of m (Head h) = 0 then None
      else Some (set_nxt (Head h) (nxt_of m (Elm (nxt_of m (Head h)))) m))"

text \<open>The loop that looks for the predecessor: no result when it meets the null pointer.\<close>

partial_function (option) pred_elm :: "links \<Rightarrow> u32 \<Rightarrow> u32 \<Rightarrow> u32 option" where
  "pred_elm m e c =
     (if c = 0 then None
      else if nxt_of m (Elm c) \<noteq> e then pred_elm m e (nxt_of m (Elm c)) else Some c)"

definition SLIST_REMOVE :: "u32 \<Rightarrow> u32 \<Rightarrow> links \<Rightarrow> links option" where
  "SLIST_REMOVE h e m =
     (if nxt_of m (Head h) = e then SLIST_REMOVE_HEAD h m
      else Option.bind (pred_elm m e (nxt_of m (Head h))) (\<lambda>c.
             if nxt_of m (Elm c) = 0 then None
             else Some (set_nxt (Elm c) (nxt_of m (Elm (nxt_of m (Elm c)))) m)))"

definition SLIST_FOREACH :: "u32 \<Rightarrow> links \<Rightarrow> u32 list option" where
  "SLIST_FOREACH h m = elements m (nxt_of m (Head h))"

definition SLIST_EMPTY :: "u32 \<Rightarrow> links \<Rightarrow> bool" where "SLIST_EMPTY h m \<longleftrightarrow> nxt_of m (Head h) = 0"
definition SLIST_FIRST :: "u32 \<Rightarrow> links \<Rightarrow> u32" where "SLIST_FIRST h m = nxt_of m (Head h)"
definition SLIST_NEXT :: "u32 \<Rightarrow> links \<Rightarrow> u32" where "SLIST_NEXT e m = nxt_of m (Elm e)"

section \<open>Singly-linked tail queues\<close>

definition STAILQ_INIT :: "u32 \<Rightarrow> links \<Rightarrow> links" where
  "STAILQ_INIT h m = set_prv (Head h) (Head h) (set_nxt (Head h) 0 m)"

definition STAILQ_INSERT_HEAD :: "u32 \<Rightarrow> u32 \<Rightarrow> links \<Rightarrow> links" where
  "STAILQ_INSERT_HEAD h e m =
     (let m = set_nxt (Elm e) (nxt_of m (Head h)) m;
          m = (if nxt_of m (Elm e) = 0 then set_prv (Head h) (Elm e) m else m)
      in set_nxt (Head h) e m)"

definition STAILQ_INSERT_TAIL :: "u32 \<Rightarrow> u32 \<Rightarrow> links \<Rightarrow> links" where
  "STAILQ_INSERT_TAIL h e m =
     (let m = set_nxt (Elm e) 0 m;
          m = set_nxt (prv_of m (Head h)) e m
      in set_prv (Head h) (Elm e) m)"

definition STAILQ_INSERT_AFTER :: "u32 \<Rightarrow> u32 \<Rightarrow> u32 \<Rightarrow> links \<Rightarrow> links" where
  "STAILQ_INSERT_AFTER h l e m =
     (let m = set_nxt (Elm e) (nxt_of m (Elm l)) m;
          m = (if nxt_of m (Elm e) = 0 then set_prv (Head h) (Elm e) m else m)
      in set_nxt (Elm l) e m)"

definition STAILQ_REMOVE_HEAD :: "u32 \<Rightarrow> links \<Rightarrow> links option" where
  "STAILQ_REMOVE_HEAD h m =
     (if nxt_of m (Head h) = 0 then None
      else let m = set_nxt (Head h) (nxt_of m (Elm (nxt_of m (Head h)))) m
           in Some (if nxt_of m (Head h) = 0 then set_prv (Head h) (Head h) m else m))"

definition STAILQ_REMOVE :: "u32 \<Rightarrow> u32 \<Rightarrow> links \<Rightarrow> links option" where
  "STAILQ_REMOVE h e m =
     (if nxt_of m (Head h) = e then STAILQ_REMOVE_HEAD h m
      else Option.bind (pred_elm m e (nxt_of m (Head h))) (\<lambda>c.
             if nxt_of m (Elm c) = 0 then None
             else let m = set_nxt (Elm c) (nxt_of m (Elm (nxt_of m (Elm c)))) m
                  in Some (if nxt_of m (Elm c) = 0 then set_prv (Head h) (Elm c) m else m)))"

definition STAILQ_FOREACH :: "u32 \<Rightarrow> links \<Rightarrow> u32 list option" where
  "STAILQ_FOREACH h m = elements m (nxt_of m (Head h))"

definition STAILQ_EMPTY :: "u32 \<Rightarrow> links \<Rightarrow> bool" where "STAILQ_EMPTY h m \<longleftrightarrow> nxt_of m (Head h) = 0"
definition STAILQ_FIRST :: "u32 \<Rightarrow> links \<Rightarrow> u32" where "STAILQ_FIRST h m = nxt_of m (Head h)"
definition STAILQ_NEXT :: "u32 \<Rightarrow> links \<Rightarrow> u32" where "STAILQ_NEXT e m = nxt_of m (Elm e)"

definition STAILQ_CONCAT :: "u32 \<Rightarrow> u32 \<Rightarrow> links \<Rightarrow> links" where
  "STAILQ_CONCAT h1 h2 m =
     (if \<not> STAILQ_EMPTY h2 m
      then let m = set_nxt (prv_of m (Head h1)) (nxt_of m (Head h2)) m;
               m = set_prv (Head h1) (prv_of m (Head h2)) m
           in STAILQ_INIT h2 m
      else m)"

section \<open>Tail queues\<close>

definition TAILQ_INIT :: "u32 \<Rightarrow> links \<Rightarrow> links" where
  "TAILQ_INIT h m = set_prv (Head h) (Head h) (set_nxt (Head h) 0 m)"

definition TAILQ_INSERT_HEAD :: "u32 \<Rightarrow> u32 \<Rightarrow> links \<Rightarrow> links" where
  "TAILQ_INSERT_HEAD h e m =
     (let m = set_nxt (Elm e) (nxt_of m (Head h)) m;
          m = (if nxt_of m (Elm e) \<noteq> 0 then set_prv (Elm (nxt_of m (Head h))) (Elm e) m
               else set_prv (Head h) (Elm e) m);
          m = set_nxt (Head h) e m
      in set_prv (Elm e) (Head h) m)"

definition TAILQ_INSERT_TAIL :: "u32 \<Rightarrow> u32 \<Rightarrow> links \<Rightarrow> links" where
  "TAILQ_INSERT_TAIL h e m =
     (let m = set_nxt (Elm e) 0 m;
          m = set_prv (Elm e) (prv_of m (Head h)) m;
          m = set_nxt (prv_of m (Head h)) e m
      in set_prv (Head h) (Elm e) m)"

definition TAILQ_INSERT_AFTER :: "u32 \<Rightarrow> u32 \<Rightarrow> u32 \<Rightarrow> links \<Rightarrow> links" where
  "TAILQ_INSERT_AFTER h l e m =
     (let m = set_nxt (Elm e) (nxt_of m (Elm l)) m;
          m = (if nxt_of m (Elm e) \<noteq> 0 then set_prv (Elm (nxt_of m (Elm e))) (Elm e) m
               else set_prv (Head h) (Elm e) m);
          m = set_nxt (Elm l) e m
      in set_prv (Elm e) (Elm l) m)"

definition TAILQ_INSERT_BEFORE :: "u32 \<Rightarrow> u32 \<Rightarrow> links \<Rightarrow> links" where
  "TAILQ_INSERT_BEFORE l e m =
     (let m = set_prv (Elm e) (prv_of m (Elm l)) m;
          m = set_nxt (Elm e) l m;
          m = set_nxt (prv_of m (Elm l)) e m
      in set_prv (Elm l) (Elm e) m)"

definition TAILQ_REMOVE :: "u32 \<Rightarrow> u32 \<Rightarrow> links \<Rightarrow> links" where
  "TAILQ_REMOVE h e m =
     (let m = (if nxt_of m (Elm e) \<noteq> 0 then set_prv (Elm (nxt_of m (Elm e))) (prv_of m (Elm e)) m
               else set_prv (Head h) (prv_of m (Elm e)) m)
      in set_nxt (prv_of m (Elm e)) (nxt_of m (Elm e)) m)"

definition TAILQ_FOREACH :: "u32 \<Rightarrow> links \<Rightarrow> u32 list option" where
  "TAILQ_FOREACH h m = elements m (nxt_of m (Head h))"

text \<open>
  The links of an element have the layout of a head: the object that a second pointer names is taken for a
  head, and the first pointer of the object its second pointer names is the element before.
\<close>

definition TAILQ_LAST :: "u32 \<Rightarrow> links \<Rightarrow> u32" where
  "TAILQ_LAST h m = nxt_of m (prv_of m (prv_of m (Head h)))"

definition TAILQ_PREV :: "u32 \<Rightarrow> links \<Rightarrow> u32" where
  "TAILQ_PREV e m = nxt_of m (prv_of m (prv_of m (Elm e)))"

partial_function (option) elements_back :: "links \<Rightarrow> u32 \<Rightarrow> u32 list option" where
  "elements_back m v =
     (if v = 0 then Some [] else Option.bind (elements_back m (TAILQ_PREV v m)) (\<lambda>es. Some (v # es)))"

definition TAILQ_FOREACH_REVERSE :: "u32 \<Rightarrow> links \<Rightarrow> u32 list option" where
  "TAILQ_FOREACH_REVERSE h m = elements_back m (TAILQ_LAST h m)"

definition TAILQ_EMPTY :: "u32 \<Rightarrow> links \<Rightarrow> bool" where "TAILQ_EMPTY h m \<longleftrightarrow> nxt_of m (Head h) = 0"
definition TAILQ_FIRST :: "u32 \<Rightarrow> links \<Rightarrow> u32" where "TAILQ_FIRST h m = nxt_of m (Head h)"
definition TAILQ_NEXT :: "u32 \<Rightarrow> links \<Rightarrow> u32" where "TAILQ_NEXT e m = nxt_of m (Elm e)"

definition TAILQ_CONCAT :: "u32 \<Rightarrow> u32 \<Rightarrow> links \<Rightarrow> links" where
  "TAILQ_CONCAT h1 h2 m =
     (if \<not> TAILQ_EMPTY h2 m
      then let m = set_nxt (prv_of m (Head h1)) (nxt_of m (Head h2)) m;
               m = set_prv (Elm (nxt_of m (Head h2))) (prv_of m (Head h1)) m;
               m = set_prv (Head h1) (prv_of m (Head h2)) m
           in TAILQ_INIT h2 m
      else m)"

section \<open>Circular queues\<close>

text \<open>Here both pointers are element pointers, and the head, taken for an element, ends the queue at both sides.\<close>

record circle =
  cnext :: "link \<Rightarrow> link"
  cprev :: "link \<Rightarrow> link"

definition set_cnext :: "link \<Rightarrow> link \<Rightarrow> circle \<Rightarrow> circle" where
  "set_cnext a v m = m\<lparr>cnext := (cnext m)(a := v)\<rparr>"

definition set_cprev :: "link \<Rightarrow> link \<Rightarrow> circle \<Rightarrow> circle" where
  "set_cprev a v m = m\<lparr>cprev := (cprev m)(a := v)\<rparr>"

definition CIRCLEQ_INIT :: "u32 \<Rightarrow> circle \<Rightarrow> circle" where
  "CIRCLEQ_INIT h m = set_cprev (Head h) (Head h) (set_cnext (Head h) (Head h) m)"

definition CIRCLEQ_INSERT_AFTER :: "u32 \<Rightarrow> u32 \<Rightarrow> u32 \<Rightarrow> circle \<Rightarrow> circle" where
  "CIRCLEQ_INSERT_AFTER h l e m =
     (let m = set_cnext (Elm e) (cnext m (Elm l)) m;
          m = set_cprev (Elm e) (Elm l) m;
          m = (if cnext m (Elm l) = Head h then set_cprev (Head h) (Elm e) m
               else set_cprev (cnext m (Elm l)) (Elm e) m)
      in set_cnext (Elm l) (Elm e) m)"

definition CIRCLEQ_INSERT_BEFORE :: "u32 \<Rightarrow> u32 \<Rightarrow> u32 \<Rightarrow> circle \<Rightarrow> circle" where
  "CIRCLEQ_INSERT_BEFORE h l e m =
     (let m = set_cnext (Elm e) (Elm l) m;
          m = set_cprev (Elm e) (cprev m (Elm l)) m;
          m = (if cprev m (Elm l) = Head h then set_cnext (Head h) (Elm e) m
               else set_cnext (cprev m (Elm l)) (Elm e) m)
      in set_cprev (Elm l) (Elm e) m)"

definition CIRCLEQ_INSERT_HEAD :: "u32 \<Rightarrow> u32 \<Rightarrow> circle \<Rightarrow> circle" where
  "CIRCLEQ_INSERT_HEAD h e m =
     (let m = set_cnext (Elm e) (cnext m (Head h)) m;
          m = set_cprev (Elm e) (Head h) m;
          m = (if cprev m (Head h) = Head h then set_cprev (Head h) (Elm e) m
               else set_cprev (cnext m (Head h)) (Elm e) m)
      in set_cnext (Head h) (Elm e) m)"

definition CIRCLEQ_INSERT_TAIL :: "u32 \<Rightarrow> u32 \<Rightarrow> circle \<Rightarrow> circle" where
  "CIRCLEQ_INSERT_TAIL h e m =
     (let m = set_cnext (Elm e) (Head h) m;
          m = set_cprev (Elm e) (cprev m (Head h)) m;
          m = (if cnext m (Head h) = Head h then set_cnext (Head h) (Elm e) m
               else set_cnext (cprev m (Head h)) (Elm e) m)
      in set_cprev (Head h) (Elm e) m)"

definition CIRCLEQ_REMOVE :: "u32 \<Rightarrow> u32 \<Rightarrow> circle \<Rightarrow> circle" where
  "CIRCLEQ_REMOVE h e m =
     (let m = (if cnext m (Elm e) = Head h then set_cprev (Head h) (cprev m (Elm e)) m
               else set_cprev (cnext m (Elm e)) (cprev m (Elm e)) m)
      in if cprev m (Elm e) = Head h then set_cnext (Head h) (cnext m (Elm e)) m
         else set_cnext (cprev m (Elm e)) (cnext m (Elm e)) m)"

text \<open>The elements a traversal along one kind of links visits until it is back at the head.\<close>

partial_function (option) around :: "u32 \<Rightarrow> (link \<Rightarrow> link) \<Rightarrow> link \<Rightarrow> link list option" where
  "around h to v = (if v = Head h then Some [] else Option.bind (around h to (to v)) (\<lambda>es. Some (v # es)))"

definition CIRCLEQ_FOREACH :: "u32 \<Rightarrow> circle \<Rightarrow> link list option" where
  "CIRCLEQ_FOREACH h m = around h (cnext m) (cnext m (Head h))"

definition CIRCLEQ_FOREACH_REVERSE :: "u32 \<Rightarrow> circle \<Rightarrow> link list option" where
  "CIRCLEQ_FOREACH_REVERSE h m = around h (cprev m) (cprev m (Head h))"

definition CIRCLEQ_EMPTY :: "u32 \<Rightarrow> circle \<Rightarrow> bool" where "CIRCLEQ_EMPTY h m \<longleftrightarrow> cnext m (Head h) = Head h"
definition CIRCLEQ_FIRST :: "u32 \<Rightarrow> circle \<Rightarrow> link" where "CIRCLEQ_FIRST h m = cnext m (Head h)"
definition CIRCLEQ_LAST :: "u32 \<Rightarrow> circle \<Rightarrow> link" where "CIRCLEQ_LAST h m = cprev m (Head h)"
definition CIRCLEQ_NEXT :: "u32 \<Rightarrow> circle \<Rightarrow> link" where "CIRCLEQ_NEXT e m = cnext m (Elm e)"
definition CIRCLEQ_PREV :: "u32 \<Rightarrow> circle \<Rightarrow> link" where "CIRCLEQ_PREV e m = cprev m (Elm e)"

definition CIRCLEQ_LOOP_NEXT :: "u32 \<Rightarrow> u32 \<Rightarrow> circle \<Rightarrow> link" where
  "CIRCLEQ_LOOP_NEXT h e m = (if cnext m (Elm e) = Head h then cnext m (Head h) else cnext m (Elm e))"

definition CIRCLEQ_LOOP_PREV :: "u32 \<Rightarrow> u32 \<Rightarrow> circle \<Rightarrow> link" where
  "CIRCLEQ_LOOP_PREV h e m = (if cprev m (Elm e) = Head h then cprev m (Head h) else cprev m (Elm e))"

section \<open>Representation of the null-terminated containers\<close>

text \<open>
  \<open>chained d m p xs\<close>: from the first pointer of \<open>p\<close> on, the elements are \<open>xs\<close>, and with \<open>d\<close> each of them
  names the object that points to it; \<open>last_link\<close> is the object at the end of such a stretch.
\<close>

primrec chained :: "bool \<Rightarrow> links \<Rightarrow> link \<Rightarrow> u32 list \<Rightarrow> bool" where
  "chained d m p [] \<longleftrightarrow> True"
| "chained d m p (x # xs) \<longleftrightarrow> nxt_of m p = x \<and> x \<noteq> 0 \<and> (d \<longrightarrow> prv_of m (Elm x) = p) \<and> chained d m (Elm x) xs"

primrec last_link :: "link \<Rightarrow> u32 list \<Rightarrow> link" where
  "last_link p [] = p"
| "last_link p (x # xs) = last_link (Elm x) xs"

text \<open>A container without and with a pointer to its last link; \<open>d\<close> for the doubly-linked ones.\<close>

definition list_repr :: "bool \<Rightarrow> u32 \<Rightarrow> links \<Rightarrow> u32 list \<Rightarrow> bool" where
  "list_repr d h m xs \<longleftrightarrow> chained d m (Head h) xs \<and> nxt_of m (last_link (Head h) xs) = 0 \<and> distinct xs"

definition tailq_repr :: "bool \<Rightarrow> u32 \<Rightarrow> links \<Rightarrow> u32 list \<Rightarrow> bool" where
  "tailq_repr d h m xs \<longleftrightarrow> list_repr d h m xs \<and> prv_of m (Head h) = last_link (Head h) xs"

lemma links_simps [simp]:
  "nxt_of (set_nxt a v m) b = (if b = a then v else nxt_of m b)" "prv_of (set_nxt a v m) = prv_of m"
  "prv_of (set_prv a w m) b = (if b = a then w else prv_of m b)" "nxt_of (set_prv a w m) = nxt_of m"
  by (simp_all add: set_nxt_def set_prv_def)

lemma chained_append: "chained d m p (xs @ ys) \<longleftrightarrow> chained d m p xs \<and> chained d m (last_link p xs) ys"
  by (induction xs arbitrary: p) auto

lemma last_link_append [simp]: "last_link p (xs @ ys) = last_link (last_link p xs) ys"
  by (induction xs arbitrary: p) auto

lemma last_link_cases: "last_link p xs = p \<and> xs = [] \<or> (\<exists>x\<in>set xs. last_link p xs = Elm x)"
proof (induction xs arbitrary: p)
  case (Cons x xs)
  then show ?case using Cons.IH [of "Elm x"] by auto
qed simp

lemma last_link_Elm [simp]: "x \<notin> set xs \<Longrightarrow> p \<noteq> Elm x \<Longrightarrow> last_link p xs \<noteq> Elm x"
  "x \<notin> set xs \<Longrightarrow> p \<noteq> Elm x \<Longrightarrow> Elm x \<noteq> last_link p xs"
  using last_link_cases [of p xs] by auto

lemma last_link_Head [simp]: "last_link (Elm y) xs \<noteq> Head h" "Head h \<noteq> last_link (Elm y) xs"
  using last_link_cases [of "Elm y" xs] by auto

lemma Elm_image [simp]: "Elm x \<in> Elm ` A \<longleftrightarrow> x \<in> A" "Head h \<notin> Elm ` A"
  by auto

lemma last_link_out [simp]: "p \<notin> Elm ` A \<Longrightarrow> set xs \<inter> A = {} \<Longrightarrow> last_link p xs \<notin> Elm ` A"
  using last_link_cases [of p xs] by auto

lemma last_links_neq [simp]:
  assumes "b \<notin> set xs" and "set xs \<inter> set ys = {}"
  shows "last_link (Elm b) ys \<noteq> last_link (Head h) xs"
  using last_link_cases [of "Elm b" ys] last_link_cases [of "Head h" xs] assms by auto

lemma chained_set_nxt [simp]:
  "a \<noteq> p \<Longrightarrow> a \<notin> Elm ` set xs \<Longrightarrow> chained d (set_nxt a v m) p xs = chained d m p xs"
  by (induction xs arbitrary: p) auto

lemma chained_set_prv [simp]: "a \<notin> Elm ` set xs \<Longrightarrow> chained d (set_prv a w m) p xs = chained d m p xs"
  by (induction xs arbitrary: p) auto

lemma chained_set_last [simp]:
  "p \<notin> Elm ` set xs \<Longrightarrow> distinct xs \<Longrightarrow> chained d (set_nxt (last_link p xs) v m) p xs = chained d m p xs"
proof (induction xs arbitrary: p)
  case (Cons x xs)
  then show ?case using Cons.IH [of "Elm x"] last_link_cases [of "Elm x" xs] by auto
qed simp

lemma chained_nil: "chained d m p xs \<Longrightarrow> nxt_of m (last_link p xs) = 0 \<Longrightarrow> nxt_of m p = 0 \<longleftrightarrow> xs = []"
  by (cases xs) auto

lemma elements_chained: "chained d m p xs \<Longrightarrow> nxt_of m (last_link p xs) = 0 \<Longrightarrow> elements m (nxt_of m p) = Some xs"
proof (induction xs arbitrary: p)
  case (Cons x xs)
  then show ?case using Cons.IH [of "Elm x"] by (simp add: elements.simps [of m x])
qed (simp add: elements.simps)

section \<open>Refinement\<close>

lemmas repr_facts = list_repr_def tailq_repr_def chained_append sq_fits_def Let_def

lemma list_insert_head:
  assumes "list_repr True h m xs" and "sq_fits xs e"
  shows "list_repr True h (LIST_INSERT_HEAD h e m) (e # xs)"
  using assms by (cases xs; auto simp: LIST_INSERT_HEAD_def repr_facts)

lemma list_insert_after:
  assumes "list_repr True h m (as @ l # bs)" and "sq_fits (as @ l # bs) e"
  shows "list_repr True h (LIST_INSERT_AFTER l e m) (as @ l # e # bs)"
  using assms by (cases bs; auto simp: LIST_INSERT_AFTER_def repr_facts)

lemma list_insert_before:
  assumes "list_repr True h m (as @ l # bs)" and "sq_fits (as @ l # bs) e"
  shows "list_repr True h (LIST_INSERT_BEFORE l e m) (as @ e # l # bs)"
  using assms by (auto simp: LIST_INSERT_BEFORE_def repr_facts)

lemma list_remove:
  assumes "list_repr True h m (as @ l # bs)"
  shows "list_repr True h (LIST_REMOVE l m) (as @ bs)"
  using assms by (cases bs; auto simp: LIST_REMOVE_def repr_facts)

lemma tailq_insert_head:
  assumes "tailq_repr True h m xs" and "sq_fits xs e"
  shows "tailq_repr True h (TAILQ_INSERT_HEAD h e m) (e # xs)"
  using assms by (cases xs; auto simp: TAILQ_INSERT_HEAD_def repr_facts)

lemma tailq_insert_tail:
  assumes "tailq_repr True h m xs" and "sq_fits xs e"
  shows "tailq_repr True h (TAILQ_INSERT_TAIL h e m) (xs @ [e])"
  using assms by (auto simp: TAILQ_INSERT_TAIL_def repr_facts)

lemma tailq_insert_after:
  assumes "tailq_repr True h m (as @ l # bs)" and "sq_fits (as @ l # bs) e"
  shows "tailq_repr True h (TAILQ_INSERT_AFTER h l e m) (as @ l # e # bs)"
  using assms by (cases bs; auto simp: TAILQ_INSERT_AFTER_def repr_facts)

lemma tailq_insert_before:
  assumes "tailq_repr True h m (as @ l # bs)" and "sq_fits (as @ l # bs) e"
  shows "tailq_repr True h (TAILQ_INSERT_BEFORE l e m) (as @ e # l # bs)"
  using assms by (auto simp: TAILQ_INSERT_BEFORE_def repr_facts)

lemma tailq_remove:
  assumes "tailq_repr True h m (as @ l # bs)"
  shows "tailq_repr True h (TAILQ_REMOVE h l m) (as @ bs)"
  using assms by (cases bs; auto simp: TAILQ_REMOVE_def repr_facts)

lemma tailq_concat:
  assumes "tailq_repr True h1 m xs" and "tailq_repr True h2 m ys" and "h1 \<noteq> h2" and "set xs \<inter> set ys = {}"
  shows "tailq_repr True h1 (TAILQ_CONCAT h1 h2 m) (xs @ ys)" and "tailq_repr True h2 (TAILQ_CONCAT h1 h2 m) []"
  using assms by (cases ys; auto simp: TAILQ_CONCAT_def TAILQ_EMPTY_def TAILQ_INIT_def repr_facts)+

text \<open>The backward traversal visits the elements from the last to the first.\<close>

lemma tailq_back_links:
  assumes "tailq_repr True h m (as @ l # bs)"
  shows "TAILQ_PREV l m = (if as = [] then 0 else last as)"
  using assms by (cases as rule: rev_cases) (auto simp: TAILQ_PREV_def repr_facts)

lemma tailq_last:
  assumes "tailq_repr True h m xs"
  shows "TAILQ_LAST h m = (if xs = [] then 0 else last xs)"
  using assms by (cases xs rule: rev_cases) (auto simp: TAILQ_LAST_def repr_facts)

lemma elements_back_prefix:
  "tailq_repr True h m (as @ bs) \<Longrightarrow> elements_back m (if as = [] then 0 else last as) = Some (rev as)"
proof (induction as arbitrary: bs rule: rev_induct)
  case (snoc l as)
  then have r: "tailq_repr True h m (as @ l # bs)" by simp
  then have "l \<noteq> 0" by (simp add: repr_facts)
  with snoc.IH [OF r] show ?case by (simp add: elements_back.simps [of m l] tailq_back_links [OF r])
qed (simp add: elements_back.simps)

lemma tailq_foreach_reverse:
  assumes "tailq_repr True h m xs"
  shows "TAILQ_FOREACH_REVERSE h m = Some (rev xs)"
  using elements_back_prefix [of h m xs "[]"] assms by (simp add: TAILQ_FOREACH_REVERSE_def tailq_last)

lemma container_elements:
  assumes "list_repr d h m xs"
  shows "elements m (nxt_of m (Head h)) = Some xs" and "nxt_of m (Head h) = 0 \<longleftrightarrow> xs = []"
    and "xs \<noteq> [] \<Longrightarrow> nxt_of m (Head h) = hd xs"
  using assms elements_chained [of d m "Head h" xs] chained_nil [of d m "Head h" xs]
  by (cases xs; simp add: list_repr_def)+

lemma container_next:
  assumes "list_repr d h m (as @ l # bs)"
  shows "nxt_of m (Elm l) = (if bs = [] then 0 else hd bs)"
  using assms by (cases bs) (auto simp: repr_facts)

text \<open>The singly-linked containers; the loop of the removal finds the predecessor.\<close>

lemma slist_insert_head:
  assumes "list_repr False h m xs" and "sq_fits xs e"
  shows "list_repr False h (SLIST_INSERT_HEAD h e m) (e # xs)"
  using assms by (cases xs; auto simp: SLIST_INSERT_HEAD_def repr_facts)

lemma slist_insert_after:
  assumes "list_repr False h m (as @ l # bs)" and "sq_fits (as @ l # bs) e"
  shows "list_repr False h (SLIST_INSERT_AFTER l e m) (as @ l # e # bs)"
  using assms by (cases bs; auto simp: SLIST_INSERT_AFTER_def repr_facts)

lemma slist_remove_head:
  assumes "list_repr False h m (x # xs)"
  shows "\<exists>m'. SLIST_REMOVE_HEAD h m = Some m' \<and> list_repr False h m' xs"
  using assms by (cases xs; auto simp: SLIST_REMOVE_HEAD_def repr_facts)

lemma pred_elm_chained:
  "chained d m p (as @ c # e # bs) \<Longrightarrow> distinct (as @ c # e # bs) \<Longrightarrow> pred_elm m e (nxt_of m p) = Some c"
proof (induction as arbitrary: p)
  case Nil
  then show ?case by (simp add: pred_elm.simps [of m e c])
next
  case (Cons a as)
  then have "nxt_of m (Elm a) \<noteq> e" by (cases as) auto
  with Cons show ?case by (simp add: pred_elm.simps [of m e a])
qed

text \<open>Either the element to remove is the first one, or it has a predecessor, which the loop finds.\<close>

lemma removal_cases [consumes 1]:
  assumes "list_repr d h m (as @ l # bs)"
  obtains "as = []" "nxt_of m (Head h) = l"
  | cs c where "as = cs @ [c]" "nxt_of m (Head h) \<noteq> l" "pred_elm m l (nxt_of m (Head h)) = Some c"
      "nxt_of m (Elm c) = l" "l \<noteq> 0"
proof (cases as rule: rev_cases)
  case Nil
  with assms that(1) show thesis by (simp add: list_repr_def)
next
  case (snoc cs c)
  then have "nxt_of m (Head h) \<noteq> l" using assms by (cases cs) (auto simp: list_repr_def)
  moreover have "pred_elm m l (nxt_of m (Head h)) = Some c"
    using assms snoc pred_elm_chained [of d m "Head h" cs c l bs] by (simp add: list_repr_def)
  ultimately show thesis using that(2) snoc assms by (simp add: repr_facts)
qed

lemma slist_remove:
  assumes "list_repr False h m (as @ l # bs)"
  shows "\<exists>m'. SLIST_REMOVE h l m = Some m' \<and> list_repr False h m' (as @ bs)"
  using assms
proof (cases rule: removal_cases)
  case 1
  with assms slist_remove_head [of h m l bs] show ?thesis by (simp add: SLIST_REMOVE_def)
next
  case (2 cs c)
  with assms show ?thesis by (cases bs; auto simp: SLIST_REMOVE_def repr_facts)
qed

lemma stailq_insert_head:
  assumes "tailq_repr False h m xs" and "sq_fits xs e"
  shows "tailq_repr False h (STAILQ_INSERT_HEAD h e m) (e # xs)"
  using assms by (cases xs; auto simp: STAILQ_INSERT_HEAD_def repr_facts)

lemma stailq_insert_tail:
  assumes "tailq_repr False h m xs" and "sq_fits xs e"
  shows "tailq_repr False h (STAILQ_INSERT_TAIL h e m) (xs @ [e])"
  using assms by (auto simp: STAILQ_INSERT_TAIL_def repr_facts)

lemma stailq_insert_after:
  assumes "tailq_repr False h m (as @ l # bs)" and "sq_fits (as @ l # bs) e"
  shows "tailq_repr False h (STAILQ_INSERT_AFTER h l e m) (as @ l # e # bs)"
  using assms by (cases bs; auto simp: STAILQ_INSERT_AFTER_def repr_facts)

lemma stailq_remove_head:
  assumes "tailq_repr False h m (x # xs)"
  shows "\<exists>m'. STAILQ_REMOVE_HEAD h m = Some m' \<and> tailq_repr False h m' xs"
  using assms by (cases xs; auto simp: STAILQ_REMOVE_HEAD_def repr_facts)

lemma stailq_remove:
  assumes "tailq_repr False h m (as @ l # bs)"
  shows "\<exists>m'. STAILQ_REMOVE h l m = Some m' \<and> tailq_repr False h m' (as @ bs)"
proof -
  have "list_repr False h m (as @ l # bs)" using assms by (simp add: tailq_repr_def)
  then show ?thesis
  proof (cases rule: removal_cases)
    case 1
    with assms stailq_remove_head [of h m l bs] show ?thesis by (simp add: STAILQ_REMOVE_def)
  next
    case (2 cs c)
    with assms show ?thesis by (cases bs; auto simp: STAILQ_REMOVE_def repr_facts)
  qed
qed

lemma stailq_concat:
  assumes "tailq_repr False h1 m xs" and "tailq_repr False h2 m ys" and "h1 \<noteq> h2" and "set xs \<inter> set ys = {}"
  shows "tailq_repr False h1 (STAILQ_CONCAT h1 h2 m) (xs @ ys)" and "tailq_repr False h2 (STAILQ_CONCAT h1 h2 m) []"
  using assms by (cases ys; auto simp: STAILQ_CONCAT_def STAILQ_EMPTY_def STAILQ_INIT_def repr_facts)+

section \<open>Representation of the circular queue\<close>

text \<open>From \<open>p\<close> to \<open>q\<close> the elements are \<open>xs\<close>, linked in both directions.\<close>

primrec circled :: "circle \<Rightarrow> link \<Rightarrow> u32 list \<Rightarrow> link \<Rightarrow> bool" where
  "circled m p [] q \<longleftrightarrow> cnext m p = q \<and> cprev m q = p"
| "circled m p (x # xs) q \<longleftrightarrow> cnext m p = Elm x \<and> cprev m (Elm x) = p \<and> circled m (Elm x) xs q"

definition circle_repr :: "u32 \<Rightarrow> circle \<Rightarrow> u32 list \<Rightarrow> bool" where
  "circle_repr h m xs \<longleftrightarrow> circled m (Head h) xs (Head h) \<and> distinct xs"

lemma circle_simps [simp]:
  "cnext (set_cnext a v m) b = (if b = a then v else cnext m b)" "cprev (set_cnext a v m) = cprev m"
  "cprev (set_cprev a v m) b = (if b = a then v else cprev m b)" "cnext (set_cprev a v m) = cnext m"
  by (simp_all add: set_cnext_def set_cprev_def)

lemma circled_append: "circled m p (xs @ y # ys) q \<longleftrightarrow> circled m p xs (Elm y) \<and> circled m (Elm y) ys q"
  by (induction xs arbitrary: p) auto

lemma circled_set_cnext [simp]:
  "a \<noteq> p \<Longrightarrow> a \<notin> Elm ` set xs \<Longrightarrow> circled (set_cnext a v m) p xs q = circled m p xs q"
  by (induction xs arbitrary: p) auto

lemma circled_set_cprev [simp]:
  "a \<noteq> q \<Longrightarrow> a \<notin> Elm ` set xs \<Longrightarrow> circled (set_cprev a v m) p xs q = circled m p xs q"
  by (induction xs arbitrary: p) auto

lemmas circle_facts = circle_repr_def circled_append sq_fits_def Let_def

lemma circle_ends:
  assumes "circle_repr h m xs"
  shows "cnext m (Head h) = (if xs = [] then Head h else Elm (hd xs))"
    and "cprev m (Head h) = (if xs = [] then Head h else Elm (last xs))"
proof -
  show "cnext m (Head h) = (if xs = [] then Head h else Elm (hd xs))"
    using assms by (cases xs) (auto simp: circle_repr_def)
  show "cprev m (Head h) = (if xs = [] then Head h else Elm (last xs))"
    using assms by (cases xs rule: rev_cases) (auto simp: circle_repr_def circled_append)
qed

lemma circleq_insert_head:
  assumes "circle_repr h m xs" and "sq_fits xs e"
  shows "circle_repr h (CIRCLEQ_INSERT_HEAD h e m) (e # xs)"
  using assms circle_ends(2) [OF assms(1)] by (cases xs; auto simp: CIRCLEQ_INSERT_HEAD_def circle_facts)

lemma circleq_insert_after:
  assumes "circle_repr h m (as @ l # bs)" and "sq_fits (as @ l # bs) e"
  shows "circle_repr h (CIRCLEQ_INSERT_AFTER h l e m) (as @ l # e # bs)"
  using assms by (cases bs; auto simp: CIRCLEQ_INSERT_AFTER_def circle_facts)

lemma circleq_insert_before:
  assumes "circle_repr h m (as @ l # bs)" and "sq_fits (as @ l # bs) e"
  shows "circle_repr h (CIRCLEQ_INSERT_BEFORE h l e m) (as @ e # l # bs)"
  using assms by (cases as rule: rev_cases; auto simp: CIRCLEQ_INSERT_BEFORE_def circle_facts)

lemma circleq_insert_tail:
  assumes "circle_repr h m xs" and "sq_fits xs e"
  shows "circle_repr h (CIRCLEQ_INSERT_TAIL h e m) (xs @ [e])"
  using assms circle_ends(1) [OF assms(1)]
  by (cases xs rule: rev_cases; auto simp: CIRCLEQ_INSERT_TAIL_def circle_facts)

lemma circleq_remove:
  assumes "circle_repr h m (as @ l # bs)"
  shows "circle_repr h (CIRCLEQ_REMOVE h l m) (as @ bs)"
  using assms by (cases as rule: rev_cases; cases bs; auto simp: CIRCLEQ_REMOVE_def circle_facts)

text \<open>The traversals in both directions, and the step from an element to the next one around the ring.\<close>

lemma around_forward: "circled m p xs (Head h) \<Longrightarrow> around h (cnext m) (cnext m p) = Some (map Elm xs)"
  by (induction xs arbitrary: p) (auto simp: around.simps)

lemma around_backward:
  "circled m (Head h) xs q \<Longrightarrow> around h (cprev m) (cprev m q) = Some (rev (map Elm xs))"
  by (induction xs arbitrary: q rule: rev_induct) (auto simp: around.simps circled_append)

lemma circleq_foreach:
  assumes "circle_repr h m xs"
  shows "CIRCLEQ_FOREACH h m = Some (map Elm xs)" and "CIRCLEQ_FOREACH_REVERSE h m = Some (rev (map Elm xs))"
  using assms around_forward [of m "Head h" xs h] around_backward [of m h xs "Head h"]
  by (simp_all add: CIRCLEQ_FOREACH_def CIRCLEQ_FOREACH_REVERSE_def circle_repr_def)

lemma circled_next: "circled m p (as @ l # bs) (Head h) \<Longrightarrow> cnext m (Elm l) = hd (map Elm bs @ [Head h])"
  by (induction as arbitrary: p; cases bs; auto)

lemma circled_prev: "circled m (Head h) (as @ l # bs) q \<Longrightarrow> cprev m (Elm l) = last (Head h # map Elm as)"
  by (cases as rule: rev_cases) (auto simp: circled_append)

lemma circleq_loop:
  assumes "circle_repr h m (as @ l # bs)"
  shows "CIRCLEQ_LOOP_NEXT h l m = Elm (hd (bs @ as @ [l]))"
    and "CIRCLEQ_LOOP_PREV h l m = Elm (last (l # bs @ as))"
proof -
  have n: "cnext m (Elm l) = hd (map Elm bs @ [Head h])" and p: "cprev m (Elm l) = last (Head h # map Elm as)"
    using assms circled_next circled_prev by (auto simp: circle_repr_def)
  show "CIRCLEQ_LOOP_NEXT h l m = Elm (hd (bs @ as @ [l]))"
    using n circle_ends(1) [OF assms] by (cases bs; cases as; simp add: CIRCLEQ_LOOP_NEXT_def)
  show "CIRCLEQ_LOOP_PREV h l m = Elm (last (l # bs @ as))"
    using p circle_ends(2) [OF assms] by (cases as rule: rev_cases) (auto simp: CIRCLEQ_LOOP_PREV_def)
qed

section \<open>The queues provide the interface\<close>

definition tailq_get :: "u32 \<Rightarrow> links \<Rightarrow> (u32 \<times> links) option" where
  "tailq_get h m = (if TAILQ_EMPTY h m then None else Some (TAILQ_FIRST h m, TAILQ_REMOVE h (TAILQ_FIRST h m) m))"

definition stailq_get :: "u32 \<Rightarrow> links \<Rightarrow> (u32 \<times> links) option" where
  "stailq_get h m = map_option (Pair (STAILQ_FIRST h m)) (STAILQ_REMOVE_HEAD h m)"

interpretation tailq: fifo_queue "tailq_repr True h" "\<lambda>_. sq_fits" "TAILQ_INSERT_TAIL h" "tailq_get h" for h
proof unfold_locales
  show "\<exists>m'. tailq_get h m = Some (x, m') \<and> tailq_repr True h m' xs" if "tailq_repr True h m (x # xs)" for m x xs
    using tailq_remove [of h m "[]" x xs] that
    by (simp add: tailq_get_def TAILQ_EMPTY_def TAILQ_FIRST_def repr_facts)
  show "tailq_get h m = None" if "tailq_repr True h m []" for m
    using that by (simp add: tailq_get_def TAILQ_EMPTY_def repr_facts)
qed (rule tailq_insert_tail)

interpretation stailq: fifo_queue "tailq_repr False h" "\<lambda>_. sq_fits" "STAILQ_INSERT_TAIL h" "stailq_get h" for h
proof unfold_locales
  show "\<exists>m'. stailq_get h m = Some (x, m') \<and> tailq_repr False h m' xs" if "tailq_repr False h m (x # xs)" for m x xs
    using stailq_remove_head [OF that] that by (auto simp: stailq_get_def STAILQ_FIRST_def repr_facts)
  show "stailq_get h m = None" if "tailq_repr False h m []" for m
    using that by (simp add: stailq_get_def STAILQ_REMOVE_HEAD_def repr_facts)
qed (rule stailq_insert_tail)

text \<open>The first element of a circular queue is an element unless the queue is empty.\<close>

definition circleq_get :: "u32 \<Rightarrow> circle \<Rightarrow> (u32 \<times> circle) option" where
  "circleq_get h m = (case CIRCLEQ_FIRST h m of Elm x \<Rightarrow> Some (x, CIRCLEQ_REMOVE h x m) | Head _ \<Rightarrow> None)"

interpretation circleq: fifo_queue "circle_repr h" "\<lambda>_. sq_fits" "CIRCLEQ_INSERT_TAIL h" "circleq_get h" for h
proof unfold_locales
  show "\<exists>m'. circleq_get h m = Some (x, m') \<and> circle_repr h m' xs" if "circle_repr h m (x # xs)" for m x xs
    using circleq_remove [of h m "[]" x xs] circle_ends(1) [OF that] that
    by (simp add: circleq_get_def CIRCLEQ_FIRST_def)
  show "circleq_get h m = None" if "circle_repr h m []" for m
    using circle_ends(1) [OF that] by (simp add: circleq_get_def CIRCLEQ_FIRST_def)
qed (rule circleq_insert_tail)

section \<open>Properties\<close>

text \<open>
  Property C35. The tail-queue macros implement lists that are walked in both directions: on a queue that
  represents \<open>as @ l # bs\<close> every insertion and the removal yield the queue of the corresponding list, the
  traversals visit its elements in order and in reverse order, the access macros give its ends and the neighbours
  of an element, and concatenation moves the elements of a disjoint queue to the end and empties that queue.
\<close>

theorem tailq_refines_list:
  assumes "tailq_repr True h m (as @ l # bs)" and "e \<noteq> 0" and "e \<notin> set (as @ l # bs)"
    and "tailq_repr True h2 m ys" and "h \<noteq> h2" and "set (as @ l # bs) \<inter> set ys = {}"
  shows "tailq_repr True h (TAILQ_INIT h m) [] \<and>
    tailq_repr True h (TAILQ_INSERT_HEAD h e m) (e # as @ l # bs) \<and>
    tailq_repr True h (TAILQ_INSERT_TAIL h e m) (as @ l # bs @ [e]) \<and>
    tailq_repr True h (TAILQ_INSERT_AFTER h l e m) (as @ l # e # bs) \<and>
    tailq_repr True h (TAILQ_INSERT_BEFORE l e m) (as @ e # l # bs) \<and>
    tailq_repr True h (TAILQ_REMOVE h l m) (as @ bs) \<and>
    TAILQ_FOREACH h m = Some (as @ l # bs) \<and>
    TAILQ_FOREACH_REVERSE h m = Some (rev bs @ l # rev as) \<and>
    TAILQ_FIRST h m = hd (as @ [l]) \<and> TAILQ_LAST h m = last (l # bs) \<and>
    TAILQ_NEXT l m = (if bs = [] then 0 else hd bs) \<and> TAILQ_PREV l m = (if as = [] then 0 else last as) \<and>
    tailq_repr True h (TAILQ_CONCAT h h2 m) (as @ l # bs @ ys) \<and>
    tailq_repr True h2 (TAILQ_CONCAT h h2 m) []"
proof -
  have f: "sq_fits (as @ l # bs) e" using assms(2,3) by (simp add: sq_fits_def)
  have r: "list_repr True h m (as @ l # bs)" using assms(1) by (simp add: tailq_repr_def)
  have i: "tailq_repr True h (TAILQ_INIT h m) []" by (simp add: TAILQ_INIT_def repr_facts)
  have t: "tailq_repr True h (TAILQ_INSERT_TAIL h e m) (as @ l # bs @ [e])"
    using tailq_insert_tail [OF assms(1) f] by simp
  have c: "tailq_repr True h (TAILQ_CONCAT h h2 m) (as @ l # bs @ ys)"
    "tailq_repr True h2 (TAILQ_CONCAT h h2 m) []"
    using tailq_concat [OF assms(1,4-6)] by simp_all
  have "TAILQ_FIRST h m = hd (as @ [l])"
    using container_elements(3) [OF r] by (cases as; simp add: TAILQ_FIRST_def)
  then show ?thesis
    using i t c tailq_insert_head [OF assms(1) f] tailq_insert_after [OF assms(1) f]
      tailq_insert_before [OF assms(1) f] tailq_remove [OF assms(1)] container_elements(1) [OF r]
      tailq_foreach_reverse [OF assms(1)] tailq_last [OF assms(1)] container_next [OF r] tailq_back_links [OF assms(1)]
    by (simp add: TAILQ_FOREACH_def TAILQ_NEXT_def)
qed

definition demo_tailq :: links where
  "demo_tailq = TAILQ_INSERT_TAIL 2 24 (TAILQ_INSERT_TAIL 1 16 (TAILQ_INSERT_TAIL 1 8
     (TAILQ_INIT 2 (TAILQ_INIT 1 \<lparr>nxt_of = \<lambda>_. 7, prv_of = \<lambda>_. Elm 7\<rparr>))))"

lemma demo_tailq_repr: "tailq_repr True 1 demo_tailq [8, 16]" "tailq_repr True 2 demo_tailq [24]"
  by (simp_all add: demo_tailq_def TAILQ_INIT_def TAILQ_INSERT_TAIL_def repr_facts)

theorem tailq_refines_list_witness:
  "TAILQ_FOREACH_REVERSE 1 demo_tailq = Some [16, 8] \<and> TAILQ_PREV 16 demo_tailq = 8 \<and>
   tailq_repr True 1 (TAILQ_REMOVE 1 16 demo_tailq) [8] \<and>
   tailq_repr True 1 (TAILQ_CONCAT 1 2 demo_tailq) [8, 16, 24]"
  using tailq_refines_list [of 1 demo_tailq "[8]" 16 "[]" 32 2 "[24]"] demo_tailq_repr by simp

text \<open>
  The circular queue implements a ring: insertions at both ends and around an element, removal, traversal in
  both directions, and the step from an element to its neighbours around the ring.
\<close>

theorem circleq_refines_ring:
  assumes "circle_repr h m (as @ l # bs)" and "e \<noteq> 0" and "e \<notin> set (as @ l # bs)"
  shows "circle_repr h (CIRCLEQ_INIT h m) [] \<and>
    circle_repr h (CIRCLEQ_INSERT_HEAD h e m) (e # as @ l # bs) \<and>
    circle_repr h (CIRCLEQ_INSERT_TAIL h e m) (as @ l # bs @ [e]) \<and>
    circle_repr h (CIRCLEQ_INSERT_AFTER h l e m) (as @ l # e # bs) \<and>
    circle_repr h (CIRCLEQ_INSERT_BEFORE h l e m) (as @ e # l # bs) \<and>
    circle_repr h (CIRCLEQ_REMOVE h l m) (as @ bs) \<and>
    CIRCLEQ_FOREACH h m = Some (map Elm (as @ l # bs)) \<and>
    CIRCLEQ_FOREACH_REVERSE h m = Some (map Elm (rev bs @ l # rev as)) \<and>
    CIRCLEQ_FIRST h m = Elm (hd (as @ [l])) \<and> CIRCLEQ_LAST h m = Elm (last (l # bs)) \<and>
    CIRCLEQ_LOOP_NEXT h l m = Elm (hd (bs @ as @ [l])) \<and> CIRCLEQ_LOOP_PREV h l m = Elm (last (l # bs @ as))"
proof -
  have f: "sq_fits (as @ l # bs) e" using assms(2,3) by (simp add: sq_fits_def)
  have i: "circle_repr h (CIRCLEQ_INIT h m) []" by (simp add: CIRCLEQ_INIT_def circle_facts)
  have t: "circle_repr h (CIRCLEQ_INSERT_TAIL h e m) (as @ l # bs @ [e])"
    using circleq_insert_tail [OF assms(1) f] by simp
  have "CIRCLEQ_FIRST h m = Elm (hd (as @ [l]))" "CIRCLEQ_LAST h m = Elm (last (l # bs))"
    using circle_ends [OF assms(1)] by (cases as; simp add: CIRCLEQ_FIRST_def CIRCLEQ_LAST_def)+
  then show ?thesis
    using i t circleq_insert_head [OF assms(1) f] circleq_insert_after [OF assms(1) f]
      circleq_insert_before [OF assms(1) f] circleq_remove [OF assms(1)] circleq_foreach [OF assms(1)]
      circleq_loop [OF assms(1)] by (simp add: rev_map)
qed

text \<open>The singly-linked tail queue and the lists.\<close>

theorem stailq_refines_list:
  assumes "tailq_repr False h m (as @ l # bs)" and "e \<noteq> 0" and "e \<notin> set (as @ l # bs)"
  shows "tailq_repr False h (STAILQ_INIT h m) [] \<and>
    tailq_repr False h (STAILQ_INSERT_HEAD h e m) (e # as @ l # bs) \<and>
    tailq_repr False h (STAILQ_INSERT_TAIL h e m) (as @ l # bs @ [e]) \<and>
    tailq_repr False h (STAILQ_INSERT_AFTER h l e m) (as @ l # e # bs) \<and>
    (\<exists>m'. STAILQ_REMOVE h l m = Some m' \<and> tailq_repr False h m' (as @ bs)) \<and>
    STAILQ_FOREACH h m = Some (as @ l # bs)"
proof -
  have f: "sq_fits (as @ l # bs) e" using assms(2,3) by (simp add: sq_fits_def)
  have r: "list_repr False h m (as @ l # bs)" using assms(1) by (simp add: tailq_repr_def)
  have i: "tailq_repr False h (STAILQ_INIT h m) []" by (simp add: STAILQ_INIT_def repr_facts)
  have t: "tailq_repr False h (STAILQ_INSERT_TAIL h e m) (as @ l # bs @ [e])"
    using stailq_insert_tail [OF assms(1) f] by simp
  then show ?thesis
    using i stailq_insert_head [OF assms(1) f] stailq_insert_after [OF assms(1) f] stailq_remove [OF assms(1)]
      container_elements(1) [OF r] by (simp add: STAILQ_FOREACH_def)
qed

theorem lists_refine_list:
  assumes "list_repr d h m (as @ l # bs)" and "e \<noteq> 0" and "e \<notin> set (as @ l # bs)"
  shows "(d \<longrightarrow> list_repr True h (LIST_INSERT_HEAD h e m) (e # as @ l # bs) \<and>
      list_repr True h (LIST_INSERT_AFTER l e m) (as @ l # e # bs) \<and>
      list_repr True h (LIST_INSERT_BEFORE l e m) (as @ e # l # bs) \<and>
      list_repr True h (LIST_REMOVE l m) (as @ bs)) \<and>
    (\<not> d \<longrightarrow> list_repr False h (SLIST_INSERT_HEAD h e m) (e # as @ l # bs) \<and>
      list_repr False h (SLIST_INSERT_AFTER l e m) (as @ l # e # bs) \<and>
      (\<exists>m'. SLIST_REMOVE h l m = Some m' \<and> list_repr False h m' (as @ bs))) \<and>
    LIST_FOREACH h m = Some (as @ l # bs) \<and> SLIST_FOREACH h m = Some (as @ l # bs)"
proof -
  have f: "sq_fits (as @ l # bs) e" using assms(2,3) by (simp add: sq_fits_def)
  show ?thesis
    using assms(1) list_insert_head [OF _ f] list_insert_after [OF _ f] list_insert_before [OF _ f] list_remove
      slist_insert_head [OF _ f] slist_insert_after [OF _ f] slist_remove container_elements(1) [OF assms(1)]
    by (cases d; simp add: LIST_FOREACH_def SLIST_FOREACH_def)
qed

end
