(* ===== verification/Sem.thy ===== *)
theory Sem
  imports Task Kmalloc SimpleQueue
begin

text \<open>
  Semaphores: \<^verbatim>\<open>sem.c\<close>, \<^verbatim>\<open>sem.h\<close> and the spin lock of \<^verbatim>\<open>include/mutex.h\<close>. A semaphore has
  a counter, a lock word and a simple queue of wait items; the items are allocated with
  \<open>kmalloc\<close> and the waiting tasks are put to sleep and woken through the scheduler. A call of
  \<open>sem_wait\<close> that gives up the processor stops in the middle, holding the lock: \<open>Blocked\<close> is that
  state, and \<open>sem_wait_rest\<close> is what the task does when it runs again.
\<close>

section \<open>State\<close>

record task_item =
  item_data :: u32
  item_task :: u32

record semaphore_t =
  sem_count :: u32
  sem_mutex :: u32
  sem_wq :: simpleq

text \<open>What the semaphore operations act on besides the semaphore: tasks, memory pool, items.\<close>

record sem_env =
  kern :: kstate
  mm :: mm_state
  items :: "u32 \<Rightarrow> task_item"

section \<open>The spin lock\<close>

text \<open>
  \<^verbatim>\<open>while(xchgl(1, mptr));\<close> on a lock word that no one else changes meanwhile; the result is
  the new value, and \<open>None\<close> a loop that only another task's store can end.
\<close>

definition xchgl :: "u32 \<Rightarrow> u32 \<Rightarrow> u32 \<times> u32" where
  "xchgl x m = (m, x)"

partial_function (option) mutex_lock :: "u32 \<Rightarrow> u32 option" where
  "mutex_lock m = (case xchgl 1 m of (old, m') \<Rightarrow> if old \<noteq> 0 then mutex_lock m' else Some m')"

definition mutex_unlock :: "u32 \<Rightarrow> u32" where
  "mutex_unlock m = snd (xchgl 0 m)"

definition mutex_init :: "u32 \<Rightarrow> u32" where
  "mutex_init m = 0"

section \<open>Wait queues\<close>

text \<open>\<^verbatim>\<open>kmalloc\<close> and \<^verbatim>\<open>kfree\<close> in this environment; a memory-manager error is no result.\<close>

definition env_kmalloc :: "u32 \<Rightarrow> sem_env \<Rightarrow> (u32 \<times> sem_env) option" where
  "env_kmalloc n e = (case kmalloc n (mm e) of
     Some (Inr a, s) \<Rightarrow> Some (a, e\<lparr>mm := s, items := (items e)(a := \<lparr>item_data = 0, item_task = 0\<rparr>)\<rparr>)
   | _ \<Rightarrow> None)"

definition env_kfree :: "u32 \<Rightarrow> sem_env \<Rightarrow> sem_env option" where
  "env_kfree a e = (case kfree a (mm e) of Some (Inr s) \<Rightarrow> Some (e\<lparr>mm := s\<rparr>) | _ \<Rightarrow> None)"

text \<open>
  The tail of \<^verbatim>\<open>sleep_on_queue\<close>: \<^verbatim>\<open>sleep_on(&t)\<close> and \<^verbatim>\<open>scheduler()\<close>; the flag tells whether the
  processor has left the task.
\<close>

definition give_up :: "u32 \<Rightarrow> sem_env \<Rightarrow> (bool \<times> sem_env) option" where
  "give_up t e = map_option (\<lambda>k. (cpu_tss k \<noteq> t, e\<lparr>kern := k\<rparr>)) (scheduler (snd (sleep_on (Some t) (kern e))))"

definition sleep_on_queue :: "simpleq \<Rightarrow> sem_env \<Rightarrow> (bool \<times> simpleq \<times> sem_env) option" where
  "sleep_on_queue wq e = Option.bind (env_kmalloc 12 e) (\<lambda>(item, e1).
     if item \<noteq> 0
     then let t = get_current_task (kern e1) in
          if task_state (tasks (kern e1) t) = TS_SLEEP then Some (False, wq, e1)
          else let e2 = e1\<lparr>items := (items e1)(item := \<lparr>item_data = 100, item_task = t\<rparr>)\<rparr>;
                   e3 = e2\<lparr>kern := upd_task t (\<lambda>k. k\<lparr>task_state := TS_SLEEP\<rparr>) (kern e2)\<rparr>;
                   it = SIMPLEQ_FIRST wq
               in Option.bind
                    (if it = 0 then Some (SIMPLEQ_INSERT_TAIL item wq, e3)
                     else if item_task (items e3 it) = t then map_option (Pair wq) (env_kfree t e3)
                     else Some (SIMPLEQ_INSERT_TAIL item wq, e3))
                    (\<lambda>(wq', e4). map_option (\<lambda>(sw, e5). (sw, wq', e5)) (give_up t e4))
     else Some (False, wq, e1))"

definition wake_up_queue :: "simpleq \<Rightarrow> sem_env \<Rightarrow> (simpleq \<times> sem_env) option" where
  "wake_up_queue wq e =
     (let item = SIMPLEQ_FIRST wq in
      if item \<noteq> 0
      then let e1 = (if item_task (items e item) \<noteq> 0
                     then e\<lparr>kern := wake_up (Some (item_task (items e item))) (kern e)\<rparr> else e)
           in Option.bind (SIMPLEQ_REMOVE_HEAD wq) (\<lambda>wq'. map_option (Pair wq') (env_kfree item e1))
      else Some (wq, e))"

section \<open>Semaphore operations\<close>

definition sem_init :: "u32 \<Rightarrow> semaphore_t \<Rightarrow> semaphore_t" where
  "sem_init val s = s\<lparr>sem_count := val, sem_mutex := mutex_init (sem_mutex s),
     sem_wq := SIMPLEQ_INIT (sem_wq s)\<rparr>"

datatype wait_outcome = Returned semaphore_t sem_env | Blocked semaphore_t sem_env

definition sem_wait_rest :: "semaphore_t \<Rightarrow> semaphore_t" where
  "sem_wait_rest s = s\<lparr>sem_mutex := mutex_unlock (sem_mutex s)\<rparr>"

definition sem_wait :: "semaphore_t \<Rightarrow> sem_env \<Rightarrow> wait_outcome option" where
  "sem_wait s e = Option.bind (mutex_lock (sem_mutex s)) (\<lambda>m.
     let s1 = s\<lparr>sem_mutex := m, sem_count := sem_count s - 1\<rparr> in
     if sint (sem_count s1) < 0
     then map_option (\<lambda>(sw, wq, e1).
            let s2 = s1\<lparr>sem_wq := wq\<rparr>
            in if sw then Blocked s2 e1 else Returned (sem_wait_rest s2) e1)
          (sleep_on_queue (sem_wq s1) e)
     else Some (Returned (sem_wait_rest s1) e))"

definition sem_post :: "semaphore_t \<Rightarrow> sem_env \<Rightarrow> (semaphore_t \<times> sem_env) option" where
  "sem_post s e = Option.bind (mutex_lock (sem_mutex s)) (\<lambda>m.
     let s1 = s\<lparr>sem_mutex := m, sem_count := sem_count s + 1\<rparr> in
     map_option (\<lambda>(wq, e1). (s1\<lparr>sem_wq := wq, sem_mutex := mutex_unlock (sem_mutex s1)\<rparr>, e1))
       (if sint (sem_count s1) \<le> 0 then wake_up_queue (sem_wq s1) e else Some (sem_wq s1, e)))"

text \<open>
  The set-up of the two demonstrations: \<open>(t, f, k0, k3)\<close> are the addresses of a task structure,
  its function and its two stacks.
\<close>

definition spawn_task :: "u32 \<times> u32 \<times> u32 \<times> u32 \<Rightarrow> kstate \<Rightarrow> kstate" where
  "spawn_task = (\<lambda>(t, f, k0, k3) k. new_task t f (k0 + 1024) (k3 + 1024) k)"

definition sem_test :: "u32 \<times> u32 \<times> u32 \<times> u32 \<Rightarrow> u32 \<times> u32 \<times> u32 \<times> u32 \<Rightarrow>
    semaphore_t \<Rightarrow> kstate \<Rightarrow> semaphore_t \<times> kstate" where
  "sem_test t1 t2 s k = (sem_init 1 s, spawn_task t2 (spawn_task t1 k))"

definition sem_test1 :: "u32 \<times> u32 \<times> u32 \<times> u32 \<Rightarrow> u32 \<times> u32 \<times> u32 \<times> u32 \<Rightarrow>
    semaphore_t \<Rightarrow> semaphore_t \<Rightarrow> kstate \<Rightarrow> semaphore_t \<times> semaphore_t \<times> kstate" where
  "sem_test1 t1 t2 s1 s2 k = (sem_init 1 s1, sem_init 0 s2, spawn_task t2 (spawn_task t1 k))"

section \<open>Lock facts\<close>

lemma mutex_lock_free: "mutex_lock 0 = Some 1"
  by (simp add: mutex_lock.simps [of 0] xchgl_def)

text \<open>A held lock is never acquired: by fixpoint induction, any result would come from a free one.\<close>

lemma mutex_lock_free_only:
  assumes "mutex_lock m = Some r"
  shows "m = 0"
proof (rule mutex_lock.raw_induct [OF _ assms, of "\<lambda>m _. m = 0"])
  fix f :: "u32 \<Rightarrow> u32 option" and m r
  assume "\<And>x y. f x = Some y \<Longrightarrow> x = 0"
    and "(case xchgl 1 m of (old, m') \<Rightarrow> if old \<noteq> 0 then f m' else Some m') = Some r"
  then show "m = 0" by (fastforce simp: xchgl_def split: if_splits)
qed

lemma mutex_lock_held: "m \<noteq> 0 \<Longrightarrow> mutex_lock m = None"
  using mutex_lock_free_only by (cases "mutex_lock m") auto

lemma unlock_simps [simp]: "mutex_unlock m = 0" "sem_mutex (sem_wait_rest s) = 0"
  "sem_count (sem_wait_rest s) = sem_count s" "sem_wq (sem_wait_rest s) = sem_wq s"
  by (simp_all add: mutex_unlock_def xchgl_def sem_wait_rest_def)

lemma held_blocks: "sem_mutex s \<noteq> 0 \<Longrightarrow> sem_wait s e = None \<and> sem_post s e = None"
  by (simp add: sem_wait_def sem_post_def mutex_lock_held)

section \<open>A sleeper that lost the processor\<close>

text \<open>\<open>t\<close> sleeps, is listed, and is neither the first nor the current task.\<close>

definition parked :: "u32 \<Rightarrow> kstate \<Rightarrow> bool" where
  "parked t k \<longleftrightarrow> (\<exists>vs. kinv vs k \<and> t \<in> set vs) \<and> t \<noteq> TASK0 k \<and> t \<noteq> current k \<and>
     task_state (tasks k t) = TS_SLEEP"

lemma parked_scheduler:
  assumes "parked t k" and "scheduler k = Some k'"
  shows "parked t k'"
proof -
  obtain vs where inv: "kinv vs k" "t \<in> set vs" and t: "t \<noteq> TASK0 k" "t \<noteq> current k"
    "task_state (tasks k t) = TS_SLEEP" using assms(1) by (auto simp: parked_def)
  have inv': "kinv vs k'" using kinv_scheduler [OF inv(1)] assms(2) by simp
  have te: "t \<noteq> effective k" using t by (simp add: effective_def)
  have "linked (tasks k) (TASK0 k) vs" using inv(1) by (simp add: kinv_def)
  then have "t \<noteq> TASK0 k' \<and> t \<noteq> current k' \<and> task_state (tasks k' t) = TS_SLEEP"
  proof (cases rule: scheduler_cases)
    case (switch u)
    have "u \<noteq> t" using chosenD(2) [OF switch(4)] t by (auto simp: TS_defs)
    then show ?thesis using switch assms(2) t te by (auto simp: tasks_switch_to)
  qed (use assms(2) t te in auto)
  with inv' inv(2) show ?thesis by (auto simp: parked_def)
qed

lemma parked_do_timer: "parked t k \<Longrightarrow> do_timer k = Some k' \<Longrightarrow> parked t k'"
proof -
  assume p: "parked t k" and d: "do_timer k = Some k'"
  then obtain vs where inv: "kinv vs k" "t \<in> set vs" by (auto simp: parked_def)
  have "parked t (ticked vs k)"
    using p kinv_ticked [OF inv(1)] inv(2) by (auto simp: parked_def)
  moreover have "scheduler (ticked vs k) = Some k'"
    using d inv(1) do_timer_linked [of k vs] by (simp add: kinv_def)
  ultimately show ?thesis by (rule parked_scheduler)
qed

lemma parked_new_task:
  assumes "parked t k" and "linked (tasks k) (TASK0 k) us" and "u \<noteq> 0" and "u \<notin> set us"
  shows "parked t (new_task u f s0 s3 k)"
proof -
  obtain vs where inv: "kinv vs k" "t \<in> set vs" and t: "t \<noteq> TASK0 k" "t \<noteq> current k"
    "task_state (tasks k t) = TS_SLEEP" using assms(1) by (auto simp: parked_def)
  have u: "u \<notin> set vs" using assms(2,4) inv(1) linked_unique by (auto simp: kinv_def)
  obtain as bs where vs: "vs = as @ current k # bs" using inv(1) by (auto simp: kinv_def dest: split_list)
  have "kinv (as @ current k # u # bs) (new_task u f s0 s3 k)"
    using kinv_new_task [OF inv(1) assms(3) u vs] .
  moreover have "u \<noteq> t" "u \<noteq> current k" using u inv vs by auto
  ultimately show ?thesis
    using t inv(2) vs unfolding parked_def by (auto simp: tasks_new_task)
qed

text \<open>
  What can happen while a task sleeps inside \<open>sem_wait\<close>: the timer, the scheduler, new tasks, and
  calls on the same semaphore.
\<close>

inductive sem_step :: "semaphore_t \<times> sem_env \<Rightarrow> semaphore_t \<times> sem_env \<Rightarrow> bool" where
  tick: "do_timer (kern e) = Some k \<Longrightarrow> sem_step (s, e) (s, e\<lparr>kern := k\<rparr>)"
| yield: "scheduler (kern e) = Some k \<Longrightarrow> sem_step (s, e) (s, e\<lparr>kern := k\<rparr>)"
| spawn: "linked (tasks (kern e)) (TASK0 (kern e)) us \<Longrightarrow> u \<noteq> 0 \<Longrightarrow> u \<notin> set us \<Longrightarrow>
    sem_step (s, e) (s, e\<lparr>kern := new_task u f s0 s3 (kern e)\<rparr>)"
| wait: "sem_wait s e = Some (Returned s' e') \<Longrightarrow> sem_step (s, e) (s', e')"
| wait_blocked: "sem_wait s e = Some (Blocked s' e') \<Longrightarrow> sem_step (s, e) (s', e')"
| post: "sem_post s e = Some (s', e') \<Longrightarrow> sem_step (s, e) (s', e')"

inductive_cases sem_stepE: "sem_step (s, e) p"

lemma parked_step:
  assumes "sem_step (s, e) (s', e')" and "sem_mutex s = 1" and "parked t (kern e)"
  shows "sem_mutex s' = 1 \<and> parked t (kern e')"
  using assms(1)
  by (elim sem_stepE)
    (use assms(2,3) held_blocks [of s e] in
      \<open>auto intro: parked_do_timer parked_scheduler parked_new_task\<close>)

interpretation sleeping: kept_by_steps sem_step "\<lambda>(s, e). sem_mutex s = 1 \<and> parked t (kern e)" for t
  by unfold_locales (use parked_step in auto)

lemma parked_reachable:
  assumes "sem_step\<^sup>*\<^sup>* (s, e) (s', e')" and "sem_mutex s = 1" and "parked t (kern e)"
  shows "sem_mutex s' = 1 \<and> parked t (kern e')"
  using sleeping.reachable [OF assms(1)] assms(2,3) by auto

lemma give_up_switched:
  assumes "give_up t e = Some (True, e')" and "kinv vs (kern e)" and "current (kern e) = t"
    and "cpu_tss (kern e) = t" and "t \<noteq> TASK0 (kern e)"
  shows "parked t (kern e')"
proof -
  let ?k = "snd (sleep_on (Some t) (kern e))"
  have t: "t \<in> set vs" using assms(2,3) by (auto simp: kinv_def)
  have k: "kinv vs ?k" by (rule kinv_sleep_on [OF assms(2)])
  have st: "task_state (tasks ?k t) = TS_SLEEP" "cpu_tss ?k = t" "TASK0 ?k = TASK0 (kern e)" "current ?k = t"
    using assms(3-5) by (simp_all add: sleep_on_def upd_task_def)
  have eff: "effective ?k = TASK0 (kern e)" using st by (simp add: effective_def)
  obtain k' where k': "scheduler ?k = Some k'" "cpu_tss k' \<noteq> t" "kern e' = k'"
    using assms(1) by (auto simp: give_up_def)
  have inv': "kinv vs k'" using kinv_scheduler [OF k] k'(1) by simp
  have "linked (tasks ?k) (TASK0 ?k) vs" using k by (simp add: kinv_def)
  then have "t \<noteq> TASK0 k' \<and> t \<noteq> current k' \<and> task_state (tasks k' t) = TS_SLEEP"
  proof (cases rule: scheduler_cases)
    case (switch u)
    have "u \<noteq> t" using chosenD(2) [OF switch(4)] st(1) by (auto simp: TS_defs)
    then show ?thesis using switch k'(1) st eff assms(5) by (auto simp: tasks_switch_to)
  qed (use k' st in auto)
  with inv' t k'(3) show ?thesis by (auto simp: parked_def)
qed

section \<open>Blocking in detail\<close>

text \<open>
  A call that blocks on a healthy system: the pool has a descriptor and a page, the null page is
  not free memory, the queue holds allocated items and its first one belongs to another task.
\<close>

definition can_block :: "semaphore_t \<Rightarrow> sem_env \<Rightarrow> u32 list \<Rightarrow> blk list \<Rightarrow> bool" where
  "can_block s e xs bs \<longleftrightarrow> sem_mutex s = 0 \<and> sq_repr (sem_wq s) xs \<and>
     (\<exists>is. mm_repr (mm e) is bs) \<and> wf_blocks bs \<and> mem_nr (mm e) < NR_BLOCKS - 1 \<and>
     (\<exists>b\<in>set bs. blk_fits 4096 b) \<and> 0 \<notin> free_bytes bs \<and> unat ` set xs \<subseteq> taken_bytes bs \<and>
     task_state (tasks (kern e) (current (kern e))) \<noteq> TS_SLEEP \<and>
     (\<forall>x\<in>set xs. item_task (items e x) \<noteq> current (kern e)) \<and>
     (\<exists>vs. kinv vs (kern e))"

text \<open>The kernel state when \<open>scheduler\<close> is called.\<close>

definition asleep :: "kstate \<Rightarrow> kstate" where
  "asleep k = snd (sleep_on (Some (current k))
     (upd_task (current k) (\<lambda>t. t\<lparr>task_state := TS_SLEEP\<rparr>) k))"

lemma kinv_set_sleep: "kinv vs k \<Longrightarrow> kinv vs (upd_task t (\<lambda>t. t\<lparr>task_state := TS_SLEEP\<rparr>) k)"
  unfolding kinv_def
  by (subst linked_cong [of _ _ "tasks k"]) (auto simp: upd_task_def TS_defs)

lemma kinv_asleep: "kinv vs k \<Longrightarrow> kinv vs (asleep k)"
  unfolding asleep_def by (intro kinv_sleep_on kinv_set_sleep)

lemma upd_task_fields [simp]:
  "current (upd_task t f k) = current k" "TASK0 (upd_task t f k) = TASK0 k"
  "cpu_tss (upd_task t f k) = cpu_tss k"
  by (simp_all add: upd_task_def)

lemma env_kmalloc_item:
  assumes "can_block s e xs bs"
  shows "\<exists>a s'. env_kmalloc 12 e = Some (a, e\<lparr>mm := s', items := (items e)(a := \<lparr>item_data = 0, item_task = 0\<rparr>)\<rparr>) \<and>
     sq_fits xs a \<and> a \<noteq> 0"
proof -
  from assms obtain "is" where r: "mm_repr (mm e) is bs" and wf: "wf_blocks bs"
    and room: "mem_nr (mm e) < NR_BLOCKS - 1" and fit: "\<exists>b\<in>set bs. blk_fits 4096 b"
    and nz: "0 \<notin> free_bytes bs" and xs: "unat ` set xs \<subseteq> taken_bytes bs" by (auto simp: can_block_def)
  have sz: "kmalloc_size 12 = 4096" by (simp add: kmalloc_size_def)
  have small: "unat (12 :: u32) < 2 ^ 32 - 4096" by simp
  from r wf room small show ?thesis
  proof (cases rule: kmalloc_cases)
    case none
    with fit sz show ?thesis by auto
  next
    case (some a s' is' bs')
    have "unat a \<in> free_bytes bs"
      using alloc_spec [OF some(3) wf] unat_in_span [of 4096 a] by (auto simp: sz)
    moreover have "free_bytes bs \<inter> taken_bytes bs = {}" by (rule free_taken_disjoint [OF wf])
    ultimately have "a \<noteq> 0" "a \<notin> set xs" using nz xs by (metis unat_0, blast)
    then show ?thesis using some(2) by (auto simp: env_kmalloc_def sq_fits_def)
  qed
qed

lemma sleep_on_queue_blocks:
  assumes cb: "can_block s e xs bs"
  shows "\<exists>a k m its. scheduler (asleep (kern e)) = Some k \<and> sq_fits xs a \<and>
     item_task (its a) = current (kern e) \<and> (\<forall>x\<in>set xs. its x = items e x) \<and>
     sleep_on_queue (sem_wq s) e = Some (cpu_tss k \<noteq> current (kern e), SIMPLEQ_INSERT_TAIL a (sem_wq s),
       \<lparr>kern = k, mm = m, items = its\<rparr>)"
proof -
  obtain a m where a: "env_kmalloc 12 e = Some (a, e\<lparr>mm := m, items := (items e)(a := \<lparr>item_data = 0, item_task = 0\<rparr>)\<rparr>)"
    "sq_fits xs a" "a \<noteq> 0" using env_kmalloc_item [OF cb] by blast
  obtain vs where inv: "kinv vs (kern e)" using cb by (auto simp: can_block_def)
  obtain k where k: "scheduler (asleep (kern e)) = Some k"
    using kinv_scheduler [OF kinv_asleep [OF inv]] by blast
  let ?its = "(items e)(a := \<lparr>item_data = 100, item_task = current (kern e)\<rparr>)"
  have front: "SIMPLEQ_FIRST (sem_wq s) = 0 \<or> item_task (?its (SIMPLEQ_FIRST (sem_wq s))) \<noteq> current (kern e)"
    using cb a(2) by (cases xs) (auto simp: can_block_def SIMPLEQ_FIRST_def sq_repr_def sq_fits_def)
  have awake: "task_state (tasks (kern e) (current (kern e))) \<noteq> TS_SLEEP" using cb by (simp add: can_block_def)
  have "sleep_on_queue (sem_wq s) e = Some (cpu_tss k \<noteq> current (kern e), SIMPLEQ_INSERT_TAIL a (sem_wq s),
       \<lparr>kern = k, mm = m, items = ?its\<rparr>)"
    using a(1,3) awake front k
    by (cases e) (auto simp: sleep_on_queue_def get_current_task_def Let_def give_up_def asleep_def)
  then show ?thesis using k a(2) by (intro exI conjI) (auto simp: sq_fits_def)
qed

lemma wake_up_queue_wakes:
  assumes "sq_repr wq (x # xs)" and "item_task (items e x) = t" and "t \<noteq> 0" and "mm_repr (mm e) is bs"
  shows "\<exists>wq' e'. wake_up_queue wq e = Some (wq', e') \<and> sq_repr wq' xs \<and>
     kern e' = wake_up (Some t) (kern e) \<and> items e' = items e"
proof -
  obtain wq' where wq': "SIMPLEQ_REMOVE_HEAD wq = Some wq'" "sq_repr wq' xs" and f: "sqh_first wq = x"
    using remove_head_refines [OF assms(1)] by blast
  have x: "x \<noteq> 0" using assms(1) by (simp add: sq_repr_def)
  obtain m where m: "mem_free x (mm e) = Some (Inr m)" using mem_free_refines [OF assms(4)] by blast
  show ?thesis
    using wq' f x m assms(2,3) by (simp add: wake_up_queue_def SIMPLEQ_FIRST_def env_kfree_def kfree_def)
qed

section \<open>Properties\<close>

text \<open>
  Counting: on a free semaphore with a positive count \<open>sem_wait\<close> returns at once with
  the count one lower, and with a count from 0 up \<open>sem_post\<close> returns with the count one higher;
  the lock is free afterwards and nothing else has changed.
\<close>

theorem semaphore_counts:
  assumes "sem_mutex s = 0"
  shows "(0 < sint (sem_count s) \<longrightarrow>
      sem_wait s e = Some (Returned (s\<lparr>sem_count := sem_count s - 1\<rparr>) e) \<and>
      sint (sem_count s - 1) = sint (sem_count s) - 1) \<and>
    (0 \<le> sint (sem_count s) \<and> sint (sem_count s) < 2147483647 \<longrightarrow>
      sem_post s e = Some (s\<lparr>sem_count := sem_count s + 1\<rparr>, e) \<and>
      sint (sem_count s + 1) = sint (sem_count s) + 1)"
proof -
  have lt: "sint (sem_count s) < 2147483648" using sint_range_size [of "sem_count s"] by (simp add: word_size)
  have dec: "sint (sem_count s - 1) = sint (sem_count s) - 1" if "0 < sint (sem_count s)"
    using sint_add_small [of "sem_count s" "- 1"] that lt by simp
  have inc: "sint (sem_count s + 1) = sint (sem_count s) + 1"
    if "0 \<le> sint (sem_count s)" "sint (sem_count s) < 2147483647"
    using sint_add_small [of "sem_count s" 1] that by simp
  show ?thesis
    using assms dec inc
    by (cases s) (auto simp: sem_wait_def sem_post_def mutex_lock_free Let_def sem_wait_rest_def)
qed

definition demo_sem :: semaphore_t where
  "demo_sem = \<lparr>sem_count = 1, sem_mutex = 0, sem_wq = SIMPLEQ_INIT \<lparr>sqh_first = 0, sqh_last = First, sqe_next = \<lambda>_. 0\<rparr>\<rparr>"

theorem semaphore_counts_witness:
  "\<forall>e. sem_wait demo_sem e = Some (Returned (demo_sem\<lparr>sem_count := 0\<rparr>) e)"
  using semaphore_counts [of demo_sem] by (simp add: demo_sem_def)

text \<open>
  Property C14. Waiting: when the count is zero or negative, \<open>sem_wait\<close> appends a fresh item of the
  calling task to the wait queue, puts the task to sleep and calls the scheduler; if the processor
  then leaves the task, the call stops there \<^emph>\<open>with the lock still held\<close>. A \<open>sem_post\<close> on a free
  semaphore with waiters removes the item at the front and makes its task runnable.
\<close>

theorem semaphore_queue_is_fifo:
  assumes "can_block s e xs bs" and "sint (sem_count s - 1) < 0"
    and "sq_repr (sem_wq s') (y # ys)" and "sem_mutex s' = 0" and "sint (sem_count s' + 1) \<le> 0"
    and "item_task (items e' y) = t" and "t \<noteq> 0" and "mm_repr (mm e') is cs"
  shows "(\<exists>a s1 e1. sq_fits xs a \<and> sq_repr (sem_wq s1) (xs @ [a]) \<and>
      item_task (items e1 a) = current (kern e) \<and> (\<forall>x\<in>set xs. items e1 x = items e x) \<and>
      sem_count s1 = sem_count s - 1 \<and> sem_mutex s1 = 1 \<and> scheduler (asleep (kern e)) = Some (kern e1) \<and>
      sem_wait s e = Some (if cpu_tss (kern e1) \<noteq> current (kern e) then Blocked s1 e1
        else Returned (sem_wait_rest s1) e1)) \<and>
    (\<exists>s2 e2. sem_post s' e' = Some (s2, e2) \<and> sq_repr (sem_wq s2) ys \<and> sem_mutex s2 = 0 \<and>
      sem_count s2 = sem_count s' + 1 \<and> kern e2 = wake_up (Some t) (kern e') \<and>
      task_state (tasks (kern e2) t) = TS_RUNABLE)"
proof (rule conjI)
  obtain a k m its where b: "scheduler (asleep (kern e)) = Some k" "sq_fits xs a"
    "item_task (its a) = current (kern e)" "\<forall>x\<in>set xs. its x = items e x"
    "sleep_on_queue (sem_wq s) e = Some (cpu_tss k \<noteq> current (kern e), SIMPLEQ_INSERT_TAIL a (sem_wq s),
       \<lparr>kern = k, mm = m, items = its\<rparr>)"
    using sleep_on_queue_blocks [OF assms(1)] by blast
  have q: "sq_repr (sem_wq s) xs" and "sem_mutex s = 0" using assms(1) by (simp_all add: can_block_def)
  let ?s = "s\<lparr>sem_mutex := 1, sem_count := sem_count s - 1, sem_wq := SIMPLEQ_INSERT_TAIL a (sem_wq s)\<rparr>"
  have "sem_wait s e = Some (if cpu_tss k \<noteq> current (kern e) then Blocked ?s \<lparr>kern = k, mm = m, items = its\<rparr>
        else Returned (sem_wait_rest ?s) \<lparr>kern = k, mm = m, items = its\<rparr>)"
    using b(5) \<open>sem_mutex s = 0\<close> assms(2) by (simp add: sem_wait_def mutex_lock_free Let_def)
  moreover have "sq_repr (sem_wq ?s) (xs @ [a])" using insert_tail_refines [OF q b(2)] by simp
  ultimately show "\<exists>a s1 e1. sq_fits xs a \<and> sq_repr (sem_wq s1) (xs @ [a]) \<and>
      item_task (items e1 a) = current (kern e) \<and> (\<forall>x\<in>set xs. items e1 x = items e x) \<and>
      sem_count s1 = sem_count s - 1 \<and> sem_mutex s1 = 1 \<and> scheduler (asleep (kern e)) = Some (kern e1) \<and>
      sem_wait s e = Some (if cpu_tss (kern e1) \<noteq> current (kern e) then Blocked s1 e1
        else Returned (sem_wait_rest s1) e1)"
    using b(1-4)
    by (intro exI [of _ a] exI [of _ ?s] exI [of _ "\<lparr>kern = k, mm = m, items = its\<rparr>"]) simp
next
  obtain wq e2 where w: "wake_up_queue (sem_wq s') e' = Some (wq, e2)" "sq_repr wq ys"
    "kern e2 = wake_up (Some t) (kern e')"
    using wake_up_queue_wakes [OF assms(3,6,7,8)] by blast
  then show "\<exists>s2 e2. sem_post s' e' = Some (s2, e2) \<and> sq_repr (sem_wq s2) ys \<and> sem_mutex s2 = 0 \<and>
      sem_count s2 = sem_count s' + 1 \<and> kern e2 = wake_up (Some t) (kern e') \<and>
      task_state (tasks (kern e2) t) = TS_RUNABLE"
    using assms(4,5,7)
    by (simp add: sem_post_def mutex_lock_free Let_def wake_up_def upd_task_def)
qed

lemma env_alloc_kern:
  "env_kmalloc n e = Some (a, e') \<Longrightarrow> kern e' = kern e" "env_kfree a e = Some e' \<Longrightarrow> kern e' = kern e"
  by (auto simp: env_kmalloc_def env_kfree_def split: option.splits sum.splits)

lemma sleep_on_queue_switched:
  assumes "sleep_on_queue wq e = Some (True, wq', e')"
  shows "\<exists>e4. give_up (current (kern e)) e4 = Some (True, e') \<and>
    kern e4 = upd_task (current (kern e)) (\<lambda>k. k\<lparr>task_state := TS_SLEEP\<rparr>) (kern e)"
proof -
  let ?t = "current (kern e)"
  obtain item e1 where i: "env_kmalloc 12 e = Some (item, e1)"
    using assms by (cases "env_kmalloc 12 e") (auto simp: sleep_on_queue_def)
  have k1: "kern e1 = kern e" by (rule env_alloc_kern(1) [OF i])
  define e3 where "e3 = e1\<lparr>items := (items e1)(item := \<lparr>item_data = 100, item_task = ?t\<rparr>),
    kern := upd_task ?t (\<lambda>k. k\<lparr>task_state := TS_SLEEP\<rparr>) (kern e)\<rparr>"
  define r where "r = (if SIMPLEQ_FIRST wq = 0 then Some (SIMPLEQ_INSERT_TAIL item wq, e3)
      else if item_task (items e3 (SIMPLEQ_FIRST wq)) = ?t then map_option (Pair wq) (env_kfree ?t e3)
      else Some (SIMPLEQ_INSERT_TAIL item wq, e3))"
  have "sleep_on_queue wq e = (if item \<noteq> 0
      then if task_state (tasks (kern e) ?t) = TS_SLEEP then Some (False, wq, e1)
        else Option.bind r (\<lambda>(wq', e4). map_option (\<lambda>(sw, e5). (sw, wq', e5)) (give_up ?t e4))
      else Some (False, wq, e1))"
    by (simp add: sleep_on_queue_def i k1 get_current_task_def Let_def e3_def r_def)
  with assms obtain wq1 e4 where r4: "r = Some (wq1, e4)" and g: "give_up ?t e4 = Some (True, e')"
    by (auto simp: bind_eq_Some_conv split: if_splits)
  have "kern e4 = kern e3" using r4 env_alloc_kern(2) by (auto simp: r_def split: if_splits)
  then show ?thesis using g by (auto simp: e3_def)
qed

section \<open>A system in which a task blocks\<close>

definition demo_three :: kstate where
  "demo_three = new_task 0x3000 0x200 0x8000 0x9000 (switch_to 0x2000 demo_two)"

definition demo_env :: sem_env where
  "demo_env = \<lparr>kern = demo_three, mm = demo_pool 0, items = \<lambda>_. \<lparr>item_data = 0, item_task = 0x2000\<rparr>\<rparr>"

definition demo_zero :: semaphore_t where
  "demo_zero = demo_sem\<lparr>sem_count := 0\<rparr>"

lemma demo_three_fields:
  "TASK0 demo_three = 0x1000" "current demo_three = 0x2000" "cpu_tss demo_three = 0x2000"
  "task_state (tasks demo_three 0x1000) = TS_RUNABLE" "task_state (tasks demo_three 0x2000) = TS_RUNNING"
  "task_state (tasks demo_three 0x3000) = TS_RUNABLE" "priority (tasks demo_three 0x1000) = 200"
  "priority (tasks demo_three 0x3000) = 200"
proof -
  have ne: "0x2000 \<noteq> current demo_two" by (simp add: demo_two_fields)
  show "TASK0 demo_three = 0x1000" "current demo_three = 0x2000" "cpu_tss demo_three = 0x2000"
    "task_state (tasks demo_three 0x1000) = TS_RUNABLE" "task_state (tasks demo_three 0x2000) = TS_RUNNING"
    "task_state (tasks demo_three 0x3000) = TS_RUNABLE" "priority (tasks demo_three 0x1000) = 200"
    "priority (tasks demo_three 0x3000) = 200"
    by (simp_all add: demo_three_def tasks_new_task tasks_switch_to [OF ne] demo_two_fields INITIAL_PRIO_def)
qed

lemma kinv_demo_three: "kinv [0x1000, 0x2000, 0x3000] demo_three"
proof -
  have ne: "0x2000 \<noteq> current demo_two" by (simp add: demo_two_fields)
  have "kinv [0x1000, 0x2000] (switch_to 0x2000 demo_two)"
    using kinv_switch [OF kinv_demo_two _ ne] by simp
  then have "kinv ([0x1000] @ current (switch_to 0x2000 demo_two) # 0x3000 # []) demo_three"
    unfolding demo_three_def by (rule kinv_new_task) simp_all
  then show ?thesis by (simp only: switch_to_simps append_Cons append_Nil)
qed

lemma can_block_demo: "can_block demo_zero demo_env [] [(0x100000, 0x8000, MEM_FREE)]"
proof -
  have "mm_repr (mm demo_env) [0] [(0x100000, 0x8000, MEM_FREE)]"
    using demo_pool_repr [of 0] by (simp add: demo_env_def)
  then show ?thesis
    using kinv_demo_three
    by (auto simp: can_block_def demo_zero_def demo_sem_def demo_env_def demo_three_fields TS_defs
        sq_repr_def SIMPLEQ_INIT_def NR_BLOCKS_def blk_fits_def MEM_FREE_def span_def)
qed

lemma asleep_demo:
  assumes "scheduler (asleep demo_three) = Some k"
  shows "cpu_tss k \<noteq> 0x2000"
proof -
  let ?k = "asleep demo_three" and ?vs = "[0x1000, 0x2000, 0x3000]"
  have tk: "tasks ?k = (tasks demo_three)(0x2000 := (tasks demo_three 0x2000)\<lparr>task_state := TS_SLEEP\<rparr>)"
    and f: "current ?k = 0x2000" "TASK0 ?k = 0x1000"
    by (simp_all add: asleep_def sleep_on_def upd_task_def demo_three_fields)
  have eff: "effective ?k = 0x1000" by (simp add: effective_def tk f)
  have "linked (tasks ?k) (TASK0 ?k) ?vs" using kinv_asleep [OF kinv_demo_three] by (simp add: kinv_def)
  then show ?thesis
  proof (cases rule: scheduler_cases)
    case idle
    then show ?thesis by (simp add: eff tk demo_three_fields)
  next
    case stay
    then show ?thesis
      by (auto simp: eff tk demo_three_fields chosen_def Cons_eq_append_conv)
  next
    case (switch u)
    have "u \<noteq> 0x2000" using chosenD(2) [OF switch(4)] by (auto simp: tk TS_defs)
    with switch(3) assms show ?thesis by simp
  qed
qed

lemma demo_blocks: "\<exists>s1 e1. sem_wait demo_zero demo_env = Some (Blocked s1 e1)"
proof -
  obtain a k m its where b: "scheduler (asleep demo_three) = Some k"
    "sleep_on_queue (sem_wq demo_zero) demo_env = Some (cpu_tss k \<noteq> 0x2000,
       SIMPLEQ_INSERT_TAIL a (sem_wq demo_zero), \<lparr>kern = k, mm = m, items = its\<rparr>)"
    using sleep_on_queue_blocks [OF can_block_demo] by (auto simp: demo_env_def demo_three_fields)
  have "sem_mutex demo_zero = 0" "sint (sem_count demo_zero - 1) < 0" by (simp_all add: demo_zero_def demo_sem_def)
  with b asleep_demo [OF b(1)] show ?thesis
    by (simp add: sem_wait_def mutex_lock_free Let_def)
qed

theorem semaphore_queue_is_fifo_witness:
  "\<exists>s2 e2. sem_post (demo_zero\<lparr>sem_count := - 1, sem_wq := demo_queue\<rparr>) demo_env = Some (s2, e2) \<and>
     task_state (tasks (kern e2) 0x2000) = TS_RUNABLE"
proof -
  let ?s = "demo_zero\<lparr>sem_count := - 1, sem_wq := demo_queue\<rparr>"
  have "sq_repr (sem_wq ?s) [8]" "sem_mutex ?s = 0" "sint (sem_count ?s + 1) \<le> 0"
    "item_task (items demo_env 8) = 0x2000" "mm_repr (mm demo_env) [0] [(0x100000, 0x8000, MEM_FREE)]"
    "sint (sem_count demo_zero - 1) < 0"
    using demo_queue_repr demo_pool_repr [of 0]
    by (simp_all add: demo_env_def demo_zero_def demo_sem_def)
  from semaphore_queue_is_fifo [OF can_block_demo this(6,1-4) _ this(5)] show ?thesis by auto
qed

text \<open>
  Property C15. The lock held across the sleep makes blocking permanent: once a task other than the
  first has blocked in \<open>sem_wait\<close>, then after any sequence of timer ticks, scheduler calls, task
  creations and calls on the semaphore it is still asleep, and every \<open>sem_wait\<close> and \<open>sem_post\<close>
  on the semaphore spins for ever, including the \<open>sem_post\<close> that should wake it.
\<close>

theorem semaphore_deadlock:
  assumes "sem_wait s e = Some (Blocked s1 e1)" and "kinv vs (kern e)"
    and "current (kern e) \<noteq> TASK0 (kern e)" and "cpu_tss (kern e) = current (kern e)"
    and "sem_step\<^sup>*\<^sup>* (s1, e1) (s2, e2)"
  shows "task_state (tasks (kern e2) (current (kern e))) = TS_SLEEP \<and> sem_mutex s2 = 1 \<and>
    sem_wait s2 e2 = None \<and> sem_post s2 e2 = None"
proof -
  let ?t = "current (kern e)"
  obtain wq where l: "mutex_lock (sem_mutex s) = Some (sem_mutex s1)"
    and q: "sleep_on_queue (sem_wq s) e = Some (True, wq, e1)"
    using assms(1) by (auto simp: sem_wait_def Let_def bind_eq_Some_conv split: if_splits)
  have m: "sem_mutex s1 = 1" using l mutex_lock_free_only [OF l] by (simp add: mutex_lock_free)
  from sleep_on_queue_switched [OF q]
  obtain e4 where g: "give_up ?t e4 = Some (True, e1)"
    and k4: "kern e4 = upd_task ?t (\<lambda>k. k\<lparr>task_state := TS_SLEEP\<rparr>) (kern e)" by blast
  have "parked ?t (kern e1)"
    using kinv_set_sleep [OF assms(2)] assms(3,4) by (intro give_up_switched [OF g]) (simp_all add: k4)
  from parked_reachable [OF assms(5) m this] show ?thesis
    using held_blocks [of s2 e2] by (auto simp: parked_def)
qed

theorem semaphore_deadlock_witness:
  "\<exists>s1 e1. sem_wait demo_zero demo_env = Some (Blocked s1 e1) \<and> sem_post s1 e1 = None"
proof -
  obtain s1 e1 where b: "sem_wait demo_zero demo_env = Some (Blocked s1 e1)" using demo_blocks by blast
  have "kinv [0x1000, 0x2000, 0x3000] (kern demo_env)" "current (kern demo_env) \<noteq> TASK0 (kern demo_env)"
    "cpu_tss (kern demo_env) = current (kern demo_env)"
    using kinv_demo_three by (simp_all add: demo_env_def demo_three_fields)
  from semaphore_deadlock [OF b this rtranclp.rtrancl_refl] b show ?thesis by blast
qed

end
