(* ===== verification/Pipe.thy ===== *)
theory Pipe
  imports Sem
begin

text \<open>
  The pipes of \<^verbatim>\<open>eeos_pipe.c\<close> and \<^verbatim>\<open>eeos_pipe.h\<close>: eight byte queues, ring buffers in
  allocated memory, with a semaphore array. Descriptors come in pairs, an odd one to read and the
  next even one to write. A read first waits on the semaphore of its descriptor; what it does when
  it comes back is \<open>pipe_read_rest\<close>. The user buffers and the rings are in the byte memory of
  the pool. The message that \<open>eeos_pipe_write\<close> prints in its loop is left out.
\<close>

section \<open>State\<close>

definition NR_PIPE :: nat where "NR_PIPE = 8"

text \<open>\<open>bq_lock\<close> is the mutex word that \<open>bq_mtx\<close> points to.\<close>

record ByteQueue =
  bq_p :: u32
  bq_mtx :: u32
  bq_lock :: u32
  bq_nbytes :: u32
  bq_maxcount :: u32
  bq_read_pos :: u32
  bq_write_pos :: u32
  rd_opened :: u8
  wr_opened :: u8

record PipeMgr =
  inited :: u8
  fg :: "nat \<Rightarrow> semaphore_t"
  bq :: "nat \<Rightarrow> ByteQueue"

text \<open>What \<^verbatim>\<open>memset(.., 0, ..)\<close> leaves.\<close>

definition zero_sem :: semaphore_t where
  "zero_sem = \<lparr>sem_count = 0, sem_mutex = 0,
     sem_wq = \<lparr>sqh_first = 0, sqh_last = Null_cell, sqe_next = \<lambda>_. 0\<rparr>\<rparr>"

definition zero_bq :: ByteQueue where
  "zero_bq = \<lparr>bq_p = 0, bq_mtx = 0, bq_lock = 0, bq_nbytes = 0, bq_maxcount = 0, bq_read_pos = 0,
     bq_write_pos = 0, rd_opened = 0, wr_opened = 0\<rparr>"

text \<open>\<^verbatim>\<open>static PipeMgr g_mgr = {0xff};\<close>\<close>

definition g_mgr :: PipeMgr where
  "g_mgr = \<lparr>inited = 0xff, fg = \<lambda>_. zero_sem, bq = \<lambda>_. zero_bq\<rparr>"

section \<open>Descriptors\<close>

definition MIN_PIPE_NO :: int where "MIN_PIPE_NO = 3"

definition PIPE_HANDLE :: "int \<Rightarrow> nat" where
  "PIPE_HANDLE fd = nat ((fd - MIN_PIPE_NO) div 2)"

definition IS_VALID :: "int \<Rightarrow> bool" where
  "IS_VALID fd \<longleftrightarrow> MIN_PIPE_NO \<le> fd \<and> fd < MIN_PIPE_NO + 2 * int NR_PIPE"

definition IS_RD_FD :: "int \<Rightarrow> bool" where
  "IS_RD_FD fd \<longleftrightarrow> (fd - MIN_PIPE_NO + 1) mod 2 = 1"

definition IS_WR_FD :: "int \<Rightarrow> bool" where
  "IS_WR_FD fd \<longleftrightarrow> (fd - MIN_PIPE_NO) mod 2 = 1"

text \<open>
  How a call ends: with a value, asleep in \<open>sem_wait\<close>, or with an access past \<^verbatim>\<open>fg[NR_PIPE]\<close>. A
  call that spins for ever on a lock has no result.
\<close>

datatype pipe_outcome = Ret int | Asleep | Fg_out_of_bounds int

type_synonym pipe_result = "(pipe_outcome \<times> PipeMgr \<times> sem_env) option"

definition set_bq :: "nat \<Rightarrow> ByteQueue \<Rightarrow> PipeMgr \<Rightarrow> PipeMgr" where
  "set_bq h q g = g\<lparr>bq := (bq g)(h := q)\<rparr>"

definition set_fg :: "nat \<Rightarrow> semaphore_t \<Rightarrow> PipeMgr \<Rightarrow> PipeMgr" where
  "set_fg i s g = g\<lparr>fg := (fg g)(i := s)\<rparr>"

section \<open>Creation and removal\<close>

definition eeos_pipe_init :: "PipeMgr \<Rightarrow> int \<times> PipeMgr" where
  "eeos_pipe_init g = (if inited g \<noteq> 0 then (-1, g)
     else (0, \<lparr>inited = 1, fg = \<lambda>_. zero_sem, bq = \<lambda>_. zero_bq\<rparr>))"

text \<open>Only the first open queue is released: the loop returns after it.\<close>

definition eeos_pipe_deinit :: "PipeMgr \<Rightarrow> sem_env \<Rightarrow> (int \<times> PipeMgr \<times> sem_env) option" where
  "eeos_pipe_deinit g e =
     (case for_find (\<lambda>i. rd_opened (bq g i) \<noteq> 0 \<or> wr_opened (bq g i) \<noteq> 0) 0 NR_PIPE of
        None \<Rightarrow> Some (0, g, e)
      | Some i \<Rightarrow> map_option (\<lambda>e'. (0, set_bq i zero_bq g, e'))
          (if bq_p (bq g i) \<noteq> 0 then env_kfree (bq_p (bq g i)) e else Some e))"

text \<open>The descriptors are returned beside the value when the creation succeeds.\<close>

definition eeos_pipe_create :: "PipeMgr \<Rightarrow> sem_env \<Rightarrow> (int \<times> (int \<times> int) option \<times> PipeMgr \<times> sem_env) option" where
  "eeos_pipe_create g e =
     (case for_find (\<lambda>i. rd_opened (bq g i) = 0 \<and> wr_opened (bq g i) = 0) 0 NR_PIPE of
        None \<Rightarrow> Some (-1, None, g, e)
      | Some i \<Rightarrow>
          let q = zero_bq\<lparr>bq_maxcount := 1024 * 4\<rparr> in
          Option.bind (env_kmalloc (bq_maxcount q) e) (\<lambda>(p, e1).
            let q1 = q\<lparr>bq_p := p\<rparr> in
            if p = 0 then Some (-1, None, set_bq i q1 g, e1)
            else Option.bind (env_kmalloc 4 e1) (\<lambda>(mx, e2).
              if mx = 0 then map_option (\<lambda>e3. (-1, None, set_bq i q1 g, e3)) (env_kfree p e2)
              else let q2 = q1\<lparr>bq_mtx := mx, bq_lock := mutex_init 0, rd_opened := 1, wr_opened := 1\<rparr>
                   in Some (0, Some (2 * int i + MIN_PIPE_NO + 0, 2 * int i + MIN_PIPE_NO + 1),
                        set_fg i (sem_init 1 (fg g i)) (set_bq i q2 g), e2))))"

section \<open>Transfer\<close>

text \<open>The address of the ring cell for a position: \<^verbatim>\<open>bq->p[i % bq->maxcount]\<close>.\<close>

definition ring_cell :: "ByteQueue \<Rightarrow> int \<Rightarrow> u32" where
  "ring_cell q i = bq_p q + word_of_int (smod_c i (sint (bq_maxcount q)))"

function read_loop :: "ByteQueue \<Rightarrow> u32 \<Rightarrow> int \<Rightarrow> int \<Rightarrow> int \<Rightarrow> mem \<Rightarrow> int \<times> mem" where
  "read_loop q buf count i j m =
     (if i < sint (bq_write_pos q) \<and> j < count
      then read_loop q buf count (i + 1) (j + 1) (m(buf + word_of_int j := m (ring_cell q i)))
      else (j, m))"
  by pat_completeness auto
termination
  by (relation "measure (\<lambda>(q, buf, count, i, j, m). nat (count - j))") auto

declare read_loop.simps [simp del]

definition read_bytes :: "ByteQueue \<Rightarrow> u32 \<Rightarrow> int \<Rightarrow> mem \<Rightarrow> int \<times> ByteQueue \<times> mem" where
  "read_bytes q buf count m =
     (case read_loop q buf count (sint (bq_read_pos q)) 0 m of (n, m') \<Rightarrow>
        let q1 = q\<lparr>bq_read_pos := bq_read_pos q + word_of_int n\<rparr>
        in (n, q1\<lparr>bq_nbytes := bq_write_pos q1 - bq_read_pos q1\<rparr>, m'))"

function write_loop :: "ByteQueue \<Rightarrow> u32 \<Rightarrow> int \<Rightarrow> int \<Rightarrow> int \<Rightarrow> int \<Rightarrow> mem \<Rightarrow> int \<times> mem" where
  "write_loop q buf count emptys i j m =
     (if j < count \<and> j < emptys
      then write_loop q buf count emptys (i + 1) (j + 1) (m(ring_cell q i := m (buf + word_of_int j)))
      else (j, m))"
  by pat_completeness auto
termination
  by (relation "measure (\<lambda>(q, buf, count, emptys, i, j, m). nat (count - j))") auto

declare write_loop.simps [simp del]

definition write_bytes :: "ByteQueue \<Rightarrow> u32 \<Rightarrow> int \<Rightarrow> mem \<Rightarrow> int \<times> ByteQueue \<times> mem" where
  "write_bytes q buf count m =
     (let emptys = sint (bq_maxcount q - bq_nbytes q) in
      case write_loop q buf count emptys (sint (bq_write_pos q)) 0 m of (n, m') \<Rightarrow>
        let q1 = q\<lparr>bq_write_pos := bq_write_pos q + word_of_int n\<rparr>
        in (n, q1\<lparr>bq_nbytes := bq_write_pos q1 - bq_read_pos q1\<rparr>, m'))"

definition env_ram :: "sem_env \<Rightarrow> mem" where "env_ram e = ram (mm e)"
definition set_ram :: "mem \<Rightarrow> sem_env \<Rightarrow> sem_env" where "set_ram m e = e\<lparr>mm := (mm e)\<lparr>ram := m\<rparr>\<rparr>"

text \<open>\<^verbatim>\<open>sem_post(&g_mgr.fg[i])\<close>\<close>

definition post_fg :: "int \<Rightarrow> PipeMgr \<Rightarrow> sem_env \<Rightarrow> (pipe_outcome option \<times> PipeMgr \<times> sem_env) option" where
  "post_fg i g e =
     (if 0 \<le> i \<and> i < int NR_PIPE
      then map_option (\<lambda>(s, e'). (None, set_fg (nat i) s g, e')) (sem_post (fg g (nat i)) e)
      else Some (Some (Fg_out_of_bounds i), g, e))"

definition pipe_read_rest :: "int \<Rightarrow> u32 \<Rightarrow> int \<Rightarrow> PipeMgr \<Rightarrow> sem_env \<Rightarrow> pipe_result" where
  "pipe_read_rest fd buf count g e =
     (let h = PIPE_HANDLE fd; q = bq g h in
      Option.bind (mutex_lock (bq_lock q)) (\<lambda>l.
        case read_bytes (q\<lparr>bq_lock := l\<rparr>) buf count (env_ram e) of (n, q1, m) \<Rightarrow>
          Option.bind (post_fg (fd + 1) (set_bq h q1 g) (set_ram m e)) (\<lambda>(err, g2, e2).
            case err of
              Some r \<Rightarrow> Some (r, g2, e2)
            | None \<Rightarrow> Some (Ret n, set_bq h (bq g2 h\<lparr>bq_lock := mutex_unlock l\<rparr>) g2, e2))))"

definition eeos_pipe_read :: "int \<Rightarrow> u32 \<Rightarrow> int \<Rightarrow> PipeMgr \<Rightarrow> sem_env \<Rightarrow> pipe_result" where
  "eeos_pipe_read fd buf count g e =
     (if \<not> IS_VALID fd \<or> \<not> IS_RD_FD fd then Some (Ret 0, g, e)
      else if buf = 0 \<or> count = 0 then Some (Ret 0, g, e)
      else if rd_opened (bq g (PIPE_HANDLE fd)) = 0 then Some (Ret 0, g, e)
      else if int NR_PIPE \<le> fd then Some (Fg_out_of_bounds fd, g, e)
      else Option.bind (sem_wait (fg g (nat fd)) e) (\<lambda>w.
             case w of
               Blocked s e1 \<Rightarrow> Some (Asleep, set_fg (nat fd) s g, e1)
             | Returned s e1 \<Rightarrow> pipe_read_rest fd buf count (set_fg (nat fd) s g) e1))"

definition eeos_pipe_write :: "int \<Rightarrow> u32 \<Rightarrow> int \<Rightarrow> PipeMgr \<Rightarrow> sem_env \<Rightarrow> pipe_result" where
  "eeos_pipe_write fd buf count g e =
     (if \<not> IS_VALID fd \<or> \<not> IS_WR_FD fd then Some (Ret 0, g, e)
      else if buf = 0 \<or> count = 0 then Some (Ret 0, g, e)
      else let h = PIPE_HANDLE fd; q = bq g h in
        if wr_opened q = 0 then Some (Ret 0, g, e)
        else Option.bind (mutex_lock (bq_lock q)) (\<lambda>l.
          case write_bytes (q\<lparr>bq_lock := l\<rparr>) buf count (env_ram e) of (n, q1, m) \<Rightarrow>
            Option.bind (post_fg (fd - 1) (set_bq h q1 g) (set_ram m e)) (\<lambda>(err, g2, e2).
              case err of
                Some r \<Rightarrow> Some (r, g2, e2)
              | None \<Rightarrow> Some (Ret n, set_bq h (bq g2 h\<lparr>bq_lock := mutex_unlock l\<rparr>) g2, e2))))"

definition eeos_pipe_close :: "int \<Rightarrow> PipeMgr \<Rightarrow> sem_env \<Rightarrow> (int \<times> PipeMgr \<times> sem_env) option" where
  "eeos_pipe_close fd g e =
     (if \<not> IS_VALID fd then Some (-1, g, e)
      else let h = PIPE_HANDLE fd; q = bq g h;
               finish = (\<lambda>q'. if rd_opened q' = 0 \<and> wr_opened q' = 0
                 then map_option (\<lambda>e'. (0, set_bq h zero_bq g, e')) (env_kfree (bq_p q') e)
                 else Some (0, set_bq h q' g, e))
           in if IS_RD_FD fd then if rd_opened q = 0 then Some (-1, g, e) else finish (q\<lparr>rd_opened := 0\<rparr>)
              else if IS_WR_FD fd then if wr_opened q = 0 then Some (-1, g, e) else finish (q\<lparr>wr_opened := 0\<rparr>)
              else Some (-1, g, e))"

section \<open>Selection\<close>

text \<open>A descriptor set is its array; \<^verbatim>\<open>fd_count\<close> is the length of the list.\<close>

definition FD_ZERO :: "u32 list \<Rightarrow> u32 list" where "FD_ZERO fds = []"

definition FD_SET :: "u32 \<Rightarrow> u32 list \<Rightarrow> u32 list" where
  "FD_SET fd fds = (if length fds < 64 then fds @ [fd] else fds)"

text \<open>
  The semaphore posted is the one of the \<^emph>\<open>index\<close> in the set, whatever the descriptor; the flag
  of a descriptor, a shifted one bit, is never zero. The time limit is computed and never used.
\<close>

fun select_loop :: "nat \<Rightarrow> u32 list \<Rightarrow> int \<Rightarrow> PipeMgr \<Rightarrow> sem_env \<Rightarrow> pipe_result" where
  "select_loop i [] n g e = Some (Ret n, g, e)"
| "select_loop i (fd # fds) n g e =
     Option.bind (post_fg (int i) g e) (\<lambda>(err, g1, e1).
       case err of Some r \<Rightarrow> Some (r, g1, e1) | None \<Rightarrow> select_loop (Suc i) fds (n + 1) g1 e1)"

definition eeos_fd_select :: "u32 list \<Rightarrow> PipeMgr \<Rightarrow> sem_env \<Rightarrow> pipe_result" where
  "eeos_fd_select fds g e = select_loop 0 fds 0 g e"

definition eeos_fd_isset :: "int \<Rightarrow> u32 list option \<Rightarrow> PipeMgr \<Rightarrow> pipe_outcome" where
  "eeos_fd_isset fd fdset g = (case fdset of None \<Rightarrow> Ret 0
     | Some fds \<Rightarrow>
         (case for_find (\<lambda>i. fds ! i = word_of_int fd) 0 (min (length fds) 32) of
            None \<Rightarrow> Ret 0
          | Some i \<Rightarrow> if 0 \<le> fd \<and> fd < int NR_PIPE
              then if 0 \<le> sint (sem_count (fg g (nat fd))) then Ret 1 else Ret 0
              else Fg_out_of_bounds fd))"

definition test_pipe :: "u32 \<times> u32 \<times> u32 \<times> u32 \<Rightarrow> u32 \<times> u32 \<times> u32 \<times> u32 \<Rightarrow> kstate \<Rightarrow> kstate" where
  "test_pipe t1 t2 k = spawn_task t2 (spawn_task t1 k)"

section \<open>Ring facts\<close>

lemma ring_cell_upd [simp]:
  "ring_cell (q\<lparr>bq_write_pos := w\<rparr>) i = ring_cell q i" "ring_cell (q\<lparr>bq_read_pos := w\<rparr>) i = ring_cell q i"
  "ring_cell (q\<lparr>bq_nbytes := w\<rparr>) i = ring_cell q i" "ring_cell (q\<lparr>bq_lock := w\<rparr>) i = ring_cell q i"
  by (simp_all add: ring_cell_def)

lemma ring_cell_mod:
  "0 < sint (bq_maxcount q) \<Longrightarrow> 0 \<le> i \<Longrightarrow>
   ring_cell q i = bq_p q + of_nat (nat (i mod sint (bq_maxcount q)))"
  by (simp add: ring_cell_def smod_c_nonneg)

lemma ring_cell_region:
  "0 < sint (bq_maxcount q) \<Longrightarrow> 0 \<le> i \<Longrightarrow> ring_cell q i \<in> region (bq_p q) (nat (sint (bq_maxcount q)))"
  unfolding ring_cell_mod by (intro in_region) simp

lemma ring_cell_distinct:
  assumes M: "0 < sint (bq_maxcount q)" and "0 \<le> i" and "i < j" and "j < i + sint (bq_maxcount q)"
  shows "ring_cell q i \<noteq> ring_cell q j"
proof -
  let ?M = "sint (bq_maxcount q)"
  have lt: "?M < 2147483648" using sint_range_size [of "bq_maxcount q"] by (simp add: word_size)
  have "i mod ?M \<noteq> j mod ?M"
  proof
    assume "i mod ?M = j mod ?M"
    then have "?M dvd j - i" by (metis mod_eq_dvd_iff)
    with assms(3,4) show False using zdvd_imp_le by fastforce
  qed
  then have ne: "nat (i mod ?M) \<noteq> nat (j mod ?M)"
    using M by (simp add: nat_eq_iff)
  have "nat (i mod ?M) < 4294967296" using lt pos_mod_bound [OF M, of i] by linarith
  moreover have "nat (j mod ?M) < 4294967296" using lt pos_mod_bound [OF M, of j] by linarith
  ultimately have "bq_p q + of_nat (nat (i mod ?M)) \<noteq> bq_p q + of_nat (nat (j mod ?M))"
    using ne by (subst offset_eq_iff) simp_all
  then show ?thesis using assms by (simp add: ring_cell_mod)
qed

definition apart :: "ByteQueue \<Rightarrow> u32 \<Rightarrow> nat \<Rightarrow> bool" where
  "apart q buf n \<longleftrightarrow> region (bq_p q) (nat (sint (bq_maxcount q))) \<inter> region buf n = {}"

lemma apartD:
  "apart q buf n \<Longrightarrow> 0 < sint (bq_maxcount q) \<Longrightarrow> 0 \<le> i \<Longrightarrow> k < n \<Longrightarrow> ring_cell q i \<noteq> buf + of_nat k"
  using ring_cell_region [of q i] in_region [of k n buf] by (auto simp: apart_def)

lemma write_loop_spec:
  assumes "0 < sint (bq_maxcount q)" and "0 \<le> i" and "j + n \<le> c" and "int n \<le> sint (bq_maxcount q)"
    and "apart q buf c" and "n = nat (min (int c) emptys - int j)"
  shows "\<exists>m'. write_loop q buf (int c) emptys i (int j) m = (int (j + n), m') \<and>
    (\<forall>k<n. m' (ring_cell q (i + int k)) = m (buf + of_nat (j + k))) \<and>
    (\<forall>x. (\<forall>k<n. x \<noteq> ring_cell q (i + int k)) \<longrightarrow> m' x = m x)"
  using assms
proof (induction n arbitrary: i j m)
  case 0
  then have "\<not> (int j < int c \<and> int j < emptys)" by linarith
  then show ?case by (auto simp: write_loop.simps [of q buf "int c" emptys i "int j"])
next
  case (Suc n)
  let ?M = "sint (bq_maxcount q)"
  let ?m = "m(ring_cell q i := m (buf + of_nat j))"
  have go: "int j < int c \<and> int j < emptys" using Suc.prems(6) by linarith
  then have run: "write_loop q buf (int c) emptys i (int j) m =
      write_loop q buf (int c) emptys (i + 1) (int (Suc j)) ?m"
    by (subst write_loop.simps) (simp add: add.commute)
  have n: "n = nat (min (int c) emptys - int (Suc j))" using Suc.prems(6) by linarith
  have h: "0 \<le> i + 1" "Suc j + n \<le> c" "int n \<le> ?M" using Suc.prems(2-4) by simp_all
  obtain m' where m': "write_loop q buf (int c) emptys (i + 1) (int (Suc j)) ?m = (int (Suc j + n), m')"
    and cells: "\<And>k. k < n \<Longrightarrow> m' (ring_cell q (i + 1 + int k)) = ?m (buf + of_nat (Suc j + k))"
    and frame: "\<And>x. (\<forall>k<n. x \<noteq> ring_cell q (i + 1 + int k)) \<Longrightarrow> m' x = ?m x"
    using Suc.IH [OF Suc.prems(1) h Suc.prems(5) n, of ?m] by blast
  have ne: "ring_cell q i \<noteq> ring_cell q (i + 1 + int k)" if "k < n" for k
    by (rule ring_cell_distinct) (use Suc.prems(1,2,4) that in auto)
  have "m' (ring_cell q (i + int k)) = m (buf + of_nat (j + k))" if k: "k < Suc n" for k
  proof (cases k)
    case 0
    then show ?thesis using frame [of "ring_cell q i"] ne by simp
  next
    case (Suc l)
    then have l: "l < n" using k by simp
    have "buf + of_nat (Suc j + l) \<noteq> ring_cell q i"
      using apartD [OF Suc.prems(5,1,2), of "Suc j + l"] Suc.prems(3) l by force
    then show ?thesis using cells [OF l] Suc by (simp add: add.assoc)
  qed
  moreover have "m' x = m x" if "\<forall>k<Suc n. x \<noteq> ring_cell q (i + int k)" for x
  proof -
    have "x \<noteq> ring_cell q i" using that by force
    moreover have "\<forall>k<n. x \<noteq> ring_cell q (i + 1 + int k)"
      using that by (metis Suc_less_eq add.assoc of_nat_Suc)
    ultimately show ?thesis using frame [of x] by simp
  qed
  ultimately show ?case using run m' by auto
qed

lemma read_loop_spec:
  assumes "0 < sint (bq_maxcount q)" and "0 \<le> i" and "j + n \<le> c" and "c < 2 ^ 32"
    and "apart q buf c" and "n = nat (min (int c - int j) (sint (bq_write_pos q) - i))"
  shows "\<exists>m'. read_loop q buf (int c) i (int j) m = (int (j + n), m') \<and>
    (\<forall>k<n. m' (buf + of_nat (j + k)) = m (ring_cell q (i + int k))) \<and>
    (\<forall>x. (\<forall>k<n. x \<noteq> buf + of_nat (j + k)) \<longrightarrow> m' x = m x)"
  using assms
proof (induction n arbitrary: i j m)
  case 0
  then have "\<not> (i < sint (bq_write_pos q) \<and> int j < int c)" by linarith
  then show ?case by (auto simp: read_loop.simps [of q buf "int c" i "int j"])
next
  case (Suc n)
  let ?m = "m(buf + of_nat j := m (ring_cell q i))"
  have "i < sint (bq_write_pos q) \<and> int j < int c" using Suc.prems(6) by linarith
  then have run: "read_loop q buf (int c) i (int j) m = read_loop q buf (int c) (i + 1) (int (Suc j)) ?m"
    by (subst read_loop.simps) (simp add: add.commute)
  have n: "n = nat (min (int c - int (Suc j)) (sint (bq_write_pos q) - (i + 1)))"
    using Suc.prems(6) by linarith
  have h: "0 \<le> i + 1" "Suc j + n \<le> c" using Suc.prems(2,3) by simp_all
  obtain m' where m': "read_loop q buf (int c) (i + 1) (int (Suc j)) ?m = (int (Suc j + n), m')"
    and cells: "\<And>k. k < n \<Longrightarrow> m' (buf + of_nat (Suc j + k)) = ?m (ring_cell q (i + 1 + int k))"
    and frame: "\<And>x. (\<forall>k<n. x \<noteq> buf + of_nat (Suc j + k)) \<Longrightarrow> m' x = ?m x"
    using Suc.IH [OF Suc.prems(1) h Suc.prems(4,5) n, of ?m] by blast
  have off: "buf + of_nat a \<noteq> buf + of_nat b" if "a < c" "b < c" "a \<noteq> b" for a b
    using that Suc.prems(4) by (subst offset_eq_iff) simp_all
  have "m' (buf + of_nat (j + k)) = m (ring_cell q (i + int k))" if k: "k < Suc n" for k
  proof (cases k)
    case 0
    have "\<forall>k<n. buf + of_nat j \<noteq> buf + of_nat (Suc j + k)"
      using off [of j] Suc.prems(3) by (intro allI impI off) auto
    then show ?thesis using frame [of "buf + of_nat j"] 0 by simp
  next
    case (Suc l)
    then have l: "l < n" using k by simp
    have "ring_cell q (i + 1 + int l) \<noteq> buf + of_nat j"
      by (rule apartD [OF Suc.prems(5,1)]) (use Suc.prems(2,3) in auto)
    then show ?thesis using cells [OF l] Suc by (simp add: add.assoc)
  qed
  moreover have "m' x = m x" if "\<forall>k<Suc n. x \<noteq> buf + of_nat (j + k)" for x
  proof -
    have "x \<noteq> buf + of_nat j" using that by force
    moreover have "\<forall>k<n. x \<noteq> buf + of_nat (Suc j + k)"
      using that by (metis Suc_less_eq add_Suc_shift)
    ultimately show ?thesis using frame [of x] by simp
  qed
  ultimately show ?case using run m' by auto
qed

section \<open>The byte queue as a queue\<close>

text \<open>The bytes between the read and the write position, oldest first.\<close>

definition ring_repr :: "ByteQueue \<times> mem \<Rightarrow> u8 list \<Rightarrow> bool" where
  "ring_repr = (\<lambda>(q, m) xs. 0 < sint (bq_maxcount q) \<and> 0 \<le> sint (bq_read_pos q) \<and>
     sint (bq_write_pos q) = sint (bq_read_pos q) + int (length xs) \<and>
     bq_nbytes q = bq_write_pos q - bq_read_pos q \<and> int (length xs) \<le> sint (bq_maxcount q) \<and>
     (\<forall>k<length xs. m (ring_cell q (sint (bq_read_pos q) + int k)) = xs ! k))"

lemma ring_reprI:
  assumes "0 < sint (bq_maxcount q)" and "0 \<le> sint (bq_read_pos q)"
    and "sint (bq_write_pos q) = sint (bq_read_pos q) + int (length xs)"
    and "bq_nbytes q = bq_write_pos q - bq_read_pos q" and "int (length xs) \<le> sint (bq_maxcount q)"
    and "\<And>k. k < length xs \<Longrightarrow> m (ring_cell q (sint (bq_read_pos q) + int k)) = xs ! k"
  shows "ring_repr (q, m) xs"
  using assms by (simp add: ring_repr_def)

lemma ring_room:
  assumes "ring_repr (q, m) xs"
  shows "sint (bq_maxcount q - bq_nbytes q) = sint (bq_maxcount q) - int (length xs)"
proof -
  have nb: "bq_nbytes q = bq_write_pos q - bq_read_pos q" using assms by (simp add: ring_repr_def)
  have lt: "sint (bq_maxcount q) < 2147483648" using sint_range_size [of "bq_maxcount q"] by (simp add: word_size)
  have n: "sint (bq_write_pos q - bq_read_pos q) = int (length xs)"
    using assms sint_diff_small [of "bq_write_pos q" "bq_read_pos q"] lt by (simp add: ring_repr_def)
  show ?thesis
    using assms sint_diff_small [of "bq_maxcount q" "bq_write_pos q - bq_read_pos q"] lt
    unfolding nb n by (simp add: ring_repr_def)
qed

text \<open>
  A write of \<open>c\<close> bytes appends as many as there is room for, as long as the position counter does
  not overflow.
\<close>

lemma write_bytes_appends:
  assumes r: "ring_repr (q, m) xs" and ap: "apart q buf c" and c: "c < 2 ^ 31"
    and w: "sint (bq_write_pos q) + int c < 2 ^ 31"
  defines "n \<equiv> min c (nat (sint (bq_maxcount q)) - length xs)"
  shows "\<exists>q' m'. write_bytes q buf (int c) m = (int n, q', m') \<and>
    ring_repr (q', m') (xs @ map (\<lambda>k. m (buf + of_nat k)) [0..<n]) \<and>
    bq_p q' = bq_p q \<and> bq_maxcount q' = bq_maxcount q \<and>
    sint (bq_write_pos q') = sint (bq_write_pos q) + int n"
proof -
  let ?M = "sint (bq_maxcount q)" and ?w = "sint (bq_write_pos q)" and ?r = "sint (bq_read_pos q)"
  let ?em = "sint (bq_maxcount q - bq_nbytes q)"
  have R: "0 < ?M" "0 \<le> ?r" "?w = ?r + int (length xs)" "int (length xs) \<le> ?M"
    and cells: "\<And>k. k < length xs \<Longrightarrow> m (ring_cell q (?r + int k)) = xs ! k"
    using r by (auto simp: ring_repr_def)
  have em: "?em = ?M - int (length xs)" by (rule ring_room [OF r])
  have n: "n = nat (min (int c) ?em - int 0)" using R(4) unfolding n_def em by linarith
  have nM: "int n \<le> ?M" and nc: "0 + n \<le> c" and nr: "int (length xs) + int n \<le> ?M"
    using R unfolding n_def by linarith+
  have w0: "0 \<le> ?w" using R by simp
  obtain m' where run: "write_loop q buf (int c) ?em ?w (int 0) m = (int (0 + n), m')"
    and new: "\<And>k. k < n \<Longrightarrow> m' (ring_cell q (?w + int k)) = m (buf + of_nat (0 + k))"
    and old: "\<And>x. (\<forall>k<n. x \<noteq> ring_cell q (?w + int k)) \<Longrightarrow> m' x = m x"
    using write_loop_spec [OF R(1) w0 nc nM ap n, of m] by blast
  let ?q = "q\<lparr>bq_write_pos := bq_write_pos q + word_of_int (int n),
      bq_nbytes := bq_write_pos q + word_of_int (int n) - bq_read_pos q\<rparr>"
  have wb: "write_bytes q buf (int c) m = (int n, ?q, m')"
    using run by (simp add: write_bytes_def Let_def)
  have sn: "sint (of_nat n :: u32) = int n"
    using sint_of_int_small [of "int n"] nc c by simp
  have wp: "sint (bq_write_pos ?q) = ?w + int n"
    using sint_add_small [of "bq_write_pos q" "of_nat n"] sn w w0 nc by simp
  have keep: "m' (ring_cell q (?r + int k)) = xs ! k" if k: "k < length xs" for k
  proof -
    have "\<forall>l<n. ring_cell q (?r + int k) \<noteq> ring_cell q (?w + int l)"
      using R nr k by (intro allI impI ring_cell_distinct) auto
    with old cells [OF k] show ?thesis by simp
  qed
  have "ring_repr (?q, m') (xs @ map (\<lambda>k. m (buf + of_nat k)) [0..<n])"
  proof -
    have "m' (ring_cell q (?r + int k)) = (xs @ map (\<lambda>k. m (buf + of_nat k)) [0..<n]) ! k"
      if "k < length xs + n" for k
    proof (cases "k < length xs")
      case True
      then show ?thesis using keep by (simp add: nth_append)
    next
      case False
      define l where "l = k - length xs"
      have l: "k = length xs + l" "l < n" using that False by (simp_all add: l_def)
      have e: "?r + int k = ?w + int l" using R l(1) by simp
      show ?thesis unfolding e using new [OF l(2)] l by (simp add: nth_append)
    qed
    then show ?thesis
      using R nr wp by (intro ring_reprI) simp_all
  qed
  then show ?thesis using wb wp by auto
qed

text \<open>A read delivers the oldest bytes, in order, and removes them.\<close>

lemma read_bytes_removes:
  assumes r: "ring_repr (q, m) xs" and ap: "apart q buf c" and c: "c < 2 ^ 31"
  defines "n \<equiv> min c (length xs)"
  shows "\<exists>q' m'. read_bytes q buf (int c) m = (int n, q', m') \<and> ring_repr (q', m') (drop n xs) \<and>
    map (\<lambda>k. m' (buf + of_nat k)) [0..<n] = take n xs \<and>
    bq_p q' = bq_p q \<and> bq_maxcount q' = bq_maxcount q \<and> bq_write_pos q' = bq_write_pos q"
proof -
  let ?M = "sint (bq_maxcount q)" and ?w = "sint (bq_write_pos q)" and ?r = "sint (bq_read_pos q)"
  have R: "0 < ?M" "0 \<le> ?r" "?w = ?r + int (length xs)" "int (length xs) \<le> ?M"
    and cells: "\<And>k. k < length xs \<Longrightarrow> m (ring_cell q (?r + int k)) = xs ! k"
    using r by (auto simp: ring_repr_def)
  have n: "n = nat (min (int c - int 0) (?w - ?r))" using R unfolding n_def by linarith
  have nc: "0 + n \<le> c" and nx: "n \<le> length xs" unfolding n_def by simp_all
  have c32: "c < 2 ^ 32" using c by simp
  obtain m' where run: "read_loop q buf (int c) ?r (int 0) m = (int (0 + n), m')"
    and new: "\<And>k. k < n \<Longrightarrow> m' (buf + of_nat (0 + k)) = m (ring_cell q (?r + int k))"
    and old: "\<And>x. (\<forall>k<n. x \<noteq> buf + of_nat (0 + k)) \<Longrightarrow> m' x = m x"
    using read_loop_spec [OF R(1,2) nc c32 ap n, of m] by blast
  let ?q = "q\<lparr>bq_read_pos := bq_read_pos q + word_of_int (int n),
      bq_nbytes := bq_write_pos q - (bq_read_pos q + word_of_int (int n))\<rparr>"
  have rb: "read_bytes q buf (int c) m = (int n, ?q, m')"
    using run by (simp add: read_bytes_def Let_def)
  have sn: "sint (of_nat n :: u32) = int n"
    using sint_of_int_small [of "int n"] nc c by simp
  have rp: "sint (bq_read_pos ?q) = ?r + int n"
    using sint_add_small [of "bq_read_pos q" "of_nat n"] sn R nx
      sint_range_size [of "bq_write_pos q"] by (simp add: word_size)
  have "m' (ring_cell q (?r + int n + int k)) = drop n xs ! k" if k: "k < length xs - n" for k
  proof -
    have "\<forall>l<n. ring_cell q (?r + int n + int k) \<noteq> buf + of_nat (0 + l)"
      using R nc by (intro allI impI apartD [OF ap R(1)]) auto
    then have "m' (ring_cell q (?r + int n + int k)) = m (ring_cell q (?r + int (n + k)))"
      using old by (simp add: add.assoc)
    then show ?thesis using cells [of "n + k"] k by simp
  qed
  then have "ring_repr (?q, m') (drop n xs)"
    using R nx rp by (intro ring_reprI) simp_all
  moreover have "map (\<lambda>k. m' (buf + of_nat k)) [0..<n] = take n xs"
    using new cells nx by (intro nth_equalityI) auto
  ultimately show ?thesis using rb by simp
qed

text \<open>
  One-byte writes and reads through a scratch cell outside the ring: the byte queue provides the
  interface of a first-in first-out queue.
\<close>

definition byte_repr :: "u32 \<Rightarrow> ByteQueue \<times> mem \<Rightarrow> u8 list \<Rightarrow> bool" where
  "byte_repr buf s xs \<longleftrightarrow> ring_repr s xs \<and> apart (fst s) buf 1"

definition byte_fits :: "ByteQueue \<times> mem \<Rightarrow> u8 list \<Rightarrow> u8 \<Rightarrow> bool" where
  "byte_fits s xs x \<longleftrightarrow> int (length xs) < sint (bq_maxcount (fst s)) \<and>
     sint (bq_write_pos (fst s)) < 2147483647"

definition put_byte :: "u32 \<Rightarrow> u8 \<Rightarrow> ByteQueue \<times> mem \<Rightarrow> ByteQueue \<times> mem" where
  "put_byte buf x s = (case write_bytes (fst s) buf 1 ((snd s)(buf := x)) of (_, q, m) \<Rightarrow> (q, m))"

definition get_byte :: "u32 \<Rightarrow> ByteQueue \<times> mem \<Rightarrow> (u8 \<times> ByteQueue \<times> mem) option" where
  "get_byte buf s = (case read_bytes (fst s) buf 1 (snd s) of (n, q, m) \<Rightarrow>
     if n = 0 then None else Some (m buf, q, m))"

lemma ring_repr_scratch:
  assumes "ring_repr (q, m) xs" and "apart q buf 1"
  shows "ring_repr (q, m(buf := x)) xs"
proof -
  have "ring_cell q i \<noteq> buf" if "0 \<le> i" for i
    using apartD [OF assms(2) _ that, of 0] assms(1) by (simp add: ring_repr_def)
  with assms(1) show ?thesis by (simp add: ring_repr_def)
qed

interpretation ring: fifo_queue "byte_repr buf" byte_fits "put_byte buf" "get_byte buf" for buf
proof unfold_locales
  fix s xs x
  assume r: "byte_repr buf s xs" and f: "byte_fits s xs x"
  obtain q m where s: "s = (q, m)" by (cases s)
  let ?m = "m(buf := x)"
  have rr: "ring_repr (q, ?m) xs" and ap: "apart q buf 1"
    using r ring_repr_scratch by (auto simp: byte_repr_def s)
  have one: "min 1 (nat (sint (bq_maxcount q)) - length xs) = 1"
    using f by (simp add: byte_fits_def s) linarith
  obtain q' m' where "write_bytes q buf 1 ?m = (1, q', m')"
    "ring_repr (q', m') (xs @ [x])" "bq_p q' = bq_p q" "bq_maxcount q' = bq_maxcount q"
    using write_bytes_appends [OF rr ap] f unfolding one by (auto simp: byte_fits_def s)
  with ap show "byte_repr buf (put_byte buf x s) (xs @ [x])"
    by (simp add: byte_repr_def put_byte_def s apart_def)
next
  fix s x xs
  assume r: "byte_repr buf s (x # xs)"
  obtain q m where s: "s = (q, m)" by (cases s)
  have rr: "ring_repr (q, m) (x # xs)" and ap: "apart q buf 1" using r by (auto simp: byte_repr_def s)
  obtain q' m' where "read_bytes q buf 1 m = (1, q', m')" "ring_repr (q', m') xs" "m' buf = x"
    "bq_p q' = bq_p q" "bq_maxcount q' = bq_maxcount q"
    using read_bytes_removes [OF rr ap] by auto
  with ap show "\<exists>q'. get_byte buf s = Some (x, q') \<and> byte_repr buf q' xs"
    by (simp add: get_byte_def s byte_repr_def apart_def)
next
  fix s
  assume r: "byte_repr buf s []"
  obtain q m where s: "s = (q, m)" by (cases s)
  have rr: "ring_repr (q, m) []" and ap: "apart q buf 1" using r by (auto simp: byte_repr_def s)
  show "get_byte buf s = None"
    using read_bytes_removes [OF rr ap] by (auto simp: get_byte_def s)
qed

section \<open>Properties\<close>

text \<open>
  Property C16. Bytes through a pipe's queue: on a ring that holds \<open>xs\<close>, a write of \<open>c\<close> bytes takes
  as many as fit and appends them in order, and a read of \<open>c\<close> bytes delivers the first
  \<open>min c (length xs)\<close> bytes of \<open>xs\<close> to the user buffer and leaves the rest.
\<close>

theorem pipe_transfers_in_order:
  assumes "ring_repr (q, m) xs" and "apart q buf c" and "c < 2 ^ 31"
    and "sint (bq_write_pos q) + int c < 2 ^ 31"
    and "n = min c (nat (sint (bq_maxcount q)) - length xs)" and "k = min c (length xs)"
  shows "(\<exists>q' m'. write_bytes q buf (int c) m = (int n, q', m') \<and>
      ring_repr (q', m') (xs @ map (\<lambda>i. m (buf + of_nat i)) [0..<n])) \<and>
    (\<exists>q' m'. read_bytes q buf (int c) m = (int k, q', m') \<and> ring_repr (q', m') (drop k xs) \<and>
      map (\<lambda>i. m' (buf + of_nat i)) [0..<k] = take k xs)"
  using write_bytes_appends [OF assms(1-4)] read_bytes_removes [OF assms(1-3)] assms(5,6) by blast

definition demo_ring :: ByteQueue where
  "demo_ring = zero_bq\<lparr>bq_p := 0x1000, bq_maxcount := 2\<rparr>"

lemma demo_ring_repr: "ring_repr (demo_ring, m) []" "apart demo_ring 0x100 4"
  by (simp_all add: ring_repr_def demo_ring_def zero_bq_def apart_def region_def lessThan_nat_numeral lessThan_Suc)

theorem pipe_transfers_in_order_witness:
  "\<exists>q' m'. write_bytes demo_ring 0x100 4 (\<lambda>a. if a = 0x100 then 7 else 8) = (2, q', m') \<and> ring_repr (q', m') [7, 8]"
proof -
  have w: "sint (bq_write_pos demo_ring) + int 4 < 2 ^ 31"
    and n: "(2 :: nat) = min 4 (nat (sint (bq_maxcount demo_ring)) - length ([] :: u8 list))"
    and k: "(0 :: nat) = min 4 (length ([] :: u8 list))" and c: "(4 :: nat) < 2 ^ 31"
    by (simp_all add: demo_ring_def zero_bq_def)
  have u: "[0..<2] = [0, 1 :: nat]" by (simp add: numeral_2_eq_2)
  have "\<exists>q' m'. write_bytes demo_ring 0x100 (int 4) (\<lambda>a. if a = 0x100 then 7 else 8) = (int 2, q', m') \<and>
      ring_repr (q', m') ([] @ map (\<lambda>i. if (0x100 :: u32) + of_nat i = 0x100 then 7 else 8) [0..<2])"
    by (rule conjunct1 [OF pipe_transfers_in_order [OF demo_ring_repr c w n k]])
  then show ?thesis unfolding u by simp
qed

text \<open>
  Whatever sequence of one-byte writes (that find room) and reads runs on a queue, the
  bytes read followed by the bytes left are the original bytes followed by those written.
\<close>

theorem pipe_bytes_fifo:
  assumes "byte_repr buf s xs" and "ring.feasible buf ops s xs"
  shows "\<exists>out s' rest. ring.run buf ops s = (out, s') \<and> byte_repr buf s' rest \<and>
    out @ rest = xs @ ring.puts ops"
  by (rule ring.run_in_order [OF assms])

theorem pipe_bytes_fifo_witness:
  "\<exists>out s' rest. ring.run 0x100 [Put 5, Get, Get] (demo_ring, \<lambda>_. 0) = (out, s') \<and> out @ rest = [5]"
proof -
  have r: "byte_repr 0x100 (demo_ring, \<lambda>_. 0) []"
    using demo_ring_repr by (simp add: byte_repr_def apart_def region_def lessThan_nat_numeral lessThan_Suc)
  have "byte_fits (demo_ring, \<lambda>_. 0) [] 5" by (simp add: byte_fits_def demo_ring_def zero_bq_def)
  then have "ring.feasible 0x100 [Put 5, Get, Get] (demo_ring, \<lambda>_. 0) []"
    by (auto split: option.split)
  from pipe_bytes_fifo [OF r this] show ?thesis by auto
qed

text \<open>What a creation that succeeds leaves: the lowest closed pipe, opened, and its semaphore initialised.\<close>

lemma eeos_pipe_create_opens:
  assumes "eeos_pipe_create g e = Some (0, Some (rfd, wfd), g', e')"
  obtains h q where "h < NR_PIPE" and "rfd = 2 * int h + 3" and "wfd = 2 * int h + 4"
    and "g' = set_fg h (sem_init 1 (fg g h)) (set_bq h q g)"
    and "rd_opened q = 1" and "wr_opened q = 1" and "bq_lock q = 0"
proof -
  obtain h where h: "for_find (\<lambda>i. rd_opened (bq g i) = 0 \<and> wr_opened (bq g i) = 0) 0 NR_PIPE = Some h"
    using assms by (auto simp: eeos_pipe_create_def split: option.splits)
  then have "h < NR_PIPE" by (simp add: for_find_Some_iff)
  with assms h that show ?thesis
    by (fastforce simp: eeos_pipe_create_def MIN_PIPE_NO_def mutex_init_def Let_def
        split: Option.bind_splits if_splits)
qed

lemma set_fg_simps [simp]:
  "fg (set_fg i s g) = (fg g)(i := s)" "bq (set_fg i s g) = bq g"
  "fg (set_bq h q g) = fg g" "bq (set_bq h q g) = (bq g)(h := q)"
  "set_bq h q (set_fg i s g) = set_fg i s (set_bq h q g)" "set_bq h q (set_bq h q' g) = set_bq h q g"
  by (simp_all add: set_fg_def set_bq_def)

lemma set_fg_swap: "i \<noteq> j \<Longrightarrow> set_fg i s (set_fg j t g) = set_fg j t (set_fg i s g)"
  by (simp add: set_fg_def fun_upd_twist)

text \<open>The result of a call in a manager where semaphore \<open>h\<close> is replaced.\<close>

definition with_sem :: "nat \<Rightarrow> semaphore_t \<Rightarrow> pipe_result \<Rightarrow> pipe_result" where
  "with_sem h s = map_option (\<lambda>(r, g, e). (r, set_fg h s g, e))"

lemma post_fg_other:
  assumes "i \<noteq> int h"
  shows "post_fg i (set_fg h s g) e = map_option (\<lambda>(r, g, e). (r, set_fg h s g, e)) (post_fg i g e)"
  using assms by (auto simp: post_fg_def set_fg_swap option.map_comp comp_def case_prod_unfold)

lemma read_other_sem:
  assumes "nat fd \<noteq> h" and "fd + 1 \<noteq> int h"
  shows "eeos_pipe_read fd buf count (set_fg h s g) e = with_sem h s (eeos_pipe_read fd buf count g e)"
proof -
  have "pipe_read_rest fd buf count (set_fg h s g) e = with_sem h s (pipe_read_rest fd buf count g e)" for g e
  proof (cases "mutex_lock (bq_lock (bq g (PIPE_HANDLE fd)))")
    case (Some l)
    obtain n q m where "read_bytes (bq g (PIPE_HANDLE fd)\<lparr>bq_lock := l\<rparr>) buf count (env_ram e) = (n, q, m)"
      by (cases "read_bytes (bq g (PIPE_HANDLE fd)\<lparr>bq_lock := l\<rparr>) buf count (env_ram e)")
    with Some show ?thesis
      by (cases "post_fg (fd + 1) (set_bq (PIPE_HANDLE fd) q g) (set_ram m e)")
        (auto simp: pipe_read_rest_def with_sem_def post_fg_other [OF assms(2)] Let_def split: option.split)
  qed (simp add: pipe_read_rest_def with_sem_def)
  then show ?thesis
    using assms(1)
    by (auto simp: eeos_pipe_read_def with_sem_def set_fg_swap split: Option.bind_splits wait_outcome.splits)
qed

lemma write_other_sem:
  assumes "fd - 1 \<noteq> int h"
  shows "eeos_pipe_write fd buf count (set_fg h s g) e = with_sem h s (eeos_pipe_write fd buf count g e)"
proof (cases "mutex_lock (bq_lock (bq g (PIPE_HANDLE fd)))")
  case (Some l)
  obtain n q m where "write_bytes (bq g (PIPE_HANDLE fd)\<lparr>bq_lock := l\<rparr>) buf count (env_ram e) = (n, q, m)"
    by (cases "write_bytes (bq g (PIPE_HANDLE fd)\<lparr>bq_lock := l\<rparr>) buf count (env_ram e)")
  with Some show ?thesis
    by (cases "post_fg (fd - 1) (set_bq (PIPE_HANDLE fd) q g) (set_ram m e)")
      (auto simp: eeos_pipe_write_def with_sem_def post_fg_other [OF assms] Let_def split: option.split)
qed (simp add: eeos_pipe_write_def with_sem_def Let_def)

lemma sem_post_counts: "sem_post s e = Some (p, e') \<Longrightarrow> sem_count p = sem_count s + 1"
  by (auto simp: sem_post_def Let_def split: Option.bind_splits)

text \<open>A write on an open, unlocked pipe ends with the post of the semaphore before its descriptor.\<close>

lemma write_posts:
  assumes "IS_VALID fd" and "IS_WR_FD fd" and "buf \<noteq> 0" and "count \<noteq> 0"
    and "wr_opened (bq g (PIPE_HANDLE fd)) \<noteq> 0" and "bq_lock (bq g (PIPE_HANDLE fd)) = 0"
  obtains n q e1 where "eeos_pipe_write fd buf count g e =
    (if 0 \<le> fd - 1 \<and> fd - 1 < int NR_PIPE
     then map_option (\<lambda>(p, e2). (Ret n, set_fg (nat (fd - 1)) p (set_bq (PIPE_HANDLE fd) q g), e2))
       (sem_post (fg g (nat (fd - 1))) e1)
     else Some (Fg_out_of_bounds (fd - 1), set_bq (PIPE_HANDLE fd) (q\<lparr>bq_lock := 1\<rparr>) g, e1))"
proof -
  obtain n q m where w: "write_bytes (bq g (PIPE_HANDLE fd)\<lparr>bq_lock := 1\<rparr>) buf count (env_ram e) = (n, q, m)"
    by (cases "write_bytes (bq g (PIPE_HANDLE fd)\<lparr>bq_lock := 1\<rparr>) buf count (env_ram e)")
  then have "q\<lparr>bq_lock := 1\<rparr> = q"
    by (auto simp: write_bytes_def Let_def split: prod.splits)
  moreover from this have "q\<lparr>bq_lock := 0, bq_lock := 1\<rparr> = q" by (metis ByteQueue.surjective ByteQueue.update_convs(3))
  ultimately show thesis
    using w assms
    by (intro that [of n "q\<lparr>bq_lock := 0\<rparr>" "set_ram m e"], cases "sem_post (fg g (nat (fd - 1))) (set_ram m e)")
      (auto simp: eeos_pipe_write_def Let_def mutex_lock_free post_fg_def)
qed

text \<open>
  Property C17. The semaphores of the pipes. The manager starts marked initialised, so \<open>eeos_pipe_init\<close> refuses.
  Whenever \<open>eeos_pipe_create\<close> succeeds it initialises the semaphore of the pipe's \<^emph>\<open>number\<close> \<open>h\<close> and no other, while
  the calls on the two descriptors it returns use the one of the read \<^emph>\<open>descriptor\<close> and the one after it: no read or
  write of the pipe reads or changes the initialised semaphore, whatever it holds. Every write that returns has posted
  the semaphore of the read descriptor, which the creation left as it was. From the fourth pipe on these semaphores lie
  outside the array: every read of at least one byte leaves it before it has read, and every write after it has written.
\<close>

theorem pipe_semaphore_index:
  assumes "eeos_pipe_create g e = Some (0, Some (rfd, wfd), g', e')" and "buf \<noteq> 0" and "count \<noteq> 0"
  shows "eeos_pipe_init g_mgr = (-1, g_mgr) \<and>
    (\<exists>h<NR_PIPE. rfd = 2 * int h + 3 \<and> wfd = rfd + 1 \<and> fg g' = (fg g)(h := sem_init 1 (fg g h)) \<and>
      (\<forall>s. eeos_pipe_read rfd buf count (set_fg h s g') e' = with_sem h s (eeos_pipe_read rfd buf count g' e') \<and>
           eeos_pipe_write wfd buf count (set_fg h s g') e' = with_sem h s (eeos_pipe_write wfd buf count g' e')) \<and>
      (if h < 3
       then \<forall>n g2 e2. eeos_pipe_write wfd buf count g' e' = Some (Ret n, g2, e2) \<longrightarrow>
         (\<exists>p. fg g2 = (fg g')(nat rfd := p) \<and> sem_count p = sem_count (fg g (nat rfd)) + 1)
       else eeos_pipe_read rfd buf count g' e' = Some (Fg_out_of_bounds rfd, g', e') \<and>
         (\<exists>g2 e2. eeos_pipe_write wfd buf count g' e' = Some (Fg_out_of_bounds rfd, g2, e2))))"
proof -
  obtain h q where h: "h < NR_PIPE" "rfd = 2 * int h + 3" "wfd = 2 * int h + 4"
    "g' = set_fg h (sem_init 1 (fg g h)) (set_bq h q g)" "rd_opened q = 1" "wr_opened q = 1" "bq_lock q = 0"
    by (rule eeos_pipe_create_opens [OF assms(1)])
  have hd: "IS_VALID rfd" "IS_RD_FD rfd" "IS_VALID wfd" "IS_WR_FD wfd" "PIPE_HANDLE rfd = h" "PIPE_HANDLE wfd = h"
    using h(1-3) by (auto simp: IS_VALID_def IS_RD_FD_def IS_WR_FD_def PIPE_HANDLE_def MIN_PIPE_NO_def NR_PIPE_def)
  have q: "bq g' h = q" "fg g' (nat rfd) = fg g (nat rfd)" using h(2,4) by simp_all
  have pf: "wfd - 1 = rfd" using h(2,3) by simp
  obtain n q' e1 where w: "eeos_pipe_write wfd buf count g' e' =
      (if 0 \<le> rfd \<and> rfd < int NR_PIPE
       then map_option (\<lambda>(p, e2). (Ret n, set_fg (nat rfd) p (set_bq h q' g'), e2)) (sem_post (fg g (nat rfd)) e1)
       else Some (Fg_out_of_bounds rfd, set_bq h (q'\<lparr>bq_lock := 1\<rparr>) g', e1))"
  proof (rule write_posts [OF hd(3,4) assms(2,3), of g' e', unfolded pf hd(6) q(2)])
    show "wr_opened (bq g' h) \<noteq> 0" "bq_lock (bq g' h) = 0" using h(6,7) q(1) by simp_all
  qed
  have "\<exists>p. fg g2 = (fg g')(nat rfd := p) \<and> sem_count p = sem_count (fg g (nat rfd)) + 1"
    if "h < 3" "eeos_pipe_write wfd buf count g' e' = Some (Ret k, g2, e2)" for k g2 e2
    using that h(2) sem_post_counts unfolding w by (auto simp: NR_PIPE_def)
  moreover have "\<not> h < 3 \<Longrightarrow> eeos_pipe_read rfd buf count g' e' = Some (Fg_out_of_bounds rfd, g', e')"
    using assms(2,3) h(2,5) hd q by (simp add: eeos_pipe_read_def NR_PIPE_def)
  moreover have "\<not> h < 3 \<Longrightarrow> \<exists>g2 e2. eeos_pipe_write wfd buf count g' e' = Some (Fg_out_of_bounds rfd, g2, e2)"
    using h(2) unfolding w by (simp add: NR_PIPE_def)
  moreover have "eeos_pipe_init g_mgr = (-1, g_mgr)" by (simp add: eeos_pipe_init_def g_mgr_def)
  ultimately show ?thesis
    using h(1-4) read_other_sem [of rfd h buf count _ g' e'] write_other_sem [of wfd h buf count _ g' e']
    by (intro conjI exI [of _ h]) auto
qed

text \<open>With three pipes open, the next creation gives the descriptors 9 and 10.\<close>

definition demo_open :: PipeMgr where
  "demo_open = g_mgr\<lparr>bq := \<lambda>i. if i < 3 then zero_bq\<lparr>rd_opened := 1\<rparr> else zero_bq\<rparr>"

lemma demo_create: "\<exists>g' e'. eeos_pipe_create demo_open demo_env = Some (0, Some (9, 10), g', e')"
proof -
  have sz: "kmalloc_size 4096 = 0x2000" "kmalloc_size 4 = 0x1000" by (simp_all add: kmalloc_size_def)
  have wf: "wf_blocks [(0x100000, 0x8000, MEM_FREE)]" by (rule demo_pool_wf)
  obtain s1 i1 where s1: "mem_malloc 0x2000 (mm demo_env) = Some (Inr 0x106000, s1)"
    "mm_repr s1 i1 [(0x100000, 0x6000, MEM_FREE), (0x106000, 0x2000, MEM_USED)]" "mem_nr s1 \<le> 2"
    using mem_malloc_refines [OF demo_pool_repr [of 0], of "0x2000"] by (auto simp: demo_env_def NR_BLOCKS_def)
  define p1 where "p1 = s1\<lparr>ram := memset 0x106000 0 0x2000 (ram s1)\<rparr>"
  have "mm_repr p1 i1 [(0x100000, 0x6000, MEM_FREE), (0x106000, 0x2000, MEM_USED)]"
    using s1(2) by (simp add: p1_def mm_repr_def)
  then obtain s2 where s2: "mem_malloc 0x1000 p1 = Some (Inr 0x105000, s2)"
    using mem_malloc_refines [of p1 i1 _ "0x1000"] s1(3) by (fastforce simp: p1_def NR_BLOCKS_def)
  have "kmalloc 4096 (mm demo_env) = Some (Inr 0x106000, p1)" "\<exists>p2. kmalloc 4 p1 = Some (Inr 0x105000, p2)"
    using s1(1) s2 by (simp_all add: kmalloc_def sz p1_def)
  moreover have "for_find (\<lambda>i. rd_opened (bq demo_open i) = 0 \<and> wr_opened (bq demo_open i) = 0) 0 NR_PIPE = Some 3"
    by (auto simp: for_find_Some_iff demo_open_def zero_bq_def NR_PIPE_def)
  ultimately show ?thesis
    by (auto simp: eeos_pipe_create_def env_kmalloc_def MIN_PIPE_NO_def zero_bq_def)
qed

theorem pipe_semaphore_index_witness:
  "\<exists>g' e'. eeos_pipe_create demo_open demo_env = Some (0, Some (9, 10), g', e') \<and>
     eeos_pipe_read 9 0x100 1 g' e' = Some (Fg_out_of_bounds 9, g', e')"
proof -
  obtain g' e' where c: "eeos_pipe_create demo_open demo_env = Some (0, Some (9, 10), g', e')"
    using demo_create by blast
  have "(0x100 :: u32) \<noteq> 0" "(1 :: int) \<noteq> 0" by simp_all
  with pipe_semaphore_index [OF c] c show ?thesis by fastforce
qed

end
