(* ===== verification/Page.thy ===== *)
theory Page
  imports CString
begin

text \<open>
  Paging: \<^verbatim>\<open>page.c\<close> and \<^verbatim>\<open>include/page.h\<close>. The page directory and the tables are words of
  the flat memory; \<open>mmu_translate\<close> is how the processor reads them. \<open>page_map_all\<close> builds an
  identity mapping of the whole address space, which the theorems confirm, and
  \<open>get_physaddr\<close> and \<open>map_page\<close> address the tables one page too low.
\<close>

section \<open>Constants and state\<close>

definition PAGE_DIR :: u32 where "PAGE_DIR = 0x400000"
definition PAGE_TABLE_ADDR :: u32 where "PAGE_TABLE_ADDR = 0x401000"
definition PAGE_SIZE :: u32 where "PAGE_SIZE = 0x1000"
definition PAGE_P :: u32 where "PAGE_P = 1"
definition PAGE_RWW :: u32 where "PAGE_RWW = 2"
definition PAGE_USU :: u32 where "PAGE_USU = 4"

lemmas page_consts = PAGE_DIR_def PAGE_TABLE_ADDR_def PAGE_SIZE_def PAGE_P_def PAGE_RWW_def PAGE_USU_def

definition page_flags :: u32 where "page_flags = PAGE_P OR PAGE_USU OR PAGE_RWW"

section \<open>Operations\<close>

definition table_addr :: "nat \<Rightarrow> u32" where
  "table_addr k = PAGE_TABLE_ADDR + PAGE_SIZE + of_nat k * PAGE_SIZE"

text \<open>The inner loop fills one table from index \<open>i\<close> on; it also returns the next address.\<close>

function fill_table :: "u32 \<Rightarrow> nat \<Rightarrow> u32 \<Rightarrow> mem \<Rightarrow> u32 \<times> mem" where
  "fill_table page_table i a m =
     (if i < 1024
      then fill_table page_table (Suc i) (a + PAGE_SIZE) (store32 m (page_table + 4 * of_nat i) (a OR page_flags))
      else (a, m))"
  by pat_completeness auto
termination
  by (relation "measure (\<lambda>(p, i, a, m). 1024 - i)") auto

declare fill_table.simps [simp del]

function map_tables :: "nat \<Rightarrow> u32 \<Rightarrow> mem \<Rightarrow> mem" where
  "map_tables k a m =
     (if k < 1024
      then let pde = PAGE_DIR + 4 * of_nat k;
               m1 = store32 m pde (table_addr k);
               m2 = store32 m1 pde (load32 m1 pde OR page_flags)
           in case fill_table (table_addr k) 0 a m2 of (a', m3) \<Rightarrow> map_tables (Suc k) a' m3
      else m)"
  by pat_completeness auto
termination
  by (relation "measure (\<lambda>(k, a, m). 1024 - k)") auto

declare map_tables.simps [simp del]

definition page_map_all :: "mem \<Rightarrow> mem" where
  "page_map_all m = map_tables 0 0 m"

text \<open>
  \<^verbatim>\<open>page_init\<close>: the registers cr3 and cr0 afterwards, and the memory; the counts it computes from
  an uninitialised variable are not used.
\<close>

definition page_init :: "u32 \<Rightarrow> mem \<Rightarrow> u32 \<times> u32 \<times> mem" where
  "page_init cr0 m = (PAGE_DIR, cr0 OR 0x80000000, page_map_all m)"

definition get_physaddr :: "mem \<Rightarrow> u32 \<Rightarrow> u32" where
  "get_physaddr m v =
     (let pdindex = drop_bit 22 v; ptindex = drop_bit 12 v AND 0x03FF;
          pt = PAGE_TABLE_ADDR + 4 * (0x400 * pdindex)
      in (load32 m (pt + 4 * ptindex) AND NOT 0xFFF) + (v AND 0xFFF))"

definition map_page :: "u32 \<Rightarrow> u32 \<Rightarrow> u32 \<Rightarrow> mem \<Rightarrow> mem" where
  "map_page p v flags m =
     (let pdindex = drop_bit 22 v; ptindex = drop_bit 12 v AND 0x03FF;
          pt = PAGE_TABLE_ADDR + 4 * (0x400 * pdindex)
      in store32 m (pt + 4 * ptindex) (p OR (flags AND 0xFFF) OR 0x01))"

section \<open>The processor's translation\<close>

text \<open>Two-level translation: \<open>None\<close> is a page fault.\<close>

definition mmu_translate :: "mem \<Rightarrow> u32 \<Rightarrow> u32 \<Rightarrow> u32 option" where
  "mmu_translate m cr3 v =
     (let pde = load32 m (cr3 + 4 * drop_bit 22 v);
          pte = load32 m ((pde AND NOT 0xFFF) + 4 * (drop_bit 12 v AND 0x3FF))
      in if bit pde 0 \<and> bit pte 0 then Some ((pte AND NOT 0xFFF) + (v AND 0xFFF)) else None)"

section \<open>Addresses as numbers\<close>

definition entry :: "nat \<Rightarrow> nat \<Rightarrow> u32" where
  "entry k i = of_nat (0x402000 + 4096 * k + 4 * i)"

definition dir_entry :: "nat \<Rightarrow> u32" where
  "dir_entry k = of_nat (0x400000 + 4 * k)"

lemma entry_alt: "table_addr k + 4 * of_nat i = entry k i" "PAGE_DIR + 4 * of_nat k = dir_entry k"
  by (simp_all add: table_addr_def entry_def dir_entry_def page_consts algebra_simps)

lemma aligned_of_nat: "n < 4294967296 \<Longrightarrow> n mod 4 = 0 \<Longrightarrow> aligned4 (of_nat n)"
  by (simp add: aligned4_def unat_of_nat_u32)

lemma entry_aligned [simp]: "k < 1024 \<Longrightarrow> i < 1024 \<Longrightarrow> aligned4 (entry k i)"
  and dir_entry_aligned [simp]: "k < 1024 \<Longrightarrow> aligned4 (dir_entry k)"
  unfolding entry_def dir_entry_def by (rule aligned_of_nat; simp; presburger)+

lemma digits_unique:
  fixes i j k l :: nat
  assumes "1024 * k + i = 1024 * l + j" and "i < 1024" and "j < 1024"
  shows "k = l \<and> i = j"
proof -
  have "(1024 * k + i) div 1024 = k" "(1024 * l + j) div 1024 = l" using assms(2,3) by simp_all
  with assms(1) have "k = l" by metis
  with assms(1) show ?thesis by simp
qed

lemma entry_eq_iff:
  assumes "k < 1024" "i < 1024" "l < 1024" "j < 1024"
  shows "entry k i = entry l j \<longleftrightarrow> k = l \<and> i = j"
proof -
  have "entry k i = entry l j \<longleftrightarrow> 0x402000 + 4096 * k + 4 * i = 0x402000 + 4096 * l + 4 * j"
    unfolding entry_def by (rule of_nat_u32_eq_iff) (use assms in simp_all)
  also have "\<dots> \<longleftrightarrow> 1024 * k + i = 1024 * l + j" by linarith
  also have "\<dots> \<longleftrightarrow> k = l \<and> i = j" using digits_unique assms by auto
  finally show ?thesis .
qed

lemma dir_entry_eq_iff: "k < 1024 \<Longrightarrow> l < 1024 \<Longrightarrow> dir_entry k = dir_entry l \<longleftrightarrow> k = l"
  unfolding dir_entry_def by (subst of_nat_u32_eq_iff) simp_all

lemma entry_neq_dir:
  assumes "k < 1024" "i < 1024" "l < 1024"
  shows "entry k i \<noteq> dir_entry l"
proof -
  have "entry k i = dir_entry l \<longleftrightarrow> 0x402000 + 4096 * k + 4 * i = 0x400000 + 4 * l"
    unfolding entry_def dir_entry_def by (rule of_nat_u32_eq_iff) (use assms in simp_all)
  with assms show ?thesis by linarith
qed

section \<open>What the loops write\<close>

lemma fill_table_spec:
  assumes "i \<le> 1024" and "k < 1024"
  shows "\<exists>m'. fill_table (table_addr k) i a m = (a + of_nat (4096 * (1024 - i)), m') \<and>
    (\<forall>j. i \<le> j \<and> j < 1024 \<longrightarrow> load32 m' (entry k j) = (a + of_nat (4096 * (j - i))) OR page_flags) \<and>
    (\<forall>b. aligned4 b \<and> (\<forall>j. i \<le> j \<and> j < 1024 \<longrightarrow> b \<noteq> entry k j) \<longrightarrow> load32 m' b = load32 m b)"
  using assms(1)
proof (induction "1024 - i" arbitrary: i a m)
  case 0
  then have "i = 1024" by simp
  then show ?case by (intro exI [of _ m]) (auto simp: fill_table.simps [of "table_addr k" 1024])
next
  case (Suc n)
  then have i: "i < 1024" by simp
  let ?m = "store32 m (entry k i) (a OR page_flags)"
  have h: "n = 1024 - Suc i" "Suc i \<le> 1024" using Suc.hyps(2) i by simp_all
  obtain m' where
    run: "fill_table (table_addr k) (Suc i) (a + PAGE_SIZE) ?m = (a + PAGE_SIZE + of_nat (4096 * (1024 - Suc i)), m')"
    and new: "\<And>j. Suc i \<le> j \<Longrightarrow> j < 1024 \<Longrightarrow>
      load32 m' (entry k j) = (a + PAGE_SIZE + of_nat (4096 * (j - Suc i))) OR page_flags"
    and old: "\<And>b. aligned4 b \<Longrightarrow> (\<forall>j. Suc i \<le> j \<and> j < 1024 \<longrightarrow> b \<noteq> entry k j) \<Longrightarrow> load32 m' b = load32 ?m b"
    using Suc.hyps(1) [OF h, of "a + PAGE_SIZE" ?m] by blast
  have step: "PAGE_SIZE + of_nat (4096 * (j - Suc i)) = (of_nat (4096 * (j - i)) :: u32)" if "Suc i \<le> j" for j
  proof -
    have "j - i = Suc (j - Suc i)" using that by simp
    then show ?thesis by (simp add: page_consts)
  qed
  have "fill_table (table_addr k) i a m = fill_table (table_addr k) (Suc i) (a + PAGE_SIZE) ?m"
    using i by (simp add: fill_table.simps [of "table_addr k" i] entry_alt)
  also note run
  also have "a + PAGE_SIZE + of_nat (4096 * (1024 - Suc i)) = a + of_nat (4096 * (1024 - i))"
    using step [of 1024] i by (metis Suc_leI add.assoc)
  finally have "fill_table (table_addr k) i a m = (a + of_nat (4096 * (1024 - i)), m')" .
  moreover have "load32 m' (entry k j) = (a + of_nat (4096 * (j - i))) OR page_flags" if j: "i \<le> j" "j < 1024" for j
  proof (cases "j = i")
    case True
    have "load32 m' (entry k i) = load32 ?m (entry k i)"
      by (rule old) (use i assms(2) in \<open>auto simp: entry_eq_iff\<close>)
    then show ?thesis using True by (simp add: load32_store32_same)
  next
    case False
    then have "Suc i \<le> j" using j by simp
    then show ?thesis using new [OF _ j(2)] step by (metis add.assoc)
  qed
  moreover have "load32 m' b = load32 m b"
    if b: "aligned4 b" "\<forall>j. i \<le> j \<and> j < 1024 \<longrightarrow> b \<noteq> entry k j" for b
  proof -
    have "load32 m' b = load32 ?m b" using old [OF b(1)] b(2) by simp
    moreover have "entry k i \<noteq> b" using b(2) i by auto
    ultimately show ?thesis using b(1) i assms(2) by (simp add: load32_store32_other)
  qed
  ultimately show ?case by blast
qed

definition mapped_from :: "nat \<Rightarrow> mem \<Rightarrow> bool" where
  "mapped_from k m \<longleftrightarrow> (\<forall>l. k \<le> l \<and> l < 1024 \<longrightarrow>
     load32 m (dir_entry l) = entry l 0 OR page_flags \<and>
     (\<forall>i<1024. load32 m (entry l i) = of_nat (4096 * (1024 * l + i)) OR page_flags))"

lemma map_tables_spec:
  assumes "k \<le> 1024"
  shows "mapped_from k (map_tables k (of_nat (4096 * (1024 * k))) m) \<and>
    (\<forall>b. aligned4 b \<and> (\<forall>l. k \<le> l \<and> l < 1024 \<longrightarrow> b \<noteq> dir_entry l \<and> (\<forall>i<1024. b \<noteq> entry l i)) \<longrightarrow>
       load32 (map_tables k (of_nat (4096 * (1024 * k))) m) b = load32 m b)"
  using assms
proof (induction "1024 - k" arbitrary: k m)
  case 0
  then have "k = 1024" by simp
  then show ?case by (auto simp: map_tables.simps [of 1024] mapped_from_def)
next
  case (Suc n)
  then have k: "k < 1024" by simp
  let ?a = "of_nat (4096 * (1024 * k)) :: u32"
  let ?m1 = "store32 m (dir_entry k) (table_addr k)"
  let ?m2 = "store32 ?m1 (dir_entry k) (table_addr k OR page_flags)"
  obtain m3 where f: "fill_table (table_addr k) 0 ?a ?m2 = (?a + of_nat (4096 * 1024), m3)"
    and new: "\<And>j. j < 1024 \<Longrightarrow> load32 m3 (entry k j) = (?a + of_nat (4096 * j)) OR page_flags"
    and old: "\<And>b. aligned4 b \<Longrightarrow> (\<forall>j<1024. b \<noteq> entry k j) \<Longrightarrow> load32 m3 b = load32 ?m2 b"
    using fill_table_spec [of 0 k ?a ?m2] k by auto
  let ?r = "map_tables (Suc k) (of_nat (4096 * (1024 * Suc k))) m3"
  have run: "map_tables k ?a m = ?r"
    using k f by (subst map_tables.simps) (simp add: Let_def entry_alt load32_store32_same add.commute)
  have IH: "mapped_from (Suc k) ?r"
    and IHf: "\<And>b. aligned4 b \<Longrightarrow> (\<forall>l. Suc k \<le> l \<and> l < 1024 \<longrightarrow> b \<noteq> dir_entry l \<and> (\<forall>i<1024. b \<noteq> entry l i))
      \<Longrightarrow> load32 ?r b = load32 m3 b"
    using Suc.hyps(1) [of "Suc k" m3] Suc.hyps(2) k by auto
  have t0: "table_addr k = entry k 0" using entry_alt(1) [of k 0] by simp
  have "load32 ?r (dir_entry k) = load32 m3 (dir_entry k)"
    using k by (intro IHf) (auto simp: dir_entry_eq_iff entry_neq_dir [symmetric])
  also have "\<dots> = load32 ?m2 (dir_entry k)"
    using k by (intro old) (auto simp: entry_neq_dir [symmetric])
  finally have dir: "load32 ?r (dir_entry k) = entry k 0 OR page_flags"
    by (simp add: load32_store32_same t0)
  have tab: "load32 ?r (entry k i) = of_nat (4096 * (1024 * k + i)) OR page_flags" if i: "i < 1024" for i
  proof -
    have "load32 ?r (entry k i) = load32 m3 (entry k i)"
      using k i by (intro IHf) (auto simp: entry_eq_iff entry_neq_dir)
    then show ?thesis using new [OF i] by (simp add: algebra_simps)
  qed
  have "mapped_from k (map_tables k ?a m)"
    unfolding run mapped_from_def
  proof (intro allI impI)
    fix l assume "k \<le> l \<and> l < 1024"
    then show "load32 ?r (dir_entry l) = entry l 0 OR page_flags \<and>
      (\<forall>i<1024. load32 ?r (entry l i) = of_nat (4096 * (1024 * l + i)) OR page_flags)"
      using dir tab IH by (cases "l = k") (simp_all add: mapped_from_def)
  qed
  moreover have "load32 ?r b = load32 m b"
    if b: "aligned4 b" "\<forall>l. k \<le> l \<and> l < 1024 \<longrightarrow> b \<noteq> dir_entry l \<and> (\<forall>i<1024. b \<noteq> entry l i)" for b
  proof -
    have "load32 ?r b = load32 m3 b" by (rule IHf [OF b(1)]) (use b(2) in auto)
    also have "\<dots> = load32 ?m2 b" by (rule old [OF b(1)]) (use b(2) k in auto)
    also have "\<dots> = load32 m b"
    proof -
      have "dir_entry k \<noteq> b" using b(2) k by auto
      with b(1) k show ?thesis by (simp add: load32_store32_other)
    qed
    finally show ?thesis .
  qed
  ultimately show ?case unfolding run by blast
qed

section \<open>Splitting an address\<close>

lemma page_masks: "(0xFFF :: u32) = mask 12" "(0x3FF :: u32) = mask 10" "(7 :: u32) = mask 3"
  by (simp_all add: mask_eq_exp_minus_1)

lemma page_flags_7: "page_flags = 7"
  by (simp add: page_flags_def page_consts)

lemma clear_flags: "(of_nat (4096 * n) OR page_flags) AND NOT 0xFFF = (of_nat (4096 * n) :: u32)"
proof -
  have "of_nat (4096 * n) = (push_bit 12 (of_nat n) :: u32)" by (simp add: push_bit_eq_mult)
  then show ?thesis
    unfolding page_flags_7 page_masks by (auto intro!: bit_word_eqI simp: bit_simps simp del: of_nat_mult)
qed

lemma flags_present: "bit (x OR page_flags) 0"
  by (simp add: page_flags_7 bit_simps page_masks)

lemma entry_0: "entry l 0 = of_nat (4096 * (0x402 + l))"
  by (simp add: entry_def)

definition pd_index :: "u32 \<Rightarrow> nat" where "pd_index v = unat v div 4194304"
definition pt_index :: "u32 \<Rightarrow> nat" where "pt_index v = unat v div 4096 mod 1024"

lemma index_bounds: "pd_index v < 1024" "pt_index v < 1024"
  using unat_lt_u32 [of v] by (simp_all add: pd_index_def pt_index_def)

lemma pd_index_word: "drop_bit 22 v = of_nat (pd_index v)"
proof -
  have "unat v div 4194304 = unat (v div 4194304)" by (simp add: unat_div)
  then show ?thesis unfolding pd_index_def by (simp add: drop_bit_eq_div)
qed

lemma pt_index_word: "drop_bit 12 v AND 0x3FF = of_nat (pt_index v)"
proof -
  have "unat v div 4096 mod 1024 = unat (v div 4096 mod 1024)" by (simp add: unat_div unat_mod)
  then show ?thesis unfolding pt_index_def page_masks
    by (simp add: drop_bit_eq_div take_bit_eq_mod flip: take_bit_eq_mask)
qed

lemma page_offset_word: "(v :: u32) AND 0xFFF = of_nat (unat v mod 4096)"
proof -
  have "unat v mod 4096 = unat (v mod 4096)" by (simp add: unat_mod)
  then show ?thesis unfolding page_masks by (simp add: take_bit_eq_mod flip: take_bit_eq_mask)
qed

lemma split_address: "of_nat (4096 * (1024 * pd_index v + pt_index v)) + (v AND 0xFFF) = v"
proof -
  have "4096 * (1024 * pd_index v + pt_index v) + unat v mod 4096 = unat v"
  proof -
    have "unat v div 4194304 = unat v div 4096 div 1024" by (simp flip: div_mult2_eq)
    then have "1024 * pd_index v + pt_index v = unat v div 4096"
      unfolding pd_index_def pt_index_def by simp
    then show ?thesis by simp
  qed
  then have "of_nat (4096 * (1024 * pd_index v + pt_index v) + unat v mod 4096) = (of_nat (unat v) :: u32)"
    by (rule arg_cong)
  then have "of_nat (4096 * (1024 * pd_index v + pt_index v) + unat v mod 4096) = v"
    by (simp only: of_nat_unat ucast_id)
  then show ?thesis unfolding page_offset_word by (simp only: of_nat_add)
qed

lemma mapped_all: "mapped_from 0 (page_map_all m)"
  and page_map_all_frame: "aligned4 b \<Longrightarrow> (\<forall>l<1024. b \<noteq> dir_entry l \<and> (\<forall>i<1024. b \<noteq> entry l i)) \<Longrightarrow>
    load32 (page_map_all m) b = load32 m b"
  using map_tables_spec [of 0 m] by (auto simp: page_map_all_def)

text \<open>How a mapped memory translates: the table entry that the page directory selects.\<close>

lemma mmu_translate_mapped:
  assumes "load32 m (dir_entry (pd_index v)) = entry (pd_index v) 0 OR page_flags"
    and "load32 m (entry (pd_index v) (pt_index v)) = pte"
  shows "mmu_translate m PAGE_DIR v = (if bit pte 0 then Some ((pte AND NOT 0xFFF) + (v AND 0xFFF)) else None)"
proof -
  have "(entry (pd_index v) 0 OR page_flags) AND NOT 0xFFF = entry (pd_index v) 0"
    unfolding entry_0 by (rule clear_flags)
  moreover have "entry l 0 + 4 * of_nat i = entry l i" for l i
    by (simp add: entry_def algebra_simps)
  ultimately show ?thesis
    using assms unfolding mmu_translate_def Let_def pd_index_word pt_index_word entry_alt
    by (simp add: flags_present)
qed

text \<open>The table word that \<open>get_physaddr\<close> and \<open>map_page\<close> address: one table below the one used.\<close>

definition kernel_entry :: "u32 \<Rightarrow> u32" where
  "kernel_entry v = of_nat (0x401000 + 4096 * pd_index v + 4 * pt_index v)"

lemma kernel_entry_alt:
  "PAGE_TABLE_ADDR + 4 * (0x400 * drop_bit 22 v) + 4 * (drop_bit 12 v AND 0x03FF) = kernel_entry v"
  unfolding pd_index_word pt_index_word kernel_entry_def by (simp add: page_consts algebra_simps)

lemma kernel_entry_below:
  assumes "0 < pd_index v"
  shows "kernel_entry v = entry (pd_index v - 1) (pt_index v)"
proof -
  obtain n where "pd_index v = Suc n" using assms gr0_implies_Suc by blast
  then show ?thesis by (simp add: kernel_entry_def entry_def algebra_simps)
qed

lemma get_physaddr_alt: "get_physaddr m v = (load32 m (kernel_entry v) AND NOT 0xFFF) + (v AND 0xFFF)"
  unfolding get_physaddr_def Let_def kernel_entry_alt ..

lemma map_page_alt: "map_page p v flags m = store32 m (kernel_entry v) (p OR (flags AND 0xFFF) OR 0x01)"
  unfolding map_page_def Let_def kernel_entry_alt ..

lemma pd_index_add:
  assumes "unat v + 4194304 < 4294967296"
  shows "pd_index (v + 0x400000) = Suc (pd_index v)" "pt_index (v + 0x400000) = pt_index v"
    "(v + 0x400000) AND 0xFFF = v AND 0xFFF"
proof -
  have "unat (v + 0x400000) = unat v + 4194304" using assms by (subst unat_add_nowrap) simp_all
  moreover have "(unat v + 4194304) div 4096 = unat v div 4096 + 1024"
    using div_mult_self1 [of 4096 "unat v" 1024] by simp
  moreover have "(unat v + 4194304) mod 4096 = unat v mod 4096"
    using mod_mult_self1 [of "unat v" 1024 4096] by simp
  ultimately show "pd_index (v + 0x400000) = Suc (pd_index v)" "pt_index (v + 0x400000) = pt_index v"
    "(v + 0x400000) AND 0xFFF = v AND 0xFFF"
    by (simp_all add: pd_index_def pt_index_def page_offset_word)
qed

text \<open>The mapping of the whole address space is the identity.\<close>

lemma page_map_all_identity: "mmu_translate (page_map_all m) PAGE_DIR v = Some v"
proof -
  have d: "load32 (page_map_all m) (dir_entry (pd_index v)) = entry (pd_index v) 0 OR page_flags"
    and e: "load32 (page_map_all m) (entry (pd_index v) (pt_index v)) =
      of_nat (4096 * (1024 * pd_index v + pt_index v)) OR page_flags"
    using mapped_all [of m] index_bounds [of v] by (simp_all add: mapped_from_def)
  show ?thesis
    unfolding mmu_translate_mapped [OF d e] clear_flags split_address by (simp add: flags_present)
qed

text \<open>Memory below the directory is not touched.\<close>

lemma page_map_all_below:
  assumes "unat x < 0x400000"
  shows "page_map_all m x = m x"
proof -
  define q r where "q = unat x div 4" and "r = unat x mod 4"
  define b :: u32 where "b = of_nat (4 * q)"
  have qr: "unat x = 4 * q + r" "r < 4" by (simp_all add: q_def r_def)
  have x: "x = b + of_nat r"
    using arg_cong [OF qr(1), of "of_nat :: nat \<Rightarrow> u32"] by (simp add: b_def)
  have u: "unat b = 4 * q" unfolding b_def by (rule unat_of_nat_u32) (use qr(1) assms in simp)
  have far: "b \<noteq> of_nat k" if "0x400000 \<le> k" "k < 4294967296" for k :: nat
    using that u qr(1) assms by (auto simp: unat_of_nat_u32)
  have "\<forall>l<1024. b \<noteq> dir_entry l \<and> (\<forall>i<1024. b \<noteq> entry l i)"
    unfolding dir_entry_def entry_def by (intro allI impI conjI far) simp_all
  then have e: "load32 (page_map_all m) b = load32 m b"
    using u by (intro page_map_all_frame) (simp_all add: aligned4_def)
  have "r = 0 \<or> r = 1 \<or> r = 2 \<or> r = 3" using qr(2) by linarith
  then show ?thesis
    using load32_bytes [of m b, folded e] load32_bytes [of "page_map_all m" b] by (auto simp: x)
qed

text \<open>An empty directory maps nothing.\<close>

lemma empty_directory:
  assumes "\<And>l. l < 1024 \<Longrightarrow> load32 m (dir_entry l) = 0"
  shows "mmu_translate m PAGE_DIR v = None"
  unfolding mmu_translate_def Let_def pd_index_word entry_alt using assms [OF index_bounds(1)] by simp

section \<open>Properties\<close>

text \<open>
  \<open>page_init\<close> establishes an identity mapping: with the page directory register it
  loads, every one of the \<open>2^32\<close> addresses translates to itself, and paging is switched on.
\<close>

theorem page_init_identity:
  "\<exists>m'. page_init cr0 m = (PAGE_DIR, cr0 OR 0x80000000, m') \<and> (\<forall>v. mmu_translate m' PAGE_DIR v = Some v)"
  by (simp add: page_init_def page_map_all_identity)

text \<open>
  \<open>get_physaddr\<close> does not answer the translation: on the mapping \<open>page_map_all\<close> builds,
  the answer for every address from 4 MB on is the address less 4 MB, because it reads the table
  before the one the page directory points to.
\<close>

theorem get_physaddr_shifted:
  assumes "0x400000 \<le> v"
  shows "get_physaddr (page_map_all m) v = v - 0x400000 \<and> mmu_translate (page_map_all m) PAGE_DIR v \<noteq>
    Some (get_physaddr (page_map_all m) v)"
proof -
  let ?u = "v - 0x400000"
  have u: "unat ?u + 4194304 < 4294967296" "?u + 0x400000 = v"
    using unat_sub_nowrap [of "0x400000" v] assms unat_lt_u32 [of v] by (simp_all add: word_le_nat_alt)
  note ix = pd_index_add [OF u(1), unfolded u(2)]
  have k: "kernel_entry v = entry (pd_index ?u) (pt_index ?u)"
    using kernel_entry_below [of v] ix by simp
  have e: "load32 (page_map_all m) (entry (pd_index ?u) (pt_index ?u)) =
      of_nat (4096 * (1024 * pd_index ?u + pt_index ?u)) OR page_flags"
    using mapped_all [of m] index_bounds [of ?u] by (simp add: mapped_from_def)
  have g: "get_physaddr (page_map_all m) v = ?u"
    unfolding get_physaddr_alt k e clear_flags ix(3) by (rule split_address)
  then show ?thesis by (simp add: page_map_all_identity)
qed

theorem get_physaddr_shifted_witness: "get_physaddr (page_map_all (\<lambda>_. 0)) 0xfd0000 = 0xbd0000"
  using get_physaddr_shifted [of "0xfd0000" "\<lambda>_. 0"] by simp

text \<open>
  \<open>map_page\<close> maps the wrong page: after mapping an address from 4 MB on to a page
  frame, the address still translates to itself, and it is the address 4 MB \<^emph>\<open>below\<close> whose
  translation has become the frame.
\<close>

theorem map_page_maps_below:
  assumes "0x400000 \<le> v" and "p AND 0xFFF = 0"
  shows "mmu_translate (map_page p v flags (page_map_all m)) PAGE_DIR v = Some v \<and>
    mmu_translate (map_page p v flags (page_map_all m)) PAGE_DIR (v - 0x400000) =
      Some (p + (v AND 0xFFF))"
proof -
  let ?u = "v - 0x400000" and ?f = "p OR (flags AND 0xFFF) OR 0x01"
  let ?m = "map_page p v flags (page_map_all m)"
  have u: "unat ?u + 4194304 < 4294967296" "?u + 0x400000 = v"
    using unat_sub_nowrap [of "0x400000" v] assms unat_lt_u32 [of v] by (simp_all add: word_le_nat_alt)
  note ix = pd_index_add [OF u(1), unfolded u(2)]
  have k: "kernel_entry v = entry (pd_index ?u) (pt_index ?u)"
    using kernel_entry_below [of v] ix by simp
  have m: "?m = store32 (page_map_all m) (entry (pd_index ?u) (pt_index ?u)) ?f"
    by (simp add: map_page_alt k)
  have al: "aligned4 (entry (pd_index ?u) (pt_index ?u))" by (simp add: index_bounds)
  have other: "load32 ?m b = load32 (page_map_all m) b"
    if "aligned4 b" "entry (pd_index ?u) (pt_index ?u) \<noteq> b" for b
    using load32_store32_other [OF al that] by (simp add: m)
  have d: "load32 ?m (dir_entry l) = entry l 0 OR page_flags" if "l < 1024" for l
    using other [of "dir_entry l"] mapped_all [of m] that index_bounds [of ?u] entry_neq_dir
    by (simp add: mapped_from_def)
  have e: "load32 ?m (entry (pd_index v) (pt_index v)) =
      of_nat (4096 * (1024 * pd_index v + pt_index v)) OR page_flags"
    using other [of "entry (pd_index v) (pt_index v)"] mapped_all [of m] index_bounds [of v]
      index_bounds [of ?u] ix by (simp add: mapped_from_def entry_eq_iff)
  have eu: "load32 ?m (entry (pd_index ?u) (pt_index ?u)) = ?f"
    by (simp add: m load32_store32_same)
  have "mmu_translate ?m PAGE_DIR v = Some v"
    unfolding mmu_translate_mapped [OF d [OF index_bounds(1)] e] clear_flags split_address
    by (simp add: flags_present)
  moreover have "?f AND NOT 0xFFF = p"
  proof -
    have "\<not> bit p n" if "n < 12" for n
      using arg_cong [OF assms(2), of "\<lambda>w. bit w n"] that by (simp add: page_masks bit_simps)
    then show ?thesis unfolding page_masks by (auto intro!: bit_word_eqI simp: bit_simps)
  qed
  moreover have "bit ?f 0" by (simp add: bit_simps)
  ultimately show ?thesis
    using mmu_translate_mapped [OF d [OF index_bounds(1)] eu] ix(3) by simp
qed

theorem map_page_maps_below_witness:
  "mmu_translate (map_page 0xee0000 0xfd0000 6 (page_map_all (\<lambda>_. 0))) PAGE_DIR 0xbd0000 = Some 0xee0000"
  using map_page_maps_below [of "0xfd0000" "0xee0000" 6 "\<lambda>_. 0"] by simp

end
