(* ===== verification/Interrupt.thy ===== *)
theory Interrupt
  imports Task
begin

text \<open>
  Interrupt set-up: \<^verbatim>\<open>interrupt.c\<close>, \<^verbatim>\<open>syscall.c\<close>, \<^verbatim>\<open>include/isr.h\<close>. The descriptor table
  is a function from vectors to 64-bit gates; the assembly entry points (\<^verbatim>\<open>isr\<close>,
  \<^verbatim>\<open>default_isr\<close>) and the address of \<open>syscall_isr\<close> are parameters. Port output is a list of
  (value, port) pairs in program order. The specification side decodes a gate the way the
  processor does and runs the port writes through a model of the two interrupt controllers.
\<close>

section \<open>Gates\<close>

definition VALID_ISR :: nat where "VALID_ISR = 46 + 2"
definition CODE_SEL :: u64 where "CODE_SEL = 0x08"

definition gate_base :: u64 where
  "gate_base = 0x00008e0000000000 OR push_bit 16 CODE_SEL"

definition isr_gate :: "u64 \<Rightarrow> u64" where
  "isr_gate offset = gate_base
     OR (push_bit 32 offset AND 0xffff000000000000) OR (offset AND 0xffff)"

definition isr_entry :: "nat \<Rightarrow> u64 \<Rightarrow> (nat \<Rightarrow> u64) \<Rightarrow> nat \<Rightarrow> u64" where
  "isr_entry i offset idt = idt(i := isr_gate offset)"

text \<open>\<^verbatim>\<open>for (; i < n; ++i) isr_entry(i, f(i))\<close>\<close>

function install_from :: "nat \<Rightarrow> nat \<Rightarrow> (nat \<Rightarrow> u32) \<Rightarrow> (nat \<Rightarrow> u64) \<Rightarrow> nat \<Rightarrow> u64" where
  "install_from i n f idt =
     (if i < n then install_from (Suc i) n f (isr_entry i (ucast (f i)) idt) else idt)"
  by pat_completeness auto
termination
  by (relation "measure (\<lambda>(i, n, f, idt). n - i)") auto

declare install_from.simps [simp del]

text \<open>After the first loop the index is \<open>VALID_ISR\<close>; the second starts with \<^verbatim>\<open>++i\<close>.\<close>

definition idt_install :: "(nat \<Rightarrow> u32) \<Rightarrow> u32 \<Rightarrow> (nat \<Rightarrow> u64) \<Rightarrow> nat \<Rightarrow> u64" where
  "idt_install isr default_isr idt =
     (let idt1 = install_from 0 VALID_ISR (\<lambda>i. isr (2 * i + 1)) idt; i = VALID_ISR
      in install_from (Suc i) 256 (\<lambda>_. default_isr) idt1)"

definition syscall_init :: "u32 \<Rightarrow> (nat \<Rightarrow> u64) \<Rightarrow> nat \<Rightarrow> u64" where
  "syscall_init syscall_isr idt = install_from (46 + 2) 256 (\<lambda>_. syscall_isr) idt"

section \<open>Descriptor table and controllers\<close>

definition ATTRIB_CE :: u16 where "ATTRIB_CE = 0x98"
definition ATTRIB_DRW :: u16 where "ATTRIB_DRW = 0x92"
definition ATTRIB_32 :: u16 where "ATTRIB_32 = 0x4000"
definition ATTRIB_LIMIT4K :: u16 where "ATTRIB_LIMIT4K = 0x8000"
definition GDT_SIZE :: u16 where "GDT_SIZE = 8 * 5"

text \<open>The limit given to \<^verbatim>\<open>lgdt\<close>, and the table.\<close>

definition gdt_install :: "kstate \<Rightarrow> u16 \<times> kstate" where
  "gdt_install s = (GDT_SIZE,
     set_gdt_des 2 (ATTRIB_DRW + ATTRIB_32 + ATTRIB_LIMIT4K) 0 0xffff
       (set_gdt_des 1 (ATTRIB_CE + ATTRIB_32 + ATTRIB_LIMIT4K) 0 0xffff
         (set_gdt_des 0 0 0 0x68 s)))"

definition pic_install :: "(u8 \<times> u16) list" where
  "pic_install = [(0x11, 0x20), (0x11, 0xa0), (0x20, 0x21), (0x28, 0xa1), (0x04, 0x21), (0x02, 0xa1),
     (0x01, 0x21), (0x01, 0xa1), (0xff, 0x21), (0xff, 0xa1)]"

section \<open>Specification: gates and interrupt controllers\<close>

definition gate_offset :: "u64 \<Rightarrow> u32" where
  "gate_offset g = ucast ((g AND 0xffff) OR (drop_bit 32 g AND 0xffff0000))"

definition gate_selector :: "u64 \<Rightarrow> u16" where "gate_selector g = ucast (drop_bit 16 g)"
definition gate_attributes :: "u64 \<Rightarrow> u8" where "gate_attributes g = ucast (drop_bit 40 g)"

text \<open>
  One interrupt controller: how many initialisation words it still expects, the vector of its first
  line and its mask. A command with bit 4 starts an initialisation of three more words.
\<close>

record pic =
  icw_left :: nat
  base :: u8
  imr :: u8

definition pic_command :: "u8 \<Rightarrow> pic \<Rightarrow> pic" where
  "pic_command v p = (if bit v 4 then p\<lparr>icw_left := 3\<rparr> else p)"

definition pic_data :: "u8 \<Rightarrow> pic \<Rightarrow> pic" where
  "pic_data v p = (if icw_left p = 0 then p\<lparr>imr := v\<rparr>
     else if icw_left p = 3 then p\<lparr>icw_left := 2, base := v\<rparr> else p\<lparr>icw_left := icw_left p - 1\<rparr>)"

fun pic_write :: "u8 \<times> u16 \<Rightarrow> pic \<times> pic \<Rightarrow> pic \<times> pic" where
  "pic_write (v, port) (m, s) =
     (if port = 0x20 then (pic_command v m, s) else if port = 0x21 then (pic_data v m, s)
      else if port = 0xa0 then (m, pic_command v s) else if port = 0xa1 then (m, pic_data v s)
      else (m, s))"

section \<open>Facts\<close>

lemma gate_masks:
  "(0xffff000000000000 :: u64) = push_bit 48 (mask 16)" "(0xffff :: u64) = mask 16"
  "(0xffff0000 :: u64) = push_bit 16 (mask 16)"
  by (simp_all add: mask_eq_exp_minus_1 push_bit_eq_mult)

text \<open>The constant parts of a gate, away from the offset bits.\<close>

lemma gate_const_bits:
  "n < 16 \<Longrightarrow> \<not> bit gate_base n" "48 \<le> n \<Longrightarrow> \<not> bit gate_base n"
  by (rule take_bit_0_bits [of 16], simp add: gate_base_def CODE_SEL_def, assumption)
    (rule drop_bit_0_bits [of 48], simp add: gate_base_def CODE_SEL_def, assumption)

lemma isr_gate_bits:
  "bit (isr_gate (ucast a)) n \<longleftrightarrow> n < 64 \<and>
     (if n < 16 then bit (a :: u32) n else if 48 \<le> n then bit a (n - 32)
      else bit gate_base n)"
proof -
  have "bit (isr_gate (ucast a)) n \<longleftrightarrow> bit gate_base n \<or>
      bit (push_bit 32 (ucast a :: u64) AND 0xffff000000000000) n \<or> bit ((ucast a :: u64) AND 0xffff) n"
    by (simp add: isr_gate_def bit_or_iff)
  then show ?thesis
    using gate_const_bits [of n] unfolding gate_masks
    by (auto simp: bit_push_bit_iff bit_and_iff bit_mask_iff bit_ucast_iff dest: bit_imp_le_length)
qed

lemma gate_offset_isr [simp]: "gate_offset (isr_gate (ucast a)) = a"
proof (rule bit_word_eqI)
  fix n assume "n < LENGTH(32)"
  then consider "n < 16" | "16 \<le> n" "n < 32" by fastforce
  then show "bit (gate_offset (isr_gate (ucast a))) n = bit a n"
    unfolding gate_offset_def gate_masks
    by cases (auto simp: bit_ucast_iff bit_or_iff bit_and_iff bit_mask_iff bit_drop_bit_eq bit_push_bit_iff
        isr_gate_bits)
qed

lemma gate_fields_isr [simp]:
  "gate_selector (isr_gate (ucast (a :: u32))) = 0x08" "gate_attributes (isr_gate (ucast a)) = 0x8e"
proof -
  have "gate_selector (isr_gate (ucast a)) = gate_selector gate_base"
    unfolding gate_selector_def
    by (rule bit_word_eqI) (auto simp: bit_ucast_iff bit_drop_bit_eq isr_gate_bits)
  then show "gate_selector (isr_gate (ucast a)) = 0x08"
    by (simp add: gate_selector_def gate_base_def CODE_SEL_def)
  have "gate_attributes (isr_gate (ucast a)) = gate_attributes gate_base"
    unfolding gate_attributes_def
    by (rule bit_word_eqI) (auto simp: bit_ucast_iff bit_drop_bit_eq isr_gate_bits)
  then show "gate_attributes (isr_gate (ucast a)) = 0x8e"
    by (simp add: gate_attributes_def gate_base_def CODE_SEL_def)
qed

lemma install_from_at:
  "install_from i n f idt v = (if i \<le> v \<and> v < n then isr_gate (ucast (f v)) else idt v)"
proof (induction i n f idt rule: install_from.induct)
  case (1 i n f idt)
  show ?case
  proof (cases "i < n")
    case True
    then have "install_from i n f idt v = install_from (Suc i) n f (isr_entry i (ucast (f i)) idt) v"
      by (simp add: install_from.simps [of i n])
    also note 1 [OF True]
    finally show ?thesis using True by (auto simp: isr_entry_def)
  next
    case False
    then show ?thesis by (auto simp: install_from.simps [of i n])
  qed
qed

section \<open>Properties\<close>

text \<open>
  After \<open>idt_install\<close> every vector except 48 holds a present 32-bit interrupt gate of
  the kernel code segment to its handler; vector 48 is skipped and keeps its old content, until
  \<open>syscall_init\<close>, which points it and all later vectors to \<open>syscall_isr\<close>.
\<close>

theorem interrupt_gates:
  assumes "v < 256"
  shows "let t = idt_install isr d idt; u = syscall_init sc t in
    (if v = 48 then t v = idt v
     else gate_offset (t v) = (if v < 48 then isr (2 * v + 1) else d) \<and> gate_selector (t v) = 8 \<and>
       gate_attributes (t v) = 0x8e) \<and>
    gate_offset (u v) = (if v < 48 then isr (2 * v + 1) else sc) \<and> gate_selector (u v) = 8 \<and>
    gate_attributes (u v) = 0x8e"
  using assms by (auto simp: idt_install_def syscall_init_def VALID_ISR_def install_from_at Let_def)

theorem interrupt_gates_witness:
  "idt_install (\<lambda>i. of_nat i) 7 (\<lambda>_. 0) 48 = 0 \<and>
   gate_offset (syscall_init 9 (idt_install (\<lambda>i. of_nat i) 7 (\<lambda>_. 0)) 48) = 9"
  using interrupt_gates [of 48 "\<lambda>i. of_nat i" 7 "\<lambda>_. 0" 9] by (simp add: Let_def)

text \<open>
  The controllers: whatever their state, the writes of \<open>pic_install\<close> leave the first
  one at vectors from 0x20 and the second from 0x28, both initialised and fully masked; and the
  kernel's segments decode to base 0 with the access rights asked for.
\<close>

theorem controllers_installed:
  "(\<exists>m s. fold pic_write pic_install p = (m, s) \<and> icw_left m = 0 \<and> base m = 0x20 \<and> imr m = 0xff \<and>
      icw_left s = 0 \<and> base s = 0x28 \<and> imr s = 0xff) \<and>
   desc_base (gdt (snd (gdt_install k)) 1) = 0 \<and> desc_base (gdt (snd (gdt_install k)) 2) = 0 \<and>
   ucast (drop_bit 40 (gdt (snd (gdt_install k)) 1)) = (0x98 :: u8) \<and>
   ucast (drop_bit 40 (gdt (snd (gdt_install k)) 2)) = (0x92 :: u8) \<and>
   fst (gdt_install k) = 40"
proof -
  obtain m s where p: "p = (m, s)" by (cases p)
  have "\<exists>m s. fold pic_write pic_install p = (m, s) \<and> icw_left m = 0 \<and> base m = 0x20 \<and> imr m = 0xff \<and>
      icw_left s = 0 \<and> base s = 0x28 \<and> imr s = 0xff"
    by (simp add: p pic_install_def pic_command_def pic_data_def)
  then show ?thesis
    by (simp add: gdt_install_def set_gdt_des_def gdt_fields_def desc_base_def ATTRIB_CE_def
        ATTRIB_DRW_def ATTRIB_32_def ATTRIB_LIMIT4K_def GDT_SIZE_def)
qed

end
