(* ===== verification/Numerals.thy ===== *)
theory Numerals
  imports CBase
begin

text \<open>
  Numbers as text, shared by the formatted output routines: the digits of a number in a base,
  the number a text denotes, and byte sequences written to consecutive addresses.
\<close>

section \<open>Digits\<close>

text \<open>The character of a digit, in lower case, and the digit of a character.\<close>

definition digit_byte :: "nat \<Rightarrow> u8" where
  "digit_byte r = (if r < 10 then of_nat (48 + r) else of_nat (87 + r))"

definition byte_digit :: "u8 \<Rightarrow> nat" where
  "byte_digit c = (if unat c < 97 then unat c - 48 else unat c - 87)"

lemma unat_digit_byte: "r < 36 \<Longrightarrow> unat (digit_byte r) = (if r < 10 then 48 + r else 87 + r)"
  unfolding digit_byte_def by (cases "r < 10") (simp_all only: if_True if_False unat_of_nat, simp_all)

lemma byte_digit_byte: "r < 36 \<Longrightarrow> byte_digit (digit_byte r) = r"
  by (simp add: byte_digit_def unat_digit_byte)

lemma digit_byte_nonzero: "r < 36 \<Longrightarrow> digit_byte r \<noteq> 0"
  using unat_digit_byte [of r] by (auto split: if_splits)

lemma digit_byte_eq_48: "r < 36 \<Longrightarrow> digit_byte r = 48 \<longleftrightarrow> r = 0"
  using unat_digit_byte [of r] by (auto simp: word_unat_eq_iff split: if_splits)

text \<open>The digits of a number, most significant first.\<close>

fun num_text :: "nat \<Rightarrow> nat \<Rightarrow> u8 list" where
  "num_text b n =
     (if 1 < b \<and> b \<le> n then num_text b (n div b) @ [digit_byte (n mod b)] else [digit_byte (n mod b)])"

declare num_text.simps [simp del]

text \<open>The number a text denotes.\<close>

definition text_val :: "nat \<Rightarrow> u8 list \<Rightarrow> nat" where
  "text_val b xs = foldl (\<lambda>v c. v * b + byte_digit c) 0 xs"

lemma text_val_snoc: "text_val b (xs @ [c]) = text_val b xs * b + byte_digit c"
  by (simp add: text_val_def)

lemma text_val_num_text: "1 < b \<Longrightarrow> b \<le> 36 \<Longrightarrow> text_val b (num_text b n) = n"
proof (induction b n rule: num_text.induct)
  case (1 b n)
  have "n mod b < 36" using "1.prems" by (meson less_le_trans mod_less_divisor zero_less_one less_trans)
  then show ?case
    using 1 by (auto simp: num_text.simps [of b n] text_val_snoc byte_digit_byte text_val_def)
qed

lemma num_text_nonzero: "1 < b \<Longrightarrow> b \<le> 36 \<Longrightarrow> 0 \<notin> set (num_text b n)"
proof (induction b n rule: num_text.induct)
  case (1 b n)
  have "n mod b < 36" using "1.prems" by (meson less_le_trans mod_less_divisor zero_less_one less_trans)
  then have "digit_byte (n mod b) \<noteq> 0" by (rule digit_byte_nonzero)
  then show ?case
    using 1 by (auto simp: num_text.simps [of b n])
qed

lemma num_text_not_Nil [simp]: "num_text b n \<noteq> []"
  by (simp add: num_text.simps [of b n])

lemma length_num_text: "n < b ^ k \<Longrightarrow> 0 < k \<Longrightarrow> length (num_text b n) \<le> k"
proof (induction b n arbitrary: k rule: num_text.induct)
  case (1 b n)
  show ?case
  proof (cases "1 < b \<and> b \<le> n")
    case True
    have "k \<noteq> 1" using True "1.prems" by auto
    with "1.prems" obtain j where k: "k = Suc j" "0 < j" by (cases k) auto
    have "n div b < b ^ j"
      using "1.prems"(1) True unfolding k by (simp add: div_less_iff_less_mult mult.commute)
    then have "length (num_text b (n div b)) \<le> j" using "1.IH" True k(2) by blast
    with True k show ?thesis by (simp add: num_text.simps [of b n])
  next
    case False
    then have "num_text b n = [digit_byte (n mod b)]" by (simp only: num_text.simps [of b n] if_False)
    with "1.prems" show ?thesis by simp
  qed
qed

text \<open>No leading zero: only zero itself starts with the digit 0.\<close>

lemma num_text_hd: "1 < b \<Longrightarrow> b \<le> 36 \<Longrightarrow> hd (num_text b n) = 48 \<longleftrightarrow> n = 0"
proof (induction b n rule: num_text.induct)
  case (1 b n)
  show ?case
  proof (cases "b \<le> n")
    case True
    then have "n div b \<noteq> 0" using "1.prems" by (simp add: div_eq_0_iff)
    with True 1 show ?thesis by (simp add: num_text.simps [of b n])
  next
    case False
    then have "n < 36" using "1.prems" by simp
    then have "digit_byte n = 48 \<longleftrightarrow> n = 0" by (rule digit_byte_eq_48)
    with False show ?thesis by (simp add: num_text.simps [of b n])
  qed
qed

text \<open>A fixed number of digits, with leading zeros.\<close>

primrec num_fixed :: "nat \<Rightarrow> nat \<Rightarrow> nat \<Rightarrow> u8 list" where
  "num_fixed b 0 n = []"
| "num_fixed b (Suc k) n = digit_byte (n div b ^ k mod b) # num_fixed b k n"

lemma length_num_fixed [simp]: "length (num_fixed b k n) = k"
  by (induction k) simp_all

lemma text_val_num_fixed:
  assumes "1 < b" and "b \<le> 36"
  shows "text_val b (num_fixed b k n) = n mod b ^ k"
proof -
  have "foldl (\<lambda>v c. v * b + byte_digit c) a (num_fixed b k n) = a * b ^ k + n mod b ^ k" for a
  proof (induction k arbitrary: a)
    case (Suc k)
    have "n div b ^ k mod b < 36" using assms by (meson less_le_trans mod_less_divisor zero_less_one less_trans)
    moreover have "n mod b ^ Suc k = b ^ k * (n div b ^ k mod b) + n mod b ^ k"
      by (metis mod_mult2_eq power_Suc2)
    ultimately show ?case by (simp add: Suc.IH byte_digit_byte) (simp add: algebra_simps)
  qed simp
  from this [of 0] show ?thesis by (simp add: text_val_def)
qed

section \<open>Writing a list of bytes\<close>

primrec put_bytes :: "u32 \<Rightarrow> u8 list \<Rightarrow> mem \<Rightarrow> mem" where
  "put_bytes p [] m = m"
| "put_bytes p (x # xs) m = put_bytes (p + 1) xs (m(p := x))"

lemma put_bytes_outside: "a \<notin> region p (length xs) \<Longrightarrow> put_bytes p xs m a = m a"
  by (induction xs arbitrary: p m) (auto simp: region_Suc)

lemma put_bytes_nth:
  "i < length xs \<Longrightarrow> length xs < 4294967296 \<Longrightarrow> put_bytes p xs m (p + of_nat i) = xs ! i"
proof (induction xs arbitrary: p m i)
  case (Cons x xs)
  show ?case
  proof (cases i)
    case 0
    have "p \<notin> region (p + 1) (length xs)"
    proof
      assume "p \<in> region (p + 1) (length xs)"
      then obtain j where j: "j < length xs" "p = p + 1 + of_nat j" by (auto simp: region_def)
      then have "p + of_nat (Suc j) = p + of_nat 0" by (simp add: offset_Suc)
      then have "Suc j = 0" using j(1) Cons.prems by (subst (asm) offset_eq_iff) auto
      then show False by simp
    qed
    with 0 show ?thesis by (simp add: put_bytes_outside)
  next
    case (Suc j)
    then have "put_bytes (p + 1) xs (m(p := x)) ((p + 1) + of_nat j) = xs ! j"
      using Cons.prems by (intro Cons.IH) simp_all
    with Suc show ?thesis by (simp add: add.assoc)
  qed
qed simp

lemma put_bytes_append:
  "put_bytes p (xs @ ys) m = put_bytes (p + of_nat (length xs)) ys (put_bytes p xs m)"
  by (induction xs arbitrary: p m) (simp_all add: algebra_simps)

lemma put_bytes_cstr:
  assumes "0 \<notin> set xs" and "length xs + 1 < 4294967296"
  shows "cstr (put_bytes p (xs @ [0]) m) p xs"
proof (rule cstr_intro)
  fix i assume "i < length xs"
  then show "put_bytes p (xs @ [0]) m (p + of_nat i) = xs ! i \<and> xs ! i \<noteq> 0"
    using assms put_bytes_nth [of i "xs @ [0]" p m] by (auto simp: nth_append dest: nth_mem)
next
  show "put_bytes p (xs @ [0]) m (p + of_nat (length xs)) = 0"
    using assms put_bytes_nth [of "length xs" "xs @ [0]" p m] by simp
qed

section \<open>The magnitude of a negative number\<close>

lemma unat_neg_sint:
  assumes "sint (d :: u32) < 0"
  shows "unat (- d) = nat (- sint d)"
proof -
  have d: "- d = word_of_int (- sint d)" by simp
  have "- (2 ^ 31) \<le> sint d" using sint_ge [of d] by simp
  then have "uint (- d) = - sint d"
    unfolding d using assms by (subst uint_word_of_int) simp
  then show ?thesis by (simp only: unat_eq_nat_uint)
qed

lemma sint_small:
  assumes "uint (x :: u32) < 2147483648"
  shows "sint x = uint x"
proof -
  have "- 2147483648 \<le> uint x" using uint_ge_0 [of x] by linarith
  with assms show ?thesis
    unfolding sint_uint by (intro signed_take_bit_int_eq_self) simp_all
qed

lemma uint_mod_10: "uint ((v :: u32) mod 10) < 10"
  by (simp add: uint_mod)

end
