(* ===== verification/Screen.thy ===== *)
theory Screen
  imports CString Numerals
begin

text \<open>
  The text screen: \<^verbatim>\<open>screen.c\<close> and \<^verbatim>\<open>include/screen.h\<close>. Video memory is part of the flat
  memory from 0xb8000 on, two bytes per cell. The file drives it twice: \<open>putchar\<close> and
  \<open>screen_printf\<close> with their own 24-line position, and \<open>print_c\<close> with a cursor, 25 lines and
  scrolling. Port writes of the cursor are recorded in order.
\<close>

section \<open>State\<close>

definition MAX_LINES :: int where "MAX_LINES = 25"
definition MAX_COLUMNS :: int where "MAX_COLUMNS = 80"
definition TAB_WIDTH :: int where "TAB_WIDTH = 8"
definition VIDEO_RAM :: u32 where "VIDEO_RAM = 0xb8000"
definition LINE_RAM :: int where "LINE_RAM = MAX_COLUMNS * 2"
definition BLANK_CHAR :: u8 where "BLANK_CHAR = 0x20"
definition BLANK_ATTR :: u8 where "BLANK_ATTR = 0x07"
definition COLUMNS :: int where "COLUMNS = 80"
definition LINES :: int where "LINES = 24"
definition ATTRIBUTE :: u8 where "ATTRIBUTE = 7"

lemmas screen_consts = MAX_LINES_def MAX_COLUMNS_def TAB_WIDTH_def VIDEO_RAM_def LINE_RAM_def
  BLANK_CHAR_def BLANK_ATTR_def COLUMNS_def LINES_def ATTRIBUTE_def

text \<open>\<^verbatim>\<open>CHAR_OFF(x, y)\<close>\<close>

definition CHAR_OFF :: "int \<Rightarrow> int \<Rightarrow> int" where
  "CHAR_OFF x y = LINE_RAM * y + 2 * x"

record screen =
  vmem :: mem
  xpos :: int
  ypos :: int
  csr_x :: int
  csr_y :: int
  ports :: "(u8 \<times> u16) list"

text \<open>Address of byte \<open>k\<close> of the video memory.\<close>

definition vaddr :: "int \<Rightarrow> u32" where
  "vaddr k = VIDEO_RAM + word_of_int k"

section \<open>The simple output\<close>

function cls_loop :: "int \<Rightarrow> mem \<Rightarrow> mem" where
  "cls_loop i m = (if i < COLUMNS * LINES * 2 then cls_loop (i + 1) (m(vaddr i := 0)) else m)"
  by pat_completeness auto
termination
  by (relation "measure (\<lambda>(i, m). nat (COLUMNS * LINES * 2 - i))") auto

declare cls_loop.simps [simp del]

definition cls :: "screen \<Rightarrow> screen" where
  "cls s = s\<lparr>vmem := cls_loop 0 (vmem s), xpos := 0, ypos := 0\<rparr>"

definition newline :: "screen \<Rightarrow> screen" where
  "newline s = (let s1 = s\<lparr>xpos := 0, ypos := ypos s + 1\<rparr>
     in if ypos s1 \<ge> LINES then s1\<lparr>ypos := 0\<rparr> else s1)"

definition putchar :: "u32 \<Rightarrow> screen \<Rightarrow> screen" where
  "putchar c s =
     (if c = 10 \<or> c = 13 then newline s
      else let a = (xpos s + ypos s * COLUMNS) * 2;
               s1 = s\<lparr>vmem := (vmem s)(vaddr a := ucast c, vaddr (a + 1) := ATTRIBUTE)\<rparr>;
               s2 = s1\<lparr>xpos := xpos s1 + 1\<rparr>
           in if xpos s2 \<ge> COLUMNS then newline s2 else s2)"

section \<open>Number conversion\<close>

text \<open>The digit loop of \<open>itoa\<close>; it returns the end of the text.\<close>

definition digit_char :: "u32 \<Rightarrow> u8" where
  "digit_char r = (if r < 10 then ucast r + 48 else ucast r + 97 - 10)"

function itoa_digits :: "u32 \<Rightarrow> u32 \<Rightarrow> u32 \<Rightarrow> mem \<Rightarrow> u32 \<times> mem" where
  "itoa_digits divisor ud p m =
     (let m' = m(p := digit_char (ud mod divisor))
      in if 1 < divisor \<and> ud div divisor \<noteq> 0 then itoa_digits divisor (ud div divisor) (p + 1) m'
         else (p + 1, m'))"
  by pat_completeness auto
termination
proof (relation "measure (\<lambda>(divisor, ud, p, m). unat ud)")
  fix divisor ud p :: u32 and m x :: mem
  assume "1 < divisor \<and> ud div divisor \<noteq> 0"
  then have d: "1 < unat divisor" and q: "unat (ud div divisor) \<noteq> 0"
    by (simp_all add: word_less_nat_alt unat_eq_0)
  have "unat ud \<noteq> 0" using q unfolding unat_div by (metis div_0)
  then have "unat ud div unat divisor < unat ud" using d by (intro div_less_dividend) simp_all
  then show "((divisor, ud div divisor, p + 1, x), divisor, ud, p, m)
      \<in> measure (\<lambda>(divisor, ud, p, m). unat ud)"
    by (simp add: unat_div)
qed simp

declare itoa_digits.simps [simp del]

text \<open>\<^verbatim>\<open>while (p1 < p2)\<close>: the two ends are exchanged.\<close>

function itoa_reverse :: "u32 \<Rightarrow> u32 \<Rightarrow> mem \<Rightarrow> mem" where
  "itoa_reverse p1 p2 m =
     (if p1 < p2 then itoa_reverse (p1 + 1) (p2 - 1) (m(p1 := m p2, p2 := m p1)) else m)"
  by pat_completeness auto
termination
proof (relation "measure (\<lambda>(p1, p2, m). unat p2)")
  fix p1 p2 :: u32 and m :: mem
  assume "p1 < p2"
  then have "unat p1 < unat p2" by (simp add: word_less_nat_alt)
  then have "unat (p2 - 1) < unat p2" using unat_sub_nowrap [of 1 p2] by simp
  then show "((p1 + 1, p2 - 1, m(p1 := m p2, p2 := m p1)), p1, p2, m) \<in> measure (\<lambda>(p1, p2, m). unat p2)"
    by simp
qed simp

declare itoa_reverse.simps [simp del]

definition itoa :: "u32 \<Rightarrow> u8 \<Rightarrow> u32 \<Rightarrow> mem \<Rightarrow> mem" where
  "itoa buf base d m =
     (let (b, ud, divisor, m1) =
            (if base = 100 \<and> sint d < 0 then (buf + 1, - d, 10, m(buf := 45))
             else (buf, d, if base = 120 then 16 else 10, m));
          (p, m2) = itoa_digits divisor ud b m1;
          m3 = m2(p := 0)
      in itoa_reverse b (p - 1) m3)"

section \<open>Formatted output\<close>

text \<open>\<^verbatim>\<open>while (*p) putchar(*p++);\<close>\<close>

partial_function (option) put_string :: "u32 \<Rightarrow> screen \<Rightarrow> screen option" where
  "put_string p s = (if vmem s p \<noteq> 0 then put_string (p + 1) (putchar (scast (vmem s p)) s) else Some s)"

text \<open>
  \<^verbatim>\<open>screen_printf\<close>: \<open>args\<close> are the words on the stack after the format, \<open>buf\<close> is the address of
  the local buffer and \<open>null_str\<close> that of the text \<^verbatim>\<open>(null)\<close>. A percent sign at the end of the format makes
  the loop run past the terminator.
\<close>

partial_function (option) screen_printf ::
  "u32 \<Rightarrow> u32 \<Rightarrow> (nat \<Rightarrow> u32) \<Rightarrow> nat \<Rightarrow> u32 \<Rightarrow> screen \<Rightarrow> screen option" where
  "screen_printf buf null_str args n fmt s =
     (let c = vmem s fmt in
      if c = 0 then Some s
      else if c \<noteq> 37 then screen_printf buf null_str args n (fmt + 1) (putchar (scast c) s)
      else let d = vmem s (fmt + 1) in
        if d = 100 \<or> d = 117 \<or> d = 120
        then Option.bind (put_string buf (s\<lparr>vmem := itoa buf d (args n) (vmem s)\<rparr>))
               (screen_printf buf null_str args (Suc n) (fmt + 2))
        else if d = 115
        then Option.bind (put_string (if args n = 0 then null_str else args n) s)
               (screen_printf buf null_str args (Suc n) (fmt + 2))
        else screen_printf buf null_str args (Suc n) (fmt + 2) (putchar (args n) s))"

section \<open>The cursor and scrolling\<close>

text \<open>The loop of \<open>scroll\<close> that blanks \<open>i\<close> cells backwards from offset \<open>k\<close>.\<close>

fun blank_back :: "nat \<Rightarrow> int \<Rightarrow> mem \<Rightarrow> mem" where
  "blank_back 0 k m = m"
| "blank_back (Suc i) k m = blank_back i (k - 2) (m(vaddr k := BLANK_CHAR, vaddr (k + 1) := BLANK_ATTR))"

definition scroll :: "int \<Rightarrow> screen \<Rightarrow> screen" where
  "scroll lines s =
     (let x = MAX_COLUMNS - 1; y = MAX_LINES * (lines - 1) + MAX_LINES - 1;
          k = CHAR_OFF x y;
          i = MAX_COLUMNS * (lines - 1) + MAX_COLUMNS;
          m1 = memcpy VIDEO_RAM (vaddr (LINE_RAM * lines)) (nat (LINE_RAM * (MAX_LINES - lines))) (vmem s)
      in s\<lparr>vmem := blank_back (nat i) k m1\<rparr>)"

definition set_cursor :: "int \<Rightarrow> int \<Rightarrow> screen \<Rightarrow> screen" where
  "set_cursor x y s =
     s\<lparr>csr_x := x, csr_y := y,
       ports := ports s @ [(0x0e, 0x3d4), (word_of_int ((x + y * MAX_COLUMNS) div 256), 0x3d5),
         (0x0f, 0x3d4), (word_of_int (x + y * MAX_COLUMNS), 0x3d5)]\<rparr>"

definition get_cursor :: "screen \<Rightarrow> int \<times> int" where
  "get_cursor s = (csr_x s, csr_y s)"

text \<open>Blank cells with a given attribute from the cursor up to column \<open>e\<close>.\<close>

function blank_to :: "int \<Rightarrow> u8 \<Rightarrow> int \<Rightarrow> screen \<Rightarrow> screen" where
  "blank_to e attr k s =
     (if csr_x s < e
      then blank_to e attr (k + 2)
             (s\<lparr>vmem := (vmem s)(vaddr k := BLANK_CHAR, vaddr (k + 1) := attr), csr_x := csr_x s + 1\<rparr>)
      else s)"
  by pat_completeness auto
termination
  by (relation "measure (\<lambda>(e, attr, k, s). nat (e - csr_x s))") auto

declare blank_to.simps [simp del]

text \<open>The common end of \<open>print_c\<close>: wrap at the right margin, scroll at the bottom.\<close>

definition wrap_cursor :: "screen \<Rightarrow> screen" where
  "wrap_cursor s1 =
     (let s2 = (if csr_x s1 \<ge> MAX_COLUMNS
                then let s' = s1\<lparr>csr_x := 0\<rparr>
                     in if csr_y s' < MAX_LINES - 1 then s'\<lparr>csr_y := csr_y s' + 1\<rparr> else scroll 1 s'
                else s1)
      in set_cursor (csr_x s2) (csr_y s2) s2)"

text \<open>The colours and their codes, in the order of the enumeration.\<close>

datatype COLOUR = BLACK | BLUE | GREEN | CYAN | RED | MAGENTA | BROWN | WHITE
    | GRAY | LIGHT_BLUE | LIGHT_GREEN | LIGHT_CYAN | LIGHT_RED | LIGHT_MAGENTA | YELLOW | BRIGHT_WHITE

fun colour_code :: "COLOUR \<Rightarrow> u8" where
  "colour_code BLACK = 0"
| "colour_code BLUE = 1"
| "colour_code GREEN = 2"
| "colour_code CYAN = 3"
| "colour_code RED = 4"
| "colour_code MAGENTA = 5"
| "colour_code BROWN = 6"
| "colour_code WHITE = 7"
| "colour_code GRAY = 8"
| "colour_code LIGHT_BLUE = 9"
| "colour_code LIGHT_GREEN = 10"
| "colour_code LIGHT_CYAN = 11"
| "colour_code LIGHT_RED = 12"
| "colour_code LIGHT_MAGENTA = 13"
| "colour_code YELLOW = 14"
| "colour_code BRIGHT_WHITE = 15"

definition print_c :: "u8 \<Rightarrow> COLOUR \<Rightarrow> COLOUR \<Rightarrow> screen \<Rightarrow> screen" where
  "print_c c fg bg s =
     (let k = CHAR_OFF (csr_x s) (csr_y s); attr = push_bit 4 (colour_code bg) OR colour_code fg
      in if c = 13 then wrap_cursor (s\<lparr>csr_x := 0\<rparr>)
         else if c = 10 then wrap_cursor (blank_to MAX_COLUMNS attr k s)
         else if c = 9
         then let e = csr_x s + TAB_WIDTH - csr_x s mod TAB_WIDTH
              in wrap_cursor (blank_to (if e < MAX_COLUMNS then e else MAX_COLUMNS) attr k s)
         else if c = 8
         then if csr_x s = 0 \<and> csr_y s = 0 then s
              else let s1 = (if csr_x s = 0 then s\<lparr>csr_x := MAX_COLUMNS - 1, csr_y := csr_y s - 1\<rparr>
                             else s\<lparr>csr_x := csr_x s - 1\<rparr>)
                   in wrap_cursor (s1\<lparr>vmem := (vmem s1)(vaddr (k - 2) := BLANK_CHAR, vaddr (k - 1) := BLANK_ATTR)\<rparr>)
         else wrap_cursor (s\<lparr>vmem := (vmem s)(vaddr k := c, vaddr (k + 1) := attr), csr_x := csr_x s + 1\<rparr>))"

section \<open>Video addresses\<close>

lemma vaddr_nat: "0 \<le> k \<Longrightarrow> vaddr k = 0xb8000 + of_nat (nat k)"
  by (simp add: vaddr_def VIDEO_RAM_def)

lemma vaddr_eq_iff: "0 \<le> i \<Longrightarrow> i < 4294967296 \<Longrightarrow> 0 \<le> j \<Longrightarrow> j < 4294967296 \<Longrightarrow> vaddr i = vaddr j \<longleftrightarrow> i = j"
  unfolding vaddr_nat by (subst offset_eq_iff) auto

definition on_screen :: "u32 \<Rightarrow> bool" where
  "on_screen a \<longleftrightarrow> (\<exists>k. 0 \<le> k \<and> k < 4000 \<and> a = vaddr k)"

lemma on_screenI: "0 \<le> k \<Longrightarrow> k < 4000 \<Longrightarrow> on_screen (vaddr k)"
  unfolding on_screen_def by blast

text \<open>Two memories that agree off the screen.\<close>

definition only_screen :: "mem \<Rightarrow> mem \<Rightarrow> bool" where
  "only_screen m m' \<longleftrightarrow> (\<forall>a. \<not> on_screen a \<longrightarrow> m' a = m a)"

lemma only_screen_refl [simp]: "only_screen m m"
  by (simp add: only_screen_def)

lemma only_screen_trans: "only_screen m m' \<Longrightarrow> only_screen m' m'' \<Longrightarrow> only_screen m m''"
  by (simp add: only_screen_def)

lemma only_screen_upd:
  "only_screen m m' \<Longrightarrow> 0 \<le> k \<Longrightarrow> k < 4000 \<Longrightarrow> only_screen m (m'(vaddr k := v))"
  by (auto simp: only_screen_def dest: on_screenI)

section \<open>Scrolling\<close>

lemma blank_back_spec:
  assumes "2 * int n \<le> k + 2" and "k < 4000"
  shows "blank_back n k m a =
    (if \<exists>j. 0 \<le> j \<and> j < int n \<and> a = vaddr (k - 2 * j) then BLANK_CHAR
     else if \<exists>j. 0 \<le> j \<and> j < int n \<and> a = vaddr (k - 2 * j + 1) then BLANK_ATTR else m a)"
  using assms
proof (induction n arbitrary: k m)
  case (Suc n)
  let ?m = "m(vaddr k := BLANK_CHAR, vaddr (k + 1) := BLANK_ATTR)"
  have IH: "blank_back n (k - 2) ?m a =
    (if \<exists>j. 0 \<le> j \<and> j < int n \<and> a = vaddr (k - 2 - 2 * j) then BLANK_CHAR
     else if \<exists>j. 0 \<le> j \<and> j < int n \<and> a = vaddr (k - 2 - 2 * j + 1) then BLANK_ATTR else ?m a)"
    using Suc by (intro Suc.IH) simp_all
  have ex: "(\<exists>j. 0 \<le> j \<and> j < int (Suc n) \<and> a = vaddr (k - 2 * j + b)) \<longleftrightarrow>
      a = vaddr (k + b) \<or> (\<exists>j. 0 \<le> j \<and> j < int n \<and> a = vaddr (k - 2 - 2 * j + b))" for b
  proof safe
    fix j assume j: "0 \<le> j" "j < int (Suc n)"
      and no: "\<nexists>i. 0 \<le> i \<and> i < int n \<and> vaddr (k - 2 * j + b) = vaddr (k - 2 - 2 * i + b)"
    have "j = 0"
    proof (rule ccontr)
      assume "j \<noteq> 0"
      then have "0 \<le> j - 1 \<and> j - 1 < int n \<and> vaddr (k - 2 * j + b) = vaddr (k - 2 - 2 * (j - 1) + b)"
        using j by (simp add: algebra_simps)
      with no show False by blast
    qed
    then show "vaddr (k - 2 * j + b) = vaddr (k + b)" by simp
  next
    show "\<exists>j. 0 \<le> j \<and> j < int (Suc n) \<and> vaddr (k + b) = vaddr (k - 2 * j + b)"
      by (rule exI [of _ 0]) simp
  next
    fix j assume "0 \<le> j" "j < int n"
    then show "\<exists>i. 0 \<le> i \<and> i < int (Suc n) \<and> vaddr (k - 2 - 2 * j + b) = vaddr (k - 2 * i + b)"
      by (intro exI [of _ "j + 1"]) (simp add: algebra_simps)
  qed
  have odd: "vaddr (k + 1) \<noteq> vaddr (k - 2 - 2 * j)" "vaddr k \<noteq> vaddr (k - 2 - 2 * j + 1)" "vaddr k \<noteq> vaddr (k + 1)"
    if "0 \<le> j" "j < int n" for j
    using that Suc.prems by (simp_all add: vaddr_eq_iff)
  define E0 where "E0 \<longleftrightarrow> (\<exists>j. 0 \<le> j \<and> j < int n \<and> a = vaddr (k - 2 - 2 * j))"
  define E1 where "E1 \<longleftrightarrow> (\<exists>j. 0 \<le> j \<and> j < int n \<and> a = vaddr (k - 2 - 2 * j + 1))"
  have e0: "(\<exists>j. 0 \<le> j \<and> j < int (Suc n) \<and> a = vaddr (k - 2 * j)) \<longleftrightarrow> a = vaddr k \<or> E0"
    using ex [of 0] unfolding E0_def by (simp only: add_0_right)
  have e1: "(\<exists>j. 0 \<le> j \<and> j < int (Suc n) \<and> a = vaddr (k - 2 * j + 1)) \<longleftrightarrow> a = vaddr (k + 1) \<or> E1"
    using ex [of 1] unfolding E1_def .
  have no: "a = vaddr (k + 1) \<longrightarrow> \<not> E0" "a = vaddr k \<longrightarrow> \<not> E1"
  proof -
    show "a = vaddr (k + 1) \<longrightarrow> \<not> E0"
    proof (intro impI notI)
      assume a: "a = vaddr (k + 1)" and E0
      then obtain j where "0 \<le> j" "j < int n" "a = vaddr (k - 2 - 2 * j)" unfolding E0_def by (elim exE conjE)
      with a odd(1) [of j] show False by simp
    qed
    show "a = vaddr k \<longrightarrow> \<not> E1"
    proof (intro impI notI)
      assume a: "a = vaddr k" and E1
      then obtain j where "0 \<le> j" "j < int n" "a = vaddr (k - 2 - 2 * j + 1)" unfolding E1_def by (elim exE conjE)
      with a odd(2) [of j] show False by simp
    qed
  qed
  have "vaddr k \<noteq> vaddr (k + 1)" using Suc.prems by (simp add: vaddr_eq_iff)
  with no IH show ?case
    unfolding e0 e1 blank_back.simps E0_def [symmetric] E1_def [symmetric]
    by (cases "a = vaddr k"; cases "a = vaddr (k + 1)") simp_all
qed auto

lemma vaddr_add: "0 \<le> k \<Longrightarrow> vaddr (i + k) = vaddr i + of_nat (nat k)"
  by (simp add: vaddr_def)

lemma scroll_forward: "\<forall>i<3840. \<forall>j<i. vaddr 160 + of_nat i \<noteq> vaddr 0 + of_nat j"
proof (intro allI impI)
  fix i j :: nat assume ij: "i < 3840" "j < i"
  have "vaddr 160 + of_nat i = vaddr (160 + int i)" "vaddr 0 + of_nat j = vaddr (int j)"
    using vaddr_add [of "int i" 160] vaddr_add [of "int j" 0] by simp_all
  then show "vaddr 160 + of_nat i \<noteq> vaddr 0 + of_nat j" using ij by (simp add: vaddr_eq_iff)
qed

lemma scroll_copy:
  assumes "0 \<le> b" and "b < 4000"
  shows "memcpy VIDEO_RAM (vaddr 160) 3840 m (vaddr b) = (if b < 3840 then m (vaddr (b + 160)) else m (vaddr b))"
proof -
  have V: "VIDEO_RAM = vaddr 0" by (simp add: vaddr_def)
  have cp: "memcpy VIDEO_RAM (vaddr 160) 3840 m = copied (vaddr 0) (vaddr 160) 3840 m"
    unfolding V by (rule memcpy_forward [OF scroll_forward]) simp
  show ?thesis
  proof (cases "b < 3840")
    case True
    then have "copied (vaddr 0) (vaddr 160) 3840 m (vaddr 0 + of_nat (nat b)) = m (vaddr 160 + of_nat (nat b))"
      using assms by (intro copied_at) simp
    then show ?thesis
      using True assms vaddr_add [of b 0] vaddr_add [of b 160] by (simp add: cp add.commute)
  next
    case False
    have "vaddr b \<notin> region (vaddr 0) 3840"
    proof
      assume "vaddr b \<in> region (vaddr 0) 3840"
      then obtain i where i: "i < 3840" "vaddr b = vaddr 0 + of_nat i" by (auto simp: region_def)
      then have "vaddr b = vaddr (int i)" using vaddr_add [of "int i" 0] by simp
      then have "b = int i" using i(1) assms by (simp add: vaddr_eq_iff)
      with i(1) False show False by simp
    qed
    then show ?thesis using False by (simp add: cp copied_outside)
  qed
qed

lemma scroll_copy_frame:
  assumes "\<not> on_screen a"
  shows "memcpy VIDEO_RAM (vaddr 160) 3840 m a = m a"
proof -
  have V: "VIDEO_RAM = vaddr 0" by (simp add: vaddr_def)
  have "a \<notin> region (vaddr 0) 3840"
  proof
    assume "a \<in> region (vaddr 0) 3840"
    then obtain i where "i < 3840" "a = vaddr 0 + of_nat i" by (auto simp: region_def)
    then have "a = vaddr (int i)" "int i < 4000" using vaddr_add [of "int i" 0] by simp_all
    with assms on_screenI [of "int i"] show False by simp
  qed
  then show ?thesis
    unfolding V using memcpy_forward [OF scroll_forward, of m] by (simp add: copied_outside)
qed

lemma vmem_scroll:
  "vmem (scroll 1 s) = blank_back 80 3998 (memcpy VIDEO_RAM (vaddr 160) 3840 (vmem s))"
  by (simp add: scroll_def Let_def screen_consts CHAR_OFF_def)

lemma scroll_bytes:
  assumes b: "0 \<le> b" "b < 4000"
  shows "vmem (scroll 1 s) (vaddr b) = (if b < 3840 then vmem s (vaddr (b + 160))
    else if even b then BLANK_CHAR else BLANK_ATTR)"
proof -
  let ?m = "memcpy VIDEO_RAM (vaddr 160) 3840 (vmem s)"
  have even_ex: "(\<exists>j. 0 \<le> j \<and> j < int 80 \<and> vaddr b = vaddr (3998 - 2 * j)) \<longleftrightarrow> 3840 \<le> b \<and> even b"
  proof
    assume "\<exists>j. 0 \<le> j \<and> j < int 80 \<and> vaddr b = vaddr (3998 - 2 * j)"
    then obtain j where "0 \<le> j" "j < 80" "vaddr b = vaddr (3998 - 2 * j)" by auto
    with b have "b = 3998 - 2 * j" by (simp add: vaddr_eq_iff)
    with \<open>j < 80\<close> show "3840 \<le> b \<and> even b" by simp
  next
    assume e: "3840 \<le> b \<and> even b"
    then obtain c where "b = 2 * c" by (auto elim: evenE)
    with e b show "\<exists>j. 0 \<le> j \<and> j < int 80 \<and> vaddr b = vaddr (3998 - 2 * j)"
      by (intro exI [of _ "1999 - c"]) simp
  qed
  have odd_ex: "(\<exists>j. 0 \<le> j \<and> j < int 80 \<and> vaddr b = vaddr (3998 - 2 * j + 1)) \<longleftrightarrow> 3840 \<le> b \<and> odd b"
  proof
    assume "\<exists>j. 0 \<le> j \<and> j < int 80 \<and> vaddr b = vaddr (3998 - 2 * j + 1)"
    then obtain j where "0 \<le> j" "j < 80" "vaddr b = vaddr (3998 - 2 * j + 1)" by auto
    with b have "b = 3998 - 2 * j + 1" by (simp add: vaddr_eq_iff)
    with \<open>j < 80\<close> show "3840 \<le> b \<and> odd b" by simp
  next
    assume e: "3840 \<le> b \<and> odd b"
    then obtain c where "b = 2 * c + 1" by (auto elim: oddE)
    with e b show "\<exists>j. 0 \<le> j \<and> j < int 80 \<and> vaddr b = vaddr (3998 - 2 * j + 1)"
      by (intro exI [of _ "1999 - c"]) simp
  qed
  have "vmem (scroll 1 s) (vaddr b) = (if 3840 \<le> b \<and> even b then BLANK_CHAR
     else if 3840 \<le> b \<and> odd b then BLANK_ATTR else ?m (vaddr b))"
    unfolding vmem_scroll by (subst blank_back_spec) (simp, simp, simp only: even_ex odd_ex)
  then show ?thesis using scroll_copy [OF b, of "vmem s"] by auto
qed

lemma scroll_frame: "only_screen (vmem s) (vmem (scroll 1 s))"
  unfolding only_screen_def
proof (intro allI impI)
  fix a assume a: "\<not> on_screen a"
  have "a \<noteq> vaddr (3998 - 2 * j)" "a \<noteq> vaddr (3998 - 2 * j + 1)" if "0 \<le> j" "j < 80" for j
    using a on_screenI [of "3998 - 2 * j"] on_screenI [of "3998 - 2 * j + 1"] that by auto
  then show "vmem (scroll 1 s) a = vmem s a"
    unfolding vmem_scroll by (subst blank_back_spec) (auto simp: scroll_copy_frame [OF a])
qed

lemma scroll_keeps [simp]: "csr_x (scroll l s) = csr_x s" "csr_y (scroll l s) = csr_y s"
  "xpos (scroll l s) = xpos s" "ypos (scroll l s) = ypos s"
  by (simp_all add: scroll_def Let_def)

section \<open>The cursor stays on the screen\<close>

definition cursor_ok :: "screen \<Rightarrow> bool" where
  "cursor_ok s \<longleftrightarrow> 0 \<le> csr_x s \<and> csr_x s < 80 \<and> 0 \<le> csr_y s \<and> csr_y s < 25"

lemma blank_to_spec:
  assumes "0 \<le> k" and "k + 2 * (e - csr_x s) \<le> 4000"
  shows "only_screen (vmem s) (vmem (blank_to e attr k s)) \<and> csr_x (blank_to e attr k s) = max (csr_x s) e \<and>
    csr_y (blank_to e attr k s) = csr_y s"
  using assms
proof (induction e attr k s rule: blank_to.induct)
  case (1 e attr k s)
  let ?s = "s\<lparr>vmem := (vmem s)(vaddr k := BLANK_CHAR, vaddr (k + 1) := attr), csr_x := csr_x s + 1\<rparr>"
  show ?case
  proof (cases "csr_x s < e")
    case True
    have "only_screen (vmem ?s) (vmem (blank_to e attr (k + 2) ?s)) \<and>
        csr_x (blank_to e attr (k + 2) ?s) = max (csr_x ?s) e \<and> csr_y (blank_to e attr (k + 2) ?s) = csr_y ?s"
      by (rule "1.IH" [OF True]) (use "1.prems" in simp_all)
    moreover have "only_screen (vmem s) (vmem ?s)"
      using "1.prems" True by (simp add: only_screen_upd)
    ultimately show ?thesis
      using True only_screen_trans [of "vmem s" "vmem ?s"] by (simp add: blank_to.simps [of e attr k s])
  next
    case False
    then show ?thesis by (simp add: blank_to.simps [of e attr k s])
  qed
qed

lemma wrap_cursor_ok:
  assumes "only_screen m (vmem s)" and "0 \<le> csr_x s" and "csr_x s \<le> 80" and "0 \<le> csr_y s" and "csr_y s < 25"
  shows "only_screen m (vmem (wrap_cursor s)) \<and> cursor_ok (wrap_cursor s)"
proof -
  have "only_screen m (vmem (scroll 1 (s\<lparr>csr_x := 0\<rparr>)))"
    using scroll_frame [of "s\<lparr>csr_x := 0\<rparr>"] assms(1) only_screen_trans by simp
  then show ?thesis
    using assms by (simp add: wrap_cursor_def Let_def cursor_ok_def set_cursor_def MAX_COLUMNS_def MAX_LINES_def)
qed

lemma CHAR_OFF_simp: "CHAR_OFF x y = 160 * y + 2 * x"
  by (simp add: CHAR_OFF_def LINE_RAM_def MAX_COLUMNS_def)

lemma print_c_ok:
  assumes "cursor_ok s"
  shows "only_screen (vmem s) (vmem (print_c c fg bg s)) \<and> cursor_ok (print_c c fg bg s)"
proof -
  let ?k = "CHAR_OFF (csr_x s) (csr_y s)" and ?attr = "push_bit 4 (colour_code bg) OR colour_code fg"
  have s: "0 \<le> csr_x s" "csr_x s < 80" "0 \<le> csr_y s" "csr_y s < 25"
    using assms by (simp_all add: cursor_ok_def)
  have k: "0 \<le> ?k" "?k + 2 * (80 - csr_x s) \<le> 4000" using s by (simp_all add: CHAR_OFF_simp)
  have blank: "only_screen (vmem s) (vmem (wrap_cursor (blank_to e ?attr ?k s))) \<and>
      cursor_ok (wrap_cursor (blank_to e ?attr ?k s))" if "e \<le> 80" for e
    using that k s blank_to_spec [of ?k e s ?attr] by (intro wrap_cursor_ok) auto
  consider (cr) "c = 13" | (nl) "c = 10" | (tab) "c = 9" | (home) "c = 8" "csr_x s = 0 \<and> csr_y s = 0"
    | (bs) "c = 8" "\<not> (csr_x s = 0 \<and> csr_y s = 0)" | (other) "c \<noteq> 13" "c \<noteq> 10" "c \<noteq> 9" "c \<noteq> 8" by blast
  then show ?thesis
  proof cases
    case cr
    then show ?thesis
      using s wrap_cursor_ok [of "vmem s" "s\<lparr>csr_x := 0\<rparr>"] by (simp add: print_c_def Let_def)
  next
    case nl
    then show ?thesis using blank [of 80] by (simp add: print_c_def Let_def MAX_COLUMNS_def)
  next
    case tab
    then show ?thesis
      using blank [of 80] blank [of "csr_x s + 8 - csr_x s mod 8"]
      by (simp add: print_c_def Let_def MAX_COLUMNS_def TAB_WIDTH_def)
  next
    case home
    then show ?thesis using assms by (simp add: print_c_def Let_def)
  next
    case bs
    then have k2: "0 \<le> ?k - 2" "?k - 1 < 4000" using s by (auto simp: CHAR_OFF_simp)
    then have "only_screen (vmem s) ((vmem s)(vaddr (?k - 2) := BLANK_CHAR, vaddr (?k - 1) := BLANK_ATTR))"
      by (intro only_screen_upd) simp_all
    then show ?thesis
      using bs s
        wrap_cursor_ok [of "vmem s" "s\<lparr>csr_x := 79, csr_y := csr_y s - 1,
          vmem := (vmem s)(vaddr (?k - 2) := BLANK_CHAR, vaddr (?k - 1) := BLANK_ATTR)\<rparr>"]
        wrap_cursor_ok [of "vmem s" "s\<lparr>csr_x := csr_x s - 1,
          vmem := (vmem s)(vaddr (?k - 2) := BLANK_CHAR, vaddr (?k - 1) := BLANK_ATTR)\<rparr>"]
      by (cases "csr_x s = 0") (simp_all add: print_c_def Let_def MAX_COLUMNS_def)
  next
    case other
    have "only_screen (vmem s) ((vmem s)(vaddr ?k := c, vaddr (?k + 1) := ?attr))"
      using k s by (intro only_screen_upd) simp_all
    with other s show ?thesis
      using wrap_cursor_ok [of "vmem s"
        "s\<lparr>vmem := (vmem s)(vaddr ?k := c, vaddr (?k + 1) := ?attr), csr_x := csr_x s + 1\<rparr>"]
      by (simp add: print_c_def Let_def)
  qed
qed

section \<open>Numbers come out right\<close>

lemma digit_char_byte: "digit_char r = digit_byte (unat r)"
proof -
  have "r < 10 \<longleftrightarrow> unat r < 10" by (simp add: word_less_nat_alt)
  then show ?thesis by (simp add: digit_char_def digit_byte_def)
qed

lemma itoa_digits_spec:
  assumes "1 < divisor"
  shows "itoa_digits divisor ud p m =
    (p + of_nat (length (num_text (unat divisor) (unat ud))),
     put_bytes p (rev (num_text (unat divisor) (unat ud))) m)"
  using assms
proof (induction divisor ud p m rule: itoa_digits.induct)
  case (1 divisor ud p m)
  have d: "1 < unat divisor" using "1.prems" by (simp add: word_less_nat_alt)
  have q: "ud div divisor \<noteq> 0 \<longleftrightarrow> unat divisor \<le> unat ud"
    using d by (simp add: word_unat_eq_iff unat_div div_eq_0_iff not_less)
  have c: "digit_char (ud mod divisor) = digit_byte (unat ud mod unat divisor)"
    by (simp add: digit_char_byte unat_mod)
  show ?case
  proof (cases "unat divisor \<le> unat ud")
    case True
    then have "itoa_digits divisor (ud div divisor) (p + 1) (m(p := digit_char (ud mod divisor))) =
      (p + 1 + of_nat (length (num_text (unat divisor) (unat (ud div divisor)))),
       put_bytes (p + 1) (rev (num_text (unat divisor) (unat (ud div divisor))))
         (m(p := digit_char (ud mod divisor))))"
      using "1.prems" q by (intro "1.IH") auto
    with True d q "1.prems" show ?thesis
      by (simp add: itoa_digits.simps [of divisor ud] num_text.simps [of "unat divisor" "unat ud"]
          c unat_div add.assoc)
  next
    case False
    with d q show ?thesis
      by (simp add: itoa_digits.simps [of divisor ud] num_text.simps [of "unat divisor" "unat ud"] c
          fun_upd_def)
  qed
qed

lemma itoa_reverse_spec:
  "0 < unat p \<or> 0 < n \<Longrightarrow> unat p + n \<le> 4294967296 \<Longrightarrow>
   (\<forall>i<n. itoa_reverse p (p + of_nat n - 1) m (p + of_nat i) = m (p + of_nat (n - 1 - i))) \<and>
   (\<forall>a. a \<notin> region p n \<longrightarrow> itoa_reverse p (p + of_nat n - 1) m a = m a)"
proof (induction n arbitrary: p m rule: less_induct)
  case (less n)
  let ?p2 = "p + of_nat n - 1"
  show ?case
  proof (cases "n < 2")
    case True
    have "\<not> p < ?p2"
    proof (cases n)
      case 0
      with less.prems have "unat (p - 1) = unat p - 1" using unat_sub_nowrap [of 1 p] by simp
      with 0 show ?thesis by (simp add: word_less_nat_alt)
    next
      case (Suc j)
      with True show ?thesis by simp
    qed
    then have "itoa_reverse p ?p2 m = m" by (simp add: itoa_reverse.simps [of p ?p2 m])
    with True show ?thesis by (auto simp: less_Suc_eq numeral_2_eq_2)
  next
    case False
    then obtain k where k: "n = Suc (Suc k)" by (metis One_nat_def Suc_1 less_Suc_eq_0_disj not0_implies_Suc not_less_eq numeral_2_eq_2)
    have p2: "?p2 = p + of_nat (Suc k)" using k by simp
    have up: "unat ?p2 = unat p + Suc k"
      unfolding p2 using less.prems k by (subst unat_add_nowrap) (simp_all add: unat_of_nat_u32 del: of_nat_Suc)
    have lt: "p < ?p2" using up by (simp add: word_less_nat_alt)
    let ?m = "m(p := m ?p2, ?p2 := m p)"
    have step: "itoa_reverse p ?p2 m = itoa_reverse (p + 1) (?p2 - 1) ?m"
      by (subst itoa_reverse.simps) (simp only: lt if_True)
    have p1: "unat (p + 1) = unat p + 1"
      using less.prems k by (subst unat_add_nowrap) simp_all
    have e2: "?p2 - 1 = (p + 1) + of_nat k - 1" using k by simp
    have IH: "(\<forall>i<k. itoa_reverse (p + 1) (?p2 - 1) ?m (p + 1 + of_nat i) = ?m (p + 1 + of_nat (k - 1 - i))) \<and>
        (\<forall>a. a \<notin> region (p + 1) k \<longrightarrow> itoa_reverse (p + 1) (?p2 - 1) ?m a = ?m a)"
      unfolding e2 by (rule less.IH) (use k p1 less.prems in simp_all)
    have out: "p \<notin> region (p + 1) k" "?p2 \<notin> region (p + 1) k"
      and ne: "\<And>j. j < k \<Longrightarrow> p + 1 + of_nat j \<noteq> p \<and> p + 1 + of_nat j \<noteq> ?p2"
    proof -
      fix j assume j: "j < k"
      have "p + of_nat (Suc j) \<noteq> p + of_nat 0" "p + of_nat (Suc j) \<noteq> p + of_nat (Suc k)"
        using j k less.prems by (subst offset_eq_iff; simp)+
      then show "p + 1 + of_nat j \<noteq> p \<and> p + 1 + of_nat j \<noteq> ?p2" unfolding p2 by (simp add: add.assoc)
    next
      show "p \<notin> region (p + 1) k"
      proof
        assume "p \<in> region (p + 1) k"
        then obtain j where j: "j < k" "p = p + 1 + of_nat j" by (auto simp: region_def)
        then have "p + of_nat (Suc j) = p + of_nat 0" by (simp add: offset_Suc)
        with j(1) k less.prems show False by (subst (asm) offset_eq_iff) auto
      qed
    next
      show "?p2 \<notin> region (p + 1) k"
      proof
        assume "?p2 \<in> region (p + 1) k"
        then obtain j where j: "j < k" "?p2 = p + 1 + of_nat j" by (auto simp: region_def)
        then have "p + of_nat (Suc k) = p + of_nat (Suc j)" unfolding p2 by (simp add: add.assoc)
        with j(1) k less.prems show False by (subst (asm) offset_eq_iff) auto
      qed
    qed
    have ends: "itoa_reverse p ?p2 m p = m ?p2" "itoa_reverse p ?p2 m ?p2 = m p"
    proof -
      have "itoa_reverse p ?p2 m p = ?m p" "itoa_reverse p ?p2 m ?p2 = ?m ?p2"
        unfolding step using IH out by blast+
      then show "itoa_reverse p ?p2 m p = m ?p2" "itoa_reverse p ?p2 m ?p2 = m p"
        using lt by (simp_all only: fun_upd_apply if_True refl) (simp split: if_splits)
    qed
    have "itoa_reverse p ?p2 m (p + of_nat i) = m (p + of_nat (n - 1 - i))" if i: "i < n" for i
    proof -
      consider "i = 0" | "i = Suc k" | j where "i = Suc j" "j < k"
        using i k by (cases i) (auto simp: less_Suc_eq)
      then show ?thesis
      proof cases
        case 1
        then show ?thesis using ends(1) k p2 by (simp add: ac_simps)
      next
        case 2
        then show ?thesis using ends(2) k p2 by (simp add: ac_simps)
      next
        case 3
        have "itoa_reverse p ?p2 m (p + 1 + of_nat j) = ?m (p + 1 + of_nat (k - 1 - j))"
          unfolding step using IH 3(2) by blast
        also have "\<dots> = m (p + 1 + of_nat (k - 1 - j))"
          using ne [of "k - 1 - j"] 3(2) by (simp del: of_nat_diff)
        also have "p + 1 + of_nat (k - 1 - j) = p + of_nat (n - 1 - i)"
          using 3 k by (simp add: Suc_diff_Suc add.assoc flip: of_nat_Suc del: of_nat_diff)
        finally show ?thesis using 3(1) by (simp add: add.assoc)
      qed
    qed
    moreover have "itoa_reverse p ?p2 m a = m a" if "a \<notin> region p n" for a
    proof -
      have "region p n = insert p (insert ?p2 (region (p + 1) k))"
        unfolding k region_Suc [of p] region_Suc_last [of "p + 1"] p2 by (auto simp: add.assoc)
      with that IH show ?thesis unfolding step by auto
    qed
    ultimately show ?thesis by blast
  qed
qed

text \<open>
  The text \<open>itoa\<close> produces: a minus sign for a negative number in format \<^verbatim>\<open>d\<close>, hexadecimal digits in
  format \<^verbatim>\<open>x\<close>, unsigned decimal digits otherwise.
\<close>

definition itoa_text :: "u8 \<Rightarrow> u32 \<Rightarrow> u8 list" where
  "itoa_text base d =
     (if base = 100 \<and> sint d < 0 then 45 # num_text 10 (unat (- d))
      else num_text (if base = 120 then 16 else 10) (unat d))"

lemma itoa_positive:
  assumes d: "1 < divisor" "unat divisor \<le> 36" "10 \<le> unat divisor" and b: "unat b + 11 \<le> 4294967296"
  shows "(let (p, m2) = itoa_digits divisor ud b m; m3 = m2(p := 0) in itoa_reverse b (p - 1) m3) =
    put_bytes b (num_text (unat divisor) (unat ud) @ [0]) m" (is "?lhs = _")
proof -
  let ?t = "num_text (unat divisor) (unat ud)"
  let ?n = "length ?t"
  define m3 where "m3 = put_bytes b (rev ?t @ [0]) m"
  have n0: "0 < ?n" by simp
  have "unat ud < 10 ^ 10" using unat_lt_u32 [of ud] by simp
  also have "\<dots> \<le> unat divisor ^ 10" using d(3) by (rule power_mono) simp
  finally have n: "?n \<le> 10" by (rule length_num_text) simp
  have lhs: "?lhs = itoa_reverse b (b + of_nat ?n - 1) m3"
    using d(1) by (simp add: itoa_digits_spec m3_def put_bytes_append)
  have rev: "(\<forall>i<?n. ?lhs (b + of_nat i) = m3 (b + of_nat (?n - 1 - i))) \<and>
      (\<forall>a. a \<notin> region b ?n \<longrightarrow> ?lhs a = m3 a)"
    unfolding lhs by (rule itoa_reverse_spec) (use n n0 b in simp_all)
  have m3: "m3 (b + of_nat i) = (rev ?t @ [0]) ! i" if "i \<le> ?n" for i
    unfolding m3_def using n that by (intro put_bytes_nth) simp_all
  have fin: "?lhs (b + of_nat i) = (?t @ [0]) ! i" if i: "i \<le> ?n" for i
  proof (cases "i < ?n")
    case True
    then have "?lhs (b + of_nat i) = m3 (b + of_nat (?n - 1 - i))" using rev by blast
    also have "\<dots> = (rev ?t @ [0]) ! (?n - 1 - i)" by (rule m3) simp
    also have "\<dots> = (?t @ [0]) ! i" using True n0 by (simp add: nth_append rev_nth)
    finally show ?thesis .
  next
    case False
    with i have i: "i = ?n" by simp
    have "b + of_nat ?n \<notin> region b ?n"
    proof
      assume "b + of_nat ?n \<in> region b ?n"
      then obtain j where j: "j < ?n" "b + of_nat ?n = b + of_nat j" by (auto simp: region_def)
      then show False using n offset_eq_iff [of ?n j b] by simp
    qed
    then have "?lhs (b + of_nat i) = m3 (b + of_nat i)" using rev i by blast
    then show ?thesis using m3 [of i] i by (simp add: nth_append)
  qed
  show ?thesis
  proof
    fix a
    show "?lhs a = put_bytes b (?t @ [0]) m a"
    proof (cases "a \<in> region b (Suc ?n)")
      case True
      then obtain i where i: "i \<le> ?n" "a = b + of_nat i" by (auto simp: region_def less_Suc_eq_le)
      then have "put_bytes b (?t @ [0]) m a = (?t @ [0]) ! i"
        using n unfolding i(2) by (intro put_bytes_nth) simp_all
      with i fin show ?thesis by simp
    next
      case False
      then have "a \<notin> region b ?n" using region_Suc_last [of b ?n] by simp
      then have "?lhs a = m3 a" using rev by blast
      with False show ?thesis by (simp add: m3_def put_bytes_outside)
    qed
  qed
qed

lemma itoa_put: "unat buf + 12 \<le> 4294967296 \<Longrightarrow> itoa buf base d m = put_bytes buf (itoa_text base d @ [0]) m"
proof -
  assume b: "unat buf + 12 \<le> 4294967296"
  then have b1: "unat (buf + 1) = unat buf + 1" by (subst unat_add_nowrap) simp_all
  show ?thesis
  proof (cases "base = 100 \<and> sint d < 0")
    case True
    then show ?thesis
      using itoa_positive [of 10 "buf + 1" "- d" "m(buf := 45)"] b b1
      by (simp add: itoa_def itoa_text_def)
  next
    case False
    then show ?thesis
      using itoa_positive [of 10 buf d m] itoa_positive [of 16 buf d m] b
      by (simp only: itoa_def itoa_text_def Let_def if_False split_conv)
        (simp split: prod.splits)
  qed
qed

lemma length_itoa_text: "length (itoa_text base d) \<le> 11"
proof -
  have x: "unat x < 10 ^ 10" "unat x < 16 ^ 10" for x :: u32 using unat_lt_u32 [of x] by simp_all
  have l: "length (num_text 10 (unat x)) \<le> 10" "length (num_text 16 (unat x)) \<le> 10" for x :: u32
    using length_num_text [OF x(1), of x] length_num_text [OF x(2), of x] by simp_all
  show ?thesis
    using l [of d] l [of "- d"] by (simp add: itoa_text_def)
qed

lemma itoa_text_nonzero: "0 \<notin> set (itoa_text base d)"
  using num_text_nonzero [of 10] num_text_nonzero [of 16] by (simp add: itoa_text_def)

section \<open>Properties\<close>

text \<open>
  Property C18. Printing is confined: with the cursor on the 80 by 25 screen, \<open>print_c\<close> of any
  character in any colour leaves it there and writes no byte outside the 4000 bytes of the screen.
\<close>

theorem print_c_confined:
  assumes "0 \<le> csr_x s" and "csr_x s < 80" and "0 \<le> csr_y s" and "csr_y s < 25"
  shows "let s' = print_c c fg bg s in
    0 \<le> csr_x s' \<and> csr_x s' < 80 \<and> 0 \<le> csr_y s' \<and> csr_y s' < 25 \<and>
    (\<forall>a. (\<nexists>k. 0 \<le> k \<and> k < 4000 \<and> a = vaddr k) \<longrightarrow> vmem s' a = vmem s a)"
  using print_c_ok [of s c fg bg] assms
  by (auto simp: cursor_ok_def Let_def only_screen_def on_screen_def)

theorem print_c_confined_witness:
  "csr_x (print_c 65 WHITE BLACK \<lparr>vmem = \<lambda>_. 0, xpos = 0, ypos = 0, csr_x = 79, csr_y = 24, ports = []\<rparr>) < 80"
  using print_c_confined
    [of "\<lparr>vmem = \<lambda>_. 0, xpos = 0, ypos = 0, csr_x = 79, csr_y = 24, ports = []\<rparr>" 65 WHITE BLACK]
  by (simp add: Let_def)

text \<open>
  Scrolling by one line moves every cell of the lower 24 lines up by one line, blanks
  the last line and changes nothing outside the screen, although the copy overlaps its source.
\<close>

theorem scroll_moves_up:
  "(\<forall>b\<in>{0..<4000}. vmem (scroll 1 s) (vaddr b) =
      (if b < 3840 then vmem s (vaddr (b + LINE_RAM)) else if even b then BLANK_CHAR else BLANK_ATTR)) \<and>
   (\<forall>a. (\<nexists>k. 0 \<le> k \<and> k < 4000 \<and> a = vaddr k) \<longrightarrow> vmem (scroll 1 s) a = vmem s a)"
  using scroll_bytes [of _ s] scroll_frame [of s]
  by (auto simp: only_screen_def on_screen_def LINE_RAM_def MAX_COLUMNS_def)

theorem scroll_moves_up_witness:
  "\<forall>s. vmem (scroll 1 (s\<lparr>vmem := \<lambda>a. if a = vaddr 160 then 65 else 0\<rparr>)) (vaddr 0) = 65"
proof
  fix s :: screen
  have "(0 :: int) \<in> {0..<4000}" by simp
  then show "vmem (scroll 1 (s\<lparr>vmem := \<lambda>a. if a = vaddr 160 then 65 else 0\<rparr>)) (vaddr 0) = 65"
    using scroll_moves_up [of "s\<lparr>vmem := \<lambda>a. if a = vaddr 160 then 65 else 0\<rparr>"]
    by (auto simp: LINE_RAM_def MAX_COLUMNS_def)
qed

text \<open>
  \<open>itoa\<close> writes the number: the buffer holds, terminated, a minus sign exactly for a
  negative number in format \<^verbatim>\<open>d\<close> and then the digits whose value in the base is its magnitude, with no
  leading zero; at most 12 bytes are written.
\<close>

theorem itoa_correct:
  assumes "unat buf + 12 \<le> 4294967296"
  shows "let neg = (base = 100 \<and> sint d < 0); b = (if base = 120 then 16 else 10);
             xs = num_text b (if neg then nat (- sint d) else unat d) in
    cstr (itoa buf base d m) buf ((if neg then [45] else []) @ xs) \<and>
    text_val b xs = (if neg then nat (- sint d) else unat d) \<and>
    (hd xs = 48 \<longleftrightarrow> d = 0) \<and> (\<forall>a. a \<notin> region buf 12 \<longrightarrow> itoa buf base d m a = m a)"
proof -
  let ?neg = "base = 100 \<and> sint d < 0" and ?b = "if base = 120 then 16 else 10 :: nat"
  let ?n = "if ?neg then nat (- sint d) else unat d"
  have t: "itoa_text base d = (if ?neg then [45] else []) @ num_text ?b ?n"
    by (auto simp: itoa_text_def unat_neg_sint)
  have z: "?n = 0 \<longleftrightarrow> d = 0" by (auto simp: unat_eq_0)
  have "a \<notin> region buf 12 \<longrightarrow> itoa buf base d m a = m a" for a
    using region_mono [of "Suc (length (itoa_text base d))" 12 buf] length_itoa_text [of base d] assms
    by (auto simp: itoa_put intro!: put_bytes_outside)
  moreover have "cstr (itoa buf base d m) buf (itoa_text base d)"
    using assms itoa_text_nonzero length_itoa_text [of base d] by (simp add: itoa_put put_bytes_cstr)
  ultimately show ?thesis
    using z num_text_hd [of ?b ?n] text_val_num_text [of ?b ?n] by (simp add: t Let_def)
qed

theorem itoa_correct_witness: "cstr (itoa 0x1000 100 (- 42) (\<lambda>_. 0)) 0x1000 [45, 52, 50]"
proof -
  have "num_text 10 42 = [52, 50]" by (simp add: num_text.simps digit_byte_def)
  then show ?thesis using itoa_correct [of "0x1000" 100 "- 42" "\<lambda>_. 0"] by (simp add: Let_def)
qed

end
