(* ===== verification/Kprintf.thy ===== *)
theory Kprintf
  imports Screen
begin

text \<open>
  The kernel's formatted output, \<^verbatim>\<open>kprintf.c\<close>: a format is expanded into a static buffer of 1024
  bytes, which is then printed character by character. Reading the format past its terminator and
  writing past the buffer are errors of the model; the code checks for neither.
\<close>

section \<open>Results\<close>

datatype kp_error = Past_Format | Past_Buffer

text \<open>Sequencing: the first error stops the call.\<close>

definition seq :: "kp_error + 'a \<Rightarrow> ('a \<Rightarrow> kp_error + 'b) \<Rightarrow> kp_error + 'b" where
  "seq r f = (case r of Inl e \<Rightarrow> Inl e | Inr a \<Rightarrow> f a)"

lemma seq_simps [simp]: "seq (Inl e) f = Inl e" "seq (Inr a) f = f a"
  by (simp_all add: seq_def)

lemma seq_assoc: "seq (seq r f) g = seq r (\<lambda>a. seq (f a) g)"
  by (cases r) simp_all

section \<open>The buffer\<close>

definition BUF_SIZE :: nat where "BUF_SIZE = 1024"

text \<open>\<^verbatim>\<open>buf[ptr++] = c\<close>: the bytes written so far are a list, \<^verbatim>\<open>ptr\<close> is its length.\<close>

definition put_buf :: "u8 \<Rightarrow> u8 list \<Rightarrow> kp_error + u8 list" where
  "put_buf c b = (if length b < BUF_SIZE then Inr (b @ [c]) else Inl Past_Buffer)"

text \<open>
  \<^verbatim>\<open>parse_num\<close>. The recursion ends for the bases in use; the test \<^verbatim>\<open>1 < base\<close> only makes the
  function total.
\<close>

function parse_num :: "u32 \<Rightarrow> u32 \<Rightarrow> u8 list \<Rightarrow> kp_error + u8 list" where
  "parse_num value base b =
     (let n = value div base; r = value mod base;
          (n, r) = (if sint r < 0 then (n - 1, r + base) else (n, r))
      in if base \<le> value \<and> 1 < base \<and> n < value
         then seq (parse_num n base b) (put_buf (ucast r + 48))
         else put_buf (ucast r + 48) b)"
  by pat_completeness auto
termination
  by (relation "measure (\<lambda>(value, base, b). unat value)") (auto simp: word_less_nat_alt)

declare parse_num.simps [simp del]

text \<open>\<^verbatim>\<open>parse_hex\<close>: \<open>i\<close> counts down from 8; the digit table has the digits of \<open>digit_char\<close>.\<close>

definition hex_digit :: "u32 \<Rightarrow> nat \<Rightarrow> u8" where
  "hex_digit value i = digit_char (drop_bit (i * 4) value AND 0xf)"

fun parse_hex_loop :: "nat \<Rightarrow> u32 \<Rightarrow> u8 list \<Rightarrow> kp_error + u8 list" where
  "parse_hex_loop 0 value b = Inr b"
| "parse_hex_loop (Suc i) value b = seq (put_buf (hex_digit value i) b) (parse_hex_loop i value)"

definition parse_hex :: "u32 \<Rightarrow> u8 list \<Rightarrow> kp_error + u8 list" where
  "parse_hex value b = parse_hex_loop 8 value b"

text \<open>\<^verbatim>\<open>while (*s) buf[ptr++] = *s++;\<close>\<close>

function copy_str :: "mem \<Rightarrow> u32 \<Rightarrow> u8 list \<Rightarrow> kp_error + u8 list" where
  "copy_str m s b =
     (if m s = 0 then Inr b
      else if length b < BUF_SIZE then copy_str m (s + 1) (b @ [m s]) else Inl Past_Buffer)"
  by pat_completeness auto
termination
  by (relation "measure (\<lambda>(m, s, b). BUF_SIZE - length b)") auto

declare copy_str.simps [simp del]

section \<open>The format\<close>

text \<open>
  The format is the list of bytes before its terminator, \<open>args\<close> the words on the stack after it and
  \<open>n\<close> the number of words consumed. After a percent sign or a backslash the next byte is taken
  whatever it is, so one at the end of the format swallows the terminator and the loop runs on.
\<close>

fun escape :: "u8 \<Rightarrow> u8 list \<Rightarrow> kp_error + u8 list" where
  "escape c b =
     (if c = 97 then put_buf 7 b else if c = 98 then put_buf 8 b else if c = 116 then put_buf 9 b
      else if c = 110 then put_buf 10 b else if c = 114 then put_buf 13 b
      else if c = 92 then put_buf 92 b else Inr b)"

definition convert :: "mem \<Rightarrow> u8 \<Rightarrow> u32 \<Rightarrow> u8 list \<Rightarrow> kp_error + u8 list" where
  "convert m c a b =
     (if c = 115 then copy_str m a b
      else if c = 99 then put_buf (ucast a) b
      else if c = 120 then parse_hex a b
      else if c = 100 then parse_num a 10 b
      else put_buf c b)"

definition takes_arg :: "u8 \<Rightarrow> bool" where
  "takes_arg c \<longleftrightarrow> c = 115 \<or> c = 99 \<or> c = 120 \<or> c = 100"

fun kformat :: "mem \<Rightarrow> (nat \<Rightarrow> u32) \<Rightarrow> nat \<Rightarrow> u8 list \<Rightarrow> u8 list \<Rightarrow> kp_error + u8 list" where
  "kformat m args n [] b = Inr b"
| "kformat m args n [c] b =
     (if c \<noteq> 37 \<and> c \<noteq> 92 then seq (put_buf c b) (kformat m args n [])
      else seq (if c = 92 then Inr b else put_buf 0 b) (\<lambda>_. Inl Past_Format))"
| "kformat m args n (c # d # fmt) b =
     (if c \<noteq> 37 \<and> c \<noteq> 92 then seq (put_buf c b) (kformat m args n (d # fmt))
      else if c = 92 then seq (escape d b) (kformat m args n fmt)
      else seq (convert m d (args n) b) (kformat m args (if takes_arg d then Suc n else n) fmt))"

section \<open>The call\<close>

datatype KP_LEVEL = KPL_DUMP | KPL_PANIC

fun KPL :: "KP_LEVEL \<Rightarrow> COLOUR \<times> COLOUR" where
  "KPL KPL_DUMP = (BRIGHT_WHITE, BLACK)"
| "KPL KPL_PANIC = (YELLOW, RED)"

text \<open>The loop over the buffer.\<close>

definition print_all :: "KP_LEVEL \<Rightarrow> u8 list \<Rightarrow> screen \<Rightarrow> screen" where
  "print_all kl b s = fold (\<lambda>c. print_c c (fst (KPL kl)) (snd (KPL kl))) b s"

definition kprintf :: "KP_LEVEL \<Rightarrow> u8 list \<Rightarrow> (nat \<Rightarrow> u32) \<Rightarrow> screen \<Rightarrow> kp_error + screen" where
  "kprintf kl fmt args s =
     seq (kformat (vmem s) args 0 fmt []) (\<lambda>b.
       if length b < BUF_SIZE then Inr (print_all kl b s) else Inl Past_Buffer)"

section \<open>The conversions\<close>

text \<open>What a conversion appends; \<open>emit b xs\<close> is the buffer after writing \<open>xs\<close>, or the overflow.\<close>

definition emit :: "u8 list \<Rightarrow> u8 list \<Rightarrow> kp_error + u8 list" where
  "emit b xs = (if length b + length xs \<le> BUF_SIZE then Inr (b @ xs) else Inl Past_Buffer)"

lemma emit_Nil: "length b \<le> BUF_SIZE \<Longrightarrow> emit b [] = Inr b"
  by (simp add: emit_def)

lemma put_buf_emit: "put_buf c b = emit b [c]"
  by (simp add: put_buf_def emit_def)

lemma seq_emit: "length b \<le> BUF_SIZE \<Longrightarrow> seq (emit b xs) (\<lambda>c. emit c ys) = emit b (xs @ ys)"
  by (auto simp: emit_def)

lemma seq_emit_put: "length b \<le> BUF_SIZE \<Longrightarrow> seq (emit b xs) (put_buf c) = emit b (xs @ [c])"
  by (auto simp: emit_def put_buf_def)

lemma parse_num_emit: "length b \<le> BUF_SIZE \<Longrightarrow> parse_num v 10 b = emit b (num_text 10 (unat v))"
proof (induction v "10 :: u32" b rule: parse_num.induct)
  case (1 v b)
  have r: "\<not> sint (v mod 10) < 0"
  proof -
    have "sint (v mod 10) = uint (v mod 10)" by (rule sint_small) (use uint_mod_10 [of v] in linarith)
    then show ?thesis using uint_ge_0 [of "v mod 10"] by linarith
  qed
  have c: "ucast (v mod 10) + 48 = digit_byte (unat v mod 10)"
  proof -
    have "(ucast (v mod 10) :: u8) = of_nat (unat (v mod 10))" by simp
    then show ?thesis by (simp add: digit_byte_def unat_mod)
  qed
  have le: "10 \<le> v \<longleftrightarrow> 10 \<le> unat v" by (simp add: word_le_nat_alt)
  show ?case
  proof (cases "10 \<le> unat v")
    case True
    then have lt: "v div 10 < v" by (simp add: word_less_nat_alt unat_div)
    have "parse_num (v div 10) 10 b = emit b (num_text 10 (unat (v div 10)))"
      by (rule "1.hyps") (use True r lt le "1.prems" in auto)
    then show ?thesis
      using True r le lt "1.prems"
      by (simp add: parse_num.simps [of v 10 b] num_text.simps [of 10 "unat v"] c seq_emit_put unat_div)
  next
    case False
    then show ?thesis
      using r le by (simp add: parse_num.simps [of v 10 b] num_text.simps [of 10 "unat v"] c put_buf_emit)
  qed
qed

lemma hex_digit_byte: "hex_digit v i = digit_byte (unat v div 16 ^ i mod 16)"
proof -
  have m: "w AND 0xf = take_bit 4 w" for w :: u32
    by (simp add: take_bit_eq_mask mask_eq_exp_minus_1)
  have d: "unat (drop_bit (i * 4) v AND 0xf) = unat v div 16 ^ i mod 16"
    unfolding m unsigned_take_bit_eq unsigned_drop_bit_eq
    using power_mult [of "2 :: nat" 4 i] unat_lt_u32 [of v]
    by (simp add: take_bit_eq_mod drop_bit_eq_div mult.commute)
  show ?thesis unfolding hex_digit_def digit_char_byte d ..
qed

lemma parse_hex_emit: "length b \<le> BUF_SIZE \<Longrightarrow> parse_hex v b = emit b (num_fixed 16 8 (unat v))"
proof -
  have "length b \<le> BUF_SIZE \<Longrightarrow> parse_hex_loop k v b = emit b (num_fixed 16 k (unat v))" for k
  proof (induction k arbitrary: b)
    case 0
    then show ?case by (simp add: emit_def)
  next
    case (Suc k)
    show ?case
    proof (cases "length b < BUF_SIZE")
      case True
      then have "parse_hex_loop k v (b @ [hex_digit v k]) = emit (b @ [hex_digit v k]) (num_fixed 16 k (unat v))"
        by (intro Suc.IH) simp
      with True show ?thesis by (simp add: put_buf_def emit_def hex_digit_byte)
    qed (simp add: put_buf_def emit_def)
  qed
  then show "length b \<le> BUF_SIZE \<Longrightarrow> ?thesis" by (simp add: parse_hex_def)
qed

lemma copy_str_emit: "cstr m s xs \<Longrightarrow> length b \<le> BUF_SIZE \<Longrightarrow> copy_str m s b = emit b xs"
proof (induction xs arbitrary: s b)
  case Nil
  then show ?case by (simp add: copy_str.simps [of m s b] emit_def)
next
  case (Cons x xs)
  show ?case
  proof (cases "length b < BUF_SIZE")
    case True
    then have "copy_str m (s + 1) (b @ [x]) = emit (b @ [x]) xs"
      using Cons.prems by (intro Cons.IH) simp_all
    with True Cons.prems show ?thesis by (simp add: copy_str.simps [of m s b] emit_def)
  next
    case False
    with Cons.prems show ?thesis by (simp add: copy_str.simps [of m s b] emit_def)
  qed
qed

section \<open>Formats as sequences of items\<close>

text \<open>
  The abstract view of a format: literal bytes, escapes and conversions, each with the format text it
  stands for, the stack word it consumes and the bytes it prints. An escape with a letter that is not in the
  table prints nothing; a percent sign with a letter that is no conversion prints the letter.
\<close>

datatype kp_item = Byte u8 | Str u32 "u8 list" | Chr u32 | Hex u32 | Dec u32 | Percent | Letter u8 | Escape u8

fun item_fmt :: "kp_item \<Rightarrow> u8 list" where
  "item_fmt (Byte c) = [c]"
| "item_fmt (Str a xs) = [37, 115]"
| "item_fmt (Chr a) = [37, 99]"
| "item_fmt (Hex a) = [37, 120]"
| "item_fmt (Dec a) = [37, 100]"
| "item_fmt Percent = [37, 37]"
| "item_fmt (Letter c) = [37, c]"
| "item_fmt (Escape c) = [92, c]"

fun item_args :: "kp_item \<Rightarrow> u32 list" where
  "item_args (Str a xs) = [a]"
| "item_args (Chr a) = [a]"
| "item_args (Hex a) = [a]"
| "item_args (Dec a) = [a]"
| "item_args i = []"

definition escapes :: "(char \<times> u8) list" where
  "escapes = [(CHR ''a'', 0x07), (CHR ''b'', 0x08), (CHR ''t'', 0x09), (CHR ''n'', 0x0a), (CHR ''r'', 0x0d),
     (CHR 0x5c, 0x5c)]"

definition escape_out :: "u8 \<Rightarrow> u8 list" where
  "escape_out c = map snd (filter (\<lambda>(k, x). of_char k = c) escapes)"

fun item_out :: "kp_item \<Rightarrow> u8 list" where
  "item_out (Byte c) = [c]"
| "item_out (Str a xs) = xs"
| "item_out (Chr a) = [ucast a]"
| "item_out (Hex a) = num_fixed 16 8 (unat a)"
| "item_out (Dec a) = num_text 10 (unat a)"
| "item_out Percent = [37]"
| "item_out (Letter c) = [c]"
| "item_out (Escape c) = escape_out c"

fun item_ok :: "mem \<Rightarrow> kp_item \<Rightarrow> bool" where
  "item_ok m (Byte c) \<longleftrightarrow> c \<noteq> 37 \<and> c \<noteq> 92"
| "item_ok m (Str a xs) \<longleftrightarrow> cstr m a xs"
| "item_ok m (Letter c) \<longleftrightarrow> c \<notin> of_char ` set ''scxd''"
| "item_ok m i \<longleftrightarrow> True"

text \<open>The words from position \<open>n\<close> of the stack on are \<open>ws\<close>.\<close>

definition args_from :: "(nat \<Rightarrow> u32) \<Rightarrow> nat \<Rightarrow> u32 list \<Rightarrow> bool" where
  "args_from args n ws \<longleftrightarrow> (\<forall>i<length ws. args (n + i) = ws ! i)"

lemma args_from_Nil [simp]: "args_from args n []"
  by (simp add: args_from_def)

lemma args_from_Cons [simp]: "args_from args n (w # ws) \<longleftrightarrow> args n = w \<and> args_from args (Suc n) ws"
  by (auto simp: args_from_def less_Suc_eq_0_disj)

lemma kformat_byte: "c \<noteq> 37 \<Longrightarrow> c \<noteq> 92 \<Longrightarrow> kformat m args n (c # fmt) b = seq (put_buf c b) (kformat m args n fmt)"
  by (cases fmt) simp_all

lemma escape_emit: "length b \<le> BUF_SIZE \<Longrightarrow> escape c b = emit b (escape_out c)"
  by (simp add: escape_out_def escapes_def put_buf_emit emit_Nil)

lemma kformat_item:
  assumes "item_ok m i" and "args_from args n (item_args i @ ws)" and "length b \<le> BUF_SIZE"
  shows "kformat m args n (item_fmt i @ fmt) b =
    seq (emit b (item_out i)) (kformat m args (n + length (item_args i)) fmt)"
  using assms
  by (cases i) (simp_all add: kformat_byte convert_def takes_arg_def put_buf_emit copy_str_emit parse_num_emit parse_hex_emit
      escape_emit del: escape.simps)

lemma kformat_items:
  "\<forall>i\<in>set is. item_ok m i \<Longrightarrow> args_from args n (concat (map item_args is)) \<Longrightarrow> length b \<le> BUF_SIZE \<Longrightarrow>
    kformat m args n (concat (map item_fmt is)) b = emit b (concat (map item_out is))"
proof (induction "is" arbitrary: n b)
  case Nil
  then show ?case by (simp add: emit_def)
next
  case (Cons i "is")
  have args: "args_from args (n + length (item_args i)) (concat (map item_args is))"
    using Cons.prems(2) by (auto simp: args_from_def nth_append ac_simps dest: spec [of _ "_ + length (item_args i)"])
  have "kformat m args n (concat (map item_fmt (i # is))) b =
      seq (emit b (item_out i)) (kformat m args (n + length (item_args i)) (concat (map item_fmt is)))"
    using kformat_item [of m i args n "concat (map item_args is)" b "concat (map item_fmt is)"] Cons.prems by simp
  also have "\<dots> = emit b (item_out i @ concat (map item_out is))"
  proof (cases "length b + length (item_out i) \<le> BUF_SIZE")
    case True
    then have "kformat m args (n + length (item_args i)) (concat (map item_fmt is)) (b @ item_out i) =
        emit (b @ item_out i) (concat (map item_out is))"
      using Cons.prems args by (intro Cons.IH) simp_all
    with True show ?thesis by (simp add: emit_def)
  next
    case False
    then show ?thesis by (simp add: emit_def)
  qed
  finally show ?case by simp
qed

text \<open>
  A percent sign or a backslash at the very end takes the terminator as its letter, and the loop goes on behind the
  format; the percent sign has stored the terminator before that.
\<close>

lemma kformat_prefix:
  "\<forall>i\<in>set is. item_ok m i \<Longrightarrow> args_from args n (concat (map item_args is)) \<Longrightarrow> length b \<le> BUF_SIZE \<Longrightarrow>
    kformat m args n (concat (map item_fmt is) @ fmt) b =
      seq (emit b (concat (map item_out is))) (kformat m args (n + length (concat (map item_args is))) fmt)"
proof (induction "is" arbitrary: n b)
  case Nil
  then show ?case by (simp add: emit_Nil)
next
  case (Cons i "is")
  have args: "args_from args (n + length (item_args i)) (concat (map item_args is))"
    using Cons.prems(2) by (auto simp: args_from_def nth_append ac_simps dest: spec [of _ "_ + length (item_args i)"])
  have "kformat m args n (concat (map item_fmt (i # is)) @ fmt) b =
      seq (emit b (item_out i)) (kformat m args (n + length (item_args i)) (concat (map item_fmt is) @ fmt))"
    using kformat_item [of m i args n "concat (map item_args is)" b "concat (map item_fmt is) @ fmt"] Cons.prems by simp
  also have "\<dots> = seq (emit b (item_out i @ concat (map item_out is)))
      (kformat m args (n + length (concat (map item_args (i # is)))) fmt)"
  proof (cases "length b + length (item_out i) \<le> BUF_SIZE")
    case True
    then have "kformat m args (n + length (item_args i)) (concat (map item_fmt is) @ fmt) (b @ item_out i) =
        seq (emit (b @ item_out i) (concat (map item_out is)))
          (kformat m args (n + length (item_args i) + length (concat (map item_args is))) fmt)"
      using Cons.prems args by (intro Cons.IH) simp_all
    with True show ?thesis by (simp add: emit_def add.assoc)
  next
    case False
    then show ?thesis by (simp add: emit_def)
  qed
  finally show ?case by simp
qed

lemma kformat_trailing:
  assumes "\<forall>i\<in>set is. item_ok m i" and "args_from args 0 (concat (map item_args is))"
  shows "kformat m args 0 (concat (map item_fmt is) @ [37]) [] =
      Inl (if length (concat (map item_out is)) < BUF_SIZE then Past_Format else Past_Buffer)"
    and "kformat m args 0 (concat (map item_fmt is) @ [92]) [] =
      Inl (if length (concat (map item_out is)) \<le> BUF_SIZE then Past_Format else Past_Buffer)"
  using kformat_prefix [of "is" m args 0 "[]" "[37]"] kformat_prefix [of "is" m args 0 "[]" "[92]"] assms
  by (auto simp: emit_def put_buf_def)

section \<open>Properties\<close>

text \<open>
  Property C19. \<open>kprintf\<close> prints what its format says: for every sequence of literal bytes, escapes and
  conversions, with the stack words the conversions take, the text of the items is printed in order
  in the colours of the level, provided it is shorter than the buffer of 1024 bytes; a longer text
  overruns the buffer. A format that ends in a percent sign or a backslash is read past its end, unless the buffer is
  overrun before: a percent sign still stores a byte, a backslash does not.
\<close>

theorem kprintf_correct:
  fixes "is" kl args s
  defines "out \<equiv> concat (map item_out is)"
  assumes "\<forall>i\<in>set is. item_ok (vmem s) i" and "args_from args 0 (concat (map item_args is))"
    and "0 \<notin> set (concat (map item_fmt is))"
  shows "kprintf kl (concat (map item_fmt is)) args s =
      (if length out < 1024 then Inr (fold (\<lambda>c. print_c c (fst (KPL kl)) (snd (KPL kl))) out s) else Inl Past_Buffer) \<and>
    kprintf kl (concat (map item_fmt is) @ [37]) args s = Inl (if length out < 1024 then Past_Format else Past_Buffer) \<and>
    kprintf kl (concat (map item_fmt is) @ [92]) args s = Inl (if length out \<le> 1024 then Past_Format else Past_Buffer)"
proof -
  have "kformat (vmem s) args 0 (concat (map item_fmt is)) [] = emit [] out"
    unfolding out_def using assms by (intro kformat_items) simp_all
  moreover note kformat_trailing [OF assms(2,3), folded out_def]
  ultimately show ?thesis by (auto simp: kprintf_def emit_def print_all_def BUF_SIZE_def)
qed

theorem kprintf_correct_witness:
  "\<forall>init. \<exists>s. kprintf KPL_DUMP [97, 37, 100, 92, 110] (\<lambda>_. 42) init = Inr s"
proof
  fix init :: screen
  have "kprintf KPL_DUMP [97, 37, 100, 92, 110] (\<lambda>_. 42) init =
      Inr (fold (\<lambda>c. print_c c BRIGHT_WHITE BLACK) [97, 52, 50, 10] init)"
    using kprintf_correct [of "[Byte 97, Dec 42, Escape 110]" init "\<lambda>_. 42" KPL_DUMP]
    by (simp add: num_text.simps digit_byte_def escape_out_def escapes_def)
  then show "\<exists>s. kprintf KPL_DUMP [97, 37, 100, 92, 110] (\<lambda>_. 42) init = Inr s" by simp
qed

end
