(* ===== verification/Exceptions.thy ===== *)
theory Exceptions
  imports Kprintf Task
begin

text \<open>
  The exception handlers, \<^verbatim>\<open>exceptions.c\<close>, and the page-fault report of \<^verbatim>\<open>page.c\<close>: they print the
  saved registers and the current task through \<open>kprintf\<close> and halt. The entry code in \<^verbatim>\<open>isr.S\<close> pushes
  the frame, here a record, and calls the handler of its table. Addresses of string literals are a parameter \<open>lit\<close>, chosen by the
  linker; the stack words beyond the arguments of a call are a parameter too.
\<close>

section \<open>Frames and stacks\<close>

record frame =
  fr_ss :: u32  fr_gs :: u32  fr_fs :: u32  fr_es :: u32  fr_ds :: u32
  fr_edi :: u32  fr_esi :: u32  fr_ebp :: u32  fr_esp :: u32
  fr_ebx :: u32  fr_edx :: u32  fr_ecx :: u32  fr_eax :: u32
  fr_isr_nr :: u32  fr_err :: u32
  fr_eip :: u32  fr_cs :: u32  fr_eflags :: u32  fr_old_esp :: u32  fr_old_ss :: u32

declare bytes_simps [simp del]

abbreviation TB :: char where "TB \<equiv> CHR 0x09"
abbreviation NL :: char where "NL \<equiv> CHR 0x0A"

text \<open>The argument words of a call and what lies above them on the stack.\<close>

definition stack :: "u32 list \<Rightarrow> (nat \<Rightarrow> u32) \<Rightarrow> nat \<Rightarrow> u32" where
  "stack ws rest i = (if i < length ws then ws ! i else rest (i - length ws))"

text \<open>A 64-bit argument takes two words, the low one first.\<close>

definition words64 :: "u64 \<Rightarrow> u32 list" where
  "words64 x = [ucast x, ucast (drop_bit 32 x)]"

section \<open>The report\<close>

definition exception_msg :: "string list" where
  "exception_msg = [''DIVIDE ERROR'', ''DEBUG EXCEPTION'', ''BREAKPOINT'', ''NMI'', ''OVERFLOW'',
     ''BOUNDS CHECK'', ''INVALID OPCODE'', ''COPROCESSOR NOT VALID'', ''DOUBLE FAULT'', ''OVERRUN'',
     ''INVALID TSS'', ''SEGMENTATION NOT PRESENT'', ''STACK EXCEPTION'', ''GENERAL PROTECTION'',
     ''PAGE FAULT'', ''REVERSED'', ''COPROCESSOR_ERROR'']"

text \<open>
  \<^verbatim>\<open>exception_msg[isr_nr]\<close>: a table of 17 pointers; \<open>beyond\<close> are the words that follow it in memory.
  The test in the code compares with \<^verbatim>\<open>sizeof exception_msg\<close>, the size of the table in bytes.
\<close>

definition msg_ptr :: "(string \<Rightarrow> u32) \<Rightarrow> (nat \<Rightarrow> u32) \<Rightarrow> u32 \<Rightarrow> u32" where
  "msg_ptr lit beyond nr =
     (if unat nr < length exception_msg then lit (exception_msg ! unat nr)
      else beyond (unat nr - length exception_msg))"

definition sizeof_msg :: u32 where
  "sizeof_msg = of_nat (4 * length exception_msg)"

definition print_task :: "(nat \<Rightarrow> u32) \<Rightarrow> task_struct \<Rightarrow> screen \<Rightarrow> kp_error + screen" where
  "print_task rest t s0 =
     seq (kprintf KPL_DUMP (bytes (''================ tss ==============='' @ [NL])) (stack [] rest) s0) (\<lambda>s.
     seq (kprintf KPL_DUMP (bytes (''back_link:%x'' @ TB # ''esp0:%x'' @ TB # ''%ss0:%x'' @ [NL]))
           (stack [tss_back_link (tss t), tss_esp0 (tss t), tss_ss0 (tss t)] rest) s) (\<lambda>s.
     seq (kprintf KPL_DUMP (bytes (''esp1:%x'' @ TB # ''ss1:%x'' @ TB # ''esp2:%x'' @ TB # ''ss2:%x'' @ [NL]))
           (stack [tss_esp1 (tss t), tss_ss1 (tss t), tss_esp2 (tss t), tss_ss2 (tss t)] rest) s) (\<lambda>s.
     seq (kprintf KPL_DUMP (bytes (''cr3:%x'' @ TB # ''eip:%x'' @ TB # ''eflags:%x'' @ [NL]))
           (stack [tss_cr3 (tss t), tss_eip (tss t), tss_eflags (tss t)] rest) s) (\<lambda>s.
     seq (kprintf KPL_DUMP (bytes (''eax:%x'' @ TB # ''ebx:%x'' @ TB # ''ecx:%x'' @ TB # ''edx:%x'' @ [NL]))
           (stack [tss_eax (tss t), tss_ebx (tss t), tss_ecx (tss t), tss_edx (tss t)] rest) s) (\<lambda>s.
     seq (kprintf KPL_DUMP (bytes (''esp:%x'' @ TB # ''ebp:%x'' @ TB # ''esi:%x'' @ TB # ''edi:%x'' @ [NL]))
           (stack [tss_esp (tss t), tss_ebp (tss t), tss_esi (tss t), tss_edi (tss t)] rest) s) (\<lambda>s.
     seq (kprintf KPL_DUMP (bytes (''es:%x'' @ TB # ''cs:%x'' @ TB # ''ds:%x'' @ [NL]))
           (stack [tss_es (tss t), tss_cs (tss t), tss_ds (tss t)] rest) s) (\<lambda>s.
     seq (kprintf KPL_DUMP (bytes (''ss:%x'' @ TB # ''fs:%x'' @ TB # ''gs:%x'' @ [NL]))
           (stack [tss_ss (tss t), tss_fs (tss t), tss_gs (tss t)] rest) s) (\<lambda>s.
     seq (kprintf KPL_DUMP (bytes (''ldt:%x'' @ TB # ''trace_bitmap:%x'' @ [NL]))
           (stack [tss_ldt (tss t), tss_trace_bitmap (tss t)] rest) s) (\<lambda>s.
     seq (kprintf KPL_DUMP (bytes (''=============== process ============'' @ [NL])) (stack [] rest) s) (\<lambda>s.
     seq (kprintf KPL_DUMP (bytes (NL # ''tss_entry:%x'' @ TB # ''ldt_entry:%x'' @ [NL]))
           (stack (words64 (tss_entry t) @ words64 (ldt_entry t)) rest) s) (\<lambda>s.
     seq (kprintf KPL_DUMP (bytes (''ldt[0]:%x %x'' @ TB # NL # ''ldt[1]:%x %x'' @ [NL]))
           (stack (words64 (fst (task_ldt t)) @ words64 (fst (task_ldt t)) @
                   words64 (snd (task_ldt t)) @ words64 (snd (task_ldt t))) rest) s) (\<lambda>s.
     kprintf KPL_DUMP (bytes (''state:%d'' @ TB # ''priority:%x'' @ TB # ''next:'' @ [NL]))
           (stack [task_state t, priority t, nxt t] rest) s))))))))))))"

text \<open>The body of \<^verbatim>\<open>info\<close> before it prints the current task.\<close>

definition info_regs ::
  "(string \<Rightarrow> u32) \<Rightarrow> (nat \<Rightarrow> u32) \<Rightarrow> (nat \<Rightarrow> u32) \<Rightarrow> u32 \<Rightarrow> u32 \<Rightarrow> KP_LEVEL \<Rightarrow> frame \<Rightarrow> screen \<Rightarrow> kp_error + screen" where
  "info_regs lit beyond rest cr2 cr3 kl fr s0 =
     seq (if fr_isr_nr fr < sizeof_msg
          then kprintf kl (bytes (''EXCEPTION %d: %s'' @ NL # ''======================='' @ [NL]))
                 (stack [fr_isr_nr fr, msg_ptr lit beyond (fr_isr_nr fr)] rest) s0
          else kprintf kl (bytes (''INTERRUPT %d'' @ NL # ''======================='' @ [NL]))
                 (stack [fr_isr_nr fr] rest) s0) (\<lambda>s.
     seq (kprintf kl (bytes (''cs:'' @ TB # ''%x'' @ TB # ''eip:'' @ TB # ''%x'' @ TB # ''eflags:'' @ TB # ''%x'' @ [NL]))
           (stack [fr_cs fr, fr_eip fr, fr_eflags fr] rest) s) (\<lambda>s.
     seq (kprintf kl (bytes (''ss:'' @ TB # ''%x'' @ TB # ''esp:'' @ TB # ''%x'' @ [NL]))
           (stack [fr_ss fr, fr_esp fr] rest) s) (\<lambda>s.
     seq (kprintf kl (bytes (''old ss:'' @ TB # ''%x'' @ TB # ''old esp:%x'' @ [NL]))
           (stack [fr_old_ss fr, fr_old_esp fr] rest) s) (\<lambda>s.
     seq (kprintf kl (bytes (''errcode:%x'' @ TB # ''cr2:'' @ TB # ''%x'' @ TB # ''cr3:'' @ TB # ''%x'' @ [NL]))
           (stack [fr_err fr, cr2, cr3] rest) s) (\<lambda>s.
     seq (kprintf kl (bytes (''General Registers:'' @ NL # ''======================='' @ [NL])) (stack [] rest) s) (\<lambda>s.
     seq (kprintf kl (bytes (''eax:'' @ TB # ''%x'' @ TB # ''ebx:'' @ TB # ''%x'' @ [NL]))
           (stack [fr_eax fr, fr_ebx fr] rest) s) (\<lambda>s.
     seq (kprintf kl (bytes (''ecx:'' @ TB # ''%x'' @ TB # ''edx:'' @ TB # ''%x'' @ [NL]))
           (stack [fr_ecx fr, fr_edx fr] rest) s) (\<lambda>s.
     seq (kprintf kl (bytes (''esi:'' @ TB # ''%x'' @ TB # ''edi:'' @ TB # ''%x'' @ TB # ''ebp:'' @ TB # ''%x'' @ [NL]))
           (stack [fr_esi fr, fr_edi fr, fr_ebp fr] rest) s) (\<lambda>s.
     seq (kprintf kl (bytes (''Segment Registers:'' @ NL # ''======================='' @ [NL])) (stack [] rest) s) (\<lambda>s.
     seq (kprintf kl (bytes (''ds:'' @ TB # ''%x'' @ TB # ''es:'' @ TB # ''%x'' @ [NL]))
           (stack [fr_ds fr, fr_es fr] rest) s) (\<lambda>s.
     kprintf kl (bytes (''fs:'' @ TB # ''%x'' @ TB # ''gs:'' @ TB # ''%x'' @ [NL]))
           (stack [fr_fs fr, fr_gs fr] rest) s)))))))))))"

definition info ::
  "(string \<Rightarrow> u32) \<Rightarrow> (nat \<Rightarrow> u32) \<Rightarrow> (nat \<Rightarrow> u32) \<Rightarrow> u32 \<Rightarrow> u32 \<Rightarrow> task_struct \<Rightarrow> KP_LEVEL \<Rightarrow> frame \<Rightarrow> screen
    \<Rightarrow> kp_error + screen" where
  "info lit beyond rest cr2 cr3 cur kl fr s =
     seq (info_regs lit beyond rest cr2 cr3 kl fr s) (print_task rest cur)"

text \<open>\<^verbatim>\<open>do_page_fault\<close> of \<^verbatim>\<open>page.c\<close>\<close>

definition do_page_fault ::
  "(string \<Rightarrow> u32) \<Rightarrow> (nat \<Rightarrow> u32) \<Rightarrow> u32 \<Rightarrow> u32 \<Rightarrow> u32 \<Rightarrow> screen \<Rightarrow> kp_error + screen" where
  "do_page_fault lit rest cr2 cr3 err s =
     kprintf KPL_PANIC
       (bytes (NL # ''  The fault at %x cr3:%x was caused by a %s. '' @
          ''The accessing cause of the fault was a %s, when the '' @
          ''processor was executing in %s mode, page %x is free'' @ [NL]))
       (stack [cr2, cr3,
          lit (if err AND 1 \<noteq> 0 then ''page-level protection voilation'' else ''not-present page''),
          lit (if err AND 2 \<noteq> 0 then ''write'' else ''read''),
          lit (if err AND 4 \<noteq> 0 then ''user'' else ''supervisor''), 0] rest) s"

section \<open>The handlers\<close>

text \<open>One function per exception, in the order of the file; each reports at level panic and halts.\<close>

datatype handler = divide_error | debug_exception | breakpoint | nmi | overflow | bounds_check
  | invalid_opcode | cop_not_avalid | double_fault | overrun | invalid_tss | seg_not_present
  | stack_exception | general_protection | page_fault | reversed | coprocessor_error

text \<open>
  The entry of \<^verbatim>\<open>isr.S\<close> calls the handler of the vector's number; the timer, the keyboard, the mouse and the
  numbers from 48 on lead elsewhere.
\<close>

definition isr_handler :: "u32 \<Rightarrow> handler option" where
  "isr_handler nr =
     (if unat nr < 17
      then Some ([divide_error, debug_exception, breakpoint, nmi, overflow, bounds_check, invalid_opcode, cop_not_avalid,
        double_fault, overrun, invalid_tss, seg_not_present, stack_exception, general_protection, page_fault,
        reversed, coprocessor_error] ! unat nr)
      else if unat nr < 48 \<and> nr \<notin> {0x20, 0x21, 0x2c} then Some reversed
      else None)"

text \<open>
  How a handler ends: the processor stopped for good, or the handler returned to the entry, which returns from the
  interrupt. \<^verbatim>\<open>hlt\<close> waits for an interrupt: with interrupts off there is none (non-maskable ones
  aside), with interrupts on the next one lets the handler go on to its end.
\<close>

datatype handler_end = Halted screen | Resumed screen

fun hlt :: "bool \<Rightarrow> screen \<Rightarrow> handler_end" where
  "hlt False s = Halted s"
| "hlt True s = Resumed s"

text \<open>\<^verbatim>\<open>cli;hlt\<close>\<close>

definition halt :: "screen \<Rightarrow> handler_end" where
  "halt s = (let interrupts = False in hlt interrupts s)"

definition run_handler ::
  "(string \<Rightarrow> u32) \<Rightarrow> (nat \<Rightarrow> u32) \<Rightarrow> (nat \<Rightarrow> u32) \<Rightarrow> u32 \<Rightarrow> u32 \<Rightarrow> task_struct \<Rightarrow> handler \<Rightarrow> frame \<Rightarrow> screen
    \<Rightarrow> kp_error + handler_end" where
  "run_handler lit beyond rest cr2 cr3 cur h fr s =
     seq (case h of
            page_fault \<Rightarrow> do_page_fault lit rest cr2 cr3 (fr_err fr) s
          | _ \<Rightarrow> info lit beyond rest cr2 cr3 cur KPL_PANIC fr s)
       (\<lambda>s'. Inr (halt s'))"

section \<open>Successive messages\<close>

lemma bytes_append [simp]: "bytes (s @ t) = bytes s @ bytes t"
  by (simp add: bytes_def)

lemma stack_args [simp]: "args_from (stack ws rest) 0 ws"
  by (simp add: args_from_def stack_def)

lemma print_all_append: "print_all kl (xs @ ys) s = print_all kl ys (print_all kl xs s)"
  by (simp add: print_all_def)

lemma print_all_ok: "cursor_ok s \<Longrightarrow> only_screen (vmem s) (vmem (print_all kl xs s)) \<and> cursor_ok (print_all kl xs s)"
proof (induction xs arbitrary: s)
  case (Cons x xs)
  then show ?case
    using print_c_ok [of s x "fst (KPL kl)" "snd (KPL kl)"] only_screen_trans
    by (fastforce simp: print_all_def)
qed (simp add: print_all_def)

text \<open>Whatever a message prints, memory outside the screen keeps its bytes.\<close>

definition confined :: "mem \<Rightarrow> screen \<Rightarrow> bool" where
  "confined m s \<longleftrightarrow> only_screen m (vmem s) \<and> cursor_ok s"

lemma kprintf_confined: "confined m s \<Longrightarrow> kprintf kl fmt args s = Inr t \<Longrightarrow> confined m t"
  using print_all_ok [of s kl] only_screen_trans
  by (fastforce simp: confined_def kprintf_def seq_def split: sum.splits if_splits)

lemma seq_Inr_iff: "seq r f = Inr t \<longleftrightarrow> (\<exists>s. r = Inr s \<and> f s = Inr t)"
  by (cases r) simp_all

lemma print_task_confined: "confined m s \<Longrightarrow> print_task rest t s = Inr s' \<Longrightarrow> confined m s'"
  unfolding print_task_def seq_Inr_iff by (elim exE conjE) (iprover intro: kprintf_confined)

lemma kprintf_items:
  assumes "fmt = concat (map item_fmt is)" and "ws = concat (map item_args is)"
    and "out = concat (map item_out is)" and "\<forall>i\<in>set is. item_ok (vmem s) i" and "length out < BUF_SIZE"
  shows "kprintf kl fmt (stack ws rest) s = Inr (print_all kl out s)"
proof -
  have "kformat (vmem s) (stack ws rest) 0 fmt [] = emit [] out"
    unfolding assms(1,3) using assms(2,4) by (intro kformat_items) (simp_all flip: assms(2))
  then show ?thesis using assms(5) by (simp add: kprintf_def emit_def)
qed

text \<open>Literal text as items, and the eight hexadecimal digits of a word.\<close>

definition lits :: "string \<Rightarrow> kp_item list" where
  "lits s = map Byte (bytes s)"

definition hex8 :: "u32 \<Rightarrow> u8 list" where
  "hex8 v = num_fixed 16 8 (unat v)"

lemma lits_simps [simp]:
  "concat (map item_fmt (lits s)) = bytes s" "concat (map item_out (lits s)) = bytes s"
  "concat (map item_args (lits s)) = []"
  by (simp_all add: lits_def comp_def)

lemma lits_ok: "(\<forall>i\<in>set (lits s). item_ok m i) \<longleftrightarrow> (\<forall>c\<in>set (bytes s). c \<noteq> 37 \<and> c \<noteq> 92)"
  by (auto simp: lits_def)

lemma length_bytes [simp]: "length (bytes s) = length s"
  by (simp add: bytes_def)

lemma length_hex8 [simp]: "length (hex8 v) = 8"
  by (simp add: hex8_def)

lemma bytes_percent: "bytes ''%x'' = [37, 120]" "bytes ''%d'' = [37, 100]" "bytes ''%s'' = [37, 115]"
  by (simp_all add: bytes_def)

text \<open>A line of labelled hexadecimal words: label, separator, word, and so on.\<close>

definition reg_items :: "(string \<times> u32) list \<Rightarrow> kp_item list" where
  "reg_items rs = concat (map (\<lambda>(l, v). lits l @ [Hex v]) rs) @ [Byte 10]"

definition reg_line :: "(string \<times> u32) list \<Rightarrow> u8 list" where
  "reg_line rs = concat (map (\<lambda>(l, v). bytes l @ hex8 v) rs) @ [10]"

definition reg_fmt :: "(string \<times> u32) list \<Rightarrow> u8 list" where
  "reg_fmt rs = concat (map (\<lambda>(l, v). bytes (l @ ''%x'')) rs) @ bytes [NL]"

lemma kprintf_regs:
  assumes "\<forall>(l, v)\<in>set rs. \<forall>c\<in>set (bytes l). c \<noteq> 37 \<and> c \<noteq> 92" and "length (reg_line rs) < BUF_SIZE"
    and "ws = map snd rs" and "fmt = reg_fmt rs"
  shows "kprintf kl fmt (stack ws rest) s = Inr (print_all kl (reg_line rs) s)"
proof (rule kprintf_items [where ?is = "reg_items rs"])
  show "fmt = concat (map item_fmt (reg_items rs))"
    unfolding assms(4) by (induction rs) (auto simp: reg_fmt_def reg_items_def bytes_percent, simp add: bytes_def)
  show "ws = concat (map item_args (reg_items rs))"
    unfolding assms(3) by (induction rs) (auto simp: reg_items_def)
  show "reg_line rs = concat (map item_out (reg_items rs))"
    by (induction rs) (auto simp: reg_line_def reg_items_def hex8_def)
  show "\<forall>i\<in>set (reg_items rs). item_ok (vmem s) i"
    using assms(1) by (auto simp: reg_items_def lits_def)
qed (rule assms(2))

text \<open>Each call of \<open>info_regs\<close> prints one line of labelled registers.\<close>

lemma info_lines:
  "kprintf kl (bytes (''cs:'' @ TB # ''%x'' @ TB # ''eip:'' @ TB # ''%x'' @ TB # ''eflags:'' @ TB # ''%x'' @ [NL]))
      (stack [fr_cs fr, fr_eip fr, fr_eflags fr] rest) s =
      Inr (print_all kl (reg_line [(''cs:'' @ [TB], fr_cs fr), (TB # ''eip:'' @ [TB], fr_eip fr), (TB # ''eflags:'' @ [TB], fr_eflags fr)]) s)"
  "kprintf kl (bytes (''ss:'' @ TB # ''%x'' @ TB # ''esp:'' @ TB # ''%x'' @ [NL]))
      (stack [fr_ss fr, fr_esp fr] rest) s =
      Inr (print_all kl (reg_line [(''ss:'' @ [TB], fr_ss fr), (TB # ''esp:'' @ [TB], fr_esp fr)]) s)"
  "kprintf kl (bytes (''old ss:'' @ TB # ''%x'' @ TB # ''old esp:%x'' @ [NL]))
      (stack [fr_old_ss fr, fr_old_esp fr] rest) s =
      Inr (print_all kl (reg_line [(''old ss:'' @ [TB], fr_old_ss fr), (TB # ''old esp:'', fr_old_esp fr)]) s)"
  "kprintf kl (bytes (''errcode:%x'' @ TB # ''cr2:'' @ TB # ''%x'' @ TB # ''cr3:'' @ TB # ''%x'' @ [NL]))
      (stack [fr_err fr, cr2, cr3] rest) s =
      Inr (print_all kl (reg_line [(''errcode:'', fr_err fr), (TB # ''cr2:'' @ [TB], cr2), (TB # ''cr3:'' @ [TB], cr3)]) s)"
  "kprintf kl (bytes (''eax:'' @ TB # ''%x'' @ TB # ''ebx:'' @ TB # ''%x'' @ [NL]))
      (stack [fr_eax fr, fr_ebx fr] rest) s =
      Inr (print_all kl (reg_line [(''eax:'' @ [TB], fr_eax fr), (TB # ''ebx:'' @ [TB], fr_ebx fr)]) s)"
  "kprintf kl (bytes (''ecx:'' @ TB # ''%x'' @ TB # ''edx:'' @ TB # ''%x'' @ [NL]))
      (stack [fr_ecx fr, fr_edx fr] rest) s =
      Inr (print_all kl (reg_line [(''ecx:'' @ [TB], fr_ecx fr), (TB # ''edx:'' @ [TB], fr_edx fr)]) s)"
  "kprintf kl (bytes (''esi:'' @ TB # ''%x'' @ TB # ''edi:'' @ TB # ''%x'' @ TB # ''ebp:'' @ TB # ''%x'' @ [NL]))
      (stack [fr_esi fr, fr_edi fr, fr_ebp fr] rest) s =
      Inr (print_all kl (reg_line [(''esi:'' @ [TB], fr_esi fr), (TB # ''edi:'' @ [TB], fr_edi fr), (TB # ''ebp:'' @ [TB], fr_ebp fr)]) s)"
  "kprintf kl (bytes (''ds:'' @ TB # ''%x'' @ TB # ''es:'' @ TB # ''%x'' @ [NL]))
      (stack [fr_ds fr, fr_es fr] rest) s =
      Inr (print_all kl (reg_line [(''ds:'' @ [TB], fr_ds fr), (TB # ''es:'' @ [TB], fr_es fr)]) s)"
  "kprintf kl (bytes (''fs:'' @ TB # ''%x'' @ TB # ''gs:'' @ TB # ''%x'' @ [NL]))
      (stack [fr_fs fr, fr_gs fr] rest) s =
      Inr (print_all kl (reg_line [(''fs:'' @ [TB], fr_fs fr), (TB # ''gs:'' @ [TB], fr_gs fr)]) s)"
  by ((rule kprintf_regs; simp add: bytes_def reg_line_def reg_fmt_def BUF_SIZE_def))+

lemma kprintf_lits:
  assumes "\<forall>c\<in>set (bytes t). c \<noteq> 37 \<and> c \<noteq> 92" and "length t < BUF_SIZE"
  shows "kprintf kl (bytes t) (stack [] rest) s = Inr (print_all kl (bytes t) s)"
  by (rule kprintf_items [where ?is = "lits t"]) (use assms in \<open>simp_all add: lits_ok\<close>)

lemma info_titles:
  "kprintf kl (bytes (''General Registers:'' @ NL # ''======================='' @ [NL])) (stack [] rest) s =
     Inr (print_all kl (bytes (''General Registers:'' @ NL # ''======================='' @ [NL])) s)"
  "kprintf kl (bytes (''Segment Registers:'' @ NL # ''======================='' @ [NL])) (stack [] rest) s =
     Inr (print_all kl (bytes (''Segment Registers:'' @ NL # ''======================='' @ [NL])) s)"
  by (rule kprintf_lits; simp add: bytes_def BUF_SIZE_def)+

text \<open>The text of the report after its first two lines.\<close>

definition report :: "frame \<Rightarrow> u32 \<Rightarrow> u32 \<Rightarrow> u8 list" where
  "report fr cr2 cr3 =
     reg_line [(''cs:'' @ [TB], fr_cs fr), (TB # ''eip:'' @ [TB], fr_eip fr), (TB # ''eflags:'' @ [TB], fr_eflags fr)] @
     reg_line [(''ss:'' @ [TB], fr_ss fr), (TB # ''esp:'' @ [TB], fr_esp fr)] @
     reg_line [(''old ss:'' @ [TB], fr_old_ss fr), (TB # ''old esp:'', fr_old_esp fr)] @
     reg_line [(''errcode:'', fr_err fr), (TB # ''cr2:'' @ [TB], cr2), (TB # ''cr3:'' @ [TB], cr3)] @
     bytes (''General Registers:'' @ NL # ''======================='' @ [NL]) @
     reg_line [(''eax:'' @ [TB], fr_eax fr), (TB # ''ebx:'' @ [TB], fr_ebx fr)] @
     reg_line [(''ecx:'' @ [TB], fr_ecx fr), (TB # ''edx:'' @ [TB], fr_edx fr)] @
     reg_line [(''esi:'' @ [TB], fr_esi fr), (TB # ''edi:'' @ [TB], fr_edi fr), (TB # ''ebp:'' @ [TB], fr_ebp fr)] @
     bytes (''Segment Registers:'' @ NL # ''======================='' @ [NL]) @
     reg_line [(''ds:'' @ [TB], fr_ds fr), (TB # ''es:'' @ [TB], fr_es fr)] @
     reg_line [(''fs:'' @ [TB], fr_fs fr), (TB # ''gs:'' @ [TB], fr_gs fr)]"

lemma info_header:
  assumes "cstr (vmem s) p xs" and "length xs \<le> 900"
  shows "kprintf kl (bytes (''EXCEPTION %d: %s'' @ NL # ''======================='' @ [NL])) (stack [nr, p] rest) s =
    Inr (print_all kl (bytes ''EXCEPTION '' @ num_text 10 (unat nr) @ bytes '': '' @ xs @
      bytes (NL # ''======================='' @ [NL])) s)"
proof (rule kprintf_items [where ?is = "lits ''EXCEPTION '' @ [Dec nr] @ lits '': '' @ [Str p xs] @
      lits (NL # ''======================='' @ [NL])"])
  have "length (num_text 10 (unat nr)) \<le> 10" using unat_lt_u32 [of nr] by (intro length_num_text) simp_all
  then show "length (bytes ''EXCEPTION '' @ num_text 10 (unat nr) @ bytes '': '' @ xs @
      bytes (NL # ''======================='' @ [NL])) < BUF_SIZE"
    using assms(2) by (simp add: BUF_SIZE_def)
qed (use assms(1) in \<open>simp_all add: ball_Un lits_ok, simp_all add: bytes_def lits_def\<close>)

lemma info_header_interrupt:
  "kprintf kl (bytes (''INTERRUPT %d'' @ NL # ''======================='' @ [NL])) (stack [nr] rest) s =
    Inr (print_all kl (bytes ''INTERRUPT '' @ num_text 10 (unat nr) @
      bytes (NL # ''======================='' @ [NL])) s)"
proof (rule kprintf_items [where ?is = "lits ''INTERRUPT '' @ [Dec nr] @
      lits (NL # ''======================='' @ [NL])"])
  have "length (num_text 10 (unat nr)) \<le> 10" using unat_lt_u32 [of nr] by (intro length_num_text) simp_all
  then show "length (bytes ''INTERRUPT '' @ num_text 10 (unat nr) @
      bytes (NL # ''======================='' @ [NL])) < BUF_SIZE"
    by (simp add: BUF_SIZE_def)
qed (simp_all add: ball_Un lits_ok, simp_all add: bytes_def lits_def)

text \<open>The title of the report: with the message for the numbers that pass the test of the code.\<close>

definition title :: "u32 \<Rightarrow> u8 list \<Rightarrow> u8 list" where
  "title nr xs =
     (if unat nr < 68 then bytes ''EXCEPTION '' @ num_text 10 (unat nr) @ bytes '': '' @ xs
      else bytes ''INTERRUPT '' @ num_text 10 (unat nr)) @ bytes (NL # ''======================='' @ [NL])"

lemma length_exception_msg: "length exception_msg = 17"
  by (simp add: exception_msg_def)

section \<open>Properties\<close>

text \<open>
  The exception report is complete and in order: \<open>info\<close> prints the title, then every saved
  register with its eight hexadecimal digits. The message in the title is the string that the entry
  of the message table points to; for the numbers 17 to 67, which pass the test against the size of the
  table in bytes, that entry lies beyond the table.
\<close>

theorem exception_report:
  assumes "cstr (vmem s) (msg_ptr lit beyond (fr_isr_nr fr)) xs" and "length xs \<le> 900"
  shows "info_regs lit beyond rest cr2 cr3 kl fr s =
      Inr (fold (\<lambda>c. print_c c (fst (KPL kl)) (snd (KPL kl))) (title (fr_isr_nr fr) xs @ report fr cr2 cr3) s) \<and>
    (msg_ptr lit beyond (fr_isr_nr fr) =
      (if unat (fr_isr_nr fr) < 17 then lit (exception_msg ! unat (fr_isr_nr fr))
       else beyond (unat (fr_isr_nr fr) - 17)))"
proof -
  have lt: "fr_isr_nr fr < sizeof_msg \<longleftrightarrow> unat (fr_isr_nr fr) < 68"
    by (simp add: sizeof_msg_def length_exception_msg word_less_nat_alt)
  have "info_regs lit beyond rest cr2 cr3 kl fr s =
      Inr (print_all kl (title (fr_isr_nr fr) xs @ report fr cr2 cr3) s)"
    unfolding info_regs_def lt
    by (cases "unat (fr_isr_nr fr) < 68")
      (simp_all add: title_def report_def print_all_append info_lines info_titles
        info_header [OF assms] info_header_interrupt del: append_Cons append_assoc bytes_append)
  then show ?thesis by (simp add: print_all_def msg_ptr_def length_exception_msg)
qed

theorem exception_report_witness:
  "\<forall>fr s. \<exists>t. info_regs (\<lambda>_. 0x1000) (\<lambda>_. 0) (\<lambda>_. 0) 0 0 KPL_PANIC (fr\<lparr>fr_isr_nr := 0\<rparr>)
     (s\<lparr>vmem := (\<lambda>_. 0)(0x1000 := 68, 0x1001 := 69)\<rparr>) = Inr t"
proof (intro allI)
  fix fr :: frame and s :: screen
  show "\<exists>t. info_regs (\<lambda>_. 0x1000) (\<lambda>_. 0) (\<lambda>_. 0) 0 0 KPL_PANIC (fr\<lparr>fr_isr_nr := 0\<rparr>)
     (s\<lparr>vmem := (\<lambda>_. 0)(0x1000 := 68, 0x1001 := 69)\<rparr>) = Inr t"
    using exception_report [of "s\<lparr>vmem := (\<lambda>_. 0)(0x1000 := 68, 0x1001 := 69)\<rparr>" "\<lambda>_. 0x1000" "\<lambda>_. 0"
      "fr\<lparr>fr_isr_nr := 0\<rparr>" "[68, 69]" "\<lambda>_. 0" 0 0 KPL_PANIC]
    by (simp add: msg_ptr_def exception_msg_def)
qed

end
