(* ===== verification/Vesa.thy ===== *)
theory Vesa
  imports CString
begin

text \<open>
  The graphics screen, \<^verbatim>\<open>vesa.c\<close> with \<^verbatim>\<open>vbe.c\<close>, \<^verbatim>\<open>vbe.h\<close> and \<^verbatim>\<open>include/bmp.h\<close>. The frame buffer is part of
  the flat memory, one 32-bit word per pixel from \<^verbatim>\<open>VESA_VEDIO_ADDR\<close> on. Coordinates are
  signed; an index into a frame buffer or a picture only counts modulo the size of an address, so its sums and
  products are exact numbers that \<open>px_addr\<close> reduces. The line loop computes at the width of an \<^verbatim>\<open>int\<close>, and so do
  the ends of a rectangle; the coordinates of the other loops are the sums of a screen position and a
  small offset.
\<close>

section \<open>The font\<close>

definition ASCII :: "u8 list" where
  "ASCII =
    [0, 0, 0, 0, 0, 0, 0, 0, 0, 0, 0, 0, 0, 0, 0, 0,
     0, 0, 0, 8, 8, 8, 8, 8, 8, 8, 0, 0, 24, 24, 0, 0,
     0, 72, 108, 36, 18, 0, 0, 0, 0, 0, 0, 0, 0, 0, 0, 0,
     0, 0, 0, 36, 36, 36, 127, 18, 18, 18, 127, 18, 18, 18, 0, 0,
     0, 0, 8, 28, 42, 42, 10, 12, 24, 40, 40, 42, 42, 28, 8, 8,
     0, 0, 0, 34, 37, 21, 21, 21, 42, 88, 84, 84, 84, 34, 0, 0,
     0, 0, 0, 12, 18, 18, 18, 10, 118, 37, 41, 17, 145, 110, 0, 0,
     0, 6, 6, 4, 3, 0, 0, 0, 0, 0, 0, 0, 0, 0, 0, 0,
     0, 64, 32, 16, 16, 8, 8, 8, 8, 8, 8, 16, 16, 32, 64, 0,
     0, 2, 4, 8, 8, 16, 16, 16, 16, 16, 16, 8, 8, 4, 2, 0,
     0, 0, 0, 0, 8, 8, 107, 28, 28, 107, 8, 8, 0, 0, 0, 0,
     0, 0, 0, 0, 8, 8, 8, 8, 127, 8, 8, 8, 8, 0, 0, 0,
     0, 0, 0, 0, 0, 0, 0, 0, 0, 0, 0, 0, 6, 6, 4, 3,
     0, 0, 0, 0, 0, 0, 0, 0, 254, 0, 0, 0, 0, 0, 0, 0,
     0, 0, 0, 0, 0, 0, 0, 0, 0, 0, 0, 0, 6, 6, 0, 0,
     0, 0, 128, 64, 64, 32, 32, 16, 16, 8, 8, 4, 4, 2, 2, 0,
     0, 0, 0, 24, 36, 66, 66, 66, 66, 66, 66, 66, 36, 24, 0, 0,
     0, 0, 0, 8, 14, 8, 8, 8, 8, 8, 8, 8, 8, 62, 0, 0,
     0, 0, 0, 60, 66, 66, 66, 32, 32, 16, 8, 4, 66, 126, 0, 0,
     0, 0, 0, 60, 66, 66, 32, 24, 32, 64, 64, 66, 34, 28, 0, 0,
     0, 0, 0, 32, 48, 40, 36, 36, 34, 34, 126, 32, 32, 120, 0, 0,
     0, 0, 0, 126, 2, 2, 2, 26, 38, 64, 64, 66, 34, 28, 0, 0,
     0, 0, 0, 56, 36, 2, 2, 26, 38, 66, 66, 66, 36, 24, 0, 0,
     0, 0, 0, 126, 34, 34, 16, 16, 8, 8, 8, 8, 8, 8, 0, 0,
     0, 0, 0, 60, 66, 66, 66, 36, 24, 36, 66, 66, 66, 60, 0, 0,
     0, 0, 0, 24, 36, 66, 66, 66, 100, 88, 64, 64, 36, 28, 0, 0,
     0, 0, 0, 0, 0, 0, 24, 24, 0, 0, 0, 0, 24, 24, 0, 0,
     0, 0, 0, 0, 0, 0, 0, 8, 0, 0, 0, 0, 0, 8, 8, 4,
     0, 0, 0, 64, 32, 16, 8, 4, 2, 4, 8, 16, 32, 64, 0, 0,
     0, 0, 0, 0, 0, 0, 127, 0, 0, 0, 127, 0, 0, 0, 0, 0,
     0, 0, 0, 2, 4, 8, 16, 32, 64, 32, 16, 8, 4, 2, 0, 0,
     0, 0, 0, 60, 66, 66, 70, 64, 32, 16, 16, 0, 24, 24, 0, 0,
     0, 0, 0, 28, 34, 90, 85, 85, 85, 85, 45, 66, 34, 28, 0, 0,
     0, 0, 0, 8, 8, 24, 20, 20, 36, 60, 34, 66, 66, 231, 0, 0,
     0, 0, 0, 31, 34, 34, 34, 30, 34, 66, 66, 66, 34, 31, 0, 0,
     0, 0, 0, 124, 66, 66, 1, 1, 1, 1, 1, 66, 34, 28, 0, 0,
     0, 0, 0, 31, 34, 66, 66, 66, 66, 66, 66, 66, 34, 31, 0, 0,
     0, 0, 0, 63, 66, 18, 18, 30, 18, 18, 2, 66, 66, 63, 0, 0,
     0, 0, 0, 63, 66, 18, 18, 30, 18, 18, 2, 2, 2, 7, 0, 0,
     0, 0, 0, 60, 34, 34, 1, 1, 1, 113, 33, 34, 34, 28, 0, 0,
     0, 0, 0, 231, 66, 66, 66, 66, 126, 66, 66, 66, 66, 231, 0, 0,
     0, 0, 0, 62, 8, 8, 8, 8, 8, 8, 8, 8, 8, 62, 0, 0,
     0, 0, 0, 124, 16, 16, 16, 16, 16, 16, 16, 16, 16, 16, 17, 15,
     0, 0, 0, 119, 34, 18, 10, 14, 10, 18, 18, 34, 34, 119, 0, 0,
     0, 0, 0, 7, 2, 2, 2, 2, 2, 2, 2, 2, 66, 127, 0, 0,
     0, 0, 0, 119, 54, 54, 54, 54, 42, 42, 42, 42, 42, 107, 0, 0,
     0, 0, 0, 227, 70, 70, 74, 74, 82, 82, 82, 98, 98, 71, 0, 0,
     0, 0, 0, 28, 34, 65, 65, 65, 65, 65, 65, 65, 34, 28, 0, 0,
     0, 0, 0, 63, 66, 66, 66, 66, 62, 2, 2, 2, 2, 7, 0, 0,
     0, 0, 0, 28, 34, 65, 65, 65, 65, 65, 77, 83, 50, 28, 96, 0,
     0, 0, 0, 63, 66, 66, 66, 62, 18, 18, 34, 34, 66, 199, 0, 0,
     0, 0, 0, 124, 66, 66, 2, 4, 24, 32, 64, 66, 66, 62, 0, 0,
     0, 0, 0, 127, 73, 8, 8, 8, 8, 8, 8, 8, 8, 28, 0, 0,
     0, 0, 0, 231, 66, 66, 66, 66, 66, 66, 66, 66, 66, 60, 0, 0,
     0, 0, 0, 231, 66, 66, 34, 36, 36, 20, 20, 24, 8, 8, 0, 0,
     0, 0, 0, 107, 73, 73, 73, 73, 85, 85, 54, 34, 34, 34, 0, 0,
     0, 0, 0, 231, 66, 36, 36, 24, 24, 24, 36, 36, 66, 231, 0, 0,
     0, 0, 0, 119, 34, 34, 20, 20, 8, 8, 8, 8, 8, 28, 0, 0,
     0, 0, 0, 126, 33, 32, 16, 16, 8, 4, 4, 66, 66, 63, 0, 0,
     0, 120, 8, 8, 8, 8, 8, 8, 8, 8, 8, 8, 8, 8, 120, 0,
     0, 0, 2, 2, 4, 4, 8, 8, 8, 16, 16, 32, 32, 32, 64, 64,
     0, 30, 16, 16, 16, 16, 16, 16, 16, 16, 16, 16, 16, 16, 30, 0,
     0, 56, 68, 0, 0, 0, 0, 0, 0, 0, 0, 0, 0, 0, 0, 0,
     0, 0, 0, 0, 0, 0, 0, 0, 0, 0, 0, 0, 0, 0, 0, 255,
     0, 6, 8, 0, 0, 0, 0, 0, 0, 0, 0, 0, 0, 0, 0, 0,
     0, 0, 0, 0, 0, 0, 0, 60, 66, 120, 68, 66, 66, 252, 0, 0,
     0, 0, 0, 3, 2, 2, 2, 26, 38, 66, 66, 66, 38, 26, 0, 0,
     0, 0, 0, 0, 0, 0, 0, 56, 68, 2, 2, 2, 68, 56, 0, 0,
     0, 0, 0, 96, 64, 64, 64, 120, 68, 66, 66, 66, 100, 216, 0, 0,
     0, 0, 0, 0, 0, 0, 0, 60, 66, 126, 2, 2, 66, 60, 0, 0,
     0, 0, 0, 240, 136, 8, 8, 126, 8, 8, 8, 8, 8, 62, 0, 0,
     0, 0, 0, 0, 0, 0, 0, 124, 34, 34, 28, 2, 60, 66, 66, 60,
     0, 0, 0, 3, 2, 2, 2, 58, 70, 66, 66, 66, 66, 231, 0, 0,
     0, 0, 0, 12, 12, 0, 0, 14, 8, 8, 8, 8, 8, 62, 0, 0,
     0, 0, 0, 48, 48, 0, 0, 56, 32, 32, 32, 32, 32, 32, 34, 30,
     0, 0, 0, 3, 2, 2, 2, 114, 18, 10, 22, 18, 34, 119, 0, 0,
     0, 0, 0, 14, 8, 8, 8, 8, 8, 8, 8, 8, 8, 62, 0, 0,
     0, 0, 0, 0, 0, 0, 0, 127, 146, 146, 146, 146, 146, 183, 0, 0,
     0, 0, 0, 0, 0, 0, 0, 59, 70, 66, 66, 66, 66, 231, 0, 0,
     0, 0, 0, 0, 0, 0, 0, 60, 66, 66, 66, 66, 66, 60, 0, 0,
     0, 0, 0, 0, 0, 0, 0, 27, 38, 66, 66, 66, 34, 30, 2, 7,
     0, 0, 0, 0, 0, 0, 0, 120, 68, 66, 66, 66, 68, 120, 64, 224,
     0, 0, 0, 0, 0, 0, 0, 119, 76, 4, 4, 4, 4, 31, 0, 0,
     0, 0, 0, 0, 0, 0, 0, 124, 66, 2, 60, 64, 66, 62, 0, 0,
     0, 0, 0, 0, 0, 8, 8, 62, 8, 8, 8, 8, 8, 48, 0, 0,
     0, 0, 0, 0, 0, 0, 0, 99, 66, 66, 66, 66, 98, 220, 0, 0,
     0, 0, 0, 0, 0, 0, 0, 231, 66, 36, 36, 20, 8, 8, 0, 0,
     0, 0, 0, 0, 0, 0, 0, 235, 73, 73, 85, 85, 34, 34, 0, 0,
     0, 0, 0, 0, 0, 0, 0, 118, 36, 24, 24, 24, 36, 110, 0, 0,
     0, 0, 0, 0, 0, 0, 0, 231, 66, 36, 36, 20, 24, 8, 8, 7,
     0, 0, 0, 0, 0, 0, 0, 126, 34, 16, 8, 8, 68, 126, 0, 0,
     0, 192, 32, 32, 32, 32, 32, 16, 32, 32, 32, 32, 32, 32, 192, 0,
     16, 16, 16, 16, 16, 16, 16, 16, 16, 16, 16, 16, 16, 16, 16, 16,
     0, 6, 8, 8, 8, 8, 8, 16, 8, 8, 8, 8, 8, 8, 6, 0,
     12, 50, 194, 0, 0, 0, 0, 0, 0, 0, 0, 0, 0, 0, 0, 0,
     0, 0, 0, 0, 0, 0, 0, 0, 0, 0, 0, 0, 0, 0, 0, 0]"

definition ASC_WIDTH :: int where "ASC_WIDTH = 8"
definition CHAR_HEIGHT :: int where "CHAR_HEIGHT = 16"

section \<open>State\<close>

text \<open>
  \<open>vid\<close> is \<^verbatim>\<open>VESA_VEDIO_ADDR\<close>, \<open>scr_x\<close> and \<open>scr_y\<close> the resolution, \<open>asc_set\<close> tells whether \<^verbatim>\<open>ASC\<close> points to the
  font table or is still null, \<open>text_ptr\<close> is the static pointer of the text-mode output.
\<close>

record vesa =
  vm :: mem
  vid :: u32
  scr_x :: int
  scr_y :: int
  vcur :: "int \<times> int"
  asc_set :: bool
  text_ptr :: u32

definition vesa_start :: "mem \<Rightarrow> vesa" where
  "vesa_start m = \<lparr>vm = m, vid = 0, scr_x = 800, scr_y = 600, vcur = (0, 0), asc_set = False, text_ptr = 0xb8000\<rparr>"

text \<open>The pixel with index \<open>i\<close>: \<^verbatim>\<open>VESA_VEDIO_ADDR[i]\<close>.\<close>

definition px_addr :: "u32 \<Rightarrow> int \<Rightarrow> u32" where
  "px_addr a i = a + 4 * word_of_int i"

definition get_px :: "vesa \<Rightarrow> int \<Rightarrow> u32" where
  "get_px s i = load32 (vm s) (px_addr (vid s) i)"

definition set_px :: "int \<Rightarrow> u32 \<Rightarrow> vesa \<Rightarrow> vesa" where
  "set_px i c s = s\<lparr>vm := store32 (vm s) (px_addr (vid s) i) c\<rparr>"

section \<open>Video mode\<close>

definition load16 :: "mem \<Rightarrow> u32 \<Rightarrow> u16" where
  "load16 m a = ucast (m a) OR push_bit 8 (ucast (m (a + 1)))"

text \<open>The fields of the multiboot and VBE structures that are used, at their offsets.\<close>

record vbe_mode_t =
  x_resolution :: u16
  y_resolution :: u16
  phys_base :: u32

definition get_vbe_mode_info :: "mem \<Rightarrow> u32 \<Rightarrow> vbe_mode_t" where
  "get_vbe_mode_info m mbi = (let p = load32 m (mbi + 76)
     in \<lparr>x_resolution = load16 m (p + 18), y_resolution = load16 m (p + 20), phys_base = load32 m (p + 40)\<rparr>)"

definition get_vbe_mode :: "mem \<Rightarrow> u32 \<Rightarrow> u16" where
  "get_vbe_mode m mbi = load16 m (mbi + 80)"

text \<open>The version in the controller information.\<close>

definition get_vbe_controller_info :: "mem \<Rightarrow> u32 \<Rightarrow> u16" where
  "get_vbe_controller_info m mbi = load16 m (load32 m (mbi + 72) + 4)"

definition vesa_init :: "u32 \<Rightarrow> vesa \<Rightarrow> int \<times> vesa" where
  "vesa_init mbi s =
     (if vid s \<noteq> 0 then (0, s)
      else let mode = get_vbe_mode_info (vm s) mbi; version = get_vbe_controller_info (vm s) mbi
        in if version < 0x0200 then (0, s)
           else let s1 = s\<lparr>scr_x := uint (x_resolution mode), scr_y := uint (y_resolution mode),
                          vid := phys_base mode\<rparr>;
                    s2 = for_int (\<lambda>i. set_px i 0) 0 (scr_x s1 * scr_y s1) s1
                in (1, s2\<lparr>vcur := (0, 0), asc_set := True\<rparr>))"

section \<open>Pixels, lines and rectangles\<close>

definition vesa_put_pixel :: "int \<Rightarrow> int \<Rightarrow> u32 \<Rightarrow> vesa \<Rightarrow> vesa" where
  "vesa_put_pixel x y color s =
     (if x < 0 \<or> y < 0 \<or> scr_x s \<le> x \<or> scr_y s \<le> y then s else set_px (y * scr_x s + x) color s)"

definition vesa_draw_vline :: "int \<Rightarrow> int \<Rightarrow> int \<Rightarrow> u32 \<Rightarrow> vesa \<Rightarrow> vesa" where
  "vesa_draw_vline x1 x2 y color s =
     (let start_pos = i32 (i32 (y * scr_x s) + x1); end_pos = i32 (i32 (y * scr_x s) + x2)
      in for_int (\<lambda>i. set_px i color) start_pos end_pos s)"

definition vesa_draw_hline :: "int \<Rightarrow> int \<Rightarrow> int \<Rightarrow> u32 \<Rightarrow> vesa \<Rightarrow> vesa" where
  "vesa_draw_hline y1 y2 x color s = for_int (\<lambda>i. vesa_put_pixel x i color) y1 y2 s"

text \<open>The state of the line loop: the two error terms, the position and the screen.\<close>

record line_state =
  xerr :: int
  yerr :: int
  row :: int
  col :: int

definition line_step :: "int \<Rightarrow> int \<Rightarrow> int \<Rightarrow> int \<Rightarrow> int \<Rightarrow> line_state \<Rightarrow> line_state" where
  "line_step distance delta_x delta_y incx incy l =
     (let l1 = l\<lparr>xerr := i32 (xerr l + delta_x), yerr := i32 (yerr l + delta_y)\<rparr>;
          l2 = (if xerr l1 > distance
                then l1\<lparr>xerr := i32 (xerr l1 - distance), row := i32 (row l1 + incx)\<rparr> else l1)
      in if yerr l2 > distance
         then l2\<lparr>yerr := i32 (yerr l2 - distance), col := i32 (col l2 + incy)\<rparr> else l2)"

definition line_dir :: "int \<Rightarrow> int \<times> int" where
  "line_dir delta = (if delta > 0 then (1, delta) else if delta = 0 then (0, delta) else (- 1, i32 (- delta)))"

text \<open>
  The loop test \<^verbatim>\<open>t <= distance + 1\<close> at the width of an \<^verbatim>\<open>int\<close>: the loop does not end when the right side is
  the largest \<^verbatim>\<open>int\<close> and is not entered when the sum wraps. None is a call that does not return.
\<close>

partial_function (option) line_loop ::
  "u32 \<Rightarrow> int \<Rightarrow> int \<Rightarrow> int \<Rightarrow> int \<Rightarrow> int \<Rightarrow> int \<Rightarrow> vesa \<Rightarrow> line_state \<Rightarrow> vesa option" where
  "line_loop color distance delta_x delta_y incx incy t s l =
     (if t \<le> i32 (distance + 1)
      then line_loop color distance delta_x delta_y incx incy (i32 (t + 1))
             (vesa_put_pixel (row l) (col l) color s) (line_step distance delta_x delta_y incx incy l)
      else Some s)"

definition vesa_draw_line :: "u32 \<Rightarrow> u32 \<Rightarrow> u32 \<Rightarrow> u32 \<Rightarrow> u32 \<Rightarrow> vesa \<Rightarrow> vesa option" where
  "vesa_draw_line x1 y1 x2 y2 color s =
     (let (incx, delta_x) = line_dir (sint (x2 - x1)); (incy, delta_y) = line_dir (sint (y2 - y1));
          distance = (if delta_x > delta_y then delta_x else delta_y)
      in line_loop color distance delta_x delta_y incx incy 0 s
           \<lparr>xerr = 0, yerr = 0, row = sint x1, col = sint y1\<rparr>)"

definition vesa_clear_screen :: "vesa \<Rightarrow> vesa" where
  "vesa_clear_screen s = for_int (\<lambda>i. set_px i 0) 0 (scr_x s * scr_y s) s"

definition vesa_fill_rect :: "int \<Rightarrow> int \<Rightarrow> int \<Rightarrow> int \<Rightarrow> u32 \<Rightarrow> vesa \<Rightarrow> vesa" where
  "vesa_fill_rect x y w h color s = for_int (\<lambda>i. vesa_draw_vline x (i32 (x + w)) i color) y (i32 (y + h)) s"

definition vesa_get_screen_width :: "vesa \<Rightarrow> int" where "vesa_get_screen_width s = scr_x s"
definition vesa_get_screen_height :: "vesa \<Rightarrow> int" where "vesa_get_screen_height s = scr_y s"

text \<open>
  \<open>asc_byte\<close> is \<^verbatim>\<open>*(ASC + n)\<close>: the font table, memory after it when \<open>n\<close> lies past its end (\<open>beyond\<close>), or low
  memory while \<^verbatim>\<open>ASC\<close> is null.
\<close>

definition asc_byte :: "(nat \<Rightarrow> u8) \<Rightarrow> vesa \<Rightarrow> nat \<Rightarrow> u8" where
  "asc_byte beyond s n =
     (if \<not> asc_set s then vm s (of_nat n)
      else if n < length ASCII then ASCII ! n else beyond (n - length ASCII))"

definition vesa_put_ascii :: "(nat \<Rightarrow> u8) \<Rightarrow> int \<Rightarrow> int \<Rightarrow> u8 \<Rightarrow> u32 \<Rightarrow> vesa \<Rightarrow> vesa" where
  "vesa_put_ascii beyond x y ch color s =
     for_int (\<lambda>i. for_int (\<lambda>j s.
         if bit (asc_byte beyond s (unat ch * nat ASC_WIDTH + nat i)) (nat (ASC_WIDTH - j - 1))
         then vesa_put_pixel (x + j) (y + i) color s else s) 0 ASC_WIDTH) 0 CHAR_HEIGHT s"

section \<open>Buffers and scrolling\<close>

text \<open>\<open>buf\<close> is the address of an array of words.\<close>

definition vesa_vram_to_buf :: "int \<Rightarrow> int \<Rightarrow> int \<Rightarrow> int \<Rightarrow> u32 \<Rightarrow> vesa \<Rightarrow> vesa" where
  "vesa_vram_to_buf x1 y1 x2 y2 buf s =
     for_int (\<lambda>j. for_int (\<lambda>i s.
         if x1 + i \<ge> 0 \<and> x1 + i < scr_x s \<and> y1 + j \<ge> 0 \<and> y1 + j < scr_y s
         then s\<lparr>vm := store32 (vm s) (px_addr buf (j * (x2 - x1) + i)) (get_px s ((y1 + j) * scr_x s + x1 + i))\<rparr>
         else s) 0 (x2 - x1)) 0 (y2 - y1) s"

definition vesa_buf_to_vram :: "int \<Rightarrow> int \<Rightarrow> int \<Rightarrow> int \<Rightarrow> u32 \<Rightarrow> vesa \<Rightarrow> vesa" where
  "vesa_buf_to_vram x1 y1 x2 y2 buf s =
     for_int (\<lambda>j. for_int (\<lambda>i s.
         set_px ((y1 + j) * scr_x s + x1 + i) (load32 (vm s) (px_addr buf (j * (x2 - x1) + i))) s)
       0 (x2 - x1)) 0 (y2 - y1) s"

text \<open>The byte loops of the two scroll functions.\<close>

function scroll_down_loop :: "u32 \<Rightarrow> u32 \<Rightarrow> u32 \<Rightarrow> mem \<Rightarrow> mem" where
  "scroll_down_loop start p1 p2 m =
     (if start < p1 then scroll_down_loop start (p1 - 1) (p2 - 1) (m(p2 := m p1)) else m)"
  by pat_completeness auto
termination
proof (relation "measure (\<lambda>(start, p1, p2, m). unat p1)")
  fix start p1 p2 :: u32 and m :: mem
  assume "start < p1"
  then have "unat (p1 - 1) < unat p1"
    using unat_sub_nowrap [of 1 p1] by (simp add: word_less_nat_alt)
  then show "((start, p1 - 1, p2 - 1, m(p2 := m p1)), start, p1, p2, m) \<in> measure (\<lambda>(start, p1, p2, m). unat p1)"
    by simp
qed simp

definition vesa_screen_scroll_down :: "int \<Rightarrow> vesa \<Rightarrow> vesa" where
  "vesa_screen_scroll_down n s =
     (let to_end = px_addr (vid s) (scr_x s * scr_y s - 1); from_start = px_addr (vid s) 0;
          from_end = px_addr (vid s) (scr_x s * (scr_y s - n) - 1)
      in s\<lparr>vm := scroll_down_loop from_start from_end to_end (vm s)\<rparr>)"

function scroll_up_loop :: "u32 \<Rightarrow> u32 \<Rightarrow> u32 \<Rightarrow> mem \<Rightarrow> mem" where
  "scroll_up_loop fin p1 p2 m =
     (if p1 < fin then scroll_up_loop fin (p1 + 1) (p2 + 1) (m(p2 := m p1)) else m)"
  by pat_completeness auto
termination
proof (relation "measure (\<lambda>(fin, p1, p2, m). unat fin - unat p1)")
  fix fin p1 p2 :: u32 and m :: mem
  assume lt: "p1 < fin"
  then have "unat (p1 + 1) = unat p1 + 1"
    using unat_lt_u32 [of fin] by (subst unat_add_nowrap) (simp_all add: word_less_nat_alt)
  with lt show "((fin, p1 + 1, p2 + 1, m(p2 := m p1)), fin, p1, p2, m)
      \<in> measure (\<lambda>(fin, p1, p2, m). unat fin - unat p1)"
    by (simp add: word_less_nat_alt)
qed simp

declare scroll_down_loop.simps [simp del] scroll_up_loop.simps [simp del]

definition vesa_screen_scroll_up :: "int \<Rightarrow> vesa \<Rightarrow> vesa" where
  "vesa_screen_scroll_up n s =
     (let to_start = px_addr (vid s) 0; from_start = px_addr (vid s) (scr_x s * n);
          from_end = px_addr (vid s) (scr_x s * scr_y s - 1)
      in s\<lparr>vm := scroll_up_loop from_end from_start to_start (vm s)\<rparr>)"

section \<open>Colours\<close>

text \<open>
  The unions of a word and bit fields of type \<^verbatim>\<open>u8\<close>: a field that does not fit into the rest of its byte
  starts the next byte (System V ABI for i386), so the three colour fields start at bits 0, 8 and 16.
  \<open>junk\<close> is the indeterminate content of the union before the fields are assigned.
\<close>

definition pack_rgb :: "u32 \<Rightarrow> u32 \<Rightarrow> u32 \<Rightarrow> u32 \<Rightarrow> u32" where
  "pack_rgb junk r g b =
     (junk AND NOT 0x1f3f1f) OR push_bit 16 (r AND 0x1f) OR push_bit 8 (g AND 0x3f) OR (b AND 0x1f)"

definition vesa_compond_rgb :: "u32 \<Rightarrow> u8 \<Rightarrow> u8 \<Rightarrow> u8 \<Rightarrow> u32" where
  "vesa_compond_rgb junk r g b = pack_rgb junk (ucast (r mod 32)) (ucast (g mod 64)) (ucast (b mod 32))"

definition vesa_change_color_form_555_to_565 :: "u32 \<Rightarrow> u32 \<Rightarrow> u32" where
  "vesa_change_color_form_555_to_565 junk c =
     (let b = c AND 0x1f; g = drop_bit 8 c AND 0x1f; r = drop_bit 16 c AND 0x1f
      in pack_rgb junk r (if g \<noteq> 0 then g * 2 + 1 else 0) b)"

section \<open>Indirect pixels\<close>

text \<open>
  \<^verbatim>\<open>vesa_draw_poe32\<close> and its reader take the first word of the frame buffer as the address of the frame
  buffer.
\<close>

definition vesa_draw_poe32 :: "int \<Rightarrow> int \<Rightarrow> u32 \<Rightarrow> vesa \<Rightarrow> vesa" where
  "vesa_draw_poe32 x y color s =
     (let x_max = scr_x s - 1; y_max = scr_y s - 1
      in if x > x_max then s else if y > y_max then s
         else let video = load32 (vm s) (vid s); offset = y * (x_max + 1) + x
              in s\<lparr>vm := store32 (vm s) (px_addr video offset) color\<rparr>)"

definition vesa_get_poe32_color :: "int \<Rightarrow> int \<Rightarrow> vesa \<Rightarrow> u32" where
  "vesa_get_poe32_color x y s =
     (let x_max = scr_x s - 1; y_max = scr_y s - 1;
          x = (if x > x_max then x_max else x); y = (if y > y_max then y_max else y);
          video = load32 (vm s) (vid s); offset = y * (x_max + 1) + x
      in load32 (vm s) (px_addr video offset))"

definition vesa_clean_screen :: "u32 \<Rightarrow> vesa \<Rightarrow> vesa" where
  "vesa_clean_screen color s = vesa_fill_rect 0 0 (scr_x s - 1) (scr_y s - 1) color s"

definition vesa_copy_picture_from_screen :: "int \<Rightarrow> int \<Rightarrow> u32 \<Rightarrow> int \<Rightarrow> int \<Rightarrow> vesa \<Rightarrow> vesa" where
  "vesa_copy_picture_from_screen x y pic width height s =
     for_int (\<lambda>j. for_int (\<lambda>i s.
         s\<lparr>vm := store32 (vm s) (px_addr pic (j * width + i)) (vesa_get_poe32_color (x + i) (y + j) s)\<rparr>)
       0 width) 0 height s"

definition vesa_copy_picture_to_screen :: "int \<Rightarrow> int \<Rightarrow> u32 \<Rightarrow> int \<Rightarrow> int \<Rightarrow> vesa \<Rightarrow> vesa" where
  "vesa_copy_picture_to_screen x y pic width height s =
     for_int (\<lambda>j. for_int (\<lambda>i s.
         vesa_draw_poe32 (x + i) (y + j) (load32 (vm s) (px_addr pic (j * width + i))) s) 0 width) 0 height s"

definition vesa_draw_x_line :: "int \<Rightarrow> int \<Rightarrow> int \<Rightarrow> u32 \<Rightarrow> vesa \<Rightarrow> vesa" where
  "vesa_draw_x_line y x1 x2 color s = for_int (\<lambda>x. vesa_draw_poe32 x y color) x1 (x2 + 1) s"

definition vesa_draw_y_line :: "int \<Rightarrow> int \<Rightarrow> int \<Rightarrow> u32 \<Rightarrow> vesa \<Rightarrow> vesa" where
  "vesa_draw_y_line x y1 y2 color s = for_int (\<lambda>y. vesa_draw_poe32 x y color) y1 (y2 + 1) s"

definition vesa_draw_rect :: "int \<Rightarrow> int \<Rightarrow> int \<Rightarrow> int \<Rightarrow> u32 \<Rightarrow> bool \<Rightarrow> vesa \<Rightarrow> vesa" where
  "vesa_draw_rect x1 y1 x2 y2 color dose_fill_it s =
     (let s1 = vesa_draw_x_line y1 x1 x2 color s; s2 = vesa_draw_x_line y2 x1 x2 color s1;
          s3 = vesa_draw_y_line x1 y1 y2 color s2; s4 = vesa_draw_y_line x2 y1 y2 color s3
      in if dose_fill_it then vesa_fill_rect x1 y1 x2 y2 color s4 else s4)"

section \<open>Text\<close>

text \<open>
  One row of a glyph from address \<open>pp\<close> on: \<open>test\<close> selects the bit that is drawn, \<open>shift\<close> moves to the next.
\<close>

definition glyph_row ::
  "int \<Rightarrow> (u16 \<Rightarrow> bool) \<Rightarrow> (u16 \<Rightarrow> u16) \<Rightarrow> u32 \<Rightarrow> u32 \<Rightarrow> u32 \<Rightarrow> u16 \<Rightarrow> vesa \<Rightarrow> vesa" where
  "glyph_row width test shift frcolor bgcolor pp z s =
     fst (for_int (\<lambda>j (s, pp, z).
            (s\<lparr>vm := store32 (vm s) pp (if test z then frcolor else bgcolor)\<rparr>, pp + 4, shift z))
          0 width (s, pp, z))"

definition vesa_draw_char_witdh_color :: "int \<Rightarrow> int \<Rightarrow> u16 \<Rightarrow> u32 \<Rightarrow> u32 \<Rightarrow> vesa \<Rightarrow> vesa" where
  "vesa_draw_char_witdh_color x y ch frcolor bgcolor s =
     (if ch < 0x20 then s
      else if ch < 0x7f
      then if x > scr_x s - 1 then s
           else let lp = unat (ch - 0x20) * 16
             in for_int (\<lambda>i s.
                  glyph_row 8 (\<lambda>z. bit z 0) (drop_bit 1) frcolor bgcolor
                    (px_addr (vid s) ((y + i) * scr_x s + x)) (ucast (ASCII ! (lp + nat i))) s) 0 16 s
      else if ch > 0xa1a1
      then if x > scr_x s - 1 then s
           else let code = ch - 0xa1a1; code = (if code > 0x0f00 then code - 0x600 else code);
                    lp = 0x40000 + (ucast (drop_bit 8 code) * 94 + ucast (code AND 0xff)) * 32 :: u32
             in for_int (\<lambda>i s.
                  glyph_row 16 (\<lambda>z. bit z 15) (push_bit 1) frcolor bgcolor
                    (px_addr (vid s) ((y + i) * scr_x s + fst (vcur s)))
                    (push_bit 8 (ucast (vm s (lp + word_of_int (2 * i)))) + ucast (vm s (lp + word_of_int (2 * i) + 1))) s)
                  0 16 s
      else s)"

definition vesa_draw_char :: "int \<Rightarrow> int \<Rightarrow> u16 \<Rightarrow> vesa \<Rightarrow> vesa" where
  "vesa_draw_char x y ch = vesa_draw_char_witdh_color x y ch 0xffffffff 0"

text \<open>
  The string is read from memory while the screen changes; a lead byte takes the next byte with it,
  even when that is the terminator.
\<close>

partial_function (option) vesa_draw_string_with_color ::
  "int \<Rightarrow> int \<Rightarrow> u32 \<Rightarrow> u32 \<Rightarrow> u32 \<Rightarrow> vesa \<Rightarrow> vesa option" where
  "vesa_draw_string_with_color x y str frcolor bgcolor s =
     (if vm s str = 0 then Some s
      else let code = scast (vm s str) :: u16
        in if code > 0x80
           then vesa_draw_string_with_color (x + 8) y (str + 2) frcolor bgcolor
                  (vesa_draw_char_witdh_color x y (push_bit 8 code + scast (vm s (str + 1))) frcolor bgcolor s)
           else vesa_draw_string_with_color (x + 8) y (str + 1) frcolor bgcolor
                  (vesa_draw_char_witdh_color x y code frcolor bgcolor s))"

definition vesa_draw_string :: "int \<Rightarrow> int \<Rightarrow> u32 \<Rightarrow> vesa \<Rightarrow> vesa option" where
  "vesa_draw_string x y str = vesa_draw_string_with_color x y str 0xffffffff 0"

text \<open>One byte of a bitmap font, most significant bit first, through the indirect pixel routine.\<close>

definition draw_bits :: "int \<Rightarrow> int \<Rightarrow> u8 \<Rightarrow> u32 \<Rightarrow> vesa \<Rightarrow> vesa" where
  "draw_bits offset y ch color s =
     for_int (\<lambda>k s. if bit ch (7 - nat k) then vesa_draw_poe32 (offset + k) y color s else s) 0 8 s"

definition vesa_pre32_english :: "int \<Rightarrow> int \<Rightarrow> int \<Rightarrow> u32 \<Rightarrow> vesa \<Rightarrow> vesa" where
  "vesa_pre32_english x y pos color s =
     (let font = 0x30200 + word_of_int (pos * 16) :: u32
      in for_int (\<lambda>j s. draw_bits x (y + j) (vm s (font + word_of_int j)) color s) 0 16 s)"

definition vesa_pre32_chinese :: "int \<Rightarrow> int \<Rightarrow> int \<Rightarrow> u32 \<Rightarrow> vesa \<Rightarrow> vesa" where
  "vesa_pre32_chinese x y pos color s =
     (let font = 0x30000 + word_of_int (pos * 32) :: u32
      in for_int (\<lambda>j. for_int (\<lambda>i s.
           draw_bits (x + i * 8) (y + j) (vm s (font + word_of_int (j * 2 + i))) color s) 0 2) 0 16 s)"

section \<open>Pictures and text mode\<close>

text \<open>The header structure of a bitmap is not packed: its members lie at 12, 20 and 24.\<close>

definition vesa_show_bmp_picture :: "u32 \<Rightarrow> int \<Rightarrow> int \<Rightarrow> u32 \<Rightarrow> u32 \<Rightarrow> bool \<Rightarrow> vesa \<Rightarrow> vesa" where
  "vesa_show_bmp_picture junk x y bmp mask_color use_mask s =
     (let width = sint (load32 (vm s) (bmp + 20)); height = sint (load32 (vm s) (bmp + 24));
          color = bmp + load32 (vm s) (bmp + 12);
          fill_length = sdiv_c (smod_c (width * 2) 4) 2
      in fst (for_int (\<lambda>k (s, color).
           let i = height - 1 - k;
               (s', color') = for_int (\<lambda>j (s, color).
                 let temp = vesa_change_color_form_555_to_565 junk (load32 (vm s) color)
                 in (if \<not> use_mask \<or> temp \<noteq> mask_color then vesa_draw_poe32 (x + j) (y + i) temp s else s,
                     color + 4)) 0 width (s, color)
           in (s', color' + 4 * word_of_int fill_length)) 0 height (s, color)))"

definition vesa_pre32_char_under_text_model :: "u8 \<Rightarrow> vesa \<Rightarrow> vesa" where
  "vesa_pre32_char_under_text_model x s =
     s\<lparr>vm := (vm s)(text_ptr s := x, text_ptr s + 1 := 0xf), text_ptr := text_ptr s + 2\<rparr>"

end
