(* ===== verification/Paint.thy ===== *)
theory Paint
  imports Vesa
begin

text \<open>
  What the drawing routines of the graphics screen do to the picture: which pixels take which colour, and
  that nothing outside the frame buffer changes.
\<close>

section \<open>The frame buffer\<close>

text \<open>
  A mode has been set: the frame buffer is aligned and lies below the top of the address space.
\<close>

definition fb_ok :: "vesa \<Rightarrow> bool" where
  "fb_ok s \<longleftrightarrow> aligned4 (vid s) \<and> 0 \<le> scr_x s \<and> 0 \<le> scr_y s \<and> scr_x s < 2147483648 \<and> scr_y s < 2147483648 \<and>
     uint (vid s) + 4 * (scr_x s * scr_y s) \<le> 4294967296"

definition pixel :: "vesa \<Rightarrow> int \<Rightarrow> int \<Rightarrow> u32" where
  "pixel s x y = get_px s (y * scr_x s + x)"

definition in_fb :: "vesa \<Rightarrow> u32 \<Rightarrow> bool" where
  "in_fb s a \<longleftrightarrow> (\<exists>i j. 0 \<le> i \<and> i < scr_x s * scr_y s \<and> j < 4 \<and> a = px_addr (vid s) i + of_nat j)"

lemma uint_px_addr:
  assumes "0 \<le> i" and "uint a + 4 * i < 4294967296"
  shows "uint (px_addr a i) = uint a + 4 * i"
proof -
  have "px_addr a i = word_of_int (uint a + 4 * i)" by (simp add: px_addr_def)
  moreover have "0 \<le> uint a + 4 * i" using assms(1) uint_ge_0 [of a] by linarith
  ultimately show ?thesis using assms(2) by (simp only: uint_word_of_int) simp
qed

lemma fb_index:
  assumes "fb_ok s" and "0 \<le> i" and "i < scr_x s * scr_y s"
  shows "uint (px_addr (vid s) i) = uint (vid s) + 4 * i" and "aligned4 (px_addr (vid s) i)"
proof -
  have "uint (vid s) + 4 * i < 4294967296" using assms(1,3) unfolding fb_ok_def by linarith
  then show u: "uint (px_addr (vid s) i) = uint (vid s) + 4 * i"
    using assms(2) by (rule uint_px_addr [rotated])
  have "int (unat (px_addr (vid s) i)) = int (unat (vid s) + 4 * nat i)"
    using u assms(2) by (simp only: of_nat_add of_nat_mult uint_nat [symmetric] nat_0_le of_nat_numeral)
  then have "unat (px_addr (vid s) i) = unat (vid s) + 4 * nat i" by (simp only: of_nat_eq_iff)
  then show "aligned4 (px_addr (vid s) i)" using assms(1) by (simp add: aligned4_def fb_ok_def)
qed

lemma fb_inj:
  assumes "fb_ok s" and "0 \<le> i" and "i < scr_x s * scr_y s" and "0 \<le> j" and "j < scr_x s * scr_y s"
  shows "px_addr (vid s) i = px_addr (vid s) j \<longleftrightarrow> i = j"
proof
  assume "px_addr (vid s) i = px_addr (vid s) j"
  then have "uint (vid s) + 4 * i = uint (vid s) + 4 * j"
    using fb_index(1) [OF assms(1-3)] fb_index(1) [OF assms(1,4,5)] by (simp only:)
  then show "i = j" by linarith
qed simp

lemma screen_index:
  assumes "0 \<le> x" and "x < scr_x s" and "0 \<le> y" and "y < scr_y s"
  shows "0 \<le> y * scr_x s + x" and "y * scr_x s + x < scr_x s * scr_y s"
proof -
  show "0 \<le> y * scr_x s + x" using assms by simp
  have "(y + 1) * scr_x s \<le> scr_y s * scr_x s" using assms by (intro mult_right_mono) auto
  then show "y * scr_x s + x < scr_x s * scr_y s" using assms(2) by (simp add: algebra_simps)
qed

lemma row_col_inj:
  assumes "0 \<le> x" and "x < w" and "0 \<le> x'" and "x' < (w :: int)"
  shows "y * w + x = y' * w + x' \<longleftrightarrow> y = y' \<and> x = x'"
proof
  assume eq: "y * w + x = y' * w + x'"
  have "(y * w + x) div w = y" "(y' * w + x') div w = y'" using assms by simp_all
  with eq have "y = y'" by simp
  with eq show "y = y' \<and> x = x'" by simp
qed simp

section \<open>Painting\<close>

text \<open>
  \<open>paints s t F\<close>: from \<open>s\<close> to \<open>t\<close> exactly the pixels where \<open>F\<close> is defined take its colour, and nothing
  outside the frame buffer changes.
\<close>

definition paints :: "vesa \<Rightarrow> vesa \<Rightarrow> (int \<Rightarrow> int \<Rightarrow> u32 option) \<Rightarrow> bool" where
  "paints s t F \<longleftrightarrow> vid t = vid s \<and> scr_x t = scr_x s \<and> scr_y t = scr_y s \<and>
     (\<forall>x y. 0 \<le> x \<and> x < scr_x s \<and> 0 \<le> y \<and> y < scr_y s \<longrightarrow>
        pixel t x y = (case F x y of None \<Rightarrow> pixel s x y | Some c \<Rightarrow> c)) \<and>
     (\<forall>a. \<not> in_fb s a \<longrightarrow> vm t a = vm s a)"

lemma paints_refl: "paints s s (\<lambda>x y. None)"
  by (simp add: paints_def)

lemma paints_dims: "paints s t F \<Longrightarrow> vid t = vid s \<and> scr_x t = scr_x s \<and> scr_y t = scr_y s"
  by (simp add: paints_def)

lemma paints_ok: "paints s t F \<Longrightarrow> fb_ok t \<longleftrightarrow> fb_ok s"
  by (simp add: paints_def fb_ok_def)

lemma paints_trans:
  assumes st: "paints s t F" and tu: "paints t u G"
    and H: "\<And>x y. 0 \<le> x \<Longrightarrow> x < scr_x s \<Longrightarrow> 0 \<le> y \<Longrightarrow> y < scr_y s \<Longrightarrow>
      H x y = (case G x y of None \<Rightarrow> F x y | Some c \<Rightarrow> Some c)"
  shows "paints s u H"
proof -
  have "in_fb t a \<longleftrightarrow> in_fb s a" for a using st by (simp add: in_fb_def paints_def)
  then show ?thesis using st tu H by (auto simp: paints_def split: option.splits)
qed

lemma paints_cong:
  assumes "paints s t F"
    and "\<And>x y. 0 \<le> x \<Longrightarrow> x < scr_x s \<Longrightarrow> 0 \<le> y \<Longrightarrow> y < scr_y s \<Longrightarrow> H x y = F x y"
  shows "paints s t H"
  using assms by (auto simp: paints_def)

lemma set_px_paints:
  assumes ok: "fb_ok s" and x: "0 \<le> x" "x < scr_x s" and y: "0 \<le> y" "y < scr_y s"
  shows "paints s (set_px (y * scr_x s + x) c s) (\<lambda>px py. if px = x \<and> py = y then Some c else None)"
proof -
  let ?i = "y * scr_x s + x" and ?t = "set_px (y * scr_x s + x) c s"
  note i = screen_index [OF x y]
  have "pixel ?t px py = (if px = x \<and> py = y then c else pixel s px py)"
    if p: "0 \<le> px" "px < scr_x s" "0 \<le> py" "py < scr_y s" for px py
  proof -
    note k = screen_index [OF p]
    have "?i = py * scr_x s + px \<longleftrightarrow> px = x \<and> py = y"
      using row_col_inj [OF x(1,2) p(1,2)] by auto
    then have "px_addr (vid s) ?i = px_addr (vid s) (py * scr_x s + px) \<longleftrightarrow> px = x \<and> py = y"
      using fb_inj [OF ok i k] by simp
    then show ?thesis
      using fb_index(2) [OF ok i] fb_index(2) [OF ok k]
      by (auto simp: pixel_def get_px_def set_px_def mem_simps)
  qed
  moreover have "vm ?t a = vm s a" if "\<not> in_fb s a" for a
  proof -
    have "a \<noteq> px_addr (vid s) ?i + of_nat j" if "j < 4" for j
      using \<open>\<not> in_fb s a\<close> i that unfolding in_fb_def by blast
    from this [of 0] this [of 1] this [of 2] this [of 3] show ?thesis
      by (simp add: set_px_def store32_other)
  qed
  ultimately show ?thesis by (auto simp: paints_def set_px_def)
qed

lemma put_pixel_paints:
  assumes "fb_ok s"
  shows "paints s (vesa_put_pixel x y c s) (\<lambda>px py. if px = x \<and> py = y then Some c else None)"
proof (cases "x < 0 \<or> y < 0 \<or> scr_x s \<le> x \<or> scr_y s \<le> y")
  case True
  then show ?thesis by (auto simp: vesa_put_pixel_def intro: paints_cong [OF paints_refl])
next
  case False
  then show ?thesis using set_px_paints [OF assms] by (simp add: vesa_put_pixel_def)
qed

text \<open>A loop whose steps paint one row each paints the rectangle.\<close>

lemma rows_paint:
  assumes ok: "fb_ok s" and h: "0 \<le> h"
    and step: "\<And>i t. 0 \<le> i \<Longrightarrow> i < h \<Longrightarrow> fb_ok t \<Longrightarrow> vid t = vid s \<Longrightarrow> scr_x t = scr_x s \<Longrightarrow> scr_y t = scr_y s \<Longrightarrow>
      paints t (R (y + i) t) (\<lambda>px py. if py = y + i \<and> x \<le> px \<and> px < x + w then Some (f i (px - x)) else None)"
  shows "paints s (for_int R y (y + h) s)
    (\<lambda>px py. if y \<le> py \<and> py < y + h \<and> x \<le> px \<and> px < x + w then Some (f (py - y) (px - x)) else None)"
proof -
  have "paints s (for_int R y (y + h) s) (\<lambda>px py.
      if y \<le> py \<and> py < (y + h) \<and> x \<le> px \<and> px < x + w then Some (f (py - y) (px - x)) else None)"
  proof (rule for_int_inv [where P = "\<lambda>j t. paints s t (\<lambda>px py.
      if y \<le> py \<and> py < j \<and> x \<le> px \<and> px < x + w then Some (f (py - y) (px - x)) else None)"])
    show "paints s s (\<lambda>px py. if y \<le> py \<and> py < y \<and> x \<le> px \<and> px < x + w then Some (f (py - y) (px - x)) else None)"
      by (rule paints_cong [OF paints_refl]) simp
  next
    fix j t
    assume j: "y \<le> j" "j < y + h"
      and P: "paints s t (\<lambda>px py. if y \<le> py \<and> py < j \<and> x \<le> px \<and> px < x + w then Some (f (py - y) (px - x)) else None)"
    have "paints t (R j t) (\<lambda>px py. if py = j \<and> x \<le> px \<and> px < x + w then Some (f (j - y) (px - x)) else None)"
      using step [of "j - y" t] j paints_dims [OF P] paints_ok [OF P] ok by simp
    then show "paints s (R j t) (\<lambda>px py.
        if y \<le> py \<and> py < j + 1 \<and> x \<le> px \<and> px < x + w then Some (f (py - y) (px - x)) else None)"
      by (rule paints_trans [OF P]) (use j in auto)
  qed (use h in simp)
  then show ?thesis .
qed

lemma vline_paints:
  assumes ok: "fb_ok s" and x: "0 \<le> x" "x2 \<le> scr_x s" "x \<le> x2" and y: "0 \<le> y" "y < scr_y s"
  shows "paints s (vesa_draw_vline x x2 y c s) (\<lambda>px py. if py = y \<and> x \<le> px \<and> px < x2 then Some c else None)"
proof -
  have True: "x \<le> x2" by (rule x)
  let ?b = "y * scr_x s"
  have "paints s (for_int (\<lambda>i. set_px i c) (?b + x) (?b + x2) s)
      (\<lambda>px py. if py = y \<and> x \<le> px \<and> px < ?b + x2 - ?b then Some c else None)"
  proof (rule for_int_inv [where P = "\<lambda>j t. paints s t (\<lambda>px py. if py = y \<and> x \<le> px \<and> px < j - ?b then Some c else None)"])
    show "paints s s (\<lambda>px py. if py = y \<and> x \<le> px \<and> px < ?b + x - ?b then Some c else None)"
      by (rule paints_cong [OF paints_refl]) simp
  next
    fix j t
    assume j: "?b + x \<le> j" "j < ?b + x2"
      and P: "paints s t (\<lambda>px py. if py = y \<and> x \<le> px \<and> px < j - ?b then Some c else None)"
    have "paints t (set_px (y * scr_x t + (j - ?b)) c t) (\<lambda>px py. if px = j - ?b \<and> py = y then Some c else None)"
      by (rule set_px_paints) (use j x y ok paints_dims [OF P] paints_ok [OF P] in simp_all)
    then have "paints t (set_px j c t) (\<lambda>px py. if px = j - ?b \<and> py = y then Some c else None)"
      using paints_dims [OF P] by simp
    then show "paints s (set_px j c t) (\<lambda>px py. if py = y \<and> x \<le> px \<and> px < j + 1 - ?b then Some c else None)"
      by (rule paints_trans [OF P]) (use j in auto)
  qed (use True in simp)
  moreover have "i32 (i32 ?b + x) = ?b + x" "i32 (i32 ?b + x2) = ?b + x2"
  proof -
    have "(y + 1) * scr_x s \<le> scr_y s * scr_x s" using y ok by (intro mult_right_mono) (simp_all add: fb_ok_def)
    then have "?b + scr_x s \<le> scr_x s * scr_y s" by (simp add: algebra_simps)
    moreover have "scr_x s * scr_y s \<le> 1073741824"
    proof -
      have "k \<le> 1073741824" if "u + 4 * k \<le> 4294967296" "0 \<le> u" for u k :: int using that by linarith
      from this [of "uint (vid s)" "scr_x s * scr_y s"] show ?thesis using ok by (simp add: fb_ok_def)
    qed
    ultimately have "?b + scr_x s \<le> 1073741824" by (rule order_trans)
    moreover have "0 \<le> ?b" using y ok by (simp add: fb_ok_def)
    ultimately show "i32 (i32 ?b + x) = ?b + x" "i32 (i32 ?b + x2) = ?b + x2"
      using x by (simp_all add: i32_id)
  qed
  ultimately show ?thesis by (simp add: vesa_draw_vline_def)
qed

lemma fill_rect_paints:
  assumes "fb_ok s" and "0 \<le> x" and "0 \<le> w" and "x + w \<le> scr_x s" and "0 \<le> y" and "0 \<le> h" and "y + h \<le> scr_y s"
  shows "paints s (vesa_fill_rect x y w h c s)
    (\<lambda>px py. if y \<le> py \<and> py < y + h \<and> x \<le> px \<and> px < x + w then Some c else None)"
proof -
  have "i32 (x + w) = x + w" "i32 (y + h) = y + h" using assms by (auto simp: fb_ok_def intro!: i32_id)
  then show ?thesis
    unfolding vesa_fill_rect_def
    by (simp only:) (rule rows_paint [where f = "\<lambda>_ _. c"], use assms in \<open>auto intro!: vline_paints\<close>)
qed

section \<open>Lines\<close>

lemma points_paint:
  assumes "fb_ok s"
  shows "paints s (fold (\<lambda>(x, y). vesa_put_pixel x y c) pts s)
    (\<lambda>px py. if (px, py) \<in> set pts then Some c else None)"
proof (induction pts rule: rev_induct)
  case Nil
  then show ?case using paints_refl by simp
next
  case (snoc p pts)
  obtain x y where p: "p = (x, y)" by (cases p)
  let ?t = "fold (\<lambda>(x, y). vesa_put_pixel x y c) pts s"
  have "paints ?t (vesa_put_pixel x y c ?t) (\<lambda>px py. if px = x \<and> py = y then Some c else None)"
    using paints_ok [OF snoc.IH] assms by (intro put_pixel_paints) simp
  from paints_trans [OF snoc.IH this, of "\<lambda>px py. if (px, py) \<in> set (pts @ [p]) then Some c else None"]
  show ?case by (auto simp: p)
qed

text \<open>The state of the line loop after \<open>t\<close> rounds, and the points it visits.\<close>

definition line_at :: "int \<Rightarrow> int \<Rightarrow> int \<Rightarrow> int \<Rightarrow> int \<Rightarrow> int \<Rightarrow> int \<Rightarrow> nat \<Rightarrow> line_state" where
  "line_at d dx dy ix iy x y t = (line_step d dx dy ix iy ^^ t) \<lparr>xerr = 0, yerr = 0, row = x, col = y\<rparr>"

definition line_points :: "int \<Rightarrow> int \<Rightarrow> int \<Rightarrow> int \<Rightarrow> (int \<times> int) list" where
  "line_points x1 y1 x2 y2 =
     (let (ix, dx) = line_dir (x2 - x1); (iy, dy) = line_dir (y2 - y1); d = (if dx > dy then dx else dy)
      in map (\<lambda>t. (row (line_at d dx dy ix iy x1 y1 t), col (line_at d dx dy ix iy x1 y1 t))) [0..<nat (d + 2)])"

lemma draw_line_loop:
  assumes "- 1 \<le> d" and "d < 2147483646" and "int t \<le> d + 2"
  shows "line_loop c d dx dy ix iy (int t) s (line_at d dx dy ix iy x y t) =
    Some (fold (\<lambda>(x, y). vesa_put_pixel x y c)
      (map (\<lambda>t. (row (line_at d dx dy ix iy x y t), col (line_at d dx dy ix iy x y t))) [t..<nat (d + 2)]) s)"
  using assms(3)
proof (induction "nat (d + 2) - t" arbitrary: t s)
  case 0
  then have "int t = d + 2" by linarith
  then show ?case using assms by (subst line_loop.simps) (simp add: i32_id)
next
  case (Suc n)
  then have t: "int t \<le> d + 1" "t < nat (d + 2)" by linarith+
  have nx: "i32 (int t + 1) = int (Suc t)" using t assms by (simp add: i32_id)
  have "line_loop c d dx dy ix iy (int (Suc t)) (vesa_put_pixel (row (line_at d dx dy ix iy x y t))
      (col (line_at d dx dy ix iy x y t)) c s) (line_at d dx dy ix iy x y (Suc t)) =
    Some (fold (\<lambda>(x, y). vesa_put_pixel x y c)
      (map (\<lambda>t. (row (line_at d dx dy ix iy x y t), col (line_at d dx dy ix iy x y t))) [Suc t..<nat (d + 2)])
      (vesa_put_pixel (row (line_at d dx dy ix iy x y t)) (col (line_at d dx dy ix iy x y t)) c s))"
    by (rule Suc.hyps) (use Suc.hyps(2) t in linarith)+
  then show ?case
    using t assms by (subst line_loop.simps) (simp add: i32_id nx [simplified] line_at_def upt_conv_Cons del: upt_Suc)
qed

lemma line_dir_props:
  assumes "line_dir k = (i, d)" and "\<bar>k\<bar> < 2147483648"
  shows "0 \<le> d" and "i * d = k" and "\<bar>i\<bar> \<le> 1" and "d = \<bar>k\<bar>"
  using assms by (auto simp: line_dir_def i32_id split: if_splits)

text \<open>One axis of the line: after \<open>t\<close> rounds it has made \<open>k\<close> steps, and the error term measures the rest.\<close>

definition axis_inv :: "int \<Rightarrow> int \<Rightarrow> int \<Rightarrow> int \<Rightarrow> int \<Rightarrow> bool" where
  "axis_inv d \<delta> t e k \<longleftrightarrow> 0 \<le> k \<and> e = t * \<delta> - k * d \<and> 0 \<le> e \<and> e \<le> d \<and> (0 < \<delta> \<and> 0 < t \<longrightarrow> 0 < e) \<and>
     (\<delta> = 0 \<longrightarrow> k = 0)"

lemma axis_step:
  assumes "axis_inv d \<delta> t e k" and "0 \<le> \<delta>" and "\<delta> \<le> d" and "0 \<le> t"
  shows "axis_inv d \<delta> (t + 1) (if e + \<delta> > d then e + \<delta> - d else e + \<delta>) (if e + \<delta> > d then k + 1 else k)"
  using assms by (auto simp: axis_inv_def algebra_simps)

lemma axis_end:
  assumes inv: "axis_inv d \<delta> t e k" and \<delta>: "0 \<le> \<delta>" "\<delta> \<le> d" and t: "0 \<le> t" "t \<le> d + 1"
  shows "k \<le> \<delta>" and "t = d + 1 \<Longrightarrow> k = \<delta>"
proof -
  have k: "k \<le> \<delta> \<and> (t = d + 1 \<longrightarrow> k = \<delta>)"
  proof (cases "\<delta> = 0")
    case True
    then show ?thesis using inv by (simp add: axis_inv_def)
  next
    case False
    then have d: "0 < \<delta>" "0 < d" using \<delta> by simp_all
    have kd: "k * d = t * \<delta> - e" and e: "0 \<le> e" "e \<le> d" "0 < t \<Longrightarrow> 0 < e"
      using inv d(1) by (simp_all add: axis_inv_def)
    have "k \<le> \<delta>"
    proof (rule ccontr)
      assume "\<not> k \<le> \<delta>"
      then have kd': "(\<delta> + 1) * d \<le> k * d" using d by (intro mult_right_mono) simp_all
      have "0 < (\<delta> + 1) * d" using d by (intro mult_pos_pos) simp_all
      then have "t \<noteq> 0" using kd kd' e(1) by auto
      then have "0 < e" using e(3) t(1) by simp
      moreover have "t * \<delta> \<le> (d + 1) * \<delta>" using t d by (intro mult_right_mono) simp_all
      ultimately have "(\<delta> + 1) * d < (d + 1) * \<delta>" using kd kd' by linarith
      then show False using \<delta>(2) by (simp add: algebra_simps)
    qed
    moreover have "\<delta> \<le> k" if "t = d + 1"
    proof (rule ccontr)
      assume "\<not> \<delta> \<le> k"
      then have "k * d \<le> (\<delta> - 1) * d" using d by (intro mult_right_mono) simp_all
      then have "(d + 1) * \<delta> - e \<le> \<delta> * d - d" using kd that by (simp add: algebra_simps)
      then show False using e(2) d(1) by (simp add: algebra_simps)
    qed
    ultimately show ?thesis by auto
  qed
  then show "k \<le> \<delta>" by simp
  show "t = d + 1 \<Longrightarrow> k = \<delta>" using k by simp
qed

text \<open>Both axes together, for distances below 2^30: no operation of a step up to the last point wraps.\<close>

definition line_fits :: "int \<Rightarrow> int \<Rightarrow> int \<Rightarrow> int \<Rightarrow> bool" where
  "line_fits d \<delta> i p \<longleftrightarrow> 0 \<le> \<delta> \<and> \<delta> \<le> d \<and> d < 1073741824 \<and> \<bar>i\<bar> \<le> 1 \<and> - 2147483648 \<le> p \<and> p < 2147483648 \<and>
     - 2147483648 \<le> p + i * \<delta> \<and> p + i * \<delta> < 2147483648"

lemma axis_exact:
  assumes inv: "axis_inv d \<delta> (int t) e k" and fit: "line_fits d \<delta> i p" and t: "int t \<le> d"
  shows "i32 (e + \<delta>) = e + \<delta>" and "d < e + \<delta> \<Longrightarrow> i32 (e + \<delta> - d) = e + \<delta> - d"
    and "d < e + \<delta> \<Longrightarrow> i32 (p + i * k + i) = p + i * (k + 1)"
    and "axis_inv d \<delta> (int (Suc t)) (if d < e + \<delta> then e + \<delta> - d else e + \<delta>) (if d < e + \<delta> then k + 1 else k)"
proof -
  have e: "0 \<le> e" "e \<le> d" "0 \<le> k" using inv by (simp_all add: axis_inv_def)
  have f: "0 \<le> \<delta>" "\<delta> \<le> d" "d < 1073741824" "i = - 1 \<or> i = 0 \<or> i = 1" using fit by (auto simp: line_fits_def)
  show "i32 (e + \<delta>) = e + \<delta>" using e f by (intro i32_id) linarith+
  show "i32 (e + \<delta> - d) = e + \<delta> - d" using e f by (intro i32_id) linarith+
  have n: "axis_inv d \<delta> (int t + 1) (if d < e + \<delta> then e + \<delta> - d else e + \<delta>) (if d < e + \<delta> then k + 1 else k)"
    using axis_step [OF inv f(1,2)] by simp
  then show "axis_inv d \<delta> (int (Suc t)) (if d < e + \<delta> then e + \<delta> - d else e + \<delta>) (if d < e + \<delta> then k + 1 else k)"
    by (simp add: add.commute)
  assume "d < e + \<delta>"
  then have "k + 1 \<le> \<delta>" using axis_end(1) [OF n f(1,2)] t by simp
  then have "- 2147483648 \<le> p + i * (k + 1)" "p + i * (k + 1) < 2147483648"
    using f(4) e(3) fit by (auto simp: line_fits_def)
  then show "i32 (p + i * k + i) = p + i * (k + 1)" by (simp add: i32_id algebra_simps)
qed

lemma line_at_inv:
  assumes fx: "line_fits d dx ix x" and fy: "line_fits d dy iy y" and "int t \<le> d + 1"
  shows "\<exists>kx ky. row (line_at d dx dy ix iy x y t) = x + ix * kx \<and> col (line_at d dx dy ix iy x y t) = y + iy * ky \<and>
    axis_inv d dx (int t) (xerr (line_at d dx dy ix iy x y t)) kx \<and>
    axis_inv d dy (int t) (yerr (line_at d dx dy ix iy x y t)) ky"
  using assms(3)
proof (induction t)
  case 0
  have "axis_inv d dx 0 0 0" "axis_inv d dy 0 0 0" using fx fy by (simp_all add: axis_inv_def line_fits_def)
  then show ?case by (intro exI [of _ 0]) (simp add: line_at_def)
next
  case (Suc t)
  let ?l = "line_at d dx dy ix iy x y t"
  have t: "int t \<le> d" using Suc.prems by simp
  obtain kx ky where l: "row ?l = x + ix * kx" "col ?l = y + iy * ky"
      "axis_inv d dx (int t) (xerr ?l) kx" "axis_inv d dy (int t) (yerr ?l) ky"
    using Suc.IH t by auto
  have n: "line_at d dx dy ix iy x y (Suc t) = line_step d dx dy ix iy ?l" by (simp add: line_at_def)
  note ax = axis_exact [OF l(3) fx t] and ay = axis_exact [OF l(4) fy t]
  show ?case
    by (rule exI [of _ "if d < xerr ?l + dx then kx + 1 else kx"],
        rule exI [of _ "if d < yerr ?l + dy then ky + 1 else ky"])
      (use ax ay l(1,2) in \<open>cases "d < xerr ?l + dx"; cases "d < yerr ?l + dy"; simp add: n line_step_def Let_def\<close>)
qed

text \<open>Successive points are neighbours.\<close>

lemma line_at_step:
  assumes fx: "line_fits d dx ix x" and fy: "line_fits d dy iy y" and t: "int t \<le> d"
  shows "\<bar>row (line_at d dx dy ix iy x y (Suc t)) - row (line_at d dx dy ix iy x y t)\<bar> \<le> 1 \<and>
    \<bar>col (line_at d dx dy ix iy x y (Suc t)) - col (line_at d dx dy ix iy x y t)\<bar> \<le> 1"
proof -
  let ?l = "line_at d dx dy ix iy x y t"
  obtain kx ky where l: "row ?l = x + ix * kx" "col ?l = y + iy * ky"
      "axis_inv d dx (int t) (xerr ?l) kx" "axis_inv d dy (int t) (yerr ?l) ky"
    using line_at_inv [OF fx fy, of t] t by auto
  have n: "line_at d dx dy ix iy x y (Suc t) = line_step d dx dy ix iy ?l" by (simp add: line_at_def)
  have i: "\<bar>ix\<bar> \<le> 1" "\<bar>iy\<bar> \<le> 1" using fx fy by (simp_all add: line_fits_def)
  show ?thesis
    using axis_exact [OF l(3) fx t] axis_exact [OF l(4) fy t] l(1,2) i
    by (cases "d < xerr ?l + dx"; cases "d < yerr ?l + dy"; simp add: n line_step_def Let_def algebra_simps)
qed

lemma line_axis_point:
  assumes inv: "axis_inv d dx (int t) e k" and dx: "0 \<le> dx" "dx \<le> d" "int t \<le> d + 1"
    and i: "ix * dx = q - p" "\<bar>ix\<bar> \<le> 1" "dx = \<bar>q - p\<bar>"
  shows "min p q \<le> p + ix * k" and "p + ix * k \<le> max p q" and "int t = d + 1 \<Longrightarrow> p + ix * k = q"
    and "0 < d \<Longrightarrow> \<bar>ix * k\<bar> * d \<le> int t * dx \<and> int t * dx \<le> (\<bar>ix * k\<bar> + 1) * d"
proof -
  have k: "0 \<le> k" "k \<le> dx" and fin: "int t = d + 1 \<Longrightarrow> k = dx"
    using inv axis_end [OF inv dx(1,2) _ dx(3)] by (simp_all add: axis_inv_def)
  have ix: "ix = 0 \<or> ix = 1 \<or> ix = - 1" using i(2) by linarith
  then show "min p q \<le> p + ix * k" "p + ix * k \<le> max p q" using k i by (elim disjE; simp)+
  show "int t = d + 1 \<Longrightarrow> p + ix * k = q" using fin i(1) by simp
  assume "0 < d"
  have "k = 0" if "ix = 0" using that i k inv by (simp add: axis_inv_def)
  then have "\<bar>ix * k\<bar> = k" using ix k by auto
  then show "\<bar>ix * k\<bar> * d \<le> int t * dx \<and> int t * dx \<le> (\<bar>ix * k\<bar> + 1) * d"
    using inv by (simp add: axis_inv_def algebra_simps)
qed

text \<open>
  The shape of a line: it starts and ends at the given points, stays in their bounding box, moves to a
  neighbour (or nowhere) in each step, and on both axes its \<open>i\<close>-th point is less than a step behind the ideal line.
\<close>

definition line_shape :: "int \<Rightarrow> int \<Rightarrow> int \<Rightarrow> int \<Rightarrow> (int \<times> int) list \<Rightarrow> bool" where
  "line_shape x1 y1 x2 y2 pts \<longleftrightarrow>
     (let d = max \<bar>x2 - x1\<bar> \<bar>y2 - y1\<bar> in
      hd pts = (x1, y1) \<and> last pts = (x2, y2) \<and>
      (\<forall>(x, y)\<in>set pts. min x1 x2 \<le> x \<and> x \<le> max x1 x2 \<and> min y1 y2 \<le> y \<and> y \<le> max y1 y2) \<and>
      (\<forall>i. Suc i < length pts \<longrightarrow>
         \<bar>fst (pts ! Suc i) - fst (pts ! i)\<bar> \<le> 1 \<and> \<bar>snd (pts ! Suc i) - snd (pts ! i)\<bar> \<le> 1) \<and>
      (\<forall>i<length pts.
         \<bar>fst (pts ! i) - x1\<bar> * d \<le> int i * \<bar>x2 - x1\<bar> \<and> int i * \<bar>x2 - x1\<bar> \<le> (\<bar>fst (pts ! i) - x1\<bar> + 1) * d \<and>
         \<bar>snd (pts ! i) - y1\<bar> * d \<le> int i * \<bar>y2 - y1\<bar> \<and> int i * \<bar>y2 - y1\<bar> \<le> (\<bar>snd (pts ! i) - y1\<bar> + 1) * d))"

lemma line_points_shape:
  assumes near: "\<bar>x2 - x1\<bar> < 1073741824" "\<bar>y2 - y1\<bar> < 1073741824"
    and int: "\<forall>p\<in>{x1, y1, x2, y2}. - 2147483648 \<le> p \<and> p < 2147483648"
  shows "line_shape x1 y1 x2 y2 (line_points x1 y1 x2 y2)"
proof -
  obtain ix dx where X: "line_dir (x2 - x1) = (ix, dx)" by (cases "line_dir (x2 - x1)")
  obtain iy dy where Y: "line_dir (y2 - y1) = (iy, dy)" by (cases "line_dir (y2 - y1)")
  have "\<bar>x2 - x1\<bar> < 2147483648" "\<bar>y2 - y1\<bar> < 2147483648" using near by linarith+
  note PX = line_dir_props [OF X this(1)] and PY = line_dir_props [OF Y this(2)]
  let ?d = "max dx dy" and ?n = "nat (max dx dy + 2)"
  define P where "P t = (row (line_at ?d dx dy ix iy x1 y1 t), col (line_at ?d dx dy ix iy x1 y1 t))" for t
  have d: "max \<bar>x2 - x1\<bar> \<bar>y2 - y1\<bar> = ?d" using PX(4) PY(4) by simp
  have pts: "line_points x1 y1 x2 y2 = map P [0..<?n]"
    by (simp add: line_points_def X Y P_def [abs_def] max_def not_less)
  have fx: "line_fits ?d dx ix x1" and fy: "line_fits ?d dy iy y1"
    using near int PX PY by (simp_all add: line_fits_def max_def)
  have n: "?n = Suc (nat (?d + 1))" using PX(1) by (simp add: Suc_nat_eq_nat_zadd1)
  have pt: "min x1 x2 \<le> fst (P t) \<and> fst (P t) \<le> max x1 x2 \<and> min y1 y2 \<le> snd (P t) \<and> snd (P t) \<le> max y1 y2 \<and>
      (int t = ?d + 1 \<longrightarrow> P t = (x2, y2)) \<and>
      \<bar>fst (P t) - x1\<bar> * ?d \<le> int t * dx \<and> int t * dx \<le> (\<bar>fst (P t) - x1\<bar> + 1) * ?d \<and>
      \<bar>snd (P t) - y1\<bar> * ?d \<le> int t * dy \<and> int t * dy \<le> (\<bar>snd (P t) - y1\<bar> + 1) * ?d"
    if t: "int t \<le> ?d + 1" for t
  proof -
    obtain kx ky where k: "row (line_at ?d dx dy ix iy x1 y1 t) = x1 + ix * kx"
        "col (line_at ?d dx dy ix iy x1 y1 t) = y1 + iy * ky"
        "axis_inv ?d dx (int t) (xerr (line_at ?d dx dy ix iy x1 y1 t)) kx"
        "axis_inv ?d dy (int t) (yerr (line_at ?d dx dy ix iy x1 y1 t)) ky"
      using line_at_inv [OF fx fy t] by auto
    have z: "dx = 0 \<and> dy = 0 \<and> kx = 0 \<and> ky = 0" if "?d = 0"
    proof -
      have "dx = 0" "dy = 0" using that PX(1) PY(1) by linarith+
      with k(3,4) show ?thesis by (simp add: axis_inv_def)
    qed
    have d0: "?d = 0 \<or> 0 < ?d" using PX(1) by linarith
    note lx = line_axis_point [OF k(3) PX(1) max.cobounded1 t PX(2-4)]
      and ly = line_axis_point [OF k(4) PY(1) max.cobounded2 t PY(2-4)]
    have "\<bar>ix * kx\<bar> * ?d \<le> int t * dx \<and> int t * dx \<le> (\<bar>ix * kx\<bar> + 1) * ?d"
      "\<bar>iy * ky\<bar> * ?d \<le> int t * dy \<and> int t * dy \<le> (\<bar>iy * ky\<bar> + 1) * ?d"
      using d0 z lx(4) ly(4) by auto
    then show ?thesis using lx(1-3) ly(1-3) by (simp add: P_def k(1,2))
  qed
  have len: "t < ?n \<Longrightarrow> int t \<le> ?d + 1" for t using PX(1) by linarith
  have box: "\<forall>(x, y)\<in>set (map P [0..<?n]). min x1 x2 \<le> x \<and> x \<le> max x1 x2 \<and> min y1 y2 \<le> y \<and> y \<le> max y1 y2"
  proof (intro ballI, clarify)
    fix x y assume "(x, y) \<in> set (map P [0..<?n])"
    then obtain t where "t < ?n" "P t = (x, y)" by auto
    then show "min x1 x2 \<le> x \<and> x \<le> max x1 x2 \<and> min y1 y2 \<le> y \<and> y \<le> max y1 y2"
      using pt [OF len, of t] by simp
  qed
  have P0: "P 0 = (x1, y1)" by (simp add: P_def line_at_def)
  have PE: "P (nat (?d + 1)) = (x2, y2)" using pt [of "nat (?d + 1)"] PX(1) by simp
  have ends: "hd (map P [0..<?n]) = (x1, y1)" "last (map P [0..<?n]) = (x2, y2)"
    unfolding n by (simp_all add: hd_map hd_upt P0 PE del: upt_Suc) (simp add: PE)
  have near: "\<bar>fst (map P [0..<?n] ! Suc i) - fst (map P [0..<?n] ! i)\<bar> \<le> 1"
      "\<bar>snd (map P [0..<?n] ! Suc i) - snd (map P [0..<?n] ! i)\<bar> \<le> 1" if "Suc i < ?n" for i
    using line_at_step [OF fx fy, of i] len [OF that] that by (simp_all add: P_def)
  show ?thesis
    unfolding line_shape_def Let_def d pts PX(4) [symmetric] PY(4) [symmetric] length_map length_upt diff_zero
    by (intro conjI allI impI; (rule ends box near)?) (use pt [OF len] in simp_all)
qed

section \<open>Glyphs\<close>

lemma glyph_row_paints:
  assumes ok: "fb_ok s" and x: "0 \<le> x" "x + 8 \<le> scr_x s" and y: "0 \<le> y" "y < scr_y s"
  shows "paints s (glyph_row 8 (\<lambda>z. bit z 0) (drop_bit 1) fr bg (px_addr (vid s) (y * scr_x s + x)) z s)
    (\<lambda>px py. if py = y \<and> x \<le> px \<and> px < x + 8 then Some (if bit z (nat (px - x)) then fr else bg) else None)"
proof -
  let ?f = "\<lambda>j :: int. \<lambda>(s, pp, z). (s\<lparr>vm := store32 (vm s) pp (if bit z 0 then fr else bg)\<rparr>, pp + 4, drop_bit 1 z)"
  let ?b = "y * scr_x s + x"
  let ?P = "\<lambda>j (t, pp, zz). pp = px_addr (vid s) (?b + j) \<and> zz = drop_bit (nat j) z \<and> 0 \<le> j \<and>
      paints s t (\<lambda>px py. if py = y \<and> x \<le> px \<and> px < x + j then Some (if bit z (nat (px - x)) then fr else bg) else None)"
  have "?P 8 (for_int ?f 0 8 (s, px_addr (vid s) ?b, z))"
  proof (rule for_int_inv [where P = ?P])
    show "?P 0 (s, px_addr (vid s) ?b, z)" by (auto intro: paints_cong [OF paints_refl])
  next
    fix j :: int and q :: "vesa \<times> u32 \<times> u16"
    assume j: "0 \<le> j" "j < 8" and P: "?P j q"
    obtain t pp zz where q: "q = (t, pp, zz)" by (cases q) auto
    let ?c = "if bit zz 0 then fr else bg"
    have pt: "paints s t (\<lambda>px py. if py = y \<and> x \<le> px \<and> px < x + j then Some (if bit z (nat (px - x)) then fr else bg) else None)"
      and pp: "pp = px_addr (vid s) (?b + j)" and zz: "zz = drop_bit (nat j) z" using P q by simp_all
    have "paints t (set_px (y * scr_x t + (x + j)) ?c t) (\<lambda>px py. if px = x + j \<and> py = y then Some ?c else None)"
      by (rule set_px_paints) (use j x y ok paints_dims [OF pt] paints_ok [OF pt] in simp_all)
    moreover have "set_px (y * scr_x t + (x + j)) ?c t = t\<lparr>vm := store32 (vm t) pp ?c\<rparr>"
      using paints_dims [OF pt] by (simp add: set_px_def pp add.assoc)
    ultimately have "paints t (t\<lparr>vm := store32 (vm t) pp ?c\<rparr>) (\<lambda>px py. if px = x + j \<and> py = y then Some ?c else None)"
      by simp
    then have "paints s (t\<lparr>vm := store32 (vm t) pp ?c\<rparr>)
        (\<lambda>px py. if py = y \<and> x \<le> px \<and> px < x + (j + 1) then Some (if bit z (nat (px - x)) then fr else bg) else None)"
      by (rule paints_trans [OF pt]) (use j zz in \<open>auto simp: bit_drop_bit_eq\<close>)
    moreover have "drop_bit 1 zz = drop_bit (nat (j + 1)) z"
      using j by (simp add: zz nat_add_distrib)
    moreover have "pp + 4 = px_addr (vid s) (?b + (j + 1))" by (simp add: pp px_addr_def algebra_simps)
    ultimately show "?P (j + 1) (?f j q)" using j q by simp
  qed simp
  then show ?thesis by (simp add: glyph_row_def split: prod.splits)
qed

lemma draw_char_paints:
  assumes ok: "fb_ok s" and x: "0 \<le> x" "x + 8 \<le> scr_x s" and y: "0 \<le> y" "y + 16 \<le> scr_y s"
    and ch: "0x20 \<le> ch" "ch < 0x7f"
  shows "paints s (vesa_draw_char_witdh_color x y ch fr bg s)
    (\<lambda>px py. if y \<le> py \<and> py < y + 16 \<and> x \<le> px \<and> px < x + 8
       then Some (if bit (ASCII ! (unat (ch - 0x20) * 16 + nat (py - y))) (nat (px - x)) then fr else bg) else None)"
proof -
  let ?lp = "unat (ch - 0x20) * 16"
  let ?R = "\<lambda>i s. glyph_row 8 (\<lambda>z. bit z 0) (drop_bit 1) fr bg
      (px_addr (vid s) ((y + i) * scr_x s + x)) (ucast (ASCII ! (?lp + nat i))) s"
  let ?F = "\<lambda>i j. if bit (ASCII ! (?lp + nat i)) (nat j) then fr else bg"
  have shift: "for_int ?R 0 16 s = for_int (\<lambda>i. ?R (i - y)) y (y + 16) s"
    using for_int_shift [of ?R 0 16 s y] by (simp add: add.commute)
  have "paints s (for_int (\<lambda>i. ?R (i - y)) y (y + 16) s)
      (\<lambda>px py. if y \<le> py \<and> py < y + 16 \<and> x \<le> px \<and> px < x + 8 then Some (?F (py - y) (px - x)) else None)"
  proof (rule rows_paint [OF ok])
    fix i :: int and t :: vesa
    assume i: "0 \<le> i" "i < 16" and t: "fb_ok t" "vid t = vid s" "scr_x t = scr_x s" "scr_y t = scr_y s"
    have "paints t (?R i t) (\<lambda>px py. if py = y + i \<and> x \<le> px \<and> px < x + 8
        then Some (if bit (ucast (ASCII ! (?lp + nat i)) :: u16) (nat (px - x)) then fr else bg) else None)"
      by (rule glyph_row_paints) (use i x y t in simp_all)
    then show "paints t (?R (y + i - y) t)
        (\<lambda>px py. if py = y + i \<and> x \<le> px \<and> px < x + 8 then Some (?F i (px - x)) else None)"
      unfolding add_diff_cancel_left' by (rule paints_cong) (auto simp: bit_simps)
  qed simp
  moreover have "vesa_draw_char_witdh_color x y ch fr bg s = for_int ?R 0 16 s"
    using ch x by (simp add: vesa_draw_char_witdh_color_def not_less [symmetric] Let_def)
  ultimately show ?thesis using shift by simp
qed

lemma sint_diff_nonneg:
  assumes "0 \<le> sint (a :: u32)" and "0 \<le> sint (b :: u32)"
  shows "sint (b - a) = sint b - sint a"
proof -
  have "sint a < 2147483648" "sint b < 2147483648" using sint_lt [of a] sint_lt [of b] by simp_all
  then show ?thesis using assms by (intro sint_diff_small) linarith
qed

section \<open>Properties\<close>

text \<open>
  Filling is exact: a rectangle inside the screen takes the colour in all its pixels and
  nowhere else, and no byte outside the frame buffer changes. Clearing the screen in a colour leaves
  the last column and the last row as they were.
\<close>

theorem fill_rect_correct:
  assumes "fb_ok s" and "0 \<le> x" and "0 \<le> w" and "x + w \<le> scr_x s" and "0 \<le> y" and "0 \<le> h" and "y + h \<le> scr_y s"
  shows "paints s (vesa_fill_rect x y w h c s)
      (\<lambda>px py. if y \<le> py \<and> py < y + h \<and> x \<le> px \<and> px < x + w then Some c else None) \<and>
    (\<forall>px py. 0 \<le> px \<and> px < scr_x s \<and> 0 \<le> py \<and> py < scr_y s \<longrightarrow>
       pixel (vesa_clean_screen c s) px py = (if px = scr_x s - 1 \<or> py = scr_y s - 1 then pixel s px py else c))"
proof -
  have "paints s (vesa_clean_screen c s)
      (\<lambda>px py. if 0 \<le> py \<and> py < 0 + (scr_y s - 1) \<and> 0 \<le> px \<and> px < 0 + (scr_x s - 1) then Some c else None)"
    if "1 \<le> scr_x s" "1 \<le> scr_y s"
    unfolding vesa_clean_screen_def using that assms(1) by (intro fill_rect_paints) simp_all
  then have "pixel (vesa_clean_screen c s) px py = (if px = scr_x s - 1 \<or> py = scr_y s - 1 then pixel s px py else c)"
    if "0 \<le> px" "px < scr_x s" "0 \<le> py" "py < scr_y s" for px py
    using that by (auto simp: paints_def)
  then show ?thesis using fill_rect_paints [OF assms] by simp
qed

theorem fill_rect_correct_witness:
  "pixel (vesa_fill_rect 1 1 2 2 9 \<lparr>vm = \<lambda>_. 0, vid = 0x1000, scr_x = 4, scr_y = 4, vcur = (0, 0),
     asc_set = True, text_ptr = 0\<rparr>) 2 2 = 9"
proof -
  let ?s = "\<lparr>vm = \<lambda>_. 0, vid = 0x1000, scr_x = 4, scr_y = 4, vcur = (0, 0), asc_set = True, text_ptr = 0\<rparr>"
  have "fb_ok ?s" by (simp add: fb_ok_def aligned4_def)
  then show ?thesis using fill_rect_correct [of ?s 1 2 1 2 9] by (simp add: paints_def)
qed

text \<open>
  For larger distances the sums wrap: a line across all non-negative \<^verbatim>\<open>int\<close> values draws nothing, and the error term of
  a horizontal line of length 2^30 is negative after two steps, so that the point stays behind.
\<close>

lemma draw_line_wraps:
  "vesa_draw_line 0 0 0x7fffffff 0 c s = Some s"
  "xerr ((line_step 0x40000000 0x40000000 0 1 0 ^^ 2) \<lparr>xerr = 0, yerr = 0, row = 0, col = 0\<rparr>) = - 2147483648"
proof -
  have "i32 0x80000000 = - 0x80000000" "i32 0x40000000 = 0x40000000" "i32 0 = 0" by (simp_all add: i32_def)
  then show "vesa_draw_line 0 0 0x7fffffff 0 c s = Some s"
    "xerr ((line_step 0x40000000 0x40000000 0 1 0 ^^ 2) \<lparr>xerr = 0, yerr = 0, row = 0, col = 0\<rparr>) = - 2147483648"
    by (simp_all add: vesa_draw_line_def line_dir_def line_loop.simps line_step_def Let_def numeral_2_eq_2)
qed

text \<open>
  Property C20. Lines are lines: for end points less than 2^30 apart on either axis \<open>vesa_draw_line\<close> returns and colours exactly
  the points of a path on the screen, clipped to it. The path runs from the first to the second
  given point inside their bounding box, in steps to neighbours, and its \<open>i\<close>-th point lags less than one step
  behind the ideal line on either axis.
\<close>

theorem draw_line_correct:
  assumes "fb_ok s" and "\<bar>sint x2 - sint x1\<bar> < 1073741824" and "\<bar>sint y2 - sint y1\<bar> < 1073741824"
  shows "\<exists>pts t. line_shape (sint x1) (sint y1) (sint x2) (sint y2) pts \<and> vesa_draw_line x1 y1 x2 y2 c s = Some t \<and>
    paints s t (\<lambda>px py. if (px, py) \<in> set pts then Some c else None)"
proof -
  have diff: "sint (x2 - x1) = sint x2 - sint x1" "sint (y2 - y1) = sint y2 - sint y1"
    using assms(2,3) by (auto intro!: sint_diff_small)
  let ?pts = "line_points (sint x1) (sint y1) (sint x2) (sint y2)"
  have "vesa_draw_line x1 y1 x2 y2 c s = Some (fold (\<lambda>(x, y). vesa_put_pixel x y c) ?pts s)"
  proof -
    obtain ix dx where X: "line_dir (sint x2 - sint x1) = (ix, dx)" by (cases "line_dir (sint x2 - sint x1)")
    obtain iy dy where Y: "line_dir (sint y2 - sint y1) = (iy, dy)" by (cases "line_dir (sint y2 - sint y1)")
    let ?d = "if dx > dy then dx else dy"
    have "0 \<le> ?d" "?d < 2147483646"
      using line_dir_props [OF X] line_dir_props [OF Y] assms(2,3) by auto
    then show ?thesis
      using draw_line_loop [of ?d 0 c dx dy ix iy s "sint x1" "sint y1"]
      by (simp add: vesa_draw_line_def diff X Y line_points_def line_at_def)
  qed
  then show ?thesis
    using points_paint [OF assms(1), of c ?pts] line_points_shape [OF assms(2,3)] sint_u32_range
    by (intro exI [of _ ?pts]) simp
qed

theorem draw_line_correct_witness:
  "\<exists>pts t. line_shape 0 0 3 1 pts \<and> vesa_draw_line 0 0 3 1 7
       \<lparr>vm = \<lambda>_. 0, vid = 0x1000, scr_x = 4, scr_y = 4, vcur = (0, 0), asc_set = True, text_ptr = 0\<rparr> = Some t \<and>
     paints \<lparr>vm = \<lambda>_. 0, vid = 0x1000, scr_x = 4, scr_y = 4, vcur = (0, 0), asc_set = True, text_ptr = 0\<rparr> t
       (\<lambda>px py. if (px, py) \<in> set pts then Some 7 else None)"
  using draw_line_correct [of
      "\<lparr>vm = \<lambda>_. 0, vid = 0x1000, scr_x = 4, scr_y = 4, vcur = (0, 0), asc_set = True, text_ptr = 0\<rparr>" 3 0 1 0 7]
  by (simp add: fb_ok_def aligned4_def)

text \<open>
  Characters are drawn from the font: a printable character whose cell lies inside the screen
  shows the 16 rows of its glyph, least significant bit first, in the foreground colour on the background
  colour, and nothing else changes.
\<close>

theorem draw_char_correct:
  assumes "fb_ok s" and "0 \<le> x" and "x + 8 \<le> scr_x s" and "0 \<le> y" and "y + 16 \<le> scr_y s"
    and "0x20 \<le> ch" and "ch < 0x7f"
  shows "paints s (vesa_draw_char_witdh_color x y ch fr bg s)
    (\<lambda>px py. if y \<le> py \<and> py < y + 16 \<and> x \<le> px \<and> px < x + 8
       then Some (if bit (ASCII ! ((unat ch - 32) * 16 + nat (py - y))) (nat (px - x)) then fr else bg) else None)"
proof -
  have "unat (ch - 0x20) = unat ch - 32" using assms(6) by (simp add: unat_sub word_le_nat_alt)
  then show ?thesis using draw_char_paints [OF assms, of fr bg] by (simp only:)
qed

theorem draw_char_correct_witness:
  "pixel (vesa_draw_char_witdh_color 0 0 33 5 6
     \<lparr>vm = \<lambda>_. 0, vid = 0x1000, scr_x = 8, scr_y = 16, vcur = (0, 0), asc_set = True, text_ptr = 0\<rparr>) 3 3 = 5"
proof -
  let ?s = "\<lparr>vm = \<lambda>_. 0, vid = 0x1000, scr_x = 8, scr_y = 16, vcur = (0, 0), asc_set = True, text_ptr = 0\<rparr>"
  have "fb_ok ?s" by (simp add: fb_ok_def aligned4_def)
  moreover have "ASCII ! 19 = 8" by (simp add: ASCII_def)
  ultimately show ?thesis using draw_char_correct [of ?s 0 0 33 5 6] by (simp add: paints_def bit_simps)
qed

end
