(* ===== verification/Canvas.thy ===== *)
theory Canvas
  imports Vesa
begin

text \<open>
  The dirty-rectangle canvas of \<^verbatim>\<open>gui/\<close>: \<^verbatim>\<open>canvas.c\<close>, \<^verbatim>\<open>box.c\<close> and \<^verbatim>\<open>display.c\<close>. A canvas is cut into blocks
  of 64 by 32 pixels; drawing an object appends it to the pipeline of each block it meets, and an
  update replays the pipelines of the blocks that changed. Pixels are 16-bit words in the flat memory. The
  addresses the allocator returns and the content of a pipeline after \<^verbatim>\<open>realloc\<close> (parameter \<open>re\<close>) are
  parameters: the \<^verbatim>\<open>realloc\<close> of \<^verbatim>\<open>malloc.c\<close> passes no count to \<^verbatim>\<open>memcpy\<close> and keeps nothing in particular.
  Coordinates and sizes are \<^verbatim>\<open>int\<close>: the sums that the clipping tests compare are taken at that width.
\<close>

section \<open>Data\<close>

definition CANVAS_BLOCK_WIDTH :: int where "CANVAS_BLOCK_WIDTH = 64"
definition CANVAS_BLOCK_HEIGHT :: int where "CANVAS_BLOCK_HEIGHT = 32"
definition CANVAS_PIPELINE_EXPAND :: nat where "CANVAS_PIPELINE_EXPAND = 32"
definition DIRTY :: u32 where "DIRTY = NOT 0"

lemmas canvas_consts = CANVAS_BLOCK_WIDTH_def CANVAS_BLOCK_HEIGHT_def CANVAS_PIPELINE_EXPAND_def

text \<open>The drawing functions whose addresses the program stores.\<close>

datatype draw_func = Draw_box | Gdi_flip

record pipe_node =
  nd_func :: draw_func
  nd_object :: u32
  nd_x :: int
  nd_y :: int

record canvas_block =
  blk_ptr :: u32
  pipeline :: "pipe_node list"
  total_object :: nat
  total_last :: u32
  capability_pipeline :: nat

record canvas =
  c_width :: int
  c_height :: int
  c_pitch :: int
  block_w :: int
  block_h :: int
  block :: "canvas_block list"

text \<open>An object: the common header and the colour of a box.\<close>

record box =
  dirty :: u32
  b_width :: int
  b_height :: int
  b_kx :: int
  b_ky :: int
  b_color :: u16

record gui =
  objs :: "u32 \<Rightarrow> box"
  scr :: vesa

section \<open>Pixels\<close>

definition store16 :: "mem \<Rightarrow> u32 \<Rightarrow> u16 \<Rightarrow> mem" where
  "store16 m a v = m(a := ucast v, a + 1 := ucast (drop_bit 8 v))"

definition upd_mem :: "(mem \<Rightarrow> mem) \<Rightarrow> gui \<Rightarrow> gui" where
  "upd_mem f g = g\<lparr>scr := (scr g)\<lparr>vm := f (vm (scr g))\<rparr>\<rparr>"

section \<open>Drawing functions\<close>

definition drawfunc_clear :: "u32 \<Rightarrow> int \<Rightarrow> mem \<Rightarrow> mem" where
  "drawfunc_clear ptr pitch m =
     fst (for_int (\<lambda>i (m, ptr). (memset ptr 0 (nat (CANVAS_BLOCK_WIDTH * 2)) m, ptr + word_of_int pitch))
            0 CANVAS_BLOCK_HEIGHT (m, ptr))"

text \<open>The clipped loops of \<^verbatim>\<open>draw_box\<close>: \<open>h\<close> rows of \<open>w\<close> pixels.\<close>

definition fill_rows :: "u32 \<Rightarrow> int \<Rightarrow> int \<Rightarrow> int \<Rightarrow> u16 \<Rightarrow> mem \<Rightarrow> mem" where
  "fill_rows buffer pitch w h color m =
     fst (for_int (\<lambda>i (m, buffer).
            (for_int (\<lambda>j m. store16 m (buffer + 2 * word_of_int j) color) 0 w m, buffer + word_of_int pitch))
          0 h (m, buffer))"

definition draw_box :: "u32 \<Rightarrow> int \<Rightarrow> box \<Rightarrow> int \<Rightarrow> int \<Rightarrow> mem \<Rightarrow> mem" where
  "draw_box ptr pitch obj x y m =
     (let w = b_width obj; h = b_height obj;
          (buffer, h, y) = (if y < 0 then (ptr, i32 (h + y), 0) else (ptr + word_of_int (i32 (y * pitch)), h, y));
          (buffer, w, x) = (if x < 0 then (buffer, i32 (w + x), 0) else (buffer + 2 * word_of_int x, w, x));
          w = (if i32 (w + x) > CANVAS_BLOCK_WIDTH then i32 (CANVAS_BLOCK_WIDTH - x) else w);
          h = (if i32 (h + y) > CANVAS_BLOCK_HEIGHT then i32 (CANVAS_BLOCK_HEIGHT - y) else h)
      in fill_rows buffer pitch w h (b_color obj) m)"

definition gdi_flip :: "u32 \<Rightarrow> int \<Rightarrow> int \<Rightarrow> int \<Rightarrow> vesa \<Rightarrow> vesa" where
  "gdi_flip ptr pitch x y s =
     for_int (\<lambda>i. for_int (\<lambda>j s.
         vesa_put_pixel (x + j) (y + i)
           (ucast (load16 (vm s) (ptr + 2 * word_of_int (pitch * (i * CANVAS_BLOCK_WIDTH + j))))) s)
       0 CANVAS_BLOCK_WIDTH) 0 CANVAS_BLOCK_HEIGHT s"

text \<open>\<^verbatim>\<open>node->func(ptr, pitch, node->object, node->x, node->y)\<close>\<close>

fun call_func :: "draw_func \<Rightarrow> u32 \<Rightarrow> int \<Rightarrow> u32 \<Rightarrow> int \<Rightarrow> int \<Rightarrow> gui \<Rightarrow> gui" where
  "call_func Draw_box ptr pitch object x y g = upd_mem (draw_box ptr pitch (objs g object) x y) g"
| "call_func Gdi_flip ptr pitch object x y g = g\<lparr>scr := gdi_flip ptr pitch x y (scr g)\<rparr>"

section \<open>Canvas operations\<close>

type_synonym realloc = "pipe_node list \<Rightarrow> nat \<Rightarrow> pipe_node list"

definition canvas_block_resize :: "realloc \<Rightarrow> canvas_block \<Rightarrow> canvas_block" where
  "canvas_block_resize re blk =
     (let size = capability_pipeline blk + CANVAS_PIPELINE_EXPAND
      in blk\<lparr>capability_pipeline := size, pipeline := re (pipeline blk) size\<rparr>)"

text \<open>One block of \<^verbatim>\<open>canvas_init\<close>: its pixel address and the flip entry at the start of its pipeline.\<close>

definition init_block :: "realloc \<Rightarrow> u32 \<Rightarrow> draw_func \<Rightarrow> u32 \<Rightarrow> int \<Rightarrow> int \<Rightarrow> canvas_block" where
  "init_block re ptr flip flip_object x y =
     (let blk = canvas_block_resize re \<lparr>blk_ptr = ptr, pipeline = [], total_object = 0, total_last = 0,
                  capability_pipeline = 0\<rparr>
      in blk\<lparr>total_object := 1, total_last := 0,
             pipeline := (pipeline blk)[0 := \<lparr>nd_func = flip, nd_object = flip_object, nd_x = x, nd_y = y\<rparr>]\<rparr>)"

text \<open>The inner loop over a row of blocks and the loop over the rows.\<close>

function init_row :: "realloc \<Rightarrow> u32 \<Rightarrow> draw_func \<Rightarrow> u32 \<Rightarrow> int \<Rightarrow> int \<Rightarrow> int \<Rightarrow> canvas_block list" where
  "init_row re line flip fo w i j =
     (if j < w
      then init_block re (line + 2 * word_of_int j) flip fo j i # init_row re line flip fo w i (j + CANVAS_BLOCK_WIDTH)
      else [])"
  by pat_completeness auto
termination
  by (relation "measure (\<lambda>(re, line, flip, fo, w, i, j). nat (w - j))") (auto simp: CANVAS_BLOCK_WIDTH_def)

function init_rows :: "realloc \<Rightarrow> u32 \<Rightarrow> int \<Rightarrow> draw_func \<Rightarrow> u32 \<Rightarrow> int \<Rightarrow> int \<Rightarrow> int \<Rightarrow> canvas_block list" where
  "init_rows re line pitch flip fo w h i =
     (if i < h
      then init_row re line flip fo w i 0 @
           init_rows re (line + word_of_int pitch) pitch flip fo w h (i + CANVAS_BLOCK_HEIGHT)
      else [])"
  by pat_completeness auto
termination
  by (relation "measure (\<lambda>(re, line, pitch, flip, fo, w, h, i). nat (h - i))") (auto simp: CANVAS_BLOCK_HEIGHT_def)

declare init_row.simps [simp del] init_rows.simps [simp del]

definition canvas_init :: "realloc \<Rightarrow> canvas \<Rightarrow> u32 \<Rightarrow> draw_func \<Rightarrow> u32 \<Rightarrow> canvas" where
  "canvas_init re c ptr flip fo =
     (let pitch = i32 (c_pitch c * CANVAS_BLOCK_HEIGHT)
      in c\<lparr>block := init_rows re ptr pitch flip fo (c_width c) (c_height c) 0\<rparr>)"

definition canvas_create :: "realloc \<Rightarrow> int \<Rightarrow> int \<Rightarrow> u32 \<Rightarrow> int \<Rightarrow> draw_func \<Rightarrow> u32 \<Rightarrow> canvas" where
  "canvas_create re w h ptr pitch flip fo =
     (let nw = sdiv_c (i32 (i32 (w + CANVAS_BLOCK_WIDTH) - 1)) CANVAS_BLOCK_WIDTH;
          nh = sdiv_c (i32 (i32 (h + CANVAS_BLOCK_HEIGHT) - 1)) CANVAS_BLOCK_HEIGHT
      in canvas_init re \<lparr>c_width = w, c_height = h, c_pitch = pitch, block_w = nw, block_h = nh, block = []\<rparr>
           ptr flip fo)"

text \<open>The body of the block loops: one node at the end of a pipeline.\<close>

definition add_node :: "realloc \<Rightarrow> pipe_node \<Rightarrow> u32 \<Rightarrow> canvas_block \<Rightarrow> canvas_block" where
  "add_node re node d blk =
     (let blk = (if total_object blk = capability_pipeline blk then canvas_block_resize re blk else blk)
      in blk\<lparr>pipeline := (pipeline blk)[total_object blk := node], total_object := total_object blk + 1,
             total_last := total_last blk OR d\<rparr>)"

definition draw_blocks :: "realloc \<Rightarrow> draw_func \<Rightarrow> u32 \<Rightarrow> u32 \<Rightarrow> int \<Rightarrow> int \<Rightarrow> int \<Rightarrow> int \<Rightarrow> int \<Rightarrow> int \<Rightarrow> canvas \<Rightarrow> canvas" where
  "draw_blocks re func object d x y left right upper lower c =
     (let w = sdiv_c right CANVAS_BLOCK_WIDTH; h = sdiv_c lower CANVAS_BLOCK_HEIGHT;
          from_x = sdiv_c left CANVAS_BLOCK_WIDTH; from_y = sdiv_c upper CANVAS_BLOCK_HEIGHT
      in for_int (\<lambda>i. for_int (\<lambda>j c.
           let k = nat (i * block_w c + j)
           in c\<lparr>block := (block c)[k := add_node re
                  \<lparr>nd_func = func, nd_object = object, nd_x = i32 (x - j * CANVAS_BLOCK_WIDTH),
                   nd_y = i32 (y - i * CANVAS_BLOCK_HEIGHT)\<rparr> d (block c ! k)]\<rparr>)
           from_x (w + 1)) from_y (h + 1) c)"

definition canvas_draw :: "realloc \<Rightarrow> draw_func \<Rightarrow> u32 \<Rightarrow> int \<Rightarrow> int \<Rightarrow> canvas \<times> gui \<Rightarrow> canvas \<times> gui" where
  "canvas_draw re func object x y = (\<lambda>(c, g).
     let obj = objs g object; d = dirty obj in
     if b_width obj \<le> 0 \<or> b_height obj \<le> 0 then (c, g)
     else
       let g = g\<lparr>objs := (objs g)(object := obj\<lparr>dirty := 0\<rparr>)\<rparr>;
           x = i32 (x - b_kx obj); y = i32 (y - b_ky obj);
           left = x; upper = y;
           right = i32 (i32 (left + b_width obj) - 1); lower = i32 (i32 (upper + b_height obj) - 1)
       in if left \<ge> 0 \<and> left \<ge> c_width c then (c, g)
          else let left = (if left < 0 then 0 else left) in
          if upper \<ge> 0 \<and> upper \<ge> c_height c then (c, g)
          else let upper = (if upper < 0 then 0 else upper) in
          if right \<le> i32 (c_width c - 1) \<and> right < 0 then (c, g)
          else let right = (if right > i32 (c_width c - 1) then i32 (c_width c - 1) else right) in
          if lower \<le> i32 (c_height c - 1) \<and> lower < 0 then (c, g)
          else let lower = (if lower > i32 (c_height c - 1) then i32 (c_height c - 1) else lower)
          in (draw_blocks re func object d x y left right upper lower c, g))"

text \<open>
  \<^verbatim>\<open>canvas_update\<close> on one block: when the number of objects differs from the last one, clear it and replay
  its pipeline from the last node to the first.
\<close>

definition replay :: "u32 \<Rightarrow> int \<Rightarrow> pipe_node list \<Rightarrow> gui \<Rightarrow> gui" where
  "replay ptr pitch nodes g =
     fold (\<lambda>n. call_func (nd_func n) ptr pitch (nd_object n) (nd_x n) (nd_y n)) (rev nodes) g"

definition update_block :: "int \<Rightarrow> canvas_block \<Rightarrow> gui \<Rightarrow> canvas_block \<times> gui" where
  "update_block pitch blk g =
     (if of_nat (total_object blk) \<noteq> total_last blk
      then let g = upd_mem (drawfunc_clear (blk_ptr blk) pitch) g;
               g = replay (blk_ptr blk) pitch (take (total_object blk) (pipeline blk)) g
           in (blk\<lparr>total_last := of_nat (total_object blk), total_object := 1\<rparr>, g)
      else (blk\<lparr>total_object := 1\<rparr>, g))"

fun update_blocks :: "int \<Rightarrow> canvas_block list \<Rightarrow> gui \<Rightarrow> canvas_block list \<times> gui" where
  "update_blocks pitch [] g = ([], g)"
| "update_blocks pitch (blk # bs) g =
     (let (blk', g1) = update_block pitch blk g; (bs', g2) = update_blocks pitch bs g1 in (blk' # bs', g2))"

definition canvas_update :: "canvas \<times> gui \<Rightarrow> canvas \<times> gui" where
  "canvas_update = (\<lambda>(c, g).
     let n = nat (block_w c * block_h c); (bs, g') = update_blocks (c_pitch c) (take n (block c)) g
     in (c\<lparr>block := bs @ drop n (block c)\<rparr>, g'))"

definition canvas_redraw :: "canvas \<Rightarrow> canvas" where
  "canvas_redraw c = (let n = nat (block_w c * block_h c)
     in c\<lparr>block := map (\<lambda>b. b\<lparr>total_last := 0\<rparr>) (take n (block c)) @ drop n (block c)\<rparr>)"

section \<open>Boxes and displays\<close>

definition box_draw :: "realloc \<Rightarrow> u32 \<Rightarrow> int \<Rightarrow> int \<Rightarrow> canvas \<times> gui \<Rightarrow> canvas \<times> gui" where
  "box_draw re b x y = canvas_draw re Draw_box b x y"

record gdi =
  g_flip :: draw_func
  g_object :: u32
  g_buffer :: u32
  g_width :: int
  g_height :: int
  g_pitch :: int

text \<open>The two addresses are the results of the calls of \<^verbatim>\<open>malloc\<close>; \<open>n + 3\<close> with the low bits cleared.\<close>

definition gdi_create :: "(int \<Rightarrow> u32) \<Rightarrow> int \<Rightarrow> int \<Rightarrow> gdi" where
  "gdi_create malloc w h =
     (let pitch = (w * 2 + 3) div 4 * 4
      in \<lparr>g_flip = Gdi_flip, g_object = malloc 0, g_buffer = malloc (h * pitch), g_width = w, g_height = h,
          g_pitch = pitch\<rparr>)"

text \<open>
  Releasing: the addresses passed to \<^verbatim>\<open>free\<close>, in order. The pipelines are at addresses of their own, one per
  block; the block array and the pixels are not released.
\<close>

definition canvas_release :: "(nat \<Rightarrow> u32) \<Rightarrow> u32 \<Rightarrow> canvas \<Rightarrow> u32 list" where
  "canvas_release pipeline_addr c_addr c =
     fst (for_int (\<lambda>i st. for_int (\<lambda>j (fs, k). (fs @ [pipeline_addr k], Suc k)) 0 (block_w c) st) 0 (block_h c) ([], 0)) @
     [c_addr]"

definition gdi_release :: "gdi \<Rightarrow> u32 list" where
  "gdi_release g = [g_buffer g, g_object g]"

end
