(* ===== verification/Gui.thy ===== *)
theory Gui
  imports Canvas Paint
begin

text \<open>
  Correctness of the canvas: \<open>draw_box\<close> colours exactly the part of the box inside its block, and \<open>canvas_draw\<close>
  queues an object in exactly the blocks that its visible part meets.
\<close>

section \<open>The pixels of a block\<close>

definition cell :: "u32 \<Rightarrow> int \<Rightarrow> int \<Rightarrow> int \<Rightarrow> u32" where
  "cell ptr pitch i j = ptr + word_of_int (pitch * i + 2 * j)"

text \<open>Rows do not overlap and the block does not wrap around the address space.\<close>

definition block_ok :: "u32 \<Rightarrow> int \<Rightarrow> bool" where
  "block_ok ptr pitch \<longleftrightarrow> 128 \<le> pitch \<and> uint ptr + 32 * pitch \<le> 4294967296"

definition in_block :: "u32 \<Rightarrow> int \<Rightarrow> u32 \<Rightarrow> bool" where
  "in_block ptr pitch a \<longleftrightarrow>
     (\<exists>i j. 0 \<le> i \<and> i < 32 \<and> 0 \<le> j \<and> j < 64 \<and> (a = cell ptr pitch i j \<or> a = cell ptr pitch i j + 1))"

lemma uint_cell:
  assumes ok: "block_ok ptr pitch" and i: "0 \<le> i" "i < 32" and j: "0 \<le> j" "j < 64"
  shows "uint (cell ptr pitch i j) = uint ptr + (i * pitch + 2 * j)"
    and "uint (cell ptr pitch i j + 1) = uint ptr + (i * pitch + (2 * j + 1))"
proof -
  have p: "128 \<le> pitch" "uint ptr + 32 * pitch \<le> 4294967296" using ok by (simp_all add: block_ok_def)
  have "0 \<le> i * pitch" using i p by simp
  moreover have "i * pitch \<le> 31 * pitch" using i p by (intro mult_right_mono) simp_all
  ultimately have r: "0 \<le> uint ptr + (i * pitch + 2 * j)" "uint ptr + (i * pitch + (2 * j + 1)) < 4294967296"
    using p j uint_ge_0 [of ptr] by linarith+
  have "cell ptr pitch i j = word_of_int (uint ptr + (i * pitch + 2 * j))"
    "cell ptr pitch i j + 1 = word_of_int (uint ptr + (i * pitch + (2 * j + 1)))"
    by (simp_all add: cell_def mult.commute)
  then show "uint (cell ptr pitch i j) = uint ptr + (i * pitch + 2 * j)"
    "uint (cell ptr pitch i j + 1) = uint ptr + (i * pitch + (2 * j + 1))"
    using r by (simp_all only: uint_word_of_int) simp_all
qed

lemma cell_inj:
  assumes ok: "block_ok ptr pitch" and i: "0 \<le> i" "i < 32" and j: "0 \<le> j" "j < 64"
    and i': "0 \<le> i'" "i' < 32" and j': "0 \<le> j'" "j' < 64"
  shows "cell ptr pitch i j = cell ptr pitch i' j' \<longleftrightarrow> i = i' \<and> j = j'"
    and "cell ptr pitch i j + 1 = cell ptr pitch i' j' + 1 \<longleftrightarrow> i = i' \<and> j = j'"
    and "cell ptr pitch i j \<noteq> cell ptr pitch i' j' + 1" and "cell ptr pitch i j + 1 \<noteq> cell ptr pitch i' j'"
proof -
  note u = uint_cell [OF ok i j] and u' = uint_cell [OF ok i' j']
  have p: "128 \<le> pitch" using ok by (simp add: block_ok_def)
  have rc: "i * pitch + a = i' * pitch + b \<longleftrightarrow> i = i' \<and> a = b" if "0 \<le> a" "a < 128" "0 \<le> b" "b < 128" for a b
    by (rule row_col_inj) (use that p in simp_all)
  have word: "x = y \<longleftrightarrow> uint x = uint y" for x y :: u32 by (rule word_uint_eq_iff)
  show "cell ptr pitch i j = cell ptr pitch i' j' \<longleftrightarrow> i = i' \<and> j = j'"
    unfolding word u u' using rc [of "2 * j" "2 * j'"] j j' by simp
  show "cell ptr pitch i j + 1 = cell ptr pitch i' j' + 1 \<longleftrightarrow> i = i' \<and> j = j'"
    unfolding word u u' using rc [of "2 * j + 1" "2 * j' + 1"] j j' by simp
  have "2 * j \<noteq> 2 * j' + 1" "2 * j + 1 \<noteq> 2 * j'" by presburger+
  then show "cell ptr pitch i j \<noteq> cell ptr pitch i' j' + 1" "cell ptr pitch i j + 1 \<noteq> cell ptr pitch i' j'"
    unfolding word u u' using rc [of "2 * j" "2 * j' + 1"] rc [of "2 * j + 1" "2 * j'"] j j' by auto
qed

lemma load16_store16_same: "load16 (store16 m a v) a = v"
proof (rule bit_word_eqI)
  fix n assume "n < LENGTH(16)"
  then show "bit (load16 (store16 m a v) a) n = bit v n"
    by (cases "n < 8") (auto simp: load16_def store16_def bit_simps)
qed

lemma load16_store16_other:
  "b \<noteq> a \<Longrightarrow> b \<noteq> a + 1 \<Longrightarrow> b + 1 \<noteq> a \<Longrightarrow> load16 (store16 m a v) b = load16 m b"
  by (simp add: load16_def store16_def)

section \<open>Painting a block\<close>

definition bpaints :: "u32 \<Rightarrow> int \<Rightarrow> mem \<Rightarrow> mem \<Rightarrow> (int \<Rightarrow> int \<Rightarrow> u16 option) \<Rightarrow> bool" where
  "bpaints ptr pitch m m' F \<longleftrightarrow>
     (\<forall>i j. 0 \<le> i \<and> i < 32 \<and> 0 \<le> j \<and> j < 64 \<longrightarrow> load16 m' (cell ptr pitch i j) =
        (case F i j of None \<Rightarrow> load16 m (cell ptr pitch i j) | Some c \<Rightarrow> c)) \<and>
     (\<forall>a. \<not> in_block ptr pitch a \<longrightarrow> m' a = m a)"

lemma bpaints_refl: "bpaints ptr pitch m m (\<lambda>i j. None)"
  by (simp add: bpaints_def)

lemma bpaints_cong:
  assumes "bpaints ptr pitch m m' F"
    and "\<And>i j. 0 \<le> i \<Longrightarrow> i < 32 \<Longrightarrow> 0 \<le> j \<Longrightarrow> j < 64 \<Longrightarrow> H i j = F i j"
  shows "bpaints ptr pitch m m' H"
  using assms by (auto simp: bpaints_def)

lemma bpaints_trans:
  assumes "bpaints ptr pitch m m1 F" and "bpaints ptr pitch m1 m2 G"
    and "\<And>i j. 0 \<le> i \<Longrightarrow> i < 32 \<Longrightarrow> 0 \<le> j \<Longrightarrow> j < 64 \<Longrightarrow>
      H i j = (case G i j of None \<Rightarrow> F i j | Some c \<Rightarrow> Some c)"
  shows "bpaints ptr pitch m m2 H"
  using assms by (auto simp: bpaints_def split: option.splits)

lemma store16_bpaints:
  assumes ok: "block_ok ptr pitch" and i: "0 \<le> i" "i < 32" and j: "0 \<le> j" "j < 64"
  shows "bpaints ptr pitch m (store16 m (cell ptr pitch i j) c) (\<lambda>i' j'. if i' = i \<and> j' = j then Some c else None)"
proof -
  have "load16 (store16 m (cell ptr pitch i j) c) (cell ptr pitch i' j') =
      (if i' = i \<and> j' = j then c else load16 m (cell ptr pitch i' j'))"
    if p: "0 \<le> i'" "i' < 32" "0 \<le> j'" "j' < 64" for i' j'
  proof (cases "i' = i \<and> j' = j")
    case True
    then show ?thesis by (simp add: load16_store16_same)
  next
    case False
    then show ?thesis
      using cell_inj [OF ok p i j] by (subst load16_store16_other) auto
  qed
  moreover have "store16 m (cell ptr pitch i j) c a = m a" if "\<not> in_block ptr pitch a" for a
  proof -
    have "a \<noteq> cell ptr pitch i j" "a \<noteq> cell ptr pitch i j + 1" using that i j unfolding in_block_def by blast+
    then show ?thesis by (simp add: store16_def)
  qed
  ultimately show ?thesis by (auto simp: bpaints_def)
qed

lemma row_bpaints:
  assumes ok: "block_ok ptr pitch" and i: "0 \<le> i" "i < 32" and x: "0 \<le> x" "x + w \<le> 64" and w: "0 \<le> w"
  shows "bpaints ptr pitch m (for_int (\<lambda>j m. store16 m (cell ptr pitch i x + 2 * word_of_int j) c) 0 w m)
    (\<lambda>i' j'. if i' = i \<and> x \<le> j' \<and> j' < x + w then Some c else None)"
proof -
  let ?f = "\<lambda>j m. store16 m (cell ptr pitch i x + 2 * word_of_int j) c"
  show ?thesis
  proof (rule for_int_inv [where P = "\<lambda>k t. bpaints ptr pitch m t (\<lambda>i' j'. if i' = i \<and> x \<le> j' \<and> j' < x + k then Some c else None)"])
    show "bpaints ptr pitch m m (\<lambda>i' j'. if i' = i \<and> x \<le> j' \<and> j' < x + 0 then Some c else None)"
      by (rule bpaints_cong [OF bpaints_refl]) simp
  next
    fix k t
    assume k: "0 \<le> k" "k < w"
      and P: "bpaints ptr pitch m t (\<lambda>i' j'. if i' = i \<and> x \<le> j' \<and> j' < x + k then Some c else None)"
    have a: "cell ptr pitch i x + 2 * word_of_int k = cell ptr pitch i (x + k)"
      by (simp add: cell_def algebra_simps)
    have "bpaints ptr pitch t (?f k t) (\<lambda>i' j'. if i' = i \<and> j' = x + k then Some c else None)"
      unfolding a by (rule store16_bpaints [OF ok i]) (use k x in simp_all)
    then show "bpaints ptr pitch m (?f k t) (\<lambda>i' j'. if i' = i \<and> x \<le> j' \<and> j' < x + (k + 1) then Some c else None)"
      by (rule bpaints_trans [OF P]) (use k in auto)
  qed (rule w)
qed

lemma fill_rows_bpaints:
  assumes ok: "block_ok ptr pitch" and y: "0 \<le> y" "y + h \<le> 32" "0 \<le> h" and x: "0 \<le> x" "x + w \<le> 64" "0 \<le> w"
  shows "bpaints ptr pitch m (fill_rows (cell ptr pitch y x) pitch w h c m)
    (\<lambda>i j. if y \<le> i \<and> i < y + h \<and> x \<le> j \<and> j < x + w then Some c else None)"
proof -
  let ?f = "\<lambda>i :: int. \<lambda>(m, buffer). (for_int (\<lambda>j m. store16 m (buffer + 2 * word_of_int j) c) 0 w m, buffer + word_of_int pitch)"
  let ?P = "\<lambda>k (t, b). b = cell ptr pitch (y + k) x \<and>
      bpaints ptr pitch m t (\<lambda>i j. if y \<le> i \<and> i < y + k \<and> x \<le> j \<and> j < x + w then Some c else None)"
  have "?P h (for_int ?f 0 h (m, cell ptr pitch y x))"
  proof (rule for_int_inv [where P = ?P])
    show "?P 0 (m, cell ptr pitch y x)" by (auto intro: bpaints_cong [OF bpaints_refl])
  next
    fix k :: int and q :: "mem \<times> u32"
    assume k: "0 \<le> k" "k < h" and P: "?P k q"
    obtain t b where q: "q = (t, b)" by (cases q)
    have b: "b = cell ptr pitch (y + k) x"
      and pt: "bpaints ptr pitch m t (\<lambda>i j. if y \<le> i \<and> i < y + k \<and> x \<le> j \<and> j < x + w then Some c else None)"
      using P q by simp_all
    have "bpaints ptr pitch t (for_int (\<lambda>j m. store16 m (b + 2 * word_of_int j) c) 0 w t)
        (\<lambda>i j. if i = y + k \<and> x \<le> j \<and> j < x + w then Some c else None)"
      unfolding b by (rule row_bpaints [OF ok]) (use k x y in simp_all)
    then have "bpaints ptr pitch m (for_int (\<lambda>j m. store16 m (b + 2 * word_of_int j) c) 0 w t)
        (\<lambda>i j. if y \<le> i \<and> i < y + (k + 1) \<and> x \<le> j \<and> j < x + w then Some c else None)"
      by (rule bpaints_trans [OF pt]) (use k in auto)
    moreover have "b + word_of_int pitch = cell ptr pitch (y + (k + 1)) x"
      by (simp add: b cell_def algebra_simps)
    ultimately show "?P (k + 1) (?f k q)" using q by simp
  qed (rule y(3))
  then show ?thesis by (simp add: fill_rows_def split: prod.splits)
qed

lemma fill_rows_empty: "h \<le> 0 \<or> w \<le> 0 \<Longrightarrow> fill_rows b pitch w h c m = m"
proof (cases "h \<le> 0")
  case False
  assume "h \<le> 0 \<or> w \<le> 0"
  with False have w: "w \<le> 0" by simp
  have "fst (for_int (\<lambda>i (m, buffer). (for_int (\<lambda>j m. store16 m (buffer + 2 * word_of_int j) c) 0 w m,
      buffer + word_of_int pitch)) 0 h (m, b)) = m"
    by (rule for_int_pres [where P = "\<lambda>q. fst q = m"]) (use w in \<open>auto split: prod.splits\<close>)
  then show ?thesis by (simp add: fill_rows_def)
qed (simp add: fill_rows_def)

text \<open>A box whose far edges are \<^verbatim>\<open>int\<close> values: none of the sums of \<open>draw_box\<close> wraps.\<close>

definition box_fits :: "box \<Rightarrow> int \<Rightarrow> int \<Rightarrow> bool" where
  "box_fits obj x y \<longleftrightarrow> 0 \<le> b_width obj \<and> 0 \<le> b_height obj \<and> - 2147483648 \<le> x \<and> - 2147483648 \<le> y \<and>
     b_width obj < 2147483648 \<and> b_height obj < 2147483648 \<and> x + b_width obj < 2147483648 \<and> y + b_height obj < 2147483648"

lemma draw_box_bpaints:
  assumes ok: "block_ok ptr pitch" and fits: "box_fits obj x y"
  shows "bpaints ptr pitch m (draw_box ptr pitch obj x y m)
    (\<lambda>i j. if y \<le> i \<and> i < y + b_height obj \<and> x \<le> j \<and> j < x + b_width obj then Some (b_color obj) else None)"
proof -
  define X Y where "X = max x 0" and "Y = max y 0"
  define w h where "w = min (b_width obj + min x 0) (64 - X)" and "h = min (b_height obj + min y 0) (32 - Y)"
  have buf: "(if x < 0 then (if y < 0 then ptr else ptr + word_of_int (y * pitch))
      else (if y < 0 then ptr else ptr + word_of_int (y * pitch)) + 2 * word_of_int x) = cell ptr pitch Y X"
    by (auto simp: cell_def X_def Y_def max_def mult.commute)
  have f: "x < 0 \<Longrightarrow> i32 (b_width obj + x) = b_width obj + x" "y < 0 \<Longrightarrow> i32 (b_height obj + y) = b_height obj + y"
    "\<not> x < 0 \<Longrightarrow> i32 (b_width obj + x) = b_width obj + x" "\<not> y < 0 \<Longrightarrow> i32 (b_height obj + y) = b_height obj + y"
    "\<not> x < 0 \<Longrightarrow> i32 (64 - x) = 64 - x" "\<not> y < 0 \<Longrightarrow> i32 (32 - y) = 32 - y" "i32 64 = 64" "i32 32 = 32"
    using fits by (auto simp: box_fits_def intro!: i32_id)
  have "draw_box ptr pitch obj x y m = fill_rows (cell ptr pitch Y X) pitch w h (b_color obj) m"
    unfolding buf [symmetric]
    using f by (auto simp: draw_box_def canvas_consts X_def Y_def w_def h_def min_def max_def Let_def word_of_int_i32)
  moreover have "bpaints ptr pitch m (fill_rows (cell ptr pitch Y X) pitch w h (b_color obj) m)
    (\<lambda>i j. if Y \<le> i \<and> i < Y + h \<and> X \<le> j \<and> j < X + w then Some (b_color obj) else None)"
  proof (cases "h \<le> 0 \<or> w \<le> 0")
    case True
    then show ?thesis by (auto simp: fill_rows_empty intro: bpaints_cong [OF bpaints_refl])
  next
    case False
    then show ?thesis
      by (intro fill_rows_bpaints [OF ok]) (auto simp: X_def Y_def w_def h_def min_le_iff_disj)
  qed
  ultimately show ?thesis
    by (auto simp: X_def Y_def w_def h_def elim!: bpaints_cong)
qed

section \<open>Queueing an object\<close>

definition canvas_ok :: "canvas \<Rightarrow> bool" where
  "canvas_ok c \<longleftrightarrow> 0 < c_width c \<and> 0 < c_height c \<and> c_width c < 2147483648 \<and> c_height c < 2147483648 \<and> block_w c = (c_width c + 63) div 64 \<and>
     block_h c = (c_height c + 31) div 32 \<and> length (block c) = nat (block_w c * block_h c)"

abbreviation block_at :: "canvas \<Rightarrow> int \<Rightarrow> int \<Rightarrow> canvas_block" where
  "block_at c i j \<equiv> block c ! nat (i * block_w c + j)"

lemma le_div_iff: "0 < b \<Longrightarrow> k \<le> r div b \<longleftrightarrow> k * b \<le> (r :: int)"
proof
  assume b: "0 < b" and k: "k \<le> r div b"
  have "k * b \<le> r div b * b" using b k by (intro mult_right_mono) simp_all
  also have "\<dots> \<le> r" using b pos_mod_sign [of b r] div_mult_mod_eq [of r b] by linarith
  finally show "k * b \<le> r" .
next
  assume b: "0 < b" and "k * b \<le> r"
  then have "k * b div b \<le> r div b" by (intro zdiv_mono1)
  with b show "k \<le> r div b" by simp
qed

text \<open>
  The spans \<open>[k b, (k + 1) b)\<close> and \<open>[x, x + n)\<close> have a common point below \<open>W\<close> that is not negative: the clipped
  interval reaches the \<open>k\<close>-th piece.
\<close>

lemma span_meets:
  fixes b :: int
  assumes b: "0 < b" and n: "0 < n" and W: "0 < W" and k: "0 \<le> k"
  shows "(\<exists>p. k * b \<le> p \<and> p < k * b + b \<and> 0 \<le> p \<and> p < W \<and> x \<le> p \<and> p < x + n) \<longleftrightarrow>
    max x 0 \<le> min (x + n - 1) (W - 1) \<and> max x 0 div b \<le> k \<and> k \<le> min (x + n - 1) (W - 1) div b"
    (is "?L \<longleftrightarrow> ?l \<le> ?r \<and> _")
proof -
  have lo: "?l div b \<le> k \<longleftrightarrow> ?l < k * b + b"
    using le_div_iff [OF b, of "k + 1" ?l] by (auto simp: algebra_simps)
  have hi: "k \<le> r div b \<longleftrightarrow> k * b \<le> r" for r by (rule le_div_iff [OF b])
  show ?thesis
  proof
    assume ?L
    then obtain p where "k * b \<le> p" "p < k * b + b" "0 \<le> p" "p < W" "x \<le> p" "p < x + n" by blast
    then show "?l \<le> ?r \<and> ?l div b \<le> k \<and> k \<le> ?r div b" unfolding lo hi by auto
  next
    assume "?l \<le> ?r \<and> ?l div b \<le> k \<and> k \<le> ?r div b"
    then show ?L unfolding lo hi using b k by (intro exI [of _ "max ?l (k * b)"]) auto
  qed
qed

text \<open>The double loop over a rectangle of blocks applies \<open>add_node\<close> once to each of them.\<close>

definition node_for :: "draw_func \<Rightarrow> u32 \<Rightarrow> int \<Rightarrow> int \<Rightarrow> int \<Rightarrow> int \<Rightarrow> pipe_node" where
  "node_for func object x y i j =
     \<lparr>nd_func = func, nd_object = object, nd_x = i32 (x - j * CANVAS_BLOCK_WIDTH), nd_y = i32 (y - i * CANVAS_BLOCK_HEIGHT)\<rparr>"

text \<open>\<open>cupd c c' S f\<close>: the blocks in \<open>S\<close> are changed by \<open>f\<close>, everything else is as before.\<close>

definition cupd :: "canvas \<Rightarrow> canvas \<Rightarrow> (int \<Rightarrow> int \<Rightarrow> bool) \<Rightarrow> (int \<Rightarrow> int \<Rightarrow> canvas_block \<Rightarrow> canvas_block) \<Rightarrow> bool" where
  "cupd c c' S f \<longleftrightarrow> c' = c\<lparr>block := block c'\<rparr> \<and> length (block c') = length (block c) \<and>
     (\<forall>i j. 0 \<le> i \<and> i < block_h c \<and> 0 \<le> j \<and> j < block_w c \<longrightarrow>
        block_at c' i j = (if S i j then f i j (block_at c i j) else block_at c i j))"

lemma cupdD:
  assumes "cupd c c' S f"
  shows "block_w c' = block_w c" and "length (block c') = length (block c)"
    and "0 \<le> i \<Longrightarrow> i < block_h c \<Longrightarrow> 0 \<le> j \<Longrightarrow> j < block_w c \<Longrightarrow>
      block c' ! nat (i * block_w c + j) =
        (if S i j then f i j (block c ! nat (i * block_w c + j)) else block c ! nat (i * block_w c + j))"
proof -
  have e: "c' = c\<lparr>block := block c'\<rparr>" using assms unfolding cupd_def by (elim conjE)
  have "block_w c' = block_w (c\<lparr>block := block c'\<rparr>)" by (rule arg_cong [OF e])
  then show w: "block_w c' = block_w c" by simp
  show "length (block c') = length (block c)" using assms unfolding cupd_def by (elim conjE)
  assume "0 \<le> i" "i < block_h c" "0 \<le> j" "j < block_w c"
  then show "block c' ! nat (i * block_w c + j) =
        (if S i j then f i j (block c ! nat (i * block_w c + j)) else block c ! nat (i * block_w c + j))"
    using assms unfolding cupd_def w by blast
qed

lemma cupd_refl: "cupd c c (\<lambda>i j. False) f"
  by (simp add: cupd_def)

lemma cupd_cong: "cupd c c' S f \<Longrightarrow> (\<And>i j. 0 \<le> i \<Longrightarrow> 0 \<le> j \<Longrightarrow> S i j \<longleftrightarrow> T i j) \<Longrightarrow> cupd c c' T f"
  by (auto simp: cupd_def)

lemma block_index:
  assumes "canvas_ok c" and "0 \<le> i" and "i < block_h c" and "0 \<le> j" and "j < block_w c"
  shows "nat (i * block_w c + j) < length (block c)"
proof -
  have "(i + 1) * block_w c \<le> block_h c * block_w c" using assms by (intro mult_right_mono) auto
  then have "i * block_w c + j < block_w c * block_h c" using assms(5) by (simp add: algebra_simps)
  moreover have "0 \<le> i * block_w c + j" using assms by simp
  ultimately show ?thesis using assms(1) by (simp add: canvas_ok_def nat_less_eq_zless)
qed

lemma cupd_step:
  assumes c: "cupd c c' S f" and len: "length (block c) = nat (block_w c * block_h c)"
    and i: "0 \<le> i" "i < block_h c" and j: "0 \<le> j" "j < block_w c" and new: "\<not> S i j"
  shows "cupd c (c'\<lparr>block := (block c')[nat (i * block_w c' + j) := f i j (block c' ! nat (i * block_w c' + j))]\<rparr>)
    (\<lambda>i' j'. S i' j' \<or> i' = i \<and> j' = j) f"
proof -
  have w: "block_w c' = block_w c" by (rule cupdD(1) [OF c])
  have idx: "0 \<le> a * block_w c + b" "a * block_w c + b < block_w c * block_h c"
    if "0 \<le> a" "a < block_h c" "0 \<le> b" "b < block_w c" for a b
  proof -
    show "0 \<le> a * block_w c + b" using that j by simp
    have "(a + 1) * block_w c \<le> block_h c * block_w c" using that j by (intro mult_right_mono) auto
    then show "a * block_w c + b < block_w c * block_h c" using that by (simp add: algebra_simps)
  qed
  have eq: "nat (a * block_w c + b) = nat (i * block_w c + j) \<longleftrightarrow> a = i \<and> b = j"
    if "0 \<le> a" "a < block_h c" "0 \<le> b" "b < block_w c" for a b
    using idx(1) [OF that] idx(1) [OF i j] row_col_inj [OF that(3,4) j, of a i] by (simp add: nat_eq_iff)
  have lt: "nat (i * block_w c + j) < length (block c')"
    using idx [OF i j] c len by (simp add: cupd_def nat_less_iff)
  have old: "block_at c' a b = (if S a b then f a b (block_at c a b) else block_at c a b)"
    if "0 \<le> a" "a < block_h c" "0 \<le> b" "b < block_w c" for a b
    using c that by (simp add: cupd_def w)
  have "c' = c\<lparr>block := block c'\<rparr>" "length (block c') = length (block c)" using c by (simp_all add: cupd_def)
  moreover have "(block c')[nat (i * block_w c + j) := f i j (block c' ! nat (i * block_w c + j))] ! nat (a * block_w c + b) =
      (if S a b \<or> a = i \<and> b = j then f a b (block_at c a b) else block_at c a b)"
    if "0 \<le> a" "a < block_h c" "0 \<le> b" "b < block_w c" for a b
    using old [OF that] old [OF i j] eq [OF that] lt new by (auto simp: nth_list_update w)
  ultimately show ?thesis unfolding cupd_def w
    by (metis (no_types, lifting) canvas.select_convs(4,6) canvas.surjective canvas.update_convs(6) length_list_update)
qed

lemma block_row_cupd:
  assumes c0: "cupd c c' S f" and len: "length (block c) = nat (block_w c * block_h c)"
    and i: "0 \<le> i" "i < block_h c" and x: "0 \<le> fx" "fx \<le> n" "n \<le> block_w c"
    and new: "\<And>j. 0 \<le> j \<Longrightarrow> \<not> S i j"
  shows "cupd c (for_int (\<lambda>j c. c\<lparr>block := (block c)[nat (i * block_w c + j) := f i j (block c ! nat (i * block_w c + j))]\<rparr>) fx n c')
    (\<lambda>a b. S a b \<or> a = i \<and> fx \<le> b \<and> b < n) f"
proof (rule for_int_inv [where P = "\<lambda>k t. cupd c t (\<lambda>a b. S a b \<or> a = i \<and> fx \<le> b \<and> b < k) f"])
  show "cupd c c' (\<lambda>a b. S a b \<or> a = i \<and> fx \<le> b \<and> b < fx) f"
    by (rule cupd_cong [OF c0]) auto
next
  fix k t
  assume k: "fx \<le> k" "k < n" and P: "cupd c t (\<lambda>a b. S a b \<or> a = i \<and> fx \<le> b \<and> b < k) f"
  have "cupd c (t\<lparr>block := (block t)[nat (i * block_w t + k) := f i k (block t ! nat (i * block_w t + k))]\<rparr>)
      (\<lambda>a b. (S a b \<or> a = i \<and> fx \<le> b \<and> b < k) \<or> a = i \<and> b = k) f"
    by (rule cupd_step [OF P len i]) (use k x new in auto)
  then show "cupd c (t\<lparr>block := (block t)[nat (i * block_w t + k) := f i k (block t ! nat (i * block_w t + k))]\<rparr>)
      (\<lambda>a b. S a b \<or> a = i \<and> fx \<le> b \<and> b < k + 1) f"
    by (rule cupd_cong) (use k in auto)
qed (rule x(2))

lemma blocks_cupd:
  assumes len: "length (block c) = nat (block_w c * block_h c)"
    and y: "0 \<le> fy" "fy \<le> m" "m \<le> block_h c" and x: "0 \<le> fx" "fx \<le> n" "n \<le> block_w c"
  shows "cupd c (for_int (\<lambda>i. for_int (\<lambda>j c.
      c\<lparr>block := (block c)[nat (i * block_w c + j) := f i j (block c ! nat (i * block_w c + j))]\<rparr>) fx n) fy m c)
    (\<lambda>a b. fy \<le> a \<and> a < m \<and> fx \<le> b \<and> b < n) f"
proof (rule for_int_inv [where P = "\<lambda>k t. cupd c t (\<lambda>a b. fy \<le> a \<and> a < k \<and> fx \<le> b \<and> b < n) f"])
  show "cupd c c (\<lambda>a b. fy \<le> a \<and> a < fy \<and> fx \<le> b \<and> b < n) f"
    by (rule cupd_cong [OF cupd_refl]) auto
next
  fix k t
  assume k: "fy \<le> k" "k < m" and P: "cupd c t (\<lambda>a b. fy \<le> a \<and> a < k \<and> fx \<le> b \<and> b < n) f"
  have "cupd c (for_int (\<lambda>j c. c\<lparr>block := (block c)[nat (k * block_w c + j) := f k j (block c ! nat (k * block_w c + j))]\<rparr>) fx n t)
      (\<lambda>a b. (fy \<le> a \<and> a < k \<and> fx \<le> b \<and> b < n) \<or> a = k \<and> fx \<le> b \<and> b < n) f"
    by (rule block_row_cupd [OF P len]) (use k x y in auto)
  then show "cupd c (for_int (\<lambda>j c. c\<lparr>block := (block c)[nat (k * block_w c + j) := f k j (block c ! nat (k * block_w c + j))]\<rparr>) fx n t)
      (\<lambda>a b. fy \<le> a \<and> a < k + 1 \<and> fx \<le> b \<and> b < n) f"
    by (rule cupd_cong) (use k in auto)
qed (rule y(2))

text \<open>The visible part of an object meets a block.\<close>

definition meets :: "canvas \<Rightarrow> box \<Rightarrow> int \<Rightarrow> int \<Rightarrow> int \<Rightarrow> int \<Rightarrow> bool" where
  "meets c obj x y i j \<longleftrightarrow>
     (\<exists>px. j * 64 \<le> px \<and> px < j * 64 + 64 \<and> 0 \<le> px \<and> px < c_width c \<and> x \<le> px \<and> px < x + b_width obj) \<and>
     (\<exists>py. i * 32 \<le> py \<and> py < i * 32 + 32 \<and> 0 \<le> py \<and> py < c_height c \<and> y \<le> py \<and> py < y + b_height obj)"

lemma draw_blocks_cupd:
  assumes ok: "canvas_ok c" and l: "0 \<le> l" "l \<le> r" "r < c_width c" and t: "0 \<le> t" "t \<le> b" "b < c_height c"
  shows "cupd c (draw_blocks re func object d x y l r t b c)
    (\<lambda>i j. t div 32 \<le> i \<and> i \<le> b div 32 \<and> l div 64 \<le> j \<and> j \<le> r div 64)
    (\<lambda>i j. add_node re (node_for func object x y i j) d)"
proof -
  have len: "length (block c) = nat (block_w c * block_h c)" using ok by (simp add: canvas_ok_def)
  have "l div 64 \<le> r div 64" "t div 32 \<le> b div 32" using l t by (simp_all add: zdiv_mono1)
  moreover have "r div 64 + 1 \<le> block_w c" "b div 32 + 1 \<le> block_h c"
  proof -
    have "(r + 64) div 64 \<le> (c_width c + 63) div 64" "(b + 32) div 32 \<le> (c_height c + 31) div 32"
      using l t by (intro zdiv_mono1; simp)+
    then show "r div 64 + 1 \<le> block_w c" "b div 32 + 1 \<le> block_h c" using ok by (simp_all add: canvas_ok_def)
  qed
  moreover have "0 \<le> l div 64" "0 \<le> t div 32" using l t by (simp_all add: pos_imp_zdiv_nonneg_iff)
  ultimately have "cupd c (for_int (\<lambda>i. for_int (\<lambda>j c.
      c\<lparr>block := (block c)[nat (i * block_w c + j) := add_node re (node_for func object x y i j) d (block c ! nat (i * block_w c + j))]\<rparr>)
        (l div 64) (r div 64 + 1)) (t div 32) (b div 32 + 1) c)
    (\<lambda>i j. t div 32 \<le> i \<and> i < b div 32 + 1 \<and> l div 64 \<le> j \<and> j < r div 64 + 1)
    (\<lambda>i j. add_node re (node_for func object x y i j) d)"
    by (intro blocks_cupd [OF len]) simp_all
  then show ?thesis
    using l t by (simp add: draw_blocks_def canvas_consts Let_def node_for_def zle_add1_eq_le sdiv_c_nonneg)
qed

text \<open>An object whose edges, and its offsets from all blocks of the canvas, are \<^verbatim>\<open>int\<close> values.\<close>

definition object_fits :: "canvas \<Rightarrow> box \<Rightarrow> int \<Rightarrow> int \<Rightarrow> bool" where
  "object_fits c obj x y \<longleftrightarrow> c_width c - 2147483648 \<le> x \<and> x + b_width obj < 2147483648 \<and>
     c_height c - 2147483648 \<le> y \<and> y + b_height obj < 2147483648"

lemma canvas_draw_cupd:
  assumes fits: "object_fits c (objs g b) px py" and ok: "canvas_ok c" and size: "0 < b_width (objs g b)" "0 < b_height (objs g b)"
    and xy: "px = x - b_kx (objs g b)" "py = y - b_ky (objs g b)"
  shows "cupd c (fst (canvas_draw re func b x y (c, g))) (meets c (objs g b) px py)
      (\<lambda>i j. add_node re (node_for func b px py i j) (dirty (objs g b)))"
proof -
  let ?w = "b_width (objs g b)" and ?h = "b_height (objs g b)"
  let ?l = "max px 0" and ?r = "min (px + ?w - 1) (c_width c - 1)"
    and ?t = "max py 0" and ?b = "min (py + ?h - 1) (c_height c - 1)"
  have W: "0 < c_width c" "0 < c_height c" using ok by (simp_all add: canvas_ok_def)
  have m: "meets c (objs g b) px py i j \<longleftrightarrow>
      (?l \<le> ?r \<and> ?l div 64 \<le> j \<and> j \<le> ?r div 64) \<and> (?t \<le> ?b \<and> ?t div 32 \<le> i \<and> i \<le> ?b div 32)"
    if "0 \<le> i" "0 \<le> j" for i j
    using span_meets [of 64 ?w "c_width c" j px] span_meets [of 32 ?h "c_height c" i py] size W that
    by (simp add: meets_def)
  have e: "i32 (x - b_kx (objs g b)) = px" "i32 (y - b_ky (objs g b)) = py" "i32 (px + ?w) = px + ?w"
    "i32 (py + ?h) = py + ?h" "i32 (px + ?w - 1) = px + ?w - 1" "i32 (py + ?h - 1) = py + ?h - 1"
    "i32 (c_width c - 1) = c_width c - 1" "i32 (c_height c - 1) = c_height c - 1"
    using ok size fits by (auto simp: canvas_ok_def object_fits_def xy [symmetric] intro!: i32_id)
  have vis: "px < c_width c \<and> 0 \<le> px + ?w - 1 \<longleftrightarrow> ?l \<le> ?r" "py < c_height c \<and> 0 \<le> py + ?h - 1 \<longleftrightarrow> ?t \<le> ?b"
    using size W by auto
  show ?thesis
  proof (cases "?l \<le> ?r \<and> ?t \<le> ?b")
    case True
    then have "fst (canvas_draw re func b x y (c, g)) =
        draw_blocks re func b (dirty (objs g b)) px py ?l ?r ?t ?b c"
    proof -
      have "\<not> (0 \<le> px \<and> c_width c \<le> px)" "\<not> (0 \<le> py \<and> c_height c \<le> py)"
        "\<not> (px + ?w - 1 \<le> c_width c - 1 \<and> px + ?w - 1 < 0)" "\<not> (py + ?h - 1 \<le> c_height c - 1 \<and> py + ?h - 1 < 0)"
        using True vis by simp_all
      moreover have "(if px < 0 then 0 else px) = ?l" "(if py < 0 then 0 else py) = ?t"
        "(if px + ?w - 1 > c_width c - 1 then c_width c - 1 else px + ?w - 1) = ?r"
        "(if py + ?h - 1 > c_height c - 1 then c_height c - 1 else py + ?h - 1) = ?b"
        by (simp_all add: max_def min_def)
      ultimately show ?thesis
        using size unfolding canvas_draw_def Let_def prod.case e by (simp only: not_le [symmetric] if_False fst_conv simp_thms)
    qed
    moreover have "cupd c (draw_blocks re func b (dirty (objs g b)) px py ?l ?r ?t ?b c)
        (\<lambda>i j. ?t div 32 \<le> i \<and> i \<le> ?b div 32 \<and> ?l div 64 \<le> j \<and> j \<le> ?r div 64)
        (\<lambda>i j. add_node re (node_for func b px py i j) (dirty (objs g b)))"
      by (rule draw_blocks_cupd [OF ok]) (use True W in auto)
    ultimately show ?thesis using m True by (auto elim!: cupd_cong)
  next
    case False
    then have "fst (canvas_draw re func b x y (c, g)) = c"
    proof -
      have "0 \<le> px \<and> c_width c \<le> px \<or> 0 \<le> py \<and> c_height c \<le> py \<or>
          px + ?w - 1 \<le> c_width c - 1 \<and> px + ?w - 1 < 0 \<or> py + ?h - 1 \<le> c_height c - 1 \<and> py + ?h - 1 < 0"
        using False vis size W by linarith
      then show ?thesis
        using size unfolding canvas_draw_def Let_def prod.case e by (simp only: not_le [symmetric] if_False if_distrib [of fst] fst_conv) (elim disjE; simp)
    qed
    then show ?thesis using m False by (auto intro: cupd_cong [OF cupd_refl])
  qed
qed

lemma canvas_draw_snd:
  assumes "0 < b_width (objs g b)" and "0 < b_height (objs g b)"
  shows "snd (canvas_draw re func b x y (c, g)) = g\<lparr>objs := (objs g)(b := (objs g b)\<lparr>dirty := 0\<rparr>)\<rparr>"
  using assms unfolding canvas_draw_def Let_def prod.case if_distrib [of snd] snd_conv if_cancel
  by (simp only: not_le [symmetric] simp_thms if_False)

section \<open>Properties\<close>

text \<open>What a block holds after an object was queued in it, in terms of its state before.\<close>

definition pipe_ok :: "canvas_block \<Rightarrow> bool" where
  "pipe_ok blk \<longleftrightarrow> total_object blk \<le> capability_pipeline blk \<and> length (pipeline blk) = capability_pipeline blk"

definition queued :: "realloc \<Rightarrow> pipe_node \<Rightarrow> u32 \<Rightarrow> canvas_block \<Rightarrow> canvas_block \<Rightarrow> bool" where
  "queued re node d blk blk' \<longleftrightarrow>
     (let full = (total_object blk = capability_pipeline blk);
          cap = capability_pipeline blk + (if full then 32 else 0);
          old = (if full then re (pipeline blk) cap else pipeline blk)
      in total_object blk' = total_object blk + 1 \<and> total_last blk' = total_last blk OR d \<and>
         blk_ptr blk' = blk_ptr blk \<and> capability_pipeline blk' = cap \<and> length (pipeline blk') = cap \<and>
         total_object blk' \<le> cap \<and> pipeline blk' ! total_object blk = node \<and>
         (\<forall>n<cap. n \<noteq> total_object blk \<longrightarrow> pipeline blk' ! n = old ! n))"

lemma add_node_queued:
  assumes "pipe_ok blk" and "\<And>p n. length (re p n) = n"
  shows "queued re node d blk (add_node re node d blk)"
  using assms
  by (auto simp: queued_def pipe_ok_def add_node_def canvas_block_resize_def canvas_consts Let_def nth_list_update)

lemma meets_offset:
  assumes "object_fits c obj x y" and "meets c obj x y i j"
    and "0 \<le> i" and "0 \<le> j" and "b_width obj < 2147483648" and "b_height obj < 2147483648"
    and "c_width c < 2147483648" and "c_height c < 2147483648"
  shows "i32 (x - j * 64) = x - j * 64" and "i32 (y - i * 32) = y - i * 32"
proof -
  obtain px py where "j * 64 \<le> px" "px < j * 64 + 64" "px < c_width c" "x \<le> px" "px < x + b_width obj"
    "i * 32 \<le> py" "py < i * 32 + 32" "py < c_height c" "y \<le> py" "py < y + b_height obj"
    using assms(2) by (auto simp: meets_def)
  then show "i32 (x - j * 64) = x - j * 64" "i32 (y - i * 32) = y - i * 32"
    using assms unfolding object_fits_def by (intro i32_id; linarith)+
qed

text \<open>
  Where the sums wrap nothing is clipped: a box of the largest width at column 1 is drawn with all its pixels,
  most of them outside the block, and one that starts at column 10 of the canvas counts as invisible.
\<close>

lemma draw_box_wraps:
  assumes "b_width obj = 2147483647" and "0 \<le> b_height obj" and "b_height obj < 2147483648"
  shows "draw_box ptr pitch obj 1 0 m = fill_rows (ptr + 2) pitch 2147483647 (min (b_height obj) 32) (b_color obj) m"
proof -
  have "i32 2147483648 = - 2147483648" "i32 32 = 32" "i32 0 = 0" by (simp_all add: i32_def)
  moreover have "i32 (b_height obj) = b_height obj" using assms by (intro i32_id) simp_all
  ultimately show ?thesis using assms by (simp add: draw_box_def canvas_consts Let_def min_def)
qed

lemma canvas_draw_wraps:
  assumes "b_width (objs g b) = 2147483647" and "0 < b_height (objs g b)" and "b_kx (objs g b) = 0"
    and "c_width c = 100"
  shows "canvas_draw re func b 10 y (c, g) = (c, g\<lparr>objs := (objs g)(b := (objs g b)\<lparr>dirty := 0\<rparr>)\<rparr>)"
proof -
  have "i32 10 = 10" "i32 2147483657 = - 2147483639" "i32 (- 2147483640) = - 2147483640" "i32 99 = 99"
    by (simp_all add: i32_def)
  then show ?thesis using assms by (simp add: canvas_draw_def Let_def)
qed

text \<open>
  Property C22. Boxes are drawn exactly: on a block whose rows do not overlap, \<open>draw_box\<close> gives the colour of
  the box to exactly the pixels of the 64 by 32 block that lie inside the box, wherever the box lies, and
  changes no byte outside the pixels of the block. The far edges of the box are \<^verbatim>\<open>int\<close> values.
\<close>

theorem draw_box_correct:
  assumes "128 \<le> pitch" and "uint ptr + 32 * pitch \<le> 4294967296"
    and "0 \<le> b_width obj" and "b_width obj < 2147483648" and "0 \<le> b_height obj" and "b_height obj < 2147483648"
    and "- 2147483648 \<le> x" and "x + b_width obj < 2147483648"
    and "- 2147483648 \<le> y" and "y + b_height obj < 2147483648"
  shows "(\<forall>i j. 0 \<le> i \<and> i < 32 \<and> 0 \<le> j \<and> j < 64 \<longrightarrow>
      load16 (draw_box ptr pitch obj x y m) (ptr + word_of_int (pitch * i + 2 * j)) =
        (if y \<le> i \<and> i < y + b_height obj \<and> x \<le> j \<and> j < x + b_width obj then b_color obj
         else load16 m (ptr + word_of_int (pitch * i + 2 * j)))) \<and>
    (\<forall>a. \<not> in_block ptr pitch a \<longrightarrow> draw_box ptr pitch obj x y m a = m a)"
proof -
  have "box_fits obj x y" using assms by (simp add: box_fits_def)
  from draw_box_bpaints [of ptr pitch, OF _ this, of m] assms(1,2) show ?thesis
    by (auto simp: bpaints_def block_ok_def cell_def)
qed

theorem draw_box_correct_witness:
  "load16 (draw_box 0x1000 128 \<lparr>dirty = 0, b_width = 10, b_height = 10, b_kx = 0, b_ky = 0, b_color = 7\<rparr> (- 5) 30
     (\<lambda>_. 0)) (0x1000 + word_of_int (128 * 31 + 2 * 4)) = 7"
  using draw_box_correct [of 128 "0x1000" "\<lparr>dirty = 0, b_width = 10, b_height = 10, b_kx = 0, b_ky = 0, b_color = 7\<rparr>"
      "- 5" 30 "\<lambda>_. 0", THEN conjunct1, rule_format, of 31 4]
  by simp

text \<open>
  Property C21. \<open>canvas_draw\<close> queues an object in exactly the blocks that the part of it on the canvas meets: in each of
  them the node, with the position of the object relative to the block, takes the next free place of the pipeline,
  which is enlarged by 32 places when it is full, the count of objects grows by one, the dirty mask is added and
  the other places keep their nodes. All other blocks and the rest of the canvas keep their state; of the objects
  only this one changes, which is marked clean.
\<close>

theorem canvas_draw_correct:
  assumes "canvas_ok c" and "0 < b_width (objs g b)" and "0 < b_height (objs g b)"
    and "object_fits c (objs g b) (x - b_kx (objs g b)) (y - b_ky (objs g b))"
    and "b_width (objs g b) < 2147483648" and "b_height (objs g b) < 2147483648"
    and "\<forall>blk\<in>set (block c). pipe_ok blk" and "\<forall>p n. length (re p n) = n"
  shows "let obj = objs g b; px = x - b_kx obj; py = y - b_ky obj; (c', g') = canvas_draw re func b x y (c, g) in
    (\<forall>i j. 0 \<le> i \<and> i < block_h c \<and> 0 \<le> j \<and> j < block_w c \<longrightarrow>
       (let k = nat (i * block_w c + j)
        in if meets c obj px py i j
           then queued re \<lparr>nd_func = func, nd_object = b, nd_x = px - j * 64, nd_y = py - i * 32\<rparr> (dirty obj)
                  (block c ! k) (block c' ! k)
           else block c' ! k = block c ! k)) \<and>
    c' = c\<lparr>block := block c'\<rparr> \<and> length (block c') = length (block c) \<and>
    g' = g\<lparr>objs := (objs g)(b := obj\<lparr>dirty := 0\<rparr>)\<rparr>"
proof -
  let ?px = "x - b_kx (objs g b)" and ?py = "y - b_ky (objs g b)"
  obtain c' g' where r: "canvas_draw re func b x y (c, g) = (c', g')" by (cases "canvas_draw re func b x y (c, g)")
  have g': "g' = g\<lparr>objs := (objs g)(b := (objs g b)\<lparr>dirty := 0\<rparr>)\<rparr>"
    using canvas_draw_snd [OF assms(2,3), of re func x y c] by (simp add: r)
  have u: "cupd c c' (meets c (objs g b) ?px ?py) (\<lambda>i j. add_node re (node_for func b ?px ?py i j) (dirty (objs g b)))"
    using canvas_draw_cupd [OF assms(4,1,2,3) refl refl, of re func] by (simp add: r)
  have blocks: "if meets c (objs g b) ?px ?py i j
      then queued re \<lparr>nd_func = func, nd_object = b, nd_x = ?px - j * 64, nd_y = ?py - i * 32\<rparr> (dirty (objs g b))
        (block c ! nat (i * block_w c + j)) (block c' ! nat (i * block_w c + j))
      else block c' ! nat (i * block_w c + j) = block c ! nat (i * block_w c + j)"
    if ij: "0 \<le> i" "i < block_h c" "0 \<le> j" "j < block_w c" for i j
  proof (cases "meets c (objs g b) ?px ?py i j")
    case True
    have "node_for func b ?px ?py i j = \<lparr>nd_func = func, nd_object = b, nd_x = ?px - j * 64, nd_y = ?py - i * 32\<rparr>"
      using meets_offset [OF assms(4) True ij(1,3) assms(5,6)] assms(1)
      by (simp add: node_for_def canvas_consts canvas_ok_def)
    moreover have "block c ! nat (i * block_w c + j) \<in> set (block c)"
      using block_index [OF assms(1) ij] by simp
    then have "pipe_ok (block c ! nat (i * block_w c + j))" using assms(7) by blast
    ultimately show ?thesis
      using cupdD(3) [OF u ij] True add_node_queued [of _ re] assms(8) by simp
  next
    case False
    then show ?thesis using cupdD(3) [OF u ij] by simp
  qed
  have c': "c' = c\<lparr>block := block c'\<rparr>" using u unfolding cupd_def by (elim conjE)
  show ?thesis
    unfolding r Let_def prod.case
    using blocks c' cupdD(2) [OF u] g' by (intro conjI allI impI) blast+
qed

theorem canvas_draw_correct_witness:
  "\<forall>g. let nd = \<lparr>nd_func = Gdi_flip, nd_object = 0, nd_x = 0, nd_y = 0\<rparr>;
      blk = \<lparr>blk_ptr = 0, pipeline = replicate 32 nd, total_object = 1, total_last = 0, capability_pipeline = 32\<rparr>;
      blk' = block (fst (canvas_draw (\<lambda>p n. replicate n nd) Draw_box 0 3 4
        (\<lparr>c_width = 64, c_height = 32, c_pitch = 128, block_w = 1, block_h = 1, block = [blk]\<rparr>,
         g\<lparr>objs := \<lambda>_. \<lparr>dirty = DIRTY, b_width = 5, b_height = 5, b_kx = 0, b_ky = 0, b_color = 1\<rparr>\<rparr>))) ! 0
    in total_object blk' = 2 \<and> pipeline blk' ! 1 = \<lparr>nd_func = Draw_box, nd_object = 0, nd_x = 3, nd_y = 4\<rparr>"
proof
  fix g :: gui
  let ?nd = "\<lparr>nd_func = Gdi_flip, nd_object = 0, nd_x = 0, nd_y = 0\<rparr>"
  let ?blk = "\<lparr>blk_ptr = 0, pipeline = replicate 32 ?nd, total_object = 1, total_last = 0, capability_pipeline = 32\<rparr>"
  let ?c = "\<lparr>c_width = 64, c_height = 32, c_pitch = 128, block_w = 1, block_h = 1, block = [?blk]\<rparr>"
  let ?g = "g\<lparr>objs := \<lambda>_. \<lparr>dirty = DIRTY, b_width = 5, b_height = 5, b_kx = 0, b_ky = 0, b_color = 1\<rparr>\<rparr>"
  let ?r = "canvas_draw (\<lambda>p n. replicate n ?nd) Draw_box 0 3 4 (?c, ?g)"
  have "meets ?c (objs ?g 0) 3 4 0 0" unfolding meets_def by (intro conjI exI [of _ 4]) simp_all
  then have "queued (\<lambda>p n. replicate n ?nd) \<lparr>nd_func = Draw_box, nd_object = 0, nd_x = 3, nd_y = 4\<rparr> DIRTY ?blk
      (block (fst ?r) ! 0)"
    using canvas_draw_correct [of ?c ?g 0 3 4 "\<lambda>p n. replicate n ?nd" Draw_box, unfolded split_beta Let_def,
        THEN conjunct1, rule_format, of 0 0]
    by (simp add: canvas_ok_def object_fits_def pipe_ok_def)
  then have "total_object (block (fst ?r) ! 0) = 2"
    "pipeline (block (fst ?r) ! 0) ! 1 = \<lparr>nd_func = Draw_box, nd_object = 0, nd_x = 3, nd_y = 4\<rparr>"
    by (simp_all add: queued_def)
  then show "let nd = ?nd; blk = \<lparr>blk_ptr = 0, pipeline = replicate 32 nd, total_object = 1, total_last = 0,
        capability_pipeline = 32\<rparr>;
      blk' = block (fst (canvas_draw (\<lambda>p n. replicate n nd) Draw_box 0 3 4
        (\<lparr>c_width = 64, c_height = 32, c_pitch = 128, block_w = 1, block_h = 1, block = [blk]\<rparr>, ?g))) ! 0
    in total_object blk' = 2 \<and> pipeline blk' ! 1 = \<lparr>nd_func = Draw_box, nd_object = 0, nd_x = 3, nd_y = 4\<rparr>"
    unfolding Let_def by (rule conjI)
qed

end
