(* ===== verification/Ctype.thy ===== *)
theory Ctype
  imports CString Numerals "HOL-Library.List_Lexorder"
begin

text \<open>
  Character classes and conversions (\<^verbatim>\<open>lib/ctype.c\<close>) and the comparisons that ignore case
  (\<^verbatim>\<open>lib/strings.c\<close>). The arguments are C \<^verbatim>\<open>int\<close>s, so a byte of a string arrives with its sign.
\<close>

section \<open>Character classes\<close>

definition isdigit :: "int \<Rightarrow> int" where
  "isdigit c = (if c \<le> 57 \<and> 48 \<le> c then 1 else 0)"

definition islower :: "int \<Rightarrow> int" where
  "islower c = (if 97 \<le> c \<and> c \<le> 122 then 1 else 0)"

definition isupper :: "int \<Rightarrow> int" where
  "isupper c = (if 65 \<le> c \<and> c \<le> 90 then 1 else 0)"

definition isalpha :: "int \<Rightarrow> int" where
  "isalpha c = (if isupper c \<noteq> 0 then 1 else if islower c \<noteq> 0 then 1 else 0)"

definition isalnum :: "int \<Rightarrow> int" where
  "isalnum c = (if isdigit c \<noteq> 0 then 1 else if isalpha c \<noteq> 0 then 1 else 0)"

definition isascii :: "int \<Rightarrow> int" where
  "isascii c = (if c - (c AND 0x7F) \<noteq> 0 then 0 else 1)"

definition iscntrl :: "int \<Rightarrow> int" where
  "iscntrl c = (if 0 \<le> c \<and> c \<le> 0x1F then 1 else if c = 0x7F then 1 else 0)"

definition isspace :: "int \<Rightarrow> int" where
  "isspace c = (if c = 32 \<or> c = 12 \<or> c = 10 \<or> c = 13 \<or> c = 9 \<or> c = 11 then 1 else 0)"

definition isgraph :: "int \<Rightarrow> int" where
  "isgraph c = (if isspace c = 0 then 1 else 0)"

definition isprint :: "int \<Rightarrow> int" where
  "isprint c = (if c \<le> 0x7E \<and> 0x20 \<le> c then 1 else 0)"

definition ispunct :: "int \<Rightarrow> int" where
  "ispunct c = (if isalnum c \<noteq> 0 then 0 else if isspace c \<noteq> 0 then 0 else 1)"

definition tolower :: "int \<Rightarrow> int" where
  "tolower c = (if 65 \<le> c \<and> c \<le> 90 then c - 65 + 97 else c)"

definition toupper :: "int \<Rightarrow> int" where
  "toupper c = (if 97 \<le> c \<and> c \<le> 122 then c - 97 + 65 else c)"

definition isxdigit :: "int \<Rightarrow> int" where
  "isxdigit c = (if toupper c \<le> 70 \<and> 65 \<le> toupper c then 1
     else if toupper c \<le> 57 \<and> 48 \<le> toupper c then 1 else 0)"

definition toascii :: "int \<Rightarrow> int" where
  "toascii c = c AND 0x7F"

section \<open>Comparisons without case\<close>

partial_function (option) strcasecmp :: "mem \<Rightarrow> u32 \<Rightarrow> u32 \<Rightarrow> int option" where
  "strcasecmp m s1 s2 =
     (let a = tolower (int_of_char (m s1)); b = tolower (int_of_char (m s2))
      in if a = b then if a = 0 then Some 0 else strcasecmp m (s1 + 1) (s2 + 1)
         else if a < b then Some (- 1) else Some 1)"

fun strncasecmp :: "mem \<Rightarrow> u32 \<Rightarrow> u32 \<Rightarrow> nat \<Rightarrow> int" where
  "strncasecmp m s1 s2 0 = 0"
| "strncasecmp m s1 s2 (Suc n) =
     (let a = tolower (int_of_char (m s1)); b = tolower (int_of_char (m s2))
      in if a = b then if a = 0 then 0 else strncasecmp m (s1 + 1) (s2 + 1) n
         else if a < b then - 1 else 1)"

section \<open>Digits of strings\<close>

lemma sint_of_int_u8: "- 128 \<le> k \<Longrightarrow> k < 128 \<Longrightarrow> sint (word_of_int k :: u8) = k"
  by (simp add: sint_sbintrunc') (rule signed_take_bit_int_eq_self; simp)

lemma int_of_char_uint: "int_of_char c = (if uint c < 128 then uint c else uint c - 256)"
proof -
  have r: "0 \<le> uint c" "uint c < 256" using uint_lt2p [of c] by simp_all
  have w: "(word_of_int (uint c - 256) :: u8) = c"
    by simp
  have "- 128 \<le> uint c" using r(1) by linarith
  then show ?thesis
    using r(2) sint_of_int_u8 [of "uint c"] sint_of_int_u8 [of "uint c - 256", unfolded w]
    by (simp add: int_of_char_def)
qed

lemma int_of_char_ascii: "unat c < 128 \<Longrightarrow> int_of_char c = int (unat c)"
  by (simp add: int_of_char_uint uint_nat del: of_nat_unat)

lemma isdigit_byte: "isdigit (int_of_char c) \<noteq> 0 \<longleftrightarrow> 48 \<le> unat c \<and> unat c \<le> 57"
  using unsigned_less [where ?'a = nat, of c] by (auto simp: isdigit_def int_of_char_uint uint_nat simp del: of_nat_unat split: if_splits)

section \<open>Case-insensitive comparison\<close>

text \<open>What the comparisons look at: the lower-case values of a string and its end.\<close>

definition folded :: "u8 list \<Rightarrow> int list" where
  "folded xs = map (\<lambda>c. tolower (int_of_char c)) xs @ [0]"

text \<open>The outcome for two texts: the sign of their lexicographic order.\<close>

definition text_order :: "int list \<Rightarrow> int list \<Rightarrow> int" where
  "text_order us vs = (if us = vs then 0 else if us < vs then - 1 else 1)"

lemma text_order_Cons [simp]:
  "text_order (u # us) (v # vs) = (if u = v then text_order us vs else if u < v then - 1 else 1)"
  by (simp add: text_order_def)

lemma text_order_Nil [simp]: "text_order [] [] = 0"
  by (simp add: text_order_def)

lemma tolower_0_iff [simp]: "tolower k = 0 \<longleftrightarrow> k = 0"
  by (simp add: tolower_def)

lemma tolower_0 [simp]: "tolower 0 = 0"
  by simp

lemma folded_Cons [simp]: "folded (c # xs) = tolower (int_of_char c) # folded xs"
  by (simp add: folded_def)

lemma folded_Nil [simp]: "folded [] = [0]"
  by (simp add: folded_def)

lemma strcasecmp_cstr:
  "cstr m s xs \<Longrightarrow> cstr m t ys \<Longrightarrow> strcasecmp m s t = Some (text_order (folded xs) (folded ys))"
proof (induction xs arbitrary: s t ys)
  case Nil
  then show ?case by (cases ys) (auto simp: strcasecmp.simps [of m s t] tolower_def)
next
  case (Cons x xs)
  then show ?case by (cases ys) (auto simp: strcasecmp.simps [of m s t] Let_def)
qed

lemma strncasecmp_cstr:
  "cstr m s xs \<Longrightarrow> cstr m t ys \<Longrightarrow>
    strncasecmp m s t n = text_order (take n (folded xs)) (take n (folded ys))"
proof (induction n arbitrary: s t xs ys)
  case (Suc n)
  show ?case
  proof (cases xs)
    case Nil
    with Suc.prems show ?thesis by (cases ys) (auto simp: tolower_def)
  next
    case (Cons x xs')
    with Suc show ?thesis by (cases ys) (auto simp: Let_def)
  qed
qed simp

section \<open>Properties\<close>

text \<open>
  \<open>strcasecmp\<close> and \<open>strncasecmp\<close> always return on strings, and answer the sign of the
  lexicographic order of the lower-case texts (of their first \<open>n\<close> characters for the latter);
  the end of a string counts as the value 0, above the characters with the top bit set.
\<close>

theorem strcasecmp_correct:
  assumes "cstr m s xs" and "cstr m t ys"
  shows "strcasecmp m s t = Some (text_order (folded xs) (folded ys)) \<and>
    strncasecmp m s t n = text_order (take n (folded xs)) (take n (folded ys)) \<and>
    (strcasecmp m s t = Some 0 \<longleftrightarrow> folded xs = folded ys)"
  using strcasecmp_cstr [OF assms] strncasecmp_cstr [OF assms] by (simp add: text_order_def)

theorem strcasecmp_correct_witness:
  "strcasecmp (\<lambda>a. if a = 0 then 65 else if a = 8 then 97 else 0) 0 8 = Some 0"
proof -
  let ?m = "\<lambda>a::u32. if a = 0 then 65 else if a = 8 then 97 else (0::u8)"
  have c: "cstr ?m 0 [65]" "cstr ?m 8 [97]" by simp_all
  have "folded [65] = folded [97]" by (simp add: tolower_def int_of_char_def)
  with strcasecmp_correct [OF c] show ?thesis by simp
qed

end
