(* ===== verification/Stdlib.thy ===== *)
theory Stdlib
  imports Ctype Kmalloc "HOL-Library.Multiset"
begin

text \<open>
  The integer, search and sorting routines of \<^verbatim>\<open>lib/stdlib.c\<close> and the exit handlers.
  Comparison functions are parameters: of the two addresses for \<^verbatim>\<open>bsearch\<close>, and also of the
  memory for \<^verbatim>\<open>qsort\<close>, which moves the compared objects. \<^verbatim>\<open>long\<close> is as wide as \<^verbatim>\<open>int\<close>.
\<close>

section \<open>Integers\<close>

definition abs_c :: "u32 \<Rightarrow> u32" where
  "abs_c n = (if sint n < 0 then - n else n)"

definition labs_c :: "u32 \<Rightarrow> u32" where
  "labs_c n = (if sint n < 0 then - n else n)"

record div_t =
  div_quot :: u32
  div_rem :: u32

partial_function (option) div_loop :: "u32 \<Rightarrow> u32 \<Rightarrow> u32 \<Rightarrow> (u32 \<times> u32) option" where
  "div_loop a_denom q tmp =
     (if sint tmp \<ge> sint a_denom then div_loop a_denom (q + 1) (tmp - a_denom) else Some (q, tmp))"

definition div_c :: "u32 \<Rightarrow> u32 \<Rightarrow> div_t option" where
  "div_c num denom =
     (let a_num = abs_c num;
          a_denom = abs_c denom;
          sign = (if sint num > 0 \<and> sint denom > 0 then 1
                  else if sint num < 0 \<and> sint denom < 0 then 1 else - 1 :: int)
      in map_option (\<lambda>(q, tmp).
           if sign = - 1 then \<lparr>div_quot = - q, div_rem = - tmp\<rparr> else \<lparr>div_quot = q, div_rem = tmp\<rparr>)
         (div_loop a_denom 0 a_num))"

definition ldiv_c :: "u32 \<Rightarrow> u32 \<Rightarrow> div_t option" where
  "ldiv_c num denom =
     (let a_num = labs_c num;
          a_denom = labs_c denom;
          sign = (if sint num > 0 \<and> sint denom > 0 then 1
                  else if sint num < 0 \<and> sint denom < 0 then 1 else - 1 :: int)
      in map_option (\<lambda>(q, tmp).
           if sign = - 1 then \<lparr>div_quot = - q, div_rem = - tmp\<rparr> else \<lparr>div_quot = q, div_rem = tmp\<rparr>)
         (div_loop a_denom 0 a_num))"

partial_function (option) atoi_loop :: "mem \<Rightarrow> u32 \<Rightarrow> nat \<Rightarrow> u32 \<Rightarrow> u32 option" where
  "atoi_loop m s i result =
     (if isdigit (int_of_char (m (s + of_nat i))) \<noteq> 0
      then atoi_loop m s (Suc i) (result * 10 + (scast (m (s + of_nat i)) - 48))
      else Some result)"

definition atoi :: "mem \<Rightarrow> u32 \<Rightarrow> u32 option" where
  "atoi m s =
     (let i = (if m s = 45 then 1 else 0)
      in map_option (\<lambda>result. if m s = 45 then - result else result) (atoi_loop m s i 0))"

section \<open>Exit handlers\<close>

definition ATEXIT_MAX :: nat where "ATEXIT_MAX = 32"

record 'f exit_state =
  exitfuncs :: "nat \<Rightarrow> 'f"
  exitcount :: nat

definition atexit :: "'f \<Rightarrow> 'f exit_state \<Rightarrow> int \<times> 'f exit_state" where
  "atexit fcm e =
     (if exitcount e = ATEXIT_MAX then (- 1, e)
      else (0, e\<lparr>exitfuncs := (exitfuncs e)(exitcount e := fcm), exitcount := exitcount e + 1\<rparr>))"

text \<open>
  The handlers run from the last to the first; \<open>call\<close> is the effect of one handler on the
  program state and on the table itself. The routine then returns to its caller.
\<close>

primrec exit_loop :: "('f \<Rightarrow> 'f exit_state \<times> 'p \<Rightarrow> 'f exit_state \<times> 'p) \<Rightarrow> nat \<Rightarrow>
    'f exit_state \<times> 'p \<Rightarrow> 'f exit_state \<times> 'p" where
  "exit_loop call 0 w = w"
| "exit_loop call (Suc i) w = exit_loop call i (call (exitfuncs (fst w) i) w)"

definition exit_c :: "('f \<Rightarrow> 'f exit_state \<times> 'p \<Rightarrow> 'f exit_state \<times> 'p) \<Rightarrow>
    'f exit_state \<times> 'p \<Rightarrow> 'f exit_state \<times> 'p" where
  "exit_c call w = exit_loop call (exitcount (fst w)) w"

section \<open>Searching\<close>

text \<open>
  The indices are \<^verbatim>\<open>int\<close>: the sum \<^verbatim>\<open>bottom + top\<close> is taken at that width. When it wraps, the middle
  is outside the array and the search need not end; None is a search that does not return.
\<close>

partial_function (option) bsearch_loop ::
  "(u32 \<Rightarrow> u32 \<Rightarrow> int) \<Rightarrow> u32 \<Rightarrow> u32 \<Rightarrow> u32 \<Rightarrow> int \<Rightarrow> int \<Rightarrow> u32 option" where
  "bsearch_loop cmp key pos sz top' bottom =
     (if top' < bottom
      then let middle = sdiv_c (i32 (bottom + top')) 2
           in if middle = top' \<or> middle = bottom
              then if cmp key (pos + of_int top' * sz) = 0 then Some (pos + of_int top' * sz)
                   else if cmp key (pos + of_int bottom * sz) = 0 then Some (pos + of_int bottom * sz)
                   else Some 0
              else let a = pos + of_int middle * sz; val = cmp key a
                   in if val = 0 then Some a
                      else if val < 0 then bsearch_loop cmp key pos sz top' middle
                      else bsearch_loop cmp key pos sz middle bottom
      else Some 0)"

definition bsearch :: "u32 \<Rightarrow> u32 \<Rightarrow> u32 \<Rightarrow> u32 \<Rightarrow> (u32 \<Rightarrow> u32 \<Rightarrow> int) \<Rightarrow> u32 option" where
  "bsearch key base n sz cmp = bsearch_loop cmp key base sz 0 (sint (n - 1))"

section \<open>Sorting\<close>

lemma loop_measure:
  fixes i k :: u32
  assumes "i < k"
  shows "unat (i + 1) = Suc (unat i)" and "unat (k - (i + 1)) < unat (k - i)"
proof -
  have "unat i < unat k" "unat k < 4294967296"
    using assms unat_lt_u32 [of k] by (simp_all add: word_less_nat_alt)
  then show s: "unat (i + 1) = Suc (unat i)" by (subst unat_add_nowrap) simp_all
  then have "unat (k - (i + 1)) = unat k - Suc (unat i)" "unat (k - i) = unat k - unat i"
    using \<open>unat i < unat k\<close> by (simp_all add: unat_sub_nowrap)
  then show "unat (k - (i + 1)) < unat (k - i)" using \<open>unat i < unat k\<close> by simp
qed

type_synonym cmp_fun = "mem \<Rightarrow> u32 \<Rightarrow> u32 \<Rightarrow> int"

function qsort_min :: "cmp_fun \<Rightarrow> mem \<Rightarrow> u32 \<Rightarrow> u32 \<Rightarrow> u32 \<Rightarrow> u32 \<Rightarrow> u32 \<Rightarrow> u32" where
  "qsort_min cmp m pos sz n swap j =
     (if j < n
      then let b = pos + j * sz
           in qsort_min cmp m pos sz n (if cmp m b swap < 0 then b else swap) (j + 1)
      else swap)"
  by pat_completeness auto
termination
  by (relation "measure (\<lambda>(cmp, m, pos, sz, n, swap, j). unat (n - j))") (auto simp: loop_measure)

declare qsort_min.simps [simp del]

function qsort_loop :: "cmp_fun \<Rightarrow> u32 \<Rightarrow> u32 \<Rightarrow> u32 \<Rightarrow> u32 \<Rightarrow> u32 \<Rightarrow> mem \<Rightarrow> mem" where
  "qsort_loop cmp pos sz tmp n i m =
     (if i < n - 1
      then let a = pos + i * sz;
               swap = qsort_min cmp m pos sz n a (i + 1)
           in qsort_loop cmp pos sz tmp n (i + 1)
                (if swap \<noteq> a
                 then let m1 = memcpy tmp a (unat sz) m;
                          m2 = memcpy a swap (unat sz) m1
                      in memcpy swap tmp (unat sz) m2
                 else m)
      else m)"
  by pat_completeness auto
termination
  by (relation "measure (\<lambda>(cmp, pos, sz, tmp, n, i, m). unat (n - 1 - i))")
    (simp, simp only: in_measure prod.case loop_measure(2))

declare qsort_loop.simps [simp del]

definition qsort :: "u32 \<Rightarrow> u32 \<Rightarrow> u32 \<Rightarrow> cmp_fun \<Rightarrow> mm_state \<Rightarrow> (mm_error + mm_state) option" where
  "qsort base n sz cmp s = Option.bind (libc_malloc sz s) (\<lambda>(r, s1).
     case r of
       Inl e \<Rightarrow> Some (Inl e)
     | Inr tmp \<Rightarrow> libc_free tmp (s1\<lparr>ram := qsort_loop cmp base sz tmp n 0 (ram s1)\<rparr>))"


section \<open>Division\<close>

lemma sint_range_u32: "- 2147483648 \<le> sint (x :: u32)" "sint (x :: u32) < 2147483648"
  using sint_range_size [of x] by (simp_all add: word_size)

lemma sint_neg:
  assumes "sint (x :: u32) \<noteq> - 2147483648"
  shows "sint (- x) = - sint x"
proof -
  have "\<bar>- sint x\<bar> < 2147483648" using sint_range_u32 [of x] assms by linarith
  then have "sint (word_of_int (- sint x) :: u32) = - sint x" by (rule sint_of_int_small)
  then show ?thesis by simp
qed

lemma sint_abs_c: "sint x \<noteq> - 2147483648 \<Longrightarrow> sint (abs_c x) = \<bar>sint x\<bar>"
  by (simp add: abs_c_def sint_neg)

lemma div_loop_pos:
  assumes "0 < sint d" and "0 \<le> sint t"
  shows "div_loop d q t = Some (q + of_int (sint t div sint d), of_int (sint t mod sint d))"
  using assms(2)
proof (induction "nat (sint t)" arbitrary: t q rule: less_induct)
  case less
  show ?case
  proof (cases "sint d \<le> sint t")
    case True
    then have s: "sint (t - d) = sint t - sint d"
      using assms(1) sint_range_u32 [of t] by (intro sint_diff_small) linarith
    then have "div_loop d (q + 1) (t - d) =
        Some (q + 1 + of_int ((sint t - sint d) div sint d), of_int ((sint t - sint d) mod sint d))"
      using less.hyps [of "t - d" "q + 1"] True assms(1) less.prems by simp
    moreover have "(sint t - sint d) div sint d = sint t div sint d - 1"
      "(sint t - sint d) mod sint d = sint t mod sint d"
      using assms(1) div_add_self2 [of "sint d" "sint t - sint d"] by simp_all
    ultimately show ?thesis using True by (simp add: div_loop.simps [of d q t])
  next
    case False
    with less.prems show ?thesis by (simp add: div_loop.simps [of d q t])
  qed
qed

lemma div_loop_stops:
  assumes "div_loop d q t = Some r"
  shows "d = 0 \<longrightarrow> sint t < 0"
proof (rule div_loop.raw_induct [OF _ assms, where P = "\<lambda>d q t r. d = 0 \<longrightarrow> sint t < 0"])
  fix f d q t and r :: "u32 \<times> u32"
  assume ih: "\<And>d q t r. f d q t = Some r \<Longrightarrow> d = 0 \<longrightarrow> sint t < 0"
    and run: "(if sint d \<le> sint t then f d (q + 1) (t - d) else Some (q, t)) = Some r"
  show "d = 0 \<longrightarrow> sint t < 0"
    using run ih [of d "q + 1" "t - d" r] by (cases "sint d \<le> sint t") auto
qed

lemma div_loop_zero: "0 \<le> sint t \<Longrightarrow> div_loop 0 q t = None"
  using div_loop_stops [of 0 q t] by (cases "div_loop 0 q t") auto

lemma sint_smod_small:
  "0 < b \<Longrightarrow> b \<le> 2147483648 \<Longrightarrow> sint (word_of_int (a mod b) :: u32) = a mod b"
  using pos_mod_sign [of b a] pos_mod_bound [of b a] by (intro sint_of_int_small) linarith

lemma ldiv_div: "ldiv_c num denom = div_c num denom"
  by (simp add: ldiv_c_def div_c_def labs_c_def abs_c_def)


section \<open>Selection sort\<close>

text \<open>The sort over a list: the smallest element from position \<open>i\<close> on is exchanged with the \<open>i\<close>th.\<close>

function min_index :: "('a \<Rightarrow> 'a \<Rightarrow> int) \<Rightarrow> 'a list \<Rightarrow> nat \<Rightarrow> nat \<Rightarrow> nat" where
  "min_index f xs k j =
     (if j < length xs then min_index f xs (if f (xs ! j) (xs ! k) < 0 then j else k) (Suc j) else k)"
  by pat_completeness auto
termination
  by (relation "measure (\<lambda>(f, xs, k, j). length xs - j)") auto

declare min_index.simps [simp del]

definition exchange :: "nat \<Rightarrow> nat \<Rightarrow> 'a list \<Rightarrow> 'a list" where
  "exchange i k xs = xs[i := xs ! k, k := xs ! i]"

lemma length_exchange [simp]: "length (exchange i k xs) = length xs"
  by (simp add: exchange_def)

lemma exchange_same [simp]: "exchange i i xs = xs"
  by (simp add: exchange_def)

lemma mset_exchange: "i < length xs \<Longrightarrow> k < length xs \<Longrightarrow> mset (exchange i k xs) = mset xs"
  by (simp add: exchange_def mset_swap)

function sel_sort :: "('a \<Rightarrow> 'a \<Rightarrow> int) \<Rightarrow> nat \<Rightarrow> 'a list \<Rightarrow> 'a list" where
  "sel_sort f i xs =
     (if i < length xs - 1 then sel_sort f (Suc i) (exchange i (min_index f xs i (Suc i)) xs) else xs)"
  by pat_completeness auto
termination
  by (relation "measure (\<lambda>(f, i, xs). length xs - i)") auto

declare sel_sort.simps [simp del]

text \<open>A comparison function is an order when its negative results are one.\<close>

definition cmp_order :: "('a \<Rightarrow> 'a \<Rightarrow> int) \<Rightarrow> bool" where
  "cmp_order f \<longleftrightarrow> (\<forall>x y. f x y < 0 \<longrightarrow> \<not> f y x < 0) \<and>
     (\<forall>x y z. \<not> f y x < 0 \<longrightarrow> \<not> f z y < 0 \<longrightarrow> \<not> f z x < 0)"

lemma cmp_order_trans: "cmp_order f \<Longrightarrow> \<not> f y x < 0 \<Longrightarrow> \<not> f z y < 0 \<Longrightarrow> \<not> f z x < 0"
  unfolding cmp_order_def by blast

lemma cmp_order_asym: "cmp_order f \<Longrightarrow> f x y < 0 \<Longrightarrow> \<not> f y x < 0"
  unfolding cmp_order_def by blast

lemma cmp_order_refl: "cmp_order f \<Longrightarrow> \<not> f x x < 0"
  unfolding cmp_order_def by blast

lemma min_index_range: "k < length xs \<Longrightarrow> k < j \<Longrightarrow>
  k \<le> min_index f xs k j \<and> min_index f xs k j < length xs"
proof (induction f xs k j rule: min_index.induct)
  case (1 f xs k j)
  then show ?case by (auto simp: min_index.simps [of f xs k j])
qed

lemma min_index_least:
  assumes "cmp_order f" and "k < length xs" and "k < j"
  shows "\<forall>q. q = k \<or> j \<le> q \<and> q < length xs \<longrightarrow> \<not> f (xs ! q) (xs ! min_index f xs k j) < 0"
  using assms
proof (induction f xs k j rule: min_index.induct)
  case (1 f xs k j)
  show ?case
  proof (cases "j < length xs")
    case True
    let ?k = "if f (xs ! j) (xs ! k) < 0 then j else k"
    have ih: "\<not> f (xs ! q) (xs ! min_index f xs ?k (Suc j)) < 0"
      if "q = ?k \<or> Suc j \<le> q \<and> q < length xs" for q
      using "1.IH" [OF True "1.prems"(1)] True "1.prems"(2,3) that by (auto split: if_splits)
    have le: "\<not> f (xs ! k) (xs ! ?k) < 0" "\<not> f (xs ! j) (xs ! ?k) < 0"
      using cmp_order_asym [OF "1.prems"(1)] cmp_order_refl [OF "1.prems"(1)] by auto
    have "\<not> f (xs ! q) (xs ! min_index f xs ?k (Suc j)) < 0" if "q = k \<or> j \<le> q \<and> q < length xs" for q
    proof (cases "q = k \<or> q = j")
      case True
      then show ?thesis using cmp_order_trans [OF "1.prems"(1) ih [of ?k]] le by auto
    next
      case False
      then show ?thesis using that by (intro ih) auto
    qed
    with True show ?thesis by (simp add: min_index.simps [of f xs k j])
  next
    case False
    with "1.prems" show ?thesis by (auto simp: min_index.simps [of f xs k j] cmp_order_refl)
  qed
qed

lemma length_sel_sort [simp]: "length (sel_sort f i xs) = length xs"
proof (induction f i xs rule: sel_sort.induct)
  case (1 f i xs)
  then show ?case by (simp add: sel_sort.simps [of f i xs])
qed

lemma mset_sel_sort: "mset (sel_sort f i xs) = mset xs"
proof (induction f i xs rule: sel_sort.induct)
  case (1 f i xs)
  then show ?case
    using min_index_range [of i xs "Suc i" f]
    by (simp add: sel_sort.simps [of f i xs] mset_exchange)
qed

text \<open>The positions before \<open>i\<close> are final: nothing behind one of them is smaller.\<close>

lemma exchange_sorts:
  assumes "cmp_order f" and "\<And>p q. p < q \<Longrightarrow> q < length xs \<Longrightarrow> p < i \<Longrightarrow> \<not> f (xs ! q) (xs ! p) < 0"
    and "i < length xs" and k: "k = min_index f xs i (Suc i)"
    and pq: "p < q" "q < length xs" "p \<le> i"
  shows "\<not> f (exchange i k xs ! q) (exchange i k xs ! p) < 0"
proof -
  have ki: "i \<le> k" "k < length xs"
    using min_index_range [of i xs "Suc i" f] assms(3) by (simp_all add: k)
  have least: "\<not> f (xs ! q) (xs ! k) < 0" if "i \<le> q" "q < length xs" for q
  proof -
    have "q = i \<or> Suc i \<le> q \<and> q < length xs" using that by auto
    then show ?thesis using min_index_least [OF assms(1,3) lessI] unfolding k by blast
  qed
  define q' where "q' = (if q = k then i else if q = i then k else q)"
  have q': "exchange i k xs ! q = xs ! q'" "q' < length xs" "p < i \<longrightarrow> p < q'" "p = i \<longrightarrow> i \<le> q'"
    using pq ki assms(3) by (auto simp: exchange_def nth_list_update q'_def)
  show ?thesis
  proof (cases "p = i")
    case True
    then have "exchange i k xs ! p = xs ! k"
      using ki assms(3) by (auto simp: exchange_def nth_list_update)
    with q' least True show ?thesis by simp
  next
    case False
    then have "exchange i k xs ! p = xs ! p"
      using pq ki by (auto simp: exchange_def nth_list_update)
    with q' False pq assms(2) show ?thesis by simp
  qed
qed

lemma sel_sort_sorted:
  assumes "cmp_order f" and "\<And>p q. p < q \<Longrightarrow> q < length xs \<Longrightarrow> p < i \<Longrightarrow> \<not> f (xs ! q) (xs ! p) < 0"
  shows "sorted_wrt (\<lambda>x y. \<not> f y x < 0) (sel_sort f i xs)"
  using assms
proof (induction f i xs rule: sel_sort.induct)
  case (1 f i xs)
  show ?case
  proof (cases "i < length xs - 1")
    case True
    let ?ys = "exchange i (min_index f xs i (Suc i)) xs"
    have "sorted_wrt (\<lambda>x y. \<not> f y x < 0) (sel_sort f (Suc i) ?ys)"
      using True by (intro "1.IH" "1.prems"(1) exchange_sorts [OF "1.prems"(1)] "1.prems"(2)) auto
    with True show ?thesis by (simp add: sel_sort.simps [of f i xs])
  next
    case False
    with "1.prems"(2) show ?thesis
      by (auto simp: sel_sort.simps [of f i xs] sorted_wrt_iff_nth_less)
  qed
qed

section \<open>Sorting objects in memory\<close>

text \<open>The object of \<open>n\<close> bytes at an address, and the objects of an array.\<close>

definition obj :: "mem \<Rightarrow> u32 \<Rightarrow> nat \<Rightarrow> u8 list" where
  "obj m a n = map (\<lambda>k. m (a + of_nat k)) [0..<n]"

definition objs :: "mem \<Rightarrow> u32 \<Rightarrow> nat \<Rightarrow> nat \<Rightarrow> u8 list list" where
  "objs m pos z n = map (\<lambda>i. obj m (pos + of_nat (i * z)) z) [0..<n]"

lemma length_objs [simp]: "length (objs m pos z n) = n"
  by (simp add: objs_def)

lemma nth_objs [simp]: "i < n \<Longrightarrow> objs m pos z n ! i = obj m (pos + of_nat (i * z)) z"
  by (simp add: objs_def)

lemma obj_cong: "(\<And>x. x \<in> region a n \<Longrightarrow> m x = m' x) \<Longrightarrow> obj m a n = obj m' a n"
  by (auto simp: obj_def in_region)

lemma obj_copied_same: "obj (copied d s n m) d n = obj m s n"
  by (simp add: obj_def copied_at)

lemma obj_copied_other: "region a k \<inter> region d n = {} \<Longrightarrow> obj (copied d s n m) a k = obj m a k"
  by (rule obj_cong, rule copied_outside) blast

lemma slot_in_array: "i < n \<Longrightarrow> region (pos + of_nat (i * z)) z \<subseteq> region pos (n * z)"
proof -
  assume "i < n"
  then have "Suc i * z \<le> n * z" by (intro mult_le_mono1) simp
  then have "i * z + z \<le> n * z" by simp
  then show ?thesis using region_shift [of pos "i * z" z] region_mono by blast
qed

lemma slots_disjoint:
  assumes "i < n" and "j < n" and "i \<noteq> j" and "n * z \<le> 2 ^ 32"
  shows "region (pos + of_nat (i * z)) z \<inter> region (pos + of_nat (j * z)) z = {}"
proof -
  have b: "h * z + u < 2 ^ 32" if "h < n" "u < z" for h u
  proof -
    have "h * z + u < Suc h * z" using that by simp
    also have "\<dots> \<le> n * z" using that by (intro mult_le_mono1) simp
    finally show ?thesis using assms(4) by simp
  qed
  have "pos + of_nat (i * z) + of_nat u \<noteq> pos + of_nat (j * z) + of_nat v" if "u < z" "v < z" for u v
  proof
    assume "pos + of_nat (i * z) + of_nat u = pos + of_nat (j * z) + of_nat v"
    then have "pos + of_nat (i * z + u) = pos + of_nat (j * z + v)"
      by (simp add: add.assoc)
    then have "i * z + u = j * z + v"
      using offset_eq_iff b assms(1,2) that by blast
    then have "(i * z + u) div z = (j * z + v) div z" by simp
    with that assms(3) show False by simp
  qed
  then show ?thesis by (auto simp: region_def)
qed

text \<open>The three copies exchange two objects and use nothing else but the spare block.\<close>

lemma swap_objs:
  fixes pos tmp :: u32 and z :: nat
  defines "at \<equiv> \<lambda>i. pos + of_nat (i * z)"
  assumes "i < n" and "k < n" and "i \<noteq> k" and "n * z \<le> 2 ^ 32" and "z \<le> 2 ^ 32"
    and dj: "region tmp z \<inter> region pos (n * z) = {}"
  shows "objs (memcpy (at k) tmp z (memcpy (at i) (at k) z (memcpy tmp (at i) z m))) pos z n =
      exchange i k (objs m pos z n) \<and>
    (\<forall>x. x \<notin> region pos (n * z) \<union> region tmp z \<longrightarrow>
      memcpy (at k) tmp z (memcpy (at i) (at k) z (memcpy tmp (at i) z m)) x = m x)"
proof -
  let ?c1 = "copied tmp (at i) z m"
  let ?c2 = "copied (at i) (at k) z ?c1"
  let ?c3 = "copied (at k) tmp z ?c2"
  have in_arr: "region (at h) z \<subseteq> region pos (n * z)" if "h < n" for h
    using slot_in_array [OF that] by (simp add: at_def)
  have t: "region (at h) z \<inter> region tmp z = {}" "region tmp z \<inter> region (at h) z = {}" if "h < n" for h
    using in_arr [OF that] dj by auto
  have d: "region (at g) z \<inter> region (at h) z = {}" if "g < n" "h < n" "g \<noteq> h" for g h
    using slots_disjoint [OF that assms(5)] by (simp add: at_def)
  have m: "memcpy tmp (at i) z m = ?c1" "memcpy (at i) (at k) z ?c1 = ?c2" "memcpy (at k) tmp z ?c2 = ?c3"
    using t d assms by (simp_all add: memcpy_copied)
  have "obj ?c3 (at h) z = obj m (at (if h = i then k else if h = k then i else h)) z" if "h < n" for h
  proof (cases "h = k")
    case True
    then show ?thesis
      using assms t d by (simp add: obj_copied_same obj_copied_other)
  next
    case False
    then have "obj ?c3 (at h) z = obj ?c2 (at h) z" using d assms that by (simp add: obj_copied_other)
    with False show ?thesis
      using assms t d that by (cases "h = i") (simp_all add: obj_copied_same obj_copied_other)
  qed
  then have "objs ?c3 pos z n = exchange i k (objs m pos z n)"
    using assms by (intro nth_equalityI) (auto simp: exchange_def nth_list_update at_def)
  moreover have "?c3 x = m x" if "x \<notin> region pos (n * z) \<union> region tmp z" for x
    using that in_arr [of i] in_arr [of k] assms(2,3) by (subst copied_outside, blast)+ simp
  ultimately show ?thesis by (simp add: m)
qed

text \<open>The loops of \<^verbatim>\<open>qsort\<close> are the ones over the list of objects.\<close>

lemma qsort_min_index:
  assumes "\<And>a b. cmp m a b = f (obj m a (unat sz)) (obj m b (unat sz))" and "k < unat n"
  shows "qsort_min cmp m pos sz n (pos + of_nat (k * unat sz)) j =
    pos + of_nat (min_index f (objs m pos (unat sz) (unat n)) k (unat j) * unat sz)"
  using assms(2)
proof (induction "unat n - unat j" arbitrary: j k rule: less_induct)
  case less
  let ?xs = "objs m pos (unat sz) (unat n)"
  show ?case
  proof (cases "j < n")
    case True
    then have j: "unat j < unat n" and s: "unat (j + 1) = Suc (unat j)"
      using loop_measure(1) [OF True] by (simp_all add: word_less_nat_alt)
    let ?k = "if f (?xs ! unat j) (?xs ! k) < 0 then unat j else k"
    have "qsort_min cmp m pos sz n (pos + of_nat (?k * unat sz)) (j + 1) =
        pos + of_nat (min_index f ?xs ?k (unat (j + 1)) * unat sz)"
      using less.prems j s by (intro less.hyps) auto
    moreover have b: "pos + j * sz = pos + of_nat (unat j * unat sz)" by simp
    have c: "cmp m (pos + j * sz) (pos + of_nat (k * unat sz)) = f (?xs ! unat j) (?xs ! k)"
      unfolding assms(1) b using j less.prems by (simp only: nth_objs)
    have "qsort_min cmp m pos sz n (pos + of_nat (k * unat sz)) j =
        qsort_min cmp m pos sz n (pos + of_nat (?k * unat sz)) (j + 1)"
      unfolding qsort_min.simps [of cmp m pos sz n "pos + of_nat (k * unat sz)" j] Let_def c
      using True b by (cases "f (?xs ! unat j) (?xs ! k) < 0") (simp_all only: if_True if_False)
    moreover have "min_index f ?xs k (unat j) = min_index f ?xs ?k (unat (j + 1))"
      using j(1) by (simp only: min_index.simps [of f ?xs k] length_objs if_True s)
    ultimately show ?thesis by (simp only:)
  next
    case False
    then show ?thesis
      by (simp add: qsort_min.simps [of cmp m pos sz n _ j] min_index.simps [of f ?xs k] word_less_nat_alt)
  qed
qed

lemma qsort_loop_empty: "qsort_loop cmp pos sz tmp 0 i m = m"
proof (induction "unat (- 1 - i)" arbitrary: i rule: less_induct)
  case less
  show ?case
  proof (cases "i < - 1")
    case True
    have "unat (- 1 - (i + 1)) < unat (- 1 - i)" by (rule loop_measure(2) [OF True])
    from less.hyps [OF this] True show ?thesis
      by (simp add: qsort_loop.simps [of cmp pos sz tmp 0 i m] qsort_min.simps [of _ _ _ _ 0])
  qed (simp add: qsort_loop.simps [of cmp pos sz tmp 0 i m])
qed

lemma qsort_loop_objs:
  assumes cmp: "\<And>m a b. cmp m a b = f (obj m a (unat sz)) (obj m b (unat sz))"
    and "0 < unat sz" and fit: "unat n * unat sz \<le> 2 ^ 32" and "0 < unat n"
    and dj: "region tmp (unat sz) \<inter> region pos (unat n * unat sz) = {}"
  shows "objs (qsort_loop cmp pos sz tmp n i m) pos (unat sz) (unat n) =
      sel_sort f (unat i) (objs m pos (unat sz) (unat n)) \<and>
    (\<forall>x. x \<notin> region pos (unat n * unat sz) \<union> region tmp (unat sz) \<longrightarrow>
      qsort_loop cmp pos sz tmp n i m x = m x)"
proof (induction "unat (n - 1 - i)" arbitrary: i m rule: less_induct)
  case less
  let ?z = "unat sz" and ?n = "unat n"
  let ?xs = "objs m pos ?z ?n"
  have n1: "unat (n - 1) = ?n - 1" using assms(4) by (subst unat_sub_nowrap) simp_all
  show ?case
  proof (cases "i < n - 1")
    case True
    then have i: "unat i < ?n - 1" "unat (i + 1) = Suc (unat i)"
      using n1 loop_measure(1) [OF True] by (simp_all add: word_less_nat_alt)
    define k where "k = min_index f ?xs (unat i) (Suc (unat i))"
    have k: "unat i \<le> k" "k < ?n"
      using min_index_range [of "unat i" ?xs "Suc (unat i)" f] i by (simp_all add: k_def)
    let ?at = "\<lambda>h. pos + of_nat (h * ?z)"
    let ?m = "memcpy (?at k) tmp ?z (memcpy (?at (unat i)) (?at k) ?z (memcpy tmp (?at (unat i)) ?z m))"
    have a: "pos + i * sz = ?at (unat i)" by simp
    have sw: "qsort_min cmp m pos sz n (pos + i * sz) (i + 1) = ?at k"
      unfolding a using qsort_min_index [of cmp m f sz "unat i" n pos "i + 1"] cmp i by (simp add: k_def)
    have ne: "?at k = ?at (unat i) \<longleftrightarrow> k = unat i"
    proof -
      have "h * ?z < 2 ^ 32" if "h < ?n" for h
      proof -
        have "h * ?z < ?n * ?z" using that assms(2) by simp
        then show ?thesis using fit by (rule less_le_trans)
      qed
      then have "?at k = ?at (unat i) \<longleftrightarrow> k * ?z = unat i * ?z"
        using k i by (intro offset_eq_iff) auto
      then show ?thesis using assms(2) by simp
    qed
    define m' where "m' = (if k \<noteq> unat i then ?m else m)"
    have step: "qsort_loop cmp pos sz tmp n i m = qsort_loop cmp pos sz tmp n (i + 1) m'"
    proof (cases "k = unat i")
      case eq: True
      then have "?at k = ?at (unat i)" by simp
      with eq True show ?thesis
        unfolding qsort_loop.simps [of cmp pos sz tmp n i m] Let_def sw unfolding a m'_def by (simp only: if_True) simp
    next
      case False
      with ne have "?at k \<noteq> ?at (unat i)" by blast
      with False True show ?thesis
        unfolding qsort_loop.simps [of cmp pos sz tmp n i m] Let_def sw unfolding a m'_def by (simp only: if_True)
    qed
    have z: "?z \<le> 2 ^ 32" using unat_lt_u32 [of sz] by simp
    have "objs m' pos ?z ?n = exchange (unat i) k ?xs \<and>
        (\<forall>x. x \<notin> region pos (?n * ?z) \<union> region tmp ?z \<longrightarrow> m' x = m x)"
      using swap_objs [OF _ k(2) _ fit z dj, of "unat i" m] i by (simp add: m'_def del: of_nat_mult)
    moreover note less.hyps [OF loop_measure(2) [OF True], of m']
    ultimately show ?thesis
      using i by (simp add: step sel_sort.simps [of f "unat i" ?xs] k_def)
  next
    case False
    then have "\<not> unat i < ?n - 1" using n1 by (simp add: word_less_nat_alt)
    with False show ?thesis
      by (simp add: qsort_loop.simps [of cmp pos sz tmp n i m] sel_sort.simps [of f "unat i" ?xs])
  qed
qed

section \<open>Binary search\<close>




section \<open>Numbers in strings\<close>

definition digits :: "u8 list \<Rightarrow> bool" where
  "digits ds \<longleftrightarrow> (\<forall>c\<in>set ds. 48 \<le> unat c \<and> unat c \<le> 57)"

lemma digits_Nil [simp]: "digits []"
  by (simp add: digits_def)

lemma digits_Cons [simp]: "digits (c # ds) \<longleftrightarrow> 48 \<le> unat c \<and> unat c \<le> 57 \<and> digits ds"
  by (auto simp: digits_def)

lemma digit_value: "48 \<le> unat c \<Longrightarrow> unat c \<le> 57 \<Longrightarrow> (scast (c :: u8) :: u32) - 48 = of_nat (byte_digit c)"
proof -
  assume c: "48 \<le> unat c" "unat c \<le> 57"
  then have s: "sint c = int (unat c)"
    using int_of_char_ascii [of c] by (simp add: int_of_char_def)
  have "(scast c :: u32) = of_nat (unat c)" unfolding scast_eq s by simp
  moreover have "unat c = 48 + byte_digit c" using c by (simp add: byte_digit_def)
  ultimately show ?thesis by (simp only: of_nat_add) simp
qed

lemma atoi_loop_digits:
  assumes "digits ds" and "\<And>j. j < length ds \<Longrightarrow> m (s + of_nat (i + j)) = ds ! j"
    and "isdigit (int_of_char (m (s + of_nat (i + length ds)))) = 0"
  shows "atoi_loop m s i (of_nat r) = Some (of_nat (foldl (\<lambda>v c. v * 10 + byte_digit c) r ds))"
  using assms
proof (induction ds arbitrary: i r)
  case Nil
  then show ?case by (simp add: atoi_loop.simps [of m s i])
next
  case (Cons c ds)
  have c: "m (s + of_nat i) = c" "48 \<le> unat c" "unat c \<le> 57"
    using Cons.prems(2) [of 0] Cons.prems(1) by simp_all
  have "atoi_loop m s (Suc i) (of_nat (r * 10 + byte_digit c)) =
      Some (of_nat (foldl (\<lambda>v c. v * 10 + byte_digit c) (r * 10 + byte_digit c) ds))"
  proof (rule Cons.IH)
    show "m (s + of_nat (Suc i + j)) = ds ! j" if "j < length ds" for j
      using Cons.prems(2) [of "Suc j"] that by simp
  qed (use Cons.prems in simp_all)
  moreover have "atoi_loop m s i (of_nat r) = atoi_loop m s (Suc i) (of_nat (r * 10 + byte_digit c))"
    using isdigit_byte [of c] c
    by (simp add: atoi_loop.simps [of m s i] digit_value del: of_nat_Suc)
  ultimately show ?case by simp
qed

text \<open>\<open>atoi\<close> reads an optional minus sign and the digits after it.\<close>

lemma atoi_digits:
  assumes "digits ds" and "cstr m s (sg @ ds)" and "sg = [] \<or> sg = [45]"
  shows "atoi m s = Some (if sg = [45] then - of_nat (text_val 10 ds) else of_nat (text_val 10 ds))"
proof -
  have nth: "m (s + of_nat (length sg + j)) = ds ! j" if "j < length ds" for j
    using cstr_nth [OF assms(2), of "length sg + j"] that by (simp add: nth_append)
  have e: "m (s + of_nat (length sg + length ds)) = 0"
    using cstr_end [OF assms(2)] by simp
  have run: "atoi_loop m s (length sg) (of_nat 0) = Some (of_nat (foldl (\<lambda>v c. v * 10 + byte_digit c) 0 ds))"
    by (rule atoi_loop_digits [OF assms(1)]) (simp_all add: nth e isdigit_def del: of_nat_add)
  show ?thesis
  proof (cases "sg = []")
    case True
    have "m s \<noteq> 45"
      using assms(1,2) True by (cases ds) auto
    with True run show ?thesis by (simp add: atoi_def text_val_def)
  next
    case False
    with assms(2,3) have "m s = 45" by auto
    with False run assms(3) show ?thesis by (auto simp: atoi_def text_val_def)
  qed
qed

section \<open>Properties\<close>

text \<open>
  \<open>div\<close> and \<open>ldiv\<close> agree and give the quotient of C's division; the remainder has the right sign
  for a positive divisor only, and a zero divisor makes them loop for ever.
\<close>

theorem div_correct:
  assumes "sint num \<noteq> - 2147483648" and "sint denom \<noteq> - 2147483648"
  shows "ldiv_c num denom = div_c num denom \<and>
    (denom = 0 \<longrightarrow> div_c num denom = None) \<and>
    (denom \<noteq> 0 \<longrightarrow> (\<exists>r. div_c num denom = Some r \<and>
      sint (div_quot r) = sdiv_c (sint num) (sint denom) \<and>
      sint (div_rem r) = (if 0 < sint denom then 1 else - 1) * smod_c (sint num) (sint denom)))"
proof (cases "denom = 0")
  case True
  then show ?thesis
    using assms sint_abs_c [of num] div_loop_zero [of "abs_c num" 0]
    by (simp add: ldiv_div div_c_def) (simp add: abs_c_def)
next
  case False
  let ?n = "sint num" and ?d = "sint denom"
  have "?d \<noteq> 0" using False by (metis signed_0 word_eq_iff_signed)
  then have n: "\<bar>?n\<bar> < 2147483648" and d: "0 < \<bar>?d\<bar>" "\<bar>?d\<bar> < 2147483648"
    using assms sint_range_u32 [of num] sint_range_u32 [of denom] by auto
  define q t where "q = \<bar>?n\<bar> div \<bar>?d\<bar>" and "t = \<bar>?n\<bar> mod \<bar>?d\<bar>"
  have run: "div_loop (abs_c denom) 0 (abs_c num) = Some (of_int q, of_int t)"
    using div_loop_pos [of "abs_c denom" "abs_c num" 0] d assms
    by (simp add: sint_abs_c q_def t_def)
  have q: "0 \<le> q" "q \<le> \<bar>?n\<bar>" 
    using d(1) zdiv_mono2 [of "\<bar>?n\<bar>" 1 "\<bar>?d\<bar>"] by (simp_all add: q_def pos_imp_zdiv_nonneg_iff)
  have t: "0 \<le> t" "t < \<bar>?d\<bar>" using d(1) by (simp_all add: t_def)
  have w: "sint (of_int q :: u32) = q" "sint (- of_int q :: u32) = - q"
    "sint (of_int t :: u32) = t" "sint (- of_int t :: u32) = - t"
    using q t n d sint_of_int_small [of q] sint_of_int_small [of "- q"]
      sint_of_int_small [of t] sint_of_int_small [of "- t"] by simp_all
  have z: "q = 0 \<and> t = 0" if "?n = 0" using that by (simp add: q_def t_def)
  have nt: "\<bar>?n\<bar> = q * \<bar>?d\<bar> + t" by (simp add: q_def t_def)
  have sq: "sdiv_c ?n ?d = (if (0 \<le> ?n) = (0 \<le> ?d) then q else - q)"
    by (simp add: sdiv_c_def q_def)
  have st: "smod_c ?n ?d = (if 0 \<le> ?n then t else - t)"
    using nt by (auto simp: smod_c_def sq abs_if split: if_splits)
  have r: "\<exists>r. div_c num denom = Some r \<and>
      sint (div_quot r) = (if (0 < ?n \<and> 0 < ?d) \<or> (?n < 0 \<and> ?d < 0) then q else - q) \<and>
      sint (div_rem r) = (if (0 < ?n \<and> 0 < ?d) \<or> (?n < 0 \<and> ?d < 0) then t else - t)"
    using w by (auto simp: div_c_def run)
  show ?thesis
    using r z d(1) False unfolding ldiv_div sq st by (auto split: if_splits)
qed

theorem div_correct_witness:
  "\<exists>r. div_c 7 (- 2) = Some r \<and> sint (div_quot r) = - 3 \<and> sint (div_rem r) = - 1"
  using div_correct [of 7 "- 2"] by (simp add: sdiv_c_def smod_c_def)


text \<open>
  Property C24. \<open>qsort\<close>: for a comparison that is an order on the objects, and an array that does not overlap
  the block it gets from \<open>malloc\<close>, the objects end up in order, they are the objects
  that were there, and memory outside the array and the block does not change.
\<close>

theorem qsort_correct:
  fixes m :: mem and cmp :: cmp_fun
  defines "m' \<equiv> \<lambda>base sz tmp n. qsort_loop cmp base sz tmp n 0 m"
  assumes "\<forall>m a b. cmp m a b = f (obj m a (unat sz)) (obj m b (unat sz))" and "cmp_order f"
    and "0 < unat sz" and "unat n * unat sz \<le> 2 ^ 32"
    and "region tmp (unat sz) \<inter> region base (unat n * unat sz) = {}"
  shows "(libc_malloc sz s = Some (Inr tmp, s1) \<and> ram s1 = m \<longrightarrow>
      qsort base n sz cmp s = libc_free tmp (s1\<lparr>ram := m' base sz tmp n\<rparr>)) \<and>
    sorted_wrt (\<lambda>x y. \<not> f y x < 0) (objs (m' base sz tmp n) base (unat sz) (unat n)) \<and>
    mset (objs (m' base sz tmp n) base (unat sz) (unat n)) = mset (objs m base (unat sz) (unat n)) \<and>
    (\<forall>x. x \<notin> region base (unat n * unat sz) \<union> region tmp (unat sz) \<longrightarrow> m' base sz tmp n x = m x)"
proof -
  have q: "libc_malloc sz s = Some (Inr tmp, s1) \<and> ram s1 = m \<longrightarrow>
      qsort base n sz cmp s = libc_free tmp (s1\<lparr>ram := m' base sz tmp n\<rparr>)"
    by (simp add: qsort_def m'_def)
  show ?thesis
  proof (cases "n = 0")
    case True
    with q show ?thesis by (simp add: m'_def qsort_loop_empty objs_def)
  next
    case False
    then have "0 < unat n" by (simp add: unat_gt_0)
    then have run: "objs (qsort_loop cmp base sz tmp n 0 m) base (unat sz) (unat n) =
        sel_sort f (unat (0 :: u32)) (objs m base (unat sz) (unat n)) \<and>
      (\<forall>x. x \<notin> region base (unat n * unat sz) \<union> region tmp (unat sz) \<longrightarrow>
        qsort_loop cmp base sz tmp n 0 m x = m x)"
      using assms(2,4,5,6) by (intro qsort_loop_objs [where f = f]) auto
    from run have o: "objs (m' base sz tmp n) base (unat sz) (unat n) =
        sel_sort f 0 (objs m base (unat sz) (unat n))"
      by (simp add: m'_def)
    show ?thesis
      using q run assms(3) by (simp add: o mset_sel_sort sel_sort_sorted) (simp add: m'_def)
  qed
qed

theorem qsort_correct_witness:
  "mset (objs (qsort_loop (\<lambda>m a b. int (unat (m a)) - int (unat (m b))) 0x100 1 0x200 2 0
      (\<lambda>a. if a = 0x100 then 9 else 5)) 0x100 1 2) = {#[9], [5]#}"
proof -
  let ?f = "\<lambda>xs ys :: u8 list. int (unat (hd xs)) - int (unat (hd ys))"
  let ?cmp = "\<lambda>m (a :: u32) (b :: u32). int (unat (m a :: u8)) - int (unat (m b))"
  have "region 0x200 (unat (1 :: u32)) \<inter> region 0x100 (unat (2 :: u32) * unat (1 :: u32)) = {}"
    by (simp add: region_def lessThan_nat_numeral lessThan_Suc)
  moreover have "\<forall>m a b. ?cmp m a b = ?f (obj m a (unat (1 :: u32))) (obj m b (unat (1 :: u32)))"
    by (simp add: obj_def)
  moreover have "cmp_order ?f" by (auto simp: cmp_order_def)
  moreover have "objs (\<lambda>a. if a = 0x100 then 9 else 5) 0x100 1 2 = [[9], [5]]"
    by (simp add: objs_def obj_def upt_rec)
  ultimately show "mset (objs (qsort_loop ?cmp 0x100 1 0x200 2 0
      (\<lambda>a. if a = 0x100 then 9 else 5)) 0x100 1 2) = {#[9], [5]#}"
    using qsort_correct [of ?cmp ?f 1 2 "0x200" "0x100" _ _ "\<lambda>a. if a = 0x100 then 9 else 5"] by simp
qed

text \<open>
  In larger arrays the sum of the indices wraps: the search compares with, and returns, an object that lies
  outside the array.
\<close>

lemma bsearch_sum_wraps:
  "bsearch 0 0 0x60000001 1 (\<lambda>k a. if a = 0xc8000000 then 0 else 1) = Some 0xc8000000"
proof -
  let ?cmp = "\<lambda>k a :: u32. if a = 0xc8000000 then 0 else (1 :: int)"
  have b: "sint (0x60000001 - 1 :: u32) = 0x60000000" by simp
  have m: "sdiv_c (i32 (0x60000000 + 0)) 2 = 0x30000000" "sdiv_c (i32 (0x60000000 + 0x30000000)) 2 = - 0x38000000"
    by (simp_all add: i32_def sdiv_c_def)
  show ?thesis
    unfolding bsearch_def b
    by (simp add: bsearch_loop.simps [of ?cmp 0 0 1 0 "0x60000000"]
        bsearch_loop.simps [of ?cmp 0 0 1 "0x30000000" "0x60000000"] Let_def m [simplified])
qed



end
