(* ===== verification/Vsprintf.thy ===== *)
theory Vsprintf
  imports Stdlib
begin

text \<open>
  Formatted output into memory, \<^verbatim>\<open>lib/vsprintf.c\<close>: the format is read and the text is written in
  the same flat memory. \<open>args\<close> are the argument words and \<open>n\<close> the number of words consumed. Widths
  and precisions are computed at the width of an \<^verbatim>\<open>int\<close>; the routine does not bound what it writes.
\<close>

section \<open>Flags\<close>

definition ZEROPAD :: u32 where "ZEROPAD = 1"
definition SIGN :: u32 where "SIGN = 2"
definition PLUS :: u32 where "PLUS = 4"
definition SPACE :: u32 where "SPACE = 8"
definition LEFT :: u32 where "LEFT = 16"
definition SPECIAL :: u32 where "SPECIAL = 32"
definition SMALL :: u32 where "SMALL = 64"

definition has :: "u32 \<Rightarrow> u32 \<Rightarrow> bool" where
  "has type f \<longleftrightarrow> type AND f \<noteq> 0"

definition is_digit :: "u8 \<Rightarrow> bool" where
  "is_digit c \<longleftrightarrow> int_of_char c \<ge> 48 \<and> int_of_char c \<le> 57"

section \<open>Output\<close>

text \<open>The output pointer and the memory; \<^verbatim>\<open>*str++ = c\<close>.\<close>

type_synonym out = "u32 \<times> mem"

definition put :: "u8 \<Rightarrow> out \<Rightarrow> out" where
  "put c o' = (fst o' + 1, (snd o')(fst o' := c))"

text \<open>
  \<^verbatim>\<open>while (lo < n--) *str++ = c;\<close> with the final value of \<open>n\<close>. A round has \<open>lo < n\<close> for an \<^verbatim>\<open>int\<close> \<open>lo\<close>, so only
  the last decrement can wrap.
\<close>

function put_to :: "u8 \<Rightarrow> int \<Rightarrow> int \<Rightarrow> out \<Rightarrow> int \<times> out" where
  "put_to c lo n o' = (if lo < n then put_to c lo (n - 1) (put c o') else (i32 (n - 1), o'))"
  by pat_completeness auto
termination
  by (relation "measure (\<lambda>(c, lo, n, o'). nat (n - lo))") auto

declare put_to.simps [simp del]

text \<open>\<^verbatim>\<open>while (--n > 0) *str++ = c;\<close>\<close>

function put_pre :: "u8 \<Rightarrow> int \<Rightarrow> out \<Rightarrow> int \<times> out" where
  "put_pre c n o' = (if i32 (n - 1) > 0 then put_pre c (i32 (n - 1)) (put c o') else (i32 (n - 1), o'))"
  by pat_completeness auto
termination
proof (relation "measure (\<lambda>(c, n, o'). nat (i32 (n - 1)))", simp, clarsimp)
  fix n :: int assume "0 < i32 (n - 1)"
  moreover have "i32 (i32 (n - 1) - 1) = i32 (n - 1) - 1"
    using calculation i32_range [of "n - 1"] by (intro i32_id) linarith+
  ultimately show "i32 (i32 (n - 1) - 1) < i32 (n - 1)" by simp
qed

declare put_pre.simps [simp del]

section \<open>Numbers\<close>

definition digit_of :: "bool \<Rightarrow> u32 \<Rightarrow> u8" where
  "digit_of small r = (if r < 10 then ucast r + 48 else if small then ucast r + 87 else ucast r + 55)"

text \<open>\<^verbatim>\<open>do_div\<close> divides unsigned; \<open>tmp\<close> holds the digits from the last to the first.\<close>

function num_tmp :: "bool \<Rightarrow> u32 \<Rightarrow> u32 \<Rightarrow> u8 list" where
  "num_tmp small base num =
     (if num \<noteq> 0 \<and> 1 < base then digit_of small (num mod base) # num_tmp small base (num div base)
      else [])"
  by pat_completeness auto
termination
proof (relation "measure (\<lambda>(small, base, num). unat num)", simp, clarsimp)
  fix base num :: u32 assume "num \<noteq> 0" "1 < base"
  then show "unat (num div base) < unat num"
    by (simp add: unat_div word_less_nat_alt unat_gt_0)
qed

declare num_tmp.simps [simp del]

text \<open>\<^verbatim>\<open>while (i-- > 0) *str++ = tmp[i];\<close>\<close>

definition put_rev :: "u8 list \<Rightarrow> out \<Rightarrow> out" where
  "put_rev tmp o' = fold put (rev tmp) o'"

definition number :: "u32 \<Rightarrow> u32 \<Rightarrow> int \<Rightarrow> int \<Rightarrow> u32 \<Rightarrow> out \<Rightarrow> out" where
  "number num base sz precision type o' =
     (let small = has type SMALL;
          type = (if has type LEFT then type AND NOT ZEROPAD else type)
      in if base < 2 \<or> base > 36 then (0, snd o')
         else let c = (if has type ZEROPAD then 48 else 32);
              (sign, num) = (if has type SIGN \<and> sint num < 0 then (45, - num)
                else (if has type PLUS then 43 else if has type SPACE then 32 else 0, num));
              sz = (if sign \<noteq> 0 then i32 (sz - 1) else sz);
              sz = (if has type SPECIAL then if base = 16 then i32 (sz - 2) else if base = 8 then i32 (sz - 1) else sz
                else sz);
              tmp = (if num = 0 then [48] else num_tmp small base num);
              i = int (length tmp);
              precision = (if i > precision then i else precision);
              sz = i32 (sz - precision);
              (sz, o') = (if \<not> has type (ZEROPAD + LEFT) then put_to 32 0 sz o' else (sz, o'));
              o' = (if sign \<noteq> 0 then put sign o' else o');
              o' = (if has type SPECIAL
                then if base = 8 then put 48 o'
                     else if base = 16 then put (if small then 120 else 88) (put 48 o') else o'
                else o');
              (sz, o') = (if \<not> has type LEFT then put_to c 0 sz o' else (sz, o'));
              (precision, o') = put_to 48 i precision o';
              o' = put_rev tmp o';
              (sz, o') = put_to 32 0 sz o'
          in o')"

section \<open>The format\<close>

partial_function (option) vs_skip_atoi :: "mem \<Rightarrow> u32 \<Rightarrow> u32 \<Rightarrow> (u32 \<times> u32) option" where
  "vs_skip_atoi m i s =
     (if is_digit (m s) then vs_skip_atoi m (i * 10 + scast (m s) - 48) (s + 1) else Some (i, s))"

partial_function (option) vs_flags :: "mem \<Rightarrow> u32 \<Rightarrow> u32 \<Rightarrow> (u32 \<times> u32) option" where
  "vs_flags m flags fmt =
     (let fmt = fmt + 1
      in if m fmt = 45 then vs_flags m (flags OR LEFT) fmt
         else if m fmt = 43 then vs_flags m (flags OR PLUS) fmt
         else if m fmt = 32 then vs_flags m (flags OR SPACE) fmt
         else if m fmt = 35 then vs_flags m (flags OR SPECIAL) fmt
         else if m fmt = 48 then vs_flags m (flags OR ZEROPAD) fmt
         else Some (flags, fmt))"

definition vs_width :: "mem \<Rightarrow> (nat \<Rightarrow> u32) \<Rightarrow> nat \<Rightarrow> u32 \<Rightarrow> u32 \<Rightarrow> (u32 \<times> int \<times> u32 \<times> nat) option" where
  "vs_width m args n flags fmt =
     (if is_digit (m fmt) then map_option (\<lambda>(i, fmt). (flags, sint i, fmt, n)) (vs_skip_atoi m 0 fmt)
      else if m fmt = 42
      then Some (if sint (args n) < 0 then (flags OR LEFT, i32 (- sint (args n)), fmt, Suc n)
                 else (flags, sint (args n), fmt, Suc n))
      else Some (flags, - 1, fmt, n))"

definition vs_precision :: "mem \<Rightarrow> (nat \<Rightarrow> u32) \<Rightarrow> nat \<Rightarrow> u32 \<Rightarrow> (int \<times> u32 \<times> nat) option" where
  "vs_precision m args n fmt =
     (if m fmt = 46
      then map_option (\<lambda>(p, fmt, n). (if p < 0 then 0 else p, fmt, n))
        (let fmt = fmt + 1
         in if is_digit (m fmt) then map_option (\<lambda>(i, fmt). (sint i, fmt, n)) (vs_skip_atoi m 0 fmt)
            else if m fmt = 42 then Some (sint (args n), fmt, Suc n)
            else Some (- 1, fmt, n))
      else Some (- 1, fmt, n))"

definition vs_qualifier :: "mem \<Rightarrow> u32 \<Rightarrow> u32" where
  "vs_qualifier m fmt = (if m fmt = 104 \<or> m fmt = 108 \<or> m fmt = 76 then fmt + 1 else fmt)"

section \<open>Conversions\<close>

definition vs_char :: "u32 \<Rightarrow> u32 \<Rightarrow> int \<Rightarrow> out \<Rightarrow> out" where
  "vs_char a flags width o' =
     (let (width, o') = (if \<not> has flags LEFT then put_pre 32 width o' else (width, o'));
          o' = put (ucast a) o'
      in snd (put_pre 32 width o'))"

definition vs_string :: "u32 \<Rightarrow> u32 \<Rightarrow> int \<Rightarrow> int \<Rightarrow> out \<Rightarrow> out option" where
  "vs_string s flags width precision o' =
     map_option (\<lambda>l.
       let l = i32 (int l);
           len = (if precision < 0 then l else if l > precision then precision else l);
           (width, o') = (if \<not> has flags LEFT then put_to 32 len width o' else (width, o'));
           o' = (fst o' + of_int len, copy_up (fst o') s (nat len) (snd o'))
       in snd (put_to 32 len width o'))
     (strlen (snd o') s)"

text \<open>
  The character after the flags, width, precision and qualifier selects the conversion; the result
  is the last character of the format used, the arguments consumed and the output.
\<close>

definition vs_convert :: "u32 \<Rightarrow> (nat \<Rightarrow> u32) \<Rightarrow> u32 \<Rightarrow> int \<Rightarrow> int \<Rightarrow> u32 \<Rightarrow> nat \<Rightarrow> out \<Rightarrow>
    (u32 \<times> nat \<times> out) option" where
  "vs_convert buf args flags width precision fmt n o' =
     (let c = snd o' fmt; a = args n
      in if c = 99 then Some (fmt, Suc n, vs_char a flags width o')
         else if c = 115 then map_option (\<lambda>o'. (fmt, Suc n, o')) (vs_string a flags width precision o')
         else if c = 111 then Some (fmt, Suc n, number a 8 width precision flags o')
         else if c = 112
         then (let (width, flags) = (if width = - 1 then (8, flags OR ZEROPAD) else (width, flags))
               in Some (fmt, Suc n, number a 16 width precision flags o'))
         else if c = 120 then Some (fmt, Suc n, number a 16 width precision (flags OR SMALL) o')
         else if c = 88 then Some (fmt, Suc n, number a 16 width precision flags o')
         else if c = 100 \<or> c = 105 then Some (fmt, Suc n, number a 10 width precision (flags OR SIGN) o')
         else if c = 117 then Some (fmt, Suc n, number a 10 width precision flags o')
         else if c = 110 then Some (fmt, Suc n, (fst o', store32 (snd o') a (fst o' - buf)))
         else let o' = (if c \<noteq> 37 then put 37 o' else o')
              in if snd o' fmt \<noteq> 0 then Some (fmt, n, put (snd o' fmt) o') else Some (fmt - 1, n, o'))"

text \<open>One directive, from the percent sign on.\<close>

definition vs_directive :: "u32 \<Rightarrow> (nat \<Rightarrow> u32) \<Rightarrow> nat \<Rightarrow> u32 \<Rightarrow> out \<Rightarrow> (u32 \<times> nat \<times> out) option" where
  "vs_directive buf args n fmt o' = do {
     (flags, fmt) \<leftarrow> vs_flags (snd o') 0 fmt;
     (flags, width, fmt, n) \<leftarrow> vs_width (snd o') args n flags fmt;
     (precision, fmt, n) \<leftarrow> vs_precision (snd o') args n fmt;
     vs_convert buf args flags width precision (vs_qualifier (snd o') fmt) n o' }"

partial_function (option) vs_loop :: "u32 \<Rightarrow> (nat \<Rightarrow> u32) \<Rightarrow> nat \<Rightarrow> u32 \<Rightarrow> out \<Rightarrow> out option" where
  "vs_loop buf args n fmt o' =
     (if snd o' fmt = 0 then Some o'
      else if snd o' fmt \<noteq> 37 then vs_loop buf args n (fmt + 1) (put (snd o' fmt) o')
      else Option.bind (vs_directive buf args n fmt o') (\<lambda>(fmt, n, o').
        vs_loop buf args n (fmt + 1) o'))"

definition vsprintf :: "u32 \<Rightarrow> u32 \<Rightarrow> (nat \<Rightarrow> u32) \<Rightarrow> mem \<Rightarrow> (u32 \<times> mem) option" where
  "vsprintf buf fmt args m =
     map_option (\<lambda>(str, m). (str - buf, m(str := 0))) (vs_loop buf args 0 fmt (buf, m))"

definition sprintf :: "u32 \<Rightarrow> u32 \<Rightarrow> (nat \<Rightarrow> u32) \<Rightarrow> mem \<Rightarrow> mem option" where
  "sprintf buf fmt args m = map_option snd (vsprintf buf fmt args m)"

section \<open>Output as text\<close>

text \<open>All output goes through \<open>put\<close>: writing a text is writing its bytes at the output pointer.\<close>

definition emit_text :: "u8 list \<Rightarrow> out \<Rightarrow> out" where
  "emit_text xs o' = (fst o' + of_nat (length xs), put_bytes (fst o') xs (snd o'))"

lemma emit_text_Nil [simp]: "emit_text [] o' = o'"
  by (simp add: emit_text_def)

lemma emit_text_append: "emit_text (xs @ ys) o' = emit_text ys (emit_text xs o')"
  by (simp add: emit_text_def put_bytes_append algebra_simps)

lemma put_emit: "put c o' = emit_text [c] o'"
  by (simp add: put_def emit_text_def)

lemma emit_Cons: "emit_text (c # xs) o' = emit_text xs (emit_text [c] o')"
  using emit_text_append [of "[c]" xs] by simp

lemma fold_put_emit: "fold put xs o' = emit_text xs o'"
proof (induction xs arbitrary: o')
  case (Cons c xs)
  then show ?case using emit_Cons [of c xs o'] by (simp add: put_emit)
qed simp

definition blanks :: "u8 \<Rightarrow> int \<Rightarrow> u8 list" where
  "blanks c k = replicate (nat k) c"

lemma blanks_none [simp]: "k \<le> 0 \<Longrightarrow> blanks c k = []"
  by (simp add: blanks_def)

lemma length_blanks [simp]: "length (blanks c k) = nat k"
  by (simp add: blanks_def)

lemma blanks_Cons: "0 < k \<Longrightarrow> blanks c k = c # blanks c (k - 1)"
  by (simp add: blanks_def nat_diff_distrib' flip: replicate_Suc)

lemma put_to_emit:
  assumes "- 2147483648 < lo" and "lo < 2147483648" and "- 2147483648 < n"
  shows "put_to c lo n o' = (min lo n - 1, emit_text (blanks c (n - lo)) o')"
  using assms
proof (induction c lo n o' rule: put_to.induct)
  case (1 c lo n o')
  show ?case
  proof (cases "lo < n")
    case True
    then have "put_to c lo n o' = (min lo (n - 1) - 1, emit_text (blanks c (n - 1 - lo)) (put c o'))"
      using 1 by (simp add: put_to.simps [of c lo n])
    moreover have "min lo (n - 1) = lo" "min lo n = lo" using True by simp_all
    moreover have "blanks c (n - lo) = c # blanks c (n - 1 - lo)"
      using blanks_Cons [of "n - lo" c] True by (simp add: algebra_simps)
    ultimately show ?thesis
      using emit_Cons [of c "blanks c (n - 1 - lo)" o'] by (simp add: put_emit)
  next
    case False
    then have "i32 (n - 1) = n - 1" using "1.prems" by (intro i32_id) linarith+
    with False show ?thesis by (simp add: put_to.simps [of c lo n])
  qed
qed

lemma put_pre_emit:
  assumes "- 2147483648 < n" and "n < 2147483648"
  shows "put_pre c n o' = (min 0 (n - 1), emit_text (blanks c (n - 1)) o')"
  using assms
proof (induction c n o' rule: put_pre.induct)
  case (1 c n o')
  have e: "i32 (n - 1) = n - 1" using "1.prems" by (intro i32_id) linarith+
  show ?case
  proof (cases "n - 1 > 0")
    case True
    then have "put_pre c n o' = (0, emit_text (blanks c (n - 1 - 1)) (put c o'))"
      using 1 e by (simp add: put_pre.simps [of c n])
    then show ?thesis
      using blanks_Cons [OF True, of c] emit_Cons [of c "blanks c (n - 1 - 1)" o'] True by (simp add: put_emit)
  next
    case False
    then show ?thesis by (simp add: put_pre.simps [of c n] e)
  qed
qed

lemma put_rev_emit: "put_rev tmp o' = emit_text (rev tmp) o'"
  by (simp add: put_rev_def fold_put_emit)

section \<open>The text of a number\<close>

lemma has_or: "has type (f OR g) \<longleftrightarrow> has type f \<or> has type g"
  by (simp add: has_def bit.conj_disj_distrib or_eq_0_iff)

lemma has_zero_left: "has type (ZEROPAD + LEFT) \<longleftrightarrow> has type ZEROPAD \<or> has type LEFT"
  using has_or [of type ZEROPAD LEFT] by (simp add: ZEROPAD_def LEFT_def)

lemma has_clear:
  "has (type AND NOT ZEROPAD) ZEROPAD = False" "has (type AND NOT ZEROPAD) SIGN = has type SIGN"
  "has (type AND NOT ZEROPAD) PLUS = has type PLUS" "has (type AND NOT ZEROPAD) SPACE = has type SPACE"
  "has (type AND NOT ZEROPAD) LEFT = has type LEFT" "has (type AND NOT ZEROPAD) SPECIAL = has type SPECIAL"
  "has (type AND NOT ZEROPAD) SMALL = has type SMALL"
  by (simp_all add: has_def SMALL_def ZEROPAD_def SIGN_def PLUS_def SPACE_def LEFT_def SPECIAL_def and.assoc)

definition case_of :: "bool \<Rightarrow> u8 \<Rightarrow> u8" where
  "case_of small c = (if \<not> small \<and> 97 \<le> unat c then c - 32 else c)"

definition digit_text :: "bool \<Rightarrow> nat \<Rightarrow> nat \<Rightarrow> u8 list" where
  "digit_text small b k = map (case_of small) (num_text b k)"

lemma digit_of_eq:
  assumes "unat r < 36"
  shows "digit_of small r = case_of small (digit_byte (unat r))"
proof -
  have u: "(ucast r :: u8) = of_nat (unat r)" by simp
  show ?thesis
  proof (cases "unat r < 10")
    case True
    then have "digit_byte (unat r) = of_nat (unat r) + 48" "\<not> 97 \<le> unat (digit_byte (unat r))"
      using unat_digit_byte [OF assms] by (simp_all add: digit_byte_def)
    moreover have "r < 10" using True by (simp add: word_less_nat_alt)
    ultimately show ?thesis unfolding digit_of_def case_of_def u by simp
  next
    case False
    then have "digit_byte (unat r) = of_nat (unat r) + 87" "97 \<le> unat (digit_byte (unat r))"
      using unat_digit_byte [OF assms] by (simp_all add: digit_byte_def)
    moreover have "\<not> r < 10" using False by (simp add: word_less_nat_alt)
    ultimately show ?thesis unfolding digit_of_def case_of_def u by simp
  qed
qed

lemma num_tmp_text:
  assumes "2 \<le> base" and "base \<le> 36"
  shows "num \<noteq> 0 \<Longrightarrow> rev (num_tmp small base num) = digit_text small (unat base) (unat num)"
proof (induction "unat num" arbitrary: num rule: less_induct)
  case less
  have b: "2 \<le> unat base" "unat base \<le> 36" using assms by (simp_all add: word_le_nat_alt)
  have d: "unat (num div base) = unat num div unat base" "unat (num mod base) = unat num mod unat base"
    by (simp_all add: unat_div unat_mod)
  have "unat num mod unat base < 36" using b by (meson less_le_trans mod_less_divisor zero_less_numeral)
  then have e: "digit_of small (num mod base) = case_of small (digit_byte (unat num mod unat base))"
    using digit_of_eq [of "num mod base"] by (simp add: d)
  have one: "1 < base" using b by (simp add: word_less_nat_alt)
  have unf: "num_tmp small base num = digit_of small (num mod base) # num_tmp small base (num div base)"
    using less.prems one by (simp add: num_tmp.simps [of small base num])
  show ?case
  proof (cases "num div base = 0")
    case True
    then have "\<not> unat base \<le> unat num" using d(1) b by (metis div_greater_zero_iff less_le_trans not_less_zero unat_0 zero_less_numeral)
    then show ?thesis
      using True by (simp add: unf e num_tmp.simps [of small base 0] digit_text_def num_text.simps [of "unat base"])
  next
    case False
    then have "unat num div unat base \<noteq> 0" using d(1) by (metis unat_eq_0)
    then have le: "unat base \<le> unat num" by (meson div_less not_le)
    have "unat (num div base) < unat num" using d(1) b le by simp
    then have "rev (num_tmp small base (num div base)) = digit_text small (unat base) (unat (num div base))"
      using less.hyps False by blast
    then show ?thesis
      using le b by (simp add: unf e d digit_text_def num_text.simps [of "unat base" "unat num"])
  qed
qed

lemma length_digit_text [simp]: "length (digit_text small b k) = length (num_text b k)"
  by (simp add: digit_text_def)

text \<open>
  The text of a number: sign, base prefix, zeros up to the precision and digits, filled to the
  width with spaces on the left or right, or with zeros after the sign.
\<close>

definition num_sign :: "u32 \<Rightarrow> u32 \<Rightarrow> u8 list" where
  "num_sign type num = (if has type SIGN \<and> sint num < 0 then [45]
     else if has type PLUS then [43] else if has type SPACE then [32] else [])"

definition num_prefix :: "u32 \<Rightarrow> u32 \<Rightarrow> u8 list" where
  "num_prefix type base = (if \<not> has type SPECIAL then [] else if base = 8 then [48]
     else if base = 16 then [48, if has type SMALL then 120 else 88] else [])"

definition magnitude :: "u32 \<Rightarrow> u32 \<Rightarrow> nat" where
  "magnitude type num = (if has type SIGN \<and> sint num < 0 then unat (- num) else unat num)"

definition number_text :: "u32 \<Rightarrow> u32 \<Rightarrow> int \<Rightarrow> int \<Rightarrow> u32 \<Rightarrow> u8 list" where
  "number_text num base width precision type =
     (let ds = digit_text (has type SMALL) (unat base) (magnitude type num);
          ds = blanks 48 (precision - int (length ds)) @ ds;
          head = num_sign type num @ num_prefix type base;
          fill = width - int (length (num_sign type num)) - int (length (num_prefix type base)) -
            int (length ds)
      in if has type LEFT then head @ ds @ blanks 32 fill
         else if has type ZEROPAD then head @ blanks 48 fill @ ds
         else blanks 32 fill @ head @ ds)"

text \<open>\<open>number\<close> writes this text.\<close>

lemma sign_steps:
  fixes type num :: u32 and k :: int
  defines "sg \<equiv> if has type PLUS then 43 else if has type SPACE then 32 else (0 :: u8)"
  assumes "\<not> (has type SIGN \<and> sint num < 0)"
  shows "(if sg \<noteq> 0 then put sg o' else o') = emit_text (num_sign type num) o'"
    and "- 2147483648 < k \<Longrightarrow> k < 2147483648 \<Longrightarrow> (if sg \<noteq> 0 then i32 (k - 1) else k) = k - int (length (num_sign type num))"
  unfolding num_sign_def if_not_P [OF assms(2)] sg_def by (simp_all add: put_emit i32_id)

lemma prefix_steps:
  "(if has type SPECIAL then if base = 8 then put 48 o' else if base = 16
      then put (if has type SMALL then 120 else 88) (put 48 o') else o' else o') =
    emit_text (num_prefix type base) o'"
  "- 2147483646 \<le> k \<Longrightarrow> k < 2147483648 \<Longrightarrow>
    (if has type SPECIAL then if base = 16 then i32 (k - 2) else if base = 8 then i32 (k - 1) else k else k) =
    k - int (length (num_prefix type base))"
  using emit_text_append [of "[48]" "[120]" o'] emit_text_append [of "[48]" "[88]" o']
  by (simp_all add: num_prefix_def put_emit i32_id)

lemma tmp_steps:
  fixes base :: u32 and small :: bool
  assumes "2 \<le> base" and "base \<le> 36"
  defines "tmp \<equiv> \<lambda>num. if num = 0 then [48] else num_tmp small base num"
  shows "rev (tmp num) = digit_text small (unat base) (unat num)"
    and "length (tmp num) = length (digit_text small (unat base) (unat num))"
proof -
  have "2 \<le> unat base" using assms(1) by (simp add: word_le_nat_alt)
  then have "digit_text small (unat base) 0 = [48]"
    by (simp add: digit_text_def num_text.simps [of "unat base" 0] digit_byte_def case_of_def)
  then show r: "rev (tmp num) = digit_text small (unat base) (unat num)"
    using num_tmp_text [OF assms(1,2)] by (cases "num = 0") (simp_all add: tmp_def)
  show "length (tmp num) = length (digit_text small (unat base) (unat num))"
    unfolding r [symmetric] by simp
qed

text \<open>The widths and precisions for which no sum of \<open>number\<close> wraps.\<close>

definition width_ok :: "int \<Rightarrow> bool" where
  "width_ok width \<longleftrightarrow> - 1 \<le> width \<and> width < 2147483648"

definition prec_ok :: "int \<Rightarrow> bool" where
  "prec_ok precision \<longleftrightarrow> - 1 \<le> precision \<and> precision < 2147483600"

lemma head_lengths: "length (num_sign type num) \<le> 1" "length (num_prefix type base) \<le> 2"
  by (simp_all add: num_sign_def num_prefix_def)

lemma length_digits_base:
  assumes "2 \<le> (base :: u32)" and "k < 4294967296"
  shows "length (digit_text small (unat base) k) \<le> 32"
proof -
  have "2 \<le> unat base" using assms(1) by (simp add: word_le_nat_alt)
  then have "(2 :: nat) ^ 32 \<le> unat base ^ 32" by (rule power_mono) simp
  then have "k < unat base ^ 32" using assms(2) by simp
  then show ?thesis unfolding length_digit_text by (rule length_num_text) simp
qed

lemma magnitude_less: "magnitude type num < 4294967296"
  using unat_lt_u32 [of num] unat_lt_u32 [of "- num"] by (simp add: magnitude_def)

lemma number_emit:
  assumes "2 \<le> base" and "base \<le> 36" and w: "width_ok width" and pr: "prec_ok precision"
  shows "number num base width precision type o' = emit_text (number_text num base width precision type) o'"
proof -
  let ?t = "if has type LEFT then type AND NOT ZEROPAD else type"
  have t: "has ?t ZEROPAD \<longleftrightarrow> has type ZEROPAD \<and> \<not> has type LEFT" "has ?t SIGN = has type SIGN"
    "has ?t PLUS = has type PLUS" "has ?t SPACE = has type SPACE" "has ?t LEFT = has type LEFT"
    "has ?t SPECIAL = has type SPECIAL"
    by (simp_all add: has_clear)
  have nb: "(base < 2 \<or> base > 36) = False" using assms by auto
  note tmp = tmp_steps [OF assms(1,2), where small = "has type SMALL"]
  let ?ds = "digit_text (has type SMALL) (unat base) (magnitude type num)"
  let ?p = "max precision (int (length ?ds))"
  let ?s = "width - int (length (num_sign type num))"
  let ?w = "?s - int (length (num_prefix type base))"
  have px: "num_prefix (type AND NOT ZEROPAD) base = num_prefix type base"
    by (simp add: num_prefix_def has_clear)
  have p: "(if int k > precision then int k else precision) = max precision (int k)" for k
    by simp
  have fill: "blanks 48 (precision - int k) = blanks 48 (max precision (int k) - int k)" for k
    by (simp add: max_def)
  have len: "int (length ?ds) \<le> 32" using length_digits_base [OF assms(1) magnitude_less] by simp
  have r: "- 1 \<le> width" "width < 2147483648" "- 1 \<le> precision" "precision < 2147483600"
    using w pr by (simp_all add: width_ok_def prec_ok_def)
  have hl: "int (length (num_sign type num)) \<le> 1" "int (length (num_prefix type base)) \<le> 2"
    using head_lengths [of type num] head_lengths(2) [of type base] by linarith+
  have pre: "(if has type SPECIAL then if base = 16 then i32 (?s - 2) else if base = 8 then i32 (?s - 1) else ?s else ?s) = ?w"
    by (rule prefix_steps(2)) (use r hl in linarith)+
  have sub: "i32 (?w - ?p) = ?w - ?p" by (rule i32_id) (use r hl len in linarith)+
  have S: "- 2147483640 < ?w - ?p" using r hl len by linarith
  define S where "S = ?w - ?p"
  have dist: "- 2147483640 < S" using S by (simp add: S_def)
  have pad: "put_to c 0 S o'' = (min 0 S - 1, emit_text (blanks c S) o'')"
    "put_to c 0 (min 0 S - 1) o'' = (min 0 S - 2, o'')" "put_to c 0 (min 0 S - 2) o'' = (min 0 S - 3, o'')" for c o''
    using dist by (subst put_to_emit; simp)+
  have zeros: "put_to 48 (int (length ?ds)) ?p o'' = (int (length ?ds) - 1, emit_text (blanks 48 (?p - int (length ?ds))) o'')" for o''
    using r len by (subst put_to_emit) simp_all
  show ?thesis
  proof (cases "has type SIGN \<and> sint num < 0")
    case True
    then have m: "magnitude type num = unat (- num)" and sg: "num_sign type num = [45]"
      by (simp_all add: magnitude_def num_sign_def)
    have sign: "put 45 o'' = emit_text (num_sign type num) o''" "i32 (width - 1) = ?s" for o''
      using r by (simp_all add: put_emit sg i32_id)
    have T: "(has type SIGN \<and> sint num < 0) = True" "((45 :: u8) \<noteq> 0) = True" using True by simp_all
    show ?thesis
      unfolding number_def number_text_def Let_def has_zero_left t nb T if_False if_True prod.case sign pre prefix_steps(1)
        put_rev_emit tmp p sub [unfolded m]
      by (cases "has type LEFT"; cases "has type ZEROPAD")
        (simp_all add: pad [unfolded S_def m length_digit_text] zeros [unfolded m length_digit_text] put_rev_emit
          emit_text_append fill px tmp m)
  next
    case False
    then have m: "magnitude type num = unat num" by (auto simp: magnitude_def)
    have ns: "(has type SIGN \<and> sint num < 0) = False" using False by blast
    have sz: "(if (if has type PLUS then 43 else if has type SPACE then 32 else (0 :: u8)) \<noteq> 0 then i32 (width - 1) else width) = ?s"
      by (rule sign_steps(2) [OF False]) (use r in linarith)+
    show ?thesis
      unfolding number_def number_text_def Let_def has_zero_left t nb ns if_False prod.case sz pre prefix_steps(1)
        put_rev_emit tmp p sub [unfolded m] sign_steps(1) [OF False]
      by (cases "has type LEFT"; cases "has type ZEROPAD")
        (simp_all add: pad [unfolded S_def m length_digit_text] zeros [unfolded m length_digit_text] put_rev_emit
          emit_text_append fill px tmp m sign_steps(1) [OF False] prefix_steps(1))
  qed
qed

text \<open>
  Beyond, the sum wraps: for \<^verbatim>\<open>"%+.2147483647d"\<close> the size is at its largest value when the padding starts, and
  2147483647 spaces precede the sign.
\<close>

lemma number_wraps:
  "number 7 10 (- 1) 2147483647 PLUS o' =
    emit_text (blanks 32 2147483647 @ [43] @ blanks 48 2147483646 @ [55]) o'"
proof -
  have f: "has PLUS PLUS" "\<not> has PLUS SIGN" "\<not> has PLUS LEFT" "\<not> has PLUS ZEROPAD" "\<not> has PLUS SPECIAL" "\<not> has PLUS SMALL"
    "\<not> has PLUS (ZEROPAD + LEFT)"
    by (simp_all add: has_def ZEROPAD_def SIGN_def PLUS_def SPACE_def LEFT_def SPECIAL_def SMALL_def)
  have i: "i32 (- 2) = - 2" "i32 (- 2147483649) = 2147483647" by (simp_all add: i32_def)
  have n: "num_tmp False 10 7 = [55]" by (simp add: num_tmp.simps [of False 10] digit_of_def)
  have pad: "put_to 32 0 2147483647 o'' = (- 1, emit_text (blanks 32 2147483647) o'')"
    "put_to 48 1 2147483647 o'' = (0, emit_text (blanks 48 2147483646) o'')"
    "put_to 32 0 (- 1) o'' = (- 2, o'')" "put_to 32 0 (- 2) o'' = (- 3, o'')" for o''
    by (subst put_to_emit; simp)+
  show ?thesis
    unfolding number_def Let_def
    by (simp add: f i n pad put_emit put_rev_emit flip: emit_text_append)
qed

section \<open>The text of characters and strings\<close>

definition char_text :: "u32 \<Rightarrow> u32 \<Rightarrow> int \<Rightarrow> u8 list" where
  "char_text a flags width =
     (if has flags LEFT then [ucast a] @ blanks 32 (width - 1) else blanks 32 (width - 1) @ [ucast a])"

lemma vs_char_emit:
  assumes "width_ok width"
  shows "vs_char a flags width o' = emit_text (char_text a flags width) o'"
proof -
  have w: "put_pre 32 width o'' = (min 0 (width - 1), emit_text (blanks 32 (width - 1)) o'')"
    "put_pre 32 (min 0 (width - 1)) o'' = (min 0 (min 0 (width - 1) - 1), o'')" for o''
    using assms by (subst put_pre_emit; simp add: width_ok_def)+
  show ?thesis
    unfolding vs_char_def char_text_def Let_def put_emit
    by (cases "has flags LEFT") (simp_all add: w emit_text_append del: append_Cons)
qed

definition string_text :: "u8 list \<Rightarrow> u32 \<Rightarrow> int \<Rightarrow> int \<Rightarrow> u8 list" where
  "string_text xs flags width precision =
     (let xs = (if precision < 0 then xs else take (nat precision) xs);
          fill = blanks 32 (width - int (length xs))
      in if has flags LEFT then xs @ fill else fill @ xs)"

lemma copy_up_put:
  assumes "\<And>j. j < length xs \<Longrightarrow> m (s + of_nat j) = xs ! j"
    and "\<And>j. j < length xs \<Longrightarrow> s + of_nat j \<notin> region d (length xs)"
  shows "copy_up d s (length xs) m = put_bytes d xs m"
  using assms
proof (induction xs arbitrary: d s m)
  case (Cons x xs)
  have x: "m s = x" using Cons.prems(1) [of 0] by simp
  have nd: "s + 1 + of_nat j \<noteq> d \<and> s + 1 + of_nat j \<notin> region (d + 1) (length xs)" if "j < length xs" for j
    using Cons.prems(2) [of "Suc j"] that by (simp add: region_Suc add.assoc)
  have "copy_up (d + 1) (s + 1) (length xs) (m(d := x)) = put_bytes (d + 1) xs (m(d := x))"
  proof (rule Cons.IH)
    fix j assume j: "j < length xs"
    show "(m(d := x)) (s + 1 + of_nat j) = xs ! j"
      using nd [OF j] Cons.prems(1) [of "Suc j"] j by (simp add: add.assoc)
    show "s + 1 + of_nat j \<notin> region (d + 1) (length xs)" using nd [OF j] by blast
  qed
  with x show ?case by simp
qed simp

lemma emit_unchanged: "x \<notin> region (fst o') (length xs) \<Longrightarrow> snd (emit_text xs o') x = snd o' x"
  by (simp add: emit_text_def put_bytes_outside)

lemma length_emit [simp]: "fst (emit_text xs o') = fst o' + of_nat (length xs)"
  by (simp add: emit_text_def)

lemma vs_string_emit:
  assumes "cstr (snd o') s xs" and w: "width_ok width" and l: "length xs < 2147483648"
    and dj: "region s (Suc (length xs)) \<inter> region (fst o') (length (string_text xs flags width precision)) = {}"
  shows "vs_string s flags width precision o' = Some (emit_text (string_text xs flags width precision) o')"
proof -
  define zs where "zs = (if precision < 0 then xs else take (nat precision) xs)"
  let ?len = "if precision < 0 then int (length xs)
    else if int (length xs) > precision then precision else int (length xs)"
  let ?text = "string_text xs flags width precision"
  have len: "?len = int (length zs)" by (auto simp: zs_def)
  have il: "i32 (int (length xs)) = int (length xs)" using l by (intro i32_id) simp_all
  have tx: "?text = (if has flags LEFT then zs @ blanks 32 (width - int (length zs))
      else blanks 32 (width - int (length zs)) @ zs)"
    by (simp add: string_text_def Let_def flip: zs_def)
  have z: "length zs \<le> length xs" "zs ! j = xs ! j" if "j < length zs" for j
    using that by (auto simp: zs_def)
  have copy: "(fst o'' + of_nat (length zs), copy_up (fst o'') s (length zs) (snd o'')) = emit_text zs o''"
    if "o'' = emit_text pad o'" and "length pad + length zs \<le> length ?text" for o'' pad
  proof -
    have sub: "region (fst o') (length pad) \<subseteq> region (fst o') (length ?text)"
      "region (fst o'') (length zs) \<subseteq> region (fst o') (length ?text)"
      using that region_mono region_shift [of "fst o'" "length pad" "length zs"]
      by (auto intro: region_mono [THEN subsetD])
    have s: "s + of_nat j \<in> region s (Suc (length xs))" if "j < length zs" for j
      using z(1) [OF that] that by (intro in_region) simp
    have "copy_up (fst o'') s (length zs) (snd o'') = put_bytes (fst o'') zs (snd o'')"
    proof (rule copy_up_put)
      fix j assume j: "j < length zs"
      show "s + of_nat j \<notin> region (fst o'') (length zs)" using s [OF j] sub(2) dj by blast
      have "snd o'' (s + of_nat j) = snd o' (s + of_nat j)"
        unfolding that(1) using s [OF j] sub(1) dj by (intro emit_unchanged) blast
      also have "\<dots> = xs ! j" using cstr_nth [OF assms(1), of j] j z(1) [OF j] by simp
      finally show "snd o'' (s + of_nat j) = zs ! j" using z(2) [OF j] by simp
    qed
    then show ?thesis by (simp add: emit_text_def)
  qed
  have vs: "vs_string s flags width precision o' = Some (
      let (width, o') = (if \<not> has flags LEFT then put_to 32 (int (length zs)) width o' else (width, o'));
          o' = (fst o' + of_int (int (length zs)), copy_up (fst o') s (nat (int (length zs))) (snd o'))
      in snd (put_to 32 (int (length zs)) width o'))"
    unfolding vs_string_def strlen_cstr [OF assms(1)] by (simp only: option.map Let_def il len)
  have zl: "int (length zs) < 2147483648" using l by (simp add: zs_def min_def)
  have pad: "put_to 32 (int (length zs)) width o'' =
      (min (int (length zs)) width - 1, emit_text (blanks 32 (width - int (length zs))) o'')"
    "put_to 32 (int (length zs)) (min (int (length zs)) width - 1) o'' = (min (int (length zs)) width - 2, o'')" for o''
    using w zl by (subst put_to_emit; auto simp: width_ok_def min_def)+
  show ?thesis
  proof (cases "has flags LEFT")
    case True
    from copy [of o' "[]"] True show ?thesis
      unfolding vs tx by (simp add: pad emit_text_append)
  next
    case False
    from copy [of "emit_text (blanks 32 (width - int (length zs))) o'", OF refl] False show ?thesis
      unfolding vs tx by (simp add: pad emit_text_append Let_def)
  qed
qed

section \<open>Formats\<close>

text \<open>
  The language of formats: literal bytes, an escaped percent sign, and directives with flag bytes,
  an optional width, an optional precision, an optional qualifier and a conversion letter.
\<close>

datatype item = Lit u8 | Percent
  | Dir (dflags: "u8 list") (dwidth: "nat option") (dprec: "nat option") (dqual: "u8 list") (dconv: u8)

definition width_chars :: "nat option \<Rightarrow> u8 list" where
  "width_chars w = (case w of None \<Rightarrow> [] | Some k \<Rightarrow> num_text 10 k)"

definition prec_chars :: "nat option \<Rightarrow> u8 list" where
  "prec_chars w = (case w of None \<Rightarrow> [] | Some k \<Rightarrow> 46 # num_text 10 k)"

fun item_chars :: "item \<Rightarrow> u8 list" where
  "item_chars (Lit c) = [c]"
| "item_chars Percent = [37, 37]"
| "item_chars (Dir fl w p q c) = 37 # fl @ width_chars w @ prec_chars p @ q @ [c]"

definition flag_chars :: "u8 set" where "flag_chars = {45, 43, 32, 35, 48}"

definition conv_chars :: "u8 set" where
  "conv_chars = {99, 115, 111, 112, 120, 88, 100, 105, 117}"

fun wf_item :: "item \<Rightarrow> bool" where
  "wf_item (Lit c) \<longleftrightarrow> c \<noteq> 0 \<and> c \<noteq> 37"
| "wf_item Percent \<longleftrightarrow> True"
| "wf_item (Dir fl w p q c) \<longleftrightarrow> set fl \<subseteq> flag_chars \<and>
     (\<forall>k. w = Some k \<longrightarrow> 0 < k \<and> k < 2147483648) \<and> (\<forall>k. p = Some k \<longrightarrow> k < 2147483600) \<and>
     (q = [] \<or> q = [104] \<or> q = [108] \<or> q = [76]) \<and> c \<in> conv_chars"

definition flag_bit :: "u8 \<Rightarrow> u32" where
  "flag_bit c = (if c = 45 then LEFT else if c = 43 then PLUS else if c = 32 then SPACE
     else if c = 35 then SPECIAL else ZEROPAD)"

definition flag_bits :: "u8 list \<Rightarrow> u32" where
  "flag_bits fl = foldl (\<lambda>f c. f OR flag_bit c) 0 fl"

text \<open>The text of a conversion of the word \<open>a\<close>; \<open>str\<close> gives the strings the words point to.\<close>

definition conv_text :: "(u32 \<Rightarrow> u8 list) \<Rightarrow> u32 \<Rightarrow> u32 \<Rightarrow> int \<Rightarrow> int \<Rightarrow> u8 \<Rightarrow> u8 list" where
  "conv_text str a flags width precision c =
     (if c = 99 then char_text a flags width
      else if c = 115 then string_text (str a) flags width precision
      else if c = 111 then number_text a 8 width precision flags
      else if c = 112 then number_text a 16 (if width = - 1 then 8 else width) precision
        (if width = - 1 then flags OR ZEROPAD else flags)
      else if c = 120 then number_text a 16 width precision (flags OR SMALL)
      else if c = 88 then number_text a 16 width precision flags
      else if c = 117 then number_text a 10 width precision flags
      else number_text a 10 width precision (flags OR SIGN))"

definition opt_int :: "nat option \<Rightarrow> int" where
  "opt_int w = (case w of None \<Rightarrow> - 1 | Some k \<Rightarrow> int k)"

fun item_text :: "(u32 \<Rightarrow> u8 list) \<Rightarrow> u32 \<Rightarrow> item \<Rightarrow> u8 list" where
  "item_text str a (Lit c) = [c]"
| "item_text str a Percent = [37]"
| "item_text str a (Dir fl w p q c) = conv_text str a (flag_bits fl) (opt_int w) (opt_int p) c"

fun takes :: "item \<Rightarrow> nat" where
  "takes (Dir fl w p q c) = 1"
| "takes _ = 0"

primrec format_text :: "(u32 \<Rightarrow> u8 list) \<Rightarrow> (nat \<Rightarrow> u32) \<Rightarrow> nat \<Rightarrow> item list \<Rightarrow> u8 list" where
  "format_text str args n [] = []"
| "format_text str args n (i # is) = item_text str (args n) i @ format_text str args (n + takes i) is"

definition format_chars :: "item list \<Rightarrow> u8 list" where
  "format_chars is = concat (map item_chars is)"

section \<open>Reading a directive\<close>

lemma digits_num_text: "digits (num_text 10 k)"
proof (induction "10 :: nat" k rule: num_text.induct)
  case (1 k)
  have "unat (digit_byte (k mod 10)) = 48 + k mod 10"
    by (subst unat_digit_byte) simp_all
  then have d: "48 \<le> unat (digit_byte (k mod 10)) \<and> unat (digit_byte (k mod 10)) \<le> 57" by simp
  show ?case
    using 1 d by (cases "10 \<le> k") (simp_all add: num_text.simps [of 10 k] digits_def)
qed

lemma is_digit_iff: "is_digit c \<longleftrightarrow> 48 \<le> unat c \<and> unat c \<le> 57"
  using isdigit_byte [of c] by (auto simp: is_digit_def isdigit_def split: if_splits)

lemma vs_skip_atoi_digits:
  assumes "digits ds" and "cstr m s (ds @ rest)" and "rest = [] \<or> \<not> is_digit (hd rest)"
  shows "vs_skip_atoi m (of_nat v) s =
    Some (of_nat (foldl (\<lambda>v c. v * 10 + byte_digit c) v ds), s + of_nat (length ds))"
  using assms
proof (induction ds arbitrary: s v)
  case Nil
  have "\<not> is_digit (m s)"
    using Nil.prems(2,3) by (cases rest) (auto simp: is_digit_iff)
  then show ?case by (simp add: vs_skip_atoi.simps [of m _ s])
next
  case (Cons c ds)
  have c: "m s = c" "48 \<le> unat c" "unat c \<le> 57" using Cons.prems(1,2) by simp_all
  have "of_nat v * 10 + (scast c :: u32) - 48 = of_nat v * 10 + (scast c - 48)" by simp
  also have "\<dots> = of_nat (v * 10 + byte_digit c)" using digit_value [OF c(2,3)] by simp
  finally have e: "of_nat v * 10 + (scast c :: u32) - 48 = of_nat (v * 10 + byte_digit c)" .
  have "is_digit c" using c by (simp add: is_digit_iff)
  then have "vs_skip_atoi m (of_nat v) s = vs_skip_atoi m (of_nat (v * 10 + byte_digit c)) (s + 1)"
    by (simp only: vs_skip_atoi.simps [of m _ s] if_True e c(1))
  also have "\<dots> = Some (of_nat (foldl (\<lambda>v c. v * 10 + byte_digit c) (v * 10 + byte_digit c) ds),
      s + 1 + of_nat (length ds))"
    by (rule Cons.IH) (use Cons.prems in simp_all)
  finally show ?case by (simp add: algebra_simps)
qed

lemma vs_skip_atoi_num:
  assumes "cstr m s (num_text 10 k @ rest)" and "rest = [] \<or> \<not> is_digit (hd rest)"
  shows "vs_skip_atoi m 0 s = Some (of_nat k, s + of_nat (length (num_text 10 k)))"
  using vs_skip_atoi_digits [OF digits_num_text assms, of 0] text_val_num_text [of 10 k]
  by (simp add: text_val_def)

lemma num_text_is_digit: "is_digit (hd (num_text 10 k))"
  using digits_num_text [of k] num_text_not_Nil [of 10 k]
  by (cases "num_text 10 k") (auto simp: is_digit_iff)

lemma vs_flags_chars:
  assumes "set fl \<subseteq> flag_chars" and "cstr m (p + 1) (fl @ rest)" and "rest \<noteq> []" and "hd rest \<notin> flag_chars"
  shows "vs_flags m f p = Some (foldl (\<lambda>f c. f OR flag_bit c) f fl, p + 1 + of_nat (length fl))"
  using assms
proof (induction fl arbitrary: f p)
  case Nil
  then have "m (p + 1) \<notin> flag_chars" by (cases rest) auto
  then show ?case by (simp add: vs_flags.simps [of m f p] flag_chars_def)
next
  case (Cons c fl)
  have "vs_flags m f p = vs_flags m (f OR flag_bit c) (p + 1)"
    using Cons.prems(1,2) by (auto simp: vs_flags.simps [of m f p] flag_chars_def flag_bit_def)
  also have "\<dots> = Some (foldl (\<lambda>f c. f OR flag_bit c) (f OR flag_bit c) fl, p + 1 + 1 + of_nat (length fl))"
    by (rule Cons.IH) (use Cons.prems in simp_all)
  finally show ?case by (simp add: algebra_simps)
qed

lemma num_text_hd_flag: "0 < k \<Longrightarrow> hd (num_text 10 k) \<notin> flag_chars"
  using num_text_is_digit [of k] num_text_hd [of 10 k] by (auto simp: is_digit_iff flag_chars_def)

lemma sint_of_nat_small: "k < 2147483648 \<Longrightarrow> sint (of_nat k :: u32) = int k"
  using sint_of_int_small [of "int k"] by simp

lemma conv_char_facts:
  assumes "q = [] \<or> q = [104] \<or> q = [108] \<or> q = [76]" and "c \<in> conv_chars"
  shows "q @ c # rest \<noteq> []" and "\<not> is_digit (hd (q @ c # rest))" and "hd (q @ c # rest) \<notin> flag_chars"
    and "hd (q @ c # rest) \<noteq> 42" and "hd (q @ c # rest) \<noteq> 46" and "c \<noteq> 0"
  using assms by (auto simp: conv_chars_def flag_chars_def is_digit_iff)

text \<open>One step of the parse: what precedes a conversion is a width, a precision or a qualifier.\<close>

lemma vs_width_chars:
  assumes "cstr m p (width_chars w @ rest)" and "rest \<noteq> []" and "\<not> is_digit (hd rest)" and "hd rest \<noteq> 42"
    and "\<forall>k. w = Some k \<longrightarrow> k < 2147483648"
  shows "vs_width m args n f p = Some (f, opt_int w, p + of_nat (length (width_chars w)), n)"
proof (cases w)
  case None
  then have "m p = hd rest" using assms(1,2) by (cases rest) (auto simp: width_chars_def)
  with None assms show ?thesis by (simp add: vs_width_def opt_int_def width_chars_def)
next
  case (Some k)
  then have c: "cstr m p (num_text 10 k @ rest)" using assms(1) by (simp add: width_chars_def)
  then have "is_digit (m p)"
    using num_text_is_digit [of k] num_text_not_Nil [of 10 k] by (cases "num_text 10 k") auto
  then show ?thesis
    using vs_skip_atoi_num [OF c] assms(3,5) Some
    by (simp add: vs_width_def opt_int_def width_chars_def sint_of_nat_small)
qed

lemma vs_precision_chars:
  assumes "cstr m p (prec_chars w @ rest)" and "rest \<noteq> []" and "\<not> is_digit (hd rest)" and "hd rest \<noteq> 46"
    and "\<forall>k. w = Some k \<longrightarrow> k < 2147483648"
  shows "vs_precision m args n p = Some (opt_int w, p + of_nat (length (prec_chars w)), n)"
proof (cases w)
  case None
  then have "m p = hd rest" using assms(1,2) by (cases rest) (auto simp: prec_chars_def)
  with None assms show ?thesis by (simp add: vs_precision_def opt_int_def prec_chars_def)
next
  case (Some k)
  then have c: "m p = 46" "cstr m (p + 1) (num_text 10 k @ rest)" using assms(1) by (simp_all add: prec_chars_def)
  then have "is_digit (m (p + 1))"
    using num_text_is_digit [of k] num_text_not_Nil [of 10 k] by (cases "num_text 10 k") auto
  then show ?thesis
    using vs_skip_atoi_num [OF c(2)] assms(3,5) Some c(1)
    by (simp add: vs_precision_def opt_int_def prec_chars_def sint_of_nat_small)
qed

lemma vs_qualifier_chars:
  assumes "cstr m p (q @ c # rest)" and "q = [] \<or> q = [104] \<or> q = [108] \<or> q = [76]" and "c \<in> conv_chars"
  shows "vs_qualifier m p = p + of_nat (length q)"
  using assms by (auto simp: vs_qualifier_def conv_chars_def)

lemma vs_convert_emit:
  assumes "snd o' p = c" and "c \<in> conv_chars" and "width_ok width" and "prec_ok precision"
    and "c = 115 \<Longrightarrow> length (str (args n)) < 2147483648"
    and "c = 115 \<Longrightarrow> cstr (snd o') (args n) (str (args n))"
    and "c = 115 \<Longrightarrow> region (args n) (Suc (length (str (args n)))) \<inter>
      region (fst o') (length (conv_text str (args n) f width precision c)) = {}"
  shows "vs_convert buf args f width precision p n o' =
    Some (p, Suc n, emit_text (conv_text str (args n) f width precision c) o')"
  using assms vs_string_emit [of o' "args n" "str (args n)" width f precision]
  by (auto simp: vs_convert_def conv_text_def conv_chars_def vs_char_emit number_emit width_ok_def)

lemma vs_directive_emit:
  assumes wf: "wf_item (Dir fl w p q c)" and fmt: "cstr (snd o') a (item_chars (Dir fl w p q c) @ rest)"
    and str: "c = 115 \<Longrightarrow> cstr (snd o') (args n) (str (args n))" "c = 115 \<Longrightarrow> length (str (args n)) < 2147483648"
    and dj: "c = 115 \<Longrightarrow> region (args n) (Suc (length (str (args n)))) \<inter>
      region (fst o') (length (item_text str (args n) (Dir fl w p q c))) = {}"
  shows "vs_directive buf args n a o' =
    Some (a + of_nat (length (item_chars (Dir fl w p q c)) - 1), Suc n,
      emit_text (item_text str (args n) (Dir fl w p q c)) o')"
proof -
  let ?m = "snd o'"
  let ?r3 = "q @ c # rest" and ?f = "foldl (\<lambda>f c. f OR flag_bit c) 0 fl"
  let ?r2 = "prec_chars p @ ?r3"
  let ?r1 = "width_chars w @ ?r2"
  note cf = conv_char_facts [of q c]
  have q: "q = [] \<or> q = [104] \<or> q = [108] \<or> q = [76]" "c \<in> conv_chars" using wf by simp_all
  have r2: "?r2 \<noteq> []" "\<not> is_digit (hd ?r2)" "hd ?r2 \<notin> flag_chars" "hd ?r2 \<noteq> 42"
    using cf q by (cases p; simp add: prec_chars_def is_digit_iff flag_chars_def)+
  have r1: "?r1 \<noteq> []" "hd ?r1 \<notin> flag_chars"
    using r2 wf num_text_hd_flag by (cases w; auto simp: width_chars_def)+
  let ?p1 = "a + 1 + of_nat (length fl)"
  let ?p2 = "?p1 + of_nat (length (width_chars w))"
  let ?p3 = "?p2 + of_nat (length (prec_chars p))"
  have c1: "cstr ?m (a + 1) (fl @ ?r1)" using fmt by simp
  have c2: "cstr ?m ?p1 ?r1" using cstr_drop [OF c1, of "length fl"] by simp
  have c3: "cstr ?m ?p2 ?r2" using cstr_drop [OF c2, of "length (width_chars w)"] by simp
  have c4: "cstr ?m ?p3 ?r3" using cstr_drop [OF c3, of "length (prec_chars p)"] by simp
  have c5: "cstr ?m (?p3 + of_nat (length q)) (c # rest)" using cstr_drop [OF c4, of "length q"] by simp
  have s1: "vs_flags ?m 0 a = Some (?f, ?p1)"
    using wf by (intro vs_flags_chars [OF _ c1 r1]) simp
  have s2: "vs_width ?m args n ?f ?p1 = Some (?f, opt_int w, ?p2, n)"
    using wf by (intro vs_width_chars [OF c2 r2(1,2,4)]) simp
  have s3: "vs_precision ?m args n ?p2 = Some (opt_int p, ?p3, n)"
    using wf cf q by (intro vs_precision_chars [OF c3]) auto
  have wp: "width_ok (opt_int w)" "prec_ok (opt_int p)"
    using wf by (auto simp: width_ok_def prec_ok_def opt_int_def split: option.splits)
  have s4: "vs_qualifier ?m ?p3 = ?p3 + of_nat (length q)"
    by (rule vs_qualifier_chars [OF c4 q])
  have s5: "vs_convert buf args ?f (opt_int w) (opt_int p) (?p3 + of_nat (length q)) n o' =
      Some (?p3 + of_nat (length q), Suc n, emit_text (conv_text str (args n) ?f (opt_int w) (opt_int p) c) o')"
    using c5 q(2) str dj wp by (intro vs_convert_emit) (simp_all add: flag_bits_def)
  have ptr: "?p3 + of_nat (length q) = a + of_nat (length (item_chars (Dir fl w p q c)) - 1)" by simp
  note s5 = s5 [unfolded ptr]
  show ?thesis
    unfolding vs_directive_def by (simp only: s1 s2 s3 s4 s5 Option.bind_lunit prod.case item_text.simps flag_bits_def ptr)
qed

section \<open>The loop\<close>

text \<open>The strings a format prints, outside the bytes \<open>D\<close> that are written.\<close>

primrec strings_ok :: "u32 set \<Rightarrow> mem \<Rightarrow> (u32 \<Rightarrow> u8 list) \<Rightarrow> (nat \<Rightarrow> u32) \<Rightarrow> nat \<Rightarrow> item list \<Rightarrow> bool" where
  "strings_ok D m str args n [] \<longleftrightarrow> True"
| "strings_ok D m str args n (i # is) \<longleftrightarrow>
     (case i of Dir fl w p q c \<Rightarrow> c = 115 \<longrightarrow> cstr m (args n) (str (args n)) \<and>
        length (str (args n)) < 2147483648 \<and> region (args n) (Suc (length (str (args n)))) \<inter> D = {} | _ \<Rightarrow> True) \<and>
     strings_ok D m str args (n + takes i) is"

lemma format_chars_simps [simp]:
  "format_chars [] = []" "format_chars (i # is) = item_chars i @ format_chars is"
  by (simp_all add: format_chars_def)

lemma cstr_agree:
  assumes "\<And>x. x \<notin> D \<Longrightarrow> m' x = m x" and "region s (Suc (length xs)) \<inter> D = {}" and "cstr m s xs"
  shows "cstr m' s xs"
proof -
  have "m x = m' x" if "x \<in> region s (Suc (length xs))" for x
  proof -
    have "x \<notin> D" using that assms(2) by blast
    then show ?thesis by (simp add: assms(1))
  qed
  from cstr_cong [OF this] assms(3) show ?thesis by simp
qed

lemma vs_loop_items:
  assumes "\<And>x. x \<notin> D \<Longrightarrow> snd o' x = m x"
    and "region (fst o') (length (format_text str args n is)) \<subseteq> D"
    and "cstr m p (format_chars is)" and "region p (Suc (length (format_chars is))) \<inter> D = {}"
    and "strings_ok D m str args n is" and "\<forall>i\<in>set is. wf_item i"
  shows "vs_loop buf args n p o' = Some (emit_text (format_text str args n is) o')"
  using assms
proof (induction "is" arbitrary: n p o')
  case Nil
  have "cstr (snd o') p []" by (rule cstr_agree [OF Nil.prems(1)]) (use Nil.prems in simp_all)
  then show ?case by (simp add: vs_loop.simps [of buf args n p])
next
  case (Cons i "is")
  let ?t = "item_text str (args n) i"
  have cs: "cstr (snd o') p (format_chars (i # is))"
    by (rule cstr_agree [OF Cons.prems(1,4,3)])
  have sub: "region (fst o') (length ?t) \<subseteq> D"
    "region (fst o' + of_nat (length ?t)) (length (format_text str args (n + takes i) is)) \<subseteq> D"
    using Cons.prems(2) region_mono [of "length ?t" "length (format_text str args n (i # is))" "fst o'"]
      region_shift [of "fst o'" "length ?t"] by auto
  let ?o = "emit_text ?t o'" and ?p = "p + of_nat (length (item_chars i))"
  have next': "vs_loop buf args (n + takes i) ?p ?o = Some (emit_text (format_text str args (n + takes i) is) ?o)"
  proof (rule Cons.IH)
    show "snd ?o x = m x" if "x \<notin> D" for x
      using emit_unchanged [of x o' ?t] sub(1) Cons.prems(1) that by auto
    show "cstr m ?p (format_chars is)"
      using cstr_drop [OF Cons.prems(3), of "length (item_chars i)"] by simp
    show "region ?p (Suc (length (format_chars is))) \<inter> D = {}"
      using Cons.prems(4) region_shift [of p "length (item_chars i)" "Suc (length (format_chars is))"] by auto
  qed (use Cons.prems sub in simp_all)
  have "vs_loop buf args n p o' = vs_loop buf args (n + takes i) ?p ?o"
  proof (cases i)
    case (Lit c)
    with cs Cons.prems(6) show ?thesis by (simp add: vs_loop.simps [of buf args n p] put_emit)
  next
    case Percent
    have "snd (put 37 o') (p + 1) = snd o' (p + 1)"
    proof -
      have "p + 1 \<notin> D" using Cons.prems(4) in_region [of 1 _ p] Percent by auto
      then have "p + 1 \<noteq> fst o'" using sub(1) Percent in_region [of 0 1 "fst o'"] by auto
      then show ?thesis by (simp add: put_def)
    qed
    with cs Percent show ?thesis
      by (simp add: vs_loop.simps [of buf args n p] vs_directive_def vs_flags.simps [of _ _ p] vs_width_def
        is_digit_iff vs_precision_def vs_qualifier_def vs_convert_def put_emit add.assoc)
  next
    case (Dir fl w pr q c)
    have "vs_directive buf args n p o' = Some (p + of_nat (length (item_chars i) - 1), Suc n, ?o)"
      unfolding Dir
    proof (rule vs_directive_emit)
      show "wf_item (Dir fl w pr q c)" using Cons.prems(6) Dir by simp
      show "cstr (snd o') p (item_chars (Dir fl w pr q c) @ format_chars is)" using cs Dir by simp
      show "cstr (snd o') (args n) (str (args n))" if "c = 115"
        by (rule cstr_agree [OF Cons.prems(1)]) (use Cons.prems(5) Dir that in auto)
      show "length (str (args n)) < 2147483648" if "c = 115" using Cons.prems(5) Dir that by simp
      show "region (args n) (Suc (length (str (args n)))) \<inter>
          region (fst o') (length (item_text str (args n) (Dir fl w pr q c))) = {}" if "c = 115"
        using Cons.prems(5) sub(1) Dir that by auto
    qed
    moreover have "snd o' p = 37" using cs Dir by simp
    moreover have "p + of_nat (length (item_chars i) - 1) + 1 = ?p" "takes i = 1" using Dir by simp_all
    moreover have "(37 :: u8) \<noteq> 0" by simp
    ultimately show ?thesis
      by (simp only: vs_loop.simps [of buf args n p] if_False Option.bind_lunit prod.case not_True_eq_False simp_thms
        Suc_eq_plus1)
  qed
  then show ?case using next' by (simp add: emit_text_append)
qed

lemma vsprintf_lemma:
  fixes str args "is"
  defines "t \<equiv> format_text str args 0 is"
  assumes "cstr m fmt (format_chars is)" and "\<forall>i\<in>set is. wf_item i"
    and "region fmt (Suc (length (format_chars is))) \<inter> region buf (length t) = {}"
    and "strings_ok (region buf (length t)) m str args 0 is"
  shows "vsprintf buf fmt args m = Some (of_nat (length t), put_bytes buf (t @ [0]) m)"
    and "sprintf buf fmt args m = Some (put_bytes buf (t @ [0]) m)"
proof -
  have "vs_loop buf args 0 fmt (buf, m) = Some (emit_text t (buf, m))"
    unfolding t_def using assms by (intro vs_loop_items [of "region buf (length t)" _ m]) simp_all
  then show "vsprintf buf fmt args m = Some (of_nat (length t), put_bytes buf (t @ [0]) m)"
    by (simp add: vsprintf_def emit_text_def put_bytes_append)
  then show "sprintf buf fmt args m = Some (put_bytes buf (t @ [0]) m)" by (simp add: sprintf_def)
qed

section \<open>Properties\<close>

text \<open>
  Property C26. \<open>vsprintf\<close> and \<open>sprintf\<close>: for every well-formed format whose bytes and strings lie outside the
  output area, the call returns, reports the length of the text and writes exactly the text and a
  terminator: literal bytes, and for each directive the argument with sign, prefix, precision, padding
  and justification as requested.
\<close>

theorem vsprintf_correct:
  fixes str args "is"
  defines "t \<equiv> format_text str args 0 is"
  assumes "cstr m fmt (format_chars is)" and "\<forall>i\<in>set is. wf_item i"
    and "region fmt (Suc (length (format_chars is))) \<inter> region buf (length t) = {}"
    and "strings_ok (region buf (length t)) m str args 0 is"
  shows "vsprintf buf fmt args m = Some (of_nat (length t), put_bytes buf (t @ [0]) m) \<and>
    sprintf buf fmt args m = Some (put_bytes buf (t @ [0]) m)"
  using vsprintf_lemma [of m fmt "is" buf str args] assms by simp

theorem vsprintf_correct_witness:
  "sprintf 0x200 0x100 (\<lambda>_. - 7) (put_bytes 0x100 [120, 37, 52, 100, 37, 37, 0] (\<lambda>_. 0)) =
    Some (put_bytes 0x200 [120, 32, 32, 45, 55, 37, 0] (put_bytes 0x100 [120, 37, 52, 100, 37, 37, 0] (\<lambda>_. 0)))"
proof -
  let ?m = "put_bytes 0x100 [120, 37, 52, 100, 37, 37, 0] (\<lambda>_. 0)"
  have c: "cstr ?m 0x100 [120, 37, 52, 100, 37, 37]" by simp
  let ?is = "[Lit 120, Dir [] (Some 4) None [] 100, Percent]"
  have n4: "num_text 10 4 = [52]" by (simp add: num_text.simps digit_byte_def)
  have n7: "num_text 10 7 = [55]" by (simp add: num_text.simps digit_byte_def)
  have b2: "blanks 32 2 = [32, 32]" by (simp add: blanks_def numeral_2_eq_2)
  have t: "format_text (\<lambda>_. []) (\<lambda>_. - 7) 0 ?is = [120, 32, 32, 45, 55, 37]"
    by (simp add: conv_text_def flag_bits_def opt_int_def number_text_def num_sign_def num_prefix_def magnitude_def
        has_def SIGN_def SPECIAL_def SMALL_def LEFT_def ZEROPAD_def digit_text_def case_of_def n7 b2)
  have f: "format_chars ?is = [120, 37, 52, 100, 37, 37]"
    by (simp add: width_chars_def prec_chars_def n4)
  have dj: "region 0x100 (Suc (length (format_chars ?is))) \<inter>
      region 0x200 (length (format_text (\<lambda>_. []) (\<lambda>_. - 7) 0 ?is)) = {}"
    unfolding t f by (simp add: region_def lessThan_Suc)
  have w: "\<forall>i\<in>set ?is. wf_item i" by (simp add: conv_chars_def)
  have "strings_ok D ?m (\<lambda>_. []) (\<lambda>_. - 7) 0 ?is" for D by simp
  from vsprintf_correct [OF _ w dj this] c show ?thesis
    unfolding t f by (simp only: append.simps simp_thms)
qed

text \<open>
  Property C27. Round trip through text: what \<open>sprintf\<close> prints for \<^verbatim>\<open>"%d"\<close> is read back by \<open>atoi\<close>
  as the same number, for every 32-bit integer, the smallest one included.
\<close>

theorem sprintf_atoi:
  assumes "cstr m fmt [37, 100]" and "region fmt 3 \<inter> region buf 11 = {}"
  shows "\<exists>m'. sprintf buf fmt args m = Some m' \<and> atoi m' buf = Some (args 0)"
proof -
  let ?k = "args 0"
  let ?is = "[Dir [] None None [] 100]"
  let ?mag = "magnitude SIGN ?k"
  let ?sg = "if sint ?k < 0 then [45] else [] :: u8 list"
  have nt: "digit_text False 10 j = num_text 10 j" for j
    using digits_num_text [of j] by (auto simp: digit_text_def case_of_def digits_def intro!: map_idI)
  have t: "format_text (\<lambda>_. []) args 0 ?is = ?sg @ num_text 10 ?mag"
    by (simp add: conv_text_def flag_bits_def opt_int_def number_text_def num_sign_def num_prefix_def
        has_def SIGN_def SPECIAL_def SMALL_def LEFT_def ZEROPAD_def PLUS_def SPACE_def nt)
  have f: "format_chars ?is = [37, 100]" by (simp add: width_chars_def prec_chars_def)
  have mag: "?mag < 10 ^ 10"
    using unat_lt_u32 [of ?k] unat_lt_u32 [of "- ?k"] by (simp add: magnitude_def)
  then have "length (num_text 10 ?mag) \<le> 10" by (rule length_num_text) simp
  then have len: "length (?sg @ num_text 10 ?mag) \<le> 11" by simp
  then have "region buf (length (?sg @ num_text 10 ?mag)) \<subseteq> region buf 11" by (rule region_mono)
  then have dj: "region fmt (Suc (length (format_chars ?is))) \<inter>
      region buf (length (format_text (\<lambda>_. []) args 0 ?is)) = {}"
  proof -
    have "Suc (length [37, 100 :: u8]) = 3" by simp
    with \<open>region buf (length (?sg @ num_text 10 ?mag)) \<subseteq> region buf 11\<close> assms(2) show ?thesis
      unfolding t f by (simp only:) blast
  qed
  have run: "sprintf buf fmt args m = Some (put_bytes buf ((?sg @ num_text 10 ?mag) @ [0]) m)"
    using vsprintf_lemma [OF _ _ dj, of m] assms(1) unfolding t f by (simp add: conv_chars_def)
  have nz: "0 \<notin> set (?sg @ num_text 10 ?mag)" using num_text_nonzero [of 10 ?mag] by simp
  have "cstr (put_bytes buf ((?sg @ num_text 10 ?mag) @ [0]) m) buf (?sg @ num_text 10 ?mag)"
    by (rule put_bytes_cstr [OF nz]) (use len in simp)
  from atoi_digits [OF digits_num_text this] have
    "atoi (put_bytes buf ((?sg @ num_text 10 ?mag) @ [0]) m) buf =
      Some (if sint ?k < 0 then - of_nat ?mag else of_nat ?mag)"
    using text_val_num_text [of 10 ?mag] by (simp split: if_splits)
  moreover have "(if sint ?k < 0 then - of_nat ?mag else of_nat ?mag) = ?k"
    by (simp add: magnitude_def has_def SIGN_def)
  ultimately show ?thesis using run by simp
qed

theorem sprintf_atoi_witness:
  "\<exists>m'. sprintf 0x200 0x100 (\<lambda>_. 0x80000000) (put_bytes 0x100 [37, 100, 0] (\<lambda>_. 0)) = Some m' \<and>
    atoi m' 0x200 = Some 0x80000000"
proof -
  have c: "cstr (put_bytes 0x100 [37, 100, 0] (\<lambda>_. 0)) 0x100 [37, 100]" by simp
  have "region 0x100 3 \<inter> region 0x200 11 = {}"
    by (simp add: region_def lessThan_nat_numeral lessThan_Suc)
  from sprintf_atoi [OF c this, of "\<lambda>_. 0x80000000"] show ?thesis .
qed

end
