(* ===== verification/Stdio.thy ===== *)
theory Stdio
  imports Screen Vsprintf Vesa
begin

text \<open>
  The formatted printing calls over \<open>vsprintf\<close> (\<^verbatim>\<open>printf\<close> and \<^verbatim>\<open>fprintf\<close> of \<^verbatim>\<open>lib/stdio.c\<close>, \<^verbatim>\<open>vesa_printf\<close> of
  \<^verbatim>\<open>vesa.c\<close>) and the stream routines of \<^verbatim>\<open>lib/stdio.c\<close>, whose system calls are commented out.
  What such a routine returns without setting it is a parameter.
\<close>

section \<open>Printing\<close>

text \<open>
  \<open>buf\<close> is the address of the local buffer; the expanded text is passed as the \<^emph>\<open>format\<close> of
  \<open>screen_printf\<close>, whose arguments are then the stack words \<open>junk\<close>; \<open>itoa_buf\<close> and \<open>null_str\<close> are the
  addresses that routine uses. The buffers of \<open>printf\<close> and \<open>vesa_printf\<close> have 1024 bytes and \<open>vsprintf\<close> does not
  know it: a text that does not fit with its terminator has overwritten the frame of the call, return address
  included. None is a call that does not come back, because of such a text or because the format has no end.
\<close>

definition PRINTF_BUF :: nat where "PRINTF_BUF = 1024"

definition printf :: "u32 \<Rightarrow> (nat \<Rightarrow> u32) \<Rightarrow> u32 \<Rightarrow> u32 \<Rightarrow> u32 \<Rightarrow> (nat \<Rightarrow> u32) \<Rightarrow> screen \<Rightarrow> screen option" where
  "printf buf junk itoa_buf null_str format args s =
     Option.bind (vsprintf buf format args (vmem s)) (\<lambda>(i, m).
       if unat i < PRINTF_BUF then screen_printf itoa_buf null_str junk 0 buf (s\<lparr>vmem := m\<rparr>) else None)"

definition vfprintf :: "u32 \<Rightarrow> u32 \<Rightarrow> int" where
  "vfprintf format arg = 10"

definition vprintf :: "u32 \<Rightarrow> u32 \<Rightarrow> int" where
  "vprintf format arg = vfprintf format arg"

text \<open>
  \<open>fprintf\<close> calls \<open>vfprintf\<close>, which prints nothing, and then \<open>screen_printf\<close> with the argument pointer
  \<open>ap\<close> itself as the only argument.
\<close>

definition fprintf :: "(nat \<Rightarrow> u32) \<Rightarrow> u32 \<Rightarrow> u32 \<Rightarrow> u32 \<Rightarrow> u32 \<Rightarrow> screen \<Rightarrow> screen option" where
  "fprintf junk itoa_buf null_str format ap s =
     (let rc = vfprintf format ap
      in screen_printf itoa_buf null_str (\<lambda>n. if n = 0 then ap else junk n) 0 format s)"

text \<open>\<open>perror\<close> with the address \<open>ap\<close> of its two arguments; \<open>fmt\<close> is the literal \<^verbatim>\<open>"%s: %s\n"\<close>.\<close>

definition perror :: "(nat \<Rightarrow> u32) \<Rightarrow> u32 \<Rightarrow> u32 \<Rightarrow> u32 \<Rightarrow> u32 \<Rightarrow> screen \<Rightarrow> screen option" where
  "perror junk itoa_buf null_str fmt ap s = fprintf junk itoa_buf null_str fmt ap s"

definition vesa_printf :: "u32 \<Rightarrow> int \<Rightarrow> int \<Rightarrow> u32 \<Rightarrow> (nat \<Rightarrow> u32) \<Rightarrow> vesa \<Rightarrow> vesa option" where
  "vesa_printf buf x y fmt args s =
     Option.bind (vsprintf buf fmt args (vm s)) (\<lambda>(i, m).
       if unat i < PRINTF_BUF then vesa_draw_string x y buf (s\<lparr>vm := m\<rparr>) else None)"

section \<open>Streams\<close>

record FILE =
  file_eof :: int
  file_error :: int

definition EOF :: int where "EOF = - 506"
definition L_tmpnam :: nat where "L_tmpnam = 8"

definition feof :: "FILE \<Rightarrow> int" where
  "feof stream = (if file_eof stream \<noteq> 0 then 1 else 0)"

definition ferror :: "FILE \<Rightarrow> int" where
  "ferror stream = (if file_error stream \<noteq> 0 then 1 else 0)"

definition clearerr :: "FILE \<Rightarrow> FILE" where
  "clearerr stream = stream\<lparr>file_error := 0, file_eof := 0\<rparr>"

definition fseek :: "int \<Rightarrow> FILE \<Rightarrow> int \<Rightarrow> int \<Rightarrow> int" where
  "fseek rc stream offset origin = rc"

definition rewind :: "int \<Rightarrow> FILE \<Rightarrow> FILE" where
  "rewind rc stream = (let _ = fseek rc stream 0 0 in stream\<lparr>file_error := 0\<rparr>)"

definition fflush :: "FILE \<Rightarrow> int" where
  "fflush stream = 0"

definition freopen :: "u32 \<Rightarrow> u32 \<Rightarrow> u32 \<Rightarrow> u32" where
  "freopen filename mode stream = stream"

definition fgetc :: "u8 \<Rightarrow> FILE \<Rightarrow> int" where
  "fgetc c stream = uint c"

definition getc :: "u8 \<Rightarrow> FILE \<Rightarrow> int" where
  "getc c stream = fgetc c stream"

definition getchar :: "u8 \<Rightarrow> FILE \<Rightarrow> int" where
  "getchar c stdin = getc c stdin"

definition fputc :: "int \<Rightarrow> FILE \<Rightarrow> int" where
  "fputc c stream = c"

text \<open>
  \<open>fread\<close>: \<open>chars\<close> are the bytes the calls of \<open>fgetc\<close> return. The inner loop gives the position in the buffer
  and the memory, or nothing when the routine returns early.
\<close>

function fread_bytes :: "(nat \<Rightarrow> u8) \<Rightarrow> FILE \<Rightarrow> nat \<Rightarrow> nat \<Rightarrow> u32 \<Rightarrow> nat \<Rightarrow> mem \<Rightarrow> (nat \<times> mem) option \<times> mem" where
  "fread_bytes chars stream sz j ptr k m =
     (if j < sz
      then let c = fgetc (chars k) stream
           in if feof stream \<noteq> 0 \<or> ferror stream \<noteq> 0 then (None, m)
              else fread_bytes chars stream sz (Suc j) ptr (Suc k) (m(ptr + of_nat k := word_of_int c))
      else (Some (k, m), m))"
  by pat_completeness auto
termination
  by (relation "measure (\<lambda>(chars, stream, sz, j, ptr, k, m). sz - j)") auto

declare fread_bytes.simps [simp del]

function fread_items :: "(nat \<Rightarrow> u8) \<Rightarrow> FILE \<Rightarrow> nat \<Rightarrow> nat \<Rightarrow> nat \<Rightarrow> u32 \<Rightarrow> nat \<Rightarrow> mem \<Rightarrow> nat \<times> mem" where
  "fread_items chars stream sz nmemb i ptr k m =
     (if i < nmemb
      then (case fread_bytes chars stream sz 0 ptr k m of
              (None, m') \<Rightarrow> (i, m')
            | (Some (k', m'), _) \<Rightarrow> fread_items chars stream sz nmemb (Suc i) ptr k' m')
      else (nmemb, m))"
  by pat_completeness auto
termination
  by (relation "measure (\<lambda>(chars, stream, sz, nmemb, i, ptr, k, m). nmemb - i)") auto

declare fread_items.simps [simp del]

definition fread :: "(nat \<Rightarrow> u8) \<Rightarrow> u32 \<Rightarrow> nat \<Rightarrow> nat \<Rightarrow> FILE \<Rightarrow> mem \<Rightarrow> nat \<times> mem" where
  "fread chars ptr sz nmemb stream m =
     (if sz = 0 then (0, m) else if nmemb = 0 then (0, m)
      else fread_items chars stream sz nmemb 0 ptr 0 m)"

text \<open>\<open>fwrite\<close>: the inner loop tells whether all bytes of the member at \<open>p\<close> were written.\<close>

fun fwrite_bytes :: "mem \<Rightarrow> FILE \<Rightarrow> nat \<Rightarrow> u32 \<Rightarrow> bool" where
  "fwrite_bytes m stream 0 p = True"
| "fwrite_bytes m stream (Suc j) p =
     (if fputc (uint (m p)) stream \<noteq> uint (m p) then False else fwrite_bytes m stream j (p + 1))"

function fwrite_items :: "mem \<Rightarrow> FILE \<Rightarrow> nat \<Rightarrow> nat \<Rightarrow> nat \<Rightarrow> u32 \<Rightarrow> nat" where
  "fwrite_items m stream sz nmemb i p =
     (if i < nmemb
      then if fwrite_bytes m stream sz p then fwrite_items m stream sz nmemb (Suc i) (p + of_nat sz) else i
      else nmemb)"
  by pat_completeness auto
termination
  by (relation "measure (\<lambda>(m, stream, sz, nmemb, i, p). nmemb - i)") auto

declare fwrite_items.simps [simp del]

definition fwrite :: "mem \<Rightarrow> u32 \<Rightarrow> nat \<Rightarrow> nat \<Rightarrow> FILE \<Rightarrow> nat" where
  "fwrite m ptr sz nmemb stream =
     (if sz = 0 then 0 else if nmemb = 0 then 0 else fwrite_items m stream sz nmemb 0 ptr)"

text \<open>\<open>tmpnam\<close>: \<open>rnd\<close> are the results of \<open>rand\<close>, \<open>m_buf\<close> the local buffer used for a null argument.\<close>

definition tmpnam_char :: "int \<Rightarrow> u8" where
  "tmpnam_char r = (let c = smod_c r 52 in if c < 26 then word_of_int (97 + c) else word_of_int (65 + (c - 26)))"

primrec tmpnam_loop :: "(nat \<Rightarrow> int) \<Rightarrow> u32 \<Rightarrow> nat \<Rightarrow> mem \<Rightarrow> mem" where
  "tmpnam_loop rnd buf 0 m = m"
| "tmpnam_loop rnd buf (Suc i) m = (tmpnam_loop rnd buf i m)(buf + of_nat i := tmpnam_char (rnd i))"

definition tmpnam :: "(nat \<Rightarrow> int) \<Rightarrow> u32 \<Rightarrow> u32 \<Rightarrow> mem \<Rightarrow> u32 \<times> mem" where
  "tmpnam rnd m_buf s m =
     (let buf = (if s \<noteq> 0 then s else m_buf)
      in (buf, (tmpnam_loop rnd buf (L_tmpnam - 1) m)(buf + of_nat (L_tmpnam - 1) := 0)))"

section \<open>Printing text\<close>

definition screen_ok :: "screen \<Rightarrow> bool" where
  "screen_ok s \<longleftrightarrow> 0 \<le> xpos s \<and> xpos s < 80 \<and> 0 \<le> ypos s \<and> ypos s < 24"

lemma newline_ok: "0 \<le> ypos s \<Longrightarrow> ypos s < 24 \<Longrightarrow> screen_ok (newline s) \<and> vmem (newline s) = vmem s"
  by (simp add: newline_def Let_def screen_ok_def LINES_def)

lemma putchar_ok:
  assumes "screen_ok s"
  shows "screen_ok (putchar c s) \<and> only_screen (vmem s) (vmem (putchar c s))"
proof -
  let ?k = "(xpos s + ypos s * 80) * 2"
  have s: "0 \<le> xpos s" "xpos s < 80" "0 \<le> ypos s" "ypos s < 24" using assms by (simp_all add: screen_ok_def)
  have k: "0 \<le> ?k" "?k + 1 < 4000" using s by (simp_all add: distrib_right)
  have "only_screen (vmem s) ((vmem s)(vaddr ?k := x, vaddr (?k + 1) := y))" for x y
    using k by (intro only_screen_upd only_screen_refl) auto
  then show ?thesis
    using newline_ok [OF s(3,4)] newline_ok [of "s\<lparr>vmem := v, xpos := x\<rparr>" for v x] s assms
    by (auto simp: putchar_def Let_def COLUMNS_def screen_ok_def)
qed

text \<open>A text without percent signs, off the screen, is printed as it is.\<close>

lemma screen_printf_plain:
  assumes "screen_ok s" and "cstr (vmem s) p xs" and "37 \<notin> set xs"
    and "\<forall>a\<in>region p (Suc (length xs)). \<not> on_screen a"
  shows "screen_printf b ns args n p s = Some (fold (\<lambda>c. putchar (scast c)) xs s)"
  using assms
proof (induction xs arbitrary: p s)
  case Nil
  then show ?case by (simp add: screen_printf.simps [of b ns args n p])
next
  case (Cons c xs)
  let ?s = "putchar (scast c) s"
  have ok: "screen_ok ?s" "only_screen (vmem s) (vmem ?s)" using putchar_ok [OF Cons.prems(1)] by simp_all
  have off: "\<forall>a\<in>region (p + 1) (Suc (length xs)). \<not> on_screen a"
    using Cons.prems(4) by (simp add: region_Suc [of p])
  have "cstr (vmem ?s) (p + 1) xs"
  proof (rule cstr_agree)
    show "cstr (vmem s) (p + 1) xs" using Cons.prems(2) by simp
    show "vmem ?s x = vmem s x" if "x \<notin> Collect on_screen" for x
      using ok(2) that by (simp add: only_screen_def)
    show "region (p + 1) (Suc (length xs)) \<inter> Collect on_screen = {}" using off by auto
  qed
  from Cons.IH [OF ok(1) this _ off] Cons.prems show ?case
    by (simp add: screen_printf.simps [of b ns args n p] Let_def)
qed

section \<open>Stream counts\<close>

lemma fread_bytes_eof: "feof st \<noteq> 0 \<or> ferror st \<noteq> 0 \<Longrightarrow> j < sz \<Longrightarrow> fread_bytes ch st sz j p k m = (None, m)"
  by (simp add: fread_bytes.simps [of ch st sz j])

lemma fread_bytes_ok:
  assumes "feof st = 0" and "ferror st = 0"
  shows "\<exists>m'. fread_bytes ch st sz j p k m = (Some (k + (sz - j), m'), m')"
proof (induction "sz - j" arbitrary: j k m)
  case 0
  then show ?case by (simp add: fread_bytes.simps [of ch st sz j])
next
  case (Suc d)
  let ?m = "m(p + of_nat k := word_of_int (fgetc (ch k) st))"
  obtain m' where "fread_bytes ch st sz (Suc j) p (Suc k) ?m = (Some (Suc k + (sz - Suc j), m'), m')"
  proof -
    have "d = sz - Suc j" using Suc.hyps(2) by simp
    from Suc.hyps(1) [OF this, of "Suc k" ?m] that show thesis by blast
  qed
  moreover have "Suc k + (sz - Suc j) = k + (sz - j)" using Suc.hyps(2) by linarith
  moreover have "j < sz" using Suc.hyps(2) by linarith
  ultimately show ?case
    using assms by (simp add: fread_bytes.simps [of ch st sz j])
qed

lemma fread_items_ok:
  assumes "feof st = 0" and "ferror st = 0" and "i \<le> n"
  shows "fst (fread_items ch st sz n i p k m) = n"
  using assms(3)
proof (induction "n - i" arbitrary: i k m)
  case 0
  then show ?case by (subst fread_items.simps) simp
next
  case (Suc d)
  obtain m' where r: "fread_bytes ch st sz 0 p k m = (Some (k + sz, m'), m')"
    using fread_bytes_ok [OF assms(1,2), of ch sz 0 p k m] by auto
  have "fst (fread_items ch st sz n (Suc i) p (k + sz) m') = n"
    using Suc by (intro Suc.hyps(1)) auto
  then show ?case using Suc.hyps(2) by (simp add: fread_items.simps [of ch st sz n i] r)
qed

lemma fwrite_bytes_True [simp]: "fwrite_bytes m st j p"
  by (induction j arbitrary: p) (simp_all add: fputc_def)

lemma fwrite_items_all: "i \<le> n \<Longrightarrow> fwrite_items m st sz n i p = n"
proof (induction "n - i" arbitrary: i p)
  case (Suc d)
  then show ?case by (simp add: fwrite_items.simps [of m st sz n i])
qed (simp add: fwrite_items.simps)

section \<open>Properties\<close>

text \<open>
  The text and its terminator must fit in the 1024 bytes of the buffer: a longer one overruns it and the
  call does not come back.
\<close>

lemma printf_overruns:
  fixes str args "is"
  defines "t \<equiv> format_text str args 0 is"
  assumes "cstr (vmem s) fmt (format_chars is)" and "\<forall>i\<in>set is. wf_item i"
    and "region fmt (Suc (length (format_chars is))) \<inter> region buf (length t) = {}"
    and "strings_ok (region buf (length t)) (vmem s) str args 0 is"
    and "1024 \<le> length t" and "length t < 4294967296"
  shows "printf buf junk itoa_buf null_str fmt args s = None"
proof -
  have "vsprintf buf fmt args (vmem s) = Some (of_nat (length t), put_bytes buf (t @ [0]) (vmem s))"
    unfolding t_def using assms by (intro vsprintf_lemma) simp_all
  then show ?thesis using assms(6,7) by (simp add: printf_def PRINTF_BUF_def unat_of_nat_u32)
qed

text \<open>
  \<open>printf\<close>: for a well-formed format whose text has no percent sign and fits in the buffer, the call returns and the
  screen shows exactly that text, character by character, provided the local buffer is off the
  screen and apart from the format and the printed strings.
\<close>

theorem printf_correct:
  fixes str args "is"
  defines "t \<equiv> format_text str args 0 is"
  assumes "screen_ok s" and "cstr (vmem s) fmt (format_chars is)" and "\<forall>i\<in>set is. wf_item i"
    and "region fmt (Suc (length (format_chars is))) \<inter> region buf (length t) = {}"
    and "strings_ok (region buf (length t)) (vmem s) str args 0 is"
    and "0 \<notin> set t" and "37 \<notin> set t" and "length t < 1024"
    and "\<forall>a\<in>region buf (Suc (length t)). \<not> on_screen a"
  shows "printf buf junk itoa_buf null_str fmt args s =
    Some (fold (\<lambda>c. putchar (scast c)) t (s\<lparr>vmem := put_bytes buf (t @ [0]) (vmem s)\<rparr>))"
proof -
  have run: "vsprintf buf fmt args (vmem s) = Some (of_nat (length t), put_bytes buf (t @ [0]) (vmem s))"
    unfolding t_def using assms by (intro vsprintf_lemma) simp_all
  let ?s = "s\<lparr>vmem := put_bytes buf (t @ [0]) (vmem s)\<rparr>"
  have "screen_ok ?s" using assms(2) by (simp add: screen_ok_def)
  moreover have "cstr (vmem ?s) buf t" using put_bytes_cstr [of t buf "vmem s"] assms by simp
  ultimately have "screen_printf itoa_buf null_str junk 0 buf ?s = Some (fold (\<lambda>c. putchar (scast c)) t ?s)"
    using assms by (intro screen_printf_plain) simp_all
  then show ?thesis using assms(9) by (simp add: printf_def run PRINTF_BUF_def unat_of_nat_u32)
qed

theorem printf_correct_witness:
  "\<forall>cx cy. let s = \<lparr>vmem = put_bytes 0x100 [79, 75, 0] (\<lambda>_. 0), xpos = 0, ypos = 0, csr_x = cx, csr_y = cy, ports = []\<rparr>
    in printf 0x200 (\<lambda>_. 0) 0x300 0x400 0x100 (\<lambda>_. 0) s =
      Some (putchar 75 (putchar 79 (s\<lparr>vmem := put_bytes 0x200 [79, 75, 0] (vmem s)\<rparr>)))"
proof (intro allI)
  fix cx cy
  let ?s = "\<lparr>vmem = put_bytes 0x100 [79, 75, 0] (\<lambda>_. 0), xpos = 0, ypos = 0, csr_x = cx, csr_y = cy, ports = []\<rparr>"
  have s: "screen_ok ?s \<and> cstr (vmem ?s) 0x100 [79, 75]" by (simp add: screen_ok_def)
  let ?is = "[Lit 79, Lit 75]"
  have off: "\<not> on_screen a" if "a \<in> region 0x200 3" for a
  proof
    assume "on_screen a"
    then obtain k where k: "0 \<le> k" "k < 4000" "a = vaddr k" by (auto simp: on_screen_def)
    then obtain n where "k = int n" by (meson zero_le_imp_eq_int)
    with k have n: "n < 4000" "a = 0xb8000 + of_nat n" by (simp_all add: vaddr_def VIDEO_RAM_def)
    then have "unat a = 0xb8000 + n" by (simp add: unat_add_nowrap unat_of_nat_u32)
    moreover have "unat a < 0x300" using that by (auto simp: region_def lessThan_nat_numeral lessThan_Suc)
    ultimately show False by simp
  qed
  have dj: "region 0x100 (Suc (length (format_chars ?is))) \<inter>
      region 0x200 (length (format_text (\<lambda>_. []) (\<lambda>_. 0) 0 ?is)) = {}"
    by (simp add: region_def lessThan_Suc)
  have off: "\<forall>a\<in>region 0x200 (Suc (length (format_text (\<lambda>_. []) (\<lambda>_. 0) 0 ?is))). \<not> on_screen a"
    using off by (simp add: numeral_3_eq_3)
  have "strings_ok D (vmem ?s) (\<lambda>_. []) (\<lambda>_. 0) 0 ?is" for D by simp
  from printf_correct [OF _ _ _ dj this, of "\<lambda>_. 0" "0x300" "0x400"] s off
  show "let s = ?s in printf 0x200 (\<lambda>_. 0) 0x300 0x400 0x100 (\<lambda>_. 0) s =
      Some (putchar 75 (putchar 79 (s\<lparr>vmem := put_bytes 0x200 [79, 75, 0] (vmem s)\<rparr>)))"
    by (simp add: Let_def)
qed

text \<open>
  The streams reach no device: \<open>fwrite\<close> reports every member as written, and \<open>fread\<close> reports every member
  as read unless the end-of-file or error mark is set, when it reports none.
\<close>

theorem stream_counts:
  assumes "sz \<noteq> 0" and "n \<noteq> 0"
  shows "fwrite m p sz n st = n \<and>
    fst (fread ch p sz n st m) = (if feof st = 0 \<and> ferror st = 0 then n else 0)"
proof -
  have "fst (fread_items ch st sz n 0 p 0 m) = 0" if "\<not> (feof st = 0 \<and> ferror st = 0)"
    using that assms fread_bytes_eof [of st 0 sz ch p 0 m]
    by (simp add: fread_items.simps [of ch st sz n 0])
  then show ?thesis
    using assms fread_items_ok [of st 0 n ch sz p 0 m] by (simp add: fwrite_def fread_def fwrite_items_all)
qed

end
