(* ===== verification/CTime.thy ===== *)
theory CTime
  imports Vsprintf
begin

text \<open>
  Calendar time, \<^verbatim>\<open>lib/time.c\<close>: broken-down time from seconds since 1970 and back, and its
  text. Fields are exact integers, \<^verbatim>\<open>time_t\<close> is a 32-bit word. The time zone and the daylight bias are
  the two global variables the conversions read.
\<close>

section \<open>Calendar\<close>

definition YEAR0 :: int where "YEAR0 = 1900"
definition EPOCH_YR :: int where "EPOCH_YR = 1970"
definition SECS_DAY :: int where "SECS_DAY = 24 * 60 * 60"
definition TIME_MAX :: int where "TIME_MAX = 2147483647"

definition LEAPYEAR :: "int \<Rightarrow> bool" where
  "LEAPYEAR year \<longleftrightarrow> smod_c year 4 = 0 \<and> (smod_c year 100 \<noteq> 0 \<or> smod_c year 400 = 0)"

definition YEARSIZE :: "int \<Rightarrow> int" where
  "YEARSIZE year = (if LEAPYEAR year then 366 else 365)"

definition ytab :: "bool \<Rightarrow> int list" where
  "ytab leap = [31, if leap then 29 else 28, 31, 30, 31, 30, 31, 31, 30, 31, 30, 31]"

definition month_days :: "int \<Rightarrow> int \<Rightarrow> int" where
  "month_days year mon = ytab (LEAPYEAR year) ! nat mon"

record tm =
  tm_sec :: int
  tm_min :: int
  tm_hour :: int
  tm_mday :: int
  tm_mon :: int
  tm_year :: int
  tm_wday :: int
  tm_yday :: int
  tm_isdst :: int

record zone =
  timezone :: int
  dstbias :: int

section \<open>From seconds to fields\<close>

function year_loop :: "int \<Rightarrow> int \<Rightarrow> int \<times> int" where
  "year_loop year dayno =
     (if dayno \<ge> YEARSIZE year then year_loop (year + 1) (dayno - YEARSIZE year) else (year, dayno))"
  by pat_completeness auto
termination
  by (relation "measure (\<lambda>(year, dayno). nat dayno)") (auto simp: YEARSIZE_def split: if_splits)

declare year_loop.simps [simp del]

partial_function (option) month_loop :: "int \<Rightarrow> int \<Rightarrow> int \<Rightarrow> (int \<times> int) option" where
  "month_loop year mon dayno =
     (if dayno \<ge> month_days year mon then month_loop year (mon + 1) (dayno - month_days year mon)
      else Some (mon, dayno))"

definition gmtime_r :: "u32 \<Rightarrow> tm option" where
  "gmtime_r timer =
     (let dayclock = uint timer mod SECS_DAY;
          dayno = uint timer div SECS_DAY;
          (year, yday) = year_loop EPOCH_YR dayno
      in map_option (\<lambda>(mon, mday).
           \<lparr>tm_sec = dayclock mod 60, tm_min = (dayclock mod 3600) div 60, tm_hour = dayclock div 3600,
            tm_mday = mday + 1, tm_mon = mon, tm_year = year - YEAR0, tm_wday = (dayno + 4) mod 7,
            tm_yday = yday, tm_isdst = 0\<rparr>) (month_loop year 0 yday))"

definition localtime_r :: "zone \<Rightarrow> u32 \<Rightarrow> tm option" where
  "localtime_r z timer = gmtime_r (timer - word_of_int (timezone z))"

text \<open>The variants that fill the static buffer; its address is not modelled.\<close>

definition gmtime :: "u32 \<Rightarrow> tm option" where
  "gmtime timer = gmtime_r timer"

definition localtime :: "zone \<Rightarrow> u32 \<Rightarrow> tm option" where
  "localtime z timer = localtime_r z timer"

definition difftime :: "u32 \<Rightarrow> u32 \<Rightarrow> int" where
  "difftime time2 time1 = sint (time1 - time2)"

section \<open>From fields to seconds\<close>

text \<open>One step of the normalisation: \<open>hi += lo / base; lo %= base\<close>, with a borrow for a negative rest.\<close>

definition carry :: "int \<Rightarrow> int \<Rightarrow> int \<Rightarrow> int \<times> int" where
  "carry base lo hi =
     (let hi = hi + sdiv_c lo base; lo = smod_c lo base
      in if lo < 0 then (lo + base, hi - 1) else (lo, hi))"

text \<open>The two loops that bring the day into the month.\<close>

partial_function (option) day_up :: "int \<Rightarrow> int \<Rightarrow> int \<Rightarrow> (int \<times> int \<times> int) option" where
  "day_up day mon year =
     (if day < 0
      then let (mon, year) = (if mon - 1 < 0 then (11, year - 1) else (mon - 1, year))
           in day_up (day + month_days (YEAR0 + year) mon) mon year
      else Some (day, mon, year))"

partial_function (option) day_down :: "int \<Rightarrow> int \<Rightarrow> int \<Rightarrow> (int \<times> int \<times> int) option" where
  "day_down day mon year =
     (if day \<ge> month_days (YEAR0 + year) mon
      then let day = day - month_days (YEAR0 + year) mon;
               (mon, year) = (if mon + 1 = 12 then (0, year + 1) else (mon + 1, year))
           in day_down day mon year
      else Some (day, mon, year))"

text \<open>The days of the years from 1970 to \<open>year\<close>; a C condition counts as 0 or 1.\<close>

definition one_if :: "bool \<Rightarrow> int" where
  "one_if b = (if b then 1 else 0)"

definition past_rest :: "int \<Rightarrow> int \<Rightarrow> int" where
  "past_rest year base = one_if (smod_c year base \<noteq> 0 \<and> smod_c year base < smod_c EPOCH_YR base)"

definition epoch_days :: "int \<Rightarrow> int" where
  "epoch_days year =
     (let d = year - EPOCH_YR
      in d * 365 + (sdiv_c d 4 + past_rest year 4) - (sdiv_c d 100 + past_rest year 100)
         + (sdiv_c d 400 + past_rest year 400))"

definition mktime :: "zone \<Rightarrow> tm \<Rightarrow> (int \<times> tm) option" where
  "mktime z t =
     (let (sec, min) = carry 60 (tm_sec t) (tm_min t);
          (min, hour) = carry 60 min (tm_hour t);
          (hour, day) = carry 24 hour 0;
          (mon, year) = carry 12 (tm_mon t) (tm_year t);
          day = day + (tm_mday t - 1)
      in do {
        (day, mon, year) \<leftarrow> day_up day mon year;
        (day, mon, year) \<leftarrow> day_down day mon year;
        let t = t\<lparr>tm_sec := sec, tm_min := min, tm_hour := hour, tm_mday := day + 1, tm_mon := mon,
          tm_year := year\<rparr>;
        if year < EPOCH_YR - YEAR0 then Some (- 1, t)
        else
          let ty = year + YEAR0; d = ty - EPOCH_YR;
              overflow = TIME_MAX div 365 < d \<or> TIME_MAX - d * 365 < sdiv_c d 4 + 1;
              day = epoch_days ty;
              yday = for_int (\<lambda>month yday. yday + month_days ty month) 0 mon 0 + (tm_mday t - 1);
              overflow = (overflow \<or> day + yday < 0);
              day = day + yday;
              t = t\<lparr>tm_yday := yday, tm_wday := smod_c (day + 4) 7\<rparr>;
              seconds = (hour * 60 + min) * 60 + sec;
              overflow = (overflow \<or> sdiv_c (TIME_MAX - seconds) SECS_DAY < day);
              seconds = seconds + day * SECS_DAY;
              overflow = (overflow \<or> (0 < timezone z \<and> TIME_MAX - timezone z < seconds) \<or>
                (timezone z < 0 \<and> seconds < - timezone z));
              seconds = seconds + timezone z;
              dst = (if tm_isdst t \<noteq> 0 then dstbias z else 0);
              overflow = (overflow \<or> seconds < dst);
              seconds = seconds - dst
          in if overflow then Some (- 1, t)
             else if sint (word_of_int seconds :: u32) \<noteq> seconds then Some (- 1, t)
             else Some (seconds, t) })"

section \<open>The calendar\<close>

lemma leap_mod: "0 \<le> y \<Longrightarrow> LEAPYEAR y \<longleftrightarrow> y mod 4 = 0 \<and> (y mod 100 \<noteq> 0 \<or> y mod 400 = 0)"
  by (simp add: LEAPYEAR_def smod_c_nonneg)

text \<open>The days before a year, by counting the multiples of 4, 100 and 400 before it.\<close>

definition days_before :: "int \<Rightarrow> int" where
  "days_before y = 365 * (y - 1970) + ((y - 1) div 4 - 492) - ((y - 1) div 100 - 19) + ((y - 1) div 400 - 4)"

lemma div_step:
  fixes y b :: int
  assumes "0 < b"
  shows "y div b = (y - 1) div b + one_if (y mod b = 0)"
proof (cases "y mod b = 0")
  case True
  then have "y = b * (y div b)" by (metis mult_div_mod_eq add.right_neutral)
  then have "y - 1 = b * (y div b - 1) + (b - 1)" by (simp add: algebra_simps)
  then have "(y - 1) div b = y div b - 1" by (rule int_div_pos_eq) (use assms in simp_all)
  with True show ?thesis by (simp add: one_if_def)
next
  case False
  have "y - 1 = b * (y div b) + (y mod b - 1)" by simp
  then have "(y - 1) div b = y div b"
    by (rule int_div_pos_eq) (use assms False pos_mod_sign [of b y] pos_mod_bound [of b y] in linarith)+
  with False show ?thesis by (simp add: one_if_def)
qed

lemma days_before_Suc:
  assumes "0 \<le> y"
  shows "days_before (y + 1) = days_before y + YEARSIZE y"
proof -
  have "y mod 100 = y mod 400 mod 100" "y mod 4 = y mod 100 mod 4" by (simp_all add: mod_mod_cancel)
  then have m: "y mod 400 = 0 \<Longrightarrow> y mod 100 = 0" "y mod 100 = 0 \<Longrightarrow> y mod 4 = 0" by simp_all
  have "YEARSIZE y = 365 + one_if (y mod 4 = 0) - one_if (y mod 100 = 0) + one_if (y mod 400 = 0)"
    unfolding YEARSIZE_def leap_mod [OF assms] one_if_def using m
    by (cases "y mod 400 = 0"; cases "y mod 100 = 0"; cases "y mod 4 = 0") (simp_all only: simp_thms if_True if_False, simp_all)
  moreover have "days_before (y + 1) = 365 * (y + 1 - 1970) + (y div 4 - 492) - (y div 100 - 19) + (y div 400 - 4)"
    unfolding days_before_def by simp
  moreover have "365 * (y + 1 - 1970) + (a - 492) - (b - 19) + (c - 4) =
      365 * (y - 1970) + (a' - 492) - (b' - 19) + (c' - 4) + (365 + i - j + k)"
    if "a = a' + i" "b = b' + j" "c = c' + k" for a b c a' b' c' i j k :: int
    using that by simp
  ultimately show ?thesis
    using div_step [of 4 y] div_step [of 100 y] div_step [of 400 y] by (simp only: days_before_def)
qed

lemma YEARSIZE_pos: "365 \<le> YEARSIZE y" "YEARSIZE y \<le> 366"
  by (simp_all add: YEARSIZE_def)

lemma year_loop_spec:
  assumes "0 \<le> y" and "0 \<le> d" and "year_loop y d = (y', d')"
  shows "y \<le> y' \<and> 0 \<le> d' \<and> d' < YEARSIZE y' \<and> days_before y' + d' = days_before y + d"
  using assms
proof (induction y d rule: year_loop.induct)
  case (1 y d)
  show ?case
  proof (cases "d \<ge> YEARSIZE y")
    case True
    with 1 have "y + 1 \<le> y' \<and> 0 \<le> d' \<and> d' < YEARSIZE y' \<and>
        days_before y' + d' = days_before (y + 1) + (d - YEARSIZE y)"
      by (simp add: year_loop.simps [of y d])
    with "1.prems"(1) show ?thesis by (simp add: days_before_Suc)
  next
    case False
    with "1.prems" show ?thesis by (simp add: year_loop.simps [of y d])
  qed
qed

section \<open>Months\<close>

text \<open>The days of the first \<open>mon\<close> months of a year.\<close>

definition months_before :: "int \<Rightarrow> int \<Rightarrow> int" where
  "months_before year mon = sum_list (take (nat mon) (ytab (LEAPYEAR year)))"

lemma length_ytab [simp]: "length (ytab b) = 12"
  by (simp add: ytab_def)

lemma months_before_0 [simp]: "months_before y 0 = 0"
  by (simp add: months_before_def)

lemma months_before_12: "months_before y 12 = YEARSIZE y"
  by (simp add: months_before_def YEARSIZE_def ytab_def)

lemma months_before_Suc:
  assumes "0 \<le> mon" and "mon < 12"
  shows "months_before y (mon + 1) = months_before y mon + month_days y mon"
proof -
  have "nat (mon + 1) = Suc (nat mon)" "nat mon < 12" using assms by linarith+
  then show ?thesis
    by (simp add: months_before_def month_days_def take_Suc_conv_app_nth)
qed

lemma month_loop_spec:
  assumes "0 \<le> mon" and "mon \<le> 12" and "0 \<le> d" and "months_before y mon + d < YEARSIZE y"
  shows "\<exists>mon' d'. month_loop y mon d = Some (mon', d') \<and> 0 \<le> mon' \<and> mon' < 12 \<and> 0 \<le> d' \<and>
    d' < month_days y mon' \<and> months_before y mon' + d' = months_before y mon + d"
  using assms
proof (induction "nat (12 - mon)" arbitrary: mon d rule: less_induct)
  case less
  show ?case
  proof (cases "mon = 12")
    case True
    with less.prems show ?thesis using months_before_12 [of y] by simp
  next
    case False
    then have lt: "mon < 12" using less.prems by linarith
    show ?thesis
    proof (cases "d \<ge> month_days y mon")
      case True
      have "nat (12 - (mon + 1)) < nat (12 - mon)" using lt by linarith
      from less.hyps [OF this, of "d - month_days y mon"] True less.prems lt
      show ?thesis by (simp add: month_loop.simps [of y mon d] months_before_Suc)
    next
      case False
      with less.prems lt show ?thesis by (simp add: month_loop.simps [of y mon d])
    qed
  qed
qed

lemma for_months: "0 \<le> mon \<Longrightarrow> mon \<le> 12 \<Longrightarrow>
  for_int (\<lambda>month yday. yday + month_days y month) 0 mon 0 = months_before y mon"
  by (rule for_int_inv [where P = "\<lambda>k v. v = months_before y k"]) (simp_all add: months_before_Suc)

text \<open>The corrections of \<open>mktime\<close>: how often \<open>b\<close> has a multiple in the years from 1970 before \<open>y\<close>.\<close>

lemma past_multiples:
  fixes b k r y :: int
  assumes "1970 = b * k + r" and "0 < r" and "r < b"
  shows "(y - 1970) div b + one_if (y mod b \<noteq> 0 \<and> y mod b < r) = (y - 1) div b - k"
proof -
  have s: "0 \<le> y mod b" "y mod b < b" and b: "0 < b" using assms by simp_all
  have e: "y - 1970 = b * (y div b - k) + (y mod b - r)"
    using assms(1) by (simp add: algebra_simps)
  show ?thesis
  proof (cases "r \<le> y mod b")
    case True
    have "(y - 1970) div b = y div b - k" by (rule int_div_pos_eq [OF e]) (use True s assms in linarith)+
    moreover have "y mod b \<noteq> 0" using True assms(2) by linarith
    ultimately show ?thesis using div_step [OF b, of y] True by (simp add: one_if_def)
  next
    case False
    have "y - 1970 = b * (y div b - k - 1) + (y mod b - r + b)" unfolding e by (simp add: algebra_simps)
    then have "(y - 1970) div b = y div b - k - 1"
      by (rule int_div_pos_eq) (use False s assms in linarith)+
    then show ?thesis using div_step [OF b, of y] False by (simp add: one_if_def)
  qed
qed

lemma epoch_days_eq:
  assumes "1970 \<le> y"
  shows "epoch_days y = days_before y"
proof -
  have d: "sdiv_c (y - 1970) b = (y - 1970) div b" "smod_c y b = y mod b" "smod_c 1970 b = 1970 mod b"
    if "0 < b" for b
    using assms that by (simp_all add: sdiv_c_nonneg smod_c_nonneg)
  show ?thesis
    using past_multiples [of 4 492 2 y] past_multiples [of 100 19 70 y] past_multiples [of 400 4 370 y]
    unfolding epoch_days_def days_before_def past_rest_def EPOCH_YR_def Let_def
    by (simp add: d)
qed

section \<open>Properties\<close>

text \<open>
  A broken-down time is well-formed: its fields are in range, and day of the year, month and day of
  the month agree.
\<close>

definition tm_ok :: "tm \<Rightarrow> bool" where
  "tm_ok t \<longleftrightarrow> 0 \<le> tm_sec t \<and> tm_sec t < 60 \<and> 0 \<le> tm_min t \<and> tm_min t < 60 \<and> 0 \<le> tm_hour t \<and> tm_hour t < 24 \<and>
     0 \<le> tm_mon t \<and> tm_mon t < 12 \<and> 1 \<le> tm_mday t \<and> tm_mday t \<le> month_days (tm_year t + 1900) (tm_mon t) \<and>
     0 \<le> tm_yday t \<and> tm_yday t < YEARSIZE (tm_year t + 1900) \<and>
     tm_yday t = months_before (tm_year t + 1900) (tm_mon t) + tm_mday t - 1 \<and> 0 \<le> tm_wday t \<and> tm_wday t < 7"

lemma gmtime_ok:
  "\<exists>t. gmtime w = Some t \<and> tm_ok t \<and> 70 \<le> tm_year t \<and> tm_isdst t = 0 \<and>
    uint w = SECS_DAY * (days_before (tm_year t + 1900) + tm_yday t) + 3600 * tm_hour t + 60 * tm_min t + tm_sec t \<and>
    tm_wday t = (days_before (tm_year t + 1900) + tm_yday t + 4) mod 7"
proof -
  define n c where "n = uint w div 86400" and "c = uint w mod 86400"
  define h mi sc where "h = c div 3600" and "mi = c mod 3600 div 60" and "sc = c mod 60"
  obtain y d where y: "year_loop 1970 n = (y, d)" by (cases "year_loop 1970 n")
  have n: "0 \<le> n" "uint w = 86400 * n + c" by (simp_all add: n_def c_def pos_imp_zdiv_nonneg_iff)
  have ys: "1970 \<le> y" "0 \<le> d" "d < YEARSIZE y" "days_before y + d = n"
    using year_loop_spec [OF _ n(1) y] by (simp_all add: days_before_def)
  obtain mon md where m: "month_loop y 0 d = Some (mon, md)" "0 \<le> mon" "mon < 12" "0 \<le> md"
      "md < month_days y mon" "months_before y mon + md = d"
    using month_loop_spec [of 0 d y] ys by auto
  have "0 \<le> c" "c < 86400" by (simp_all add: c_def)
  then have b: "0 \<le> h" "h < 24" "0 \<le> mi" "mi < 60" "0 \<le> sc" "sc < 60"
    using zdiv_mono1 [of c 86399 3600] zdiv_mono1 [of "c mod 3600" 3599 60] pos_mod_bound [of 3600 c]
    by (simp_all add: h_def mi_def sc_def pos_imp_zdiv_nonneg_iff)
  have "c mod 60 = c mod 3600 mod 60" by (simp add: mod_mod_cancel)
  then have c: "c = 3600 * h + 60 * mi + sc"
    unfolding h_def mi_def sc_def by (metis add.assoc mult_div_mod_eq)
  have r: "gmtime w = Some \<lparr>tm_sec = sc, tm_min = mi, tm_hour = h, tm_mday = md + 1, tm_mon = mon,
      tm_year = y - 1900, tm_wday = (n + 4) mod 7, tm_yday = d, tm_isdst = 0\<rparr>"
    unfolding gmtime_def gmtime_r_def SECS_DAY_def EPOCH_YR_def YEAR0_def
    by (simp add: y m flip: n_def c_def) (simp add: h_def mi_def sc_def)
  show ?thesis
    unfolding r using m ys b c n(2) by (simp add: tm_ok_def SECS_DAY_def flip: ys(4))
qed

lemma carry_id: "0 \<le> lo \<Longrightarrow> lo < base \<Longrightarrow> carry base lo hi = (lo, hi)"
  by (simp add: carry_def sdiv_c_nonneg smod_c_nonneg)

lemma days_before_ge: "1970 \<le> y \<Longrightarrow> 365 * (y - 1970) \<le> days_before y"
proof (induction y rule: int_ge_induct)
  case (step y)
  then show ?case using days_before_Suc [of y] YEARSIZE_pos [of y] by simp
qed (simp add: days_before_def)

lemma sdiv_c_le: "0 \<le> a \<Longrightarrow> 0 < b \<Longrightarrow> d * b \<le> a \<Longrightarrow> \<not> sdiv_c a b < d"
proof -
  assume a: "0 \<le> a" "0 < b" "d * b \<le> a"
  then have "d \<le> a div b" using zdiv_mono1 [of "d * b" a b] by simp
  with a show ?thesis by (simp add: sdiv_c_nonneg)
qed

text \<open>On a well-formed time the normalisation does nothing and the seconds are counted exactly.\<close>

lemma mktime_ok:
  assumes ok: "tm_ok t" and "70 \<le> tm_year t" and "tm_isdst t = 0" and "timezone z = 0"
    and k: "k = SECS_DAY * (days_before (tm_year t + 1900) + tm_yday t) + 3600 * tm_hour t + 60 * tm_min t + tm_sec t"
    and wd: "tm_wday t = (days_before (tm_year t + 1900) + tm_yday t + 4) mod 7"
    and "k < 2147483648"
  shows "mktime z t = Some (k, t)"
proof -
  let ?y = "tm_year t + 1900"
  have y: "1970 \<le> ?y" using assms(2) by simp
  have f: "0 \<le> tm_sec t" "tm_sec t < 60" "0 \<le> tm_min t" "tm_min t < 60" "0 \<le> tm_hour t" "tm_hour t < 24"
    "0 \<le> tm_mon t" "tm_mon t < 12" "1 \<le> tm_mday t" "tm_mday t \<le> month_days ?y (tm_mon t)" "0 \<le> tm_yday t"
    "tm_yday t = months_before ?y (tm_mon t) + tm_mday t - 1"
    using ok by (simp_all add: tm_ok_def)
  have db: "365 * (?y - 1970) \<le> days_before ?y" using days_before_ge [OF y] .
  have sd: "SECS_DAY = 86400" by (simp add: SECS_DAY_def)
  have k0: "SECS_DAY * (days_before ?y + tm_yday t) \<le> k" using f by (simp add: k)
  then have "86400 * days_before ?y < 2147483648"
    using f(11) assms(7) unfolding sd distrib_left by linarith
  then have d: "0 \<le> ?y - 1970" "?y - 1970 \<le> 68" using y db by simp_all
  have up: "day_up (tm_mday t - 1) (tm_mon t) (tm_year t) = Some (tm_mday t - 1, tm_mon t, tm_year t)"
    using f by (subst day_up.simps) simp
  have down: "day_down (tm_mday t - 1) (tm_mon t) (tm_year t) = Some (tm_mday t - 1, tm_mon t, tm_year t)"
    using f by (subst day_down.simps) (simp add: YEAR0_def add.commute)
  have o1: "\<not> (TIME_MAX div 365 < ?y - 1970 \<or> TIME_MAX - (?y - 1970) * 365 < sdiv_c (?y - 1970) 4 + 1)"
  proof -
    have "sdiv_c (?y - 1970) 4 \<le> ?y - 1970"
      using d zdiv_mono2 [of "?y - 1970" 1 4] by (simp add: sdiv_c_nonneg)
    then show ?thesis using d by (simp add: TIME_MAX_def)
  qed
  let ?day = "days_before ?y + tm_yday t"
  let ?s = "(tm_hour t * 60 + tm_min t) * 60 + tm_sec t"
  have k': "?s + ?day * SECS_DAY = k" by (simp add: k algebra_simps)
  have day: "0 \<le> ?day" using db d f by simp
  have s: "0 \<le> ?s" "?s \<le> k" using f day k' by (simp_all add: SECS_DAY_def)
  have o2: "\<not> sdiv_c (TIME_MAX - ?s) SECS_DAY < ?day"
    using k' s assms(7) by (intro sdiv_c_le) (simp_all add: TIME_MAX_def SECS_DAY_def)
  have w: "smod_c (?day + 4) 7 = tm_wday t" using day wd by (simp add: smod_c_nonneg)
  have yd: "for_int (\<lambda>month yday. yday + month_days ?y month) 0 (tm_mon t) 0 + (tm_mday t - 1) = tm_yday t"
    using for_months [of "tm_mon t" ?y] f by simp
  have r: "sint (word_of_int k :: u32) = k" using s assms(7) by (intro sint_of_int_small) simp
  have c: "carry 60 (tm_sec t) (tm_min t) = (tm_sec t, tm_min t)" "carry 60 (tm_min t) (tm_hour t) = (tm_min t, tm_hour t)"
    "carry 24 (tm_hour t) 0 = (tm_hour t, 0)" "carry 12 (tm_mon t) (tm_year t) = (tm_mon t, tm_year t)"
    using f by (simp_all add: carry_id)
  have ny: "\<not> tm_year t < EPOCH_YR - YEAR0" using assms(2) by (simp add: EPOCH_YR_def YEAR0_def)
  have yd': "for_int (\<lambda>month yday. yday + month_days ?y month) 0 (tm_mon t) 0 + (tm_mday t - 1 + 1 - 1) = tm_yday t"
    using yd by simp
  have e: "epoch_days ?y = days_before ?y" by (rule epoch_days_eq [OF y])
  show ?thesis
    using k' s day o1 o2 w yd' r ny assms(3,4) e
    by (simp add: mktime_def c up down Let_def YEAR0_def EPOCH_YR_def TIME_MAX_def)
qed

text \<open>
  Property C28. \<open>gmtime\<close> returns a well-formed time for every 32-bit number of seconds, and the
  fields denote exactly that number: the days before the year by the Gregorian leap-year rule, the
  day of the year and the time of the day; the week day counts from the Thursday of 1 January 1970.
\<close>

theorem gmtime_correct:
  "\<exists>t. gmtime w = Some t \<and> tm_ok t \<and>
    uint w = SECS_DAY * (days_before (tm_year t + 1900) + tm_yday t) + 3600 * tm_hour t + 60 * tm_min t + tm_sec t \<and>
    tm_wday t = (days_before (tm_year t + 1900) + tm_yday t + 4) mod 7"
  using gmtime_ok [of w] by blast

text \<open>
  Property C29. Round trip: with no time-zone offset, \<open>mktime\<close> turns the fields of \<open>gmtime\<close> back into the same number
  of seconds and leaves them as they are, for every time a signed \<^verbatim>\<open>time_t\<close> can hold from 1970 on.
\<close>

theorem mktime_gmtime:
  assumes "uint w < 2147483648" and "timezone z = 0"
  shows "\<exists>t. gmtime w = Some t \<and> mktime z t = Some (uint w, t)"
proof -
  obtain t where t: "gmtime w = Some t" "tm_ok t" "70 \<le> tm_year t" "tm_isdst t = 0"
    "uint w = SECS_DAY * (days_before (tm_year t + 1900) + tm_yday t) + 3600 * tm_hour t + 60 * tm_min t + tm_sec t"
    "tm_wday t = (days_before (tm_year t + 1900) + tm_yday t + 4) mod 7"
    using gmtime_ok [of w] by blast
  with mktime_ok [OF t(2-4) assms(2) t(5,6) assms(1)] show ?thesis by blast
qed

theorem mktime_gmtime_witness:
  "\<exists>t. gmtime 951782400 = Some t \<and> mktime \<lparr>timezone = 0, dstbias = 3600\<rparr> t = Some (951782400, t)"
  using mktime_gmtime [of 951782400 "\<lparr>timezone = 0, dstbias = 3600\<rparr>"] by simp

end
