(* ===== verification/Input.thy ===== *)
theory Input
  imports Screen
begin

text \<open>
  Keyboard and mouse: the interrupt handlers and the set-up of \<^verbatim>\<open>kb.c\<close> and \<^verbatim>\<open>mouse.c\<close>. What \<^verbatim>\<open>inb\<close> reads is a
  parameter, the bytes \<^verbatim>\<open>outb\<close> writes are recorded in order.
\<close>

section \<open>Keyboard\<close>

text \<open>The characters of the keys without and with shift.\<close>

definition key_map :: "(u8 \<times> u8) list" where
  "key_map =
    [(0, 0), (0, 0), (49, 33), (50, 64), (51, 35), (52, 36), (53, 37), (54, 94),
     (55, 38), (56, 42), (57, 40), (48, 41), (45, 95), (61, 43), (8, 8), (9, 9),
     (113, 81), (119, 87), (101, 69), (114, 82), (116, 84), (121, 89), (117, 85), (105, 73),
     (111, 79), (112, 80), (91, 123), (93, 125), (10, 10), (0, 0), (97, 65), (115, 83),
     (100, 68), (102, 70), (103, 71), (104, 72), (106, 74), (107, 75), (108, 76), (59, 58),
     (39, 34), (96, 126), (0, 0), (92, 124), (122, 90), (120, 88), (99, 67), (118, 86),
     (98, 66), (110, 78), (109, 77), (44, 60), (46, 62), (47, 63), (0, 0), (42, 42),
     (0, 0), (32, 32)]"

datatype key_fun = Unp | Pln | Ctl | Alt | Shf | Fun

definition key_way :: "key_fun list" where
  "key_way =
    [Unp, Unp, Pln, Pln, Pln, Pln, Pln, Pln, Pln, Pln, Pln, Pln, Pln, Pln, Pln, Pln,
     Pln, Pln, Pln, Pln, Pln, Pln, Pln, Pln, Pln, Pln, Pln, Pln, Pln, Ctl, Pln, Pln,
     Pln, Pln, Pln, Pln, Pln, Pln, Pln, Pln, Pln, Pln, Shf, Pln, Pln, Pln, Pln, Pln,
     Pln, Pln, Pln, Pln, Pln, Pln, Shf, Pln, Alt, Pln, Unp, Fun, Fun, Fun, Fun, Fun,
     Fun, Fun, Fun, Fun, Fun, Unp, Unp, Unp, Unp, Unp, Unp, Unp, Unp, Unp, Unp, Unp,
     Unp, Unp, Unp, Unp, Unp, Unp, Unp, Fun, Fun, Unp, Unp, Unp, Unp, Unp, Unp, Unp,
     Unp, Unp, Unp, Unp, Unp, Unp, Unp, Unp, Unp, Unp, Unp, Unp, Unp, Unp, Unp, Unp,
     Unp, Unp, Unp, Unp, Unp, Unp, Unp, Unp, Unp, Unp, Unp, Unp, Unp, Unp, Unp, Unp]"

record keyboard =
  kscreen :: screen
  shf_p :: u8
  ctl_p :: u8
  alt_p :: u8
  scan_code :: u8

definition key_char :: "u8 \<Rightarrow> u8 \<Rightarrow> u8" where
  "key_char code shift = (let e = key_map ! unat (code AND 0x7f) in if shift = 0 then fst e else snd e)"

fun run_key :: "key_fun \<Rightarrow> keyboard \<Rightarrow> keyboard" where
  "run_key Pln k =
     (if scan_code k AND 0x80 \<noteq> 0 then k
      else k\<lparr>kscreen := print_c (key_char (scan_code k) (shf_p k)) WHITE BLACK (kscreen k)\<rparr>)"
| "run_key Ctl k = k\<lparr>ctl_p := ctl_p k XOR 1\<rparr>"
| "run_key Alt k = k\<lparr>alt_p := alt_p k XOR 1\<rparr>"
| "run_key Shf k = k\<lparr>shf_p := shf_p k XOR 1\<rparr>"
| "run_key Fun k = k"
| "run_key Unp k = k"

definition kout :: "(u8 \<times> u16) list \<Rightarrow> screen \<Rightarrow> screen" where
  "kout ws s = s\<lparr>ports := ports s @ ws\<rparr>"

text \<open>\<open>code\<close> is read from port 0x60, \<open>com\<close> from port 0x61.\<close>

definition do_kb :: "u8 \<times> u8 \<Rightarrow> keyboard \<Rightarrow> keyboard" where
  "do_kb e k =
     (let (code, com) = e;
          k = k\<lparr>scan_code := code\<rparr>;
          k = run_key (key_way ! unat (scan_code k AND 0x7f)) k
      in k\<lparr>kscreen := kout [(com OR 0x80, 0x61), (com AND 0x7f, 0x61), (0x20, 0x20)] (kscreen k)\<rparr>)"

definition kb_install :: "u8 \<Rightarrow> (u8 \<times> u16) list" where
  "kb_install cur = [(cur AND 0xfd, 0x21)]"

section \<open>Mouse\<close>

record mouse =
  mousemoves :: u8
  mouse_byte :: "u8 list"
  mouse_haswheel :: u8
  mousecount :: u8
  mscreen :: screen

text \<open>\<open>status\<close> is read from port 0x64 and \<open>data\<close> from port 0x60.\<close>

definition do_mouse :: "u8 \<times> u8 \<Rightarrow> mouse \<Rightarrow> mouse" where
  "do_mouse e c =
     (let (status, data) = e;
          c = c\<lparr>mousemoves := 0\<rparr>;
          c = (if status AND 0x01 \<noteq> 0
               then let c = c\<lparr>mouse_byte := (mouse_byte c)[unat (mousecount c) := data],
                              mousecount := mousecount c + 1\<rparr>
                    in if uint (mousecount c) \<ge> 3 + sint (mouse_haswheel c)
                       then c\<lparr>mousecount := 0, mousemoves := 1\<rparr> else c
               else c)
      in c\<lparr>mscreen := kout [(0x20, 0x20), (0x20, 0xA0)] (print_c (48 + mousecount c) WHITE BLACK (mscreen c))\<rparr>)"

text \<open>
  The set-up talks to the controller: \<open>dev p i\<close> is what the \<open>i\<close>th read returns when it reads port \<open>p\<close>.
\<close>

record pio =
  nreads :: nat
  writes :: "(u8 \<times> u16) list"

type_synonym device = "u16 \<Rightarrow> nat \<Rightarrow> u8"

definition io_in :: "device \<Rightarrow> u16 \<Rightarrow> pio \<Rightarrow> u8 \<times> pio" where
  "io_in dev p s = (dev p (nreads s), s\<lparr>nreads := nreads s + 1\<rparr>)"

definition io_out :: "u8 \<Rightarrow> u16 \<Rightarrow> pio \<Rightarrow> pio" where
  "io_out v p s = s\<lparr>writes := writes s @ [(v, p)]\<rparr>"

fun mouse_wait_loop :: "device \<Rightarrow> bool \<Rightarrow> nat \<Rightarrow> pio \<Rightarrow> pio" where
  "mouse_wait_loop dev data 0 s = s"
| "mouse_wait_loop dev data (Suc time_out) s =
     (let (v, s) = io_in dev 0x64 s
      in if (if data then v AND 1 = 1 else v AND 2 = 0) then s else mouse_wait_loop dev data time_out s)"

definition mouse_wait :: "device \<Rightarrow> int \<Rightarrow> pio \<Rightarrow> pio" where
  "mouse_wait dev type s = mouse_wait_loop dev (type = 0) 100000 s"

definition mouse_write :: "device \<Rightarrow> u8 \<Rightarrow> pio \<Rightarrow> pio" where
  "mouse_write dev data s =
     (let s = mouse_wait dev 1 s; s = io_out 0xD4 0x64 s; s = mouse_wait dev 1 s in io_out data 0x60 s)"

definition mouse_read :: "device \<Rightarrow> pio \<Rightarrow> u8 \<times> pio" where
  "mouse_read dev s = (let s = mouse_wait dev 0 s in io_in dev 0x60 s)"

definition mouse_install :: "device \<Rightarrow> pio \<Rightarrow> pio" where
  "mouse_install dev s =
     (let s = mouse_wait dev 1 s;
          s = io_out 0xa8 0x64 s;
          s = mouse_wait dev 1 s;
          s = io_out 0x20 0x64 s;
          s = mouse_wait dev 0 s;
          (v, s) = io_in dev 0x60 s;
          status = v OR 2;
          s = mouse_wait dev 1 s;
          s = io_out 0x60 0x64 s;
          s = mouse_wait dev 1 s;
          s = io_out status 0x60 s;
          s = mouse_write dev 0xF6 s;
          (_, s) = mouse_read dev s;
          s = mouse_write dev 0xF4 s;
          (_, s) = mouse_read dev s;
          (v, s) = io_in dev 0x21 s;
          s = io_out (v AND 0xfb) 0x21 s;
          (v, s) = io_in dev 0xa1 s
      in io_out (v AND 0xef) 0xa1 s)"

section \<open>Keys\<close>

text \<open>Every scan code has an entry, and the ones that print have a character.\<close>

lemma key_tables: "length key_way = 128 \<and> length key_map = 58 \<and> (\<forall>i<128. key_way ! i = Pln \<longrightarrow> i < 58)"
proof -
  have all: "\<forall>i\<in>set [58..<128]. key_way ! i \<noteq> Pln" by code_simp
  have "key_way ! i \<noteq> Pln" if "58 \<le> i" "i < 128" for i
    using that by (intro bspec [OF all]) (simp only: set_upt atLeastLessThan_iff simp_thms)
  moreover have "length key_way = 128" "length key_map = 58" by (simp_all add: key_way_def key_map_def)
  ultimately show ?thesis by (meson not_le)
qed

definition flag01 :: "u8 \<Rightarrow> bool" where "flag01 x \<longleftrightarrow> x = 0 \<or> x = 1"

definition kb_ok :: "keyboard \<Rightarrow> bool" where
  "kb_ok k \<longleftrightarrow> flag01 (shf_p k) \<and> flag01 (ctl_p k) \<and> flag01 (alt_p k) \<and> cursor_ok (kscreen k)"

text \<open>Shift keys are pressed and released with the codes 0x2a and 0x36, with the top bit on release.\<close>

definition is_shift :: "u8 \<times> u8 \<Rightarrow> bool" where
  "is_shift e \<longleftrightarrow> fst e AND 0x7f = 0x2a \<or> fst e AND 0x7f = 0x36"

lemma code_lt: "unat (c AND 0x7f :: u8) < 128"
proof -
  have "c AND 0x7f \<le> 0x7f" by (rule word_and_le1)
  then show ?thesis by (simp add: word_le_nat_alt)
qed

lemma key_shf: "key_way ! unat (c AND 0x7f) = Shf \<longleftrightarrow> is_shift (c, d)"
proof -
  have all: "\<forall>i\<in>set [0..<128]. key_way ! i = Shf \<longleftrightarrow> i = 42 \<or> i = 54" by code_simp
  have "key_way ! unat (c AND 0x7f) = Shf \<longleftrightarrow> unat (c AND 0x7f) = 42 \<or> unat (c AND 0x7f) = 54"
    using code_lt [of c] by (intro bspec [OF all]) (simp only: set_upt atLeastLessThan_iff simp_thms le0)
  moreover have "unat x = 42 \<longleftrightarrow> x = 0x2a" "unat x = 54 \<longleftrightarrow> x = 0x36" for x :: u8
    by (simp_all add: word_unat_eq_iff)
  ultimately show ?thesis by (simp add: is_shift_def)
qed

lemma flag01_xor: "flag01 x \<Longrightarrow> flag01 (x XOR 1)"
  by (auto simp: flag01_def)

lemma run_key_ok:
  assumes "kb_ok k"
  shows "kb_ok (run_key f k) \<and> only_screen (vmem (kscreen k)) (vmem (kscreen (run_key f k))) \<and>
    shf_p (run_key f k) = (if f = Shf then shf_p k XOR 1 else shf_p k)"
  using assms print_c_ok [of "kscreen k"] by (cases f) (auto simp: kb_ok_def flag01_xor)

lemma do_kb_ok:
  assumes "kb_ok k"
  shows "kb_ok (do_kb e k) \<and> only_screen (vmem (kscreen k)) (vmem (kscreen (do_kb e k))) \<and>
    shf_p (do_kb e k) = (if is_shift e then shf_p k XOR 1 else shf_p k) \<and>
    last (ports (kscreen (do_kb e k))) = (0x20, 0x20)"
proof -
  obtain c d where e: "e = (c, d)" by (cases e)
  have "kb_ok (k\<lparr>scan_code := c\<rparr>)" using assms by (simp add: kb_ok_def)
  from run_key_ok [OF this, of "key_way ! unat (c AND 0x7f)"] show ?thesis
    using key_shf [of c d] assms flag01_xor [of "shf_p k"] by (simp add: e do_kb_def Let_def kout_def kb_ok_def cursor_ok_def)
qed

text \<open>Whatever is typed after a state \<open>k0\<close>.\<close>

interpretation typing: kept_by_steps "\<lambda>k k'. \<exists>e. k' = do_kb e k"
    "\<lambda>k'. kb_ok k' \<and> only_screen (vmem (kscreen k0)) (vmem (kscreen k'))" for k0
  by unfold_locales (use do_kb_ok only_screen_trans in blast)

lemma typed_ok: "kb_ok k \<Longrightarrow> kb_ok (fold do_kb es k) \<and> only_screen (vmem (kscreen k)) (vmem (kscreen (fold do_kb es k)))"
  by (rule typing.events) auto

section \<open>The mouse set-up\<close>

lemma mouse_wait_writes [simp]: "writes (mouse_wait dev t s) = writes s"
proof -
  have "writes (mouse_wait_loop dev b n s) = writes s" for b n
    by (induction dev b n s rule: mouse_wait_loop.induct) (auto simp: io_in_def Let_def)
  then show ?thesis by (simp add: mouse_wait_def)
qed

section \<open>Properties\<close>

text \<open>
  Property C30. The keyboard driver is safe for every sequence of scan codes: the modifier flags
  stay 0 or 1 and the key tables are read within their bounds, the cursor stays on the screen and no
  other memory changes; every interrupt is acknowledged; and the shift flag is the parity of
  the shift events, presses and releases alike.
\<close>

theorem keyboard_safe:
  assumes "shf_p k = 0" and "ctl_p k = 0" and "alt_p k = 0" and "0 \<le> csr_x (kscreen k)" and "csr_x (kscreen k) < 80"
    and "0 \<le> csr_y (kscreen k)" and "csr_y (kscreen k) < 25"
  shows "let k' = fold do_kb es k in
    shf_p k' = (if even (length (filter is_shift es)) then 0 else 1) \<and> ctl_p k' \<in> {0, 1} \<and> alt_p k' \<in> {0, 1} \<and>
    (\<forall>c :: u8. unat (c AND 0x7f) < length key_way \<and>
      (key_way ! unat (c AND 0x7f) = Pln \<longrightarrow> unat (c AND 0x7f) < length key_map)) \<and>
    0 \<le> csr_x (kscreen k') \<and> csr_x (kscreen k') < 80 \<and> 0 \<le> csr_y (kscreen k') \<and> csr_y (kscreen k') < 25 \<and>
    (\<forall>a. \<not> on_screen a \<longrightarrow> vmem (kscreen k') a = vmem (kscreen k) a) \<and>
    (es \<noteq> [] \<longrightarrow> last (ports (kscreen k')) = (0x20, 0x20))"
proof -
  have init: "kb_ok k" using assms by (simp add: kb_ok_def flag01_def cursor_ok_def)
  have run: "shf_p (fold do_kb es k) = (if even (length (filter is_shift es)) then 0 else 1) \<and>
      (es \<noteq> [] \<longrightarrow> last (ports (kscreen (fold do_kb es k))) = (0x20, 0x20))"
  proof (induction es rule: rev_induct)
    case (snoc e es)
    then show ?case
      using do_kb_ok [of "fold do_kb es k" e] typed_ok [OF init] by auto
  qed (use init assms in simp)
  note ok = typed_ok [OF init, of es]
  have tabs: "\<forall>c :: u8. unat (c AND 0x7f) < length key_way \<and>
      (key_way ! unat (c AND 0x7f) = Pln \<longrightarrow> unat (c AND 0x7f) < length key_map)"
    using key_tables code_lt by auto
  show ?thesis
    unfolding Let_def by (intro conjI) (use run ok tabs in \<open>simp_all add: kb_ok_def flag01_def cursor_ok_def only_screen_def\<close>)
qed

theorem keyboard_safe_witness:
  "\<forall>m. shf_p (fold do_kb [(0x2a, 0), (0x1e, 0)]
    \<lparr>kscreen = \<lparr>vmem = m, xpos = 0, ypos = 0, csr_x = 0, csr_y = 0, ports = []\<rparr>,
      shf_p = 0, ctl_p = 0, alt_p = 0, scan_code = 0\<rparr>) = 1"
proof
  fix m
  show "shf_p (fold do_kb [(0x2a, 0), (0x1e, 0)]
    \<lparr>kscreen = \<lparr>vmem = m, xpos = 0, ypos = 0, csr_x = 0, csr_y = 0, ports = []\<rparr>,
      shf_p = 0, ctl_p = 0, alt_p = 0, scan_code = 0\<rparr>) = 1"
    by (rule trans [OF conjunct1 [OF keyboard_safe [unfolded Let_def]]]) (simp_all add: is_shift_def)
qed

text \<open>
  Mouse packets of three bytes: starting with an empty packet, after three bytes with the data bit set the
  packet is stored in order, is announced once and the next one starts; the index stays below three.
\<close>

theorem mouse_packet:
  assumes "mousecount c = 0" and "mouse_haswheel c = 0" and "length (mouse_byte c) = 4"
    and "s1 AND 1 \<noteq> 0" and "s2 AND 1 \<noteq> 0" and "s3 AND 1 \<noteq> 0"
  shows "let c1 = do_mouse (s1, a) c; c2 = do_mouse (s2, b) c1; c3 = do_mouse (s3, d) c2 in
    mousemoves c1 = 0 \<and> mousemoves c2 = 0 \<and> mousemoves c3 = 1 \<and> take 3 (mouse_byte c3) = [a, b, d] \<and>
    mousecount c1 = 1 \<and> mousecount c2 = 2 \<and> mousecount c3 = 0"
proof -
  obtain p q r t where m: "mouse_byte c = [p, q, r, t]"
    using assms(3) by (auto simp: length_Suc_conv numeral_eq_Suc)
  show ?thesis using assms by (simp add: do_mouse_def Let_def m)
qed

text \<open>
  The set-up always sends the same commands in the same order, whatever the controller answers: enable the
  second port, set the interrupt bit, default settings and reporting, and unmask the cascade and the mouse line.
\<close>

theorem mouse_install_commands:
  "\<exists>st m1 m2. writes (mouse_install dev s) = writes s @
    [(0xa8, 0x64), (0x20, 0x64), (0x60, 0x64), (st OR 2, 0x60), (0xD4, 0x64), (0xF6, 0x60), (0xD4, 0x64), (0xF4, 0x60),
     (m1 AND 0xfb, 0x21), (m2 AND 0xef, 0xa1)]"
  by (auto simp: mouse_install_def mouse_write_def mouse_read_def io_in_def io_out_def Let_def)

end
