(* ===== verification/Strftime.thy ===== *)
theory Strftime
  imports CTime
begin

text \<open>
  The text of a broken-down time: \<^verbatim>\<open>strftime\<close> of \<^verbatim>\<open>lib/time.c\<close> and the routines over it. Formats and texts are
  read and written in the flat memory; the environment gives the addresses of the string literals
  and of the local buffers, and the time zone. The sums of fields are taken at the width of an \<^verbatim>\<open>int\<close>.
\<close>

section \<open>Environment\<close>

record strf_env =
  conv_buf :: u32
  secs_buf :: u32
  lit :: "string \<Rightarrow> u32"
  szone :: zone

section \<open>Appending\<close>

text \<open>\<^verbatim>\<open>while (pt < ptlim && (*pt = *str++) != '\0') ++pt;\<close>\<close>

function add_c :: "u32 \<Rightarrow> u32 \<Rightarrow> u32 \<Rightarrow> mem \<Rightarrow> out" where
  "add_c str pt ptlim m =
     (if pt < ptlim
      then let m' = m(pt := m str)
           in if m str \<noteq> 0 then add_c (str + 1) (pt + 1) ptlim m' else (pt, m')
      else (pt, m))"
  by pat_completeness auto
termination
  by (relation "measure (\<lambda>(str, pt, ptlim, m). unat (ptlim - pt))") (simp, simp only: in_measure prod.case loop_measure(2))

declare add_c.simps [simp del]

definition conv_c :: "strf_env \<Rightarrow> int \<Rightarrow> string \<Rightarrow> u32 \<Rightarrow> out \<Rightarrow> out option" where
  "conv_c env n format ptlim o' =
     map_option (\<lambda>m. add_c (conv_buf env) (fst o') ptlim m)
       (sprintf (conv_buf env) (lit env format) (\<lambda>_. word_of_int n) (snd o'))"

section \<open>The conversions\<close>

definition days :: "string list" where
  "days = [''Sunday'', ''Monday'', ''Tuesday'', ''Wednesday'', ''Thursday'', ''Friday'', ''Saturday'']"

definition days_abbrev :: "string list" where
  "days_abbrev = [''Sun'', ''Mon'', ''Tue'', ''Wed'', ''Thu'', ''Fri'', ''Sat'']"

definition months :: "string list" where
  "months = [''January'', ''February'', ''March'', ''April'', ''May'', ''June'', ''July'', ''August'',
     ''September'', ''October'', ''November'', ''December'']"

definition months_abbrev :: "string list" where
  "months_abbrev = [''Jan'', ''Feb'', ''Mar'', ''Apr'', ''May'', ''Jun'', ''Jul'', ''Aug'', ''Sep'', ''Oct'', ''Nov'', ''Dec'']"

text \<open>What a conversion letter does: add a text, print a number, expand another format, or a special case.\<close>

datatype strf_act = Add string | Conv int string | Sub string | Seconds | Iso | Offset | Plain

definition hour12 :: "tm \<Rightarrow> int" where
  "hour12 t = (if smod_c (tm_hour t) 12 \<noteq> 0 then smod_c (tm_hour t) 12 else 12)"

definition strf_switch :: "tm \<Rightarrow> u8 \<Rightarrow> strf_act" where
  "strf_switch t c =
     (if c = 65 then Add (if tm_wday t < 0 \<or> tm_wday t > 6 then ''?'' else days ! nat (tm_wday t))
      else if c = 97 then Add (if tm_wday t < 0 \<or> tm_wday t > 6 then ''?'' else days_abbrev ! nat (tm_wday t))
      else if c = 66 then Add (if tm_mon t < 0 \<or> tm_mon t > 11 then ''?'' else months ! nat (tm_mon t))
      else if c = 98 \<or> c = 104 then Add (if tm_mon t < 0 \<or> tm_mon t > 11 then ''?'' else months_abbrev ! nat (tm_mon t))
      else if c = 67 then Conv (sdiv_c (i32 (tm_year t + 1900)) 100) ''%02d''
      else if c = 99 then Sub ''%a %b %e %H:%M:%S %Y''
      else if c = 68 then Sub ''%m/%d/%y''
      else if c = 100 then Conv (tm_mday t) ''%02d''
      else if c = 101 then Conv (tm_mday t) ''%2d''
      else if c = 70 then Sub ''%Y-%m-%d''
      else if c = 72 then Conv (tm_hour t) ''%02d''
      else if c = 73 then Conv (hour12 t) ''%02d''
      else if c = 106 then Conv (i32 (tm_yday t + 1)) ''%03d''
      else if c = 107 then Conv (tm_hour t) ''%2d''
      else if c = 108 then Conv (hour12 t) ''%2d''
      else if c = 77 then Conv (tm_min t) ''%02d''
      else if c = 109 then Conv (i32 (tm_mon t + 1)) ''%02d''
      else if c = 110 then Add [CHR 0x0A]
      else if c = 112 then Add (if tm_hour t \<ge> 12 then ''pm'' else ''am'')
      else if c = 82 then Sub ''%H:%M''
      else if c = 114 then Sub ''%I:%M:%S %p''
      else if c = 83 then Conv (tm_sec t) ''%02d''
      else if c = 115 then Seconds
      else if c = 84 then Sub ''%H:%M:%S''
      else if c = 116 then Add [CHR 0x09]
      else if c = 85 then Conv (sdiv_c (i32 (i32 (tm_yday t + 7) - tm_wday t)) 7) ''%02d''
      else if c = 117 then Conv (if tm_wday t = 0 then 7 else tm_wday t) ''%d''
      else if c = 86 \<or> c = 71 \<or> c = 103 then Iso
      else if c = 118 then Sub ''%e-%b-%Y''
      else if c = 87 then Conv (sdiv_c (i32 (i32 (tm_yday t + 7) - (if tm_wday t \<noteq> 0 then i32 (tm_wday t - 1) else 6))) 7) ''%02d''
      else if c = 119 then Conv (tm_wday t) ''%d''
      else if c = 88 then Sub ''%H:%M:%S''
      else if c = 120 then Sub ''%m/%d/%y''
      else if c = 121 then Conv (smod_c (i32 (tm_year t + 1900)) 100) ''%02d''
      else if c = 89 then Conv (i32 (tm_year t + 1900)) ''%04d''
      else if c = 90 then Add ''?''
      else if c = 122 then Offset
      else if c = 43 then Sub ''%a, %d %b %Y %H:%M:%S %z''
      else Plain)"

text \<open>The week number of ISO 8601 and the year it belongs to.\<close>

partial_function (option) iso_week :: "int \<Rightarrow> int \<Rightarrow> int \<Rightarrow> (int \<times> int) option" where
  "iso_week year yday wday =
     (let len = YEARSIZE year;
          bot = smod_c (i32 (i32 (yday + 11) - wday)) 7 - 3;
          top' = bot - smod_c len 7;
          top' = (if top' < - 3 then top' + 7 else top');
          top' = top' + len
      in if yday \<ge> top' then Some (i32 (year + 1), 1)
         else if yday \<ge> bot then Some (year, 1 + sdiv_c (i32 (yday - bot)) 7)
         else let year = i32 (year - 1) in iso_week year (i32 (yday + YEARSIZE year)) wday)"

text \<open>A conversion other than a nested format; \<open>c\<close> is its letter.\<close>

fun strf_run :: "strf_env \<Rightarrow> tm \<Rightarrow> u32 \<Rightarrow> u8 \<Rightarrow> strf_act \<Rightarrow> out \<Rightarrow> out option" where
  "strf_run env t ptlim c (Add s) o' = Some (add_c (lit env s) (fst o') ptlim (snd o'))"
| "strf_run env t ptlim c (Conv n f) o' = conv_c env n f ptlim o'"
| "strf_run env t ptlim c Seconds o' =
     Option.bind (mktime (szone env) t) (\<lambda>(mkt, _).
       map_option (\<lambda>m. add_c (secs_buf env) (fst o') ptlim m)
         (sprintf (secs_buf env) (lit env ''%lu'') (\<lambda>_. word_of_int mkt) (snd o')))"
| "strf_run env t ptlim c Iso o' =
     Option.bind (iso_week (i32 (tm_year t + 1900)) (tm_yday t) (tm_wday t)) (\<lambda>(year, w).
       if c = 86 then conv_c env w ''%02d'' ptlim o'
       else if c = 103 then conv_c env (smod_c year 100) ''%02d'' ptlim o'
       else conv_c env year ''%04d'' ptlim o')"
| "strf_run env t ptlim c Offset o' =
     (let absoff = timezone (szone env);
          o' = add_c (lit env (if absoff \<ge> 0 then ''+'' else ''-'')) (fst o') ptlim (snd o')
      in Option.bind (conv_c env (sdiv_c absoff 3600) ''%02d'' ptlim o')
           (conv_c env (sdiv_c (smod_c absoff 3600) 60) ''%02d'' ptlim))"
| "strf_run env t ptlim c (Sub s) o' = None"
| "strf_run env t ptlim c Plain o' = None"

section \<open>The format loop\<close>

text \<open>
  \<^verbatim>\<open>_fmt\<close>: a character is stored unless the limit is reached, which ends the loop. The tests for the
  modifiers E and O compare the percent sign itself and never succeed.
\<close>

partial_function (option) fmt_c :: "strf_env \<Rightarrow> tm \<Rightarrow> u32 \<Rightarrow> u32 \<Rightarrow> out \<Rightarrow> out option" where
  "fmt_c env t ptlim format o' =
     (if snd o' format = 0 then Some o'
      else if snd o' format = 37
      then let c = snd o' (format + 1); act = strf_switch t c
           in if c = 0
              then if fst o' = ptlim then Some o' else fmt_c env t ptlim (format + 1) (put (snd o' format) o')
              else case act of
                Plain \<Rightarrow> if fst o' = ptlim then Some o' else fmt_c env t ptlim (format + 2) (put c o')
              | Sub s \<Rightarrow> Option.bind (fmt_c env t ptlim (lit env s) o') (fmt_c env t ptlim (format + 2))
              | _ \<Rightarrow> Option.bind (strf_run env t ptlim c act o') (fmt_c env t ptlim (format + 2))
      else if fst o' = ptlim then Some o'
      else fmt_c env t ptlim (format + 1) (put (snd o' format) o'))"

definition strftime :: "strf_env \<Rightarrow> u32 \<Rightarrow> u32 \<Rightarrow> u32 \<Rightarrow> tm \<Rightarrow> mem \<Rightarrow> (u32 \<times> mem) option" where
  "strftime env s maxsize format t m =
     map_option (\<lambda>(p, m). if p = s + maxsize then (0, m) else (p - s, m(p := 0)))
       (fmt_c env t (s + maxsize) (if format = 0 then lit env ''%c'' else format) (s, m))"

definition asctime :: "strf_env \<Rightarrow> u32 \<Rightarrow> tm \<Rightarrow> mem \<Rightarrow> (u32 \<times> mem) option" where
  "asctime env ascbuf tp m =
     map_option (\<lambda>(_, m). (ascbuf, m)) (strftime env ascbuf 28 (lit env [CHR ''%'', CHR ''c'', CHR 0x0A]) tp m)"

definition ctime :: "strf_env \<Rightarrow> u32 \<Rightarrow> u32 \<Rightarrow> mem \<Rightarrow> (u32 \<times> mem) option" where
  "ctime env ascbuf tp m = Option.bind (localtime (szone env) tp) (\<lambda>t. asctime env ascbuf t m)"

text \<open>\<open>now\<close> is the uninitialised local that \<^verbatim>\<open>time\<close> does not set.\<close>

definition strdate :: "strf_env \<Rightarrow> u32 \<Rightarrow> u32 \<Rightarrow> mem \<Rightarrow> (u32 \<times> mem) option" where
  "strdate env now s m = Option.bind (localtime (szone env) now) (\<lambda>t.
     map_option (\<lambda>(_, m). (s, m)) (strftime env s 9 (lit env ''%D'') t m))"

definition strtime :: "strf_env \<Rightarrow> u32 \<Rightarrow> u32 \<Rightarrow> mem \<Rightarrow> (u32 \<times> mem) option" where
  "strtime env now s m = Option.bind (localtime (szone env) now) (\<lambda>t.
     map_option (\<lambda>(_, m). (s, m)) (strftime env s 9 (lit env ''%T'') t m))"

end
