(* ===== verification/StrftimeText.thy ===== *)
theory StrftimeText
  imports Strftime
begin

text \<open>
  What \<^verbatim>\<open>strftime\<close> writes: the ISO week loop follows the Thursday rule, and the output is the text
  of the format cut at the limit. That text is given by \<open>strf_spec\<close>, a table of the conversion letters over decimal
  numbers, names and clock times that does not use the definitions of the routine.
\<close>

section \<open>ISO weeks\<close>

text \<open>
  ISO 8601: a week belongs to the year of its Thursday. The Thursday of a day's week, as a day of that
  day's year, and the year and week number it gives.
\<close>

definition thursday :: "int \<Rightarrow> int \<Rightarrow> int" where
  "thursday yday wday = yday - (wday + 6) mod 7 + 3"

definition iso_spec :: "int \<Rightarrow> int \<Rightarrow> int \<Rightarrow> int \<times> int" where
  "iso_spec year yday wday =
     (let th = thursday yday wday
      in if th < 0 then (year - 1, (th + YEARSIZE (year - 1)) div 7 + 1)
         else if th \<ge> YEARSIZE year then (year + 1, 1)
         else (year, th div 7 + 1))"

lemma iso_step:
  assumes "0 \<le> wday" and "wday < 7" and "0 \<le> yday" and "yday < 2147483600"
  shows "iso_week year yday wday =
    (let th = thursday yday wday
     in if th \<ge> YEARSIZE year then Some (i32 (year + 1), 1)
        else if th \<ge> 0 then Some (year, th div 7 + 1)
        else iso_week (i32 (year - 1)) (i32 (yday + YEARSIZE (i32 (year - 1)))) wday)"
proof -
  define r k where "r = (yday + 11 - wday) mod 7" and "k = (yday + 11 - wday) div 7"
  define a b where "a = YEARSIZE year mod 7" and "b = YEARSIZE year div 7"
  define th len where "th = thursday yday wday" and "len = YEARSIZE year"
  define w q where "w = (if wday = 0 then 6 else wday - 1)" and "q = (if wday = 0 then k - 2 else k - 1)"
  have i: "i32 (i32 (yday + 11) - wday) = yday + 11 - wday" "i32 (yday - (r - 3)) = yday - (r - 3)"
    using assms by (auto simp: i32_id r_def)
  have s: "smod_c (i32 (i32 (yday + 11) - wday)) 7 = r" "smod_c (YEARSIZE year) 7 = a"
    using assms YEARSIZE_pos [of year] by (simp_all add: i smod_c_nonneg r_def a_def)
  have e: "yday + 11 - wday = 7 * k + r" "YEARSIZE year = 7 * b + a" by (simp_all add: r_def k_def a_def b_def)
  have rb: "0 \<le> r" "r < 7" "0 \<le> a" "a < 7" "0 \<le> w" "w < 7"
    using assms by (simp_all add: r_def a_def w_def)
  have "(wday + 6) mod 7 = w"
  proof (cases "wday = 0")
    case False
    have "wday + 6 = 7 * 1 + (wday - 1)" by simp
    then have "(wday + 6) mod 7 = wday - 1" by (rule int_mod_pos_eq) (use assms False in linarith)+
    with False show ?thesis by (simp add: w_def)
  qed (simp add: w_def)
  then have t: "th = 7 * q + r" and y: "yday = 7 * q + r + w - 3"
    using e(1) by (auto simp: th_def thursday_def q_def w_def)
  have le: "7 * c \<le> 7 * q + w \<longleftrightarrow> c \<le> q" for c using rb by presburger
  have d: "(7 * q + w) div 7 = q" by (rule int_div_pos_eq [OF refl]) (use rb in simp_all)
  have d': "(7 * q + r) div 7 = q" by (rule int_div_pos_eq [OF refl]) (use rb in simp_all)
  define top' where "top' = (if r - 3 - a < - 3 then r - 3 - a + 7 else r - 3 - a)"
  have l: "len = 7 * b + a" using e(2) by (simp add: len_def)
  have c1: "yday \<ge> top' + len \<longleftrightarrow> th \<ge> len"
    using rb t y l unfolding top'_def by presburger
  have c2: "yday \<ge> r - 3 \<longleftrightarrow> th \<ge> 0"
    using rb t y by presburger
  have c3: "1 + sdiv_c (i32 (yday - (r - 3))) 7 = th div 7 + 1" if "yday \<ge> r - 3"
    using that d d' y t unfolding i by (simp add: sdiv_c_nonneg algebra_simps)
  show ?thesis
    unfolding iso_week.simps [of year yday wday] Let_def s
    unfolding top'_def [symmetric] th_def [symmetric] len_def [symmetric] c1
    using c2 c3 by simp
qed

lemma iso_week_spec:
  assumes "0 \<le> wday" and "wday < 7" and "0 \<le> yday" and "yday < 2147483600"
    and "- 2147483648 < year" and "year < 2147483647"
  shows "iso_week year yday wday = Some (iso_spec year yday wday)"
proof -
  have y: "i32 (year + 1) = year + 1" "i32 (year - 1) = year - 1" using assms(5,6) by (simp_all add: i32_id)
  show ?thesis
  proof (cases "thursday yday wday < 0")
    case True
    let ?l = "YEARSIZE (year - 1)"
    have sh: "thursday (yday + ?l) wday = thursday yday wday + ?l" by (simp add: thursday_def)
    have "- 3 \<le> thursday yday wday"
      using assms(3) pos_mod_bound [of 7 "wday + 6"] by (simp add: thursday_def)
    moreover have "yday < 3"
      using True pos_mod_bound [of 7 "wday + 6"] by (simp add: thursday_def)
    then have s: "0 \<le> yday + ?l" "yday + ?l < 2147483600" "i32 (yday + ?l) = yday + ?l"
      using assms(3) YEARSIZE_pos [of "year - 1"] by (simp_all add: i32_id)
    ultimately show ?thesis
      using True YEARSIZE_pos [of year] YEARSIZE_pos [of "year - 1"] iso_step [OF assms(1-4), of year]
        iso_step [OF assms(1,2) s(1,2), of "year - 1"] assms(3)
      by (simp add: iso_spec_def sh y s(3))
  next
    case False
    with iso_step [OF assms(1-4), of year] show ?thesis by (simp add: iso_spec_def Let_def y)
  qed
qed

section \<open>Numbers\<close>

text \<open>The directive of each number format, and its text, as \<^verbatim>\<open>sprintf\<close> prints it.\<close>

definition num_formats :: "string list" where
  "num_formats = [''%02d'', ''%2d'', ''%03d'', ''%04d'', ''%d'', ''%lu'']"

definition num_item :: "string \<Rightarrow> item" where
  "num_item f =
     (if f = ''%02d'' then Dir [48] (Some 2) None [] 100
      else if f = ''%2d'' then Dir [] (Some 2) None [] 100
      else if f = ''%03d'' then Dir [48] (Some 3) None [] 100
      else if f = ''%04d'' then Dir [48] (Some 4) None [] 100
      else if f = ''%d'' then Dir [] None None [] 100
      else Dir [] None None [108] 117)"

definition num_out :: "string \<Rightarrow> u32 \<Rightarrow> u8 list" where
  "num_out f a = item_text (\<lambda>_. []) a (num_item f)"

lemma num_item_simps:
  "num_item ''%02d'' = Dir [48] (Some 2) None [] 100" "num_item ''%2d'' = Dir [] (Some 2) None [] 100"
  "num_item ''%03d'' = Dir [48] (Some 3) None [] 100" "num_item ''%04d'' = Dir [48] (Some 4) None [] 100"
  "num_item ''%d'' = Dir [] None None [] 100" "num_item ''%lu'' = Dir [] None None [108] 117"
  by (simp_all add: num_item_def)

lemma num_item_chars: "f \<in> set num_formats \<Longrightarrow> item_chars (num_item f) = bytes f \<and> wf_item (num_item f)"
proof -
  have n: "num_text 10 2 = [50]" "num_text 10 3 = [51]" "num_text 10 4 = [52]"
    by (simp_all add: num_text.simps [of _ "numeral _"] digit_byte_def)
  have "list_all (\<lambda>f. item_chars (num_item f) = bytes f \<and> wf_item (num_item f)) num_formats"
    unfolding num_formats_def list.pred_inject num_item_simps
    by (simp add: width_chars_def prec_chars_def n flag_chars_def conv_chars_def)
  then show "f \<in> set num_formats \<Longrightarrow> ?thesis" by (simp add: list_all_iff)
qed

lemma number_text_length:
  assumes "w \<le> 31" and "\<not> has type SPECIAL"
  shows "length (number_text a 10 w (- 1) type) \<le> 31"
proof -
  have "magnitude type a < 10 ^ 10"
    using unat_lt_u32 [of a] unat_lt_u32 [of "- a"] by (simp add: magnitude_def)
  then have "length (num_text 10 (magnitude type a)) \<le> 10" by (rule length_num_text) simp
  moreover have "length (num_sign type a) \<le> 1" "num_prefix type 10 = []"
    using assms(2) by (simp_all add: num_sign_def num_prefix_def)
  ultimately show ?thesis using assms(1) unfolding number_text_def Let_def by auto
qed

lemma number_text_nonzero: "0 \<notin> set (number_text a 10 w p type)"
proof -
  have "0 \<notin> set (digit_text s 10 k)" for s k
    using digits_num_text [of k] by (auto simp: digit_text_def case_of_def digits_def)
  then show ?thesis
    by (auto simp: number_text_def Let_def num_sign_def num_prefix_def blanks_def)
qed

lemma flag_sets:
  "flag_bits [] = 0" "flag_bits [48] = ZEROPAD" "\<not> has SIGN SPECIAL" "\<not> has (ZEROPAD OR SIGN) SPECIAL" "\<not> has 0 SPECIAL"
  by (simp_all add: flag_bits_def flag_bit_def has_def ZEROPAD_def SIGN_def SPECIAL_def)

lemma num_out_simps:
  "num_out ''%02d'' a = number_text a 10 2 (- 1) (ZEROPAD OR SIGN)"
  "num_out ''%2d'' a = number_text a 10 2 (- 1) SIGN"
  "num_out ''%03d'' a = number_text a 10 3 (- 1) (ZEROPAD OR SIGN)"
  "num_out ''%04d'' a = number_text a 10 4 (- 1) (ZEROPAD OR SIGN)"
  "num_out ''%d'' a = number_text a 10 (- 1) (- 1) SIGN"
  "num_out ''%lu'' a = number_text a 10 (- 1) (- 1) 0"
  unfolding num_out_def num_item_simps by (simp_all add: conv_text_def opt_int_def flag_sets)

lemma num_out_facts: "f \<in> set num_formats \<Longrightarrow> length (num_out f a) \<le> 31 \<and> 0 \<notin> set (num_out f a)"
proof -
  have "list_all (\<lambda>f. length (num_out f a) \<le> 31 \<and> 0 \<notin> set (num_out f a)) num_formats"
    unfolding num_formats_def list.pred_inject num_out_simps
    by (simp add: number_text_nonzero number_text_length flag_sets)
  then show "f \<in> set num_formats \<Longrightarrow> ?thesis" by (simp add: list_all_iff)
qed

lemma sprintf_num:
  assumes "f \<in> set num_formats" and "cstr m fmt (bytes f)" and "region fmt (Suc (length f)) \<inter> region buf 32 = {}"
  shows "sprintf buf fmt args m = Some (put_bytes buf (num_out f (args 0) @ [0]) m)"
proof -
  have ic: "item_chars (num_item f) = bytes f" "wf_item (num_item f)" using num_item_chars [OF assms(1)] by simp_all
  have ft: "format_text (\<lambda>_. []) args 0 [num_item f] = num_out f (args 0)"
    by (simp add: num_out_def)
  have sub: "region buf (length (num_out f (args 0))) \<subseteq> region buf 32"
    using num_out_facts [OF assms(1), of "args 0"] by (intro region_mono) simp
  have fc: "format_chars [num_item f] = bytes f" using ic by simp
  have so: "strings_ok (region buf (length (num_out f (args 0)))) m (\<lambda>_. []) args 0 [num_item f]"
    by (simp add: num_item_def)
  have dj: "region fmt (Suc (length (bytes f))) \<inter> region buf (length (num_out f (args 0))) = {}"
    using assms(3) sub unfolding bytes_simps by blast
  show ?thesis
    using vsprintf_lemma(2) [of m fmt "[num_item f]" buf "\<lambda>_. []" args] assms(2) ic(2) so dj
    unfolding ft fc list.set by blast
qed

section \<open>The output area\<close>

definition strf_lits :: "string list" where
  "strf_lits = days @ days_abbrev @ months @ months_abbrev @ num_formats @
     [''?'', [CHR 0x0A], [CHR 0x09], ''pm'', ''am'', ''+'', ''-'', ''%c'', ''%a %b %e %H:%M:%S %Y'', ''%m/%d/%y'',
      ''%Y-%m-%d'', ''%H:%M'', ''%I:%M:%S %p'', ''%H:%M:%S'', ''%e-%b-%Y'', ''%a, %d %b %Y %H:%M:%S %z'']"

text \<open>
  The bytes a call may write, and what it relies on: the area does not wrap around, and the area, the
  local buffers and the string literals do not overlap.
\<close>

definition written :: "strf_env \<Rightarrow> u32 \<Rightarrow> nat \<Rightarrow> u32 set" where
  "written env s N = region s N \<union> region (conv_buf env) 32 \<union> region (secs_buf env) 32"

definition area :: "strf_env \<Rightarrow> u32 \<Rightarrow> nat \<Rightarrow> mem \<Rightarrow> bool" where
  "area env s N m \<longleftrightarrow> unat s + N < 4294967296 \<and>
     region (conv_buf env) 32 \<inter> region s N = {} \<and> region (secs_buf env) 32 \<inter> region s N = {} \<and>
     (\<forall>f\<in>set strf_lits. cstr m (lit env f) (bytes f) \<and>
        region (lit env f) (Suc (length f)) \<inter> written env s N = {})"

text \<open>The text \<open>T\<close> has been appended, as far as it fits.\<close>

definition shown :: "strf_env \<Rightarrow> u32 \<Rightarrow> nat \<Rightarrow> mem \<Rightarrow> u8 list \<Rightarrow> out \<Rightarrow> bool" where
  "shown env s N m T o' \<longleftrightarrow> fst o' = s + of_nat (min (length T) N) \<and>
     (\<forall>i < min (length T) N. snd o' (s + of_nat i) = T ! i) \<and>
     (\<forall>x. x \<notin> written env s N \<longrightarrow> snd o' x = m x)"

lemma areaD:
  assumes "area env s N m"
  shows "N < 4294967296" and "region s N \<subseteq> written env s N" and "region (conv_buf env) 32 \<subseteq> written env s N"
    and "region (secs_buf env) 32 \<subseteq> written env s N"
  using assms by (auto simp: area_def written_def)

lemma area_lit:
  assumes "area env s N m" and "f \<in> set strf_lits" and "shown env s N m T o'"
  shows "cstr (snd o') (lit env f) (bytes f)" and "region (lit env f) (Suc (length f)) \<inter> written env s N = {}"
proof -
  show d: "region (lit env f) (Suc (length f)) \<inter> written env s N = {}"
    using assms(1,2) by (auto simp: area_def)
  show "cstr (snd o') (lit env f) (bytes f)"
    by (rule cstr_agree [where D = "written env s N" and m = m]) (use assms d in \<open>auto simp: area_def shown_def\<close>)
qed

lemma below_limit:
  assumes "area env s N m" and "k \<le> N"
  shows "s + of_nat k < s + of_nat N \<longleftrightarrow> k < N" and "s + of_nat k = s + of_nat N \<longleftrightarrow> k = N"
proof -
  have b: "unat s + N < 4294967296" using assms(1) by (simp add: area_def)
  have "unat (s + of_nat k) = unat s + k" "unat (s + of_nat N) = unat s + N"
    using b assms(2) by (simp_all add: unat_add_nowrap unat_of_nat_u32)
  then show "s + of_nat k < s + of_nat N \<longleftrightarrow> k < N" by (simp add: word_less_nat_alt)
  show "s + of_nat k = s + of_nat N \<longleftrightarrow> k = N"
    using offset_eq_iff [of k N s] b assms(2) by simp
qed

lemma upto_full: "N \<le> length T \<Longrightarrow> shown env s N m T o' \<Longrightarrow> shown env s N m (T @ xs) o'"
  by (simp add: shown_def nth_append min_def)

lemma upto_room:
  assumes "area env s N m" and "shown env s N m T o'"
  shows "fst o' < s + of_nat N \<longleftrightarrow> length T < N" and "fst o' = s + of_nat N \<longleftrightarrow> N \<le> length T"
  using assms below_limit [OF assms(1), of "min (length T) N"] by (auto simp: shown_def)

lemma upto_store:
  assumes "area env s N m" and "shown env s N m T (p, m')" and "length T < N"
  shows "shown env s N m (T @ [c]) (p + 1, m'(p := c))" and "shown env s N m T (p, m'(p := c))"
proof -
  have p: "p = s + of_nat (length T)" using assms(2,3) by (simp add: shown_def)
  have ne: "s + of_nat i \<noteq> p" if "i < length T" for i
    using that assms areaD(1) [OF assms(1)] offset_eq_iff [of i "length T" s] by (simp add: p)
  have "p \<in> written env s N" unfolding p using assms(3) areaD(2) [OF assms(1)] by auto
  then show "shown env s N m T (p, m'(p := c))" "shown env s N m (T @ [c]) (p + 1, m'(p := c))"
    using assms(2,3) ne p by (auto simp: shown_def nth_append less_Suc_eq)
qed

lemma upto_put:
  assumes "area env s N m" and "shown env s N m T o'" and "length T < N"
  shows "shown env s N m (T @ [c]) (put c o')"
  using upto_store(1) [OF assms(1) _ assms(3), of "fst o'" "snd o'" c] assms(2) by (simp add: put_def)

lemma add_c_upto:
  assumes "area env s N m" and "region str (Suc (length xs)) \<inter> region s N = {}"
    and "cstr m' str xs" and "shown env s N m T (p, m')"
  shows "shown env s N m (T @ xs) (add_c str p (s + of_nat N) m')"
  using assms(2-)
proof (induction xs arbitrary: str p m' T)
  case Nil
  show ?case
  proof (cases "length T < N")
    case True
    with Nil show ?thesis
      using upto_room(1) [OF assms(1) Nil.prems(3)] upto_store(2) [OF assms(1) Nil.prems(3) True]
      by (simp add: add_c.simps [of str])
  next
    case False
    with Nil show ?thesis using upto_room(1) [OF assms(1) Nil.prems(3)] by (simp add: add_c.simps [of str])
  qed
next
  case (Cons x xs)
  show ?case
  proof (cases "length T < N")
    case True
    have p: "p < s + of_nat N" using upto_room(1) [OF assms(1) Cons.prems(3)] True by simp
    have "p \<in> region s N" using Cons.prems(3) True by (auto simp: shown_def)
    have "cstr (m'(p := x)) (str + 1) xs"
    proof (rule cstr_agree [where D = "region s N" and m = m'])
      show "(m'(p := x)) y = m' y" if "y \<notin> region s N" for y
        using that \<open>p \<in> region s N\<close> by auto
      show "region (str + 1) (Suc (length xs)) \<inter> region s N = {}"
        using Cons.prems(1) by (auto simp: region_Suc)
    qed (use Cons.prems in simp)
    moreover have "region (str + 1) (Suc (length xs)) \<inter> region s N = {}"
      using Cons.prems(1) by (auto simp: region_Suc)
    moreover have "shown env s N m (T @ [x]) (p + 1, m'(p := x))"
      by (rule upto_store(1) [OF assms(1) Cons.prems(3) True])
    ultimately have "shown env s N m ((T @ [x]) @ xs) (add_c (str + 1) (p + 1) (s + of_nat N) (m'(p := x)))"
      by (intro Cons.IH)
    with Cons.prems(2) p show ?thesis by (simp add: add_c.simps [of str])
  next
    case False
    then have "add_c str p (s + of_nat N) m' = (p, m')"
      using upto_room(1) [OF assms(1) Cons.prems(3)] by (simp add: add_c.simps [of str])
    with False Cons.prems(3) show ?thesis by (simp add: upto_full)
  qed
qed

section \<open>The text of a format\<close>

text \<open>
  The text of a conversion that is not a nested format, and the text of a format for a meaning
  \<open>D\<close> of its letters; a percent sign at the very end stands for itself.
\<close>

definition seconds_of :: "zone \<Rightarrow> tm \<Rightarrow> int" where
  "seconds_of z t = (case mktime z t of Some (k, _) \<Rightarrow> k | None \<Rightarrow> 0)"

fun act_text :: "zone \<Rightarrow> tm \<Rightarrow> u8 \<Rightarrow> strf_act \<Rightarrow> u8 list" where
  "act_text z t c (Add s) = bytes s"
| "act_text z t c (Conv n f) = num_out f (word_of_int n)"
| "act_text z t c Seconds = num_out ''%lu'' (word_of_int (seconds_of z t))"
| "act_text z t c Iso =
     (case iso_spec (tm_year t + 1900) (tm_yday t) (tm_wday t) of (year, w) \<Rightarrow>
       if c = 86 then num_out ''%02d'' (word_of_int w)
       else if c = 103 then num_out ''%02d'' (word_of_int (smod_c year 100))
       else num_out ''%04d'' (word_of_int year))"
| "act_text z t c Offset =
     bytes (if timezone z \<ge> 0 then ''+'' else ''-'') @ num_out ''%02d'' (word_of_int (sdiv_c (timezone z) 3600)) @
     num_out ''%02d'' (word_of_int (sdiv_c (smod_c (timezone z) 3600) 60))"
| "act_text z t c (Sub s) = []"
| "act_text z t c Plain = [c]"

fun ftext :: "(u8 \<Rightarrow> u8 list) \<Rightarrow> u8 list \<Rightarrow> u8 list" where
  "ftext D [] = []"
| "ftext D [c] = [c]"
| "ftext D (c # c' # cs) = (if c = 37 then D c' @ ftext D cs else c # ftext D (c' # cs))"

definition flat_text :: "zone \<Rightarrow> tm \<Rightarrow> u8 \<Rightarrow> u8 list" where
  "flat_text z t c = act_text z t c (strf_switch t c)"

definition letter_text :: "zone \<Rightarrow> tm \<Rightarrow> u8 \<Rightarrow> u8 list" where
  "letter_text z t c =
     (case strf_switch t c of Sub s \<Rightarrow> ftext (flat_text z t) (bytes s) | act \<Rightarrow> act_text z t c act)"

definition strf_text :: "zone \<Rightarrow> tm \<Rightarrow> u8 list \<Rightarrow> u8 list" where
  "strf_text z t format = ftext (letter_text z t) format"

text \<open>The letters a format uses.\<close>

fun letters :: "u8 list \<Rightarrow> u8 set" where
  "letters [] = {}"
| "letters [c] = {}"
| "letters (c # c' # cs) = (if c = 37 then insert c' (letters cs) else letters (c' # cs))"

definition sub_letters :: "u8 set" where
  "sub_letters = {99, 68, 70, 82, 114, 84, 118, 88, 120, 43}"

definition sub_formats :: "string list" where
  "sub_formats = [''%a %b %e %H:%M:%S %Y'', ''%m/%d/%y'', ''%Y-%m-%d'', ''%H:%M'', ''%I:%M:%S %p'', ''%H:%M:%S'',
     ''%e-%b-%Y'', ''%a, %d %b %Y %H:%M:%S %z'']"

lemma switch_Sub: "strf_switch t c = Sub s \<Longrightarrow> c \<in> sub_letters \<and> s \<in> set sub_formats"
  by (simp add: strf_switch_def sub_letters_def sub_formats_def split: if_split_asm)

lemma sub_flat: "s \<in> set sub_formats \<Longrightarrow> letters (bytes s) \<inter> sub_letters = {}"
proof -
  have "list_all (\<lambda>s. letters (bytes s) \<inter> sub_letters = {}) sub_formats"
    unfolding sub_formats_def list.pred_inject by (simp add: sub_letters_def)
  then show "s \<in> set sub_formats \<Longrightarrow> ?thesis" by (simp add: list_all_iff)
qed

lemma switch_Conv: "strf_switch t c = Conv n f \<Longrightarrow> f \<in> set num_formats"
  by (simp add: strf_switch_def num_formats_def split: if_split_asm)

lemma name_in: "0 \<le> k \<Longrightarrow> nat k < length xs \<Longrightarrow> set xs \<subseteq> set strf_lits \<Longrightarrow> xs ! nat k \<in> set strf_lits"
  by auto

lemma names_in: "set days \<subseteq> set strf_lits" "set days_abbrev \<subseteq> set strf_lits" "set months \<subseteq> set strf_lits"
    "set months_abbrev \<subseteq> set strf_lits" "set num_formats \<subseteq> set strf_lits" "set sub_formats \<subseteq> set strf_lits"
    "''?'' \<in> set strf_lits" "[CHR 0x0A] \<in> set strf_lits" "[CHR 0x09] \<in> set strf_lits" "''pm'' \<in> set strf_lits"
    "''am'' \<in> set strf_lits" "''+'' \<in> set strf_lits" "''-'' \<in> set strf_lits" "''%c'' \<in> set strf_lits"
  unfolding strf_lits_def sub_formats_def by (simp_all only: set_append) auto

lemma names_length: "length days = 7" "length days_abbrev = 7" "length months = 12" "length months_abbrev = 12"
  by (simp_all add: days_def days_abbrev_def months_def months_abbrev_def)

lemma switch_Add: "strf_switch t c = Add s \<Longrightarrow> s \<in> set strf_lits"
  using names_in name_in [of "tm_wday t" days] name_in [of "tm_wday t" days_abbrev]
    name_in [of "tm_mon t" months] name_in [of "tm_mon t" months_abbrev]
  unfolding names_length
  by (simp add: strf_switch_def split: if_split_asm) auto

section \<open>The conversions\<close>

lemma region_bytes [simp]: "region a (Suc (length (bytes s))) = region a (Suc (length s))"
  by simp

lemma buf_upto:
  assumes a: "area env s N m" and up: "shown env s N m T o'" and f: "f \<in> set num_formats"
    and b: "region buf 32 \<subseteq> written env s N" "region buf 32 \<inter> region s N = {}"
  shows "\<exists>m'. sprintf buf (lit env f) args (snd o') = Some m' \<and>
    shown env s N m (T @ num_out f (args 0)) (add_c buf (fst o') (s + of_nat N) m')"
proof -
  let ?t = "num_out f (args 0)"
  let ?m = "put_bytes buf (?t @ [0]) (snd o')"
  have fl: "f \<in> set strf_lits" using f names_in(5) by blast
  have t: "length ?t \<le> 31" "0 \<notin> set ?t" using num_out_facts [OF f] by simp_all
  have dj: "region (lit env f) (Suc (length f)) \<inter> region buf 32 = {}"
    using area_lit(2) [OF a fl up] b(1) by blast
  have run: "sprintf buf (lit env f) args (snd o') = Some ?m"
    by (rule sprintf_num [OF f area_lit(1) [OF a fl up] dj])
  have sub: "region buf (Suc (length ?t)) \<subseteq> region buf 32" using t(1) by (intro region_mono) simp
  have same: "?m x = snd o' x" if "x \<notin> region buf 32" for x
    using that sub by (intro put_bytes_outside) auto
  have "shown env s N m T (fst o', ?m)"
  proof -
    have "s + of_nat i \<notin> region buf 32" if "i < min (length T) N" for i
      using b(2) that by (auto dest: in_region [of i N s])
    moreover have "x \<notin> region buf 32" if "x \<notin> written env s N" for x using b(1) that by blast
    ultimately show ?thesis using up same by (simp add: shown_def)
  qed
  moreover have "cstr ?m buf ?t" by (rule put_bytes_cstr) (use t in simp_all)
  moreover have "region buf (Suc (length ?t)) \<inter> region s N = {}" using sub b(2) by blast
  ultimately have "shown env s N m (T @ ?t) (add_c buf (fst o') (s + of_nat N) ?m)"
    using a by (intro add_c_upto)
  with run show ?thesis by blast
qed

lemma conv_upto:
  assumes a: "area env s N m" and up: "shown env s N m T o'" and f: "f \<in> set num_formats"
  shows "\<exists>o''. conv_c env n f (s + of_nat N) o' = Some o'' \<and> shown env s N m (T @ num_out f (word_of_int n)) o''"
proof -
  have "region (conv_buf env) 32 \<inter> region s N = {}" using a by (simp add: area_def)
  from buf_upto [OF a up f areaD(3) [OF a] this, of "\<lambda>_. word_of_int n"]
  obtain m' where m': "sprintf (conv_buf env) (lit env f) (\<lambda>_. word_of_int n) (snd o') = Some m'"
      "shown env s N m (T @ num_out f (word_of_int n)) (add_c (conv_buf env) (fst o') (s + of_nat N) m')"
    by auto
  have "conv_c env n f (s + of_nat N) o' = Some (add_c (conv_buf env) (fst o') (s + of_nat N) m')"
    unfolding conv_c_def m'(1) by (rule option.map(2))
  with m'(2) show ?thesis by blast
qed

lemma lit_upto:
  assumes a: "area env s N m" and up: "shown env s N m T o'" and f: "f \<in> set strf_lits"
  shows "shown env s N m (T @ bytes f) (add_c (lit env f) (fst o') (s + of_nat N) (snd o'))"
proof (rule add_c_upto [OF a])
  show "region (lit env f) (Suc (length (bytes f))) \<inter> region s N = {}"
    using area_lit(2) [OF a f up] areaD(2) [OF a] by auto
  show "cstr (snd o') (lit env f) (bytes f)" by (rule area_lit(1) [OF a f up])
qed (use up in simp)

lemma num_formats_mem:
  "''%02d'' \<in> set num_formats" "''%04d'' \<in> set num_formats" "''%lu'' \<in> set num_formats"
  by (simp_all add: num_formats_def)

text \<open>\<^verbatim>\<open>mktime\<close> returns on well-formed fields.\<close>

lemma mktime_returns:
  assumes "tm_ok t"
  shows "\<exists>k t'. mktime z t = Some (k, t')"
proof -
  have f: "0 \<le> tm_sec t" "tm_sec t < 60" "0 \<le> tm_min t" "tm_min t < 60" "0 \<le> tm_hour t" "tm_hour t < 24"
    "0 \<le> tm_mon t" "tm_mon t < 12" "1 \<le> tm_mday t" "tm_mday t \<le> month_days (tm_year t + 1900) (tm_mon t)"
    using assms by (simp_all add: tm_ok_def)
  have up: "day_up (tm_mday t - 1) (tm_mon t) (tm_year t) = Some (tm_mday t - 1, tm_mon t, tm_year t)"
    using f by (subst day_up.simps) simp
  have down: "day_down (tm_mday t - 1) (tm_mon t) (tm_year t) = Some (tm_mday t - 1, tm_mon t, tm_year t)"
    using f by (subst day_down.simps) (simp add: YEAR0_def add.commute)
  have c: "carry 60 (tm_sec t) (tm_min t) = (tm_sec t, tm_min t)" "carry 60 (tm_min t) (tm_hour t) = (tm_min t, tm_hour t)"
    "carry 24 (tm_hour t) 0 = (tm_hour t, 0)" "carry 12 (tm_mon t) (tm_year t) = (tm_mon t, tm_year t)"
    using f by (simp_all add: carry_id)
  show ?thesis
    unfolding mktime_def c Let_def prod.case add_0_left up down Option.bind_lunit
    by (simp split: if_split)
qed

text \<open>Well-formed fields of a year that, like its neighbours, is an \<^verbatim>\<open>int\<close>.\<close>

definition time_ok :: "tm \<Rightarrow> bool" where
  "time_ok t \<longleftrightarrow> tm_ok t \<and> - 2147483648 < tm_year t + 1900 \<and> tm_year t + 1900 < 2147483647"

lemma time_okD:
  assumes "time_ok t"
  shows "tm_ok t" and "i32 (tm_year t + 1900) = tm_year t + 1900"
    and "iso_week (tm_year t + 1900) (tm_yday t) (tm_wday t) = Some (iso_spec (tm_year t + 1900) (tm_yday t) (tm_wday t))"
proof -
  show ok: "tm_ok t" using assms by (simp add: time_ok_def)
  show "i32 (tm_year t + 1900) = tm_year t + 1900" using assms by (intro i32_id) (simp_all add: time_ok_def)
  have "tm_yday t < 2147483600"
    using ok YEARSIZE_pos(2) [of "tm_year t + 1900"] by (simp add: tm_ok_def)
  then show "iso_week (tm_year t + 1900) (tm_yday t) (tm_wday t) = Some (iso_spec (tm_year t + 1900) (tm_yday t) (tm_wday t))"
    using ok assms by (intro iso_week_spec) (simp_all add: tm_ok_def time_ok_def)
qed

lemma run_upto:
  assumes a: "area env s N m" and up: "shown env s N m T o'" and ok: "time_ok t"
    and act: "strf_switch t c = act" "\<And>s. act \<noteq> Sub s" "act \<noteq> Plain"
  shows "\<exists>o''. strf_run env t (s + of_nat N) c act o' = Some o'' \<and>
    shown env s N m (T @ act_text (szone env) t c act) o''"
proof (cases act)
  case (Add f)
  then have "f \<in> set strf_lits" using act(1) switch_Add by blast
  from lit_upto [OF a up this] Add show ?thesis by simp
next
  case (Conv n f)
  then have "f \<in> set num_formats" using act(1) switch_Conv by blast
  from conv_upto [OF a up this] Conv show ?thesis by simp
next
  case Seconds
  obtain k t' where k: "mktime (szone env) t = Some (k, t')" using mktime_returns [OF time_okD(1) [OF ok]] by blast
  have "region (secs_buf env) 32 \<inter> region s N = {}" using a by (simp add: area_def)
  from buf_upto [OF a up num_formats_mem(3) areaD(4) [OF a] this, of "\<lambda>_. word_of_int k"]
  obtain m' where m': "sprintf (secs_buf env) (lit env ''%lu'') (\<lambda>_. word_of_int k) (snd o') = Some m'"
    "shown env s N m (T @ num_out ''%lu'' (word_of_int k)) (add_c (secs_buf env) (fst o') (s + of_nat N) m')"
    by blast
  have "strf_run env t (s + of_nat N) c act o' = Some (add_c (secs_buf env) (fst o') (s + of_nat N) m')"
    unfolding Seconds strf_run.simps k Option.bind_lunit prod.case m'(1) by (rule option.map(2))
  moreover have "act_text (szone env) t c act = num_out ''%lu'' (word_of_int k)"
    using k Seconds by (simp add: seconds_of_def)
  ultimately show ?thesis using m'(2) by metis
next
  case Iso
  obtain y wk where iso: "iso_spec (tm_year t + 1900) (tm_yday t) (tm_wday t) = (y, wk)" by fastforce
  show ?thesis
    unfolding Iso strf_run.simps act_text.simps time_okD(2,3) [OF ok] iso Option.bind_lunit prod.case
    using conv_upto [OF a up] num_formats_mem by (auto split: if_split)
next
  case Offset
  let ?f = "if timezone (szone env) \<ge> 0 then ''+'' else ''-''"
  let ?o = "add_c (lit env ?f) (fst o') (s + of_nat N) (snd o')"
  have "?f \<in> set strf_lits" using names_in by simp
  then have u1: "shown env s N m (T @ bytes ?f) ?o" by (rule lit_upto [OF a up])
  obtain o2 where o2: "conv_c env (sdiv_c (timezone (szone env)) 3600) ''%02d'' (s + of_nat N) ?o = Some o2"
    "shown env s N m ((T @ bytes ?f) @ num_out ''%02d'' (word_of_int (sdiv_c (timezone (szone env)) 3600))) o2"
    using conv_upto [OF a u1 num_formats_mem(1)] by blast
  from conv_upto [OF a o2(2) num_formats_mem(1), of "sdiv_c (smod_c (timezone (szone env)) 3600) 60"] show ?thesis
    unfolding Offset strf_run.simps act_text.simps Let_def o2(1) Option.bind_lunit append_assoc .
qed (use act in auto)

section \<open>The format loop\<close>

text \<open>One conversion of the loop, when its letter has one.\<close>

definition strf_step :: "strf_env \<Rightarrow> tm \<Rightarrow> u32 \<Rightarrow> u8 \<Rightarrow> out \<Rightarrow> out option" where
  "strf_step env t ptlim c o' =
     (case strf_switch t c of Sub f \<Rightarrow> fmt_c env t ptlim (lit env f) o' | act \<Rightarrow> strf_run env t ptlim c act o')"

lemma fmt_step:
  assumes "snd o' p = 37" and "snd o' (p + 1) = c" and "c \<noteq> 0" and "strf_switch t c \<noteq> Plain"
  shows "fmt_c env t ptlim p o' = Option.bind (strf_step env t ptlim c o') (fmt_c env t ptlim (p + 2))"
  using assms by (cases "strf_switch t c")
    (simp_all add: fmt_c.simps [of env t ptlim p o'] strf_step_def)

text \<open>If every conversion used appends its text, the loop appends the text of the format.\<close>

lemma fmt_upto:
  assumes a: "area env s N m"
    and steps: "\<And>c T o'. c \<in> letters xs \<Longrightarrow> strf_switch t c \<noteq> Plain \<Longrightarrow> shown env s N m T o' \<Longrightarrow>
      \<exists>o''. strf_step env t (s + of_nat N) c o' = Some o'' \<and> shown env s N m (T @ D c) o''"
    and plain: "\<And>c. strf_switch t c = Plain \<Longrightarrow> D c = [c]"
    and "cstr m p xs" and "region p (Suc (length xs)) \<inter> written env s N = {}" and "shown env s N m T o'"
  shows "\<exists>o''. fmt_c env t (s + of_nat N) p o' = Some o'' \<and> shown env s N m (T @ ftext D xs) o''"
  using assms(2,4-)
proof (induction xs arbitrary: p T o' rule: letters.induct)
  case 1
  then have "snd o' p = 0" by (auto simp: shown_def region_Suc)
  with 1 show ?case by (simp add: fmt_c.simps [of env t _ p o'])
next
  case (2 c)
  have rd: "snd o' p = c" "snd o' (p + 1) = 0" "c \<noteq> 0"
    using 2 by (auto simp: shown_def region_Suc)
  have stop: "fmt_c env t (s + of_nat N) p o' = (if fst o' = s + of_nat N then Some o'
      else fmt_c env t (s + of_nat N) (p + 1) (put c o'))"
    using rd by (auto simp: fmt_c.simps [of env t _ p o'])
  have nul: "fmt_c env t (s + of_nat N) (p + 1) (put c o') = Some (put c o')" if "fst o' \<noteq> s + of_nat N"
  proof -
    have "shown env s N m (T @ [c]) (put c o')"
      using upto_put [OF a 2(4)] upto_room(2) [OF a 2(4)] that by simp
    then have "snd (put c o') (p + 1) = 0" using 2 by (auto simp: shown_def region_Suc)
    then show ?thesis by (simp add: fmt_c.simps [of env t _ "p + 1"])
  qed
  show ?case
    using stop nul upto_room(2) [OF a 2(4)] upto_full [of N T env s m o' "[c]"] upto_put [OF a 2(4), of c] 2(4)
    by (cases "fst o' = s + of_nat N") simp_all
next
  case (3 c c' cs)
  let ?lim = "s + of_nat N"
  have rd: "snd o' p = c" "snd o' (p + 1) = c'" "c \<noteq> 0" "c' \<noteq> 0"
    using "3.prems"(2-4) by (auto simp: shown_def region_Suc)
  have r1: "region (p + 1) (Suc (length (c' # cs))) \<inter> written env s N = {}" "cstr m (p + 1) (c' # cs)"
    using "3.prems"(2,3) by (auto simp: region_Suc)
  have r2: "region (p + 2) (Suc (length cs)) \<inter> written env s N = {}" "cstr m (p + 2) cs"
    using "3.prems"(2,3) by (auto simp: region_Suc add.assoc)
  show ?case
  proof (cases "c = 37")
    case False
    have step: "fmt_c env t ?lim p o' = (if fst o' = ?lim then Some o' else fmt_c env t ?lim (p + 1) (put c o'))"
      using rd False by (simp add: fmt_c.simps [of env t _ p o'])
    show ?thesis
    proof (cases "fst o' = ?lim")
      case True
      with step upto_room(2) [OF a "3.prems"(4)] upto_full [OF _ "3.prems"(4)] show ?thesis by simp
    next
      case room: False
      have "shown env s N m (T @ [c]) (put c o')"
        using upto_put [OF a "3.prems"(4)] upto_room(2) [OF a "3.prems"(4)] room by simp
      from "3.IH"(2) [OF False _ r1(2,1) this] "3.prems"(1) step room False show ?thesis by auto
    qed
  next
    case True
    show ?thesis
    proof (cases "strf_switch t c' = Plain")
      case P: True
      have step: "fmt_c env t ?lim p o' = (if fst o' = ?lim then Some o' else fmt_c env t ?lim (p + 2) (put c' o'))"
        using rd True P by (simp add: fmt_c.simps [of env t _ p o'])
      show ?thesis
      proof (cases "fst o' = ?lim")
        case True
        with step upto_room(2) [OF a "3.prems"(4)] upto_full [OF _ "3.prems"(4)] show ?thesis by simp
      next
        case room: False
        have "shown env s N m (T @ [c']) (put c' o')"
          using upto_put [OF a "3.prems"(4)] upto_room(2) [OF a "3.prems"(4)] room by simp
        from "3.IH"(1) [OF True _ r2(2,1) this] "3.prems"(1) step room True plain [OF P] show ?thesis by auto
      qed
    next
      case nP: False
      obtain o2 where o2: "strf_step env t ?lim c' o' = Some o2" "shown env s N m (T @ D c') o2"
        using "3.prems"(1) [OF _ nP "3.prems"(4)] True by auto
      have "fmt_c env t ?lim p o' = fmt_c env t ?lim (p + 2) o2"
        using fmt_step [OF _ rd(2,4) nP, of env ?lim] rd(1) True o2(1) by simp
      with "3.IH"(1) [OF True _ r2(2,1) o2(2)] "3.prems"(1) True show ?thesis by auto
    qed
  qed
qed

lemma flat_upto:
  assumes a: "area env s N m" and ok: "time_ok t" and f: "f \<in> set sub_formats" and up: "shown env s N m T o'"
  shows "\<exists>o''. fmt_c env t (s + of_nat N) (lit env f) o' = Some o'' \<and>
    shown env s N m (T @ ftext (flat_text (szone env) t) (bytes f)) o''"
proof (rule fmt_upto [OF a])
  fix c T' o2 assume c: "c \<in> letters (bytes f)" "strf_switch t c \<noteq> Plain" and u: "shown env s N m T' o2"
  have ns: "strf_switch t c \<noteq> Sub g" for g using c(1) sub_flat [OF f] switch_Sub by blast
  have "strf_step env t (s + of_nat N) c o2 = strf_run env t (s + of_nat N) c (strf_switch t c) o2"
    using ns by (simp add: strf_step_def split: strf_act.split)
  with run_upto [OF a u ok refl ns c(2)]
  show "\<exists>o''. strf_step env t (s + of_nat N) c o2 = Some o'' \<and>
      shown env s N m (T' @ flat_text (szone env) t c) o''"
    by (simp add: flat_text_def)
next
  have g: "f \<in> set strf_lits" using f names_in(6) by blast
  show "cstr m (lit env f) (bytes f)" "region (lit env f) (Suc (length (bytes f))) \<inter> written env s N = {}"
    using a g by (simp_all add: area_def)
qed (use up in \<open>simp_all add: flat_text_def\<close>)

lemma strf_upto:
  assumes a: "area env s N m" and ok: "time_ok t" and up: "shown env s N m T o'"
    and fmt: "cstr m p xs" "region p (Suc (length xs)) \<inter> written env s N = {}"
  shows "\<exists>o''. fmt_c env t (s + of_nat N) p o' = Some o'' \<and> shown env s N m (T @ strf_text (szone env) t xs) o''"
  unfolding strf_text_def
proof (rule fmt_upto [OF a _ _ fmt up])
  fix c T' o2 assume nP: "strf_switch t c \<noteq> Plain" and u: "shown env s N m T' o2"
  show "\<exists>o''. strf_step env t (s + of_nat N) c o2 = Some o'' \<and>
      shown env s N m (T' @ letter_text (szone env) t c) o''"
  proof (cases "\<exists>f. strf_switch t c = Sub f")
    case True
    then obtain f where f: "strf_switch t c = Sub f" by blast
    with flat_upto [OF a ok conjunct2 [OF switch_Sub [OF f]] u] show ?thesis
      by (simp add: strf_step_def letter_text_def)
  next
    case False
    then have "strf_step env t (s + of_nat N) c o2 = strf_run env t (s + of_nat N) c (strf_switch t c) o2"
      "letter_text (szone env) t c = act_text (szone env) t c (strf_switch t c)"
      by (auto simp: strf_step_def letter_text_def split: strf_act.split)
    with run_upto [OF a u ok refl _ nP] False show ?thesis by auto
  qed
next
  show "letter_text (szone env) t c = [c]" if "strf_switch t c = Plain" for c
    using that by (simp add: letter_text_def)
qed

section \<open>What the letters mean\<close>

text \<open>
  The text of each conversion letter from the fields of the time, as the manual gives it. A number has at least
  \<open>w\<close> places, filled with zeros or blanks; the abbreviations are the first three letters of the names; the number of
  a week counts the Sundays, or the Mondays, of the year up to the day. \<^verbatim>\<open>%z\<close> shows the offset as the code
  prints it, with the minus sign of a negative one before each of its parts.
\<close>

definition zdec :: "nat \<Rightarrow> int \<Rightarrow> u8 list" where
  "zdec w n = (let ds = num_text 10 (nat \<bar>n\<bar>)
     in if n < 0 then [45] @ replicate (w - 1 - length ds) 48 @ ds else replicate (w - length ds) 48 @ ds)"

definition sdec :: "nat \<Rightarrow> int \<Rightarrow> u8 list" where
  "sdec w n = (let ds = (if n < 0 then [45] else []) @ num_text 10 (nat \<bar>n\<bar>) in replicate (w - length ds) 32 @ ds)"

definition weekday_name :: "int \<Rightarrow> string" where
  "weekday_name d = [''Sunday'', ''Monday'', ''Tuesday'', ''Wednesday'', ''Thursday'', ''Friday'', ''Saturday''] ! nat d"

definition month_name :: "int \<Rightarrow> string" where
  "month_name d = [''January'', ''February'', ''March'', ''April'', ''May'', ''June'', ''July'', ''August'',
     ''September'', ''October'', ''November'', ''December''] ! nat d"

text \<open>The days of the year up to this one that fall on weekday \<open>k\<close>.\<close>

definition days_on :: "int \<Rightarrow> tm \<Rightarrow> nat" where
  "days_on k t = length (filter (\<lambda>d. (tm_wday t - (tm_yday t - int d)) mod 7 = k) [0..<nat (tm_yday t) + 1])"

definition clock_text :: "tm \<Rightarrow> u8 list" where
  "clock_text t = zdec 2 (tm_hour t) @ bytes '':'' @ zdec 2 (tm_min t) @ bytes '':'' @ zdec 2 (tm_sec t)"

definition zone_text :: "zone \<Rightarrow> u8 list" where
  "zone_text z = (let k = timezone z; h = \<bar>k\<bar> div 3600; i = \<bar>k\<bar> mod 3600 div 60
     in if 0 \<le> k then bytes ''+'' @ zdec 2 h @ zdec 2 i else bytes ''-'' @ zdec 2 (- h) @ zdec 2 (- i))"

definition letter_table :: "zone \<Rightarrow> tm \<Rightarrow> (char \<times> u8 list) list" where
  "letter_table z t =
     (let year = tm_year t + 1900; wday = weekday_name (tm_wday t); mon = month_name (tm_mon t);
          twelve = (tm_hour t + 11) mod 12 + 1; half = bytes (if tm_hour t < 12 then ''am'' else ''pm'');
          short_year = zdec 2 (smod_c year 100); month = zdec 2 (tm_mon t + 1); mday = zdec 2 (tm_mday t);
          usdate = month @ bytes ''/'' @ mday @ bytes ''/'' @ short_year;
          (iso_year, iso_number) = iso_spec year (tm_yday t) (tm_wday t)
      in [(CHR ''A'', bytes wday), (CHR ''a'', bytes (take 3 wday)), (CHR ''B'', bytes mon),
          (CHR ''b'', bytes (take 3 mon)), (CHR ''h'', bytes (take 3 mon)), (CHR ''C'', zdec 2 (sdiv_c year 100)),
          (CHR ''c'', bytes (take 3 wday) @ bytes '' '' @ bytes (take 3 mon) @ bytes '' '' @ sdec 2 (tm_mday t) @ bytes '' '' @
             clock_text t @ bytes '' '' @ zdec 4 year),
          (CHR ''D'', usdate), (CHR ''d'', mday), (CHR ''e'', sdec 2 (tm_mday t)),
          (CHR ''F'', zdec 4 year @ bytes ''-'' @ month @ bytes ''-'' @ mday),
          (CHR ''H'', zdec 2 (tm_hour t)), (CHR ''I'', zdec 2 twelve), (CHR ''j'', zdec 3 (tm_yday t + 1)),
          (CHR ''k'', sdec 2 (tm_hour t)), (CHR ''l'', sdec 2 twelve), (CHR ''M'', zdec 2 (tm_min t)), (CHR ''m'', month),
          (CHR ''n'', [10]), (CHR ''p'', half), (CHR ''R'', zdec 2 (tm_hour t) @ bytes '':'' @ zdec 2 (tm_min t)),
          (CHR ''r'', zdec 2 twelve @ bytes '':'' @ zdec 2 (tm_min t) @ bytes '':'' @ zdec 2 (tm_sec t) @ bytes '' '' @ half),
          (CHR ''S'', zdec 2 (tm_sec t)), (CHR ''s'', num_text 10 (nat (seconds_of z t mod 2 ^ 32))),
          (CHR ''T'', clock_text t), (CHR ''t'', [9]), (CHR ''U'', zdec 2 (int (days_on 0 t))),
          (CHR ''u'', zdec 1 ((tm_wday t + 6) mod 7 + 1)), (CHR ''V'', zdec 2 iso_number), (CHR ''G'', zdec 4 iso_year),
          (CHR ''g'', zdec 2 (smod_c iso_year 100)),
          (CHR ''v'', sdec 2 (tm_mday t) @ bytes ''-'' @ bytes (take 3 mon) @ bytes ''-'' @ zdec 4 year),
          (CHR ''W'', zdec 2 (int (days_on 1 t))), (CHR ''w'', zdec 1 (tm_wday t)), (CHR ''X'', clock_text t),
          (CHR ''x'', usdate), (CHR ''y'', short_year), (CHR ''Y'', zdec 4 year), (CHR ''Z'', bytes ''?''),
          (CHR ''z'', zone_text z),
          (CHR ''+'', bytes (take 3 wday) @ bytes '', '' @ mday @ bytes '' '' @ bytes (take 3 mon) @ bytes '' '' @ zdec 4 year @
             bytes '' '' @ clock_text t @ bytes '' '' @ zone_text z)])"

definition letter_spec :: "zone \<Rightarrow> tm \<Rightarrow> u8 \<Rightarrow> u8 list" where
  "letter_spec z t c =
     (case map_of (map (\<lambda>(k, x). (of_char k, x)) (letter_table z t)) c of Some x \<Rightarrow> x | None \<Rightarrow> [c])"

text \<open>The text of a format: other characters, and a percent sign at the very end, stand for themselves.\<close>

definition strf_spec :: "zone \<Rightarrow> tm \<Rightarrow> u8 list \<Rightarrow> u8 list" where
  "strf_spec z t format = ftext (letter_spec z t) format"

subsection \<open>The code's numbers\<close>

lemma magnitude_int:
  assumes "- 2147483648 \<le> n" and "n < 2147483648" and "has type SIGN"
  shows "sint (word_of_int n :: u32) = n" and "magnitude type (word_of_int n) = nat \<bar>n\<bar>"
proof -
  show si: "sint (word_of_int n :: u32) = n" using i32_id [OF assms(1,2)] by (simp add: i32_def)
  have "uint (word_of_int k :: u32) = k" if "0 \<le> k" "k < 4294967296" for k
    using that by (simp add: uint_word_of_int)
  from this [of n] this [of "- n"] show "magnitude type (word_of_int n) = nat \<bar>n\<bar>"
    using assms si by (auto simp: magnitude_def unat_eq_nat_uint)
qed

lemma digit_text_dec: "digit_text small 10 k = num_text 10 k"
  using digits_num_text [of k] by (auto simp: digit_text_def case_of_def digits_def intro!: map_idI)

lemma num_out_dec:
  assumes "- 2147483648 \<le> n" and "n < 2147483648"
  shows "num_out ''%02d'' (word_of_int n) = zdec 2 n" and "num_out ''%2d'' (word_of_int n) = sdec 2 n"
    and "num_out ''%03d'' (word_of_int n) = zdec 3 n" and "num_out ''%04d'' (word_of_int n) = zdec 4 n"
    and "num_out ''%d'' (word_of_int n) = zdec 1 n"
proof -
  have f: "has (ZEROPAD OR SIGN) SIGN" "has SIGN SIGN" "\<not> has (ZEROPAD OR SIGN) PLUS" "\<not> has (ZEROPAD OR SIGN) SPACE"
    "\<not> has SIGN PLUS" "\<not> has SIGN SPACE" "\<not> has (ZEROPAD OR SIGN) SPECIAL" "\<not> has SIGN SPECIAL"
    "has (ZEROPAD OR SIGN) ZEROPAD" "\<not> has SIGN ZEROPAD" "\<not> has (ZEROPAD OR SIGN) LEFT" "\<not> has SIGN LEFT"
    by (simp_all add: has_def ZEROPAD_def SIGN_def PLUS_def SPACE_def LEFT_def SPECIAL_def)
  note m = magnitude_int [OF assms f(1)] magnitude_int [OF assms f(2)]
  have l: "num_text 10 k \<noteq> []" for k by (rule num_text_not_Nil)
  have r: "nat (1 - int k) = 1 - k" "nat (2 - int k) = 2 - k" "nat (3 - int k) = 3 - k" "nat (4 - int k) = 4 - k" for k
    by linarith+
  have ge: "Suc 0 \<le> length (num_text 10 k)" for k using l [of k] by (cases "num_text 10 k") simp_all
  have one: "Suc 0 - length (num_text 10 k) = 0" for k using l [of k] by (cases "num_text 10 k") simp_all
  show "num_out ''%02d'' (word_of_int n) = zdec 2 n" "num_out ''%2d'' (word_of_int n) = sdec 2 n"
    "num_out ''%03d'' (word_of_int n) = zdec 3 n" "num_out ''%04d'' (word_of_int n) = zdec 4 n"
    "num_out ''%d'' (word_of_int n) = zdec 1 n"
    unfolding num_out_simps number_text_def
    by (simp_all add: f m num_sign_def num_prefix_def digit_text_dec zdec_def sdec_def Let_def r one ge blanks_def)
qed

lemma num_out_lu: "num_out ''%lu'' (word_of_int n) = num_text 10 (nat (n mod 2 ^ 32))"
  unfolding num_out_simps number_text_def
  by (simp add: num_sign_def num_prefix_def has_def magnitude_def digit_text_dec blanks_def Let_def
      unat_eq_nat_uint uint_word_of_int)

subsection \<open>The code's letters\<close>

text \<open>The days up to day \<open>n\<close> that are \<open>r\<close> days before it, modulo a week.\<close>

lemma count_weekday:
  assumes "0 \<le> (r :: int)" and "r < 7"
  shows "int (length (filter (\<lambda>d. (int n - int d) mod 7 = r) [0..<n + 1])) = (int n + 7 - r) div 7"
proof -
  let ?K = "nat ((int n + 7 - r) div 7)"
  have r: "int (nat r) = r" using assms by simp
  have "{d. d < n + 1 \<and> (int n - int d) mod 7 = r} = (\<lambda>k. n - (nat r + 7 * k)) ` {..<?K}"
  proof (intro set_eqI iffI)
    fix d assume "d \<in> {d. d < n + 1 \<and> (int n - int d) mod 7 = r}"
    then have d: "d \<le> n" "(int n - int d) mod 7 = r" by auto
    define k where "k = nat ((int n - int d) div 7)"
    have e: "int n - int d = 7 * int k + r"
      using d mult_div_mod_eq [of 7 "int n - int d"] by (simp add: k_def pos_imp_zdiv_nonneg_iff)
    then have dk: "d = n - (nat r + 7 * k)" using r by linarith
    have "7 * int k + 7 \<le> int n + 7 - r" using e by linarith
    then have "int k + 1 \<le> (int n + 7 - r) div 7" by linarith
    then have "k < ?K" by linarith
    with dk show "d \<in> (\<lambda>k. n - (nat r + 7 * k)) ` {..<?K}" by blast
  next
    fix d assume "d \<in> (\<lambda>k. n - (nat r + 7 * k)) ` {..<?K}"
    then obtain k where k: "k < ?K" "d = n - (nat r + 7 * k)" by blast
    then have "int k + 1 \<le> (int n + 7 - r) div 7" by linarith
    then have "7 * int k + r \<le> int n" by linarith
    then have e: "int n - int d = 7 * int k + r" using k(2) r by linarith
    have "(7 * int k + r) mod 7 = r" using assms by simp
    with e show "d \<in> {d. d < n + 1 \<and> (int n - int d) mod 7 = r}" by auto
  qed
  moreover have "inj_on (\<lambda>k. n - (nat r + 7 * k)) {..<?K}"
  proof (rule inj_onI)
    fix j k assume jk: "j \<in> {..<?K}" "k \<in> {..<?K}" "n - (nat r + 7 * j) = n - (nat r + 7 * k)"
    then have "int j + 1 \<le> (int n + 7 - r) div 7" "int k + 1 \<le> (int n + 7 - r) div 7" by auto
    then have "7 * int j + r \<le> int n" "7 * int k + r \<le> int n" by linarith+
    with jk(3) r show "j = k" by linarith
  qed
  ultimately have "card {d. d < n + 1 \<and> (int n - int d) mod 7 = r} = ?K" by (simp add: card_image)
  moreover have "length (filter (\<lambda>d. (int n - int d) mod 7 = r) [0..<n + 1]) = card {d. d < n + 1 \<and> (int n - int d) mod 7 = r}"
    by (subst length_filter_conv_card) (simp add: nth_upt cong: conj_cong del: upt_Suc)
  moreover have "0 \<le> (int n + 7 - r) div 7" using assms by (simp add: pos_imp_zdiv_nonneg_iff)
  ultimately show ?thesis by simp
qed
lemma days_on_code:
  assumes "tm_ok t"
  shows "sdiv_c (i32 (i32 (tm_yday t + 7) - tm_wday t)) 7 = int (days_on 0 t)"
    and "sdiv_c (i32 (i32 (tm_yday t + 7) - (if tm_wday t \<noteq> 0 then i32 (tm_wday t - 1) else 6))) 7 = int (days_on 1 t)"
proof -
  let ?n = "nat (tm_yday t)"
  have b: "0 \<le> tm_yday t" "tm_yday t < 366" "0 \<le> tm_wday t" "tm_wday t < 7"
    using assms YEARSIZE_pos(2) [of "tm_year t + 1900"] by (simp_all add: tm_ok_def)
  have shift: "(tm_wday t - (tm_yday t - int d)) mod 7 = k \<longleftrightarrow> (int ?n - int d) mod 7 = r"
    if "(tm_wday t - k) mod 7 = r" "0 \<le> k" "k < 7" for d k r
  proof -
    have "(tm_wday t - (tm_yday t - int d)) mod 7 = k \<longleftrightarrow> (tm_wday t - (tm_yday t - int d)) mod 7 = k mod 7"
      using that by simp
    also have "\<dots> \<longleftrightarrow> 7 dvd (tm_wday t - (tm_yday t - int d) - k)" by (rule mod_eq_dvd_iff)
    also have "\<dots> \<longleftrightarrow> 7 dvd (tm_wday t - k - (tm_yday t - int d))" by (simp add: algebra_simps)
    also have "\<dots> \<longleftrightarrow> (tm_wday t - k) mod 7 = (tm_yday t - int d) mod 7" by (rule mod_eq_dvd_iff [symmetric])
    finally show ?thesis using that(1) b(1) by auto
  qed
  have i: "i32 (tm_yday t + 7) = tm_yday t + 7" "i32 (tm_yday t + 7 - tm_wday t) = tm_yday t + 7 - tm_wday t"
    "i32 (tm_wday t - 1) = tm_wday t - 1"
    using b by (auto intro!: i32_id)
  have "(tm_wday t - 0) mod 7 = tm_wday t" using b by simp
  from shift [OF this] have "int (days_on 0 t) = (int ?n + 7 - tm_wday t) div 7"
    using count_weekday [OF b(3,4), of ?n] by (simp add: days_on_def)
  then show "sdiv_c (i32 (i32 (tm_yday t + 7) - tm_wday t)) 7 = int (days_on 0 t)"
    using b by (simp add: i sdiv_c_nonneg)
  define r where "r = (if tm_wday t \<noteq> 0 then tm_wday t - 1 else 6)"
  have r: "0 \<le> r" "r < 7" "(tm_wday t - 1) mod 7 = r" using b by (auto simp: r_def zmod_minus1)
  from shift [OF r(3)] have "int (days_on 1 t) = (int ?n + 7 - r) div 7"
    using count_weekday [OF r(1,2), of ?n] by (simp add: days_on_def)
  moreover have "i32 (i32 (tm_yday t + 7) - (if tm_wday t \<noteq> 0 then i32 (tm_wday t - 1) else 6)) = int ?n + 7 - r"
  proof -
    have "(if tm_wday t \<noteq> 0 then i32 (tm_wday t - 1) else 6) = r" using b by (simp add: i(3) r_def)
    moreover have "i32 (tm_yday t + 7 - r) = tm_yday t + 7 - r" using b r by (intro i32_id) linarith+
    ultimately show ?thesis using b(1) by (simp add: i(1))
  qed
  ultimately show "sdiv_c (i32 (i32 (tm_yday t + 7) - (if tm_wday t \<noteq> 0 then i32 (tm_wday t - 1) else 6))) 7 = int (days_on 1 t)"
    using b r by (simp add: sdiv_c_nonneg)
qed

lemma names_code:
  assumes "tm_ok t"
  shows "(if tm_wday t < 0 \<or> tm_wday t > 6 then ''?'' else days ! nat (tm_wday t)) = weekday_name (tm_wday t)"
    and "(if tm_wday t < 0 \<or> tm_wday t > 6 then ''?'' else days_abbrev ! nat (tm_wday t)) = take 3 (weekday_name (tm_wday t))"
    and "(if tm_mon t < 0 \<or> tm_mon t > 11 then ''?'' else months ! nat (tm_mon t)) = month_name (tm_mon t)"
    and "(if tm_mon t < 0 \<or> tm_mon t > 11 then ''?'' else months_abbrev ! nat (tm_mon t)) = take 3 (month_name (tm_mon t))"
proof -
  have b: "0 \<le> tm_wday t" "\<not> tm_wday t > 6" "nat (tm_wday t) < 7" "0 \<le> tm_mon t" "\<not> tm_mon t > 11" "nat (tm_mon t) < 12"
    using assms by (auto simp: tm_ok_def)
  have ab: "days_abbrev = map (take 3) days" "months_abbrev = map (take 3) months"
    by (simp_all add: days_def days_abbrev_def months_def months_abbrev_def)
  show "(if tm_wday t < 0 \<or> tm_wday t > 6 then ''?'' else days ! nat (tm_wday t)) = weekday_name (tm_wday t)"
    "(if tm_wday t < 0 \<or> tm_wday t > 6 then ''?'' else days_abbrev ! nat (tm_wday t)) = take 3 (weekday_name (tm_wday t))"
    "(if tm_mon t < 0 \<or> tm_mon t > 11 then ''?'' else months ! nat (tm_mon t)) = month_name (tm_mon t)"
    "(if tm_mon t < 0 \<or> tm_mon t > 11 then ''?'' else months_abbrev ! nat (tm_mon t)) = take 3 (month_name (tm_mon t))"
    using b names_length(1,3) by (simp_all add: ab weekday_name_def month_name_def flip: days_def months_def)
qed

text \<open>The conversions that are not nested, and the nested ones.\<close>

lemma sdiv_range: "\<bar>sdiv_c a 100\<bar> \<le> \<bar>a\<bar>" "\<bar>smod_c a 100\<bar> < 100"
proof -
  have d: "0 \<le> k div 100 \<and> k div 100 \<le> k \<and> 0 \<le> k - k div 100 * 100 \<and> k - k div 100 * 100 < 100" if "0 \<le> k" for k :: int
    using that by (auto simp: minus_div_mult_eq_mod)
  from d [of a] d [of "- a"] show "\<bar>sdiv_c a 100\<bar> \<le> \<bar>a\<bar>" "\<bar>smod_c a 100\<bar> < 100"
    by (cases "0 \<le> a"; simp add: sdiv_c_def smod_c_def)+
qed

definition zone_ok :: "zone \<Rightarrow> bool" where
  "zone_ok z \<longleftrightarrow> - 2147483648 \<le> timezone z \<and> timezone z < 2147483648"

lemma month_days_le:
  assumes "0 \<le> mon" and "mon < 12"
  shows "month_days year mon \<le> 31"
proof -
  have "nat mon < length (ytab (LEAPYEAR year))" using assms by simp
  then have "month_days year mon \<in> set (ytab (LEAPYEAR year))" unfolding month_days_def by (rule nth_mem)
  then show ?thesis by (auto simp: ytab_def)
qed

lemma numbers_code:
  assumes "time_ok t"
  shows "num_out ''%02d'' (word_of_int (sdiv_c (i32 (tm_year t + 1900)) 100)) = zdec 2 (sdiv_c (tm_year t + 1900) 100)"
    and "num_out ''%02d'' (word_of_int (smod_c (i32 (tm_year t + 1900)) 100)) = zdec 2 (smod_c (tm_year t + 1900) 100)"
    and "num_out ''%04d'' (word_of_int (i32 (tm_year t + 1900))) = zdec 4 (tm_year t + 1900)"
    and "num_out ''%02d'' (word_of_int (tm_mday t)) = zdec 2 (tm_mday t)"
    and "num_out ''%2d'' (word_of_int (tm_mday t)) = sdec 2 (tm_mday t)"
    and "num_out ''%02d'' (word_of_int (tm_hour t)) = zdec 2 (tm_hour t)"
    and "num_out ''%2d'' (word_of_int (tm_hour t)) = sdec 2 (tm_hour t)"
    and "num_out ''%02d'' (word_of_int (hour12 t)) = zdec 2 ((tm_hour t + 11) mod 12 + 1)"
    and "num_out ''%2d'' (word_of_int (hour12 t)) = sdec 2 ((tm_hour t + 11) mod 12 + 1)"
    and "num_out ''%03d'' (word_of_int (i32 (tm_yday t + 1))) = zdec 3 (tm_yday t + 1)"
    and "num_out ''%02d'' (word_of_int (tm_min t)) = zdec 2 (tm_min t)"
    and "num_out ''%02d'' (word_of_int (i32 (tm_mon t + 1))) = zdec 2 (tm_mon t + 1)"
    and "num_out ''%02d'' (word_of_int (tm_sec t)) = zdec 2 (tm_sec t)"
    and "num_out ''%d'' (word_of_int (if tm_wday t = 0 then 7 else tm_wday t)) = zdec 1 ((tm_wday t + 6) mod 7 + 1)"
    and "num_out ''%d'' (word_of_int (tm_wday t)) = zdec 1 (tm_wday t)"
proof -
  have ok: "tm_ok t" "i32 (tm_year t + 1900) = tm_year t + 1900" using time_okD [OF assms] by simp_all
  have y: "- 2147483648 < tm_year t + 1900" "tm_year t + 1900 < 2147483647" using assms by (simp_all add: time_ok_def)
  have b: "0 \<le> tm_sec t" "tm_sec t < 60" "0 \<le> tm_min t" "tm_min t < 60" "0 \<le> tm_hour t" "tm_hour t < 24"
    "0 \<le> tm_mon t" "tm_mon t < 12" "1 \<le> tm_mday t" "tm_mday t \<le> 31" "0 \<le> tm_yday t" "tm_yday t < 366"
    "0 \<le> tm_wday t" "tm_wday t < 7"
    using ok(1) YEARSIZE_pos(2) [of "tm_year t + 1900"] month_days_le [of "tm_mon t" "tm_year t + 1900"]
    by (simp_all add: tm_ok_def)
  have h: "hour12 t = (tm_hour t + 11) mod 12 + 1"
  proof -
    have s: "smod_c (tm_hour t) 12 = tm_hour t mod 12" using b by (simp add: smod_c_nonneg)
    consider "tm_hour t = 0" | "0 < tm_hour t" "tm_hour t < 12" | "tm_hour t = 12" | "12 < tm_hour t" using b(5) by linarith
    then show ?thesis
    proof cases
      case 2
      then have "(tm_hour t + 11) mod 12 = tm_hour t - 1" by (intro int_mod_pos_eq [where q = 1]) simp_all
      with 2 show ?thesis by (simp add: hour12_def s)
    next
      case 4
      have "tm_hour t mod 12 = tm_hour t - 12"
        by (rule int_mod_pos_eq [where q = 1]) (use 4 b in simp_all)
      moreover have "(tm_hour t + 11) mod 12 = tm_hour t - 13"
        by (rule int_mod_pos_eq [where q = 2]) (use 4 b in simp_all)
      ultimately show ?thesis using 4 by (simp add: hour12_def s)
    qed (simp_all add: hour12_def smod_c_nonneg)
  qed
  have hb: "0 \<le> (tm_hour t + 11) mod 12" "(tm_hour t + 11) mod 12 < 12" by simp_all
  have w: "(if tm_wday t = 0 then 7 else tm_wday t) = (tm_wday t + 6) mod 7 + 1"
  proof (cases "tm_wday t = 0")
    case False
    then have "(tm_wday t + 6) mod 7 = tm_wday t - 1" using b by (intro int_mod_pos_eq [where q = 1]) simp_all
    with False show ?thesis by simp
  qed simp
  have wb: "0 \<le> (tm_wday t + 6) mod 7" "(tm_wday t + 6) mod 7 < 7" by simp_all
  have i: "i32 (tm_yday t + 1) = tm_yday t + 1" "i32 (tm_mon t + 1) = tm_mon t + 1" using b by (auto intro!: i32_id)
  note q = sdiv_range [of "tm_year t + 1900"]
  show "num_out ''%02d'' (word_of_int (sdiv_c (i32 (tm_year t + 1900)) 100)) = zdec 2 (sdiv_c (tm_year t + 1900) 100)"
    "num_out ''%02d'' (word_of_int (smod_c (i32 (tm_year t + 1900)) 100)) = zdec 2 (smod_c (tm_year t + 1900) 100)"
    "num_out ''%04d'' (word_of_int (i32 (tm_year t + 1900))) = zdec 4 (tm_year t + 1900)"
    "num_out ''%02d'' (word_of_int (tm_mday t)) = zdec 2 (tm_mday t)"
    "num_out ''%2d'' (word_of_int (tm_mday t)) = sdec 2 (tm_mday t)"
    "num_out ''%02d'' (word_of_int (tm_hour t)) = zdec 2 (tm_hour t)"
    "num_out ''%2d'' (word_of_int (tm_hour t)) = sdec 2 (tm_hour t)"
    "num_out ''%02d'' (word_of_int (hour12 t)) = zdec 2 ((tm_hour t + 11) mod 12 + 1)"
    "num_out ''%2d'' (word_of_int (hour12 t)) = sdec 2 ((tm_hour t + 11) mod 12 + 1)"
    "num_out ''%03d'' (word_of_int (i32 (tm_yday t + 1))) = zdec 3 (tm_yday t + 1)"
    "num_out ''%02d'' (word_of_int (tm_min t)) = zdec 2 (tm_min t)"
    "num_out ''%02d'' (word_of_int (i32 (tm_mon t + 1))) = zdec 2 (tm_mon t + 1)"
    "num_out ''%02d'' (word_of_int (tm_sec t)) = zdec 2 (tm_sec t)"
    "num_out ''%d'' (word_of_int (if tm_wday t = 0 then 7 else tm_wday t)) = zdec 1 ((tm_wday t + 6) mod 7 + 1)"
    "num_out ''%d'' (word_of_int (tm_wday t)) = zdec 1 (tm_wday t)"
    unfolding ok(2) i h w by (rule num_out_dec; use b y q hb wb in linarith)+
qed

lemma offset_code:
  assumes "zone_ok z"
  shows "act_text z t c Offset = zone_text z"
proof -
  let ?k = "timezone z"
  have k: "\<bar>?k\<bar> \<le> 2147483648" using assms by (auto simp: zone_ok_def)
  have b: "0 \<le> \<bar>?k\<bar> div 3600" "\<bar>?k\<bar> div 3600 \<le> 2147483648" "0 \<le> \<bar>?k\<bar> mod 3600 div 60" "\<bar>?k\<bar> mod 3600 div 60 < 60"
    using k pos_mod_bound [of 3600 "\<bar>?k\<bar>"] by linarith+
  have q: "\<bar>?k\<bar> div 3600 < 2147483648" using k by linarith
  show ?thesis
  proof (cases "0 \<le> ?k")
    case True
    then have "sdiv_c ?k 3600 = \<bar>?k\<bar> div 3600" "sdiv_c (smod_c ?k 3600) 60 = \<bar>?k\<bar> mod 3600 div 60"
      by (simp_all add: sdiv_c_nonneg smod_c_nonneg)
    then show ?thesis
      using True b q by (simp only: act_text.simps zone_text_def Let_def if_True) (simp add: num_out_dec)
  next
    case False
    then have m: "smod_c ?k 3600 = - (\<bar>?k\<bar> mod 3600)" "sdiv_c ?k 3600 = - (\<bar>?k\<bar> div 3600)"
      by (simp_all add: smod_c_def sdiv_c_def minus_div_mult_eq_mod [symmetric])
    have "sdiv_c (smod_c ?k 3600) 60 = - (\<bar>?k\<bar> mod 3600 div 60)"
      unfolding m by (cases "\<bar>?k\<bar> mod 3600 = 0") (auto simp: sdiv_c_def)
    moreover have "num_out ''%02d'' (word_of_int (- (\<bar>?k\<bar> div 3600))) = zdec 2 (- (\<bar>?k\<bar> div 3600))"
      "num_out ''%02d'' (word_of_int (- (\<bar>?k\<bar> mod 3600 div 60))) = zdec 2 (- (\<bar>?k\<bar> mod 3600 div 60))"
      using b by (intro num_out_dec; linarith)+
    ultimately show ?thesis using False m(2) by (simp only: act_text.simps zone_text_def Let_def if_False)
  qed
qed

lemma iso_code:
  assumes "time_ok t"
  shows "act_text z t 86 Iso = zdec 2 (snd (iso_spec (tm_year t + 1900) (tm_yday t) (tm_wday t)))"
    and "act_text z t 71 Iso = zdec 4 (fst (iso_spec (tm_year t + 1900) (tm_yday t) (tm_wday t)))"
    and "act_text z t 103 Iso = zdec 2 (smod_c (fst (iso_spec (tm_year t + 1900) (tm_yday t) (tm_wday t))) 100)"
proof -
  let ?y = "tm_year t + 1900"
  obtain y w where i: "iso_spec ?y (tm_yday t) (tm_wday t) = (y, w)" by fastforce
  have b: "0 \<le> tm_yday t" "tm_yday t < 366" "- 2147483648 < ?y" "?y < 2147483647"
    using assms YEARSIZE_pos(2) [of ?y] by (simp_all add: time_ok_def tm_ok_def)
  have th: "- 3 \<le> thursday (tm_yday t) (tm_wday t)" "thursday (tm_yday t) (tm_wday t) \<le> 369"
    using b pos_mod_bound [of 7 "tm_wday t + 6"] pos_mod_sign [of 7 "tm_wday t + 6"] by (simp_all add: thursday_def)
  have w: "0 \<le> w" "w \<le> 60" "?y - 1 \<le> y" "y \<le> ?y + 1"
    using i th YEARSIZE_pos [of "?y - 1"] by (auto simp: iso_spec_def Let_def split: if_splits)
  note q = sdiv_range [of y]
  show "act_text z t 86 Iso = zdec 2 (snd (iso_spec ?y (tm_yday t) (tm_wday t)))"
    "act_text z t 71 Iso = zdec 4 (fst (iso_spec ?y (tm_yday t) (tm_wday t)))"
    "act_text z t 103 Iso = zdec 2 (smod_c (fst (iso_spec ?y (tm_yday t) (tm_wday t))) 100)"
    using w b q by (simp_all add: i num_out_dec)
qed

lemma switch_eqs:
  "strf_switch t 65 = Add (if tm_wday t < 0 \<or> tm_wday t > 6 then ''?'' else days ! nat (tm_wday t))"
  "strf_switch t 97 = Add (if tm_wday t < 0 \<or> tm_wday t > 6 then ''?'' else days_abbrev ! nat (tm_wday t))"
  "strf_switch t 66 = Add (if tm_mon t < 0 \<or> tm_mon t > 11 then ''?'' else months ! nat (tm_mon t))"
  "strf_switch t 98 = Add (if tm_mon t < 0 \<or> tm_mon t > 11 then ''?'' else months_abbrev ! nat (tm_mon t))"
  "strf_switch t 104 = Add (if tm_mon t < 0 \<or> tm_mon t > 11 then ''?'' else months_abbrev ! nat (tm_mon t))"
  "strf_switch t 67 = Conv (sdiv_c (i32 (tm_year t + 1900)) 100) ''%02d''"
  "strf_switch t 99 = Sub ''%a %b %e %H:%M:%S %Y''" "strf_switch t 68 = Sub ''%m/%d/%y''"
  "strf_switch t 100 = Conv (tm_mday t) ''%02d''" "strf_switch t 101 = Conv (tm_mday t) ''%2d''"
  "strf_switch t 70 = Sub ''%Y-%m-%d''" "strf_switch t 72 = Conv (tm_hour t) ''%02d''"
  "strf_switch t 73 = Conv (hour12 t) ''%02d''" "strf_switch t 106 = Conv (i32 (tm_yday t + 1)) ''%03d''"
  "strf_switch t 107 = Conv (tm_hour t) ''%2d''" "strf_switch t 108 = Conv (hour12 t) ''%2d''"
  "strf_switch t 77 = Conv (tm_min t) ''%02d''" "strf_switch t 109 = Conv (i32 (tm_mon t + 1)) ''%02d''"
  "strf_switch t 110 = Add [CHR 0x0A]" "strf_switch t 112 = Add (if tm_hour t \<ge> 12 then ''pm'' else ''am'')"
  "strf_switch t 82 = Sub ''%H:%M''" "strf_switch t 114 = Sub ''%I:%M:%S %p''"
  "strf_switch t 83 = Conv (tm_sec t) ''%02d''" "strf_switch t 115 = Seconds" "strf_switch t 84 = Sub ''%H:%M:%S''"
  "strf_switch t 116 = Add [CHR 0x09]"
  "strf_switch t 85 = Conv (sdiv_c (i32 (i32 (tm_yday t + 7) - tm_wday t)) 7) ''%02d''"
  "strf_switch t 117 = Conv (if tm_wday t = 0 then 7 else tm_wday t) ''%d''"
  "strf_switch t 86 = Iso" "strf_switch t 71 = Iso" "strf_switch t 103 = Iso" "strf_switch t 118 = Sub ''%e-%b-%Y''"
  "strf_switch t 87 = Conv (sdiv_c (i32 (i32 (tm_yday t + 7) - (if tm_wday t \<noteq> 0 then i32 (tm_wday t - 1) else 6))) 7) ''%02d''"
  "strf_switch t 119 = Conv (tm_wday t) ''%d''" "strf_switch t 88 = Sub ''%H:%M:%S''" "strf_switch t 120 = Sub ''%m/%d/%y''"
  "strf_switch t 121 = Conv (smod_c (i32 (tm_year t + 1900)) 100) ''%02d''"
  "strf_switch t 89 = Conv (i32 (tm_year t + 1900)) ''%04d''" "strf_switch t 90 = Add ''?''" "strf_switch t 122 = Offset"
  "strf_switch t 43 = Sub ''%a, %d %b %Y %H:%M:%S %z''"
  by (simp_all add: strf_switch_def)

lemma sub_texts:
  "ftext D (bytes ''%a %b %e %H:%M:%S %Y'') = D 97 @ bytes '' '' @ D 98 @ bytes '' '' @ D 101 @ bytes '' '' @ D 72 @
     bytes '':'' @ D 77 @ bytes '':'' @ D 83 @ bytes '' '' @ D 89"
  "ftext D (bytes ''%m/%d/%y'') = D 109 @ bytes ''/'' @ D 100 @ bytes ''/'' @ D 121"
  "ftext D (bytes ''%Y-%m-%d'') = D 89 @ bytes ''-'' @ D 109 @ bytes ''-'' @ D 100"
  "ftext D (bytes ''%H:%M'') = D 72 @ bytes '':'' @ D 77"
  "ftext D (bytes ''%I:%M:%S %p'') = D 73 @ bytes '':'' @ D 77 @ bytes '':'' @ D 83 @ bytes '' '' @ D 112"
  "ftext D (bytes ''%H:%M:%S'') = D 72 @ bytes '':'' @ D 77 @ bytes '':'' @ D 83"
  "ftext D (bytes ''%e-%b-%Y'') = D 101 @ bytes ''-'' @ D 98 @ bytes ''-'' @ D 89"
  "ftext D (bytes ''%a, %d %b %Y %H:%M:%S %z'') = D 97 @ bytes '', '' @ D 100 @ bytes '' '' @ D 98 @ bytes '' '' @ D 89 @
     bytes '' '' @ D 72 @ bytes '':'' @ D 77 @ bytes '':'' @ D 83 @ bytes '' '' @ D 122"
  by simp_all

lemma flat_eqs:
  assumes "time_ok t" and "zone_ok z"
  shows "flat_text z t 97 = bytes (take 3 (weekday_name (tm_wday t)))"
    and "flat_text z t 98 = bytes (take 3 (month_name (tm_mon t)))" and "flat_text z t 101 = sdec 2 (tm_mday t)"
    and "flat_text z t 72 = zdec 2 (tm_hour t)" and "flat_text z t 77 = zdec 2 (tm_min t)"
    and "flat_text z t 83 = zdec 2 (tm_sec t)" and "flat_text z t 89 = zdec 4 (tm_year t + 1900)"
    and "flat_text z t 109 = zdec 2 (tm_mon t + 1)" and "flat_text z t 100 = zdec 2 (tm_mday t)"
    and "flat_text z t 121 = zdec 2 (smod_c (tm_year t + 1900) 100)"
    and "flat_text z t 73 = zdec 2 ((tm_hour t + 11) mod 12 + 1)"
    and "flat_text z t 112 = bytes (if tm_hour t < 12 then ''am'' else ''pm'')" and "flat_text z t 122 = zone_text z"
  unfolding flat_text_def switch_eqs act_text.simps(1,2) names_code [OF time_okD(1) [OF assms(1)]] numbers_code [OF assms(1)]
    offset_code [OF assms(2)]
  by simp_all

lemma of_char_keys:
  "of_char CHR ''A'' = (65 :: u8)" "of_char CHR ''a'' = (97 :: u8)" "of_char CHR ''B'' = (66 :: u8)"
  "of_char CHR ''b'' = (98 :: u8)" "of_char CHR ''h'' = (104 :: u8)" "of_char CHR ''C'' = (67 :: u8)"
  "of_char CHR ''c'' = (99 :: u8)" "of_char CHR ''D'' = (68 :: u8)" "of_char CHR ''d'' = (100 :: u8)"
  "of_char CHR ''e'' = (101 :: u8)" "of_char CHR ''F'' = (70 :: u8)" "of_char CHR ''H'' = (72 :: u8)"
  "of_char CHR ''I'' = (73 :: u8)" "of_char CHR ''j'' = (106 :: u8)" "of_char CHR ''k'' = (107 :: u8)"
  "of_char CHR ''l'' = (108 :: u8)" "of_char CHR ''M'' = (77 :: u8)" "of_char CHR ''m'' = (109 :: u8)"
  "of_char CHR ''n'' = (110 :: u8)" "of_char CHR ''p'' = (112 :: u8)" "of_char CHR ''R'' = (82 :: u8)"
  "of_char CHR ''r'' = (114 :: u8)" "of_char CHR ''S'' = (83 :: u8)" "of_char CHR ''s'' = (115 :: u8)"
  "of_char CHR ''T'' = (84 :: u8)" "of_char CHR ''t'' = (116 :: u8)" "of_char CHR ''U'' = (85 :: u8)"
  "of_char CHR ''u'' = (117 :: u8)" "of_char CHR ''V'' = (86 :: u8)" "of_char CHR ''G'' = (71 :: u8)"
  "of_char CHR ''g'' = (103 :: u8)" "of_char CHR ''v'' = (118 :: u8)" "of_char CHR ''W'' = (87 :: u8)"
  "of_char CHR ''w'' = (119 :: u8)" "of_char CHR ''X'' = (88 :: u8)" "of_char CHR ''x'' = (120 :: u8)"
  "of_char CHR ''y'' = (121 :: u8)" "of_char CHR ''Y'' = (89 :: u8)" "of_char CHR ''Z'' = (90 :: u8)"
  "of_char CHR ''z'' = (122 :: u8)" "of_char CHR ''+'' = (43 :: u8)"
  by simp_all

lemma newline_tab: "bytes [CHR 0x0A] = [10]" "bytes [CHR 0x09] = [9]"
  by simp_all

lemma letter_text_table:
  assumes "time_ok t" and "zone_ok z"
  shows "list_all (\<lambda>(k, x). letter_text z t (of_char k) = x) (letter_table z t)"
proof -
  obtain y w where i: "iso_spec (tm_year t + 1900) (tm_yday t) (tm_wday t) = (y, w)" by fastforce
  have half: "(if tm_hour t \<ge> 12 then ''pm'' else ''am'') = (if tm_hour t < 12 then ''am'' else ''pm'')" by simp
  have wk: "num_out ''%02d'' (word_of_int (int (days_on k t))) = zdec 2 (int (days_on k t))" for k
  proof -
    have "days_on k t \<le> nat (tm_yday t) + 1"
      unfolding days_on_def by (rule order_trans [OF length_filter_le]) simp
    moreover have "tm_yday t < 366" using assms(1) YEARSIZE_pos(2) [of "tm_year t + 1900"] by (simp add: time_ok_def tm_ok_def)
    ultimately show ?thesis by (intro num_out_dec) linarith+
  qed
  note ok = time_okD(1) [OF assms(1)]
  show ?thesis
    unfolding letter_table_def i Let_def prod.case list.pred_inject
    by (simp only: of_char_keys letter_text_def switch_eqs strf_act.case act_text.simps(1,2,3) sub_texts
        flat_eqs [OF assms] names_code [OF ok] numbers_code [OF assms(1)] days_on_code [OF ok] wk num_out_lu
        offset_code [OF assms(2)] iso_code [OF assms(1)] i fst_conv snd_conv half clock_text_def append_assoc newline_tab)
      simp
qed

lemma letter_text_spec:
  assumes "time_ok t" and "zone_ok z"
  shows "letter_text z t c = letter_spec z t c"
proof (cases "map_of (map (\<lambda>(k, x). (of_char k, x)) (letter_table z t)) c")
  case None
  then have "c \<notin> of_char ` fst ` set (letter_table z t)"
    by (auto simp: map_of_eq_None_iff image_image split_beta)
  moreover have "fst ` set (letter_table z t) = set ''AaBbhCcDdeFHIjklMmnpRrSsTtUuVGgvWwXxyYZz+''"
    by (simp add: letter_table_def Let_def split_beta)
  ultimately have "strf_switch t c = Plain" by (simp add: strf_switch_def)
  with None show ?thesis by (simp add: letter_spec_def letter_text_def)
next
  case (Some x)
  then obtain k where "(k, x) \<in> set (letter_table z t)" "c = of_char k"
    by (auto dest!: map_of_SomeD)
  with letter_text_table [OF assms] Some show ?thesis by (auto simp: letter_spec_def list_all_iff)
qed

lemma strf_text_spec:
  assumes "time_ok t" and "zone_ok z"
  shows "strf_text z t format = strf_spec z t format"
proof -
  have "letter_text z t = letter_spec z t" using letter_text_spec [OF assms] by (rule ext)
  then show ?thesis by (simp add: strf_text_def strf_spec_def)
qed

section \<open>Properties\<close>

text \<open>
  Property C32. The ISO 8601 week (\<^verbatim>\<open>%V\<close>, \<^verbatim>\<open>%G\<close>, \<^verbatim>\<open>%g\<close>): the loop of \<open>strftime\<close> ends on every day of
  every year and gives the year and the week number of the Thursday of that day's week. Only the first and the last
  \<^verbatim>\<open>int\<close>, whose neighbour year does not exist, and day numbers at the end of that range are left out.
\<close>

theorem iso_week_thursday:
  assumes "0 \<le> wday" and "wday < 7" and "0 \<le> yday" and "yday < 2147483600"
    and "- 2147483648 < year" and "year < 2147483647"
  shows "iso_week year yday wday = Some (iso_spec year yday wday)"
  by (rule iso_week_spec) (fact assms)+

theorem iso_week_thursday_witness:
  "iso_week 2021 2 0 = Some (2020, 53) \<and> iso_week 2024 364 1 = Some (2025, 1)"
  using iso_week_thursday [of 0 2 2021] iso_week_thursday [of 1 364 2024]
  by (simp_all add: iso_spec_def thursday_def YEARSIZE_def LEAPYEAR_def smod_c_nonneg)

text \<open>
  Property C31. \<open>strftime\<close> on well-formed fields, whose year is not at an end of the range of \<^verbatim>\<open>int\<close>: for every format the call
  returns; the text is that of the format with the meaning of each conversion letter as given by \<open>letter_table\<close>. When the text and
  its terminator fit in the area they are written and the length is returned, otherwise the result is 0 and only the
  first \<open>maxsize\<close> bytes of the text are written. Nothing outside the area and the local buffers changes.
\<close>

theorem strftime_correct:
  fixes env t xs
  defines "T \<equiv> strf_spec (szone env) t xs"
  assumes "area env s (unat maxsize) m" and "time_ok t" and "zone_ok (szone env)"
    and "cstr m (if format = 0 then lit env ''%c'' else format) xs"
    and "region (if format = 0 then lit env ''%c'' else format) (Suc (length xs)) \<inter> written env s (unat maxsize) = {}"
  shows "\<exists>m'. strftime env s maxsize format t m =
      Some (if length T < unat maxsize then of_nat (length T) else 0, m') \<and>
    (\<forall>i < unat maxsize. if i < length T then m' (s + of_nat i) = T ! i
      else i = length T \<longrightarrow> m' (s + of_nat i) = 0) \<and>
    (\<forall>x. x \<notin> written env s (unat maxsize) \<longrightarrow> m' x = m x)"
proof -
  let ?N = "unat maxsize"
  have a: "area env s ?N m" by fact
  have "shown env s ?N m [] (s, m)" by (simp add: shown_def)
  from strf_upto [OF a assms(3) this assms(5,6)]
  obtain p m1 where r: "fmt_c env t (s + maxsize) (if format = 0 then lit env ''%c'' else format) (s, m) = Some (p, m1)"
    and sh: "shown env s ?N m T (p, m1)"
    unfolding T_def strf_text_spec [OF assms(3,4)] by auto
  have p: "p = s + maxsize \<longleftrightarrow> ?N \<le> length T" using upto_room(2) [OF a sh] by simp
  show ?thesis
  proof (cases "length T < ?N")
    case True
    then have "p = s + of_nat (length T)" using sh by (simp add: shown_def)
    moreover have "shown env s ?N m T (p, m1(p := 0))" by (rule upto_store(2) [OF a sh True])
    ultimately show ?thesis
      using True r p sh by (simp add: strftime_def shown_def)
  next
    case False
    then show ?thesis using r p sh by (simp add: strftime_def shown_def)
  qed
qed

text \<open>A table of the literals, 32 bytes apart, for the witness.\<close>

definition table_env :: strf_env where
  "table_env = \<lparr>conv_buf = 0x4000, secs_buf = 0x4100,
     lit = \<lambda>f. 0x1000 + of_nat (32 * length (takeWhile (\<lambda>g. g \<noteq> f) strf_lits)), szone = \<lparr>timezone = 0, dstbias = 0\<rparr>\<rparr>"

definition table_mem :: mem where
  "table_mem a = (let k = unat a - 0x1000; L = bytes (strf_lits ! (k div 32))
     in if 0x1000 \<le> unat a \<and> k div 32 < 60 \<and> k mod 32 < length L then L ! (k mod 32) else 0)"

lemma lits_facts:
  "length strf_lits = 60" "f \<in> set strf_lits \<Longrightarrow> length f < 32 \<and> 0 \<notin> set (bytes f)"
proof -
  show "length strf_lits = 60"
    unfolding strf_lits_def length_append names_length by (simp add: num_formats_def)
  have "list_all (\<lambda>f. length f < 32 \<and> list_all (\<lambda>c. c \<noteq> 0) (bytes f)) strf_lits"
    unfolding strf_lits_def days_def days_abbrev_def months_def months_abbrev_def num_formats_def append.simps
      list.pred_inject
    by simp
  then show "f \<in> set strf_lits \<Longrightarrow> length f < 32 \<and> 0 \<notin> set (bytes f)" by (auto simp: list_all_iff)
qed

lemma table_lit:
  assumes "f \<in> set strf_lits"
  shows "\<exists>k < 1920. lit table_env f = 0x1000 + of_nat k \<and> k + 32 \<le> 1920 \<and> cstr table_mem (lit table_env f) (bytes f)"
proof -
  define i where "i = length (takeWhile (\<lambda>g. g \<noteq> f) strf_lits)"
  have i: "i < 60" "strf_lits ! i = f"
  proof -
    have "takeWhile (\<lambda>g. g \<noteq> f) strf_lits \<noteq> strf_lits" using assms by (simp only: takeWhile_eq_all_conv) blast
    then have lt: "i < length strf_lits"
      unfolding i_def by (metis length_takeWhile_le le_neq_implies_less take_all order_refl takeWhile_eq_take)
    then show "i < 60" by (simp add: lits_facts(1))
    show "strf_lits ! i = f" using nth_length_takeWhile [of "\<lambda>g. g \<noteq> f" strf_lits] lt by (simp add: i_def)
  qed
  have l: "lit table_env f = 0x1000 + of_nat (32 * i)" by (simp add: table_env_def i_def)
  have at: "table_mem (0x1000 + of_nat (32 * i) + of_nat j) = (if j < length f then bytes f ! j else 0)" if "j < 32" for j
  proof -
    have u: "unat (0x1000 + of_nat (32 * i) + of_nat j :: u32) = 4096 + (32 * i + j)"
    proof -
      have "(0x1000 + of_nat (32 * i) + of_nat j :: u32) = of_nat (4096 + (32 * i + j))" by simp
      moreover have "4096 + (32 * i + j) < 2 ^ 32" using that i(1) by simp
      ultimately show ?thesis by (simp only: unat_of_nat_u32)
    qed
    have "(32 * i + j) div 32 = i" "(32 * i + j) mod 32 = j" using that by simp_all
    then show ?thesis unfolding table_mem_def u using i by simp
  qed
  have "cstr table_mem (lit table_env f) (bytes f)"
    unfolding l using at lits_facts(2) [OF assms] by (intro cstr_intro) (auto simp: in_set_conv_nth)
  then show ?thesis using l i(1) by (intro exI [of _ "32 * i"]) simp
qed

theorem strftime_correct_witness:
  "\<exists>m'. strftime table_env 0x100 11 0x50 \<lparr>tm_sec = 0, tm_min = 0, tm_hour = 0, tm_mday = 29, tm_mon = 1,
       tm_year = 100, tm_wday = 2, tm_yday = 59, tm_isdst = 0\<rparr> (put_bytes 0x50 [37, 70, 0] table_mem) = Some (10, m') \<and>
     cstr m' 0x100 (bytes ''2000-02-29'')"
proof -
  let ?t = "\<lparr>tm_sec = 0, tm_min = 0, tm_hour = 0, tm_mday = 29, tm_mon = 1, tm_year = 100, tm_wday = 2, tm_yday = 59,
    tm_isdst = 0\<rparr>"
  let ?m = "put_bytes 0x50 [37, 70, 0] table_mem"
  have w: "written table_env 0x100 11 = region 0x100 11 \<union> region 0x4000 32 \<union> region 0x4100 32"
    by (simp add: written_def table_env_def)
  have fmt: "cstr ?m 0x50 [37, 70]" by simp
  have fd: "region 0x50 3 \<inter> written table_env 0x100 11 = {}"
    unfolding w by (simp add: Int_Un_distrib region_apart)
  have lits: "cstr ?m (lit table_env f) (bytes f) \<and>
      region (lit table_env f) (Suc (length f)) \<inter> written table_env 0x100 11 = {}" if "f \<in> set strf_lits" for f
  proof -
    note f = that
    obtain k where k: "k + 32 \<le> 1920" "lit table_env f = 0x1000 + of_nat k" "cstr table_mem (lit table_env f) (bytes f)"
      using table_lit [OF f] by blast
    have l: "length f < 32" using lits_facts(2) [OF that] by blast
    have u: "unat (lit table_env f) = 4096 + k"
      unfolding k(2) using k(1) by (simp add: unat_add_nowrap unat_of_nat_u32)
    have a: "region (lit table_env f) (Suc (length f)) \<inter> region 0x50 3 = {}"
      "region (lit table_env f) (Suc (length f)) \<inter> written table_env 0x100 11 = {}"
      unfolding w Int_Un_distrib using k(1) l by (simp_all add: region_apart u)
    have "cstr ?m (lit table_env f) (bytes f)"
    proof (rule cstr_agree [where D = "region 0x50 3" and m = table_mem])
      show "?m x = table_mem x" if "x \<notin> region 0x50 3" for x
        using that by (intro put_bytes_outside) (simp add: eval_nat_numeral)
    qed (use a k(3) in simp_all)
    with a show ?thesis by blast
  qed
  have area: "area table_env 0x100 11 ?m"
    using lits by (auto simp: area_def w table_env_def region_apart)
  have ok: "time_ok ?t" "zone_ok (szone table_env)"
    by (simp_all add: time_ok_def zone_ok_def table_env_def tm_ok_def YEARSIZE_def LEAPYEAR_def smod_c_nonneg months_before_def month_days_def ytab_def)
  have n: "num_text 10 2000 = [50, 48, 48, 48]" "num_text 10 2 = [50]" "num_text 10 29 = [50, 57]"
    by (simp_all add: num_text.simps digit_byte_def)
  have o: "zdec 4 2000 = [50, 48, 48, 48]" "zdec 2 2 = [48, 50]" "zdec 2 29 = [50, 57]"
    by (simp_all add: zdec_def n)
  have T: "strf_spec (szone table_env) ?t [37, 70] = bytes ''2000-02-29''"
    by (simp add: strf_spec_def letter_spec_def letter_table_def o split_beta Let_def)
  have c: "unat (11 :: u32) = 11" "((0x50 :: u32) = 0) = False" "Suc (length [37, 70 :: u8]) = 3"
    "length (bytes ''2000-02-29'') = 10" "((10 :: nat) < 11) = True" "(of_nat 10 :: u32) = 10"
    by simp_all
  have "\<exists>m'. strftime table_env 0x100 11 0x50 ?t ?m = Some (10, m') \<and>
      (\<forall>i < 11. if i < 10 then m' (0x100 + of_nat i) = bytes ''2000-02-29'' ! i
        else i = 10 \<longrightarrow> m' (0x100 + of_nat i) = 0) \<and> (\<forall>x. x \<notin> written table_env 0x100 11 \<longrightarrow> m' x = ?m x)"
    using strftime_correct [where env = table_env and s = "0x100" and maxsize = "11" and m = ?m and t = ?t
      and format = "0x50" and xs = "[37, 70]"] area ok fmt fd
    unfolding T c if_False if_True by blast
  then obtain m' where m': "strftime table_env 0x100 11 0x50 ?t ?m = Some (10, m')"
    "\<And>i. i < 11 \<Longrightarrow> if i < 10 then m' (0x100 + of_nat i) = bytes ''2000-02-29'' ! i
        else i = 10 \<longrightarrow> m' (0x100 + of_nat i) = 0"
    by blast
  have nz: "0 \<notin> set (bytes ''2000-02-29'')" by simp
  have "cstr m' 0x100 (bytes ''2000-02-29'')"
  proof (rule cstr_intro)
    fix i assume "i < length (bytes ''2000-02-29'')"
    then have i: "i < 10" "bytes ''2000-02-29'' ! i \<in> set (bytes ''2000-02-29'')"
      unfolding c(4) by (simp only:, intro nth_mem) (simp only: c(4))
    then have "bytes ''2000-02-29'' ! i \<noteq> 0" using nz by metis
    with i(1) m'(2) [of i] show "m' (0x100 + of_nat i) = bytes ''2000-02-29'' ! i \<and> bytes ''2000-02-29'' ! i \<noteq> 0"
      by simp
  next
    show "m' (0x100 + of_nat (length (bytes ''2000-02-29''))) = 0" using m'(2) [of 10] unfolding c(4) by simp
  qed
  with m'(1) show ?thesis by blast
qed

end
