(* ===== verification/Sscanf.thy ===== *)
theory Sscanf
  imports Vsprintf Ctype
begin

unbundle bit_operations_syntax

text \<open>
  Formatted input from memory, \<^verbatim>\<open>lib/sscanf.c\<close>: the text, the format and the objects that receive the
  values are in the same flat memory. \<open>args\<close> are the pointers passed and \<open>n\<close> the number consumed.
\<close>

section \<open>Numbers\<close>

definition scan_value :: "int \<Rightarrow> int" where
  "scan_value c = (if isdigit c \<noteq> 0 then c - 48 else toupper c - 65 + 10)"

text \<open>The base from a prefix, when none is given; the two routines begin alike.\<close>

definition scan_base :: "mem \<Rightarrow> u32 \<Rightarrow> u32 \<Rightarrow> u32 \<times> u32" where
  "scan_base m cp base =
     (if base = 0
      then if m cp = 48
        then if m (cp + 1) = 120 \<and> isxdigit (int_of_char (m (cp + 2))) \<noteq> 0 then (16, cp + 2) else (8, cp + 1)
        else (10, cp)
      else (base, cp))"

text \<open>
  The loop of both routines, over the width of the result; \<open>val\<close> is their expression for the value of
  a character.
\<close>

partial_function (option) strto_loop ::
    "(int \<Rightarrow> int) \<Rightarrow> mem \<Rightarrow> u32 \<Rightarrow> 'a::len word \<Rightarrow> u32 \<Rightarrow> ('a word \<times> u32) option" where
  "strto_loop val m base result cp =
     (let c = int_of_char (m cp); value = word_of_int (val c)
      in if isxdigit c \<noteq> 0 \<and> value < (ucast base :: 'a word)
         then strto_loop val m base (result * ucast base + value) (cp + 1)
         else Some (result, cp))"

definition simple_strtoul :: "mem \<Rightarrow> u32 \<Rightarrow> u32 \<Rightarrow> (u32 \<times> u32) option" where
  "simple_strtoul m cp base = (case scan_base m cp base of (base, cp) \<Rightarrow> strto_loop scan_value m base 0 cp)"

definition simple_strtol :: "mem \<Rightarrow> u32 \<Rightarrow> u32 \<Rightarrow> (u32 \<times> u32) option" where
  "simple_strtol m cp base =
     (if m cp = 45 then map_option (\<lambda>(r, e). (- r, e)) (simple_strtoul m (cp + 1) base)
      else simple_strtoul m cp base)"

definition scan_value64 :: "int \<Rightarrow> int" where
  "scan_value64 c =
     (if isdigit c \<noteq> 0 then c - 48 else (if islower c \<noteq> 0 then toupper c else c) - 65 + 10)"

definition simple_strtoull :: "mem \<Rightarrow> u32 \<Rightarrow> u32 \<Rightarrow> (u64 \<times> u32) option" where
  "simple_strtoull m cp base = (case scan_base m cp base of (base, cp) \<Rightarrow> strto_loop scan_value64 m base 0 cp)"

definition simple_strtoll :: "mem \<Rightarrow> u32 \<Rightarrow> u32 \<Rightarrow> (u64 \<times> u32) option" where
  "simple_strtoll m cp base =
     (if m cp = 45 then map_option (\<lambda>(r, e). (- r, e)) (simple_strtoull m (cp + 1) base)
      else simple_strtoull m cp base)"

partial_function (option) scan_atoi :: "mem \<Rightarrow> u32 \<Rightarrow> u32 \<Rightarrow> (u32 \<times> u32) option" where
  "scan_atoi m i s =
     (if isdigit (int_of_char (m s)) \<noteq> 0 then scan_atoi m (i * 10 + scast (m s) - 48) (s + 1) else Some (i, s))"

section \<open>Skipping and copying\<close>

definition space_at :: "mem \<Rightarrow> u32 \<Rightarrow> bool" where
  "space_at m s \<longleftrightarrow> isspace (int_of_char (m s)) \<noteq> 0"

text \<open>\<^verbatim>\<open>while (isspace(*s)) s++;\<close> and \<^verbatim>\<open>while (!isspace(*s) && *s) s++;\<close>\<close>

partial_function (option) skip_space :: "mem \<Rightarrow> u32 \<Rightarrow> u32 option" where
  "skip_space m s = (if space_at m s then skip_space m (s + 1) else Some s)"

partial_function (option) skip_word :: "mem \<Rightarrow> u32 \<Rightarrow> u32 option" where
  "skip_word m s = (if \<not> space_at m s \<and> m s \<noteq> 0 then skip_word m (s + 1) else Some s)"

text \<open>\<^verbatim>\<open>do { *s++ = *str++; } while (--field_width > 0 && *str);\<close>\<close>

function scan_chars :: "u32 \<Rightarrow> u32 \<Rightarrow> int \<Rightarrow> mem \<Rightarrow> u32 \<times> mem" where
  "scan_chars s str width m =
     (let m = m(s := m str); str = str + 1; width = width - 1
      in if width > 0 \<and> m str \<noteq> 0 then scan_chars (s + 1) str width m else (str, m))"
  by pat_completeness auto
termination
  by (relation "measure (\<lambda>(s, str, width, m). nat width)") auto

declare scan_chars.simps [simp del]

text \<open>\<^verbatim>\<open>while (*str && !isspace(*str) && field_width--) *s++ = *str++;\<close>\<close>

partial_function (option) scan_word :: "u32 \<Rightarrow> u32 \<Rightarrow> int \<Rightarrow> mem \<Rightarrow> (u32 \<times> u32 \<times> mem) option" where
  "scan_word s str width m =
     (if m str \<noteq> 0 \<and> \<not> space_at m str \<and> width \<noteq> 0
      then scan_word (s + 1) (str + 1) (width - 1) (m(s := m str))
      else Some (s, str, m))"

definition store_short :: "mem \<Rightarrow> u32 \<Rightarrow> u32 \<Rightarrow> mem" where
  "store_short m a v = m(a := ucast v, a + 1 := ucast (drop_bit 8 v))"

definition store_llong :: "mem \<Rightarrow> u32 \<Rightarrow> u64 \<Rightarrow> mem" where
  "store_llong m a v = store32 (store32 m a (ucast v)) (a + 4) (ucast (drop_bit 32 v))"

section \<open>Conversions\<close>

text \<open>
  What one turn of the loop does: it ends the call with the number of values stored, or goes on with
  the format, the text, the arguments consumed and the number of values.
\<close>

datatype scan = Stop int mem | Go u32 u32 nat int mem

text \<open>The character that must be a digit of the base.\<close>

definition scan_digit_ok :: "u32 \<Rightarrow> u8 \<Rightarrow> bool" where
  "scan_digit_ok base digit =
     (let d = int_of_char digit
      in \<not> (digit = 0 \<or> (base = 16 \<and> isxdigit d = 0) \<or> (base = 10 \<and> isdigit d = 0) \<or>
        (base = 8 \<and> (isdigit d = 0 \<or> d > 55)) \<or> (base = 0 \<and> isdigit d = 0)))"

text \<open>The conversion and the store for a qualifier (-1 when there is none): the end of the number and the memory.\<close>

definition scan_store :: "int \<Rightarrow> bool \<Rightarrow> u32 \<Rightarrow> u32 \<Rightarrow> u32 \<Rightarrow> mem \<Rightarrow> (u32 \<times> mem) option" where
  "scan_store qualifier is_sign base a str m =
     (let num = if is_sign then simple_strtol m str base else simple_strtoul m str base
      in if qualifier = 104 then map_option (\<lambda>(v, e). (e, store_short m a v)) num
         else if qualifier = 108 then map_option (\<lambda>(v, e). (e, store32 m a v)) num
         else if qualifier = 76
         then map_option (\<lambda>(v, e). (e, store_llong m a v))
           (if is_sign then simple_strtoll m str base else simple_strtoull m str base)
         else if qualifier = 90 \<or> qualifier = 122
         then map_option (\<lambda>(v, e). (e, store32 m a v)) (simple_strtoul m str base)
         else map_option (\<lambda>(v, e). (e, store32 m a v)) num)"

definition scan_int :: "(nat \<Rightarrow> u32) \<Rightarrow> nat \<Rightarrow> int \<Rightarrow> int \<Rightarrow> bool \<Rightarrow> u32 \<Rightarrow> u32 \<Rightarrow> u32 \<Rightarrow> mem \<Rightarrow> scan option" where
  "scan_int args n num qualifier is_sign base fmt str m =
     Option.bind (skip_space m str) (\<lambda>str.
       let digit = m str; digit = (if is_sign \<and> digit = 45 then m (str + 1) else digit)
       in if \<not> scan_digit_ok base digit then Some (Stop num m)
          else map_option (\<lambda>(next', m).
              if next' = 0 then Stop (num + 1) m else Go fmt next' (Suc n) (num + 1) m)
            (scan_store qualifier is_sign base (args n) str m))"

definition scan_conv :: "u32 \<Rightarrow> (nat \<Rightarrow> u32) \<Rightarrow> nat \<Rightarrow> int \<Rightarrow> int \<Rightarrow> int \<Rightarrow> u32 \<Rightarrow> u32 \<Rightarrow> mem \<Rightarrow> scan option" where
  "scan_conv buf args n num width qualifier fmt str m =
     (let c = m fmt; fmt = fmt + 1; a = args n
      in if c = 99
         then (case scan_chars a str (if width = - 1 then 1 else width) m of
           (str, m) \<Rightarrow> Some (Go fmt str (Suc n) (num + 1) m))
         else if c = 115
         then Option.bind (skip_space m str) (\<lambda>str.
           map_option (\<lambda>(s, str, m). Go fmt str (Suc n) (num + 1) (m(s := 0)))
             (scan_word a str (if width = - 1 then 4 else width) m))
         else if c = 110 then Some (Go fmt str (Suc n) num (store32 m a (str - buf)))
         else if c = 111 then scan_int args n num qualifier False 8 fmt str m
         else if c = 120 \<or> c = 88 then scan_int args n num qualifier False 16 fmt str m
         else if c = 105 then scan_int args n num qualifier True 0 fmt str m
         else if c = 100 then scan_int args n num qualifier True 10 fmt str m
         else if c = 117 then scan_int args n num qualifier False 10 fmt str m
         else if c = 37 then Some (if m str \<noteq> 37 then Stop num m else Go fmt (str + 1) n num m)
         else Some (Stop num m))"

section \<open>The loop\<close>

definition scan_step :: "u32 \<Rightarrow> (nat \<Rightarrow> u32) \<Rightarrow> nat \<Rightarrow> int \<Rightarrow> u32 \<Rightarrow> u32 \<Rightarrow> mem \<Rightarrow> scan option" where
  "scan_step buf args n num fmt str m = do {
     (fmt, str) \<leftarrow> (if space_at m fmt
       then do { fmt \<leftarrow> skip_space m fmt; str \<leftarrow> skip_space m str; Some (fmt, str) }
       else Some (fmt, str));
     if m fmt \<noteq> 37 \<and> m fmt \<noteq> 0
     then Some (if m fmt \<noteq> m str then Stop num m else Go (fmt + 1) (str + 1) n num m)
     else if m fmt = 0 then Some (Stop num m)
     else if m (fmt + 1) = 42
     then do { fmt \<leftarrow> skip_word m (fmt + 1); str \<leftarrow> skip_word m str; Some (Go fmt str n num m) }
     else do {
       (width, fmt) \<leftarrow> (if isdigit (int_of_char (m (fmt + 1))) \<noteq> 0
         then map_option (\<lambda>(i, fmt). (sint i, fmt)) (scan_atoi m 0 (fmt + 1)) else Some (- 1, fmt + 1));
       (qualifier, fmt) \<leftarrow> Some (if m fmt = 104 \<or> m fmt = 108 \<or> m fmt = 76 \<or> m fmt = 90 \<or> m fmt = 122
         then (int_of_char (m fmt), fmt + 1) else (- 1, fmt));
       if m fmt = 0 \<or> m str = 0 then Some (Stop num m)
       else scan_conv buf args n num width qualifier fmt str m } }"

partial_function (option) scan_loop :: "u32 \<Rightarrow> (nat \<Rightarrow> u32) \<Rightarrow> nat \<Rightarrow> int \<Rightarrow> u32 \<Rightarrow> u32 \<Rightarrow> mem \<Rightarrow> (int \<times> mem) option" where
  "scan_loop buf args n num fmt str m =
     (if m fmt \<noteq> 0 \<and> m str \<noteq> 0
      then Option.bind (scan_step buf args n num fmt str m) (\<lambda>r. case r of
        Stop num m \<Rightarrow> Some (num, m) | Go fmt str n num m \<Rightarrow> scan_loop buf args n num fmt str m)
      else Some (num, m))"

definition vsscanf :: "u32 \<Rightarrow> u32 \<Rightarrow> (nat \<Rightarrow> u32) \<Rightarrow> mem \<Rightarrow> (int \<times> mem) option" where
  "vsscanf buf fmt args m = scan_loop buf args 0 0 fmt buf m"

definition sscanf :: "u32 \<Rightarrow> u32 \<Rightarrow> (nat \<Rightarrow> u32) \<Rightarrow> mem \<Rightarrow> (int \<times> mem) option" where
  "sscanf buf fmt args m = vsscanf buf fmt args m"

section \<open>Reading digits\<close>

definition is_digits :: "nat \<Rightarrow> u8 list \<Rightarrow> bool" where
  "is_digits b ds \<longleftrightarrow> (\<forall>c\<in>set ds. \<exists>d < b. c = digit_byte d)"

lemma is_digits_num_text: "1 < b \<Longrightarrow> is_digits b (num_text b k)"
proof (induction b k rule: num_text.induct)
  case (1 b k)
  have "is_digits b [digit_byte (k mod b)]"
    using "1.prems" by (auto simp: is_digits_def intro!: exI [of _ "k mod b"])
  with 1 show ?case
    unfolding num_text.simps [of b k] by (cases "b \<le> k") (simp_all add: is_digits_def)
qed

lemma digit_byte_facts:
  assumes "d < 16"
  shows "scan_value (int_of_char (digit_byte d)) = int d" and "isxdigit (int_of_char (digit_byte d)) \<noteq> 0"
    and "scan_value64 (int_of_char (digit_byte d)) = int d"
    and "isdigit (int_of_char (digit_byte d)) \<noteq> 0 \<longleftrightarrow> d < 10" and "int_of_char (digit_byte d) > 55 \<longleftrightarrow> 7 < d"
proof -
  have u: "unat (digit_byte d) = (if d < 10 then 48 + d else 87 + d)" using unat_digit_byte [of d] assms by simp
  then have "int_of_char (digit_byte d) = (if d < 10 then 48 + int d else 87 + int d)"
    using int_of_char_ascii [of "digit_byte d"] assms by auto
  then show "scan_value (int_of_char (digit_byte d)) = int d" "isxdigit (int_of_char (digit_byte d)) \<noteq> 0"
    "scan_value64 (int_of_char (digit_byte d)) = int d"
    "isdigit (int_of_char (digit_byte d)) \<noteq> 0 \<longleftrightarrow> d < 10" "int_of_char (digit_byte d) > 55 \<longleftrightarrow> 7 < d"
    using assms by (auto simp: scan_value_def scan_value64_def isxdigit_def isdigit_def toupper_def islower_def)
qed

text \<open>The loops read the longest run of digits: here the text ends or goes on with a byte that is none.\<close>

definition ends_digits :: "u8 list \<Rightarrow> bool" where
  "ends_digits rest \<longleftrightarrow> rest = [] \<or> isxdigit (int_of_char (hd rest)) = 0"

lemma ends_digits_at: "cstr m s rest \<Longrightarrow> ends_digits rest \<Longrightarrow> isxdigit (int_of_char (m s)) = 0"
  by (cases rest) (auto simp: ends_digits_def isxdigit_def toupper_def)

lemma of_nat_digit:
  assumes "d < b" and "b \<le> 16" and "4 < LENGTH('a::len)"
  shows "(of_nat d :: 'a word) < of_nat b"
proof -
  have "(16 :: nat) < 2 ^ LENGTH('a)" using assms(3) power_strict_increasing [of 4 "LENGTH('a)" "2 :: nat"] by simp
  with assms show ?thesis by (simp add: word_less_nat_alt unat_of_nat)
qed

lemma strto_digits:
  fixes val :: "int \<Rightarrow> int" and v :: nat
  assumes val: "\<And>d. d < 16 \<Longrightarrow> val (int_of_char (digit_byte d)) = int d"
    and b: "b \<le> 16" "4 < LENGTH('a::len)" and "is_digits b ds" and "cstr m s (ds @ rest)" and "ends_digits rest"
  shows "strto_loop val m (of_nat b) (of_nat v :: 'a word) s =
    Some (of_nat (foldl (\<lambda>v c. v * b + byte_digit c) v ds), s + of_nat (length ds))"
  using assms(4-)
proof (induction ds arbitrary: s v)
  case Nil
  then show ?case using ends_digits_at [of m s rest] by (simp add: strto_loop.simps [of val m _ _ s])
next
  case (Cons c ds)
  obtain d where d: "d < b" "c = digit_byte d" using Cons.prems(1) by (auto simp: is_digits_def)
  then have f: "val (int_of_char c) = int d" "isxdigit (int_of_char c) \<noteq> 0" "byte_digit c = d"
    using digit_byte_facts [of d] val [of d] b(1) byte_digit_byte [of d] by simp_all
  have u: "(ucast (of_nat b :: u32) :: 'a word) = of_nat b"
    using b(1) by (simp add: unsigned_of_nat take_bit_nat_eq_self)
  have "(of_nat d :: 'a word) < of_nat b" using d b by (intro of_nat_digit) simp_all
  moreover have "m s = c" using Cons.prems(2) by simp
  ultimately have "strto_loop val m (of_nat b) (of_nat v :: 'a word) s =
      strto_loop val m (of_nat b) (of_nat (v * b + byte_digit c)) (s + 1)"
    using f by (simp add: strto_loop.simps [of val m _ _ s] u)
  also have "\<dots> = Some (of_nat (foldl (\<lambda>v c. v * b + byte_digit c) (v * b + byte_digit c) ds), s + 1 + of_nat (length ds))"
    using Cons by (intro Cons.IH) (simp_all add: is_digits_def)
  finally show ?case by (simp add: add.assoc)
qed

text \<open>A number in a base is read back, up to the width of the result.\<close>

lemma simple_strtoul_num:
  assumes "1 < b" and "b \<le> 16" and "cstr m s (num_text b k @ rest)" and "ends_digits rest"
  shows "simple_strtoul m s (of_nat b) = Some (of_nat k, s + of_nat (length (num_text b k)))"
    and "simple_strtoull m s (of_nat b) = Some (of_nat k, s + of_nat (length (num_text b k)))"
proof -
  have b: "(of_nat b :: u32) \<noteq> 0" using assms(1,2) of_nat_u32_eq_iff [of b 0] by simp
  note d = strto_digits [OF _ assms(2) _ is_digits_num_text [OF assms(1)] assms(3,4), of _ 0]
  have v: "foldl (\<lambda>v c. v * b + byte_digit c) 0 (num_text b k) = k"
    using text_val_num_text [of b k] assms(1,2) by (simp add: text_val_def)
  show "simple_strtoul m s (of_nat b) = Some (of_nat k, s + of_nat (length (num_text b k)))"
    using d [of scan_value, where ?'a = 32] digit_byte_facts(1) b by (simp add: simple_strtoul_def scan_base_def v)
  show "simple_strtoull m s (of_nat b) = Some (of_nat k, s + of_nat (length (num_text b k)))"
    using d [of scan_value64, where ?'a = 64] digit_byte_facts(3) b by (simp add: simple_strtoull_def scan_base_def v)
qed

section \<open>Reading printed words\<close>

text \<open>The conversions that print a word without loss, and what they print: sign, base and magnitude.\<close>

definition word_convs :: "u8 set" where
  "word_convs = {100, 117, 120, 111}"

definition word_item :: "u8 \<Rightarrow> item" where
  "word_item c = Dir [] None None [] c"

definition word_base :: "u8 \<Rightarrow> nat" where
  "word_base c = (if c = 120 then 16 else if c = 111 then 8 else 10)"

definition word_neg :: "u8 \<Rightarrow> u32 \<Rightarrow> bool" where
  "word_neg c a \<longleftrightarrow> c = 100 \<and> sint a < 0"

definition word_text :: "u8 \<Rightarrow> u32 \<Rightarrow> u8 list" where
  "word_text c a = (if word_neg c a then [45] else []) @
     num_text (word_base c) (unat (if word_neg c a then - a else a))"

lemma word_base_range: "1 < word_base c" "word_base c \<le> 16"
  by (simp_all add: word_base_def)

lemma case_of_digits:
  assumes "is_digits 10 ds \<or> small"
  shows "map (case_of small) ds = ds"
proof (rule map_idI)
  fix c assume "c \<in> set ds"
  with assms show "case_of small c = c"
    by (auto simp: is_digits_def case_of_def unat_digit_byte)
qed

lemma word_item_text:
  assumes "c \<in> word_convs"
  shows "item_text str a (word_item c) = word_text c a"
proof -
  have d: "digit_text False 10 k = num_text 10 k" "digit_text True 16 k = num_text 16 k" for k
    using case_of_digits is_digits_num_text [of 10 k] by (simp_all add: digit_text_def)
  have "is_digits 10 (num_text 8 k)" for k
    using is_digits_num_text [of 8 k] by (force simp: is_digits_def)
  then have o: "digit_text False 8 k = num_text 8 k" for k
    using case_of_digits by (simp add: digit_text_def)
  have h: "has SMALL SMALL" "has SIGN SIGN" "\<not> has SMALL SIGN" "\<not> has SMALL PLUS" "\<not> has SMALL SPACE"
    "\<not> has SMALL SPECIAL" "\<not> has SMALL LEFT" "\<not> has SMALL ZEROPAD" "\<not> has SIGN SMALL" "\<not> has SIGN PLUS" "\<not> has SIGN SPACE"
    "\<not> has SIGN SPECIAL" "\<not> has SIGN LEFT" "\<not> has SIGN ZEROPAD" "\<not> has 0 f" for f
    by (simp_all add: has_def SMALL_def ZEROPAD_def SIGN_def PLUS_def SPACE_def LEFT_def SPECIAL_def)
  from assms show ?thesis
    unfolding word_convs_def
    by (elim insertE emptyE) (simp_all add: word_item_def flag_bits_def conv_text_def opt_int_def number_text_def
      num_sign_def num_prefix_def magnitude_def h d o word_text_def word_neg_def word_base_def)
qed

lemma word_text_facts:
  "0 \<notin> set (word_text c a)" "word_text c a \<noteq> []" "isspace (int_of_char (hd (word_text c a))) = 0"
proof -
  let ?k = "unat (if word_neg c a then - a else a)"
  have nz: "0 \<notin> set (num_text (word_base c) ?k)" using num_text_nonzero word_base_range [of c] by simp
  then show "0 \<notin> set (word_text c a)" by (simp add: word_text_def)
  show "word_text c a \<noteq> []" by (simp add: word_text_def)
  obtain d where d: "d < word_base c" "hd (num_text (word_base c) ?k) = digit_byte d"
    using is_digits_num_text [OF word_base_range(1), of c ?k] by (force simp: is_digits_def)
  have "isspace (int_of_char (digit_byte d)) = 0"
    using d(1) word_base_range(2) [of c] unat_digit_byte [of d] int_of_char_ascii [of "digit_byte d"]
    by (auto simp: isspace_def)
  moreover have "isspace (int_of_char 45) = 0" by (simp add: isspace_def int_of_char_def)
  ultimately show "isspace (int_of_char (hd (word_text c a))) = 0"
    using d(2) by (cases "word_neg c a") (simp_all add: word_text_def)
qed

text \<open>A conversion whose text follows reads the word back.\<close>

lemma scan_int_word:
  assumes c: "c \<in> word_convs" and t: "cstr m str (word_text c a @ rest)" and e: "ends_digits rest"
    and nz: "str + of_nat (length (word_text c a)) \<noteq> 0"
  shows "scan_int args n num (- 1) (c = 100) (of_nat (word_base c)) fmt str m =
    Some (Go fmt (str + of_nat (length (word_text c a))) (Suc n) (num + 1) (store32 m (args n) a))"
proof -
  let ?k = "unat (if word_neg c a then - a else a)"
  let ?ds = "num_text (word_base c) ?k"
  let ?s = "if word_neg c a then str + 1 else str"
  obtain d ds where d: "?ds = digit_byte d # ds" "d < word_base c"
    using is_digits_num_text [OF word_base_range(1), of c ?k] num_text_not_Nil [of "word_base c" ?k]
    by (cases ?ds) (auto simp: is_digits_def)
  have ct: "cstr m ?s (?ds @ rest)" "word_neg c a \<Longrightarrow> m str = 45"
    using t by (auto simp: word_text_def)
  have at: "m ?s = digit_byte d" using ct(1) d(1) by simp
  have n45: "digit_byte d \<noteq> 45"
    using unat_digit_byte [of d] d(2) word_base_range(2) [of c] by (auto split: if_splits)
  have sp: "skip_space m str = Some str"
  proof -
    have "m str = hd (word_text c a)" using t word_text_facts(2) [of c a] by (cases "word_text c a") auto
    then have "\<not> space_at m str" using word_text_facts(3) [of c a] by (simp add: space_at_def)
    then show ?thesis by (simp add: skip_space.simps [of m str])
  qed
  have dg: "(if c = 100 \<and> m str = 45 then m (str + 1) else m str) = digit_byte d"
    using at ct(2) n45 by (auto simp: word_neg_def split: if_splits)
  have ok: "scan_digit_ok (of_nat (word_base c)) (digit_byte d)"
    using digit_byte_facts [of d] d(2) digit_byte_nonzero [of d]
    by (auto simp: scan_digit_ok_def word_base_def Let_def split: if_splits)
  have num: "simple_strtoul m ?s (of_nat (word_base c)) = Some (of_nat ?k, ?s + of_nat (length ?ds))"
    by (rule simple_strtoul_num(1) [OF word_base_range ct(1) e])
  have len: "?s + of_nat (length ?ds) = str + of_nat (length (word_text c a))"
    by (simp add: word_text_def)
  have val: "(if word_neg c a then - of_nat ?k else of_nat ?k) = a" by simp
  have st: "scan_store (- 1) (c = 100) (of_nat (word_base c)) (args n) str m =
      Some (str + of_nat (length (word_text c a)), store32 m (args n) a)"
  proof (cases "word_neg c a")
    case True
    then have "c = 100" "m str = 45" using ct(2) by (auto simp: word_neg_def)
    with num len True val show ?thesis by (simp add: scan_store_def simple_strtol_def)
  next
    case False
    then have "m str \<noteq> 45" using at n45 by simp
    then have "(if c = 100 then simple_strtol m str b else simple_strtoul m str b) = simple_strtoul m str b" for b
      by (simp add: simple_strtol_def)
    with num len False show ?thesis by (simp add: scan_store_def Let_def)
  qed
  show ?thesis
    using sp dg ok st nz by (simp add: scan_int_def)
qed

lemma scan_conv_word:
  assumes "m fmt = c" and c: "c \<in> word_convs" and "cstr m str (word_text c a @ rest)" and "ends_digits rest"
    and "str + of_nat (length (word_text c a)) \<noteq> 0"
  shows "scan_conv buf args n num (- 1) (- 1) fmt str m =
    Some (Go (fmt + 1) (str + of_nat (length (word_text c a))) (Suc n) (num + 1) (store32 m (args n) a))"
  using scan_int_word [OF c assms(3-5), of args n num "fmt + 1"] assms(1) c
  by (auto simp: scan_conv_def word_convs_def word_base_def)

text \<open>One turn of the loop: an optional space in format and text, and a conversion.\<close>

lemma scan_step_word:
  assumes c: "c \<in> word_convs" and sp: "sp = [] \<or> sp = [32]"
    and f: "cstr m fmt (sp @ [37, c] @ fr)" and t: "cstr m str (sp @ word_text c a @ rest)" and e: "ends_digits rest"
    and nz: "str + of_nat (length sp + length (word_text c a)) \<noteq> 0"
  shows "scan_step buf args n num fmt str m =
    Some (Go (fmt + of_nat (length sp + 2)) (str + of_nat (length sp + length (word_text c a))) (Suc n) (num + 1)
      (store32 m (args n) a))"
proof -
  let ?f = "fmt + of_nat (length sp)" and ?s = "str + of_nat (length sp)"
  have f': "m ?f = 37" "m (?f + 1) = c" using f sp by auto
  have t': "cstr m ?s (word_text c a @ rest)" using t sp by auto
  have hd: "m ?s = hd (word_text c a)" "hd (word_text c a) \<noteq> 0"
    using t' word_text_facts(1,2) [of c a] by (cases "word_text c a"; auto)+
  have ns: "\<not> space_at m ?s" "\<not> space_at m ?f"
    using hd word_text_facts(3) [of c a] f' by (simp_all add: space_at_def isspace_def int_of_char_def)
  have lead: "(if space_at m fmt then do { fmt \<leftarrow> skip_space m fmt; str \<leftarrow> skip_space m str; Some (fmt, str) }
      else Some (fmt, str)) = Some (?f, ?s)"
  proof (cases "sp = []")
    case True
    with ns show ?thesis by simp
  next
    case False
    then have "sp = [32]" using sp by simp
    then have "space_at m fmt" "space_at m str" "?f = fmt + 1" "?s = str + 1"
      using f t by (simp_all add: space_at_def isspace_def int_of_char_def)
    with ns show ?thesis
      by (simp add: skip_space.simps [of m fmt] skip_space.simps [of m str] skip_space.simps [of m "fmt + 1"]
        skip_space.simps [of m "str + 1"])
  qed
  have nd: "isdigit (int_of_char c) = 0" "c \<noteq> 42" "c \<noteq> 104" "c \<noteq> 108" "c \<noteq> 76" "c \<noteq> 90" "c \<noteq> 122" "c \<noteq> 0"
    using c by (auto simp: word_convs_def isdigit_def int_of_char_def)
  have z: "?s + of_nat (length (word_text c a)) \<noteq> 0" using nz by (simp add: add.assoc)
  have "scan_step buf args n num fmt str m = scan_conv buf args n num (- 1) (- 1) (?f + 1) ?s m"
    unfolding scan_step_def lead using f' nd hd by simp
  also have "\<dots> = Some (Go (?f + 1 + 1) (?s + of_nat (length (word_text c a))) (Suc n) (num + 1) (store32 m (args n) a))"
    by (rule scan_conv_word [OF f'(2) c t' e z])
  finally show ?thesis by (simp add: add.assoc)
qed

section \<open>Reading a list of words\<close>

text \<open>Conversions with one space between them, as a format, and the text they print.\<close>

fun word_items :: "u8 list \<Rightarrow> item list" where
  "word_items [] = []"
| "word_items [c] = [word_item c]"
| "word_items (c # c' # cs) = word_item c # Lit 32 # word_items (c' # cs)"

definition words_text :: "u8 list \<Rightarrow> nat \<Rightarrow> (nat \<Rightarrow> u32) \<Rightarrow> u8 list" where
  "words_text cs n args = format_text (\<lambda>_. []) args n (word_items cs)"

text \<open>The stores of the words through the pointers.\<close>

fun store_words :: "(nat \<Rightarrow> u32) \<Rightarrow> (nat \<Rightarrow> u32) \<Rightarrow> nat \<Rightarrow> nat \<Rightarrow> mem \<Rightarrow> mem" where
  "store_words p args n 0 m = m"
| "store_words p args n (Suc k) m = store_words p args (Suc n) k (store32 m (p n) (args n))"

lemma store32_outside: "x \<notin> region a 4 \<Longrightarrow> store32 m a v x = m x"
  by (rule store32_other) (simp add: region_4)

lemma store_words_outside:
  "(\<And>i. n \<le> i \<Longrightarrow> i < n + k \<Longrightarrow> x \<notin> region (p i) 4) \<Longrightarrow> store_words p args n k m x = m x"
proof (induction k arbitrary: n m)
  case (Suc k)
  then have "store_words p args (Suc n) k (store32 m (p n) (args n)) x = store32 m (p n) (args n) x" by simp
  also have "\<dots> = m x" using Suc.prems [of n] by (simp add: store32_outside)
  finally show ?case by simp
qed simp

lemma store_words_load:
  assumes "\<And>i j. n \<le> i \<Longrightarrow> i < j \<Longrightarrow> j < n + k \<Longrightarrow> region (p i) 4 \<inter> region (p j) 4 = {}" and "n \<le> i" and "i < n + k"
  shows "load32 (store_words p args n k m) (p i) = args i"
  using assms
proof (induction k arbitrary: n m)
  case (Suc k)
  show ?case
  proof (cases "i = n")
    case True
    have "store_words p args (Suc n) k (store32 m (p n) (args n)) x = store32 m (p n) (args n) x" if "x \<in> region (p n) 4" for x
    proof (rule store_words_outside)
      fix i assume "Suc n \<le> i" "i < Suc n + k"
      with Suc.prems(1) [of n i] that show "x \<notin> region (p i) 4" by auto
    qed
    then have "load32 (store_words p args (Suc n) k (store32 m (p n) (args n))) (p n) = load32 (store32 m (p n) (args n)) (p n)"
      by (rule load32_cong)
    with True show ?thesis by (simp add: load32_store32_same)
  next
    case False
    with Suc.prems show ?thesis by (simp add: Suc.IH)
  qed
qed simp

text \<open>The rest of the format and of the text, from a conversion on; later ones begin with a space.\<close>

fun rest_format :: "u8 list \<Rightarrow> u8 list" where
  "rest_format [] = []"
| "rest_format (c # cs) = 32 # 37 # c # rest_format cs"

fun rest_text :: "u8 list \<Rightarrow> nat \<Rightarrow> (nat \<Rightarrow> u32) \<Rightarrow> u8 list" where
  "rest_text [] n args = []"
| "rest_text (c # cs) n args = 32 # word_text c (args n) @ rest_text cs (Suc n) args"

lemma words_format: "format_chars (word_items (c # cs)) = 37 # c # rest_format cs"
proof (induction cs arbitrary: c)
  case (Cons d cs)
  then show ?case by (simp add: word_item_def width_chars_def prec_chars_def)
qed (simp add: word_item_def width_chars_def prec_chars_def)

lemma words_text_rest:
  "set (c # cs) \<subseteq> word_convs \<Longrightarrow> words_text (c # cs) n args = word_text c (args n) @ rest_text cs (Suc n) args"
proof (induction cs arbitrary: c n)
  case Nil
  then show ?case by (simp add: words_text_def word_item_text)
next
  case (Cons d cs)
  have "takes (word_item c) = 1" by (simp add: word_item_def)
  with Cons.IH [of d "Suc n"] Cons.prems show ?case by (simp add: words_text_def word_item_text)
qed

lemma rest_ends: "ends_digits (rest_text cs n args)"
  by (cases cs) (auto simp: ends_digits_def isxdigit_def toupper_def int_of_char_def)

definition targets :: "(nat \<Rightarrow> u32) \<Rightarrow> nat \<Rightarrow> nat \<Rightarrow> u32 set" where
  "targets p n k = (\<Union>i\<in>{n..<n + k}. region (p i) 4)"

lemma targets_Suc: "targets p n (Suc k) = region (p n) 4 \<union> targets p (Suc n) k"
proof -
  have "{n..<n + Suc k} = insert n {Suc n..<Suc n + k}" by auto
  then show ?thesis by (simp only: targets_def UN_insert)
qed

text \<open>After one conversion the rest of format and text is where it was.\<close>

lemma scan_loop_word:
  assumes c: "c \<in> word_convs" and sp: "sp = [] \<or> sp = [32]"
    and f: "cstr m fmt (sp @ 37 # c # rest_format cs)" and t: "cstr m str (sp @ word_text c (args n) @ rest_text cs (Suc n) args)"
    and df: "region fmt (Suc (length (sp @ 37 # c # rest_format cs))) \<inter> targets p n (Suc (length cs)) = {}"
    and dt: "region str (Suc (length (sp @ word_text c (args n) @ rest_text cs (Suc n) args))) \<inter> targets p n (Suc (length cs)) = {}"
    and nz: "0 \<notin> region str (Suc (length (sp @ word_text c (args n) @ rest_text cs (Suc n) args)))"
  defines "fmt' \<equiv> fmt + of_nat (length sp + 2)" and "str' \<equiv> str + of_nat (length sp + length (word_text c (args n)))"
    and "m' \<equiv> store32 m (p n) (args n)"
  shows "scan_loop buf p n num fmt str m = scan_loop buf p (Suc n) (num + 1) fmt' str' m'"
    and "cstr m' fmt' (rest_format cs)" and "cstr m' str' (rest_text cs (Suc n) args)"
    and "region fmt' (Suc (length (rest_format cs))) \<inter> targets p (Suc n) (length cs) = {}"
    and "region str' (Suc (length (rest_text cs (Suc n) args))) \<inter> targets p (Suc n) (length cs) = {}"
    and "0 \<notin> region str' (Suc (length (rest_text cs (Suc n) args)))"
proof -
  let ?lf = "length sp + 2" and ?lt = "length sp + length (word_text c (args n))"
  have rf: "region fmt' (Suc (length (rest_format cs))) \<subseteq> region fmt (Suc (length (sp @ 37 # c # rest_format cs)))"
    unfolding fmt'_def using region_shift [of fmt ?lf "Suc (length (rest_format cs))"] by simp
  have rt: "region str' (Suc (length (rest_text cs (Suc n) args))) \<subseteq>
      region str (Suc (length (sp @ word_text c (args n) @ rest_text cs (Suc n) args)))"
    unfolding str'_def using region_shift [of str ?lt "Suc (length (rest_text cs (Suc n) args))"] by (simp add: add.assoc)
  show d: "region fmt' (Suc (length (rest_format cs))) \<inter> targets p (Suc n) (length cs) = {}"
    "region str' (Suc (length (rest_text cs (Suc n) args))) \<inter> targets p (Suc n) (length cs) = {}"
    "0 \<notin> region str' (Suc (length (rest_text cs (Suc n) args)))"
    using rf rt df dt nz unfolding targets_Suc by blast+
  have dp: "region fmt' (Suc (length (rest_format cs))) \<inter> region (p n) 4 = {}"
    "region str' (Suc (length (rest_text cs (Suc n) args))) \<inter> region (p n) 4 = {}"
    using rf rt df dt unfolding targets_Suc by blast+
  have out: "m' x = m x" if "x \<notin> region (p n) 4" for x
    unfolding m'_def using that by (rule store32_outside)
  have cf: "cstr m fmt' (rest_format cs)"
    unfolding fmt'_def using cstr_drop [OF f, of ?lf] sp by auto
  have ct: "cstr m str' (rest_text cs (Suc n) args)"
    unfolding str'_def using cstr_drop [OF t, of ?lt] by simp
  show "cstr m' fmt' (rest_format cs)" by (rule cstr_agree [OF out dp(1) cf])
  show "cstr m' str' (rest_text cs (Suc n) args)" by (rule cstr_agree [OF out dp(2) ct])
  have "str' \<in> region str (Suc (length (sp @ word_text c (args n) @ rest_text cs (Suc n) args)))"
    unfolding str'_def by (rule in_region) simp
  then have "str' \<noteq> 0" using nz by metis
  then have "scan_step buf p n num fmt str m = Some (Go fmt' str' (Suc n) (num + 1) m')"
    unfolding fmt'_def str'_def m'_def
    using scan_step_word [OF c sp _ t rest_ends, of fmt "rest_format cs" buf p n num] f by simp
  moreover have "m fmt \<noteq> 0" "m str \<noteq> 0"
    using f t sp word_text_facts(1,2) [of c "args n"] by (cases "word_text c (args n)"; auto)+
  ultimately show "scan_loop buf p n num fmt str m = scan_loop buf p (Suc n) (num + 1) fmt' str' m'"
    by (simp add: scan_loop.simps [of buf p n num fmt str m])
qed

lemma scan_loop_rest:
  assumes "set cs \<subseteq> word_convs" and "cstr m fmt (rest_format cs)" and "cstr m str (rest_text cs n args)"
    and "region fmt (Suc (length (rest_format cs))) \<inter> targets p n (length cs) = {}"
    and "region str (Suc (length (rest_text cs n args))) \<inter> targets p n (length cs) = {}"
    and "0 \<notin> region str (Suc (length (rest_text cs n args)))"
  shows "scan_loop buf p n num fmt str m = Some (num + int (length cs), store_words p args n (length cs) m)"
  using assms
proof (induction cs arbitrary: n num fmt str m)
  case Nil
  then show ?case by (simp add: scan_loop.simps [of buf p n num fmt str m])
next
  case (Cons c cs)
  note w = scan_loop_word [where sp = "[32]" and c = c and m = m and fmt = fmt and str = str and cs = cs
    and args = args and n = n and p = p]
  have "c \<in> word_convs" "set cs \<subseteq> word_convs" using Cons.prems(1) by simp_all
  with Cons.prems(2-) show ?case using w(1) [where buf = buf and num = num] w(2-) Cons.IH [where n = "Suc n" and num = "num + 1"] by simp
qed

lemma scan_words:
  assumes cs: "cs \<noteq> []" "set cs \<subseteq> word_convs"
    and f: "cstr m fmt (format_chars (word_items cs))" and t: "cstr m buf (words_text cs 0 args)"
    and d: "region fmt (Suc (length (format_chars (word_items cs)))) \<inter> targets p 0 (length cs) = {}"
      "region buf (Suc (length (words_text cs 0 args))) \<inter> targets p 0 (length cs) = {}"
      "0 \<notin> region buf (Suc (length (words_text cs 0 args)))"
  shows "sscanf buf fmt p m = Some (int (length cs), store_words p args 0 (length cs) m)"
proof -
  obtain c cs' where c: "cs = c # cs'" using cs(1) by (cases cs) auto
  then have c': "c \<in> word_convs" "set cs' \<subseteq> word_convs" "set (c # cs') \<subseteq> word_convs" using cs(2) by simp_all
  note f = f [unfolded c words_format] and t = t [unfolded c words_text_rest [OF c'(3)]]
    and d = d [unfolded c words_format words_text_rest [OF c'(3)] list.size add_0_right]
  note w = scan_loop_word [where sp = "[]" and c = c and m = m and fmt = fmt and str = buf and cs = cs'
    and args = args and n = 0 and p = p, OF c'(1)]
  show ?thesis
    using w(1) [where buf = buf and num = 0] w(2-) scan_loop_rest [OF c'(2), where n = 1 and num = 1 and buf = buf and p = p and args = args] f t d
    unfolding sscanf_def vsscanf_def c by simp
qed

section \<open>Properties\<close>

lemma region_no_zero: "0 \<notin> region a n \<Longrightarrow> n < 4294967296"
proof (rule ccontr)
  assume nz: "0 \<notin> region a n" and "\<not> n < 4294967296"
  then have "unat (- a) < n" using unat_lt_u32 [of "- a"] by linarith
  then have "a + of_nat (unat (- a)) \<in> region a n" by (rule in_region)
  with nz show False by simp
qed

lemma rest_text_nonzero: "0 \<notin> set (rest_text cs n args)"
  by (induction cs arbitrary: n) (simp_all add: word_text_facts)

lemma words_wf: "set cs \<subseteq> word_convs \<Longrightarrow> (\<forall>i\<in>set (word_items cs). wf_item i) \<and> strings_ok D m str args n (word_items cs)"
  by (induction cs arbitrary: n rule: word_items.induct)
    (auto simp: word_item_def word_convs_def conv_chars_def flag_chars_def)

text \<open>
  Property C33. Round trip: the words that \<open>sprintf\<close> prints with a list of \<^verbatim>\<open>%d\<close>, \<^verbatim>\<open>%u\<close>, \<^verbatim>\<open>%x\<close> and \<^verbatim>\<open>%o\<close>
  directives, one space apart, are read back by \<open>sscanf\<close> with the same format: the call reports one
  value per directive and every object receives the word that was printed.
\<close>

theorem sscanf_sprintf:
  fixes cs args
  defines "T \<equiv> words_text cs 0 args"
  assumes cs: "cs \<noteq> []" "set cs \<subseteq> word_convs" and f: "cstr m fmt (format_chars (word_items cs))"
    and fb: "region fmt (Suc (length (format_chars (word_items cs)))) \<inter> region buf (Suc (length T)) = {}"
    and nz: "0 \<notin> region buf (Suc (length T))"
    and p: "\<forall>i<length cs. region (p i) 4 \<inter> (region fmt (Suc (length (format_chars (word_items cs)))) \<union>
      region buf (Suc (length T))) = {}"
    and pp: "\<forall>i j. i < j \<and> j < length cs \<longrightarrow> region (p i) 4 \<inter> region (p j) 4 = {}"
  shows "\<exists>m1 m2. sprintf buf fmt args m = Some m1 \<and> sscanf buf fmt p m1 = Some (int (length cs), m2) \<and>
    (\<forall>i<length cs. load32 m2 (p i) = args i)"
proof -
  let ?m1 = "put_bytes buf (T @ [0]) m"
  have "region buf (length T) \<subseteq> region buf (Suc (length T))" by (rule region_mono) simp
  then have "region fmt (Suc (length (format_chars (word_items cs)))) \<inter> region buf (length T) = {}" using fb by blast
  then have run: "sprintf buf fmt args m = Some ?m1"
    using words_wf [OF cs(2)] vsprintf_lemma(2) [OF f, of buf "\<lambda>_. []" args] unfolding T_def words_text_def by blast
  have out: "?m1 x = m x" if "x \<notin> region buf (Suc (length T))" for x
    using that by (intro put_bytes_outside) simp
  have f1: "cstr ?m1 fmt (format_chars (word_items cs))"
    by (rule cstr_agree [OF out fb f])
  have "0 \<notin> set T"
    using cs words_text_rest [of "hd cs" "tl cs" 0 args] word_text_facts(1) rest_text_nonzero
    unfolding T_def by (cases cs) auto
  then have t1: "cstr ?m1 buf (words_text cs 0 args)"
    unfolding T_def using region_no_zero [OF nz] by (intro put_bytes_cstr) (simp_all add: T_def)
  have tg: "targets p 0 (length cs) \<inter> (region fmt (Suc (length (format_chars (word_items cs)))) \<union>
      region buf (Suc (length T))) = {}"
    using p by (auto simp: targets_def)
  have "sscanf buf fmt p ?m1 = Some (int (length cs), store_words p args 0 (length cs) ?m1)"
    using tg nz by (intro scan_words [OF cs f1 t1, folded T_def]) blast+
  moreover have "load32 (store_words p args 0 (length cs) ?m1) (p i) = args i" if "i < length cs" for i
    using that pp by (intro store_words_load) auto
  ultimately show ?thesis using run by blast
qed

theorem sscanf_sprintf_witness:
  "\<exists>m1 m2. sprintf 0x200 0x100 (\<lambda>i. if i = 0 then - 5 else 48879) (put_bytes 0x100 [37, 100, 32, 37, 120, 0] (\<lambda>_. 0)) = Some m1 \<and>
    sscanf 0x200 0x100 (\<lambda>i. if i = 0 then 0x300 else 0x304) m1 = Some (2, m2) \<and>
    load32 m2 0x300 = - 5 \<and> load32 m2 0x304 = 48879"
proof -
  let ?m = "put_bytes 0x100 [37, 100, 32, 37, 120, 0] (\<lambda>_. 0)"
  let ?args = "\<lambda>i :: nat. if i = 0 then - 5 else (48879 :: u32)" and ?p = "\<lambda>i :: nat. if i = 0 then 0x300 else (0x304 :: u32)"
  let ?cs = "[100, 120] :: u8 list"
  have n: "num_text 10 5 = [53]" "num_text 16 48879 = [98, 101, 101, 102]"
    by (simp_all add: num_text.simps digit_byte_def)
  have t: "words_text ?cs 0 ?args = [45, 53, 32, 98, 101, 101, 102]"
    using words_text_rest [of 100 "[120]" 0 ?args] by (simp add: word_convs_def word_text_def word_neg_def word_base_def n)
  have f: "format_chars (word_items ?cs) = [37, 100, 32, 37, 120]"
    by (simp add: word_item_def width_chars_def prec_chars_def)
  have l: "Suc (length [37, 100, 32, 37, 120 :: u8]) = 6" "Suc (length [45, 53, 32, 98, 101, 101, 102 :: u8]) = 8"
    "length ?cs = 2" by simp_all
  have r: "region 0x100 6 = {0x100, 0x101, 0x102, 0x103, 0x104, 0x105}"
    "region 0x200 8 = {0x200, 0x201, 0x202, 0x203, 0x204, 0x205, 0x206, 0x207}"
    "region 0x300 4 = {0x300, 0x301, 0x302, 0x303}" "region 0x304 4 = {0x304, 0x305, 0x306, 0x307}"
    by (auto simp: region_def lessThan_nat_numeral lessThan_Suc)
  have a: "?cs \<noteq> []" "set ?cs \<subseteq> word_convs" "cstr ?m 0x100 (format_chars (word_items ?cs))"
    unfolding f by (simp_all add: word_convs_def)
  have d: "region 0x100 6 \<inter> region 0x200 8 = {}" "0 \<notin> region 0x200 8"
    "\<forall>i<2. region (?p i) 4 \<inter> (region 0x100 6 \<union> region 0x200 8) = {}" "region 0x300 4 \<inter> region 0x304 4 = {}"
    unfolding r by (simp_all add: r)
  have pp: "\<forall>i j. i < j \<and> j < 2 \<longrightarrow> region (?p i) 4 \<inter> region (?p j) 4 = {}"
  proof (intro allI impI)
    fix i j :: nat assume "i < j \<and> j < 2"
    then have "i = 0" "j = 1" by auto
    with d(4) show "region (?p i) 4 \<inter> region (?p j) 4 = {}" by simp
  qed
  obtain m1 m2 where m: "sprintf 0x200 0x100 ?args ?m = Some m1" "sscanf 0x200 0x100 ?p m1 = Some (int 2, m2)"
    "\<forall>i<2. load32 m2 (?p i) = ?args i"
    using sscanf_sprintf [where cs = ?cs and args = ?args and fmt = "0x100" and buf = "0x200" and p = ?p and m = ?m] a d(1-3) pp
    unfolding t f l by blast
  have "load32 m2 0x300 = - 5" "load32 m2 0x304 = 48879"
    using spec [OF m(3), of 0] spec [OF m(3), of 1] by simp_all
  with m(1,2) show ?thesis by (intro exI conjI) simp_all
qed

end
