(* ===== verification/Printer.thy ===== *)
theory Printer
  imports Main
begin

text \<open>
  The contract of a routine that prints lines: as long as the state keeps what its lines need, a line
  that is fit to print is shown, and the state keeps it. A program that prints through such a routine is
  described by the list of lines it shows; the rules follow its sequence and its conditions.
\<close>

locale line_printer =
  fixes say_line :: "'l \<Rightarrow> 's \<Rightarrow> 's option"
    and shown :: "'l \<Rightarrow> 's \<Rightarrow> 's"
    and kept :: "'s \<Rightarrow> bool"
    and fit :: "'l \<Rightarrow> bool"
  assumes say_shown: "fit l \<Longrightarrow> kept s \<Longrightarrow> say_line l s = Some (shown l s)"
    and kept_shown: "fit l \<Longrightarrow> kept s \<Longrightarrow> kept (shown l s)"
begin

text \<open>A step shows a list of lines if, the lines being fit, it returns with exactly these shown.\<close>

definition prints :: "'l list \<Rightarrow> ('s \<Rightarrow> 's option) \<Rightarrow> bool" where
  "prints ls f \<longleftrightarrow> ((\<forall>l\<in>set ls. fit l) \<longrightarrow>
     (\<forall>s. kept s \<longrightarrow> f s = Some (fold shown ls s) \<and> kept (fold shown ls s)))"

lemma prints_line: "(\<And>s. kept s \<Longrightarrow> f s = say_line l s) \<Longrightarrow> prints [l] f"
  by (simp add: prints_def say_shown kept_shown)

lemma prints_none: "prints [] Some"
  by (simp add: prints_def)

lemma prints_bind: "prints ls f \<Longrightarrow> prints ls' g \<Longrightarrow> prints (ls @ ls') (\<lambda>s. Option.bind (f s) g)"
  by (auto simp: prints_def)

lemma prints_if:
  "(\<And>s. kept s \<Longrightarrow> b s = c) \<Longrightarrow> (c \<Longrightarrow> prints ls f) \<Longrightarrow> (\<not> c \<Longrightarrow> prints ls' g) \<Longrightarrow>
    prints (if c then ls else ls') (\<lambda>s. if b s then f s else g s)"
  by (auto simp: prints_def)

lemma prints_cong: "(\<And>s. kept s \<Longrightarrow> f s = g s) \<Longrightarrow> prints ls g \<Longrightarrow> prints ls f"
  by (auto simp: prints_def)

text \<open>A step that ends the program with a result over the last state.\<close>

definition ends :: "'l list \<Rightarrow> ('s \<Rightarrow> 'r) \<Rightarrow> ('s \<Rightarrow> 'r option) \<Rightarrow> bool" where
  "ends ls out f \<longleftrightarrow> ((\<forall>l\<in>set ls. fit l) \<longrightarrow> (\<forall>s. kept s \<longrightarrow> f s = Some (out (fold shown ls s))))"

lemma ends_bind: "prints ls f \<Longrightarrow> ends ls' out g \<Longrightarrow> ends (ls @ ls') out (\<lambda>s. Option.bind (f s) g)"
  by (auto simp: prints_def ends_def)

lemma ends_map: "prints ls f \<Longrightarrow> ends ls out (\<lambda>s. map_option out (f s))"
  by (auto simp: prints_def ends_def)

lemma ends_done: "ends [] out (\<lambda>s. Some (out s))"
  by (simp add: ends_def)

lemma ends_if:
  "(\<And>s. kept s \<Longrightarrow> b s = c) \<Longrightarrow> (c \<Longrightarrow> ends ls out f) \<Longrightarrow> (\<not> c \<Longrightarrow> ends ls out g) \<Longrightarrow>
    ends ls out (\<lambda>s. if b s then f s else g s)"
  by (auto simp: ends_def)

lemma ends_run: "ends ls out f \<Longrightarrow> \<forall>l\<in>set ls. fit l \<Longrightarrow> kept s \<Longrightarrow> f s = Some (out (fold shown ls s))"
  by (simp add: ends_def)

end

end
