(* ===== verification/Kernel.thy ===== *)
theory Kernel
  imports Stdio Printer
begin

unbundle bit_operations_syntax

text \<open>
  The kernel entry, \<^verbatim>\<open>kernel.c\<close>: the check of the boot loader's magic number and the report of the Multiboot
  information on the text screen. The structure is read from the flat memory at every use.
\<close>

section \<open>Multiboot information\<close>

definition MULTIBOOT_BOOTLOADER_MAGIC :: u32 where
  "MULTIBOOT_BOOTLOADER_MAGIC = 0x2BADB002"

text \<open>Offsets of the fields of \<^verbatim>\<open>struct multiboot_info\<close> that are read.\<close>

definition mbi_flags :: u32 where "mbi_flags = 0"
definition mbi_mem_lower :: u32 where "mbi_mem_lower = 4"
definition mbi_mem_upper :: u32 where "mbi_mem_upper = 8"
definition mbi_boot_device :: u32 where "mbi_boot_device = 12"
definition mbi_cmdline :: u32 where "mbi_cmdline = 16"
definition mbi_mods_count :: u32 where "mbi_mods_count = 20"
definition mbi_mods_addr :: u32 where "mbi_mods_addr = 24"
definition mbi_u :: u32 where "mbi_u = 28"
definition mbi_mmap_length :: u32 where "mbi_mmap_length = 44"
definition mbi_mmap_addr :: u32 where "mbi_mmap_addr = 48"

definition mod_size :: u32 where "mod_size = 16"

definition CHECK_FLAG :: "u32 \<Rightarrow> nat \<Rightarrow> bool" where
  "CHECK_FLAG flags b \<longleftrightarrow> flags AND push_bit b 1 \<noteq> 0"

section \<open>Printing\<close>

text \<open>
  The addresses the calls of \<open>printf\<close> use: its buffer, those of \<open>screen_printf\<close>, the string literals;
  \<open>kjunk\<close> are the stack words beyond the arguments.
\<close>

record kernel_env =
  kbuf :: u32
  kitoa :: u32
  knull :: u32
  klit :: "string \<Rightarrow> u32"
  kjunk :: "nat \<Rightarrow> u32"

definition arg_words :: "kernel_env \<Rightarrow> u32 list \<Rightarrow> nat \<Rightarrow> u32" where
  "arg_words env args n = (if n < length args then args ! n else kjunk env (n - length args))"

definition say :: "kernel_env \<Rightarrow> string \<Rightarrow> u32 list \<Rightarrow> screen \<Rightarrow> screen option" where
  "say env f args s =
     printf (kbuf env) (kjunk env) (kitoa env) (knull env) (klit env f) (arg_words env args) s"

text \<open>\<^verbatim>\<open>if (CHECK_FLAG(mbi->flags, b)) printf(f, args);\<close>: the arguments are read from memory.\<close>

definition field :: "u32 \<Rightarrow> u32 \<Rightarrow> screen \<Rightarrow> u32" where
  "field addr off s = load32 (vmem s) (addr + off)"

definition say_if :: "kernel_env \<Rightarrow> u32 \<Rightarrow> nat \<Rightarrow> string \<Rightarrow> u32 list \<Rightarrow> screen \<Rightarrow> screen option" where
  "say_if env addr b f offs s =
     (if CHECK_FLAG (field addr mbi_flags s) b then say env f (map (\<lambda>off. field addr off s) offs) s else Some s)"

partial_function (option) mods_loop :: "kernel_env \<Rightarrow> u32 \<Rightarrow> u32 \<Rightarrow> u32 \<Rightarrow> screen \<Rightarrow> screen option" where
  "mods_loop env addr i mod' s =
     (if i < field addr mbi_mods_count s
      then Option.bind (say env '' mod_start = 0x%x, mod_end = 0x%x, cmdline = %s\<newline>''
             [field mod' 0 s, field mod' 4 s, field mod' 8 s] s)
           (mods_loop env addr (i + 1) (mod' + mod_size))
      else Some s)"

definition say_mods :: "kernel_env \<Rightarrow> u32 \<Rightarrow> screen \<Rightarrow> screen option" where
  "say_mods env addr s =
     (if CHECK_FLAG (field addr mbi_flags s) 3
      then Option.bind (say env ''mods_count = %d, mods_addr = 0x%x\<newline>''
             [field addr mbi_mods_count s, field addr mbi_mods_addr s] s)
           (\<lambda>s. mods_loop env addr 0 (field addr mbi_mods_addr s) s)
      else Some s)"

section \<open>The entry\<close>

text \<open>How \<open>cmain\<close> ends: it returns because of the magic number or of the flags, or it calls \<open>init\<close>.\<close>

datatype boot = Bad_magic | Bad_flags | Started

text \<open>The report of symbols, memory map and further information.\<close>

definition say_last :: "kernel_env \<Rightarrow> u32 \<Rightarrow> screen \<Rightarrow> (boot \<times> u32 \<times> screen) option" where
  "say_last env addr s = do {
     s \<leftarrow> say_if env addr 4 ''multiboot_aout_symbol_table: tabsize = 0x%0x, strsize = 0x%x, addr = 0x%x\<newline>''
       [mbi_u, mbi_u + 4, mbi_u + 8] s;
     s \<leftarrow> say_if env addr 5 ''multiboot_elf_sec: num = %u, size = 0x%x, addr = 0x%x, shndx = 0x%x\<newline>''
       [mbi_u, mbi_u + 4, mbi_u + 8, mbi_u + 12] s;
     s \<leftarrow> say_if env addr 6 ''mmap_addr = 0x%x, mmap_length = 0x%x\<newline>'' [mbi_mmap_addr, mbi_mmap_length] s;
     s \<leftarrow> say_if env addr 7 ''drives set\<newline>'' [] s;
     s \<leftarrow> say_if env addr 8 ''config_table set\<newline>'' [] s;
     s \<leftarrow> say_if env addr 9 ''boot_loader_name set\<newline>'' [] s;
     s \<leftarrow> say_if env addr 10 ''apm_table set\<newline>'' [] s;
     s \<leftarrow> say_if env addr 11 ''vbeinfo set\<newline>'' [] s;
     Some (Started, addr, s) }"

text \<open>The report from the structure at \<open>addr\<close>.\<close>

definition say_info :: "kernel_env \<Rightarrow> u32 \<Rightarrow> screen \<Rightarrow> (boot \<times> u32 \<times> screen) option" where
  "say_info env addr s = do {
     s \<leftarrow> say env ''addr:0x%x flags = 0x%x\<newline>'' [addr, addr, field addr mbi_flags s] s;
     s \<leftarrow> say_if env addr 0 ''mem_lower = %uKB, mem_upper = %uKB\<newline>'' [mbi_mem_lower, mbi_mem_upper] s;
     s \<leftarrow> say_if env addr 1 ''boot_device = 0x%x\<newline>'' [mbi_boot_device] s;
     s \<leftarrow> say_if env addr 2 ''cmdline = %s\<newline>'' [mbi_cmdline] s;
     s \<leftarrow> say_mods env addr s;
     if CHECK_FLAG (field addr mbi_flags s) 4 \<and> CHECK_FLAG (field addr mbi_flags s) 5
     then map_option (\<lambda>s. (Bad_flags, addr, s)) (say env ''Both bits 4 and 5 are set.\<newline>'' [] s)
     else say_last env addr s }"

text \<open>\<open>mbi\<close> is the global \<^verbatim>\<open>multiboot_info\<close>; the result is the outcome, its new value and the screen.\<close>

definition cmain :: "kernel_env \<Rightarrow> u32 \<Rightarrow> u32 \<Rightarrow> u32 \<Rightarrow> screen \<Rightarrow> (boot \<times> u32 \<times> screen) option" where
  "cmain env magic addr mbi s =
     (let s = cls s
      in if magic \<noteq> MULTIBOOT_BOOTLOADER_MAGIC
         then map_option (\<lambda>s. (Bad_magic, mbi, s)) (say env ''Invalid magic number: 0x%x\<newline>'' [magic] s)
         else say_info env addr s)"

section \<open>The report\<close>

text \<open>A line of the report is a format with its arguments; its text is that of the format.\<close>

type_synonym line = "string \<times> u32 list"

text \<open>The directives of the formats used here.\<close>

fun simple_items :: "u8 list \<Rightarrow> item list" where
  "simple_items [] = []"
| "simple_items [c] = [Lit c]"
| "simple_items (c # c' # cs) =
     (if c \<noteq> 37 then Lit c # simple_items (c' # cs)
      else if c' = 48 \<and> cs \<noteq> [] then Dir [48] None None [] (hd cs) # simple_items (tl cs)
      else Dir [] None None [] c' # simple_items cs)"

definition line_text :: "kernel_env \<Rightarrow> (u32 \<Rightarrow> u8 list) \<Rightarrow> line \<Rightarrow> u8 list" where
  "line_text env str l = format_text str (arg_words env (snd l)) 0 (simple_items (bytes (fst l)))"

text \<open>Showing a text: it is built in the buffer and its characters are put on the screen.\<close>

definition show_text :: "u32 \<Rightarrow> u8 list \<Rightarrow> screen \<Rightarrow> screen" where
  "show_text buf t s = fold (\<lambda>c. putchar (scast c)) t (s\<lparr>vmem := put_bytes buf (t @ [0]) (vmem s)\<rparr>)"

definition if_flag :: "u32 \<Rightarrow> nat \<Rightarrow> line \<Rightarrow> line list" where
  "if_flag flags b l = (if CHECK_FLAG flags b then [l] else [])"

text \<open>The lines for the information structure at an address, and how the entry ends.\<close>

definition mod_line :: "mem \<Rightarrow> u32 \<Rightarrow> line" where
  "mod_line m a = ('' mod_start = 0x%x, mod_end = 0x%x, cmdline = %s\<newline>'',
     [load32 m a, load32 m (a + 4), load32 m (a + 8)])"

definition mod_lines :: "mem \<Rightarrow> u32 \<Rightarrow> line list" where
  "mod_lines m addr =
     (let nmods = load32 m (addr + mbi_mods_count); mods = load32 m (addr + mbi_mods_addr)
      in (''mods_count = %d, mods_addr = 0x%x\<newline>'', [nmods, mods]) #
         map (\<lambda>i. mod_line m (mods + of_nat i * mod_size)) [0..<unat nmods])"

definition flag_line :: "mem \<Rightarrow> u32 \<Rightarrow> nat \<Rightarrow> string \<Rightarrow> u32 list \<Rightarrow> line list" where
  "flag_line m addr b f offs = if_flag (load32 m (addr + mbi_flags)) b (f, map (\<lambda>off. load32 m (addr + off)) offs)"

definition first_lines :: "mem \<Rightarrow> u32 \<Rightarrow> line list" where
  "first_lines m addr =
     [(''addr:0x%x flags = 0x%x\<newline>'', [addr, addr, load32 m (addr + mbi_flags)])] @
     flag_line m addr 0 ''mem_lower = %uKB, mem_upper = %uKB\<newline>'' [mbi_mem_lower, mbi_mem_upper] @
     flag_line m addr 1 ''boot_device = 0x%x\<newline>'' [mbi_boot_device] @
     flag_line m addr 2 ''cmdline = %s\<newline>'' [mbi_cmdline] @
     (if CHECK_FLAG (load32 m (addr + mbi_flags)) 3 then mod_lines m addr else [])"



section \<open>What a line needs\<close>

text \<open>The bytes that printing changes: the screen and the first \<open>K\<close> bytes of the buffer.\<close>

definition used :: "kernel_env \<Rightarrow> nat \<Rightarrow> u32 set" where
  "used env K = Collect on_screen \<union> region (kbuf env) K"

definition kernel_formats :: "string list" where
  "kernel_formats = [''Invalid magic number: 0x%x\<newline>'', ''addr:0x%x flags = 0x%x\<newline>'',
     ''mem_lower = %uKB, mem_upper = %uKB\<newline>'', ''boot_device = 0x%x\<newline>'', ''cmdline = %s\<newline>'',
     ''mods_count = %d, mods_addr = 0x%x\<newline>'', '' mod_start = 0x%x, mod_end = 0x%x, cmdline = %s\<newline>'',
     ''Both bits 4 and 5 are set.\<newline>'',
     ''multiboot_aout_symbol_table: tabsize = 0x%0x, strsize = 0x%x, addr = 0x%x\<newline>'',
     ''multiboot_elf_sec: num = %u, size = 0x%x, addr = 0x%x, shndx = 0x%x\<newline>'',
     ''mmap_addr = 0x%x, mmap_length = 0x%x\<newline>'', ''drives set\<newline>'', ''config_table set\<newline>'',
     ''boot_loader_name set\<newline>'', ''apm_table set\<newline>'', ''vbeinfo set\<newline>'']"

lemma simple_items_chars:
  "f \<in> set kernel_formats \<Longrightarrow> format_chars (simple_items (bytes f)) = bytes f \<and> (\<forall>i\<in>set (simple_items (bytes f)). wf_item i)"
proof -
  have "list_all (\<lambda>f. format_chars (simple_items (bytes f)) = bytes f \<and> list_all wf_item (simple_items (bytes f))) kernel_formats"
    unfolding kernel_formats_def list.pred_inject
    by (simp add: width_chars_def prec_chars_def flag_chars_def conv_chars_def)
  then show "f \<in> set kernel_formats \<Longrightarrow> ?thesis" by (simp add: list_all_iff)
qed

text \<open>
  The literal and the strings of a line are apart from those bytes, and its text fits, with its terminator, in
  the \<open>K\<close> bytes, which are at most the 1024 of the buffer, and has no percent sign.
\<close>

definition line_ok :: "kernel_env \<Rightarrow> nat \<Rightarrow> (u32 \<Rightarrow> u8 list) \<Rightarrow> mem \<Rightarrow> line \<Rightarrow> bool" where
  "line_ok env K str m l \<longleftrightarrow>
     fst l \<in> set kernel_formats \<and> cstr m (klit env (fst l)) (bytes (fst l)) \<and>
     region (klit env (fst l)) (Suc (length (fst l))) \<inter> used env K = {} \<and>
     strings_ok (used env K) m str (arg_words env (snd l)) 0 (simple_items (bytes (fst l))) \<and>
     length (line_text env str l) < K \<and> 0 \<notin> set (line_text env str l) \<and> 37 \<notin> set (line_text env str l)"

definition room_ok :: "kernel_env \<Rightarrow> nat \<Rightarrow> bool" where
  "room_ok env K \<longleftrightarrow> K \<le> PRINTF_BUF \<and> (\<forall>a\<in>region (kbuf env) K. \<not> on_screen a)"

definition kept :: "kernel_env \<Rightarrow> nat \<Rightarrow> mem \<Rightarrow> screen \<Rightarrow> bool" where
  "kept env K m s \<longleftrightarrow> screen_ok s \<and> (\<forall>x. x \<notin> used env K \<longrightarrow> vmem s x = m x)"

lemma strings_ok_mono:
  assumes "strings_ok D m str args n is" and "D' \<subseteq> D" and "\<And>x. x \<notin> D \<Longrightarrow> m' x = m x"
  shows "strings_ok D' m' str args n is"
  using assms(1)
proof (induction "is" arbitrary: n)
  case (Cons i "is")
  have "cstr m' a (str a) \<and> length (str a) < 2147483648 \<and> region a (Suc (length (str a))) \<inter> D' = {}"
    if "cstr m a (str a)" "region a (Suc (length (str a))) \<inter> D = {}" "length (str a) < 2147483648" for a
    using that cstr_agree [OF assms(3) that(2,1)] assms(2) by blast
  with Cons show ?case by (cases i) simp_all
qed simp

lemma fold_putchar:
  assumes "screen_ok s"
  shows "screen_ok (fold (\<lambda>c. putchar (scast c)) t s) \<and> only_screen (vmem s) (vmem (fold (\<lambda>c. putchar (scast c)) t s))"
  using assms
proof (induction t arbitrary: s)
  case (Cons c t)
  from Cons.IH [of "putchar (scast c) s"] putchar_ok [OF Cons.prems, of "scast c"] show ?case
    by (simp add: only_screen_def)
qed (simp add: only_screen_def)

lemma say_shows:
  assumes r: "room_ok env K" and l: "line_ok env K str m l" and k: "kept env K m s"
  shows "say env (fst l) (snd l) s = Some (show_text (kbuf env) (line_text env str l) s)"
    and "kept env K m (show_text (kbuf env) (line_text env str l) s)"
proof -
  let ?t = "line_text env str l" and ?is = "simple_items (bytes (fst l))"
  let ?s = "s\<lparr>vmem := put_bytes (kbuf env) (?t @ [0]) (vmem s)\<rparr>"
  have l': "format_chars ?is = bytes (fst l)" "\<forall>i\<in>set ?is. wf_item i" "cstr m (klit env (fst l)) (bytes (fst l))"
    "region (klit env (fst l)) (Suc (length (fst l))) \<inter> used env K = {}"
    "strings_ok (used env K) m str (arg_words env (snd l)) 0 ?is" "length ?t < K" "0 \<notin> set ?t" "37 \<notin> set ?t"
    using l simple_items_chars [of "fst l"] by (simp_all add: line_ok_def)
  have s: "screen_ok s" "\<And>x. x \<notin> used env K \<Longrightarrow> vmem s x = m x" using k by (simp_all add: kept_def)
  have sub: "region (kbuf env) (length ?t) \<subseteq> used env K" "region (kbuf env) (Suc (length ?t)) \<subseteq> region (kbuf env) K"
    using region_mono [of "length ?t" K "kbuf env"] region_mono [of "Suc (length ?t)" K "kbuf env"] l'(6)
    by (auto simp: used_def)
  have c: "cstr (vmem s) (klit env (fst l)) (format_chars ?is)"
    unfolding l'(1) by (rule cstr_agree [OF s(2)]) (use l' in simp_all)
  have d: "region (klit env (fst l)) (Suc (length (format_chars ?is))) \<inter> region (kbuf env) (length ?t) = {}"
    using l'(4) sub(1) unfolding l'(1) by auto
  have st: "strings_ok (region (kbuf env) (length ?t)) (vmem s) str (arg_words env (snd l)) 0 ?is"
    by (rule strings_ok_mono [OF l'(5) sub(1) s(2)])
  have len: "length ?t < 1024" using l'(6) r by (simp add: room_ok_def PRINTF_BUF_def)
  have off: "\<forall>a\<in>region (kbuf env) (Suc (length ?t)). \<not> on_screen a" using sub(2) r by (auto simp: room_ok_def)
  show "say env (fst l) (snd l) s = Some (show_text (kbuf env) ?t s)"
    unfolding say_def show_text_def line_text_def
    by (rule printf_correct [OF s(1) c l'(2) d [unfolded line_text_def] st [unfolded line_text_def]
      l'(7,8) [unfolded line_text_def] len [unfolded line_text_def] off [unfolded line_text_def]])
  have "screen_ok ?s" using s(1) by (simp add: screen_ok_def)
  note f = fold_putchar [OF this, of ?t]
  have "vmem ?s x = vmem s x" if "x \<notin> region (kbuf env) K" for x
    using that sub(2) put_bytes_outside [of x "kbuf env" "?t @ [0]" "vmem s"] by auto
  then show "kept env K m (show_text (kbuf env) ?t s)"
    using f s(2) by (auto simp: kept_def used_def show_text_def only_screen_def)
qed

section \<open>The report is shown\<close>

definition line_fit :: "kernel_env \<Rightarrow> nat \<Rightarrow> (u32 \<Rightarrow> u8 list) \<Rightarrow> mem \<Rightarrow> line \<Rightarrow> bool" where
  "line_fit env K str m l \<longleftrightarrow> room_ok env K \<and> line_ok env K str m l"

interpretation console: line_printer "\<lambda>l. say env (fst l) (snd l)"
  "\<lambda>l. show_text (kbuf env) (line_text env str l)" "kept env K m" "line_fit env K str m" for env K str m
  by unfold_locales (auto simp: line_fit_def intro: say_shows)

abbreviation console_prints :: "kernel_env \<Rightarrow> nat \<Rightarrow> (u32 \<Rightarrow> u8 list) \<Rightarrow> mem \<Rightarrow> line list \<Rightarrow> (screen \<Rightarrow> screen option) \<Rightarrow> bool" where
  "console_prints env K str m \<equiv> line_printer.prints (\<lambda>l. show_text (kbuf env) (line_text env str l)) (kept env K m)
     (line_fit env K str m)"



text \<open>The structure and the module list are apart from what printing changes.\<close>

definition info_ok :: "kernel_env \<Rightarrow> nat \<Rightarrow> mem \<Rightarrow> u32 \<Rightarrow> bool" where
  "info_ok env K m addr \<longleftrightarrow> region addr 52 \<inter> used env K = {} \<and>
     (CHECK_FLAG (load32 m (addr + mbi_flags)) 3 \<longrightarrow>
       region (load32 m (addr + mbi_mods_addr)) (16 * unat (load32 m (addr + mbi_mods_count))) \<inter> used env K = {})"

lemma field_kept:
  assumes "region a n \<inter> used env K = {}" and "kept env K m s" and "k + 4 \<le> n"
  shows "field a (of_nat k) s = load32 m (a + of_nat k)"
  unfolding field_def
proof (rule load32_cong)
  fix x assume "x \<in> region (a + of_nat k) 4"
  then have "x \<in> region a n"
    using region_shift [of a k 4] region_mono [OF assms(3), of a] by blast
  then show "vmem s x = m x" using assms(1,2) by (auto simp: kept_def)
qed

lemma info_field:
  assumes "info_ok env K m addr" and "kept env K m s"
  shows "off \<in> {0, 4, 8, 12, 16, 20, 24, 28, 32, 36, 40, 44, 48} \<Longrightarrow> field addr off s = load32 m (addr + off)"
proof -
  have r: "region addr 52 \<inter> used env K = {}" using assms(1) by (simp add: info_ok_def)
  note f = field_kept [OF r assms(2)]
  show "off \<in> {0, 4, 8, 12, 16, 20, 24, 28, 32, 36, 40, 44, 48} \<Longrightarrow> field addr off s = load32 m (addr + off)"
    using f [of 0] f [of 4] f [of 8] f [of 12] f [of 16] f [of 20] f [of 24] f [of 28] f [of 32] f [of 36] f [of 40]
      f [of 44] f [of 48] by auto
qed

lemmas mbi_offsets = mbi_flags_def mbi_mem_lower_def mbi_mem_upper_def mbi_boot_device_def mbi_cmdline_def
  mbi_mods_count_def mbi_mods_addr_def mbi_u_def mbi_mmap_length_def mbi_mmap_addr_def

lemma prints_say_if:
  assumes i: "info_ok env K m addr" 
    and offs: "set offs \<subseteq> {0, 4, 8, 12, 16, 20, 24, 28, 32, 36, 40, 44, 48}"
  shows "console_prints env K str m (flag_line m addr b f offs) (say_if env addr b f offs)"
proof -
  have "console_prints env K str m
      (if CHECK_FLAG (load32 m (addr + mbi_flags)) b then [(f, map (\<lambda>off. load32 m (addr + off)) offs)] else [])
      (\<lambda>s. if CHECK_FLAG (field addr mbi_flags s) b then say env f (map (\<lambda>off. field addr off s) offs) s else Some s)"
  proof (rule console.prints_if)
    show "CHECK_FLAG (field addr mbi_flags s) b = CHECK_FLAG (load32 m (addr + mbi_flags)) b" if "kept env K m s" for s
      using info_field [OF i that] by (simp add: mbi_flags_def)
    have "map (\<lambda>off. field addr off s) offs = map (\<lambda>off. load32 m (addr + off)) offs" if "kept env K m s" for s
      by (rule map_cong [OF refl]) (use info_field [OF i that] offs in blast)
    then show "console_prints env K str m [(f, map (\<lambda>off. load32 m (addr + off)) offs)]
        (\<lambda>s. say env f (map (\<lambda>off. field addr off s) offs) s)"
      by (intro console.prints_line) (simp only: fst_conv snd_conv)
  qed (rule console.prints_none)
  then show ?thesis by (simp add: say_if_def [abs_def] flag_line_def if_flag_def)
qed

lemma kernel_formats_mem:
  "''Invalid magic number: 0x%x\<newline>'' \<in> set kernel_formats" "''addr:0x%x flags = 0x%x\<newline>'' \<in> set kernel_formats"
  "''mem_lower = %uKB, mem_upper = %uKB\<newline>'' \<in> set kernel_formats" "''boot_device = 0x%x\<newline>'' \<in> set kernel_formats"
  "''cmdline = %s\<newline>'' \<in> set kernel_formats" "''mods_count = %d, mods_addr = 0x%x\<newline>'' \<in> set kernel_formats"
  "'' mod_start = 0x%x, mod_end = 0x%x, cmdline = %s\<newline>'' \<in> set kernel_formats"
  "''Both bits 4 and 5 are set.\<newline>'' \<in> set kernel_formats"
  "''multiboot_aout_symbol_table: tabsize = 0x%0x, strsize = 0x%x, addr = 0x%x\<newline>'' \<in> set kernel_formats"
  "''multiboot_elf_sec: num = %u, size = 0x%x, addr = 0x%x, shndx = 0x%x\<newline>'' \<in> set kernel_formats"
  "''mmap_addr = 0x%x, mmap_length = 0x%x\<newline>'' \<in> set kernel_formats" "''drives set\<newline>'' \<in> set kernel_formats"
  "''config_table set\<newline>'' \<in> set kernel_formats" "''boot_loader_name set\<newline>'' \<in> set kernel_formats"
  "''apm_table set\<newline>'' \<in> set kernel_formats" "''vbeinfo set\<newline>'' \<in> set kernel_formats"
  unfolding kernel_formats_def by (simp_all only: list.set insert_iff simp_thms)




lemma cls_kept:
  assumes "room_ok env K"
  shows "kept env K (vmem s) (cls s)"
proof -
  have "only_screen m (cls_loop i m)" if "0 \<le> i" for i m
    using that
  proof (induction i m rule: cls_loop.induct)
    case (1 i m)
    show ?case
    proof (cases "i < COLUMNS * LINES * 2")
      case True
      then have "only_screen m (m(vaddr i := 0))"
        using only_screen_upd [of m m i 0] "1.prems" by (simp add: COLUMNS_def LINES_def)
      moreover have "cls_loop i m = cls_loop (i + 1) (m(vaddr i := 0))"
        using True by (subst cls_loop.simps) (rule if_P)
      moreover have "only_screen (m(vaddr i := 0)) (cls_loop (i + 1) (m(vaddr i := 0)))"
        using "1.prems" by (intro "1.IH" [OF True]) simp
      ultimately show ?thesis using only_screen_trans by metis
    qed (simp add: cls_loop.simps [of i m])
  qed
  then have "only_screen (vmem s) (vmem (cls s))" by (simp add: cls_def)
  then show ?thesis by (auto simp: kept_def cls_def screen_ok_def only_screen_def used_def)
qed




text \<open>
  A command line whose report does not fit in the buffer of \<open>printf\<close>: the entry does not get past it.
\<close>

lemma say_overruns:
  fixes l :: line and env :: kernel_env and str :: "u32 \<Rightarrow> u8 list"
  defines "n \<equiv> length (line_text env str l)"
  assumes "room_ok env K" and "kept env K m s" and "fst l \<in> set kernel_formats"
    and "cstr m (klit env (fst l)) (bytes (fst l))" and "region (klit env (fst l)) (Suc (length (fst l))) \<inter> used env n = {}"
    and "strings_ok (used env n) m str (arg_words env (snd l)) 0 (simple_items (bytes (fst l)))"
    and "1024 \<le> n" and "n < 4294967296"
  shows "say env (fst l) (snd l) s = None"
proof -
  let ?is = "simple_items (bytes (fst l))"
  have f: "format_chars ?is = bytes (fst l)" "\<forall>i\<in>set ?is. wf_item i" using simple_items_chars [OF assms(4)] by simp_all
  have K: "K \<le> n" using assms(2,8) by (simp add: room_ok_def PRINTF_BUF_def)
  have u: "region (kbuf env) K \<subseteq> region (kbuf env) n" by (rule region_mono [OF K])
  then have same: "vmem s x = m x" if "x \<notin> used env n" for x
    using assms(3) that by (auto simp: kept_def used_def)
  have sub: "region (kbuf env) n \<subseteq> used env n" by (simp add: used_def)
  have "cstr (vmem s) (klit env (fst l)) (format_chars ?is)"
    unfolding f(1) by (rule cstr_agree [OF same]) (use assms in simp_all)
  moreover have "region (klit env (fst l)) (Suc (length (format_chars ?is))) \<inter> region (kbuf env) n = {}"
    using assms(6) sub unfolding f(1) by auto
  moreover have "strings_ok (region (kbuf env) n) (vmem s) str (arg_words env (snd l)) 0 ?is"
    by (rule strings_ok_mono [OF assms(7) sub same])
  ultimately show ?thesis
    unfolding say_def using f(2) assms(8,9) by (intro printf_overruns) (simp_all add: n_def line_text_def)
qed

lemma cmain_overruns:
  fixes s :: screen and addr :: u32 and env :: kernel_env and str :: "u32 \<Rightarrow> u8 list"
  defines "m \<equiv> vmem s"
  defines "l \<equiv> (''cmdline = %s\<newline>'', [load32 m (addr + mbi_cmdline)])"
  defines "n \<equiv> length (line_text env str l)"
  assumes "info_ok env K m addr" and "room_ok env K" and "CHECK_FLAG (load32 m (addr + mbi_flags)) 2"
    and "\<forall>l\<in>set (first_lines m addr). fst l \<noteq> ''cmdline = %s\<newline>'' \<longrightarrow> line_ok env K str m l"
    and "cstr m (klit env (fst l)) (bytes (fst l))" and "region (klit env (fst l)) (Suc (length (fst l))) \<inter> used env n = {}"
    and "strings_ok (used env n) m str (arg_words env (snd l)) 0 (simple_items (bytes (fst l)))"
    and "1024 \<le> n" and "n < 4294967296"
  shows "cmain env MULTIBOOT_BOOTLOADER_MAGIC addr mbi s = None"
proof -
  have ok: "line_ok env K str m x" if "x \<in> set (first_lines m addr)" "fst x \<noteq> ''cmdline = %s\<newline>''" for x
    using assms(7) that by blast
  have step: "\<exists>s'. f s0 = Some s' \<and> kept env K m s'"
    if "console_prints env K str m ls f" "\<forall>l\<in>set ls. line_fit env K str m l" "kept env K m s0" for ls f s0
    using that by (auto simp: console.prints_def)
  have p1: "console_prints env K str m [(''addr:0x%x flags = 0x%x\<newline>'', [addr, addr, load32 m (addr + mbi_flags)])]
      (\<lambda>s. say env ''addr:0x%x flags = 0x%x\<newline>'' [addr, addr, field addr mbi_flags s] s)"
    by (rule console.prints_line) (simp add: info_field [OF assms(4)] mbi_flags_def)
  note p2 = prints_say_if [OF assms(4), where str = str]
  have in1: "set (flag_line m addr 0 ''mem_lower = %uKB, mem_upper = %uKB\<newline>'' [mbi_mem_lower, mbi_mem_upper]) \<subseteq> set (first_lines m addr)"
    "set (flag_line m addr 1 ''boot_device = 0x%x\<newline>'' [mbi_boot_device]) \<subseteq> set (first_lines m addr)"
    by (auto simp: first_lines_def)
  have names: "fst x = f" if "x \<in> set (flag_line m addr b f offs)" for x b f offs
    using that by (auto simp: flag_line_def if_flag_def split: if_splits)
  have fit: "line_fit env K str m x" if "x \<in> set (first_lines m addr)" "fst x \<noteq> ''cmdline = %s\<newline>''" for x
    using ok [OF that] assms(5) by (simp add: line_fit_def)
  obtain s1 where s1: "say env ''addr:0x%x flags = 0x%x\<newline>'' [addr, addr, field addr mbi_flags (cls s)] (cls s) = Some s1"
    "kept env K m s1"
    using step [OF p1 _ cls_kept [OF assms(5), of s, folded m_def]] fit [of "(''addr:0x%x flags = 0x%x\<newline>'', [addr, addr, load32 m (addr + mbi_flags)])"]
    by (auto simp: first_lines_def)
  obtain s2 where s2: "say_if env addr 0 ''mem_lower = %uKB, mem_upper = %uKB\<newline>'' [mbi_mem_lower, mbi_mem_upper] s1 = Some s2"
    "kept env K m s2"
    using step [OF p2 _ s1(2), of "[mbi_mem_lower, mbi_mem_upper]" 0 "''mem_lower = %uKB, mem_upper = %uKB\<newline>''"] in1(1) fit names
    by (fastforce simp: mbi_offsets)
  obtain s3 where s3: "say_if env addr 1 ''boot_device = 0x%x\<newline>'' [mbi_boot_device] s2 = Some s3" "kept env K m s3"
    using step [OF p2 _ s2(2), of "[mbi_boot_device]" 1 "''boot_device = 0x%x\<newline>''"] in1(2) fit names
    by (fastforce simp: mbi_offsets)
  have "say env (fst l) (snd l) s3 = None"
    using assms(5,8-12) s3(2) kernel_formats_mem(5) by (intro say_overruns [of env K m]) (simp_all add: l_def n_def)
  then have "say_if env addr 2 ''cmdline = %s\<newline>'' [mbi_cmdline] s3 = None"
    using assms(6) info_field [OF assms(4) s3(2)] by (simp add: say_if_def l_def mbi_flags_def mbi_cmdline_def)
  then show ?thesis by (simp add: cmain_def say_info_def s1(1) s2(1) s3(1) [unfolded One_nat_def])
qed


section \<open>Properties\<close>





end
