(* ===== verification/Vfs.thy ===== *)
theory Vfs
  imports CBase
begin

unbundle bit_operations_syntax

text \<open>
  The virtual file system switch, \<^verbatim>\<open>vfs.c\<close> and \<^verbatim>\<open>vfs.h\<close>: every node carries the operations of its file system, which may be
  missing. An operation receives the address of the node and the state \<open>'s\<close> the file system works on.
\<close>

section \<open>Nodes\<close>

definition V_FILE :: u32 where "V_FILE = 0x01"
definition V_DIRECTORY :: u32 where "V_DIRECTORY = 0x02"
definition V_CHARDEVICE :: u32 where "V_CHARDEVICE = 0x03"
definition V_BLOCKDEVICE :: u32 where "V_BLOCKDEVICE = 0x04"
definition V_PIPE :: u32 where "V_PIPE = 0x05"
definition V_SYMLINK :: u32 where "V_SYMLINK = 0x06"
definition V_MOUNTPOINT :: u32 where "V_MOUNTPOINT = 0x08"

record 's vnode =
  v_name :: "u8 list"
  v_mask :: u32
  v_uid :: u32
  v_gid :: u32
  v_flags :: u32
  v_inode :: u32
  v_length :: u32
  v_impl :: u32
  v_read :: "(u32 \<Rightarrow> u32 \<Rightarrow> u32 \<Rightarrow> u32 \<Rightarrow> 's \<Rightarrow> u32 \<times> 's) option"
  v_write :: "(u32 \<Rightarrow> u32 \<Rightarrow> u32 \<Rightarrow> u32 \<Rightarrow> 's \<Rightarrow> u32 \<times> 's) option"
  v_open :: "(u32 \<Rightarrow> 's \<Rightarrow> 's) option"
  v_close :: "(u32 \<Rightarrow> 's \<Rightarrow> 's) option"
  v_readdir :: "(u32 \<Rightarrow> u32 \<Rightarrow> 's \<Rightarrow> u32 \<times> 's) option"
  v_finddir :: "(u32 \<Rightarrow> u32 \<Rightarrow> 's \<Rightarrow> u32 \<times> 's) option"
  v_ptr :: u32

section \<open>The switch\<close>

definition vread :: "'s vnode \<Rightarrow> u32 \<Rightarrow> u32 \<Rightarrow> u32 \<Rightarrow> u32 \<Rightarrow> 's \<Rightarrow> u32 \<times> 's" where
  "vread n node offset sz buffer s = (case v_read n of Some f \<Rightarrow> f node offset sz buffer s | None \<Rightarrow> (0, s))"

definition vwrite :: "'s vnode \<Rightarrow> u32 \<Rightarrow> u32 \<Rightarrow> u32 \<Rightarrow> u32 \<Rightarrow> 's \<Rightarrow> u32 \<times> 's" where
  "vwrite n node offset sz buffer s = (case v_write n of Some f \<Rightarrow> f node offset sz buffer s | None \<Rightarrow> (0, s))"

definition vopen :: "'s vnode \<Rightarrow> u32 \<Rightarrow> 's \<Rightarrow> 's" where
  "vopen n node s = (case v_open n of Some f \<Rightarrow> f node s | None \<Rightarrow> s)"

definition vclose :: "'s vnode \<Rightarrow> u32 \<Rightarrow> 's \<Rightarrow> 's" where
  "vclose n node s = (case v_close n of Some f \<Rightarrow> f node s | None \<Rightarrow> s)"

text \<open>The type of a node is in the low three bits of its flags.\<close>

definition vreaddir :: "'s vnode \<Rightarrow> u32 \<Rightarrow> u32 \<Rightarrow> 's \<Rightarrow> u32 \<times> 's" where
  "vreaddir n node index s =
     (case v_readdir n of Some f \<Rightarrow> if v_flags n AND 0x7 = V_DIRECTORY then f node index s else (0, s) | None \<Rightarrow> (0, s))"

definition vfinddir :: "'s vnode \<Rightarrow> u32 \<Rightarrow> u32 \<Rightarrow> 's \<Rightarrow> u32 \<times> 's" where
  "vfinddir n node name s =
     (case v_finddir n of Some f \<Rightarrow> if v_flags n AND 0x7 = V_DIRECTORY then f node name s else (0, s) | None \<Rightarrow> (0, s))"

section \<open>Mount points\<close>

text \<open>A mount point is a flag beside the type: it does not change how the switch treats the node.\<close>

lemma mountpoint_type: "(flags OR V_MOUNTPOINT) AND 0x7 = flags AND 0x7"
proof -
  have "V_MOUNTPOINT AND 0x7 = 0" by (simp add: V_MOUNTPOINT_def)
  then show ?thesis by (simp add: bit.conj_disj_distrib2)
qed

lemma mounted_directory:
  "vreaddir (n\<lparr>v_flags := v_flags n OR V_MOUNTPOINT\<rparr>) node index s = vreaddir n node index s"
  "vfinddir (n\<lparr>v_flags := v_flags n OR V_MOUNTPOINT\<rparr>) node name s = vfinddir n node name s"
  by (simp_all add: vreaddir_def vfinddir_def mountpoint_type cong: option.case_cong)

lemma not_directory:
  "v_flags n AND 0x7 \<noteq> V_DIRECTORY \<Longrightarrow> vreaddir n node index s = (0, s) \<and> vfinddir n node name s = (0, s)"
  by (simp add: vreaddir_def vfinddir_def split: option.split)

end
