(* ===== verification/Init.thy ===== *)
theory Init
  imports Stdio Gui
begin

text \<open>
  The start-up tasks of \<^verbatim>\<open>init.c\<close>: the animation of \<open>do_task3\<close>, which draws three boxes on a canvas in every round,
  and the loop at the end of \<open>init\<close>, which turns a wheel of four characters. The boot sequence before that loop
  is the sequence of the components' own set-up routines and is not repeated here.
\<close>

section \<open>The animation\<close>

record anim =
  pos_i :: int
  pos_j :: int
  pos_k :: int
  dir_f1 :: int
  dir_f2 :: int
  dir_f3 :: int

definition anim_start :: anim where
  "anim_start = \<lparr>pos_i = 0, pos_j = 10, pos_k = 0, dir_f1 = 1, dir_f2 = 1, dir_f3 = 1\<rparr>"

definition task3_b :: box where
  "task3_b = \<lparr>dirty = DIRTY, b_width = 100, b_height = 100, b_kx = 130, b_ky = 130, b_color = 0xffff\<rparr>"

definition task3_b1 :: box where
  "task3_b1 = \<lparr>dirty = DIRTY, b_width = 100, b_height = 100, b_kx = 100, b_ky = 100, b_color = 0xff00\<rparr>"

definition task3_b2 :: box where
  "task3_b2 = \<lparr>dirty = DIRTY, b_width = 150, b_height = 150, b_kx = 150, b_ky = 150, b_color = 0x00ff\<rparr>"

text \<open>The positions move, the third box grows with its position, and the directions are set for the next round.\<close>

definition anim_step :: "anim \<times> box \<Rightarrow> anim \<times> box" where
  "anim_step = (\<lambda>(a, b2).
     let i = pos_i a + dir_f1 a; j = pos_j a + dir_f2 a; k = pos_k a + dir_f3 a;
         b2 = b2\<lparr>b_width := b_width b2 + dir_f3 a, b_height := b_height b2 + dir_f3 a\<rparr>;
         f1 = (if i > k then - 1 else if i \<le> k then 1 else dir_f1 a);
         f2 = (if j \<ge> 250 then - 2 else if j < 100 then 2 else dir_f2 a);
         f3 = (if k \<ge> 250 then - 1 else if k < 100 then 1 else dir_f3 a)
     in (\<lparr>pos_i = i, pos_j = j, pos_k = k, dir_f1 = f1, dir_f2 = f2, dir_f3 = f3\<rparr>, b2))"

definition upd_obj :: "u32 \<Rightarrow> (box \<Rightarrow> box) \<Rightarrow> gui \<Rightarrow> gui" where
  "upd_obj a f g = g\<lparr>objs := (objs g)(a := f (objs g a))\<rparr>"

text \<open>
  One round: \<open>b\<close>, \<open>b1\<close>, \<open>b2\<close> are the addresses of the boxes, \<open>fmt\<close> that of the format and \<open>buf\<close> the buffer of
  \<open>vesa_printf\<close>; the byte that is incremented is the attribute of a cell of the text screen.
\<close>

definition task3_round :: "realloc \<Rightarrow> u32 \<Rightarrow> u32 \<Rightarrow> u32 \<Rightarrow> u32 \<Rightarrow> u32 \<Rightarrow> anim \<times> canvas \<times> gui \<Rightarrow> (anim \<times> canvas \<times> gui) option" where
  "task3_round re buf fmt b b1 b2 = (\<lambda>(a, c, g).
     map_option (\<lambda>v.
       let g = upd_mem (\<lambda>m. m(0xb8000 + 160 * 24 + 6 := m (0xb8000 + 160 * 24 + 6) + 1)) (g\<lparr>scr := v\<rparr>);
           g = fold (\<lambda>p. upd_obj p (\<lambda>o'. o'\<lparr>dirty := DIRTY\<rparr>)) [b, b1, b2] g;
           (c, g) = box_draw re b (pos_i a) (pos_i a) (c, g);
           (c, g) = box_draw re b1 (pos_j a) (pos_j a) (c, g);
           (c, g) = box_draw re b2 (pos_k a) (pos_k a) (c, g);
           (c, g) = canvas_update (c, g);
           (a, o2) = anim_step (a, objs g b2)
       in (a, c, upd_obj b2 (\<lambda>_. o2) g))
     (vesa_printf buf 0 40 fmt (\<lambda>_. load32 (vm (scr g)) 0xff0000) (scr g)))"

section \<open>The first two tasks\<close>

text \<open>
  One round of each: the first stores its counter, which it never changes, for the second to print;
  both increment an attribute byte of the text screen.
\<close>

definition bump :: "u32 \<Rightarrow> vesa \<Rightarrow> vesa" where
  "bump a v = v\<lparr>vm := (vm v)(a := vm v a + 1)\<rparr>"

definition task1_round :: "u32 \<Rightarrow> u32 \<Rightarrow> u32 \<Rightarrow> vesa \<Rightarrow> vesa option" where
  "task1_round buf fmt i v =
     (let v = v\<lparr>vm := store32 (vm v) 0xff0000 i\<rparr>
      in map_option (bump (0xb8000 + 160 * 24 + 4)) (vesa_printf buf 0 0 fmt (\<lambda>_. i) v))"

definition task2_round :: "u32 \<Rightarrow> u32 \<Rightarrow> vesa \<Rightarrow> vesa option" where
  "task2_round buf fmt v =
     map_option (bump (0xb8000 + 160 * 24 + 6)) (vesa_printf buf 0 20 fmt (\<lambda>_. load32 (vm v) 0xff0000) v)"

section \<open>The wheel\<close>

text \<open>The loop compares the index with the size after the access: \<open>beyond\<close> is the byte after the array.\<close>

definition wheel :: "u8 list" where
  "wheel = [92, 124, 47, 45]"

definition wheel_at :: "u8 \<Rightarrow> nat \<Rightarrow> u8" where
  "wheel_at beyond i = (if i < length wheel then wheel ! i else beyond)"

definition wheel_round :: "u8 \<Rightarrow> nat \<times> vesa \<Rightarrow> nat \<times> vesa" where
  "wheel_round beyond = (\<lambda>(i, v).
     let c = wheel_at beyond i;
         v = v\<lparr>vm := (vm v)(0xb8000 + 160 * 24 := c)\<rparr>;
         v = vesa_draw_char 0 460 (scast c) v
     in (if i = length wheel then 0 else Suc i, v))"

section \<open>Invariants\<close>

definition anim_inv :: "anim \<times> box \<Rightarrow> bool" where
  "anim_inv = (\<lambda>(a, b2).
     (pos_i a = pos_k a \<and> dir_f1 a = 1 \<or> pos_i a = pos_k a + 2 \<and> dir_f1 a = - 1) \<and>
     (dir_f2 a = 1 \<and> pos_j a = 10 \<or> dir_f2 a = 2 \<and> 10 \<le> pos_j a \<and> pos_j a < 250 \<or>
       dir_f2 a = - 2 \<and> 100 \<le> pos_j a \<and> pos_j a \<le> 251) \<and>
     (dir_f3 a = 1 \<and> 0 \<le> pos_k a \<and> pos_k a < 250 \<or> dir_f3 a = - 1 \<and> 100 \<le> pos_k a \<and> pos_k a \<le> 250) \<and>
     b_width b2 = 150 + pos_k a \<and> b_height b2 = 150 + pos_k a)"

lemma anim_inv_step: "anim_inv s \<Longrightarrow> anim_inv (anim_step s)"
  by (cases s) (auto simp: anim_inv_def anim_step_def Let_def)

interpretation animation: kept_by_steps "\<lambda>s t. t = anim_step s" anim_inv
  by unfold_locales (simp add: anim_inv_step)

lemma anim_inv_iter: "anim_inv ((anim_step ^^ n) (anim_start, task3_b2))"
  by (rule animation.rounds) (simp_all add: anim_inv_def anim_start_def task3_b2_def)

lemma wheel_index: "fst ((wheel_round beyond ^^ n) (0, v)) = n mod 5"
proof (induction n)
  case (Suc n)
  then show ?case by (simp add: wheel_round_def wheel_def split_beta Let_def mod_Suc)
qed simp

section \<open>Properties\<close>

text \<open>
  The animation stays in bounds for ever: after any number of rounds the three positions are between 0 and
  252, the first box is at the third one's position or two to the right, and the third box is a square whose side is
  its position plus 150.
\<close>

theorem animation_bounded:
  "case (anim_step ^^ n) (anim_start, task3_b2) of (a, b2) \<Rightarrow>
     0 \<le> pos_i a \<and> pos_i a \<le> 252 \<and> 10 \<le> pos_j a \<and> pos_j a \<le> 251 \<and> 0 \<le> pos_k a \<and> pos_k a \<le> 250 \<and>
     (pos_i a = pos_k a \<or> pos_i a = pos_k a + 2) \<and>
     b_width b2 = 150 + pos_k a \<and> b_height b2 = 150 + pos_k a"
  using anim_inv_iter [of n] by (auto simp: anim_inv_def split: prod.splits)

text \<open>
  The wheel shows its four characters in turn and, once in five rounds, the byte behind the array.
\<close>

theorem wheel_beyond:
  "wheel_at beyond (fst ((wheel_round beyond ^^ n) (0, v))) = (if n mod 5 < 4 then wheel ! (n mod 5) else beyond)"
  by (simp add: wheel_index wheel_at_def wheel_def)

end
