(* ===== verification/TimeOrder.thy ===== *)
theory TimeOrder
  imports CTime "HOL-Library.Product_Lexorder"
begin

text \<open>
  Broken-down times in chronological order: the year, the day of the year and the time of the day decide, and the fields
  they determine come last. \<open>gmtime\<close> is strictly increasing in this order.
\<close>

section \<open>The order\<close>

definition tm_key :: "'a tm_scheme \<Rightarrow> int \<times> int \<times> int \<times> int \<times> int \<times> int \<times> int \<times> int \<times> int \<times> 'a" where
  "tm_key t = (tm_year t, tm_yday t, tm_hour t, tm_min t, tm_sec t, tm_mon t, tm_mday t, tm_wday t, tm_isdst t, tm.more t)"

lemma tm_key_eq_iff [simp]: "tm_key t = tm_key u \<longleftrightarrow> t = u"
  by (auto simp: tm_key_def)

instantiation tm_ext :: (linorder) linorder
begin

definition less_eq_tm_ext :: "'a tm_scheme \<Rightarrow> 'a tm_scheme \<Rightarrow> bool" where
  "t \<le> u \<longleftrightarrow> tm_key t \<le> tm_key u"

definition less_tm_ext :: "'a tm_scheme \<Rightarrow> 'a tm_scheme \<Rightarrow> bool" where
  "t < u \<longleftrightarrow> tm_key t < tm_key u"

instance
  by intro_classes (auto simp: less_eq_tm_ext_def less_tm_ext_def less_le_not_le dest: antisym)

end

lemma days_before_mono: "y \<le> y' \<Longrightarrow> 0 \<le> y \<Longrightarrow> days_before y \<le> days_before y'"
proof (induction y' rule: int_ge_induct)
  case (step z)
  then show ?case using days_before_Suc [of z] YEARSIZE_pos [of z] by simp
qed simp

lemma tm_less_intro:
  assumes "(tm_year t, tm_yday t, tm_hour t, tm_min t, tm_sec t) < (tm_year u, tm_yday u, tm_hour u, tm_min u, tm_sec u)"
  shows "t < u"
  using assms by (auto simp: less_tm_ext_def tm_key_def)

text \<open>The order of the five leading fields is the order of the seconds they denote.\<close>

lemma seconds_less:
  fixes d d' h h' m m' s s' :: int
  assumes "86400 * d + 3600 * h + 60 * m + s < 86400 * d' + 3600 * h' + 60 * m' + s'"
    and "0 \<le> h" "h < 24" "0 \<le> m" "m < 60" "0 \<le> s" "s < 60" "0 \<le> h'" "h' < 24" "0 \<le> m'" "m' < 60" "0 \<le> s'" "s' < 60"
  shows "(d, h, m, s) < (d', h', m', s')"
proof -
  have b: "0 \<le> 3600 * h + 60 * m + s" "3600 * h + 60 * m + s < 86400"
    "0 \<le> 3600 * h' + 60 * m' + s'" "3600 * h' + 60 * m' + s' < 86400" using assms by linarith+
  then have "d \<le> d'" using assms(1) by linarith
  moreover have "h < h' \<or> h = h' \<and> (m < m' \<or> m = m' \<and> s < s')" if "d = d'"
  proof -
    have lt: "3600 * h + 60 * m + s < 3600 * h' + 60 * m' + s'" using assms(1) that by linarith
    then have "h \<le> h'" using assms by linarith
    moreover have "m \<le> m'" if "h = h'" using assms lt that by linarith
    ultimately show ?thesis using lt by linarith
  qed
  ultimately show ?thesis by auto
qed

lemma gmtime_less:
  assumes "w < w'" and t: "gmtime w = Some t" and t': "gmtime w' = Some t'"
  shows "t < t'"
proof -
  have ok: "tm_ok t" "70 \<le> tm_year t" "uint w = 86400 * (days_before (tm_year t + 1900) + tm_yday t) + 3600 * tm_hour t +
      60 * tm_min t + tm_sec t"
    using gmtime_ok [of w] t by (auto simp: SECS_DAY_def)
  have ok': "tm_ok t'" "70 \<le> tm_year t'" "uint w' = 86400 * (days_before (tm_year t' + 1900) + tm_yday t') + 3600 * tm_hour t' +
      60 * tm_min t' + tm_sec t'"
    using gmtime_ok [of w'] t' by (auto simp: SECS_DAY_def)
  have "uint w < uint w'" using assms(1) by (simp add: word_less_def)
  then have lt: "(days_before (tm_year t + 1900) + tm_yday t, tm_hour t, tm_min t, tm_sec t) <
      (days_before (tm_year t' + 1900) + tm_yday t', tm_hour t', tm_min t', tm_sec t')"
    using ok ok' by (intro seconds_less) (simp_all add: tm_ok_def)
  have le: "days_before (tm_year t + 1900) + tm_yday t \<le> days_before (tm_year t' + 1900) + tm_yday t'"
    using lt by auto
  have y: "tm_year t \<le> tm_year t'"
  proof (rule ccontr)
    assume "\<not> tm_year t \<le> tm_year t'"
    then have "days_before (tm_year t' + 1900 + 1) \<le> days_before (tm_year t + 1900)"
      using ok'(2) by (intro days_before_mono) linarith+
    then show False
      using le days_before_Suc [of "tm_year t' + 1900"] ok(1) ok'(1,2) by (simp add: tm_ok_def)
  qed
  show ?thesis
  proof (cases "tm_year t = tm_year t'")
    case True
    then show ?thesis using lt by (intro tm_less_intro) auto
  next
    case False
    then show ?thesis using y by (intro tm_less_intro) auto
  qed
qed

section \<open>Properties\<close>

text \<open>
  \<open>gmtime\<close> and \<open>localtime\<close> without an offset keep the order of time: of two times the later one has the later
  fields, so no two times have the same fields.
\<close>

theorem gmtime_increasing:
  "\<exists>t t'. gmtime w = Some t \<and> gmtime w' = Some t' \<and> (t < t' \<longleftrightarrow> w < w') \<and> (t = t' \<longleftrightarrow> w = w')"
proof -
  obtain t t' where t: "gmtime w = Some t" "gmtime w' = Some t'" using gmtime_ok by meson
  have "t < t' \<longleftrightarrow> w < w'" "t = t' \<longleftrightarrow> w = w'"
    using gmtime_less [of w w'] gmtime_less [of w' w] t by (cases w w' rule: linorder_cases; force)+
  with t show ?thesis by blast
qed

end
