(* ===== verification/Strtod.thy ===== *)
theory Strtod
  imports Stdlib Complex_Main
begin

text \<open>
  The floating-point readers \<open>strtod\<close> and \<open>atof\<close> of \<^verbatim>\<open>lib/stdlib.c\<close>. The operations of the type
  \<^verbatim>\<open>double\<close> are a parameter, so that the routine is described for every arithmetic; over a field, where no
  operation rounds, it computes the decimal number its text denotes.
\<close>

section \<open>The code\<close>

text \<open>The operations on \<^verbatim>\<open>double\<close> that are used; \<open>f_int\<close> converts an integer and gives the constants.\<close>

record 'f floats =
  f_int :: "int \<Rightarrow> 'f"
  f_add :: "'f \<Rightarrow> 'f \<Rightarrow> 'f"
  f_mul :: "'f \<Rightarrow> 'f \<Rightarrow> 'f"
  f_div :: "'f \<Rightarrow> 'f \<Rightarrow> 'f"
  f_neg :: "'f \<Rightarrow> 'f"
  f_same :: "'f \<Rightarrow> 'f \<Rightarrow> bool"
  HUGE_VAL :: 'f

definition DBL_MIN_EXP :: int where "DBL_MIN_EXP = - 1021"
definition DBL_MAX_EXP :: int where "DBL_MAX_EXP = 1024"

text \<open>\<^verbatim>\<open>while (isspace(*p)) p++;\<close>\<close>

partial_function (option) strtod_space :: "mem \<Rightarrow> u32 \<Rightarrow> u32 option" where
  "strtod_space m p = (if isspace (int_of_char (m p)) \<noteq> 0 then strtod_space m (p + 1) else Some p)"

text \<open>An optional sign: whether it is a minus sign, and the position after it.\<close>

definition opt_sign :: "mem \<Rightarrow> u32 \<Rightarrow> bool \<times> u32" where
  "opt_sign m p = (if m p = 45 then (True, p + 1) else if m p = 43 then (False, p + 1) else (False, p))"

text \<open>A string of digits, with the count \<open>k\<close> of the digits.\<close>

partial_function (option) real_digits ::
  "'f floats \<Rightarrow> mem \<Rightarrow> u32 \<Rightarrow> 'f \<Rightarrow> u32 \<Rightarrow> (u32 \<times> 'f \<times> u32) option" where
  "real_digits fl m p number k =
     (if isdigit (int_of_char (m p)) \<noteq> 0
      then real_digits fl m (p + 1)
        (f_add fl (f_mul fl number (f_int fl 10)) (f_int fl (int_of_char (m p) - 48))) (k + 1)
      else Some (p, number, k))"

partial_function (option) exp_digits :: "mem \<Rightarrow> u32 \<Rightarrow> u32 \<Rightarrow> (u32 \<times> u32) option" where
  "exp_digits m p n =
     (if isdigit (int_of_char (m p)) \<noteq> 0 then exp_digits m (p + 1) (n * 10 + (scast (m p) - 48))
      else Some (p, n))"

text \<open>The exponent string, if there is one.\<close>

definition opt_exponent :: "mem \<Rightarrow> u32 \<Rightarrow> u32 \<Rightarrow> (u32 \<times> u32) option" where
  "opt_exponent m p exponent =
     (if m p = 101 \<or> m p = 69
      then case opt_sign m (p + 1) of (negative, p) \<Rightarrow>
        map_option (\<lambda>(p, n). (p, if negative then exponent - n else exponent + n)) (exp_digits m p 0)
      else Some (p, exponent))"

text \<open>The loop that scales the result by a power of ten.\<close>

function scale_loop :: "'f floats \<Rightarrow> bool \<Rightarrow> nat \<Rightarrow> 'f \<Rightarrow> 'f \<Rightarrow> 'f" where
  "scale_loop fl down n p10 number =
     (if n \<noteq> 0
      then scale_loop fl down (n div 2) (f_mul fl p10 p10)
        (if odd n then if down then f_div fl number p10 else f_mul fl number p10 else number)
      else number)"
  by pat_completeness auto
termination
  by (relation "measure (\<lambda>(fl, down, n, p10, number). n)") auto

declare scale_loop.simps [simp del]

text \<open>
  The result, whether \<^verbatim>\<open>errno\<close> was set to \<^verbatim>\<open>ERANGE\<close>, and the memory, where the end position is stored unless
  \<open>endptr\<close> is null.
\<close>

definition strtod :: "'f floats \<Rightarrow> u32 \<Rightarrow> u32 \<Rightarrow> mem \<Rightarrow> ('f \<times> bool \<times> mem) option" where
  "strtod fl str endptr m = do {
     p \<leftarrow> strtod_space m str;
     let (negative, p) = opt_sign m p;
     (p, number, num_digits) \<leftarrow> real_digits fl m p (f_int fl 0) 0;
     (p, number, num_decimals) \<leftarrow>
       (if m p = 46 then real_digits fl m (p + 1) number 0 else Some (p, number, 0));
     if num_digits + num_decimals = 0 then Some (f_int fl 0, True, m)
     else do {
       let number = (if negative then f_neg fl number else number);
       (p, exponent) \<leftarrow> opt_exponent m p (0 - num_decimals);
       if sint exponent < DBL_MIN_EXP \<or> sint exponent > DBL_MAX_EXP then Some (HUGE_VAL fl, True, m)
       else do {
         let number = scale_loop fl (sint exponent < 0) (nat \<bar>sint exponent\<bar>) (f_int fl 10) number;
         Some (number, f_same fl number (HUGE_VAL fl), if endptr \<noteq> 0 then store32 m endptr p else m)
       }
     }
   }"

definition atof :: "'f floats \<Rightarrow> u32 \<Rightarrow> mem \<Rightarrow> ('f \<times> bool \<times> mem) option" where
  "atof fl str m = strtod fl str 0 m"

section \<open>Decimal numbers\<close>

text \<open>
  The text of a decimal number: white space, a sign, the digits before and after a point, and an exponent
  with its marker, sign and digits.
\<close>

record decimal =
  dc_space :: "u8 list"
  dc_sign :: "u8 list"
  dc_whole :: "u8 list"
  dc_point :: "u8 list option"
  dc_exp :: "(u8 \<times> u8 list \<times> u8 list) option"

definition is_sign :: "u8 list \<Rightarrow> bool" where
  "is_sign sg \<longleftrightarrow> sg \<in> {[], [43], [45]}"

definition dc_decimals :: "decimal \<Rightarrow> u8 list" where
  "dc_decimals d = (case dc_point d of None \<Rightarrow> [] | Some ds \<Rightarrow> ds)"

definition dc_digits :: "decimal \<Rightarrow> u8 list" where
  "dc_digits d = dc_whole d @ dc_decimals d"

definition point_text :: "u8 list option \<Rightarrow> u8 list" where
  "point_text f = (case f of None \<Rightarrow> [] | Some ds \<Rightarrow> 46 # ds)"

definition exp_text :: "(u8 \<times> u8 list \<times> u8 list) option \<Rightarrow> u8 list" where
  "exp_text e = (case e of None \<Rightarrow> [] | Some (c, sg, ds) \<Rightarrow> c # sg @ ds)"

definition exp_value :: "(u8 \<times> u8 list \<times> u8 list) option \<Rightarrow> int" where
  "exp_value e = (case e of None \<Rightarrow> 0
     | Some (c, sg, ds) \<Rightarrow> if sg = [45] then - int (text_val 10 ds) else int (text_val 10 ds))"

definition dc_text :: "decimal \<Rightarrow> u8 list" where
  "dc_text d = dc_space d @ dc_sign d @ dc_whole d @ point_text (dc_point d) @ exp_text (dc_exp d)"

definition dc_exponent :: "decimal \<Rightarrow> int" where
  "dc_exponent d = exp_value (dc_exp d) - int (length (dc_decimals d))"

definition dc_value :: "decimal \<Rightarrow> 'a::field" where
  "dc_value d = (if dc_sign d = [45] then - 1 else 1) * of_nat (text_val 10 (dc_digits d)) * 10 powi dc_exponent d"

definition exp_ok :: "(u8 \<times> u8 list \<times> u8 list) option \<Rightarrow> bool" where
  "exp_ok e \<longleftrightarrow> (case e of None \<Rightarrow> True
     | Some (c, sg, ds) \<Rightarrow> (c = 101 \<or> c = 69) \<and> is_sign sg \<and> digits ds \<and> ds \<noteq> [] \<and> text_val 10 ds < 2 ^ 30)"

definition decimal_ok :: "decimal \<Rightarrow> bool" where
  "decimal_ok d \<longleftrightarrow> (\<forall>c\<in>set (dc_space d). isspace (int_of_char c) \<noteq> 0) \<and> is_sign (dc_sign d) \<and>
     digits (dc_digits d) \<and> dc_digits d \<noteq> [] \<and> length (dc_digits d) < 2 ^ 30 \<and> exp_ok (dc_exp d)"

text \<open>What follows the number in the string does not continue it.\<close>

definition dc_ends :: "decimal \<Rightarrow> u8 list \<Rightarrow> bool" where
  "dc_ends d rest \<longleftrightarrow> rest = [] \<or>
     isdigit (int_of_char (hd rest)) = 0 \<and>
     (dc_exp d = None \<longrightarrow> hd rest \<noteq> 101 \<and> hd rest \<noteq> 69 \<and> (dc_point d = None \<longrightarrow> hd rest \<noteq> 46))"

text \<open>Arithmetic without rounding; \<open>h\<close> stands for \<^verbatim>\<open>HUGE_VAL\<close>.\<close>

definition exact :: "'a \<Rightarrow> 'a::field floats" where
  "exact h = \<lparr>f_int = of_int, f_add = (+), f_mul = (*), f_div = (/), f_neg = uminus, f_same = (=), HUGE_VAL = h\<rparr>"

lemma exact_simps [simp]:
  "f_int (exact h) = of_int" "f_add (exact h) = (+)" "f_mul (exact h) = (*)" "f_div (exact h) = (/)"
  "f_neg (exact h) = uminus" "f_same (exact h) = (=)" "HUGE_VAL (exact h) = h"
  by (simp_all add: exact_def)


section \<open>Reading its parts\<close>

lemma cstr_rest: "cstr m p (xs @ ys) \<Longrightarrow> cstr m (p + of_nat (length xs)) ys"
  using cstr_drop [of m p "xs @ ys" "length xs"] by simp

lemma first_byte: "cstr m p xs \<Longrightarrow> xs = [] \<or> P (hd xs) \<Longrightarrow> P 0 \<Longrightarrow> P (m p)"
  by (cases xs) auto

lemma isdigit_0 [simp]: "isdigit 0 = 0"
  by (simp add: isdigit_def)

lemma strtod_space_at:
  assumes "\<forall>c\<in>set sp. isspace (int_of_char c) \<noteq> 0" and "cstr m p (sp @ xs)"
    and "xs = [] \<or> isspace (int_of_char (hd xs)) = 0"
  shows "strtod_space m p = Some (p + of_nat (length sp))"
  using assms
proof (induction sp arbitrary: p)
  case Nil
  then have "isspace (int_of_char (m p)) = 0"
    using first_byte [of m p xs "\<lambda>c. isspace (int_of_char c) = 0"] by (simp add: isspace_def)
  then show ?case by (simp add: strtod_space.simps [of m p])
next
  case (Cons c sp)
  then have "strtod_space m p = strtod_space m (p + 1)" by (simp add: strtod_space.simps [of m p])
  with Cons show ?case by (simp add: add.assoc)
qed

lemma opt_sign_at:
  assumes "is_sign sg" and "cstr m p (sg @ xs)" and "xs = [] \<or> hd xs \<noteq> 43 \<and> hd xs \<noteq> 45"
  shows "opt_sign m p = (sg = [45], p + of_nat (length sg))"
proof (cases "sg = []")
  case True
  with assms have "m p \<noteq> 43 \<and> m p \<noteq> 45"
    using first_byte [of m p xs "\<lambda>c. c \<noteq> 43 \<and> c \<noteq> 45"] by simp
  with True show ?thesis by (simp add: opt_sign_def)
next
  case False
  with assms show ?thesis by (auto simp: is_sign_def opt_sign_def)
qed

lemma digit_number:
  assumes "48 \<le> unat c" and "unat c \<le> 57"
  shows "isdigit (int_of_char c) \<noteq> 0" and "int_of_char c - 48 = int (byte_digit c)"
  using assms isdigit_byte [of c] int_of_char_ascii [of c] by (simp_all add: byte_digit_def)

lemma real_digits_at:
  fixes h :: "'a::field"
  assumes "digits ds" and "cstr m p (ds @ xs)" and "xs = [] \<or> isdigit (int_of_char (hd xs)) = 0"
  shows "real_digits (exact h) m p (of_nat r) (of_nat k) =
    Some (p + of_nat (length ds), of_nat (foldl (\<lambda>v c. v * 10 + byte_digit c) r ds), of_nat (k + length ds))"
  using assms
proof (induction ds arbitrary: p r k)
  case Nil
  then show ?case
    using first_byte [of m p xs "\<lambda>c. isdigit (int_of_char c) = 0"]
    by (simp add: real_digits.simps [of _ m p])
next
  case (Cons c ds)
  have c: "m p = c" "isdigit (int_of_char c) \<noteq> 0" "int_of_char c - 48 = int (byte_digit c)"
    using Cons.prems(1,2) digit_number [of c] by simp_all
  have "real_digits (exact h) m p (of_nat r) (of_nat k) =
      real_digits (exact h) m (p + 1) (of_nat (r * 10 + byte_digit c)) (of_nat (Suc k))"
    by (simp add: real_digits.simps [of _ m p] c add.commute)
  also have "\<dots> = Some (p + 1 + of_nat (length ds),
      of_nat (foldl (\<lambda>v c. v * 10 + byte_digit c) (r * 10 + byte_digit c) ds), of_nat (Suc k + length ds))"
    by (rule Cons.IH) (use Cons.prems in auto)
  finally show ?case by (simp add: add.assoc)
qed

lemma exp_digits_at:
  assumes "digits ds" and "cstr m p (ds @ xs)" and "xs = [] \<or> isdigit (int_of_char (hd xs)) = 0"
  shows "exp_digits m p (of_nat r) =
    Some (p + of_nat (length ds), of_nat (foldl (\<lambda>v c. v * 10 + byte_digit c) r ds))"
  using assms
proof (induction ds arbitrary: p r)
  case Nil
  then show ?case
    using first_byte [of m p xs "\<lambda>c. isdigit (int_of_char c) = 0"] by (simp add: exp_digits.simps [of m p])
next
  case (Cons c ds)
  have c: "m p = c" "isdigit (int_of_char c) \<noteq> 0" "(scast c :: u32) - 48 = of_nat (byte_digit c)"
    using Cons.prems(1,2) digit_number [of c] digit_value [of c] by simp_all
  have "exp_digits m p (of_nat r) = exp_digits m (p + 1) (of_nat (r * 10 + byte_digit c))"
    by (simp add: exp_digits.simps [of m p] c)
  also have "\<dots> = Some (p + 1 + of_nat (length ds),
      of_nat (foldl (\<lambda>v c. v * 10 + byte_digit c) (r * 10 + byte_digit c) ds))"
    by (rule Cons.IH) (use Cons.prems in auto)
  finally show ?case by (simp add: add.assoc)
qed

lemma digits_not_sign: "digits ds \<Longrightarrow> ds \<noteq> [] \<Longrightarrow> hd ds \<noteq> 43 \<and> hd ds \<noteq> 45 \<and> isspace (int_of_char (hd ds)) = 0"
proof -
  assume "digits ds" and "ds \<noteq> []"
  then have d: "48 \<le> unat (hd ds)" "unat (hd ds) \<le> 57" by (cases ds; simp)+
  then have "int_of_char (hd ds) = int (unat (hd ds))" using int_of_char_ascii [of "hd ds"] by simp
  with d show "hd ds \<noteq> 43 \<and> hd ds \<noteq> 45 \<and> isspace (int_of_char (hd ds)) = 0"
    by (auto simp: isspace_def simp del: of_nat_unat int_nat_eq)
qed

lemma opt_exponent_at:
  assumes "exp_ok e" and "cstr m p (exp_text e @ rest)"
    and "rest = [] \<or> isdigit (int_of_char (hd rest)) = 0"
    and "e = None \<Longrightarrow> rest = [] \<or> hd rest \<noteq> 101 \<and> hd rest \<noteq> 69"
  shows "opt_exponent m p x = Some (p + of_nat (length (exp_text e)), x + of_int (exp_value e))"
proof (cases e)
  case None
  with assms(2,4) have "m p \<noteq> 101 \<and> m p \<noteq> 69"
    using first_byte [of m p rest "\<lambda>c. c \<noteq> 101 \<and> c \<noteq> 69"] by (simp add: exp_text_def)
  with None show ?thesis by (simp add: opt_exponent_def exp_text_def exp_value_def)
next
  case (Some q)
  obtain c sg ds where q: "e = Some (c, sg, ds)" using Some by (cases q) simp
  have ok: "c = 101 \<or> c = 69" "is_sign sg" "digits ds" "ds \<noteq> []" and t: "m p = c" "cstr m (p + 1) (sg @ ds @ rest)"
    using assms(1,2) by (simp_all add: q exp_ok_def exp_text_def)
  have "opt_sign m (p + 1) = (sg = [45], p + 1 + of_nat (length sg))"
    using opt_sign_at [OF ok(2) t(2)] digits_not_sign [OF ok(3,4)] ok(4) by simp
  moreover have "exp_digits m (p + 1 + of_nat (length sg)) (of_nat 0) =
      Some (p + 1 + of_nat (length sg) + of_nat (length ds), of_nat (text_val 10 ds))"
    unfolding text_val_def by (rule exp_digits_at [OF ok(3) cstr_rest [OF t(2)] assms(3)])
  ultimately show ?thesis
    using ok(1) t(1) by (simp add: opt_exponent_def q exp_text_def exp_value_def add.assoc)
qed

lemma scale_loop_power:
  fixes h :: "'a::field"
  shows "scale_loop (exact h) down n p10 number = (if down then number / p10 ^ n else number * p10 ^ n)"
proof (induction "exact h" down n p10 number rule: scale_loop.induct)
  case (1 down n p10 number)
  have p: "p10 ^ n = (if odd n then p10 else 1) * (p10 * p10) ^ (n div 2)"
    by (cases "even n") (auto elim!: evenE oddE simp: power_mult power2_eq_square)
  show ?case
  proof (cases "n = 0")
    case False
    then show ?thesis unfolding scale_loop.simps [of _ down n] using 1 by (simp add: p)
  qed (simp add: scale_loop.simps)
qed


lemma scale_loop_ten:
  fixes h :: "'a::field"
  shows "scale_loop (exact h) (x < 0) (nat \<bar>x\<bar>) 10 number = number * 10 powi x"
proof (cases "x < 0")
  case True
  then show ?thesis by (simp only: scale_loop_power power_int_def divide_inverse power_inverse) simp
qed (simp add: scale_loop_power power_int_def)

section \<open>The number a text denotes\<close>

text \<open>What follows each part of the text does not continue the part.\<close>

lemma dc_boundaries:
  assumes ok: "decimal_ok d" and ends: "dc_ends d rest"
  defines "t3 \<equiv> exp_text (dc_exp d) @ rest"
  defines "t2 \<equiv> point_text (dc_point d) @ t3"
  defines "t1 \<equiv> dc_whole d @ t2"
  shows "dc_sign d @ t1 = [] \<or> isspace (int_of_char (hd (dc_sign d @ t1))) = 0"
    and "t1 = [] \<or> hd t1 \<noteq> 43 \<and> hd t1 \<noteq> 45"
    and "t2 = [] \<or> isdigit (int_of_char (hd t2)) = 0"
    and "t3 = [] \<or> isdigit (int_of_char (hd t3)) = 0"
    and "dc_point d = None \<Longrightarrow> t3 = [] \<or> hd t3 \<noteq> 46"
proof -
  have wf: "is_sign (dc_sign d)" "digits (dc_whole d)" "dc_digits d \<noteq> []" "exp_ok (dc_exp d)"
    using ok by (auto simp: decimal_ok_def dc_digits_def digits_def)
  have cases: "dc_exp d = None \<and> t3 = rest \<or> dc_exp d \<noteq> None \<and> (hd t3 = 101 \<or> hd t3 = 69)"
    using wf(4) by (cases "dc_exp d") (auto simp: t3_def exp_text_def exp_ok_def)
  have letters: "isdigit (int_of_char 101) = 0" "isdigit (int_of_char 69) = 0" "isdigit (int_of_char 46) = 0"
    by (simp_all add: isdigit_def int_of_char_def)
  show n3: "t3 = [] \<or> isdigit (int_of_char (hd t3)) = 0"
    and "dc_point d = None \<Longrightarrow> t3 = [] \<or> hd t3 \<noteq> 46"
    using cases ends letters unfolding dc_ends_def by force+
  show "t2 = [] \<or> isdigit (int_of_char (hd t2)) = 0"
    using n3 letters by (cases "dc_point d") (auto simp: t2_def point_text_def)
  have n1: "t1 = [] \<or> hd t1 \<noteq> 43 \<and> hd t1 \<noteq> 45 \<and> isspace (int_of_char (hd t1)) = 0"
  proof (cases "dc_whole d = []")
    case True
    then have "dc_point d \<noteq> None" using wf(3) by (cases "dc_point d") (auto simp: dc_digits_def dc_decimals_def)
    with True show ?thesis by (auto simp: t1_def t2_def point_text_def isspace_def int_of_char_def)
  next
    case False
    with digits_not_sign [OF wf(2)] show ?thesis by (simp add: t1_def)
  qed
  then show "t1 = [] \<or> hd t1 \<noteq> 43 \<and> hd t1 \<noteq> 45" by auto
  show "dc_sign d @ t1 = [] \<or> isspace (int_of_char (hd (dc_sign d @ t1))) = 0"
    using n1 wf(1) by (auto simp: is_sign_def isspace_def int_of_char_def)
qed

text \<open>The digits after the point, if there is one.\<close>

lemma decimals_at:
  fixes h :: "'a::field"
  assumes "cstr m p (point_text f @ xs)" and "xs = [] \<or> isdigit (int_of_char (hd xs)) = 0"
    and "f = None \<Longrightarrow> xs = [] \<or> hd xs \<noteq> 46" and fd: "fd = (case f of None \<Rightarrow> [] | Some ds \<Rightarrow> ds)" and "digits fd"
  shows "(if m p = 46 then real_digits (exact h) m (p + 1) (of_nat (text_val 10 w)) 0
      else Some (p, of_nat (text_val 10 w), 0)) =
    Some (p + of_nat (length (point_text f)), of_nat (text_val 10 (w @ fd)), of_nat (length fd))"
proof (cases f)
  case None
  then have "m p \<noteq> 46" using first_byte [of m p xs "\<lambda>c. c \<noteq> 46"] assms(1,3) by (simp add: point_text_def)
  with None show ?thesis by (simp add: point_text_def fd)
next
  case (Some ds)
  then have f: "f = Some fd" and at: "m p = 46" "cstr m (p + 1) (fd @ xs)"
    using assms(1) by (simp_all add: fd point_text_def)
  show ?thesis
    using real_digits_at [OF assms(5) at(2) assms(2), of h "text_val 10 w" 0] at(1)
    by (simp add: f point_text_def text_val_def add.assoc)
qed

text \<open>The exponent is small enough for the 32-bit arithmetic.\<close>

lemma exponent_word:
  assumes "decimal_ok d"
  shows "sint (0 - of_nat (length (dc_decimals d)) + of_int (exp_value (dc_exp d)) :: u32) = dc_exponent d"
proof -
  have "\<bar>exp_value (dc_exp d)\<bar> < 2 ^ 30" and "length (dc_decimals d) < 2 ^ 30"
    using assms by (auto simp: decimal_ok_def dc_digits_def exp_value_def exp_ok_def split: option.splits)
  then have "sint (of_int (dc_exponent d) :: u32) = dc_exponent d"
    by (intro sint_of_int_small) (simp_all add: dc_exponent_def)
  then show ?thesis by (simp add: dc_exponent_def)
qed

text \<open>
  Property C23. Over an arithmetic without rounding, \<open>strtod\<close> returns for every text of a decimal number, with
  white space, sign, decimals and exponent, whatever follows it in the string: the result is the number the text
  denotes and the end position is the first character after it. When the exponent, less the number of
  decimals, lies outside \<open>DBL_MIN_EXP\<close> and \<open>DBL_MAX_EXP\<close>, the result is \<^verbatim>\<open>HUGE_VAL\<close>, for tiny numbers too,
  with a range error and no end position.
\<close>

theorem strtod_exact:
  fixes h :: "'a::field"
  assumes ok: "decimal_ok d" and str: "cstr m s (dc_text d @ rest)" and ends: "dc_ends d rest"
  shows "strtod (exact h) s endptr m = Some
    (if dc_exponent d < DBL_MIN_EXP \<or> dc_exponent d > DBL_MAX_EXP then (h, True, m)
     else (dc_value d, dc_value d = h,
       if endptr \<noteq> 0 then store32 m endptr (s + of_nat (length (dc_text d))) else m))"
proof -
  define sp sg w f e fd where parts: "sp = dc_space d" "sg = dc_sign d" "w = dc_whole d" "f = dc_point d"
    "e = dc_exp d" "fd = dc_decimals d"
  note b = dc_boundaries [OF ok ends, folded parts]
  have wf: "\<forall>c\<in>set sp. isspace (int_of_char c) \<noteq> 0" "is_sign sg" "digits w" "digits fd" "w @ fd \<noteq> []"
    "length w + length fd < 2 ^ 30" "exp_ok e"
    using ok by (auto simp: decimal_ok_def dc_digits_def digits_def parts)
  define p1 where "p1 = s + of_nat (length sp)"
  define p2 where "p2 = p1 + of_nat (length sg)"
  define p3 where "p3 = p2 + of_nat (length w)"
  define p4 where "p4 = p3 + of_nat (length (point_text f))"
  define p5 where "p5 = p4 + of_nat (length (exp_text e))"
  have c0: "cstr m s (sp @ sg @ w @ point_text f @ exp_text e @ rest)" using str by (simp add: dc_text_def parts)
  note c1 = cstr_rest [OF c0, folded p1_def]
  note c2 = cstr_rest [OF c1, folded p2_def]
  note c3 = cstr_rest [OF c2, folded p3_def]
  note c4 = cstr_rest [OF c3, folded p4_def]
  have s1: "strtod_space m s = Some p1" unfolding p1_def by (rule strtod_space_at [OF wf(1) c0 b(1)])
  have s2: "opt_sign m p1 = (sg = [45], p2)" unfolding p2_def by (rule opt_sign_at [OF wf(2) c1 b(2)])
  have s3: "real_digits (exact h) m p2 0 0 = Some (p3, of_nat (text_val 10 w), of_nat (length w))"
    using real_digits_at [OF wf(3) c2 b(3), of h 0 0] by (simp add: p3_def text_val_def)
  have s4: "(if m p3 = 46 then real_digits (exact h) m (p3 + 1) (of_nat (text_val 10 w)) 0
      else Some (p3, of_nat (text_val 10 w), 0)) = Some (p4, of_nat (text_val 10 (w @ fd)), of_nat (length fd))"
    unfolding p4_def by (rule decimals_at [OF c3 b(4) b(5) _ wf(4)]) (simp_all add: parts dc_decimals_def)
  have s5: "opt_exponent m p4 (0 - of_nat (length fd)) = Some (p5, 0 - of_nat (length fd) + of_int (exp_value e))"
    unfolding p5_def
    by (rule opt_exponent_at [OF wf(7) c4]) (use ends in \<open>auto simp: dc_ends_def parts\<close>)
  have nz: "(of_nat (length w) + of_nat (length fd) :: u32) \<noteq> 0"
    using of_nat_u32_eq_iff [of "length w + length fd" 0] wf(5,6) by simp
  have q: "s + of_nat (length (dc_text d)) = p5"
    by (simp add: dc_text_def p5_def p4_def p3_def p2_def p1_def parts)
  have val: "scale_loop (exact h) (dc_exponent d < 0) (nat \<bar>dc_exponent d\<bar>) 10
      (if sg = [45] then - of_nat (text_val 10 (w @ fd)) else of_nat (text_val 10 (w @ fd))) = dc_value d"
    by (simp only: scale_loop_ten) (simp add: dc_value_def dc_digits_def parts)
  show ?thesis
    by (simp only: strtod_def exact_simps of_int_0 of_int_numeral s1 s2 s3 s4 s5 nz q val Option.bind_lunit
      Let_def prod.case if_False exponent_word [OF ok, folded parts] if_distrib [of Some])
qed

definition demo_decimal :: decimal where
  "demo_decimal = \<lparr>dc_space = [32], dc_sign = [45], dc_whole = [49, 50], dc_point = Some [53],
     dc_exp = Some (101, [43], [50])\<rparr>"

lemma strtod_exact_witness:
  "strtod (exact 0) 0x1000 0x2000 (put_bytes 0x1000 [32, 45, 49, 50, 46, 53, 101, 43, 50, 59] (\<lambda>_. 0)) =
     Some (- 1250 :: real, False,
       store32 (put_bytes 0x1000 [32, 45, 49, 50, 46, 53, 101, 43, 50, 59] (\<lambda>_. 0)) 0x2000 0x1009)"
proof -
  have t: "dc_text demo_decimal = [32, 45, 49, 50, 46, 53, 101, 43, 50]"
    by (simp add: dc_text_def demo_decimal_def point_text_def exp_text_def)
  have x: "dc_exponent demo_decimal = 1" and v: "dc_value demo_decimal = (- 1250 :: real)"
    by (simp_all add: dc_exponent_def dc_value_def dc_digits_def dc_decimals_def exp_value_def demo_decimal_def
        text_val_def byte_digit_def)
  have "strtod (exact 0) 0x1000 0x2000 (put_bytes 0x1000 (dc_text demo_decimal @ [59]) (\<lambda>_. 0)) = Some
    (if dc_exponent demo_decimal < DBL_MIN_EXP \<or> dc_exponent demo_decimal > DBL_MAX_EXP
     then (0, True, put_bytes 0x1000 (dc_text demo_decimal @ [59]) (\<lambda>_. 0))
     else (dc_value demo_decimal :: real, dc_value demo_decimal = (0 :: real),
       if (0x2000 :: u32) \<noteq> 0 then store32 (put_bytes 0x1000 (dc_text demo_decimal @ [59]) (\<lambda>_. 0)) 0x2000
         (0x1000 + of_nat (length (dc_text demo_decimal))) else put_bytes 0x1000 (dc_text demo_decimal @ [59]) (\<lambda>_. 0)))"
    by (rule strtod_exact [where rest = "[59]"], unfold t)
      (simp_all add: decimal_ok_def dc_ends_def demo_decimal_def is_sign_def isspace_def isdigit_def int_of_char_def
        dc_digits_def dc_decimals_def exp_ok_def text_val_def byte_digit_def)
  then show ?thesis by (simp add: t x v DBL_MIN_EXP_def DBL_MAX_EXP_def)
qed

end
