(* ===== verification/Boot.thy ===== *)
theory Boot
  imports Init Input Interrupt Page Kmalloc Exceptions
begin

text \<open>
  The boot sequence, \<^verbatim>\<open>init\<close> of \<^verbatim>\<open>init.c\<close>: the components' set-up routines run one after the other on one
  machine, whose memory they share. The interrupt controllers are part of the machine, so that the masks
  the drivers read and write back are those of the hardware model of the interrupt set-up. The descriptor
  tables are kept apart from the memory, as in their theories, and the messages of \<open>mem_init\<close> are left out. The
  interrupt in the middle is a call of its handler: only if the handler returns does the rest run.
\<close>

section \<open>The machine\<close>

record machine =
  mc_ram :: mem
  mc_kern :: kstate
  mc_idt :: "nat \<Rightarrow> u64"
  mc_pool :: mm_state
  mc_video :: vesa
  mc_text :: screen
  mc_pics :: "pic \<times> pic"
  mc_out :: "(u8 \<times> u16) list"
  mc_cr0 :: u32
  mc_cr3 :: u32

text \<open>
  What the linker and the environment provide: the entry points of \<^verbatim>\<open>isr.S\<close>, the boot loader's information
  and what the other ports read.
\<close>

record boot_env =
  isr_table :: "nat \<Rightarrow> u32"
  default_isr_at :: u32
  syscall_isr_at :: u32
  mb_info :: u32
  ps2 :: device

definition port_writes :: "(u8 \<times> u16) list \<Rightarrow> machine \<Rightarrow> machine" where
  "port_writes ws c = c\<lparr>mc_out := mc_out c @ ws, mc_pics := fold pic_write ws (mc_pics c)\<rparr>"

text \<open>Reading the data port of a controller gives its mask.\<close>

definition port_reads :: "device \<Rightarrow> machine \<Rightarrow> device" where
  "port_reads dev c p i =
     (if p = 0x21 then imr (fst (mc_pics c)) else if p = 0xa1 then imr (snd (mc_pics c)) else dev p i)"

section \<open>The set-up\<close>

text \<open>
  The segments, the task register, which \<^verbatim>\<open>ltr\<close> loads from the descriptor, and the gates.
\<close>

definition load_tables :: "machine \<Rightarrow> machine" where
  "load_tables c =
     (let k = snd (gdt_install (mc_kern c));
          k = snd (set_tss (ucast (TASK0 k)) k);
          k = snd (set_ldt (ucast (TASK0 k + ldt_offset)) k)
      in c\<lparr>mc_kern := k\<lparr>cpu_tss := desc_base (gdt k CURR_TASK_TSS)\<rparr>\<rparr>)"

definition init_tables :: "boot_env \<Rightarrow> machine \<Rightarrow> machine option" where
  "init_tables env c = do {
     let c = load_tables c;
     let c = c\<lparr>mc_idt := idt_install (isr_table env) (default_isr_at env) (mc_idt c)\<rparr>;
     let c = port_writes pic_install c;
     ws \<leftarrow> timer_install 1000 (imr (fst (mc_pics c)));
     let c = port_writes ws c;
     let c = port_writes (kb_install (imr (fst (mc_pics c)))) c;
     Some (c\<lparr>mc_idt := syscall_init (syscall_isr_at env) (mc_idt c)\<rparr>) }"

definition init_devices :: "boot_env \<Rightarrow> machine \<Rightarrow> (mm_error + machine) option" where
  "init_devices env c = do {
     r \<leftarrow> mem_init (mb_info env) ((mc_pool c)\<lparr>ram := mc_ram c\<rparr>);
     case r of
       Inl e \<Rightarrow> Some (Inl e)
     | Inr p \<Rightarrow> do {
         let c = c\<lparr>mc_pool := p, mc_ram := ram p\<rparr>;
         let v = snd (vesa_init (mb_info env) ((mc_video c)\<lparr>vm := mc_ram c\<rparr>));
         let c = c\<lparr>mc_video := v, mc_ram := vm v\<rparr>;
         let io = mouse_install (port_reads (ps2 env) c) \<lparr>nreads = 0, writes = []\<rparr>;
         let c = port_writes (writes io) c;
         let (cr3, cr0, m) = page_init (mc_cr0 c) (mc_ram c);
         Some (Inr (c\<lparr>mc_ram := m, mc_cr0 := cr0, mc_cr3 := cr3\<rparr>)) } }"

definition init_setup :: "boot_env \<Rightarrow> machine \<Rightarrow> (mm_error + machine) option" where
  "init_setup env c = Option.bind (init_tables env c) (init_devices env)"

section \<open>The interrupt in the middle\<close>

text \<open>
  \<^verbatim>\<open>int $0x08\<close>: the processor pushes the flags, the code segment and the return address, and the entry of
  vector 8, which expects an error code below them, pushes only the number; so each of the three is taken for the
  member before it. \<open>upper\<close> are the words on the stack of \<open>init\<close>.
\<close>

definition int8_frame :: "frame \<Rightarrow> u32 \<Rightarrow> u32 \<Rightarrow> u32 \<Rightarrow> (nat \<Rightarrow> u32) \<Rightarrow> frame" where
  "int8_frame regs eip cs eflags upper =
     regs\<lparr>fr_isr_nr := 8, fr_err := eip, fr_eip := cs, fr_cs := eflags, fr_eflags := upper 0,
       fr_old_esp := upper 1, fr_old_ss := upper 2\<rparr>"

record trap_env =
  tr_lit :: "string \<Rightarrow> u32"
  tr_beyond :: "nat \<Rightarrow> u32"
  tr_rest :: "nat \<Rightarrow> u32"
  tr_cr2 :: u32
  tr_regs :: frame
  tr_eip :: u32
  tr_cs :: u32
  tr_eflags :: u32
  tr_upper :: "nat \<Rightarrow> u32"

definition current_task :: "machine \<Rightarrow> task_struct" where
  "current_task c = tasks (mc_kern c) (current (mc_kern c))"

definition text_of :: "machine \<Rightarrow> screen" where
  "text_of c = (mc_text c)\<lparr>vmem := mc_ram c\<rparr>"

definition with_text :: "machine \<Rightarrow> screen \<Rightarrow> machine" where
  "with_text c s = c\<lparr>mc_text := s, mc_ram := vmem s\<rparr>"

section \<open>The rest\<close>

text \<open>
  What \<open>init\<close> would do after the interrupt, up to its endless loop: a formatted line, the pictures and the creation of
  two tasks. The addresses of strings, buffers, task structures, stacks and code are parameters.
\<close>

record rest_env =
  r_buf :: u32
  r_junk :: "nat \<Rightarrow> u32"
  r_itoa_buf :: u32
  r_null_str :: u32
  r_float_fmt :: u32
  r_float_args :: "nat \<Rightarrow> u32"
  r_str1 :: u32
  r_str2 :: u32
  r_str3 :: u32
  r_task1 :: u32
  r_task2 :: u32
  r_code1 :: u32
  r_code2 :: u32
  r_stacks :: "u32 \<times> u32 \<times> u32 \<times> u32"

definition test_float :: "rest_env \<Rightarrow> screen \<Rightarrow> screen option" where
  "test_float e s = printf (r_buf e) (r_junk e) (r_itoa_buf e) (r_null_str e) (r_float_fmt e) (r_float_args e) s"

definition init_pictures :: "rest_env \<Rightarrow> vesa \<Rightarrow> vesa option" where
  "init_pictures e v = do {
     let v = vesa_fill_rect 200 270 50 50 0xff0000 v;
     v \<leftarrow> vesa_draw_string 200 40 (r_str1 e) v;
     v \<leftarrow> vesa_draw_string_with_color 200 0 (r_str2 e) 0x00ff00 0x000000 v;
     v \<leftarrow> vesa_draw_string_with_color 200 20 (r_str3 e) 0xff0000 0xffffff v;
     let v = vesa_fill_rect 220 300 50 50 0x00ff00 v;
     vesa_draw_line 100 100 240 200 0xff0000 v }"

definition init_tasks :: "rest_env \<Rightarrow> kstate \<Rightarrow> kstate" where
  "init_tasks e k =
     (case r_stacks e of (s10, s13, s20, s23) \<Rightarrow>
       let k = new_task (r_task1 e) (r_code1 e) (s10 + 4096) (s13 + 4096) k
       in new_task (r_task2 e) (r_code2 e) (s20 + 4096) (s23 + 4096) k)"

definition init_rest :: "rest_env \<Rightarrow> machine \<Rightarrow> machine option" where
  "init_rest e c = do {
     s \<leftarrow> test_float e (text_of c);
     let c = with_text c s;
     v \<leftarrow> init_pictures e ((mc_video c)\<lparr>vm := mc_ram c\<rparr>);
     let c = c\<lparr>mc_video := v, mc_ram := vm v, mc_kern := init_tasks e (mc_kern c)\<rparr>;
     Some (with_text c (cls (text_of c))) }"

section \<open>The whole\<close>

text \<open>
  How \<open>init\<close> ends: with an error of the pool or of the report; with the processor stopped in the handler; with the
  jump to user mode and the endless loop; or, when the handler returns but \<^verbatim>\<open>iret\<close> does not take it back to the
  instruction after the interrupt, at another address.
\<close>

datatype init_end = Bad_pool mm_error | Bad_report kp_error | Stopped machine | Looping machine
  | Astray u32 u32 machine

definition init_frame :: "trap_env \<Rightarrow> frame" where
  "init_frame tr = int8_frame (tr_regs tr) (tr_eip tr) (tr_cs tr) (tr_eflags tr) (tr_upper tr)"

text \<open>The return of the entry: it drops two words above the registers and loads the next three.\<close>

definition after_interrupt :: "trap_env \<Rightarrow> rest_env \<Rightarrow> machine \<Rightarrow> init_end option" where
  "after_interrupt tr re c =
     (let fr = init_frame tr in
      if fr_eip fr = tr_eip tr \<and> fr_cs fr = tr_cs tr then map_option Looping (init_rest re c)
      else Some (Astray (fr_cs fr) (fr_eip fr) c))"

definition int8 :: "trap_env \<Rightarrow> rest_env \<Rightarrow> machine \<Rightarrow> init_end option" where
  "int8 tr re c =
     Option.bind (isr_handler (fr_isr_nr (init_frame tr))) (\<lambda>h.
       case run_handler (tr_lit tr) (tr_beyond tr) (tr_rest tr) (tr_cr2 tr) (mc_cr3 c) (current_task c)
         h (init_frame tr) (text_of c)
       of Inl e \<Rightarrow> Some (Bad_report e)
        | Inr (Halted s) \<Rightarrow> Some (Stopped (with_text c s))
        | Inr (Resumed s) \<Rightarrow> after_interrupt tr re (with_text c s))"

definition init_c :: "boot_env \<Rightarrow> trap_env \<Rightarrow> rest_env \<Rightarrow> machine \<Rightarrow> init_end option" where
  "init_c env tr re c = Option.bind (init_setup env c) (\<lambda>r.
     case r of Inl e \<Rightarrow> Some (Bad_pool e) | Inr c \<Rightarrow> int8 tr re c)"

section \<open>The state after the set-up\<close>

lemma load_tables_kern:
  "kernel_state = mc_kern (load_tables c) \<Longrightarrow> tasks kernel_state = tasks (mc_kern c) \<and>
     TASK0 kernel_state = TASK0 (mc_kern c) \<and> current kernel_state = current (mc_kern c) \<and>
     cpu_tss kernel_state = TASK0 (mc_kern c) \<and>
     desc_base (gdt kernel_state CURR_TASK_TSS) = TASK0 (mc_kern c) \<and>
     desc_base (gdt kernel_state CURR_TASK_LDT) = TASK0 (mc_kern c) + ldt_offset"
  by (simp add: load_tables_def gdt_install_def set_gdt_des_def set_tss_def set_ldt_def Let_def
      CURR_TASK_TSS_def CURR_TASK_LDT_def)

lemma load_tables_other [simp]:
  "mc_ram (load_tables c) = mc_ram c" "mc_idt (load_tables c) = mc_idt c" "mc_pool (load_tables c) = mc_pool c"
  "mc_video (load_tables c) = mc_video c" "mc_text (load_tables c) = mc_text c" "mc_pics (load_tables c) = mc_pics c"
  "mc_cr0 (load_tables c) = mc_cr0 c"
  by (simp_all add: load_tables_def Let_def)

text \<open>The controllers after a sequence of set-up writes: remapped, with the timer and the keyboard unmasked.\<close>

definition pics_at :: "u8 \<Rightarrow> u8 \<Rightarrow> pic \<times> pic \<Rightarrow> bool" where
  "pics_at m s p \<longleftrightarrow> p = (\<lparr>icw_left = 0, base = 0x20, imr = m\<rparr>, \<lparr>icw_left = 0, base = 0x28, imr = s\<rparr>)"

lemma pics_installed: "pics_at 0xff 0xff (fold pic_write pic_install p)"
  by (cases p) (simp add: pics_at_def pic_install_def pic_command_def pic_data_def)

lemma pics_mouse:
  assumes "pics_at a b (mc_pics c)"
  shows "pics_at (a AND 0xfb) (b AND 0xef)
    (fold pic_write (writes (mouse_install (port_reads dev c) \<lparr>nreads = 0, writes = []\<rparr>)) (mc_pics c))"
proof -
  have rd: "port_reads dev c 0x21 n = a" "port_reads dev c 0xa1 n = b" for n
    using assms by (simp_all add: port_reads_def pics_at_def)
  have "\<exists>st. writes (mouse_install (port_reads dev c) \<lparr>nreads = 0, writes = []\<rparr>) =
      [(0xa8, 0x64), (0x20, 0x64), (0x60, 0x64), (st, 0x60), (0xD4, 0x64), (0xF6, 0x60), (0xD4, 0x64),
       (0xF4, 0x60), (a AND 0xfb, 0x21), (b AND 0xef, 0xa1)]"
    by (auto simp: mouse_install_def mouse_write_def mouse_read_def io_in_def io_out_def Let_def rd)
  then show ?thesis using assms by (auto simp: pics_at_def pic_data_def)
qed

lemma init_tables_runs:
  obtains c1 where "init_tables env c = Some c1" "pics_at 0xfc 0xff (mc_pics c1)"
    "mc_kern c1 = mc_kern (load_tables c)"
    "mc_idt c1 = syscall_init (syscall_isr_at env) (idt_install (isr_table env) (default_isr_at env) (mc_idt c))"
    "mc_ram c1 = mc_ram c" "mc_pool c1 = mc_pool c" "mc_cr0 c1 = mc_cr0 c"
    "mc_video c1 = mc_video c" "mc_text c1 = mc_text c"
proof
  define c0 where "c0 = port_writes pic_install
    ((load_tables c)\<lparr>mc_idt := idt_install (isr_table env) (default_isr_at env) (mc_idt (load_tables c))\<rparr>)"
  define c1 where "c1 = port_writes (kb_install 0xfe) (port_writes [(0x36, 0x43), (0xa9, 0x40), (4, 0x40), (0xfe, 0x21)] c0)"
  have p: "pics_at 0xff 0xff (mc_pics c0)" by (simp add: c0_def port_writes_def pics_installed)
  have t: "timer_install 1000 (imr (fst (mc_pics c0))) = Some [(0x36, 0x43), (0xa9, 0x40), (4, 0x40), (0xfe, 0x21)]"
    using p by (simp add: pics_at_def timer_install_def sdiv_c_def)
  have k: "imr (fst (mc_pics (port_writes [(0x36, 0x43), (0xa9, 0x40), (4, 0x40), (0xfe, 0x21)] c0))) = 0xfe"
    using p by (simp add: pics_at_def port_writes_def pic_data_def)
  show "init_tables env c = Some (c1\<lparr>mc_idt := syscall_init (syscall_isr_at env) (mc_idt c1)\<rparr>)"
    unfolding init_tables_def Let_def c0_def [symmetric] t Option.bind_lunit k c1_def [symmetric] ..
  show "pics_at 0xfc 0xff (mc_pics (c1\<lparr>mc_idt := syscall_init (syscall_isr_at env) (mc_idt c1)\<rparr>))"
    using p by (simp add: c1_def pics_at_def port_writes_def pic_data_def kb_install_def)
  show "mc_kern (c1\<lparr>mc_idt := syscall_init (syscall_isr_at env) (mc_idt c1)\<rparr>) = mc_kern (load_tables c)"
    "mc_idt (c1\<lparr>mc_idt := syscall_init (syscall_isr_at env) (mc_idt c1)\<rparr>) =
      syscall_init (syscall_isr_at env) (idt_install (isr_table env) (default_isr_at env) (mc_idt c))"
    "mc_ram (c1\<lparr>mc_idt := syscall_init (syscall_isr_at env) (mc_idt c1)\<rparr>) = mc_ram c"
    "mc_pool (c1\<lparr>mc_idt := syscall_init (syscall_isr_at env) (mc_idt c1)\<rparr>) = mc_pool c"
    "mc_cr0 (c1\<lparr>mc_idt := syscall_init (syscall_isr_at env) (mc_idt c1)\<rparr>) = mc_cr0 c"
    "mc_video (c1\<lparr>mc_idt := syscall_init (syscall_isr_at env) (mc_idt c1)\<rparr>) = mc_video c"
    "mc_text (c1\<lparr>mc_idt := syscall_init (syscall_isr_at env) (mc_idt c1)\<rparr>) = mc_text c"
    by (simp_all add: c1_def c0_def port_writes_def)
qed

text \<open>What the devices' set-up needs of the memory: a memory map at the boot loader's information.\<close>

definition map_ok :: "mem \<Rightarrow> u32 \<Rightarrow> u32 list \<Rightarrow> bool" where
  "map_ok m mbi es \<longleftrightarrow> mmap_at m (load32 m (mbi + 48) + load32 m (mbi + 44)) (load32 m (mbi + 48)) es"

lemma init_pool:
  assumes "map_ok (ram s) mbi es" and "length es \<le> NR_BLOCKS"
  obtains p "is" where "mem_init mbi s = Some (Inr p)"
    and "mm_repr p is (rev (map (entry_blk (ram s)) es))" and "mem_nr p = length es" and "ram p = ram s"
proof -
  have "mm_repr (s\<lparr>block_head := Null, mem_nr := 0\<rparr>) [] []" by (simp add: mm_repr_def)
  from mem_init_loop_builds [OF _ this] assms that show ?thesis
    by (fastforce simp: map_ok_def mem_init_def Let_def)
qed

lemma init_setup_runs:
  assumes "map_ok (mc_ram c) (mb_info env) es" and "length es \<le> NR_BLOCKS"
  obtains c' "is" where "init_setup env c = Some (Inr c')"
    and "mc_kern c' = mc_kern (load_tables c)" and "mc_text c' = mc_text c"
    and "mc_idt c' = syscall_init (syscall_isr_at env) (idt_install (isr_table env) (default_isr_at env) (mc_idt c))"
    and "pics_at 0xf8 0xef (mc_pics c')"
    and "mm_repr (mc_pool c') is (rev (map (entry_blk (mc_ram c)) es))" and "mem_nr (mc_pool c') = length es"
    and "mc_cr3 c' = PAGE_DIR" and "mc_cr0 c' = mc_cr0 c OR 0x80000000"
    and "mc_ram c' = page_map_all (vm (snd (vesa_init (mb_info env) ((mc_video c)\<lparr>vm := mc_ram c\<rparr>))))"
proof -
  obtain c1 where c1: "init_tables env c = Some c1" "pics_at 0xfc 0xff (mc_pics c1)"
    "mc_kern c1 = mc_kern (load_tables c)"
    "mc_idt c1 = syscall_init (syscall_isr_at env) (idt_install (isr_table env) (default_isr_at env) (mc_idt c))"
    "mc_ram c1 = mc_ram c" "mc_pool c1 = mc_pool c" "mc_cr0 c1 = mc_cr0 c"
    "mc_video c1 = mc_video c" "mc_text c1 = mc_text c"
    by (rule init_tables_runs)
  obtain p "is" where p: "mem_init (mb_info env) ((mc_pool c1)\<lparr>ram := mc_ram c1\<rparr>) = Some (Inr p)"
    "mm_repr p is (rev (map (entry_blk (mc_ram c)) es))" "mem_nr p = length es" "ram p = mc_ram c"
    using init_pool [of "(mc_pool c1)\<lparr>ram := mc_ram c1\<rparr>" "mb_info env" es] assms c1(5) by auto
  define v where "v = snd (vesa_init (mb_info env) ((mc_video c1)\<lparr>vm := ram p\<rparr>))"
  define c2 where "c2 = c1\<lparr>mc_pool := p, mc_ram := ram p, mc_video := v, mc_ram := vm v\<rparr>"
  define c3 where "c3 = port_writes (writes (mouse_install (port_reads (ps2 env) c2) \<lparr>nreads = 0, writes = []\<rparr>)) c2"
  show ?thesis
  proof (rule that)
    show "init_setup env c = Some (Inr (c3\<lparr>mc_ram := page_map_all (mc_ram c3),
        mc_cr0 := mc_cr0 c3 OR 0x80000000, mc_cr3 := PAGE_DIR\<rparr>))"
      by (simp add: init_setup_def init_devices_def c1(1) p(1) Let_def v_def c2_def c3_def page_init_def)
  qed (use c1 p pics_mouse [of "0xfc" "0xff" c2 "ps2 env"] in \<open>simp_all add: c3_def c2_def port_writes_def v_def\<close>)
qed


text \<open>Clearing memory from the directory on unmaps everything.\<close>

lemma cleared_directory:
  assumes "4096 \<le> n"
  shows "mmu_translate (memset PAGE_DIR 0 n m) PAGE_DIR v = None"
proof (rule empty_directory)
  fix l :: nat assume "l < 1024"
  then have "region (PAGE_DIR + of_nat (4 * l)) 4 \<subseteq> region PAGE_DIR n"
    using region_shift [of PAGE_DIR "4 * l" 4] region_mono [of "4 * l + 4" n PAGE_DIR] assms by simp
  moreover have "dir_entry l = PAGE_DIR + of_nat (4 * l)" by (simp add: dir_entry_def PAGE_DIR_def)
  ultimately have "load32 (memset PAGE_DIR 0 n m) (dir_entry l) = load32 (\<lambda>_. 0) (dir_entry l)"
    by (intro load32_cong) (auto simp: memset_spec)
  then show "load32 (memset PAGE_DIR 0 n m) (dir_entry l) = 0" by (simp add: load32_def)
qed

text \<open>The two tasks of \<open>init\<close>, once created, compete with the first task for the processor.\<close>

lemma init_tasks_compete:
  assumes "booted k" and "task_state (tasks k (TASK0 k)) = TS_RUNNING"
    and "distinct [TASK0 k, r_task1 e, r_task2 e]" and "r_task1 e \<noteq> 0" and "r_task2 e \<noteq> 0"
  shows "competing [TASK0 k, r_task2 e, r_task1 e] (init_tasks e k)"
    and "tss_eip (tss (tasks (init_tasks e k) (r_task1 e))) = r_code1 e"
    and "tss_eip (tss (tasks (init_tasks e k) (r_task2 e))) = r_code2 e"
proof -
  obtain s10 s13 s20 s23 where st: "r_stacks e = (s10, s13, s20, s23)" by (cases "r_stacks e") auto
  define k1 where "k1 = new_task (r_task1 e) (r_code1 e) (s10 + 4096) (s13 + 4096) k"
  have k2: "init_tasks e k = new_task (r_task2 e) (r_code2 e) (s20 + 4096) (s23 + 4096) k1"
    by (simp add: init_tasks_def st k1_def)
  have c: "current k = TASK0 k" using assms(1) by (simp add: booted_def)
  have same: "current (new_task t a b d s) = current s" "TASK0 (new_task t a b d s) = TASK0 s" for t a b d s
    by (simp_all add: new_task_def Let_def upd_task_def)
  have "kinv ([] @ current k # r_task1 e # []) k1"
    unfolding k1_def by (rule kinv_new_task [OF kinv_booted [OF assms(1)] assms(4)]) (use assms(3) c in auto)
  then have inv1: "kinv [TASK0 k, r_task1 e] k1" by (simp only: c append_Nil)
  have "kinv ([] @ current k1 # r_task2 e # [r_task1 e]) (init_tasks e k)"
    unfolding k2 by (rule kinv_new_task [OF inv1 assms(5)]) (use assms(3) c in \<open>auto simp: k1_def same\<close>)
  then have "kinv [TASK0 k, r_task2 e, r_task1 e] (init_tasks e k)" by (simp add: k1_def same c)
  moreover have ne: "r_task1 e \<noteq> current k" "r_task2 e \<noteq> current k1" "r_task1 e \<noteq> r_task2 e" "current k1 = TASK0 k"
    "TASK0 k1 = TASK0 k" "current (init_tasks e k) = TASK0 k"
    using assms(3) c by (auto simp: k1_def k2 same)
  note t1 = tasks_new_task [OF ne(1), of "r_code1 e" "s10 + 4096" "s13 + 4096", folded k1_def]
  note t2 = tasks_new_task [OF ne(2), of "r_code2 e" "s20 + 4096" "s23 + 4096", folded k2]
  have state: "task_state (tasks (init_tasks e k) (TASK0 k)) = TS_RUNNING"
      "task_state (tasks (init_tasks e k) (r_task1 e)) = TS_RUNABLE"
      "task_state (tasks (init_tasks e k) (r_task2 e)) = TS_RUNABLE"
    and eip: "tss_eip (tss (tasks (init_tasks e k) (r_task1 e))) = r_code1 e"
      "tss_eip (tss (tasks (init_tasks e k) (r_task2 e))) = r_code2 e"
    using ne assms(2) c by (simp_all add: t1 t2)
  ultimately show "competing [TASK0 k, r_task2 e, r_task1 e] (init_tasks e k)"
    by (simp add: competing_def ne(6))
  show "tss_eip (tss (tasks (init_tasks e k) (r_task1 e))) = r_code1 e"
    and "tss_eip (tss (tasks (init_tasks e k) (r_task2 e))) = r_code2 e"
    by (rule eip)+
qed

section \<open>Properties\<close>

text \<open>
  Property C10. Every component is set up when \<open>init\<close> is through with its installation calls, whatever the machine was
  before and whatever the ports answer: all 256 gates lead to the code of their vector; the two controllers deliver
  at 0x20 and 0x28 and let through exactly the timer, the keyboard, the cascade and the mouse; the task register
  and the descriptors name the first task, which is the only one and satisfies the scheduler's invariant; the pool
  is the boot loader's memory map; and paging is on and maps every address to itself.
\<close>

theorem init_setup_ready:
  assumes "map_ok (mc_ram c) (mb_info env) es" and "length es \<le> NR_BLOCKS" and "booted (mc_kern c)"
  shows "\<exists>c' is. init_setup env c = Some (Inr c') \<and>
    (\<forall>v<256. gate_offset (mc_idt c' v) = (if v < 48 then isr_table env (2 * v + 1) else syscall_isr_at env) \<and>
       gate_selector (mc_idt c' v) = 8 \<and> gate_attributes (mc_idt c' v) = 0x8e) \<and>
    mc_pics c' = (\<lparr>icw_left = 0, base = 0x20, imr = NOT 0x07\<rparr>, \<lparr>icw_left = 0, base = 0x28, imr = NOT 0x10\<rparr>) \<and>
    cpu_tss (mc_kern c') = TASK0 (mc_kern c) \<and> kinv [TASK0 (mc_kern c)] (mc_kern c') \<and>
    desc_base (gdt (mc_kern c') CURR_TASK_LDT) = TASK0 (mc_kern c) + ldt_offset \<and>
    mm_repr (mc_pool c') is (rev (map (entry_blk (mc_ram c)) es)) \<and>
    bit (mc_cr0 c') 31 \<and> (\<forall>v. mmu_translate (mc_ram c') (mc_cr3 c') v = Some v)"
proof -
  obtain c' "is" where c': "init_setup env c = Some (Inr c')" "mc_kern c' = mc_kern (load_tables c)"
    "mc_idt c' = syscall_init (syscall_isr_at env) (idt_install (isr_table env) (default_isr_at env) (mc_idt c))"
    "pics_at 0xf8 0xef (mc_pics c')" "mm_repr (mc_pool c') is (rev (map (entry_blk (mc_ram c)) es))"
    "mc_cr3 c' = PAGE_DIR" "mc_cr0 c' = mc_cr0 c OR 0x80000000" "\<exists>m. mc_ram c' = page_map_all m"
    by (rule init_setup_runs [OF assms(1,2)]) blast
  have "\<forall>v<256. gate_offset (mc_idt c' v) = (if v < 48 then isr_table env (2 * v + 1) else syscall_isr_at env) \<and>
       gate_selector (mc_idt c' v) = 8 \<and> gate_attributes (mc_idt c' v) = 0x8e"
    using interrupt_gates [of _ "isr_table env" "default_isr_at env" "mc_idt c" "syscall_isr_at env"]
    by (simp add: c'(3) Let_def)
  moreover have "booted (mc_kern c')" "TASK0 (mc_kern c') = TASK0 (mc_kern c)"
    using assms(3) load_tables_kern [OF c'(2)] by (simp_all add: booted_def)
  then have "kinv [TASK0 (mc_kern c)] (mc_kern c')" using kinv_booted by fastforce
  moreover have "bit (mc_cr0 c') 31" by (simp add: c'(7) bit_or_iff)
  moreover have "\<forall>v. mmu_translate (mc_ram c') (mc_cr3 c') v = Some v"
    using c'(6,8) page_map_all_identity by auto
  ultimately show ?thesis
    using c' load_tables_kern [OF c'(2)] by (intro exI [of _ c'] exI [of _ "is"]) (simp add: pics_at_def)
qed

text \<open>
  A machine with 127 MB of free memory at 1 MB; the boot loader's information is at 0 and the message of the
  double fault at 0x1000. The video mode is taken as set.
\<close>

definition demo_ram :: mem where
  "demo_ram = put_bytes 0x1000 (bytes ''DOUBLE FAULT'')
     (fold (\<lambda>(a, v) m. store32 m a v)
       [(44, 24), (48, 0x100), (0x100, 20), (0x104, 0x100000), (0x10c, 0x7f00000), (0x114, 1)] (\<lambda>_. 0))"

definition demo_machine :: machine where
  "demo_machine = \<lparr>mc_ram = demo_ram, mc_kern = demo_boot, mc_idt = (\<lambda>_. 0), mc_pool = demo_pool 0,
     mc_video = (vesa_start (\<lambda>_. 0))\<lparr>vid := 0xe0000000\<rparr>,
     mc_text = \<lparr>vmem = (\<lambda>_. 0), xpos = 0, ypos = 0, csr_x = 0, csr_y = 0, ports = []\<rparr>,
     mc_pics = (\<lparr>icw_left = 0, base = 8, imr = 0\<rparr>, \<lparr>icw_left = 0, base = 0x70, imr = 0\<rparr>),
     mc_out = [], mc_cr0 = 1, mc_cr3 = 0\<rparr>"

definition demo_boot_env :: boot_env where
  "demo_boot_env = \<lparr>isr_table = of_nat, default_isr_at = 7, syscall_isr_at = 9, mb_info = 0, ps2 = (\<lambda>_ _. 0)\<rparr>"

lemma demo_machine_map:
  "map_ok (mc_ram demo_machine) (mb_info demo_boot_env) [0x100]"
  "entry_blk (mc_ram demo_machine) 0x100 = (0x100000, 0x7f00000, MEM_FREE)"
  by (simp_all add: map_ok_def demo_machine_def demo_boot_env_def demo_ram_def bytes_def load32_def store32_def
      entry_blk_def mmap_entry_def blk_of_def MEM_FREE_def)

theorem init_setup_ready_witness:
  "\<exists>c. init_setup demo_boot_env demo_machine = Some (Inr c) \<and> gate_offset (mc_idt c 0x20) = 65 \<and>
     imr (fst (mc_pics c)) = 0xf8 \<and> kinv [0x1000] (mc_kern c)"
proof -
  have "TASK0 (mc_kern demo_machine) = 0x1000" "booted (mc_kern demo_machine)"
    using booted_demo by (simp_all add: demo_machine_def, simp add: demo_boot_def)
  then show ?thesis
    using init_setup_ready [OF demo_machine_map(1)] by (fastforce simp: NR_BLOCKS_def demo_boot_env_def)
qed

text \<open>
  Property C11. The boot sequence stops in the middle: after the installation calls \<open>init\<close> raises interrupt 8, whose
  handler reports a double fault and halts, so that nothing of what follows in \<open>init\<close> runs, whatever its strings and
  tasks are. The report shows the return address as error code, the code segment as instruction pointer and the flags as
  code segment. Unless the report itself fails, the machine that stops has the tasks and the video state of the
  set-up, and its memory differs from the set-up's only on the text screen.
\<close>

theorem init_stops:
  assumes "init_setup env c = Some (Inr c1)" and "cursor_ok (text_of c1)"
    and "cstr (mc_ram c1) (tr_lit tr ''DOUBLE FAULT'') (bytes ''DOUBLE FAULT'')"
  shows "init_c env tr re c = Some (case print_task (tr_rest tr) (current_task c1)
        (fold (\<lambda>x. print_c x (fst (KPL KPL_PANIC)) (snd (KPL KPL_PANIC)))
          (title 8 (bytes ''DOUBLE FAULT'') @
           report ((tr_regs tr)\<lparr>fr_err := tr_eip tr, fr_eip := tr_cs tr, fr_cs := tr_eflags tr,
             fr_eflags := tr_upper tr 0, fr_old_esp := tr_upper tr 1, fr_old_ss := tr_upper tr 2\<rparr>)
             (tr_cr2 tr) (mc_cr3 c1)) (text_of c1))
      of Inl e \<Rightarrow> Bad_report e | Inr t \<Rightarrow> Stopped (with_text c1 t)) \<and>
    ((\<exists>e. init_c env tr re c = Some (Bad_report e)) \<or>
      (\<exists>c2. init_c env tr re c = Some (Stopped c2) \<and> mc_kern c2 = mc_kern c1 \<and> mc_video c2 = mc_video c1 \<and>
        mc_pool c2 = mc_pool c1 \<and> only_screen (mc_ram c1) (mc_ram c2)))"
proof -
  define s where "s = fold (\<lambda>x. print_c x (fst (KPL KPL_PANIC)) (snd (KPL KPL_PANIC)))
    (title 8 (bytes ''DOUBLE FAULT'') @
     report ((tr_regs tr)\<lparr>fr_err := tr_eip tr, fr_eip := tr_cs tr, fr_cs := tr_eflags tr,
       fr_eflags := tr_upper tr 0, fr_old_esp := tr_upper tr 1, fr_old_ss := tr_upper tr 2\<rparr>)
       (tr_cr2 tr) (mc_cr3 c1)) (text_of c1)"
  have nr: "fr_isr_nr (init_frame tr) = 8" by (simp add: init_frame_def int8_frame_def)
  have m: "msg_ptr (tr_lit tr) (tr_beyond tr) 8 = tr_lit tr ''DOUBLE FAULT''"
    by (simp add: msg_ptr_def exception_msg_def)
  have v: "vmem (text_of c1) = mc_ram c1" by (simp add: text_of_def)
  have r: "report (init_frame tr) = report ((tr_regs tr)\<lparr>fr_err := tr_eip tr, fr_eip := tr_cs tr,
      fr_cs := tr_eflags tr, fr_eflags := tr_upper tr 0, fr_old_esp := tr_upper tr 1, fr_old_ss := tr_upper tr 2\<rparr>)"
    by (intro ext) (simp add: report_def init_frame_def int8_frame_def)
  have "length (bytes ''DOUBLE FAULT'') \<le> 900" by simp
  note e = conjunct1 [OF exception_report [of "text_of c1" "tr_lit tr" "tr_beyond tr" "init_frame tr"
    "bytes ''DOUBLE FAULT''" "tr_rest tr" "tr_cr2 tr" "mc_cr3 c1" KPL_PANIC, unfolded v nr m r, OF assms(3) this]]
  have h: "isr_handler 8 = Some double_fault" by (simp add: isr_handler_def)
  have r8: "run_handler (tr_lit tr) (tr_beyond tr) (tr_rest tr) (tr_cr2 tr) (mc_cr3 c1) (current_task c1) double_fault
      (init_frame tr) (text_of c1) = seq (print_task (tr_rest tr) (current_task c1) s) (\<lambda>s'. Inr (Halted s'))"
    unfolding run_handler_def info_def handler.case e s_def halt_def Let_def hlt.simps seq_simps ..
  have runs: "init_c env tr re c = Some (case print_task (tr_rest tr) (current_task c1) s of
      Inl e \<Rightarrow> Bad_report e | Inr t \<Rightarrow> Stopped (with_text c1 t))"
    by (cases "print_task (tr_rest tr) (current_task c1) s") (simp_all add: init_c_def assms(1) int8_def nr h r8)
  have "confined (mc_ram c1) s"
    using print_all_ok [OF assms(2), of KPL_PANIC] unfolding confined_def s_def print_all_def v by blast
  then have "(\<exists>e. init_c env tr re c = Some (Bad_report e)) \<or>
      (\<exists>c2. init_c env tr re c = Some (Stopped c2) \<and> mc_kern c2 = mc_kern c1 \<and> mc_video c2 = mc_video c1 \<and>
        mc_pool c2 = mc_pool c1 \<and> only_screen (mc_ram c1) (mc_ram c2))"
    using print_task_confined [of "mc_ram c1" s]
    by (auto simp: runs with_text_def confined_def split: sum.split)
  with runs show ?thesis by (simp only: s_def simp_thms)
qed

definition demo_trap :: trap_env where
  "demo_trap = \<lparr>tr_lit = (\<lambda>_. 0x1000), tr_beyond = (\<lambda>_. 0), tr_rest = (\<lambda>_. 0), tr_cr2 = 0,
     tr_regs = undefined, tr_eip = 0x100123, tr_cs = 8, tr_eflags = 2, tr_upper = (\<lambda>_. 0)\<rparr>"

theorem init_stops_witness:
  "\<exists>r. \<forall>re. init_c demo_boot_env demo_trap re demo_machine = Some r \<and>
     (case r of Bad_report e \<Rightarrow> True | Stopped c \<Rightarrow> kinv [0x1000] (mc_kern c) | _ \<Rightarrow> False)"
proof -
  obtain c1 where c1: "init_setup demo_boot_env demo_machine = Some (Inr c1)"
    "mc_kern c1 = mc_kern (load_tables demo_machine)" "mc_text c1 = mc_text demo_machine"
    "mc_ram c1 = page_map_all (vm (snd (vesa_init (mb_info demo_boot_env)
      ((mc_video demo_machine)\<lparr>vm := mc_ram demo_machine\<rparr>))))"
    by (rule init_setup_runs [OF demo_machine_map(1)]) (simp_all add: NR_BLOCKS_def)
  have b: "TASK0 (mc_kern demo_machine) = 0x1000" "booted (mc_kern demo_machine)"
    using booted_demo by (simp_all add: demo_machine_def, simp add: demo_boot_def)
  then have "booted (mc_kern c1)" "TASK0 (mc_kern c1) = 0x1000"
    using load_tables_kern [OF c1(2)] by (simp_all add: booted_def)
  then have k: "kinv [0x1000] (mc_kern c1)" using kinv_booted by fastforce
  have "cstr demo_ram 0x1000 (bytes ''DOUBLE FAULT'')"
    by (simp add: demo_ram_def bytes_def store32_def)
  moreover have "mc_ram c1 = page_map_all demo_ram"
    by (simp add: c1(4) vesa_init_def demo_machine_def)
  ultimately have d: "cstr (mc_ram c1) (tr_lit demo_trap ''DOUBLE FAULT'') (bytes ''DOUBLE FAULT'')"
    by (simp add: demo_trap_def bytes_def page_map_all_below)
  have "cursor_ok (text_of c1)"
    by (simp add: text_of_def c1(3) demo_machine_def cursor_ok_def)
  note stops = init_stops [OF c1(1) this d]
  have k': "kinv [0x1000] (mc_kern (with_text c1 t))" for t using k by (simp add: with_text_def)
  show ?thesis
    by (rule exI, intro allI conjI, rule conjunct1 [OF stops]) (simp add: k' split: sum.split)
qed

text \<open>
  Property C12. The memory manager hands out the page tables: when a free block of the boot loader's map holds the tables,
  which are not reserved, a request whose rounded size reaches from the directory to the end of the
  block returns the address of the directory and clears it. Every address was mapped before, none is afterwards.
\<close>

theorem page_tables_handed_out:
  assumes "map_ok (mc_ram c) (mb_info env) es" and "length es < NR_BLOCKS - 1"
    and "rev (map (entry_blk (mc_ram c)) es) = xs @ (a, sz, MEM_FREE) # ys"
    and "\<forall>b\<in>set xs. \<not> blk_fits (kmalloc_size n) b"
    and "kmalloc_size n = a + sz - PAGE_DIR" and "a \<le> PAGE_DIR"
    and "PAGE_DIR + 0x402000 \<le> a + sz" and "unat a + unat sz < 2 ^ 32"
  shows "\<exists>c' p. init_setup env c = Some (Inr c') \<and> (\<forall>v. mmu_translate (mc_ram c') (mc_cr3 c') v = Some v) \<and>
    kmalloc n ((mc_pool c')\<lparr>ram := mc_ram c'\<rparr>) = Some (Inr PAGE_DIR, p) \<and>
    (\<forall>v. mmu_translate (ram p) (mc_cr3 c') v = None)"
proof -
  define bs where "bs = rev (map (entry_blk (mc_ram c)) es)"
  obtain c' "is" where c': "init_setup env c = Some (Inr c')" "mm_repr (mc_pool c') is bs"
    "mem_nr (mc_pool c') = length es" "mc_cr3 c' = PAGE_DIR" "\<exists>m. mc_ram c' = page_map_all m"
    unfolding bs_def by (rule init_setup_runs [OF assms(1)]) (use assms(2) in auto)
  define s where "s = (mc_pool c')\<lparr>ram := mc_ram c'\<rparr>"
  have s: "mm_repr s is bs" "mem_nr s < NR_BLOCKS - 1"
    using c'(2,3) assms(2) by (simp_all add: s_def mm_repr_def)
  have sum: "unat (a + sz) = unat a + unat sz" using assms(8) by (intro unat_add_nowrap) simp
  have pd: "unat (a + sz - PAGE_DIR) = unat a + unat sz - 0x400000" "0x802000 \<le> unat a + unat sz"
    using assms(7) sum by (simp_all add: unat_sub_if' PAGE_DIR_def word_le_nat_alt)
  have fit: "blk_fits (kmalloc_size n) (a, sz, MEM_FREE)"
    using assms(5,6) pd by (simp add: blk_fits_def word_le_nat_alt PAGE_DIR_def)
  have same: "a = PAGE_DIR" if "sz = kmalloc_size n" using that assms(5) by simp
  have al: "\<exists>bs'. alloc (kmalloc_size n) bs = Some (PAGE_DIR, bs')"
    unfolding bs_def assms(3) alloc_at [OF assms(4) fit] using same by (auto simp: assms(5))
  obtain s1 where s1: "mem_malloc (kmalloc_size n) s = Some (Inr PAGE_DIR, s1)" "ram s1 = mc_ram c'"
    using mem_malloc_refines [OF s, of "kmalloc_size n"] al by (auto simp: s_def)
  define p where "p = s1\<lparr>ram := memset PAGE_DIR 0 (unat (kmalloc_size n)) (ram s1)\<rparr>"
  have "kmalloc n s = Some (Inr PAGE_DIR, p)" by (simp add: kmalloc_def s1 p_def)
  moreover have "4096 \<le> unat (kmalloc_size n)"
    using assms(5) pd by simp
  then have "mmu_translate (ram p) (mc_cr3 c') v = None" for v
    by (simp add: p_def c'(4) cleared_directory)
  moreover have "mmu_translate (mc_ram c') (mc_cr3 c') v = Some v" for v
    using c'(4,5) page_map_all_identity by auto
  ultimately show ?thesis using c'(1) by (auto simp: s_def)
qed

theorem page_tables_handed_out_witness:
  "\<exists>c p. init_setup demo_boot_env demo_machine = Some (Inr c) \<and>
     kmalloc 0x7bff000 ((mc_pool c)\<lparr>ram := mc_ram c\<rparr>) = Some (Inr PAGE_DIR, p) \<and>
     mmu_translate (mc_ram c) (mc_cr3 c) 0x100000 = Some 0x100000 \<and>
     mmu_translate (ram p) (mc_cr3 c) 0x100000 = None"
  using page_tables_handed_out [OF demo_machine_map(1), of "[]" "0x100000" "0x7f00000" "[]" "0x7bff000"]
  by (auto simp: demo_machine_map(2) NR_BLOCKS_def kmalloc_size_def PAGE_DIR_def)

end
