(* ===== verification/GrubLib.thy ===== *)
theory GrubLib
  imports CString Numerals Ctype
begin

text \<open>
  The C library of the boot loader (\<^verbatim>\<open>tools/grub-vbe-patch/stage2/char_io.c\<close>, stage 2 configuration): memory and string
  routines, numbers as text, formatted output. \<^verbatim>\<open>RAW_ADDR\<close> is the identity outside the simulator. The words on the
  stack above a format are a function of their index.
\<close>

section \<open>Errors\<close>

datatype grub_error = ERR_NONE | ERR_BAD_FILENAME | ERR_BAD_FILETYPE | ERR_BAD_GZIP_DATA | ERR_BAD_GZIP_HEADER
  | ERR_BAD_PART_TABLE | ERR_BAD_VERSION | ERR_BELOW_1MB | ERR_BOOT_COMMAND | ERR_BOOT_FAILURE | ERR_BOOT_FEATURES
  | ERR_DEV_FORMAT | ERR_DEV_VALUES | ERR_EXEC_FORMAT | ERR_FILELENGTH | ERR_FILE_NOT_FOUND | ERR_FSYS_CORRUPT
  | ERR_FSYS_MOUNT | ERR_GEOM | ERR_NEED_LX_KERNEL | ERR_NEED_MB_KERNEL | ERR_NO_DISK | ERR_NO_PART
  | ERR_NUMBER_PARSING | ERR_OUTSIDE_PART | ERR_READ | ERR_SYMLINK_LOOP | ERR_UNRECOGNIZED | ERR_WONT_FIT | ERR_WRITE
  | ERR_BAD_ARGUMENT | ERR_UNALIGNED | ERR_PRIVILEGED | ERR_DEV_NEED_INIT | ERR_NO_DISK_SPACE | ERR_NUMBER_OVERFLOW

definition MAXINT :: u32 where "MAXINT = 0x7FFFFFFF"

section \<open>Memory\<close>

text \<open>The memory, the error variable and the two sizes of \<^verbatim>\<open>mbi\<close> that bound what may be written.\<close>

record grub =
  gmem :: mem
  errnum :: grub_error
  mem_lower :: u32
  mem_upper :: u32

definition memcheck :: "u32 \<Rightarrow> u32 \<Rightarrow> grub \<Rightarrow> bool \<times> grub" where
  "memcheck addr len g =
     (let g = (if sint addr < 0x1000
                 \<or> sint addr < 0x100000 \<and> mem_lower g * 1024 < addr + len
                 \<or> 0x100000 \<le> sint addr \<and> mem_upper g * 1024 < (addr - 0x100000) + len
               then g\<lparr>errnum := ERR_WONT_FIT\<rparr> else g)
      in (errnum g = ERR_NONE, g))"

definition grub_memmove :: "u32 \<Rightarrow> u32 \<Rightarrow> u32 \<Rightarrow> grub \<Rightarrow> u32 \<times> grub" where
  "grub_memmove to frm len g =
     (let (ok, g) = memcheck to len g;
          g = (if ok
               then if to < frm then g\<lparr>gmem := copy_up to frm (unat len) (gmem g)\<rparr>
                    else g\<lparr>gmem := copy_down to frm (unat len) (gmem g)\<rparr>
               else g)
      in (if errnum g \<noteq> ERR_NONE then 0 else to, g))"

definition grub_memset :: "u32 \<Rightarrow> u32 \<Rightarrow> u32 \<Rightarrow> grub \<Rightarrow> u32 \<times> grub" where
  "grub_memset start c len g =
     (let (ok, g) = memcheck start len g;
          g = (if ok then g\<lparr>gmem := memset_loop start (ucast c) 0 (nat (sint len)) (gmem g)\<rparr> else g)
      in (if errnum g \<noteq> ERR_NONE then 0 else start, g))"

section \<open>Strings\<close>

definition grub_tolower :: "int \<Rightarrow> int" where
  "grub_tolower c = (if 65 \<le> c \<and> c \<le> 90 then c + (97 - 65) else c)"

definition grub_isspace :: "int \<Rightarrow> bool" where
  "grub_isspace c \<longleftrightarrow> c \<in> {32, 9, 13, 10}"

fun grub_memcmp :: "mem \<Rightarrow> u32 \<Rightarrow> u32 \<Rightarrow> nat \<Rightarrow> int" where
  "grub_memcmp m s1 s2 0 = 0"
| "grub_memcmp m s1 s2 (Suc n) =
     (if int_of_char (m s1) < int_of_char (m s2) then - 1
      else if int_of_char (m s1) > int_of_char (m s2) then 1
      else grub_memcmp m (s1 + 1) (s2 + 1) n)"

partial_function (option) grub_strcmp :: "mem \<Rightarrow> u32 \<Rightarrow> u32 \<Rightarrow> int option" where
  "grub_strcmp m s1 s2 =
     (if m s1 \<noteq> 0 \<or> m s2 \<noteq> 0
      then if int_of_char (m s1) < int_of_char (m s2) then Some (- 1)
           else if int_of_char (m s1) > int_of_char (m s2) then Some 1
           else grub_strcmp m (s1 + 1) (s2 + 1)
      else Some 0)"

partial_function (option) strlen_from :: "mem \<Rightarrow> u32 \<Rightarrow> u32 \<Rightarrow> u32 option" where
  "strlen_from m str len = (if m str \<noteq> 0 then strlen_from m (str + 1) (len + 1) else Some len)"

definition grub_strlen :: "mem \<Rightarrow> u32 \<Rightarrow> u32 option" where
  "grub_strlen m str = strlen_from m str 0"

definition grub_strcpy :: "u32 \<Rightarrow> u32 \<Rightarrow> grub \<Rightarrow> grub option" where
  "grub_strcpy dest src g = map_option (\<lambda>len. snd (grub_memmove dest src (len + 1) g)) (grub_strlen (gmem g) src)"

text \<open>The inner loop of \<^verbatim>\<open>grub_strstr\<close>: where the comparison with the needle stops.\<close>

partial_function (option) match_end :: "mem \<Rightarrow> u32 \<Rightarrow> u32 \<Rightarrow> u32 option" where
  "match_end m ptr tmp = (if m tmp \<noteq> 0 \<and> m ptr = m tmp then match_end m (ptr + 1) (tmp + 1) else Some tmp)"

partial_function (option) grub_strstr :: "mem \<Rightarrow> u32 \<Rightarrow> u32 \<Rightarrow> u32 option" where
  "grub_strstr m s1 s2 =
     (if m s1 \<noteq> 0
      then Option.bind (match_end m s1 s2) (\<lambda>tmp.
             if tmp > s2 \<and> m tmp = 0 then Some s1 else grub_strstr m (s1 + 1) s2)
      else Some 0)"

text \<open>\<open>0\<close> for equal strings, \<open>-1\<close> when the first is a proper prefix of the second, \<open>1\<close> otherwise.\<close>

partial_function (option) substring :: "mem \<Rightarrow> u32 \<Rightarrow> u32 \<Rightarrow> int option" where
  "substring m s1 s2 =
     (if m s1 = m s2
      then if m s1 = 0 then Some 0 else substring m (s1 + 1) (s2 + 1)
      else Some (if m s1 = 0 then - 1 else 1))"

partial_function (option) word_end :: "mem \<Rightarrow> u32 \<Rightarrow> u32 option" where
  "word_end m str =
     (if m str \<noteq> 0 \<and> \<not> grub_isspace (int_of_char (m str)) then word_end m (str + 1) else Some str)"

definition nul_terminate :: "u32 \<Rightarrow> mem \<Rightarrow> (int \<times> mem) option" where
  "nul_terminate str m = map_option (\<lambda>p. (int_of_char (m p), m(p := 0))) (word_end m str)"

text \<open>\<^verbatim>\<open>grub_strncat\<close>: the end of the first string within \<open>n\<close> bytes, the copying loop, and the verdict.\<close>

function strncat_end :: "mem \<Rightarrow> u32 \<Rightarrow> nat \<Rightarrow> nat \<Rightarrow> nat" where
  "strncat_end m s1 n i = (if i < n \<and> m (s1 + of_nat i) \<noteq> 0 then strncat_end m s1 n (Suc i) else i)"
  by auto
termination by (relation "measure (\<lambda>(m, s1, n, i). n - i)") auto

function strncat_copy :: "u32 \<Rightarrow> u32 \<Rightarrow> nat \<Rightarrow> nat \<Rightarrow> mem \<Rightarrow> nat \<times> mem" where
  "strncat_copy s1 s2 n i m =
     (if i < n
      then let c = m s2; m = m(s1 + of_nat i := c)
           in if c \<noteq> 0 then strncat_copy s1 (s2 + 1) n (Suc i) m else (Suc i, m)
      else (i, m))"
  by auto
termination by (relation "measure (\<lambda>(s1, s2, n, i, m). n - i)") auto

declare strncat_end.simps [simp del] strncat_copy.simps [simp del]

definition grub_strncat :: "u32 \<Rightarrow> u32 \<Rightarrow> nat \<Rightarrow> mem \<Rightarrow> bool \<times> mem" where
  "grub_strncat s1 s2 n m =
     (let (i, m) = strncat_copy s1 s2 n (strncat_end m s1 n 0) m;
          m = m(s1 + of_nat n - 1 := 0)
      in if i \<ge> n then (False, m) else (True, m(s1 + of_nat i := 0)))"

section \<open>Numbers\<close>

text \<open>The base of a conversion; \<^verbatim>\<open>do ... while (num /= mult)\<close>: the digits, the last one first.\<close>

definition conv_mult :: "u8 \<Rightarrow> u32" where
  "conv_mult c = (if c = 120 \<or> c = 88 then 16 else 10)"

lemma conv_mult_cases: "conv_mult c = 16 \<or> conv_mult c = 10"
  by (simp add: conv_mult_def)

function ascii_digits :: "u8 \<Rightarrow> u32 \<Rightarrow> u8 list" where
  "ascii_digits c num =
     (let mult = conv_mult c; dig = num mod mult;
          d = (if sint dig > 9 then ucast (dig + 97 - 10) else ucast (48 + dig))
      in if num div mult \<noteq> 0 then d # ascii_digits c (num div mult) else [d])"
  by auto
termination
proof (relation "measure (\<lambda>(c, num). unat num)")
  fix c num mult x and xa :: u8
  assume mult: "mult = conv_mult c" and a: "num div mult \<noteq> 0"
  then have "0 < unat num" by (auto simp: unat_gt_0)
  moreover have "unat mult = 16 \<or> unat mult = 10" using mult conv_mult_cases [of c] by auto
  ultimately show "((c, num div mult), c, num) \<in> measure (\<lambda>(c, num). unat num)" by (auto simp: unat_div)
qed simp

declare ascii_digits.simps [simp del]

text \<open>\<^verbatim>\<open>while (ptr1 > ptr2)\<close>: the characters change places.\<close>

function swap_ends :: "nat \<Rightarrow> nat \<Rightarrow> u8 list \<Rightarrow> u8 list" where
  "swap_ends p1 p2 buf = (if p2 < p1 then swap_ends (p1 - 1) (p2 + 1) (buf[p1 := buf ! p2, p2 := buf ! p1]) else buf)"
  by auto
termination by (relation "measure (\<lambda>(p1, p2, buf). p1 - p2)") auto

declare swap_ends.simps [simp del]

definition convert_to_ascii :: "u8 \<Rightarrow> u32 \<Rightarrow> u8 list" where
  "convert_to_ascii c num =
     (let neg = num AND 0x80000000 \<noteq> 0 \<and> c = 100;
          num = (if neg then NOT num + 1 else num);
          ds = ascii_digits c num
      in (if neg then [45] else []) @ swap_ends (length ds - 1) 0 ds)"

text \<open>
  \<^verbatim>\<open>safe_parse_maxint\<close>: the error, or where parsing stopped and the value. Arithmetic is unsigned as the types of
  \<^verbatim>\<open>digit\<close> make it.
\<close>

definition parse_digit :: "mem \<Rightarrow> u32 \<Rightarrow> u32 \<Rightarrow> u32 option" where
  "parse_digit m mult ptr =
     (let digit = word_of_int (grub_tolower (int_of_char (m ptr))) - 48
      in if digit > 9
         then let digit = digit - (97 - 48) in if mult = 10 \<or> digit > 5 then None else Some (digit + 10)
         else Some digit)"

partial_function (option) parse_loop ::
  "mem \<Rightarrow> u32 \<Rightarrow> u32 \<Rightarrow> u32 \<Rightarrow> bool \<Rightarrow> (grub_error + u32 \<times> u32) option" where
  "parse_loop m mult ptr myint found =
     (case parse_digit m mult ptr of
        None \<Rightarrow> Some (if found then Inr (ptr, myint) else Inl ERR_NUMBER_PARSING)
      | Some digit \<Rightarrow>
          if myint > (MAXINT - digit) div mult then Some (Inl ERR_NUMBER_OVERFLOW)
          else parse_loop m mult (ptr + 1) (myint * mult + digit) True)"

definition safe_parse_maxint :: "mem \<Rightarrow> u32 \<Rightarrow> (grub_error + u32 \<times> u32) option" where
  "safe_parse_maxint m ptr =
     (if m ptr = 48 \<and> grub_tolower (int_of_char (m (ptr + 1))) = 120
      then parse_loop m 16 (ptr + 2) 0 False else parse_loop m 10 ptr 0 False)"

section \<open>Formatted output\<close>

text \<open>The characters of a string, as \<^verbatim>\<open>grub_putstr\<close> puts them.\<close>

partial_function (option) str_chars :: "mem \<Rightarrow> u32 \<Rightarrow> u8 list option" where
  "str_chars m s = (if m s \<noteq> 0 then Option.bind (str_chars m (s + 1)) (\<lambda>cs. Some (m s # cs)) else Some [])"

text \<open>
  The characters \<^verbatim>\<open>grub_printf\<close> puts. A directive at the end of the format makes the loop go on behind the
  terminator.
\<close>

partial_function (option) printf_chars :: "mem \<Rightarrow> (nat \<Rightarrow> u32) \<Rightarrow> nat \<Rightarrow> u32 \<Rightarrow> u8 list option" where
  "printf_chars m args k fmt =
     (if m fmt = 0 then Some []
      else if m fmt \<noteq> 37 then Option.bind (printf_chars m args k (fmt + 1)) (\<lambda>cs. Some (m fmt # cs))
      else let c = m (fmt + 1) in
        if c = 100 \<or> c = 120 \<or> c = 88 \<or> c = 117
        then Option.bind (printf_chars m args (k + 1) (fmt + 2)) (\<lambda>cs. Some (convert_to_ascii c (args k) @ cs))
        else if c = 99 then Option.bind (printf_chars m args (k + 1) (fmt + 2)) (\<lambda>cs. Some (ucast (args k AND 0xff) # cs))
        else if c = 115
        then Option.bind (str_chars m (args k)) (\<lambda>s.
               Option.bind (printf_chars m args (k + 1) (fmt + 2)) (\<lambda>cs. Some (s @ cs)))
        else printf_chars m args k (fmt + 2))"

text \<open>\<^verbatim>\<open>grub_sprintf\<close>: the copy of a string argument, the loop, and the result with the terminator.\<close>

partial_function (option) copy_chars :: "u32 \<Rightarrow> u32 \<Rightarrow> mem \<Rightarrow> (u32 \<times> mem) option" where
  "copy_chars ptr bp m = (if m ptr \<noteq> 0 then copy_chars (ptr + 1) (bp + 1) (m(bp := m ptr)) else Some (bp, m))"

partial_function (option) sprintf_loop :: "(nat \<Rightarrow> u32) \<Rightarrow> nat \<Rightarrow> u32 \<Rightarrow> u32 \<Rightarrow> mem \<Rightarrow> (u32 \<times> mem) option" where
  "sprintf_loop args k fmt bp m =
     (if m fmt = 0 then Some (bp, m)
      else if m fmt \<noteq> 37 then sprintf_loop args k (fmt + 1) (bp + 1) (m(bp := m fmt))
      else let c = m (fmt + 1) in
        if c = 100 \<or> c = 117 \<or> c = 120
        then let str = convert_to_ascii c (args k)
             in sprintf_loop args (k + 1) (fmt + 2) (bp + of_nat (length str)) (put_bytes bp str m)
        else if c = 99 then sprintf_loop args (k + 1) (fmt + 2) (bp + 1) (m(bp := ucast (args k AND 0xff)))
        else if c = 115
        then Option.bind (copy_chars (args k) bp m) (\<lambda>(bp, m). sprintf_loop args (k + 1) (fmt + 2) bp m)
        else sprintf_loop args k (fmt + 2) bp m)"

definition grub_sprintf :: "u32 \<Rightarrow> u32 \<Rightarrow> (nat \<Rightarrow> u32) \<Rightarrow> mem \<Rightarrow> (u32 \<times> mem) option" where
  "grub_sprintf buffer fmt args m =
     map_option (\<lambda>(bp, m). (bp - buffer, m(bp := 0))) (sprintf_loop args 0 fmt buffer m)"

section \<open>Numbers and their text\<close>

lemma swap_ends_nth:
  assumes "p1 < length buf"
  shows "length (swap_ends p1 p2 buf) = length buf \<and>
    (\<forall>k<length buf. swap_ends p1 p2 buf ! k = (if p2 \<le> k \<and> k \<le> p1 then buf ! (p1 + p2 - k) else buf ! k))"
  using assms
proof (induction p1 p2 buf rule: swap_ends.induct)
  case (1 p1 p2 buf)
  show ?case
  proof (cases "p2 < p1")
    case True
    then have i: "p1 - 1 + (p2 + 1) = p1 + p2" by simp
    let ?b = "buf[p1 := buf ! p2, p2 := buf ! p1]"
    have l: "length (swap_ends p1 p2 buf) = length buf" and
      n: "k < length buf \<Longrightarrow> swap_ends p1 p2 buf ! k
        = (if p2 + 1 \<le> k \<and> k \<le> p1 - 1 then ?b ! (p1 + p2 - k) else ?b ! k)" for k
      using 1 True i by (simp_all add: swap_ends.simps [of p1 p2])
    have "swap_ends p1 p2 buf ! k = (if p2 \<le> k \<and> k \<le> p1 then buf ! (p1 + p2 - k) else buf ! k)"
      if "k < length buf" for k
      using n [OF that] True "1.prems" that by (auto simp: nth_list_update)
    with l show ?thesis by blast
  next
    case False
    then have "p1 + p2 - k = k" if "p2 \<le> k" "k \<le> p1" for k using that by simp
    with False show ?thesis by (simp add: swap_ends.simps [of p1 p2])
  qed
qed

lemma swap_ends_rev: "xs \<noteq> [] \<Longrightarrow> swap_ends (length xs - 1) 0 xs = rev xs"
  using swap_ends_nth [of "length xs - 1" xs 0] by (intro nth_equalityI) (auto simp: rev_nth)

lemma less_16_cases: "i < 16 \<Longrightarrow> i \<in> {0::nat, 1, 2, 3, 4, 5, 6, 7, 8, 9, 10, 11, 12, 13, 14, 15}"
  by (simp only: insert_iff empty_iff) presburger

lemma ascii_digit:
  "r < 16 \<Longrightarrow>
   (if sint (of_nat r :: u32) > 9 then ucast (of_nat r + 97 - 10 :: u32) else ucast (48 + of_nat r :: u32)) = digit_byte r"
  by (drule less_16_cases) (auto simp: digit_byte_def)

lemma ascii_digits_text:
  "ascii_digits c num = rev (num_text (unat (conv_mult c)) (unat num))"
proof (induction c num rule: ascii_digits.induct)
  case (1 c num)
  let ?b = "unat (conv_mult c)"
  have b: "?b = 16 \<or> ?b = 10" using conv_mult_cases [of c] by auto
  have "num mod conv_mult c = of_nat (unat num mod ?b)" by (simp flip: unat_mod)
  moreover have "unat num mod ?b < 16" using b by auto
  ultimately have d: "(if sint (num mod conv_mult c) > 9 then ucast (num mod conv_mult c + 97 - 10)
      else ucast (48 + num mod conv_mult c)) = digit_byte (unat num mod ?b)"
    using ascii_digit by (simp only: )
  have z: "num div conv_mult c \<noteq> 0 \<longleftrightarrow> ?b \<le> unat num"
    using b by (auto simp: unat_div word_unat_eq_iff div_eq_0_iff not_less)
  show ?case
    unfolding ascii_digits.simps [of c num] Let_def d z using 1 b z
    by (auto simp: num_text.simps [of ?b "unat num"] unat_div)
qed

lemma conv_mult_simps [simp]: "unat (conv_mult 120) = 16" "unat (conv_mult 88) = 16"
  "c \<noteq> 120 \<Longrightarrow> c \<noteq> 88 \<Longrightarrow> unat (conv_mult c) = 10"
  by (simp_all add: conv_mult_def)

text \<open>The text of a value under a conversion character.\<close>

definition num_conv :: "u8 \<Rightarrow> u32 \<Rightarrow> u8 list" where
  "num_conv c v =
     (if c = 100 \<and> sint v < 0 then 45 # num_text 10 (nat (- sint v))
      else num_text (if c = 120 \<or> c = 88 then 16 else 10) (unat v))"

lemma sign_bit: "v AND 0x80000000 \<noteq> 0 \<longleftrightarrow> sint (v :: u32) < 0"
  using and_exp_eq_0_iff_not_bit [of v 31] bit_last_iff [of v] by simp

lemma convert_to_ascii_text: "convert_to_ascii c v = num_conv c v"
proof -
  have ne: "ascii_digits c num \<noteq> []" for num by (simp add: ascii_digits_text)
  have digits: "swap_ends (length (ascii_digits c num) - 1) 0 (ascii_digits c num)
      = num_text (if c = 120 \<or> c = 88 then 16 else 10) (unat num)" for num
    by (simp only: swap_ends_rev [OF ne]) (simp add: ascii_digits_text conv_mult_def)
  have "sint v < 0 \<Longrightarrow> unat (NOT v + 1) = nat (- sint v)"
    using unat_neg_sint [of v] by (simp add: minus_eq_not_plus_1)
  then show ?thesis
    unfolding convert_to_ascii_def Let_def digits sign_bit num_conv_def by auto
qed

section \<open>Parsing numbers\<close>

text \<open>The digit a character stands for in base 10 or 16.\<close>

definition char_digit :: "u32 \<Rightarrow> u8 \<Rightarrow> nat option" where
  "char_digit mult c =
     (if 48 \<le> unat c \<and> unat c \<le> 57 then Some (unat c - 48)
      else if mult = 16 \<and> 97 \<le> unat c \<and> unat c \<le> 102 then Some (unat c - 87)
      else if mult = 16 \<and> 65 \<le> unat c \<and> unat c \<le> 70 then Some (unat c - 55)
      else None)"

lemma small_word_greater:
  assumes "\<bar>z\<bar> < 2147483648" and "0 \<le> n" and "n < 2147483648"
  shows "(word_of_int z :: u32) > word_of_int n \<longleftrightarrow> z < 0 \<or> n < z"
proof -
  have "uint (word_of_int z :: u32) = (if z < 0 then z + 4294967296 else z)"
  proof (cases "z < 0")
    case True
    have "z mod 4294967296 = (z + 4294967296) mod 4294967296" by simp
    also have "\<dots> = z + 4294967296" using True assms(1) by (intro mod_pos_pos_trivial) auto
    finally show ?thesis using True by (simp add: uint_word_of_int)
  next
    case False
    then show ?thesis using assms(1) by (simp add: uint_word_of_int)
  qed
  moreover have "uint (word_of_int n :: u32) = n" using assms(2,3) by (simp add: uint_word_of_int)
  ultimately show ?thesis using assms by (auto simp: word_less_def)
qed

lemma parse_digit_char:
  assumes "mult = 10 \<or> mult = 16"
  shows "parse_digit m mult ptr = map_option of_nat (char_digit mult (m ptr))"
proof -
  define k where "k = int_of_char (m ptr)"
  define z where "z = grub_tolower k - 48"
  have u: "uint (m ptr) < 256" "0 \<le> uint (m ptr)" using unsigned_less [of "m ptr"] by simp_all
  have k: "k = (if uint (m ptr) < 128 then uint (m ptr) else uint (m ptr) - 256)" by (simp add: k_def int_of_char_uint)
  then have z: "- 300 < z \<and> z < 300" using u
    by (auto simp: z_def grub_tolower_def; use uint_ge_0 [of "m ptr"] in linarith)
  have d: "word_of_int (grub_tolower k) - 48 = (word_of_int z :: u32)" by (simp add: z_def)
  have gt: "(word_of_int z :: u32) > 9 \<longleftrightarrow> z < 0 \<or> 9 < z" 
    using small_word_greater [of z 9] abs_less_iff [of z 2147483648] z by simp
  have "(word_of_int z - 49 :: u32) = word_of_int (z - 49)" by simp
  then have gt': "(5 :: u32) < word_of_int z - 49 \<longleftrightarrow> z < 49 \<or> 54 < z"
    using small_word_greater [of "z - 49" 5] abs_less_iff [of "z - 49" 2147483648] z by (simp del: word_of_int_minus)
  have "parse_digit m mult ptr = (if z < 0 \<or> 9 < z
      then if mult = 10 \<or> z - 49 < 0 \<or> 5 < z - 49 then None else Some (word_of_int (z - 49 + 10))
      else Some (word_of_int z))"
    by (simp add: parse_digit_def Let_def d gt gt' flip: k_def)
  also have "\<dots> = map_option of_nat (char_digit mult (m ptr))"
  proof -
    define n where "n = unat (m ptr)"
    have e: "uint (m ptr) = int n" by (simp add: n_def)
    have kn: "k = (if n < 128 then int n else int n - 256)"
      using k unfolding e by simp
    have n: "n < 256" using unsigned_less [of "m ptr"] by (simp add: n_def)
    have w: "b \<le> n \<Longrightarrow> (of_nat (n - b) :: u32) = word_of_int (int n - int b)" for b
      by (metis of_int_of_nat_eq of_nat_diff)
    consider "n < 48" | "48 \<le> n" "n \<le> 57" | "58 \<le> n" "n \<le> 64" | "65 \<le> n" "n \<le> 70" | "71 \<le> n" "n \<le> 90"
      | "91 \<le> n" "n \<le> 96" | "97 \<le> n" "n \<le> 102" | "103 \<le> n" "n < 128" | "128 \<le> n" by linarith
    then show ?thesis
      using assms n by cases
        (auto simp: char_digit_def z_def grub_tolower_def kn w simp flip: n_def)
  qed
  finally show ?thesis .
qed

text \<open>The bytes \<open>cs\<close> stand at \<open>p\<close>; the value of a digit sequence that continues a number \<open>v\<close>.\<close>

primrec text_at :: "mem \<Rightarrow> u32 \<Rightarrow> u8 list \<Rightarrow> bool" where
  "text_at m p [] \<longleftrightarrow> True"
| "text_at m p (c # cs) \<longleftrightarrow> m p = c \<and> text_at m (p + 1) cs"

primrec chars_val :: "u32 \<Rightarrow> nat \<Rightarrow> u8 list \<Rightarrow> nat" where
  "chars_val mult v [] = v"
| "chars_val mult v (c # cs) = chars_val mult (v * unat mult + the (char_digit mult c)) cs"

lemma chars_val_mono: "0 < unat mult \<Longrightarrow> v \<le> chars_val mult v cs"
proof (induction cs arbitrary: v)
  case (Cons c cs)
  have "v \<le> v * unat mult + the (char_digit mult c)" using Cons.prems by (simp add: trans_le_add1)
  with Cons.IH [OF Cons.prems] show ?case by (simp add: le_trans)
qed simp

lemma char_digit_bound: "char_digit mult c = Some d \<Longrightarrow> d < 16"
  by (auto simp: char_digit_def split: if_splits)

lemma parse_bound:
  assumes "unat mult = 10 \<or> unat mult = 16" and "v < 2 ^ 31" and "d < 16"
  shows "of_nat v > (MAXINT - of_nat d) div mult \<longleftrightarrow> 2147483647 < v * unat mult + d"
proof -
  have "unat (MAXINT - of_nat d) = 2147483647 - d"
    using assms(3) by (simp add: MAXINT_def unat_sub_if' unat_of_nat)
  then have "unat ((MAXINT - of_nat d) div mult) = (2147483647 - d) div unat mult" by (simp add: unat_div)
  then have "of_nat v > (MAXINT - of_nat d) div mult \<longleftrightarrow> (2147483647 - d) div unat mult < v"
    using assms(2) by (simp add: word_less_nat_alt unat_of_nat)
  also have "\<dots> \<longleftrightarrow> 2147483647 - d < v * unat mult" using assms(1) by (intro div_less_iff_less_mult) auto
  also have "\<dots> \<longleftrightarrow> 2147483647 < v * unat mult + d" using assms(3) by linarith
  finally show ?thesis .
qed

lemma parse_loop_text:
  assumes "mult = 10 \<or> mult = 16"
  shows "text_at m ptr cs \<Longrightarrow> \<forall>c\<in>set cs. char_digit mult c \<noteq> None \<Longrightarrow>
    char_digit mult (m (ptr + of_nat (length cs))) = None \<Longrightarrow> v < 2 ^ 31 \<Longrightarrow>
    parse_loop m mult ptr (of_nat v) found =
      Some (if 2147483647 < chars_val mult v cs then Inl ERR_NUMBER_OVERFLOW
            else if cs = [] \<and> \<not> found then Inl ERR_NUMBER_PARSING
            else Inr (ptr + of_nat (length cs), of_nat (chars_val mult v cs)))"
proof (induction cs arbitrary: ptr v found)
  case Nil
  then show ?case by (simp add: parse_loop.simps [of m mult ptr] parse_digit_char [OF assms])
next
  case (Cons c cs)
  have mult: "unat mult = 10 \<or> unat mult = 16" using assms by auto
  obtain d where d: "char_digit mult c = Some d" using Cons.prems(2) by auto
  have dig: "parse_digit m mult ptr = Some (of_nat d)"
    using Cons.prems(1) d by (simp add: parse_digit_char [OF assms])
  let ?w = "v * unat mult + d"
  note bound = parse_bound [OF mult Cons.prems(4) char_digit_bound [OF d]]
  show ?case
  proof (cases "2147483647 < ?w")
    case True
    then have "2147483647 < chars_val mult v (c # cs)"
      using chars_val_mono [of mult ?w cs] mult d by (auto intro: less_le_trans)
    with True show ?thesis by (simp add: parse_loop.simps [of m mult ptr] dig bound)
  next
    case False
    then have "parse_loop m mult ptr (of_nat v) found = parse_loop m mult (ptr + 1) (of_nat ?w) True"
      by (subst parse_loop.simps) (simp add: dig bound)
    also have "\<dots> = Some (if 2147483647 < chars_val mult ?w cs then Inl ERR_NUMBER_OVERFLOW
        else if cs = [] \<and> \<not> True then Inl ERR_NUMBER_PARSING
        else Inr (ptr + 1 + of_nat (length cs), of_nat (chars_val mult ?w cs)))"
      by (rule Cons.IH) (use Cons.prems False in \<open>simp_all add: add.assoc\<close>)
    finally show ?thesis using d by (simp add: add.assoc)
  qed
qed

text \<open>The text of a number has its value.\<close>

lemma chars_val_snoc: "chars_val mult v (cs @ [c]) = chars_val mult v cs * unat mult + the (char_digit mult c)"
  by (induction cs arbitrary: v) simp_all

lemma char_digit_digit_byte:
  assumes "mult = 10 \<or> mult = 16" and "r < unat mult"
  shows "char_digit mult (digit_byte r) = Some r"
  using assms by (auto simp: char_digit_def unat_digit_byte split: if_splits)

lemma num_text_digits:
  assumes "mult = 10 \<or> mult = 16"
  shows "chars_val mult 0 (num_text (unat mult) n) = n \<and> (\<forall>c\<in>set (num_text (unat mult) n). char_digit mult c \<noteq> None)"
proof (induction n rule: less_induct)
  case (less n)
  have r: "n mod unat mult < unat mult" "1 < unat mult" using assms by auto
  note d = char_digit_digit_byte [OF assms r(1)]
  show ?case
  proof (cases "unat mult \<le> n")
    case True
    then have "n div unat mult < n" using r(2) by (intro div_less_dividend) auto
    from less [OF this] True r(2) d show ?thesis by (subst (1 2) num_text.simps) (auto simp: chars_val_snoc)
  next
    case False
    with d show ?thesis by (simp add: num_text.simps [of _ n])
  qed
qed

section \<open>Formats as lists of directives\<close>

datatype gdir = Plain u8 | Conv u8 u32 | Char1 u32 | Text u32 "u8 list"

primrec dir_fmt :: "gdir \<Rightarrow> u8 list" where
  "dir_fmt (Plain c) = [c]"
| "dir_fmt (Conv c v) = [37, c]"
| "dir_fmt (Char1 v) = [37, 99]"
| "dir_fmt (Text p s) = [37, 115]"

primrec dir_out :: "gdir \<Rightarrow> u8 list" where
  "dir_out (Plain c) = [c]"
| "dir_out (Conv c v) = num_conv c v"
| "dir_out (Char1 v) = [ucast v]"
| "dir_out (Text p s) = s"

primrec dir_arg :: "gdir \<Rightarrow> u32 option" where
  "dir_arg (Plain c) = None"
| "dir_arg (Conv c v) = Some v"
| "dir_arg (Char1 v) = Some v"
| "dir_arg (Text p s) = Some p"

primrec dir_ok :: "mem \<Rightarrow> gdir \<Rightarrow> bool" where
  "dir_ok m (Plain c) \<longleftrightarrow> c \<noteq> 0 \<and> c \<noteq> 37"
| "dir_ok m (Conv c v) \<longleftrightarrow> c = 100 \<or> c = 117 \<or> c = 120"
| "dir_ok m (Char1 v) \<longleftrightarrow> True"
| "dir_ok m (Text p s) \<longleftrightarrow> cstr m p s"

primrec dir_reads :: "gdir \<Rightarrow> u32 set" where
  "dir_reads (Plain c) = {}"
| "dir_reads (Conv c v) = {}"
| "dir_reads (Char1 v) = {}"
| "dir_reads (Text p s) = region p (Suc (length s))"

primrec args_match :: "(nat \<Rightarrow> u32) \<Rightarrow> nat \<Rightarrow> gdir list \<Rightarrow> bool" where
  "args_match args k [] \<longleftrightarrow> True"
| "args_match args k (d # ds) \<longleftrightarrow>
     (case dir_arg d of None \<Rightarrow> args_match args k ds | Some v \<Rightarrow> args k = v \<and> args_match args (k + 1) ds)"

definition dirs_fmt :: "gdir list \<Rightarrow> u8 list" where "dirs_fmt ds = concat (map dir_fmt ds)"
definition dirs_out :: "gdir list \<Rightarrow> u8 list" where "dirs_out ds = concat (map dir_out ds)"

lemma dirs_simps [simp]: "dirs_fmt [] = []" "dirs_fmt (d # ds) = dir_fmt d @ dirs_fmt ds"
  "dirs_out [] = []" "dirs_out (d # ds) = dir_out d @ dirs_out ds"
  by (simp_all add: dirs_fmt_def dirs_out_def)

lemma ucast_low_byte: "(ucast ((v :: u32) AND 0xff) :: u8) = ucast v"
proof -
  have m: "(0xff :: u32) = mask 8" by (simp add: mask_eq_exp_minus_1)
  show ?thesis unfolding m
    by (rule bit_word_eqI) (simp add: bit_and_iff bit_mask_iff bit_unsigned_iff del: mask_numeral)
qed

lemma str_chars_cstr: "cstr m p s \<Longrightarrow> str_chars m p = Some s"
  by (induction s arbitrary: p) (simp_all add: str_chars.simps)

lemma printf_dirs:
  "\<forall>d\<in>set ds. dir_ok m d \<Longrightarrow> args_match args k ds \<Longrightarrow> cstr m fmt (dirs_fmt ds) \<Longrightarrow>
   printf_chars m args k fmt = Some (dirs_out ds)"
proof (induction ds arbitrary: k fmt)
  case Nil
  then show ?case by (simp add: printf_chars.simps)
next
  case (Cons d ds)
  then show ?case
    by (cases d) (auto simp: printf_chars.simps [of m args k fmt] convert_to_ascii_text ucast_low_byte str_chars_cstr add.assoc)
qed

lemma copy_chars_bytes:
  "cstr m p s \<Longrightarrow> region bp (length s) \<inter> region p (Suc (length s)) = {} \<Longrightarrow>
   copy_chars p bp m = Some (bp + of_nat (length s), put_bytes bp s m)"
proof (induction s arbitrary: p bp m)
  case (Cons c s)
  have "cstr (m(bp := c)) (p + 1) s"
    using Cons.prems by (subst cstr_cong [where m' = m]) (auto simp: region_Suc)
  moreover have "region (bp + 1) (length s) \<inter> region (p + 1) (Suc (length s)) = {}"
    using Cons.prems(2) by (auto simp: region_Suc)
  ultimately have "copy_chars (p + 1) (bp + 1) (m(bp := c))
      = Some (bp + 1 + of_nat (length s), put_bytes (bp + 1) s (m(bp := c)))"
    by (rule Cons.IH)
  with Cons.prems(1) show ?case by (simp add: copy_chars.simps [of p bp m] add.assoc)
qed (simp add: copy_chars.simps)

lemma cstr_put_bytes:
  "region bp (length out) \<inter> region p (Suc (length s)) = {} \<Longrightarrow> cstr (put_bytes bp out m) p s = cstr m p s"
  by (rule cstr_cong) (auto intro: put_bytes_outside)

lemma dir_ok_put_bytes:
  "region bp (length out) \<inter> dir_reads d = {} \<Longrightarrow> dir_ok (put_bytes bp out m) d = dir_ok m d"
  by (cases d) (auto simp: cstr_put_bytes)

text \<open>One directive: its text is written, and the loop goes on behind it with the next argument.\<close>

lemma sprintf_dir:
  assumes "dir_ok m d" and "args_match args k (d # ds)" and "cstr m fmt (dirs_fmt (d # ds))"
    and "region bp (length (dir_out d)) \<inter> dir_reads d = {}"
  shows "sprintf_loop args k fmt bp m =
    sprintf_loop args (if dir_arg d = None then k else k + 1) (fmt + of_nat (length (dir_fmt d)))
      (bp + of_nat (length (dir_out d))) (put_bytes bp (dir_out d) m)"
  using assms
  by (cases d) (auto simp: sprintf_loop.simps [of args k fmt bp m] convert_to_ascii_text ucast_low_byte
      copy_chars_bytes add.assoc Let_def)

lemma sprintf_dirs:
  assumes "\<forall>d\<in>set ds. dir_ok m d" and "args_match args k ds" and "cstr m fmt (dirs_fmt ds)"
    and "region bp (length (dirs_out ds)) \<inter> (region fmt (Suc (length (dirs_fmt ds))) \<union> (\<Union>d\<in>set ds. dir_reads d)) = {}"
  shows "sprintf_loop args k fmt bp m = Some (bp + of_nat (length (dirs_out ds)), put_bytes bp (dirs_out ds) m)"
  using assms
proof (induction ds arbitrary: k fmt bp m)
  case Nil
  then show ?case by (simp add: sprintf_loop.simps)
next
  case (Cons d ds)
  let ?out = "dir_out d" let ?m = "put_bytes bp (dir_out d) m"
  have out: "region bp (length ?out) \<subseteq> region bp (length (dirs_out (d # ds)))" by (rule region_mono) simp
  have rest: "region (bp + of_nat (length ?out)) (length (dirs_out ds)) \<subseteq> region bp (length (dirs_out (d # ds)))"
    using region_shift [of bp "length ?out" "length (dirs_out ds)"] by simp
  have fmt: "region (fmt + of_nat (length (dir_fmt d))) (Suc (length (dirs_fmt ds)))
      \<subseteq> region fmt (Suc (length (dirs_fmt (d # ds))))"
    using region_shift [of fmt "length (dir_fmt d)" "Suc (length (dirs_fmt ds))"] by simp
  have c: "cstr m (fmt + of_nat (length (dir_fmt d))) (dirs_fmt ds)"
    using cstr_drop [OF Cons.prems(3), of "length (dir_fmt d)"] by simp
  have "sprintf_loop args k fmt bp m = sprintf_loop args (if dir_arg d = None then k else k + 1)
      (fmt + of_nat (length (dir_fmt d))) (bp + of_nat (length ?out)) ?m"
    using Cons.prems out by (intro sprintf_dir [where ds = ds]) auto
  also have "\<dots> = Some (bp + of_nat (length ?out) + of_nat (length (dirs_out ds)), put_bytes (bp + of_nat (length ?out)) (dirs_out ds) ?m)"
  proof (rule Cons.IH)
    show "\<forall>d'\<in>set ds. dir_ok ?m d'"
    proof
      fix d' assume d': "d' \<in> set ds"
      then have "region bp (length ?out) \<inter> dir_reads d' = {}" using Cons.prems(4) out by auto
      then show "dir_ok ?m d'" using Cons.prems(1) d' by (simp add: dir_ok_put_bytes)
    qed
    show "args_match args (if dir_arg d = None then k else k + 1) ds"
      using Cons.prems(2) by (auto split: option.splits)
    show "cstr ?m (fmt + of_nat (length (dir_fmt d))) (dirs_fmt ds)"
      using c fmt out Cons.prems(4) by (subst cstr_put_bytes) auto
    show "region (bp + of_nat (length ?out)) (length (dirs_out ds)) \<inter>
        (region (fmt + of_nat (length (dir_fmt d))) (Suc (length (dirs_fmt ds))) \<union> (\<Union>d\<in>set ds. dir_reads d)) = {}"
      using Cons.prems(4) rest fmt by auto
  qed
  finally show ?case by (simp add: put_bytes_append add.assoc)
qed

section \<open>Properties\<close>

text \<open>
  Property C36. Formatted output of the boot loader: for a format of plain characters and the directives for numbers,
  characters and strings, \<^verbatim>\<open>grub_sprintf\<close> returns, writes exactly the text the directives describe with a terminator,
  changes nothing else and gives its length; \<^verbatim>\<open>grub_printf\<close> puts the same text.
\<close>

theorem grub_sprintf_correct:
  assumes "\<forall>d\<in>set ds. dir_ok m d" and "args_match args 0 ds" and "cstr m fmt (dirs_fmt ds)"
    and "region buffer (length (dirs_out ds)) \<inter>
      (region fmt (Suc (length (dirs_fmt ds))) \<union> (\<Union>d\<in>set ds. dir_reads d)) = {}"
  shows "grub_sprintf buffer fmt args m =
      Some (of_nat (length (dirs_out ds)), put_bytes buffer (dirs_out ds @ [0]) m) \<and>
    printf_chars m args 0 fmt = Some (dirs_out ds)"
  using sprintf_dirs [OF assms] printf_dirs [OF assms(1-3)] by (simp add: grub_sprintf_def put_bytes_append)

definition demo_format :: mem where
  "demo_format = put_bytes 100 (bytes ''%d=%x%s'' @ [0]) (put_bytes 200 (bytes ''!'' @ [0]) (\<lambda>_. 0))"

theorem grub_sprintf_correct_witness:
  "grub_sprintf 300 100 (\<lambda>k. if k = 0 then - 7 else if k = 1 then 255 else 200) demo_format =
     Some (6, put_bytes 300 (bytes ''-7=ff!'' @ [0]) demo_format)"
proof -
  define ds where "ds = [Conv 100 (- 7), Plain 61, Conv 120 255, Text 200 [33]]"
  have t: "dirs_out ds = bytes ''-7=ff!''"
    by (simp add: ds_def num_conv_def num_text.simps digit_byte_def)
  have f: "dirs_fmt ds = bytes ''%d=%x%s''" by (simp add: ds_def)
  have ok: "\<forall>d\<in>set ds. dir_ok demo_format d" by (simp add: ds_def demo_format_def)
  have a: "args_match (\<lambda>k. if k = 0 then - 7 else if k = 1 then 255 else 200) 0 ds" by (simp add: ds_def)
  have c: "cstr demo_format 100 (dirs_fmt ds)" by (simp add: f demo_format_def)
  have "(\<Union>d\<in>set ds. dir_reads d) = {200, 201}" by (simp add: ds_def region_Suc insert_commute)
  then have d: "region 300 (length (dirs_out ds)) \<inter>
      (region 100 (Suc (length (dirs_fmt ds))) \<union> (\<Union>d\<in>set ds. dir_reads d)) = {}"
    by (simp add: t f region_Suc)
  have "grub_sprintf 300 100 (\<lambda>k. if k = 0 then - 7 else if k = 1 then 255 else 200) demo_format =
      Some (of_nat (length (dirs_out ds)), put_bytes 300 (dirs_out ds @ [0]) demo_format)"
    by (rule grub_sprintf_correct [OF ok a c d, THEN conjunct1])
  then show ?thesis by (simp add: t)
qed

text \<open>
  Property C37. Parsing a number: over a sequence of digits in base 10, or in base 16 after \<open>0x\<close>,
  \<^verbatim>\<open>safe_parse_maxint\<close> returns, stops after the digits with their exact value when that fits an \<^verbatim>\<open>int\<close>, reports
  an overflow otherwise and an error when there is no digit; and it reads back every number that the output routines
  print.
\<close>

theorem safe_parse_maxint_correct:
  assumes "hex \<Longrightarrow> m ptr = 48 \<and> (m (ptr + 1) = 120 \<or> m (ptr + 1) = 88)"
    and "\<not> hex \<Longrightarrow> \<not> (m ptr = 48 \<and> (m (ptr + 1) = 120 \<or> m (ptr + 1) = 88))"
    and "base = (if hex then 16 else 10)" and "start = (if hex then ptr + 2 else ptr)"
    and "text_at m start cs" and "\<forall>c\<in>set cs. char_digit base c \<noteq> None"
    and "char_digit base (m (start + of_nat (length cs))) = None"
  shows "safe_parse_maxint m ptr =
      Some (if cs = [] then Inl ERR_NUMBER_PARSING
            else if 2147483647 < chars_val base 0 cs then Inl ERR_NUMBER_OVERFLOW
            else Inr (start + of_nat (length cs), of_nat (chars_val base 0 cs))) \<and>
    (cs = num_text (unat base) n \<longrightarrow> chars_val base 0 cs = n)"
proof -
  have low: "grub_tolower (int_of_char c) = 120 \<longleftrightarrow> c = 120 \<or> c = 88" for c
  proof -
    have "int_of_char c = 120 \<longleftrightarrow> c = 120" "int_of_char c = 88 \<longleftrightarrow> c = 88"
      using int_of_char_eq_iff [of c 120] int_of_char_eq_iff [of c 88] by (simp_all add: int_of_char_uint del: int_of_char_eq_iff)
    then show ?thesis by (auto simp: grub_tolower_def)
  qed
  have b: "base = 10 \<or> base = 16" using assms(3) by auto
  have "safe_parse_maxint m ptr = parse_loop m base start (of_nat 0) False"
    using assms(1-4) by (auto simp: safe_parse_maxint_def low)
  also have "\<dots> = Some (if 2147483647 < chars_val base 0 cs then Inl ERR_NUMBER_OVERFLOW
      else if cs = [] \<and> \<not> False then Inl ERR_NUMBER_PARSING
      else Inr (start + of_nat (length cs), of_nat (chars_val base 0 cs)))"
    by (rule parse_loop_text [OF b assms(5-7)]) simp
  finally show ?thesis using num_text_digits [OF b, of n] by auto
qed

theorem safe_parse_maxint_correct_witness:
  "safe_parse_maxint (put_bytes 100 (bytes ''0x1f '') (\<lambda>_. 0)) 100 = Some (Inr (104, 31))"
proof -
  have d: "char_digit 16 49 = Some 1" "char_digit 16 102 = Some 15" "char_digit 16 32 = None"
    by (simp_all add: char_digit_def)
  let ?m = "put_bytes 100 (bytes ''0x1f '') (\<lambda>_. 0)"
  have t: "text_at ?m 102 [49, 102]" "?m 100 = 48" "?m 101 = 120" "?m 104 = 32" by simp_all
  have "safe_parse_maxint ?m 100 =
      Some (if [49, 102] = ([] :: u8 list) then Inl ERR_NUMBER_PARSING
            else if 2147483647 < chars_val 16 0 [49, 102] then Inl ERR_NUMBER_OVERFLOW
            else Inr (102 + of_nat (length [49 :: u8, 102]), of_nat (chars_val 16 0 [49, 102])))"
    by (rule safe_parse_maxint_correct [where hex = True and n = 31, THEN conjunct1]) (use t d in simp_all)
  then show ?thesis using d by simp
qed

end
