(* ===== verification/Md5.thy ===== *)
theory Md5
  imports GrubLib
begin

text \<open>
  The message digest and the password hash of the boot loader (\<^verbatim>\<open>tools/grub-vbe-patch/stage2/md5.c\<close>). The static
  variables are a record; an input of \<^verbatim>\<open>md5_update\<close>, a pointer and a length, is the list of its bytes. The
  copies into the static buffer are within memory that \<^verbatim>\<open>memcheck\<close> accepts. The abstract side is the algorithm of
  RFC 1321 on whole messages.
\<close>

section \<open>The transformation of a block\<close>

definition md_F :: "u32 \<Rightarrow> u32 \<Rightarrow> u32 \<Rightarrow> u32" where "md_F x y z = (x AND y) OR (NOT x AND z)"
definition md_G :: "u32 \<Rightarrow> u32 \<Rightarrow> u32 \<Rightarrow> u32" where "md_G x y z = (x AND z) OR (y AND NOT z)"
definition md_H :: "u32 \<Rightarrow> u32 \<Rightarrow> u32 \<Rightarrow> u32" where "md_H x y z = x XOR y XOR z"
definition md_I :: "u32 \<Rightarrow> u32 \<Rightarrow> u32 \<Rightarrow> u32" where "md_I x y z = y XOR (x OR NOT z)"

definition ROTATE_LEFT :: "u32 \<Rightarrow> nat \<Rightarrow> u32" where
  "ROTATE_LEFT x n = push_bit n x OR drop_bit (32 - n) x"

definition initstate :: "u32 list" where
  "initstate = [0x67452301, 0xefcdab89, 0x98badcfe, 0x10325476]"

definition md_s1 :: "nat list" where "md_s1 = [7, 12, 17, 22]"
definition md_s2 :: "nat list" where "md_s2 = [5, 9, 14, 20]"
definition md_s3 :: "nat list" where "md_s3 = [4, 11, 16, 23]"
definition md_s4 :: "nat list" where "md_s4 = [6, 10, 15, 21]"

definition md_T :: "u32 list" where
  "md_T =
    [0xd76aa478, 0xe8c7b756, 0x242070db, 0xc1bdceee,
     0xf57c0faf, 0x4787c62a, 0xa8304613, 0xfd469501,
     0x698098d8, 0x8b44f7af, 0xffff5bb1, 0x895cd7be,
     0x6b901122, 0xfd987193, 0xa679438e, 0x49b40821,
     0xf61e2562, 0xc040b340, 0x265e5a51, 0xe9b6c7aa,
     0xd62f105d, 0x02441453, 0xd8a1e681, 0xe7d3fbc8,
     0x21e1cde6, 0xc33707d6, 0xf4d50d87, 0x455a14ed,
     0xa9e3e905, 0xfcefa3f8, 0x676f02d9, 0x8d2a4c8a,
     0xfffa3942, 0x8771f681, 0x6d9d6122, 0xfde5380c,
     0xa4beea44, 0x4bdecfa9, 0xf6bb4b60, 0xbebfbc70,
     0x289b7ec6, 0xeaa127fa, 0xd4ef3085, 0x04881d05,
     0xd9d4d039, 0xe6db99e5, 0x1fa27cf8, 0xc4ac5665,
     0xf4292244, 0x432aff97, 0xab9423a7, 0xfc93a039,
     0x655b59c3, 0x8f0ccc92, 0xffeff47d, 0x85845dd1,
     0x6fa87e4f, 0xfe2ce6e0, 0xa3014314, 0x4e0811a1,
     0xf7537e82, 0xbd3af235, 0x2ad7d2bb, 0xeb86d391]"

text \<open>The four registers \<open>a\<close>, \<open>b\<close>, \<open>c\<close>, \<open>d\<close> of the loops.\<close>

type_synonym regs = "u32 \<times> u32 \<times> u32 \<times> u32"

definition md5_step :: "(u32 \<Rightarrow> u32 \<Rightarrow> u32 \<Rightarrow> u32) \<Rightarrow> u32 \<Rightarrow> u32 \<Rightarrow> nat \<Rightarrow> regs \<Rightarrow> regs" where
  "md5_step f x t s = (\<lambda>(a, b, c, d).
     (let tmp = a + f b c d + x + t; tmp = ROTATE_LEFT tmp s; tmp = tmp + b in (d, tmp, b, c)))"

text \<open>The words of a block, \<^verbatim>\<open>(UINT4 *) block\<close>.\<close>

definition word_le :: "u8 list \<Rightarrow> u32" where
  "word_le bs = ucast (bs ! 0) OR push_bit 8 (ucast (bs ! 1)) OR push_bit 16 (ucast (bs ! 2))
     OR push_bit 24 (ucast (bs ! 3))"

definition le_bytes :: "u32 \<Rightarrow> u8 list" where
  "le_bytes w = [ucast w, ucast (drop_bit 8 w), ucast (drop_bit 16 w), ucast (drop_bit 24 w)]"

definition block_word :: "u8 list \<Rightarrow> nat \<Rightarrow> u32" where
  "block_word blk i = word_le (drop (4 * i) blk)"

definition md5_round1 :: "u8 list \<Rightarrow> regs \<Rightarrow> regs" where
  "md5_round1 blk = fold (\<lambda>i. md5_step md_F (block_word blk i) (md_T ! i) (md_s1 ! (i mod 4))) [0..<16]"

definition md5_round2 :: "u8 list \<Rightarrow> regs \<Rightarrow> regs" where
  "md5_round2 blk = fold (\<lambda>i. md5_step md_G (block_word blk ((1 + 5 * i) mod 16)) (md_T ! (i + 16)) (md_s2 ! (i mod 4)))
     [0..<16]"

definition md5_round3 :: "u8 list \<Rightarrow> regs \<Rightarrow> regs" where
  "md5_round3 blk = fold (\<lambda>i. md5_step md_H (block_word blk ((5 + 3 * i) mod 16)) (md_T ! (i + 32)) (md_s3 ! (i mod 4)))
     [0..<16]"

definition md5_round4 :: "u8 list \<Rightarrow> regs \<Rightarrow> regs" where
  "md5_round4 blk = fold (\<lambda>i. md5_step md_I (block_word blk ((7 * i) mod 16)) (md_T ! (i + 48)) (md_s4 ! (i mod 4)))
     [0..<16]"

definition md5_transform :: "u8 list \<Rightarrow> u32 list \<Rightarrow> u32 list" where
  "md5_transform blk st =
     (case md5_round4 blk (md5_round3 blk (md5_round2 blk (md5_round1 blk (st ! 0, st ! 1, st ! 2, st ! 3)))) of
        (a, b, c, d) \<Rightarrow> [st ! 0 + a, st ! 1 + b, st ! 2 + c, st ! 3 + d])"

section \<open>Messages in pieces\<close>

record md5 =
  md_state :: "u32 list"
  md_length :: u32
  md_buffer :: "u8 list"

definition md5_init :: "md5 \<Rightarrow> md5" where
  "md5_init c = c\<lparr>md_state := initstate, md_length := 0\<rparr>"

text \<open>\<^verbatim>\<open>while (inputlen >= 64)\<close>: what is left of the input, and the state.\<close>

function md5_blocks :: "u8 list \<Rightarrow> u32 list \<Rightarrow> u8 list \<times> u32 list" where
  "md5_blocks input st =
     (if 64 \<le> length input then md5_blocks (drop 64 input) (md5_transform input st) else (input, st))"
  by auto
termination by (relation "measure (length \<circ> fst)") auto

declare md5_blocks.simps [simp del]

definition md5_update :: "u8 list \<Rightarrow> md5 \<Rightarrow> md5" where
  "md5_update input c =
     (let buflen = unat (md_length c AND 63);
          c = c\<lparr>md_length := md_length c + of_nat (length input)\<rparr>
      in if buflen + length input < 64
         then c\<lparr>md_buffer := take buflen (md_buffer c) @ input @ drop (buflen + length input) (md_buffer c)\<rparr>
         else let c = c\<lparr>md_buffer := take buflen (md_buffer c) @ take (64 - buflen) input\<rparr>;
                  st = md5_transform (md_buffer c) (md_state c);
                  (rest, st) = md5_blocks (drop (64 - buflen) input) st
              in c\<lparr>md_state := st, md_buffer := rest @ drop (length rest) (md_buffer c)\<rparr>)"

text \<open>The digest is the memory of the state.\<close>

definition md5_final :: "md5 \<Rightarrow> u8 list \<times> md5" where
  "md5_final c =
     (let buflen = unat (md_length c AND 63);
          c = c\<lparr>md_buffer := take buflen (md_buffer c) @ [0x80] @ replicate (64 - (buflen + 1)) 0\<rparr>;
          c = (if buflen + 1 > 56
               then c\<lparr>md_state := md5_transform (md_buffer c) (md_state c), md_buffer := replicate 64 0\<rparr>
               else c);
          c = c\<lparr>md_buffer := take 56 (md_buffer c) @ le_bytes (8 * md_length c) @ le_bytes 0\<rparr>;
          c = c\<lparr>md_state := md5_transform (md_buffer c) (md_state c)\<rparr>
      in (concat (map le_bytes (md_state c)), c))"

section \<open>The algorithm of RFC 1321\<close>

text \<open>
  The specification keeps the registers in place: step \<open>i\<close> replaces one of them, and the order of the words
  and the shifts are the tables of the standard. A message is padded and split into blocks as a whole.
\<close>

definition rfc_word :: "nat list" where
  "rfc_word =
    [0, 1, 2, 3, 4, 5, 6, 7, 8, 9, 10, 11, 12, 13, 14, 15,
     1, 6, 11, 0, 5, 10, 15, 4, 9, 14, 3, 8, 13, 2, 7, 12,
     5, 8, 11, 14, 1, 4, 7, 10, 13, 0, 3, 6, 9, 12, 15, 2,
     0, 7, 14, 5, 12, 3, 10, 1, 8, 15, 6, 13, 4, 11, 2, 9]"

definition rfc_function :: "nat \<Rightarrow> u32 \<Rightarrow> u32 \<Rightarrow> u32 \<Rightarrow> u32" where
  "rfc_function i = [md_F, md_G, md_H, md_I] ! (i div 16)"

definition rfc_shift :: "nat \<Rightarrow> nat" where
  "rfc_shift i = [[7, 12, 17, 22], [5, 9, 14, 20], [4, 11, 16, 23], [6, 10, 15, 21]] ! (i div 16) ! (i mod 4)"

text \<open>The register that step \<open>i\<close> replaces: \<open>a\<close>, \<open>d\<close>, \<open>c\<close>, \<open>b\<close> in turn.\<close>

definition rfc_reg :: "nat \<Rightarrow> nat" where
  "rfc_reg i = (3 * i) mod 4"

definition rfc_step :: "u8 list \<Rightarrow> nat \<Rightarrow> u32 list \<Rightarrow> u32 list" where
  "rfc_step blk i rs =
     (let p = rfc_reg i; r = (\<lambda>k. rs ! ((p + k) mod 4))
      in rs[p := r 1 + word_rotl (rfc_shift i)
               (r 0 + rfc_function i (r 1) (r 2) (r 3) + block_word blk (rfc_word ! i) + md_T ! i)])"

definition rfc_transform :: "u8 list \<Rightarrow> u32 list \<Rightarrow> u32 list" where
  "rfc_transform blk st = map2 (+) st (fold (rfc_step blk) [0..<64] st)"

definition rfc_padded :: "u8 list \<Rightarrow> u8 list" where
  "rfc_padded msg = msg @ [0x80] @ replicate ((119 - length msg mod 64) mod 64) 0 @
     map (\<lambda>i. word_of_nat (8 * length msg div 2 ^ (8 * i))) [0..<8]"

definition rfc_md5 :: "u8 list \<Rightarrow> u8 list" where
  "rfc_md5 msg = (let p = rfc_padded msg in concat (map le_bytes
     (fold (\<lambda>i. rfc_transform (take 64 (drop (64 * i) p))) [0..<length p div 64] initstate)))"

section \<open>The rounds are the steps of the standard\<close>

lemma ROTATE_LEFT_rotl: "0 < n \<Longrightarrow> n < 32 \<Longrightarrow> ROTATE_LEFT x n = word_rotl n x"
proof (rule bit_word_eqI)
  fix k
  assume n: "0 < n" "n < 32" and "k < LENGTH(32)"
  then have k: "k < 32" by simp
  show "bit (ROTATE_LEFT x n) k = bit (word_rotl n x) k"
  proof (cases "k < n")
    case True
    then have "(k + (32 - n mod 32)) mod 32 = k - n + (32 - n + k)" using n k by simp
    moreover have "bit (drop_bit (32 - n) x) k = bit x (32 - n + k)" by (simp add: bit_drop_bit_eq)
    ultimately show ?thesis using True n k by (auto simp: ROTATE_LEFT_def bit_or_iff bit_push_bit_iff bit_word_rotl_iff)
  next
    case False
    then have "(k + (32 - n)) mod 32 = k - n" using n k by (simp add: mod_if)
    moreover have "\<not> bit x (32 - n + k)" using False n k by (auto dest: bit_imp_le_length)
    ultimately show ?thesis using False n k by (auto simp: ROTATE_LEFT_def bit_simps bit_word_rotl_iff)
  qed
qed

definition gen_step :: "u8 list \<Rightarrow> nat \<Rightarrow> regs \<Rightarrow> regs" where
  "gen_step blk i = md5_step (rfc_function i) (block_word blk (rfc_word ! i)) (md_T ! i) (rfc_shift i)"

lemma rounds_gen:
  assumes "i < 16"
  shows "md5_step md_F (block_word blk i) (md_T ! i) (md_s1 ! (i mod 4)) = gen_step blk i"
    and "md5_step md_G (block_word blk ((1 + 5 * i) mod 16)) (md_T ! (i + 16)) (md_s2 ! (i mod 4)) = gen_step blk (16 + i)"
    and "md5_step md_H (block_word blk ((5 + 3 * i) mod 16)) (md_T ! (i + 32)) (md_s3 ! (i mod 4)) = gen_step blk (32 + i)"
    and "md5_step md_I (block_word blk ((7 * i) mod 16)) (md_T ! (i + 48)) (md_s4 ! (i mod 4)) = gen_step blk (48 + i)"
  using less_16_cases [OF assms]
  by (auto simp: gen_step_def rfc_function_def rfc_word_def rfc_shift_def md_s1_def md_s2_def md_s3_def md_s4_def
      simp del: One_nat_def)

lemma fold_shifted_upt:
  assumes "\<And>i. i < n \<Longrightarrow> f i = g (k + i)"
  shows "fold f [0..<n] = fold g [k..<k + n]"
proof -
  have "[k..<k + n] = map (\<lambda>i. k + i) [0..<n]" using map_add_upt [of k n] by (simp add: add.commute)
  then have "fold g [k..<k + n] = fold (g \<circ> (\<lambda>i. k + i)) [0..<n]" by (simp add: fold_map)
  also have "\<dots> = fold f [0..<n]" by (rule ext, rule fold_cong) (simp_all add: assms)
  finally show ?thesis by (rule sym)
qed

lemma rounds_fold:
  "md5_round1 blk = fold (gen_step blk) [0..<16]" "md5_round2 blk = fold (gen_step blk) [16..<32]"
  "md5_round3 blk = fold (gen_step blk) [32..<48]" "md5_round4 blk = fold (gen_step blk) [48..<64]"
  using fold_shifted_upt [of 16 "\<lambda>i. md5_step md_F (block_word blk i) (md_T ! i) (md_s1 ! (i mod 4))" "gen_step blk" 0]
    fold_shifted_upt [of 16 "\<lambda>i. md5_step md_G (block_word blk ((1 + 5 * i) mod 16)) (md_T ! (i + 16)) (md_s2 ! (i mod 4))"
      "gen_step blk" 16]
    fold_shifted_upt [of 16 "\<lambda>i. md5_step md_H (block_word blk ((5 + 3 * i) mod 16)) (md_T ! (i + 32)) (md_s3 ! (i mod 4))"
      "gen_step blk" 32]
    fold_shifted_upt [of 16 "\<lambda>i. md5_step md_I (block_word blk ((7 * i) mod 16)) (md_T ! (i + 48)) (md_s4 ! (i mod 4))"
      "gen_step blk" 48]
    rounds_gen [of _ blk]
  by (simp_all only: md5_round1_def md5_round2_def md5_round3_def md5_round4_def add_0) simp_all

text \<open>The registers as the rotating variables of the code hold them before step \<open>i\<close>.\<close>

definition rotated :: "nat \<Rightarrow> u32 list \<Rightarrow> regs" where
  "rotated i rs = (let r = (\<lambda>k. rs ! ((rfc_reg i + k) mod 4)) in (r 0, r 1, r 2, r 3))"

lemma rfc_shift_bounds: "i < 64 \<Longrightarrow> 0 < rfc_shift i \<and> rfc_shift i < 32"
proof -
  assume "i < 64"
  then have "i div 16 \<in> {0, 1, 2, 3}" "i mod 4 \<in> {0, 1, 2, 3}" by auto
  then show ?thesis by (auto simp: rfc_shift_def)
qed

lemma four_elements:
  assumes "length rs = 4"
  obtains a b c d where "rs = [a, b, c, d]"
  using assms by (auto simp: length_Suc_conv eval_nat_numeral)

lemma rotated_step:
  assumes "length rs = 4" and "i < 64"
  shows "rotated (Suc i) (rfc_step blk i rs) = gen_step blk i (rotated i rs)"
proof -
  obtain a b c d where rs: "rs = [a, b, c, d]" by (rule four_elements [OF assms(1)])
  have "rfc_reg i \<in> {0, 1, 2, 3}" by (auto simp: rfc_reg_def)
  moreover have "rfc_reg (Suc i) = (rfc_reg i + 3) mod 4" by (simp add: rfc_reg_def) presburger
  ultimately show ?thesis
    using ROTATE_LEFT_rotl rfc_shift_bounds [OF assms(2)]
    by (auto simp: rs rotated_def rfc_step_def gen_step_def md5_step_def Let_def ac_simps)
qed

lemma rfc_step_length [simp]: "length (rfc_step blk i rs) = length rs"
  by (simp add: rfc_step_def Let_def)

lemma rotated_steps:
  "length rs = 4 \<Longrightarrow> n \<le> 64 \<Longrightarrow>
   rotated n (fold (rfc_step blk) [0..<n] rs) = fold (gen_step blk) [0..<n] (rotated 0 rs) \<and>
   length (fold (rfc_step blk) [0..<n] rs) = 4"
proof (induction n)
  case (Suc n)
  then show ?case using rotated_step [of "fold (rfc_step blk) [0..<n] rs" n blk] by simp
qed simp

lemma md5_transform_rfc:
  assumes "length st = 4"
  shows "md5_transform blk st = rfc_transform blk st" and "length (md5_transform blk st) = 4"
proof -
  obtain a b c d where st: "st = [a, b, c, d]" by (rule four_elements [OF assms])
  let ?r = "fold (rfc_step blk) [0..<64] st"
  have l: "length ?r = 4" and v: "rotated 64 ?r = fold (gen_step blk) [0..<64] (rotated 0 st)"
    using rotated_steps [OF assms, of 64 blk] by simp_all
  obtain a' b' c' d' where r: "?r = [a', b', c', d']" by (rule four_elements [OF l])
  have "[0..<64] = [0..<16] @ [16..<32] @ [32..<48] @ [48..<64::nat]"
    using upt_add_eq_append [of 0 16 48] upt_add_eq_append [of 16 32 32] upt_add_eq_append [of 32 48 16] by simp
  then have "fold (gen_step blk) [0..<64] (a, b, c, d)
    = md5_round4 blk (md5_round3 blk (md5_round2 blk (md5_round1 blk (a, b, c, d))))"
    by (simp only: rounds_fold fold_append o_apply)
  then have "md5_transform blk st = [a + a', b + b', c + c', d + d']"
    using v [unfolded r, symmetric] by (simp add: md5_transform_def rotated_def rfc_reg_def st del: upt_rec_numeral)
  then show "md5_transform blk st = rfc_transform blk st" "length (md5_transform blk st) = 4"
    by (simp_all only: rfc_transform_def r, simp_all add: st)
qed

section \<open>Pieces are absorbed like the whole message\<close>

lemma md5_blocks_short: "length xs < 64 \<Longrightarrow> md5_blocks xs st = (xs, st)"
  by (simp add: md5_blocks.simps [of xs])

lemma md5_transform_prefix:
  assumes "length blk = 64"
  shows "md5_transform (blk @ ys) st = md5_transform blk st"
proof -
  have w: "block_word (blk @ ys) i = block_word blk i" if "i < 16" for i
    using that assms by (auto simp: block_word_def word_le_def nth_append)
  have "md5_round1 (blk @ ys) rs = md5_round1 blk rs" for rs
    unfolding md5_round1_def by (rule fold_cong) (simp_all add: w)
  moreover have "md5_round2 (blk @ ys) = md5_round2 blk" "md5_round3 (blk @ ys) = md5_round3 blk"
    "md5_round4 (blk @ ys) = md5_round4 blk"
    by (simp_all add: md5_round2_def md5_round3_def md5_round4_def w)
  ultimately show ?thesis by (simp add: md5_transform_def)
qed

lemma md5_blocks_block: "length blk = 64 \<Longrightarrow> md5_blocks (blk @ ys) st = md5_blocks ys (md5_transform blk st)"
  by (simp add: md5_blocks.simps [of "blk @ ys"] md5_transform_prefix)

lemma md5_blocks_rest: "length (fst (md5_blocks xs st)) = length xs mod 64"
  by (induction xs st rule: md5_blocks.induct) (subst md5_blocks.simps, simp add: le_mod_geq)

lemma md5_blocks_append: "md5_blocks (xs @ ys) st = (case md5_blocks xs st of (r, st') \<Rightarrow> md5_blocks (r @ ys) st')"
proof (induction xs st rule: md5_blocks.induct)
  case (1 input st)
  show ?case
  proof (cases "64 \<le> length input")
    case True
    then obtain blk rest where i: "input = blk @ rest" and l: "length blk = 64"
      by (metis append_take_drop_id length_take min_absorb2)
    with 1 [OF True] show ?thesis by (simp add: md5_blocks_block md5_transform_prefix)
  qed (simp add: md5_blocks_short)
qed

text \<open>
  What the static variables hold after the bytes \<open>msg\<close>: the state after its full blocks, its length, and in the
  buffer the bytes that do not fill a block.
\<close>

definition absorbed :: "u8 list \<Rightarrow> md5 \<Rightarrow> bool" where
  "absorbed msg c \<longleftrightarrow> md5_blocks msg initstate = (take (length msg mod 64) (md_buffer c), md_state c) \<and>
     md_length c = of_nat (length msg) \<and> length (md_buffer c) = 64"

lemma buflen_absorbed:
  assumes "absorbed msg c"
  shows "unat (md_length c AND 63) = length msg mod 64"
proof -
  have "md_length c AND 63 = take_bit 6 (md_length c)" by (simp add: take_bit_eq_mask mask_eq_exp_minus_1)
  then have "unat (md_length c AND 63) = unat (md_length c) mod 64" by (simp add: unat_mod take_bit_eq_mod)
  also have "\<dots> = length msg mod 2 ^ 32 mod 64" using assms by (simp add: absorbed_def unat_of_nat)
  also have "\<dots> = length msg mod 64" by (simp add: mod_mod_cancel)
  finally show ?thesis .
qed

lemma absorbed_init: "length (md_buffer c) = 64 \<Longrightarrow> absorbed [] (md5_init c)"
  by (simp add: absorbed_def md5_init_def md5_blocks_short)

lemma absorbed_update:
  assumes "absorbed msg c"
  shows "absorbed (msg @ input) (md5_update input c)"
proof -
  define b where "b = length msg mod 64"
  note buf = buflen_absorbed [OF assms, folded b_def]
  have bl: "md5_blocks msg initstate = (take b (md_buffer c), md_state c)" and len: "length (md_buffer c) = 64"
    and ml: "md_length c = of_nat (length msg)" and b: "b < 64"
    using assms by (simp_all add: absorbed_def b_def)
  have all: "md5_blocks (msg @ input) initstate = md5_blocks (take b (md_buffer c) @ input) (md_state c)"
    by (subst md5_blocks_append) (simp add: bl)
  have m: "length (msg @ input) mod 64 = (b + length input) mod 64" unfolding b_def length_append by (rule mod_add_left_eq [symmetric])
  show ?thesis
  proof (cases "b + length input < 64")
    case True
    then have m: "length (msg @ input) mod 64 = b + length input" using m by simp
    have a: "md5_blocks (msg @ input) initstate = (take b (md_buffer c) @ input, md_state c)"
      unfolding all using True by (intro md5_blocks_short) simp
    have "md5_update input c = c\<lparr>md_length := md_length c + of_nat (length input),
        md_buffer := take b (md_buffer c) @ input @ drop (b + length input) (md_buffer c)\<rparr>"
      using True by (simp add: md5_update_def buf Let_def)
    then show ?thesis
      unfolding absorbed_def m a using True len ml by simp
  next
    case False
    let ?blk = "take b (md_buffer c) @ take (64 - b) input"
    have l: "length ?blk = 64" using False len b by simp
    obtain r st where r: "md5_blocks (drop (64 - b) input) (md5_transform ?blk (md_state c)) = (r, st)"
      by (cases "md5_blocks (drop (64 - b) input) (md5_transform ?blk (md_state c))")
    have "md5_blocks (?blk @ drop (64 - b) input) (md_state c) = (r, st)"
      by (simp only: md5_blocks_block [OF l] r)
    then have a: "md5_blocks (msg @ input) initstate = (r, st)" using all by simp
    have m: "length (msg @ input) mod 64 = length r" using md5_blocks_rest [of "msg @ input" initstate] a by simp
    have "length r < 64" using m by (metis mod_less_divisor zero_less_numeral)
    moreover have "md5_update input c = c\<lparr>md_length := md_length c + of_nat (length input),
        md_buffer := r @ drop (length r) ?blk, md_state := st\<rparr>"
      using False by (simp add: md5_update_def buf Let_def r)
    ultimately show ?thesis unfolding absorbed_def m a using l ml by simp
  qed
qed

lemma absorbed_updates:
  "absorbed msg c \<Longrightarrow> absorbed (msg @ concat pieces) (fold md5_update pieces c)"
proof (induction pieces arbitrary: msg c)
  case (Cons p ps)
  show ?case using Cons.IH [OF absorbed_update [OF Cons.prems, of p]] by simp
qed simp

text \<open>The final padding is the padding of the standard as long as the bit length fits one word.\<close>

lemma md5_blocks_rfc:
  "length xs = 64 * n \<Longrightarrow> length st = 4 \<Longrightarrow>
   md5_blocks xs st = ([], fold (\<lambda>i. rfc_transform (take 64 (drop (64 * i) xs))) [0..<n] st)"
proof (induction n arbitrary: xs st)
  case 0
  then show ?case by (simp add: md5_blocks_short)
next
  case (Suc n)
  let ?blk = "take 64 xs" let ?rest = "drop 64 xs"
  have l: "length ?blk = 64" "length ?rest = 64 * n" using Suc.prems by simp_all
  have "md5_blocks xs st = md5_blocks ?rest (md5_transform ?blk st)"
    using md5_blocks_block [OF l(1), of ?rest st] by simp
  also have "\<dots> = ([], fold (\<lambda>i. rfc_transform (take 64 (drop (64 * i) ?rest))) [0..<n] (rfc_transform ?blk st))"
    using Suc.IH [OF l(2)] md5_transform_rfc [OF Suc.prems(2)] by simp
  also have "fold (\<lambda>i. rfc_transform (take 64 (drop (64 * i) ?rest))) [0..<n]
      = fold (\<lambda>i. rfc_transform (take 64 (drop (64 * i) xs))) [Suc 0..<Suc n]"
    using fold_shifted_upt [of n "\<lambda>i. rfc_transform (take 64 (drop (64 * i) ?rest))"
        "\<lambda>i. rfc_transform (take 64 (drop (64 * i) xs))" 1] by (simp add: add.commute)
  finally show ?case by (simp add: upt_conv_Cons del: upt_Suc)
qed

lemma ucast_of_nat: "(ucast (w :: u32) :: u8) = of_nat (unat w)"
  by simp

lemma ucast_drop_bit_nat: "(ucast (drop_bit k (w :: u32)) :: u8) = word_of_nat (unat w div 2 ^ k)"
proof -
  have "unat (drop_bit k w) = unat w div 2 ^ k" 
    by (simp add: unat_drop_bit_eq drop_bit_eq_div del: drop_bit_eq_div) (simp only: drop_bit_eq_div)
  then show ?thesis by (simp only: ucast_of_nat)
qed

lemma padding_length: "b < 64 \<Longrightarrow> (119 - b) mod 64 = (if b < 56 then 55 - b else 119 - b :: nat)"
proof (cases "b < 56")
  case True
  then have "(119 - b) = 55 - b + 64" by simp
  then have "(119 - b) mod 64 = (55 - b) mod 64" by (simp only: mod_add_self2)
  with True show ?thesis by simp
qed simp

lemma length_field:
  assumes "8 * n < 2 ^ 32"
  shows "map (\<lambda>i. word_of_nat (8 * n div 2 ^ (8 * i))) [0..<8] = le_bytes (8 * of_nat n) @ le_bytes 0"
proof -
  have u: "unat (8 * of_nat n :: u32) = 8 * n"
    using assms unat_of_nat_u32 [of "8 * n"] by simp
  have "[0..<8] = [0, 1, 2, 3, 4, 5, 6, 7::nat]" by (simp add: upt_rec)
  moreover have "(ucast (8 * of_nat n :: u32) :: u8) = word_of_nat (8 * n)" by (simp only: ucast_of_nat u)
  ultimately show ?thesis using assms by (simp add: le_bytes_def ucast_drop_bit_nat u del: of_nat_mult of_nat_numeral)
qed

lemma final_correct:
  assumes "absorbed msg c" and "8 * length msg < 2 ^ 32"
  shows "fst (md5_final c) = rfc_md5 msg"
proof -
  define b where "b = length msg mod 64"
  define r where "r = take b (md_buffer c)"
  define len where "len = le_bytes (8 * md_length c) @ le_bytes 0"
  note buf = buflen_absorbed [OF assms(1), folded b_def]
  have b: "b < 64" by (simp add: b_def)
  have bl: "md5_blocks msg initstate = (r, md_state c)" and lr: "length r = b"
    using assms(1) b by (simp_all add: absorbed_def b_def r_def)
  have ll: "length len = 8" by (simp add: len_def le_bytes_def)
  have pad: "rfc_padded msg = msg @ [0x80] @ replicate ((119 - b) mod 64) 0 @ len"
    using length_field [OF assms(2)] assms(1) unfolding rfc_padded_def b_def len_def absorbed_def by simp
  define n where "n = length (rfc_padded msg) div 64"
  have lp: "length (rfc_padded msg) = 64 * n"
  proof -
    have "length (rfc_padded msg) = 64 * (length msg div 64) + b + 1 + (119 - b) mod 64 + 8"
      using ll unfolding pad b_def by simp
    also have "\<dots> = 64 * (length msg div 64 + (if b < 56 then 1 else 2))" using b
      by (simp add: padding_length)
    finally show ?thesis by (simp add: n_def)
  qed
  have "md5_blocks (rfc_padded msg) initstate = ([], fold (\<lambda>i. rfc_transform (take 64 (drop (64 * i) (rfc_padded msg)))) [0..<n] initstate)"
    by (rule md5_blocks_rfc [OF lp]) (simp add: initstate_def)
  then have rfc: "rfc_md5 msg = concat (map le_bytes (snd (md5_blocks (rfc_padded msg) initstate)))"
    by (simp only: rfc_md5_def n_def Let_def snd_conv)
  have all: "md5_blocks (rfc_padded msg) initstate = md5_blocks (r @ [0x80] @ replicate ((119 - b) mod 64) 0 @ len) (md_state c)"
    unfolding pad by (subst md5_blocks_append) (simp add: bl)
  show ?thesis
  proof (cases "b + 1 > 56")
    case True
    let ?blk = "r @ [0x80] @ replicate (63 - b) 0" let ?last = "replicate 56 0 @ len"
    have "replicate ((119 - b) mod 64) (0::u8) = replicate (63 - b) 0 @ replicate 56 0"
      using True b by (simp flip: replicate_add)
    then have "md5_blocks (rfc_padded msg) initstate = md5_blocks (?blk @ ?last) (md_state c)" unfolding all by simp
    also have "\<dots> = ([], md5_transform ?last (md5_transform ?blk (md_state c)))"
      using md5_blocks_block [of ?blk ?last] md5_blocks_block [of ?last "[]"] lr ll b by (simp add: md5_blocks_short)
    finally show ?thesis unfolding rfc using True by (simp add: md5_final_def buf Let_def r_def len_def)
  next
    case False
    let ?blk = "r @ [0x80] @ replicate (55 - b) 0 @ len"
    have "(119 - b) mod 64 = 55 - b" using False b by (simp add: padding_length)
    then have "md5_blocks (rfc_padded msg) initstate = md5_blocks ?blk (md_state c)" unfolding all by simp
    also have "\<dots> = ([], md5_transform ?blk (md_state c))"
      using md5_blocks_block [of ?blk "[]"] lr ll False by (simp add: md5_blocks_short)
    moreover have "take (56 - b) (0x80 # replicate (63 - b) (0::u8)) = 0x80 # replicate (55 - b) 0"
      
    proof -
      have "56 - b = Suc (55 - b)" using False by simp
      then show ?thesis by (simp only: take_Suc_Cons take_replicate) (simp add: min_def)
    qed
    ultimately show ?thesis unfolding rfc using False lr b by (simp add: md5_final_def buf Let_def r_def len_def)
  qed
qed

section \<open>The password hash\<close>

definition b64t :: "u8 list" where
  "b64t = bytes ''./0123456789ABCDEFGHIJKLMNOPQRSTUVWXYZabcdefghijklmnopqrstuvwxyz''"

definition bytes_at :: "mem \<Rightarrow> u32 \<Rightarrow> nat \<Rightarrow> u8 list" where
  "bytes_at m p n = map (\<lambda>i. m (p + of_nat i)) [0..<n]"

text \<open>
  The loops over the length of the key: the first digest as often as it fits, and one byte for each bit of the
  length, the terminator or the first byte of the key.
\<close>

fun alt_loop :: "u8 list \<Rightarrow> nat \<Rightarrow> md5 \<Rightarrow> md5" where
  "alt_loop alt i c = (if i > 16 then alt_loop alt (i - 16) (md5_update alt c) else md5_update (take i alt) c)"

fun bit_loop :: "u8 \<Rightarrow> u8 \<Rightarrow> nat \<Rightarrow> md5 \<Rightarrow> md5" where
  "bit_loop k0 kn i c = (if i > 0 then bit_loop k0 kn (i div 2) (md5_update [if odd i then kn else k0] c) else c)"

declare alt_loop.simps [simp del] bit_loop.simps [simp del]

definition crypt_round :: "u8 list \<Rightarrow> u8 list \<Rightarrow> nat \<Rightarrow> u8 list \<times> md5 \<Rightarrow> u8 list \<times> md5" where
  "crypt_round key salt i = (\<lambda>(digest, c).
     (let alt = digest; c = md5_init c;
          c = (if odd i then md5_update key c else md5_update alt c);
          c = (if i mod 3 \<noteq> 0 then md5_update salt c else c);
          c = (if i mod 7 \<noteq> 0 then md5_update key c else c);
          c = (if odd i then md5_update alt c else md5_update key c)
      in md5_final c))"

definition crypt_digest :: "u8 list \<Rightarrow> u8 list \<Rightarrow> u8 list \<Rightarrow> u8 \<Rightarrow> u8 \<Rightarrow> md5 \<Rightarrow> u8 list \<times> md5" where
  "crypt_digest key salt crypted k0 kn c =
     (let (digest, c) = md5_final (md5_update key (md5_update salt (md5_update key (md5_init c))));
          alt = digest;
          c = md5_update crypted (md5_update key (md5_init c));
          c = alt_loop alt (length key) c;
          c = bit_loop k0 kn (length key) c
      in fold (crypt_round key salt) [0..<1000] (md5_final c))"

text \<open>
  Writing or comparing \<open>n\<close> characters of the word \<open>w\<close>; no result stands for the return with \<open>1\<close> at the first difference.
\<close>

primrec crypt_chars :: "bool \<Rightarrow> nat \<Rightarrow> u32 \<Rightarrow> u32 \<Rightarrow> mem \<Rightarrow> (u32 \<times> mem) option" where
  "crypt_chars check 0 w p m = Some (p, m)"
| "crypt_chars check (Suc n) w p m =
     (let ch = b64t ! unat (w AND 0x3f)
      in if check
         then if m p \<noteq> ch then None else crypt_chars check n (drop_bit 6 w) (p + 1) m
         else crypt_chars check n (drop_bit 6 w) (p + 1) (m(p := ch)))"

definition crypt_word :: "u8 list \<Rightarrow> nat \<Rightarrow> u32" where
  "crypt_word digest i = ucast (digest ! (if i = 4 then 5 else 12 + i)) OR push_bit 8 (ucast (digest ! (6 + i)))
     OR push_bit 16 (ucast (digest ! i))"

definition crypt_words :: "bool \<Rightarrow> u8 list \<Rightarrow> u32 \<Rightarrow> mem \<Rightarrow> (u32 \<times> mem) option" where
  "crypt_words check digest p m =
     Option.bind (fold (\<lambda>i r. Option.bind r (\<lambda>(p, m). crypt_chars check 4 (crypt_word digest i) p m)) [0..<5] (Some (p, m)))
       (\<lambda>(p, m). crypt_chars check 2 (ucast (digest ! 11)) p m)"

text \<open>
  \<open>lit\<close> is the address of the literal \<open>"$"\<close>. When a checked password has no second \<open>$\<close>, the length of the salt
  is negative and the copy of the salt runs over the memory: no result.
\<close>

definition md5_password :: "u32 \<Rightarrow> u32 \<Rightarrow> u32 \<Rightarrow> bool \<Rightarrow> mem \<Rightarrow> md5 \<Rightarrow> (int \<times> mem \<times> md5) option" where
  "md5_password lit key crypted check m c =
     Option.bind (grub_strlen m key) (\<lambda>keylen. let salt = crypted + 3 in
     Option.bind (if check then map_option (\<lambda>l. sint l \<le> 3) (grub_strlen m crypted) else Some False) (\<lambda>short.
     if short then Some (1, m, c)
     else Option.bind (grub_strstr m salt lit) (\<lambda>end.
       if check \<and> end = 0 then None
       else
         let saltlen = (if check then end - salt else if end \<noteq> 0 \<and> sint (end - salt) < 8 then end - salt else 8);
             m = (if check then m else m(salt + saltlen := 36));
             (digest, c) = crypt_digest (bytes_at m key (unat keylen)) (bytes_at m salt (unat saltlen))
               (bytes_at m crypted (unat (3 + saltlen))) (m key) (m (key + keylen)) c
         in case crypt_words check digest (salt + saltlen + 1) m of
              None \<Rightarrow> Some (1, m, c)
            | Some (p, m) \<Rightarrow> let m = (if check then m else m(p := 0)) in Some (int_of_char (m p), m, c))))"

section \<open>The hash as a function of the texts\<close>

primrec b64_text :: "nat \<Rightarrow> u32 \<Rightarrow> u8 list" where
  "b64_text 0 w = []"
| "b64_text (Suc n) w = b64t ! unat (w AND 0x3f) # b64_text n (drop_bit 6 w)"

definition digest_text :: "u8 list \<Rightarrow> u8 list" where
  "digest_text d = concat (map (\<lambda>i. b64_text 4 (crypt_word d i)) [0..<5]) @ b64_text 2 (ucast (d ! 11))"

fun length_bits :: "u8 \<Rightarrow> u8 \<Rightarrow> nat \<Rightarrow> u8 list" where
  "length_bits k0 kn i = (if i > 0 then (if odd i then kn else k0) # length_bits k0 kn (i div 2) else [])"

declare length_bits.simps [simp del]

definition hash_round :: "u8 list \<Rightarrow> u8 list \<Rightarrow> nat \<Rightarrow> u8 list \<Rightarrow> u8 list" where
  "hash_round key salt i d = rfc_md5 ((if odd i then key else d) @ (if i mod 3 \<noteq> 0 then salt else []) @
     (if i mod 7 \<noteq> 0 then key else []) @ (if odd i then d else key))"

definition crypt_hash :: "u8 list \<Rightarrow> u8 list \<Rightarrow> u8 list \<Rightarrow> u8 list" where
  "crypt_hash key magic salt =
     (let n = length key; alt = rfc_md5 (key @ salt @ key);
          start = key @ magic @ salt @ take n (concat (replicate n alt)) @ length_bits (hd (key @ [0])) 0 n
      in digest_text (fold (hash_round key salt) [0..<1000] (rfc_md5 start)))"

lemma absorbed_buffer: "absorbed msg c \<Longrightarrow> length (md_buffer c) = 64"
  by (simp add: absorbed_def)

lemma final_buffer:
  assumes "absorbed msg c"
  shows "length (md_buffer (snd (md5_final c))) = 64"
proof -
  have "length msg mod 64 < 64" by simp
  then show ?thesis
    using buflen_absorbed [OF assms] absorbed_buffer [OF assms] by (simp add: md5_final_def Let_def le_bytes_def)
qed

lemma rfc_transforms_length:
  "length st = 4 \<Longrightarrow> length (fold (\<lambda>i. rfc_transform (blk i)) is st) = 4"
proof (induction "is" arbitrary: st)
  case (Cons i "is")
  then show ?case using md5_transform_rfc [OF Cons.prems, of "blk i"] by simp
qed simp

lemma rfc_md5_length: "length (rfc_md5 msg) = 16"
proof -
  have "length (concat (map le_bytes st)) = 4 * length st" for st
    by (induction st) (simp_all add: le_bytes_def)
  moreover have "length initstate = 4" by (simp add: initstate_def)
  ultimately show ?thesis by (simp add: rfc_md5_def Let_def rfc_transforms_length)
qed

lemma alt_loop_absorbed:
  "absorbed msg c \<Longrightarrow> length alt = 16 \<Longrightarrow> i \<le> n \<Longrightarrow> absorbed (msg @ take i (concat (replicate n alt))) (alt_loop alt i c)"
proof (induction alt i c arbitrary: msg n rule: alt_loop.induct)
  case (1 alt i c)
  show ?case
  proof (cases "i > 16")
    case True
    then obtain n' where n: "n = Suc n'" using "1.prems"(3) by (cases n) auto
    have "absorbed ((msg @ alt) @ take (i - 16) (concat (replicate n' alt))) (alt_loop alt (i - 16) (md5_update alt c))"
      using True "1.prems" n by (intro "1.IH" absorbed_update) auto
    with True "1.prems" n show ?thesis by (simp add: alt_loop.simps [of alt i])
  next
    case False
    have "take i (concat (replicate n alt)) = take i alt"
      using False "1.prems" by (cases n) auto
    with False "1.prems" absorbed_update show ?thesis by (simp add: alt_loop.simps [of alt i])
  qed
qed

lemma bit_loop_absorbed: "absorbed msg c \<Longrightarrow> absorbed (msg @ length_bits k0 kn i) (bit_loop k0 kn i c)"
proof (induction k0 kn i c arbitrary: msg rule: bit_loop.induct)
  case (1 k0 kn i c)
  show ?case
  proof (cases "i > 0")
    case True
    have "absorbed ((msg @ [if odd i then kn else k0]) @ length_bits k0 kn (i div 2))
        (bit_loop k0 kn (i div 2) (md5_update [if odd i then kn else k0] c))"
      by (rule "1.IH" [OF True absorbed_update [OF "1.prems"]])
    with True show ?thesis by (simp add: bit_loop.simps [of k0 kn i] length_bits.simps [of k0 kn i])
  qed (use "1.prems" in \<open>simp add: bit_loop.simps length_bits.simps\<close>)
qed

lemma length_bits_length: "length (length_bits k0 kn i) \<le> i"
proof (induction k0 kn i rule: length_bits.induct)
  case (1 k0 kn i)
  show ?case
  proof (cases "i > 0")
    case True
    then have "i div 2 < i" by simp
    with 1 [OF True] True show ?thesis by (simp add: length_bits.simps [of k0 kn i])
  qed (simp add: length_bits.simps)
qed

text \<open>A digest starts from whatever the static variables hold.\<close>

lemma digest_of:
  assumes "length (md_buffer c) = 64" and "8 * length (concat pieces) < 2 ^ 32"
  shows "fst (md5_final (fold md5_update pieces (md5_init c))) = rfc_md5 (concat pieces)"
    and "length (md_buffer (snd (md5_final (fold md5_update pieces (md5_init c))))) = 64"
proof -
  have a: "absorbed (concat pieces) (fold md5_update pieces (md5_init c))"
    using absorbed_updates [OF absorbed_init [OF assms(1)], of pieces] by simp
  show "fst (md5_final (fold md5_update pieces (md5_init c))) = rfc_md5 (concat pieces)"
    by (rule final_correct [OF a assms(2)])
  show "length (md_buffer (snd (md5_final (fold md5_update pieces (md5_init c))))) = 64"
    by (rule final_buffer [OF a])
qed

definition moderate :: "u8 list \<Rightarrow> bool" where
  "moderate xs \<longleftrightarrow> length xs < 2 ^ 24"

lemma crypt_round_hash:
  assumes "length (md_buffer c) = 64" and "moderate key" and "moderate salt" and "length d = 16"
  shows "fst (crypt_round key salt i (d, c)) = hash_round key salt i d"
    and "length (md_buffer (snd (crypt_round key salt i (d, c)))) = 64"
proof -
  let ?ps = "[if odd i then key else d] @ (if i mod 3 \<noteq> 0 then [salt] else []) @ (if i mod 7 \<noteq> 0 then [key] else [])
    @ [if odd i then d else key]"
  have r: "crypt_round key salt i (d, c) = md5_final (fold md5_update ?ps (md5_init c))"
    by (simp add: crypt_round_def Let_def)
  have l: "8 * length (concat ?ps) < 2 ^ 32" using assms(2-4) by (simp add: moderate_def)
  have "concat ?ps = (if odd i then key else d) @ (if i mod 3 \<noteq> 0 then salt else []) @
     (if i mod 7 \<noteq> 0 then key else []) @ (if odd i then d else key)" by simp
  with digest_of [OF assms(1) l] show "fst (crypt_round key salt i (d, c)) = hash_round key salt i d"
    "length (md_buffer (snd (crypt_round key salt i (d, c)))) = 64"
    unfolding r hash_round_def by (simp_all only:)
qed

lemma crypt_rounds_hash:
  assumes "moderate key" and "moderate salt"
  shows "length (md_buffer c) = 64 \<Longrightarrow> length d = 16 \<Longrightarrow>
    fst (fold (crypt_round key salt) is (d, c)) = fold (hash_round key salt) is d \<and>
    length (md_buffer (snd (fold (crypt_round key salt) is (d, c)))) = 64"
proof (induction "is" arbitrary: d c)
  case (Cons i "is")
  obtain d' c' where r: "crypt_round key salt i (d, c) = (d', c')" by (cases "crypt_round key salt i (d, c)")
  have "d' = hash_round key salt i d" "length (md_buffer c') = 64"
    using crypt_round_hash [OF Cons.prems(1) assms Cons.prems(2), of i] r by simp_all
  moreover from this have "length d' = 16" by (simp add: hash_round_def rfc_md5_length)
  ultimately show ?case using Cons.IH [of c' d'] r by simp
qed simp

lemma crypt_digest_hash:
  assumes "length (md_buffer c) = 64" and "moderate key" and "moderate salt" and "length magic = 3" and "k0 = hd (key @ [0])"
  shows "digest_text (fst (crypt_digest key salt (magic @ salt) k0 0 c)) = crypt_hash key magic salt"
    and "length (md_buffer (snd (crypt_digest key salt (magic @ salt) k0 0 c))) = 64"
proof -
  let ?n = "length key"
  obtain d1 c1 where r1: "md5_final (md5_update key (md5_update salt (md5_update key (md5_init c)))) = (d1, c1)"
    by (cases "md5_final (md5_update key (md5_update salt (md5_update key (md5_init c))))")
  have d1: "d1 = rfc_md5 (key @ salt @ key)" and c1: "length (md_buffer c1) = 64"
    using digest_of [OF assms(1), of "[key, salt, key]"] r1 assms(2,3) by (simp_all add: moderate_def)
  let ?c2 = "bit_loop k0 0 ?n (alt_loop d1 ?n (md5_update (magic @ salt) (md5_update key (md5_init c1))))"
  let ?start = "key @ magic @ salt @ take ?n (concat (replicate ?n d1)) @ length_bits k0 0 ?n"
  have "absorbed (((([] @ key) @ (magic @ salt)) @ take ?n (concat (replicate ?n d1))) @ length_bits k0 0 ?n) ?c2"
    by (intro bit_loop_absorbed alt_loop_absorbed absorbed_update absorbed_init c1) (simp_all add: d1 rfc_md5_length)
  then have a: "absorbed ?start ?c2" by simp
  have "8 * length ?start < 2 ^ 32"
    using assms(2-4) length_bits_length [of k0 0 ?n] by (simp add: moderate_def)
  then have f: "fst (md5_final ?c2) = rfc_md5 ?start" by (rule final_correct [OF a])
  obtain d2 c2 where r2: "md5_final ?c2 = (d2, c2)" by (cases "md5_final ?c2")
  have d2: "d2 = rfc_md5 ?start" and c2: "length (md_buffer c2) = 64"
    using f final_buffer [OF a] r2 by simp_all
  have r: "crypt_digest key salt (magic @ salt) k0 0 c = fold (crypt_round key salt) [0..<1000] (d2, c2)"
    by (simp add: crypt_digest_def r1 r2 Let_def del: upt_rec_numeral)
  have "length d2 = 16" by (simp add: d2 rfc_md5_length)
  note h = crypt_rounds_hash [OF assms(2,3) c2 this, of "[0..<1000]"]
  show "digest_text (fst (crypt_digest key salt (magic @ salt) k0 0 c)) = crypt_hash key magic salt"
    unfolding r using h by (simp add: crypt_hash_def Let_def d1 d2 assms(5) del: upt_rec_numeral)
  show "length (md_buffer (snd (crypt_digest key salt (magic @ salt) k0 0 c))) = 64"
    unfolding r using h by simp
qed

section \<open>Writing and comparing the text of the hash\<close>

lemma text_at_append: "text_at m p (xs @ ys) \<longleftrightarrow> text_at m p xs \<and> text_at m (p + of_nat (length xs)) ys"
  by (induction xs arbitrary: p) (auto simp: add.assoc)

lemma b64_text_length [simp]: "length (b64_text n w) = n"
  by (induction n arbitrary: w) simp_all

lemma crypt_chars_text:
  "crypt_chars False n w p m = Some (p + of_nat n, put_bytes p (b64_text n w) m)"
  "crypt_chars True n w p m = (if text_at m p (b64_text n w) then Some (p + of_nat n, m) else None)"
proof (induction n arbitrary: w p m)
  case (Suc n)
  { case 1 show ?case by (simp add: Suc.IH(1) Let_def add.assoc fun_upd_def) }
  { case 2 show ?case by (simp add: Suc.IH(2) Let_def add.assoc) }
qed simp_all

lemma crypt_fold_None: "fold (\<lambda>i r. Option.bind r (f i)) is None = None"
  by (induction "is") simp_all

lemma crypt_fold_text:
  fixes ws :: "nat \<Rightarrow> u32"
  defines "out is \<equiv> concat (map (\<lambda>i. b64_text 4 (ws i)) is)"
  shows "fold (\<lambda>i r. Option.bind r (\<lambda>(p, m). crypt_chars False 4 (ws i) p m)) is (Some (p, m))
      = Some (p + of_nat (length (out is)), put_bytes p (out is) m)"
    and "fold (\<lambda>i r. Option.bind r (\<lambda>(p, m). crypt_chars True 4 (ws i) p m)) is (Some (p, m))
      = (if text_at m p (out is) then Some (p + of_nat (length (out is)), m) else None)"
  unfolding out_def
  by (induction "is" arbitrary: p m)
    (simp_all add: crypt_chars_text crypt_fold_None put_bytes_append text_at_append add.assoc)

lemma crypt_words_text:
  "crypt_words False d p m = Some (p + of_nat (length (digest_text d)), put_bytes p (digest_text d) m)"
  "crypt_words True d p m =
     (if text_at m p (digest_text d) then Some (p + of_nat (length (digest_text d)), m) else None)"
  unfolding crypt_words_def digest_text_def
  by (simp_all only: crypt_fold_text)
    (simp_all add: crypt_chars_text put_bytes_append text_at_append add.assoc)

lemma b64t_nonzero: "0 \<notin> set b64t" and b64t_length: "length b64t = 64"
  by (simp_all add: b64t_def)

lemma b64_text_nonzero: "0 \<notin> set (b64_text n w)"
proof (induction n arbitrary: w)
  case (Suc n)
  have "w AND 0x3f = take_bit 6 w" by (simp add: take_bit_eq_mask mask_eq_exp_minus_1)
  then have "unat (w AND 0x3f) < length b64t"
    using take_bit_nat_less_exp [of 6 "unat w"] by (simp add: b64t_length unsigned_take_bit_eq del: take_bit_nat_less_exp)
  then have "b64t ! unat (w AND 0x3f) \<noteq> 0" using b64t_nonzero by (metis nth_mem)
  with Suc show ?case by simp
qed simp

lemma digest_text_nonzero: "0 \<notin> set (digest_text d)"
  using b64_text_nonzero by (auto simp: digest_text_def)

lemma digest_text_length: "length (digest_text d) = 22"
proof -
  have "length (concat (map (\<lambda>i. b64_text 4 (crypt_word d i)) is)) = 4 * length is" for "is" by (induction "is") simp_all
  then show ?thesis by (simp add: digest_text_def del: upt_rec_numeral)
qed

text \<open>A string at \<open>q\<close> is the text exactly if the text stands there and is terminated.\<close>

lemma text_at_cstr:
  "0 \<notin> set t \<Longrightarrow> text_at m q t \<and> m (q + of_nat (length t)) = 0 \<longleftrightarrow> cstr m q t"
proof (induction t arbitrary: q)
  case (Cons c t)
  have e: "q + of_nat (length (c # t)) = (q + 1) + of_nat (length t)" by (simp add: add.assoc)
  have "c \<noteq> 0" "0 \<notin> set t" using Cons.prems by auto
  with Cons.IH [of "q + 1"] show ?case unfolding e by auto
qed simp

lemma bytes_at_cstr: "cstr m p (xs @ ys) \<Longrightarrow> bytes_at m p (length xs) = xs"
  by (auto simp: bytes_at_def nth_append cstr_nth intro!: nth_equalityI)

lemma strlen_from_cstr: "cstr m p s \<Longrightarrow> strlen_from m p n = Some (n + of_nat (length s))"
  by (induction s arbitrary: p n) (simp_all add: strlen_from.simps add.assoc)

lemma grub_strlen_cstr: "cstr m p s \<Longrightarrow> grub_strlen m p = Some (of_nat (length s))"
  by (simp add: grub_strlen_def strlen_from_cstr)

text \<open>Searching a string for a single character.\<close>

lemma grub_strstr_char:
  assumes "cstr m lit [ch]" and "lit < lit + 1"
  shows "cstr m p (xs @ ch # ys) \<Longrightarrow> ch \<notin> set xs \<Longrightarrow> grub_strstr m p lit = Some (p + of_nat (length xs))"
proof (induction xs arbitrary: p)
  case Nil
  then have "match_end m p lit = Some (lit + 1)"
    using assms by (simp add: match_end.simps [of m p lit] match_end.simps [of m "p + 1" "lit + 1"])
  with Nil assms show ?case by (simp add: grub_strstr.simps [of m p lit])
next
  case (Cons x xs)
  then have "match_end m p lit = Some lit" using assms by (auto simp: match_end.simps [of m p lit])
  with Cons show ?case by (simp add: grub_strstr.simps [of m p lit] add.assoc)
qed

section \<open>Checking and making passwords\<close>

text \<open>A crypted password: a header of three characters, the salt, \<open>$\<close> and the rest, within the address space.\<close>

definition crypted_at :: "mem \<Rightarrow> u32 \<Rightarrow> u8 list \<Rightarrow> u8 list \<Rightarrow> u8 list \<Rightarrow> bool" where
  "crypted_at m p magic salt rest \<longleftrightarrow> cstr m p (magic @ salt @ 36 # rest) \<and> length magic = 3 \<and> 36 \<notin> set salt \<and>
     moderate salt \<and> moderate rest \<and> unat p + length (magic @ salt @ 36 # rest) < 2 ^ 32"

lemma crypted_facts:
  assumes "crypted_at m p magic salt rest" and "cstr m lit [36]" and "lit < lit + 1"
  shows "grub_strlen m p = Some (of_nat (4 + length salt + length rest))"
    and "grub_strstr m (p + 3) lit = Some (p + 3 + of_nat (length salt))"
    and "p + 3 + of_nat (length salt) \<noteq> 0"
    and "bytes_at m (p + 3) (length salt) = salt" and "bytes_at m p (3 + length salt) = magic @ salt"
    and "cstr m (p + 3 + of_nat (length salt) + 1) rest"
proof -
  have c: "cstr m p (magic @ salt @ 36 # rest)" and l: "length magic = 3" and s: "36 \<notin> set salt"
    using assms(1) by (simp_all add: crypted_at_def)
  have c3: "cstr m (p + 3) (salt @ 36 # rest)" using cstr_drop [OF c, of 3] l by simp
  show "grub_strlen m p = Some (of_nat (4 + length salt + length rest))"
    using grub_strlen_cstr [OF c] l by (simp add: algebra_simps)
  show "grub_strstr m (p + 3) lit = Some (p + 3 + of_nat (length salt))"
    by (rule grub_strstr_char [OF assms(2,3) c3 s])
  have e: "p + 3 + of_nat (length salt) = p + of_nat (3 + length salt)" by (simp add: algebra_simps)
  have u: "unat (p + of_nat (3 + length salt)) = unat p + (3 + length salt)"

  proof -
    have b: "unat p + (3 + length salt) < 4294967296" using assms(1) l by (simp add: crypted_at_def)
    then have u: "unat (of_nat (3 + length salt) :: u32) = 3 + length salt" by (intro unat_of_nat_u32) simp
    with b show ?thesis by (subst unat_add_nowrap) (simp_all only:)
  qed
  have "unat (p + 3 + of_nat (length salt)) \<noteq> 0" unfolding e u by simp
  then show "p + 3 + of_nat (length salt) \<noteq> 0" by (metis unat_0)
  show "bytes_at m (p + 3) (length salt) = salt" by (rule bytes_at_cstr [OF c3])
  show "bytes_at m p (3 + length salt) = magic @ salt"
    using bytes_at_cstr [of m p "magic @ salt" "36 # rest"] c l by simp
  show "cstr m (p + 3 + of_nat (length salt) + 1) rest"
    using cstr_drop [OF c3, of "length salt + 1"] by (simp add: algebra_simps)
qed

lemma moderate_words:
  assumes "moderate xs"
  shows "unat (of_nat (length xs) :: u32) = length xs" and "unat (3 + of_nat (length xs) :: u32) = 3 + length xs"
    and "sint (of_nat (length xs) :: u32) = int (length xs)"
proof -
  have l: "length xs < 16777216" using assms by (simp add: moderate_def)
  show "unat (of_nat (length xs) :: u32) = length xs" using l by (intro unat_of_nat_u32) simp
  have "unat (of_nat (3 + length xs) :: u32) = 3 + length xs" using l by (intro unat_of_nat_u32) simp
  then show "unat (3 + of_nat (length xs) :: u32) = 3 + length xs" by simp
  show "sint (of_nat (length xs) :: u32) = int (length xs)"
    using sint_of_int_small [of "int (length xs)"] l by simp
qed

lemma key_first: "cstr m key k \<Longrightarrow> m key = hd (k @ [0])"
  by (cases k) simp_all

lemma check_result:
  assumes "length (md_buffer c) = 64" and "cstr m lit [36]" and "lit < lit + 1" and "cstr m key k" and "moderate k"
    and "crypted_at m crypted magic salt rest"
  shows "\<exists>r c'. md5_password lit key crypted True m c = Some (r, m, c') \<and> length (md_buffer c') = 64 \<and>
    (r = 0 \<longleftrightarrow> rest = crypt_hash k magic salt)"
proof -
  note f = crypted_facts [OF assms(6,2,3)]
  let ?q = "crypted + 3 + of_nat (length salt) + 1"
  have l: "length magic = 3" and sm: "moderate salt" and rm: "moderate rest"
    using assms(6) by (simp_all add: crypted_at_def)
  obtain d c' where dc: "crypt_digest k salt (magic @ salt) (m key) 0 c = (d, c')"
    by (cases "crypt_digest k salt (magic @ salt) (m key) 0 c")
  have d: "digest_text d = crypt_hash k magic salt" and c': "length (md_buffer c') = 64"
    using crypt_digest_hash [OF assms(1,5) sm l key_first [OF assms(4)]] dc by simp_all
  have long: "\<not> sint (of_nat (4 + length salt + length rest) :: u32) \<le> 3"
    using sint_of_int_small [of "int (4 + length salt + length rest)"] sm rm by (simp add: moderate_def)
  have k0: "m (key + of_nat (length k)) = 0" by (rule cstr_end [OF assms(4)])
  have key: "bytes_at m key (length k) = k" using bytes_at_cstr [of m key k "[]"] assms(4) by simp
  have run: "md5_password lit key crypted True m c =
      (case crypt_words True d ?q m of None \<Rightarrow> Some (1, m, c') | Some (p, m) \<Rightarrow> Some (int_of_char (m p), m, c'))"
    using f moderate_words [OF sm] moderate_words(1) [OF assms(5)] long
    by (simp add: md5_password_def grub_strlen_cstr [OF assms(4)] Let_def k0 key dc del: of_nat_add split: option.split)
  have iff: "text_at m ?q (digest_text d) \<and> m (?q + of_nat (length (digest_text d))) = 0 \<longleftrightarrow> rest = digest_text d"
    using text_at_cstr [OF digest_text_nonzero, of m ?q] f(6) cstr_unique by blast
  show ?thesis
    unfolding run crypt_words_text using iff d c' by auto
qed

text \<open>What making a password writes: \<open>$\<close>, the text of the hash, and the terminator.\<close>

definition made :: "u32 \<Rightarrow> u8 list \<Rightarrow> u8 list \<Rightarrow> u8 list \<Rightarrow> mem \<Rightarrow> mem" where
  "made crypted k magic salt = put_bytes (crypted + 3 + of_nat (length salt)) (36 # crypt_hash k magic salt @ [0])"

lemma crypt_hash_facts: "length (crypt_hash k magic salt) = 22" "0 \<notin> set (crypt_hash k magic salt)"
  by (simp_all add: crypt_hash_def Let_def digest_text_length digest_text_nonzero del: upt_rec_numeral)

lemma make_result:
  assumes "length (md_buffer c) = 64" and "cstr m lit [36]" and "lit < lit + 1" and "cstr m key k" and "moderate k"
    and "crypted_at m crypted magic salt rest" and "length salt \<le> 8"
  shows "\<exists>c'. md5_password lit key crypted False m c = Some (0, made crypted k magic salt m, c') \<and> length (md_buffer c') = 64"
proof -
  note f = crypted_facts [OF assms(6,2,3)]
  let ?e = "crypted + 3 + of_nat (length salt)"
  have l: "length magic = 3" and sm: "moderate salt" using assms(6) by (simp_all add: crypted_at_def)
  define m1 where "m1 = m(?e := 36)"
  have same: "m ?e = 36"
    using cstr_nth [of m crypted "magic @ salt @ 36 # rest" "3 + length salt"] assms(6) l
    by (simp add: crypted_at_def nth_append algebra_simps)
  then have m1: "m1 = m" by (simp add: m1_def fun_upd_idem)
  obtain d c' where dc: "crypt_digest k salt (magic @ salt) (m key) 0 c = (d, c')"
    by (cases "crypt_digest k salt (magic @ salt) (m key) 0 c")
  have d: "digest_text d = crypt_hash k magic salt" and c': "length (md_buffer c') = 64"
    using crypt_digest_hash [OF assms(1,5) sm l key_first [OF assms(4)]] dc by simp_all
  have k0: "m (key + of_nat (length k)) = 0" by (rule cstr_end [OF assms(4)])
  have key: "bytes_at m key (length k) = k" using bytes_at_cstr [of m key k "[]"] assms(4) by simp
  have n: "(if ?e \<noteq> 0 \<and> sint (?e - (crypted + 3)) < 8 then ?e - (crypted + 3) else 8) = of_nat (length salt)"
    using f(3) moderate_words(3) [OF sm] assms(7) by auto
  have m2: "m(?e := 36) = m" using m1 by (simp add: m1_def)
  let ?p = "?e + 1 + of_nat (length (digest_text d))"
  have run: "md5_password lit key crypted False m c
      = Some (0, (put_bytes (?e + 1) (digest_text d) m1)(?p := 0), c')"
    unfolding md5_password_def Let_def grub_strlen_cstr [OF assms(4)] f(2) Option.bind_lunit simp_thms if_False n m2
    using f moderate_words [OF sm] moderate_words(1) [OF assms(5)]
    by (simp add: k0 key dc crypt_words_text m1)
  moreover have "(put_bytes (?e + 1) (digest_text d) m1)(?p := 0) = made crypted k magic salt m"
    by (simp add: made_def m1_def d put_bytes_append)
  ultimately show ?thesis using c' by simp
qed

lemma made_crypted:
  assumes "crypted_at m crypted magic salt rest" and "unat crypted + 4 + length salt + 22 < 2 ^ 32"
  shows "crypted_at (made crypted k magic salt m) crypted magic salt (crypt_hash k magic salt)"
proof -
  let ?h = "crypt_hash k magic salt" let ?e = "crypted + of_nat (3 + length salt)"
  have l: "length magic = 3" and sm: "moderate salt" and s: "36 \<notin> set salt"
    and c: "cstr m crypted (magic @ salt @ 36 # rest)"
    using assms(1) by (simp_all add: crypted_at_def)
  define w where "w = (36 # ?h) @ [0]"
  have lw: "length w = 24" by (simp add: w_def crypt_hash_facts)
  have mk: "made crypted k magic salt m = put_bytes ?e w m" by (simp add: made_def w_def algebra_simps)
  have out: "put_bytes ?e w m (crypted + of_nat i) = m (crypted + of_nat i)" if "i < 3 + length salt" for i
  proof (rule put_bytes_outside)
    show "crypted + of_nat i \<notin> region ?e (length w)"
    proof
      assume "crypted + of_nat i \<in> region ?e (length w)"
      then obtain j where j: "j < 24" "crypted + of_nat i = crypted + of_nat (3 + length salt + j)"
        by (auto simp: region_def lw algebra_simps)
      have "i = 3 + length salt + j"
        using j that assms(2) by (subst (asm) offset_eq_iff) auto
      with that show False by simp
    qed
  qed
  have inside: "put_bytes ?e w m (?e + of_nat j) = w ! j" if "j < 24" for j
    using that by (intro put_bytes_nth) (simp_all add: lw)
  have "cstr (made crypted k magic salt m) crypted (magic @ salt @ 36 # ?h)"
  proof (rule cstr_intro)
    fix i assume i: "i < length (magic @ salt @ 36 # ?h)"
    show "made crypted k magic salt m (crypted + of_nat i) = (magic @ salt @ 36 # ?h) ! i \<and> (magic @ salt @ 36 # ?h) ! i \<noteq> 0"
    proof (cases "i < 3 + length salt")
      case True
      then show ?thesis

      proof -
        have pre: "(magic @ salt @ t) ! i = (magic @ salt) ! i" for t
          using True l nth_append [of "magic @ salt" t i] by simp
        have "m (crypted + of_nat i) = (magic @ salt) ! i \<and> (magic @ salt) ! i \<noteq> 0"
          using cstr_nth [OF c, of i] True l unfolding pre by simp
        then show ?thesis unfolding mk out [OF True] pre by simp
      qed
    next
      case False
      then obtain j where j: "i = 3 + length salt + j" by (metis le_Suc_ex not_less)
      then have j': "j < length (36 # ?h)" using i l by simp
      then have "j < 24" by (simp add: crypt_hash_facts)
      moreover have "crypted + of_nat i = ?e + of_nat j" by (simp add: j algebra_simps)
      moreover have "w ! j = (36 # ?h) ! j" using j' by (simp only: w_def nth_append if_True)
      moreover have "(36 # ?h) ! j \<noteq> 0"
      proof
        assume "(36 # ?h) ! j = 0"
        then have "0 \<in> set (36 # ?h)" using nth_mem [OF j'] by simp
        then show False using crypt_hash_facts(2) by simp
      qed
      moreover have "(magic @ salt @ 36 # ?h) ! i = (36 # ?h) ! j" using j l by (simp add: nth_append)
      ultimately show ?thesis using inside [of j] unfolding mk by metis
    qed
  next
    have "crypted + of_nat (length (magic @ salt @ 36 # ?h)) = ?e + of_nat 23"
      using l by (simp add: crypt_hash_facts algebra_simps)
    moreover have "w ! 23 = 0" by (simp add: w_def nth_append crypt_hash_facts)
    ultimately show "made crypted k magic salt m (crypted + of_nat (length (magic @ salt @ 36 # ?h))) = 0"
      using inside [of 23] by (simp only: mk)
  qed
  then show ?thesis
    using l s sm assms(2) by (simp add: crypted_at_def crypt_hash_facts moderate_def)
qed

section \<open>Properties\<close>

text \<open>
  Property C38. However a message shorter than 512 megabytes is cut into pieces, the digest of the boot loader is the
  MD5 digest of RFC 1321 of the whole message, whatever the static variables held before.
\<close>

theorem md5_correct:
  assumes "length (md_buffer c) = 64" and "length (concat pieces) < 2 ^ 29"
  shows "fst (md5_final (fold md5_update pieces (md5_init c))) = rfc_md5 (concat pieces)"
  by (rule digest_of(1) [OF assms(1)]) (use assms(2) in simp)

definition demo_md5 :: md5 where
  "demo_md5 = \<lparr>md_state = [], md_length = 5, md_buffer = replicate 64 7\<rparr>"

theorem md5_correct_witness:
  "fst (md5_final (md5_update (bytes ''c'') (md5_update (bytes ''ab'') (md5_init demo_md5)))) = rfc_md5 (bytes ''abc'')"
  using md5_correct [of demo_md5 "[bytes ''ab'', bytes ''c'']"] by (simp add: demo_md5_def)

text \<open>
  The digest of \<open>abc\<close> is the one of the test suite of the standard.
\<close>

lemma md5_abc:
  "fst (md5_final (md5_update (bytes ''abc'') (md5_init demo_md5))) =
     [0x90, 0x01, 0x50, 0x98, 0x3c, 0xd2, 0x4f, 0xb0, 0xd6, 0x96, 0x3f, 0x7d, 0x28, 0xe1, 0x7f, 0x72]"
  by code_simp

text \<open>
  Property C39. A password is accepted exactly if its hash is the stored one: making a crypted password returns, keeps
  the header and the salt, and writes the hash of the key with a terminator; afterwards checking a key succeeds if and
  only if the key has the same hash under this salt, in particular for the key itself, and leaves the memory alone.
\<close>

theorem md5_password_roundtrip:
  assumes "length (md_buffer c) = 64" and "cstr m lit [36]" and "lit < lit + 1" and "cstr m key k" and "moderate k"
    and "crypted_at m crypted magic salt rest" and "length salt \<le> 8" and "unat crypted + 4 + length salt + 22 < 2 ^ 32"
    and "cstr m key' k'" and "moderate k'"
    and "region (crypted + 3 + of_nat (length salt)) 24 \<inter> (region lit 2 \<union> region key' (Suc (length k'))) = {}"
  shows "\<exists>m' c' r c''. md5_password lit key crypted False m c = Some (0, m', c') \<and>
    crypted_at m' crypted magic salt (crypt_hash k magic salt) \<and>
    md5_password lit key' crypted True m' c' = Some (r, m', c'') \<and>
    (r = 0 \<longleftrightarrow> crypt_hash k' magic salt = crypt_hash k magic salt)"
proof -
  let ?m = "made crypted k magic salt m"
  obtain c' where mk: "md5_password lit key crypted False m c = Some (0, ?m, c')" and c': "length (md_buffer c') = 64"
    using make_result [OF assms(1-7)] by blast
  have keep: "cstr ?m p s = cstr m p s" if "region (crypted + 3 + of_nat (length salt)) 24 \<inter> region p (Suc (length s)) = {}" for p s
    unfolding made_def using that by (intro cstr_put_bytes) (simp add: crypt_hash_facts)
  have "cstr ?m lit [36]" "cstr ?m key' k'"
    using keep [of lit "[36]"] keep [of key' k'] assms(2,9,11) by (auto simp: numeral_2_eq_2)
  then obtain r c'' where "md5_password lit key' crypted True ?m c' = Some (r, ?m, c'')"
    "r = 0 \<longleftrightarrow> crypt_hash k magic salt = crypt_hash k' magic salt"
    using check_result [OF c' _ assms(3) _ assms(10) made_crypted [OF assms(6,8)]] by blast
  with mk made_crypted [OF assms(6,8)] show ?thesis by metis
qed

definition demo_password :: mem where
  "demo_password = put_bytes 100 (bytes ''$'' @ [0]) (put_bytes 200 (bytes ''secret'' @ [0])
     (put_bytes 300 (bytes ''$1$salt$'' @ [0]) (\<lambda>_. 0)))"

theorem md5_password_roundtrip_witness:
  "\<exists>m' c' c''. md5_password 100 200 300 False demo_password demo_md5 = Some (0, m', c') \<and>
     md5_password 100 200 300 True m' c' = Some (0, m', c'')"
proof -
  have k: "cstr demo_password 100 [36]" "cstr demo_password 200 (bytes ''secret'')"
    "crypted_at demo_password 300 (bytes ''$1$'') (bytes ''salt'') []"
    by (simp_all add: demo_password_def crypted_at_def moderate_def)
  have r: "region (300 + 3 + of_nat (length (bytes ''salt''))) 24 \<inter>
      (region 100 2 \<union> region 200 (Suc (length (bytes ''secret'')))) = {}"
    using region_apart [of 307 24 100 2] region_apart [of 307 24 200 "Suc (length (bytes ''secret''))"]
    by (simp add: Int_Un_distrib)
  have "length (md_buffer demo_md5) = 64" "moderate (bytes ''secret'')"
    by (simp_all add: demo_md5_def moderate_def)
  then obtain m' c' r c'' where
    "md5_password 100 200 300 False demo_password demo_md5 = Some (0, m', c')"
    "md5_password 100 200 300 True m' c' = Some (r, m', c'')" "r = 0"
    using md5_password_roundtrip [of demo_md5 demo_password 100 200 "bytes ''secret''" 300 "bytes ''$1$''" "bytes ''salt''" "[]"
        200 "bytes ''secret''"] k r by auto
  then show ?thesis by blast
qed

end
