(* ===== verification/LineEdit.thy ===== *)
theory LineEdit
  imports CBase
begin

text \<open>
  The command-line editor of the boot loader (\<^verbatim>\<open>real_get_cmdline\<close> of \<^verbatim>\<open>tools/grub-vbe-patch/stage2/char_io.c\<close>). The
  working buffer, the kill buffer and the history follow each other in one memory, at the addresses of
  \<^verbatim>\<open>shared.h\<close>; the buffer of the caller is an array of its own. What goes to the terminal is recorded, and \<open>tty\<close> is a
  terminal that shows it; the position \<^verbatim>\<open>getxy\<close> reports is the one of that terminal. The pager is off while a line
  is edited (\<^verbatim>\<open>count_lines\<close> is negative).
\<close>

section \<open>The terminal\<close>

datatype term_event = TPut u8 | TGoto int

text \<open>The current row and the column of the cursor; \<open>below\<close> is what the next row holds.\<close>

type_synonym tscreen = "(int \<Rightarrow> u8) \<times> int"

fun tstep :: "(int \<Rightarrow> u8) \<Rightarrow> tscreen \<Rightarrow> term_event \<Rightarrow> tscreen" where
  "tstep below (row, x) (TPut c) =
     (if c = 13 then (row, 0) else if c = 10 then (below, x) else if c = 8 then (row, x - 1)
      else (row(x := c), x + 1))"
| "tstep below (row, x) (TGoto k) = (row, k)"

definition tty :: "(int \<Rightarrow> u8) \<Rightarrow> term_event list \<Rightarrow> tscreen" where
  "tty below evs = foldl (tstep below) (below, 0) evs"

section \<open>State\<close>

definition MAX_CMDLINE :: int where "MAX_CMDLINE = 1600"
definition HISTORY_SIZE :: int where "HISTORY_SIZE = 5"
definition CMDLINE_BUF :: int where "CMDLINE_BUF = 0x78000 + 0x200 + 0x60"
definition KILL_BUF :: int where "KILL_BUF = CMDLINE_BUF + MAX_CMDLINE"
definition HISTORY_BUF :: int where "HISTORY_BUF = KILL_BUF + MAX_CMDLINE"
definition COMPLETION_BUF :: int where "COMPLETION_BUF = HISTORY_BUF + MAX_CMDLINE * HISTORY_SIZE"
definition CMDLINE_WIDTH :: int where "CMDLINE_WIDTH = 78"
definition CMDLINE_MARGIN :: int where "CMDLINE_MARGIN = 10"

type_synonym array = "int \<Rightarrow> u8"

text \<open>The arguments, and whether the terminal is dumb.\<close>

record cl_args =
  cl_prompt :: "u8 list"
  cl_maxlen :: int
  cl_echo :: u8
  cl_readline :: bool
  cl_dumb :: bool

record editor =
  e_xpos :: int
  e_lpos :: int
  e_llen :: int
  e_section :: int
  e_mem :: array
  e_cmdline :: array
  e_history :: int
  e_num_history :: int
  e_out :: "term_event list"

text \<open>\<^verbatim>\<open>grub_memmove\<close> within an array, from one array to another, and from given bytes.\<close>

definition amove :: "int \<Rightarrow> int \<Rightarrow> int \<Rightarrow> array \<Rightarrow> array" where
  "amove dst src n a = (\<lambda>i. if dst \<le> i \<and> i < dst + n then a (i - dst + src) else a i)"

definition acopy :: "int \<Rightarrow> array \<Rightarrow> int \<Rightarrow> int \<Rightarrow> array \<Rightarrow> array" where
  "acopy dst b src n a = (\<lambda>i. if dst \<le> i \<and> i < dst + n then b (i - dst + src) else a i)"

definition astore :: "int \<Rightarrow> u8 list \<Rightarrow> array \<Rightarrow> array" where
  "astore dst xs a = (\<lambda>i. if dst \<le> i \<and> i < dst + int (length xs) then xs ! nat (i - dst) else a i)"

text \<open>The string at an offset; every string of the editor ends within \<^verbatim>\<open>MAX_CMDLINE\<close> bytes.\<close>

definition astring :: "array \<Rightarrow> int \<Rightarrow> u8 list" where
  "astring a off = takeWhile (\<lambda>c. c \<noteq> 0) (map (\<lambda>i. a (off + int i)) [0..<nat MAX_CMDLINE])"

section \<open>Output\<close>

definition term_put :: "u8 \<Rightarrow> editor \<Rightarrow> editor" where
  "term_put c e = e\<lparr>e_out := e_out e @ [TPut c]\<rparr>"

definition gotox :: "int \<Rightarrow> editor \<Rightarrow> editor" where
  "gotox x e = e\<lparr>e_out := e_out e @ [TGoto x]\<rparr>"

definition grub_putchar :: "u8 \<Rightarrow> editor \<Rightarrow> editor" where
  "grub_putchar c e =
     (if c = 10 then term_put 10 (term_put 13 e)
      else if c = 9
      then (let n = 8 - snd (tty (\<lambda>_. 0) (e_out e)) AND 3 in for_int (\<lambda>_. term_put 32) 0 n e)
      else term_put c e)"

definition put_at :: "cl_args \<Rightarrow> int \<Rightarrow> editor \<Rightarrow> editor" where
  "put_at p i e = (if cl_echo p = 0 then grub_putchar (e_mem e (CMDLINE_BUF + i)) e else grub_putchar (cl_echo p) e)"

section \<open>The nested functions\<close>

text \<open>
  The end of \<^verbatim>\<open>cl_refresh\<close>: the text from \<open>start\<close> on up to the length or the end of the line, spaces for the
  rest, the mark in the last column, and the cursor back to its place. \<open>i1\<close> and \<open>i2\<close> are the values of \<^verbatim>\<open>i\<close> after
  the two loops.
\<close>

definition cl_draw :: "cl_args \<Rightarrow> int \<Rightarrow> int \<Rightarrow> int \<Rightarrow> editor \<Rightarrow> editor" where
  "cl_draw p start len pos e =
     (let i1 = max start (min (start + len) (e_llen e));
          e = for_int (put_at p) start i1 e; pos = pos + (i1 - start);
          i2 = max i1 (start + len);
          e = for_int (\<lambda>_. grub_putchar 32) i1 i2 e; pos = pos + (i2 - i1);
          (e, pos) = (if pos = CMDLINE_WIDTH
                      then (grub_putchar (if start + len < e_llen e then 62 else 32) e, pos + 1) else (e, pos))
      in if cl_dumb p then for_int (\<lambda>_. grub_putchar 8) 0 (pos - e_xpos e) e else gotox (e_xpos e) e)"

text \<open>The index in the buffer that is shown in the first column after the mark, in a section other than the first.\<close>

definition section_start :: "cl_args \<Rightarrow> int \<Rightarrow> int" where
  "section_start p s = (s - 1) * (CMDLINE_WIDTH - 1 - CMDLINE_MARGIN) + CMDLINE_WIDTH - int (length (cl_prompt p)) - CMDLINE_MARGIN"

definition cl_refresh :: "cl_args \<Rightarrow> bool \<Rightarrow> int \<Rightarrow> editor \<Rightarrow> editor" where
  "cl_refresh p full len e =
     (let plen = int (length (cl_prompt p));
          (e, len, pos) =
            (if full
             then let e = e\<lparr>e_section := (if e_lpos e + plen < CMDLINE_WIDTH then 0
                    else sdiv_c (e_lpos e + plen - CMDLINE_WIDTH) (CMDLINE_WIDTH - 1 - CMDLINE_MARGIN) + 1)\<rparr>;
                      e = grub_putchar 13 e
                  in if e_section e = 0 then (fold grub_putchar (cl_prompt p) e, CMDLINE_WIDTH - plen, plen)
                     else (grub_putchar 60 e, CMDLINE_WIDTH - 1, 1)
             else (e, len, e_xpos e));
          (start, e) =
            (if e_section e = 0
             then let offset = (if full then 0 else e_xpos e - plen) in (offset, e\<lparr>e_xpos := e_lpos e + plen\<rparr>)
             else let offset = (if full then 0 else e_xpos e - 1); start = section_start p (e_section e)
                  in (start + offset, e\<lparr>e_xpos := e_lpos e + 1 - start\<rparr>))
      in cl_draw p start len pos e)"

definition cl_backward :: "cl_args \<Rightarrow> int \<Rightarrow> editor \<Rightarrow> editor" where
  "cl_backward p count e =
     (let e = e\<lparr>e_lpos := e_lpos e - count\<rparr>
      in if e_section e = 1 \<and> int (length (cl_prompt p)) + e_lpos e < CMDLINE_WIDTH then cl_refresh p True 0 e
         else if e_xpos e - count < 1 then cl_refresh p True 0 e
         else let e = e\<lparr>e_xpos := e_xpos e - count\<rparr>
              in if cl_dumb p then for_int (\<lambda>_. grub_putchar 8) 0 count e else gotox (e_xpos e) e)"

definition cl_forward :: "cl_args \<Rightarrow> int \<Rightarrow> editor \<Rightarrow> editor" where
  "cl_forward p count e =
     (let e = e\<lparr>e_lpos := e_lpos e + count\<rparr>
      in if e_xpos e + count \<ge> CMDLINE_WIDTH then cl_refresh p True 0 e
         else let e = e\<lparr>e_xpos := e_xpos e + count\<rparr>
              in if cl_dumb p then for_int (put_at p) (e_lpos e - count) (e_lpos e) e else gotox (e_xpos e) e)"

definition cl_init :: "cl_args \<Rightarrow> editor \<Rightarrow> editor" where
  "cl_init p e = cl_refresh p True 0 (grub_putchar 10 e)"

definition cl_insert :: "cl_args \<Rightarrow> u8 list \<Rightarrow> editor \<Rightarrow> editor" where
  "cl_insert p str e =
     (let l = int (length str)
      in if e_llen e + l < cl_maxlen p
         then let e = (if e_lpos e = e_llen e then e\<lparr>e_mem := astore (CMDLINE_BUF + e_lpos e) (str @ [0]) (e_mem e)\<rparr>
                       else let e = e\<lparr>e_mem := amove (CMDLINE_BUF + e_lpos e + l) (CMDLINE_BUF + e_lpos e)
                                (e_llen e - e_lpos e + 1) (e_mem e)\<rparr>
                            in e\<lparr>e_mem := astore (CMDLINE_BUF + e_lpos e) str (e_mem e)\<rparr>);
                  e = e\<lparr>e_llen := e_llen e + l, e_lpos := e_lpos e + l\<rparr>
              in if e_xpos e + l \<ge> CMDLINE_WIDTH then cl_refresh p True 0 e
                 else if e_xpos e + l + e_llen e - e_lpos e > CMDLINE_WIDTH
                 then cl_refresh p False (CMDLINE_WIDTH - e_xpos e) e
                 else cl_refresh p False (l + e_llen e - e_lpos e) e
         else e)"

definition cl_delete :: "cl_args \<Rightarrow> int \<Rightarrow> editor \<Rightarrow> editor" where
  "cl_delete p count e =
     (let e = e\<lparr>e_mem := amove (CMDLINE_BUF + e_lpos e) (CMDLINE_BUF + e_lpos e + count) (e_llen e - count + 1) (e_mem e)\<rparr>;
          e = e\<lparr>e_llen := e_llen e - count\<rparr>
      in if e_xpos e + e_llen e + count - e_lpos e > CMDLINE_WIDTH
         then cl_refresh p False (CMDLINE_WIDTH - e_xpos e) e
         else cl_refresh p False (e_llen e + count - e_lpos e) e)"

section \<open>History\<close>

definition get_history :: "int \<Rightarrow> editor \<Rightarrow> int option" where
  "get_history no e = (if no < 0 \<or> no \<ge> e_num_history e then None else Some (HISTORY_BUF + MAX_CMDLINE * no))"

definition add_history :: "u8 list \<Rightarrow> int \<Rightarrow> editor \<Rightarrow> editor" where
  "add_history cmdline no e =
     (let e = e\<lparr>e_mem := amove (HISTORY_BUF + MAX_CMDLINE * (no + 1)) (HISTORY_BUF + MAX_CMDLINE * no)
            (MAX_CMDLINE * (e_num_history e - no)) (e_mem e)\<rparr>;
          e = e\<lparr>e_mem := astore (HISTORY_BUF + MAX_CMDLINE * no) (cmdline @ [0]) (e_mem e)\<rparr>
      in if e_num_history e < HISTORY_SIZE then e\<lparr>e_num_history := e_num_history e + 1\<rparr> else e)"

section \<open>Keys\<close>

abbreviation buf_string :: "editor \<Rightarrow> u8 list" where
  "buf_string e \<equiv> astring (e_mem e) CMDLINE_BUF"

text \<open>Loading a line: the string becomes the working buffer, the cursor goes to its end.\<close>

definition load_line :: "cl_args \<Rightarrow> u8 list \<Rightarrow> editor \<Rightarrow> editor" where
  "load_line p s e =
     (let e = e\<lparr>e_mem := astore CMDLINE_BUF (s @ [0]) (e_mem e)\<rparr>;
          e = e\<lparr>e_llen := int (length (buf_string e))\<rparr>; e = e\<lparr>e_lpos := e_llen e\<rparr>
      in cl_refresh p True 0 e)"

definition key_beginning :: "cl_args \<Rightarrow> editor \<Rightarrow> editor" where
  "key_beginning p e = cl_backward p (e_lpos e) e"

definition key_end :: "cl_args \<Rightarrow> editor \<Rightarrow> editor" where
  "key_end p e = cl_forward p (e_llen e - e_lpos e) e"

definition key_right :: "cl_args \<Rightarrow> editor \<Rightarrow> editor" where
  "key_right p e = (if e_lpos e < e_llen e then cl_forward p 1 e else e)"

definition key_left :: "cl_args \<Rightarrow> editor \<Rightarrow> editor" where
  "key_left p e = (if e_lpos e > 0 then cl_backward p 1 e else e)"

definition key_kill_left :: "cl_args \<Rightarrow> editor \<Rightarrow> editor" where
  "key_kill_left p e =
     (if e_lpos e = 0 then e
      else let e = e\<lparr>e_mem := amove KILL_BUF CMDLINE_BUF (e_lpos e) (e_mem e)\<rparr>;
               e = e\<lparr>e_mem := (e_mem e)(KILL_BUF + e_lpos e := 0)\<rparr>;
               count = e_lpos e
           in cl_delete p count (cl_backward p (e_lpos e) e))"

definition key_kill_right :: "cl_args \<Rightarrow> editor \<Rightarrow> editor" where
  "key_kill_right p e =
     (if e_lpos e = e_llen e then e
      else let e = e\<lparr>e_mem := amove KILL_BUF (CMDLINE_BUF + e_lpos e) (e_llen e - e_lpos e + 1) (e_mem e)\<rparr>
           in cl_delete p (e_llen e - e_lpos e) e)"

definition key_yank :: "cl_args \<Rightarrow> editor \<Rightarrow> editor" where
  "key_yank p e = cl_insert p (astring (e_mem e) KILL_BUF) e"

text \<open>Before another line is fetched the working buffer is saved, or added to the history when it was changed.\<close>

definition keep_line :: "editor \<Rightarrow> editor" where
  "keep_line e =
     (case get_history (e_history e) e of
        Some h \<Rightarrow> if astring (e_mem e) h \<noteq> buf_string e then add_history (buf_string e) (e_history e) e else e
      | None \<Rightarrow> e)"

definition key_previous :: "cl_args \<Rightarrow> editor \<Rightarrow> editor" where
  "key_previous p e =
     (let e = (if e_history e < 0 then e\<lparr>e_cmdline := astore 0 (buf_string e @ [0]) (e_cmdline e)\<rparr> else keep_line e);
          e = e\<lparr>e_history := e_history e + 1\<rparr>
      in case get_history (e_history e) e of
           None \<Rightarrow> e\<lparr>e_history := e_history e - 1\<rparr>
         | Some h \<Rightarrow> load_line p (astring (e_mem e) h) e)"

definition key_next :: "cl_args \<Rightarrow> editor \<Rightarrow> editor" where
  "key_next p e =
     (if e_history e < 0 then e
      else let e = keep_line e; e = e\<lparr>e_history := e_history e - 1\<rparr>
           in load_line p (case get_history (e_history e) e of
                None \<Rightarrow> astring (e_cmdline e) 0 | Some h \<Rightarrow> astring (e_mem e) h) e)"

definition key_delete :: "cl_args \<Rightarrow> editor \<Rightarrow> editor" where
  "key_delete p e = (if e_lpos e = e_llen e then e else cl_delete p 1 e)"

definition key_backspace :: "cl_args \<Rightarrow> editor \<Rightarrow> editor" where
  "key_backspace p e = (if e_lpos e > 0 then cl_delete p 1 (cl_backward p 1 e) else e)"

text \<open>
  \<^verbatim>\<open>TAB\<close>: the word before the cursor is completed by \<^verbatim>\<open>print_completions\<close>, a parameter that is told whether the word is a
  file name and whether to complete it or to list the candidates; an equals sign after the command is a space meanwhile.
\<close>

definition key_complete :: "(bool \<Rightarrow> bool \<Rightarrow> editor \<Rightarrow> int \<times> editor) \<Rightarrow> cl_args \<Rightarrow> editor \<Rightarrow> editor" where
  "key_complete print_completions p e =
     (let s = buf_string e;
          spaces = length (takeWhile (\<lambda>c. c = 32) s);
          pos = spaces + length (takeWhile (\<lambda>c. c \<noteq> 61 \<and> c \<noteq> 32) (drop spaces s));
          is_filename = (e_lpos e > int pos);
          i = pos + length (takeWhile (\<lambda>c. c \<noteq> 61 \<and> c \<noteq> 32) (drop pos s));
          equal_pos = (if i < length s \<and> s ! i = 61 then int i else - 1);
          e = (if equal_pos \<ge> 0 then e\<lparr>e_mem := (e_mem e)(CMDLINE_BUF + equal_pos := 32)\<rparr> else e);
          i = e_lpos e - int (length (takeWhile (\<lambda>c. c \<noteq> 32) (rev (take (nat (e_lpos e)) (buf_string e)))));
          e = e\<lparr>e_mem := amove COMPLETION_BUF (CMDLINE_BUF + i) (e_lpos e - i) (e_mem e)\<rparr>;
          e = e\<lparr>e_mem := (e_mem e)(COMPLETION_BUF + (e_lpos e - i) := 0)\<rparr>;
          (ret, e) = print_completions is_filename True e;
          e = (if ret \<ge> 0
               then let e = cl_insert p (astring (e_mem e) (COMPLETION_BUF + (e_lpos e - i))) e
                    in if ret > 0 then snd (print_completions is_filename False (grub_putchar 10 e)) else e
               else e);
          e = (if equal_pos \<ge> 0 then e\<lparr>e_mem := (e_mem e)(CMDLINE_BUF + equal_pos := 61)\<rparr> else e)
      in if ret \<noteq> 0 then cl_init p e else e)"

text \<open>
  The turn of the loop for a key that neither ends the line nor is \<^verbatim>\<open>ESC\<close>; \<open>complete\<close> stands for the completion
  of the word before the cursor.
\<close>

definition edit_key :: "(editor \<Rightarrow> editor) \<Rightarrow> cl_args \<Rightarrow> u8 \<Rightarrow> editor \<Rightarrow> editor" where
  "edit_key complete p c e =
     (let e = (if cl_readline p
               then if c = 9 then complete e else if c = 1 then key_beginning p e else if c = 5 then key_end p e
                    else if c = 6 then key_right p e else if c = 2 then key_left p e
                    else if c = 21 then key_kill_left p e else if c = 11 then key_kill_right p e
                    else if c = 25 then key_yank p e else if c = 16 then key_previous p e
                    else if c = 14 then key_next p e else e
               else e)
      in if c = 4 then key_delete p e else if c = 8 then key_backspace p e
         else if 32 \<le> int_of_char c \<and> int_of_char c \<le> 126 then cl_insert p [c] e else e)"

text \<open>
  \<^verbatim>\<open>real_get_cmdline\<close>: the beginning, the loop over the keys that are typed (no result while the line is not ended), and
  the end. The first component of the result is the value returned.
\<close>

definition get_begin :: "cl_args \<Rightarrow> editor \<Rightarrow> cl_args \<times> editor" where
  "get_begin p e =
     (let e = e\<lparr>e_llen := int (length (astring (e_cmdline e) 0)), e_history := - 1\<rparr>;
          (p, e) = (if cl_maxlen p > MAX_CMDLINE
                    then (p\<lparr>cl_maxlen := MAX_CMDLINE\<rparr>,
                          if e_llen e \<ge> MAX_CMDLINE
                          then e\<lparr>e_llen := MAX_CMDLINE - 1, e_cmdline := (e_cmdline e)(MAX_CMDLINE := 0)\<rparr> else e)
                    else (p, e));
          e = e\<lparr>e_lpos := e_llen e\<rparr>;
          e = e\<lparr>e_mem := astore CMDLINE_BUF (astring (e_cmdline e) 0 @ [0]) (e_mem e)\<rparr>
      in (p, cl_init p e))"

definition get_end :: "cl_args \<Rightarrow> editor \<Rightarrow> editor" where
  "get_end p e =
     (let e = grub_putchar 10 e;
          e = e\<lparr>e_lpos := (if cl_echo p = 0 then int (length (takeWhile (\<lambda>c. c = 32) (buf_string e))) else 0)\<rparr>;
          e = e\<lparr>e_cmdline := acopy 0 (e_mem e) (CMDLINE_BUF + e_lpos e) (e_llen e - e_lpos e + 1) (e_cmdline e)\<rparr>
      in if cl_readline p \<and> e_lpos e < e_llen e then add_history (astring (e_cmdline e) 0) 0 e else e)"

fun edit_loop :: "(editor \<Rightarrow> editor) \<Rightarrow> cl_args \<Rightarrow> u8 list \<Rightarrow> editor \<Rightarrow> (int \<times> editor) option" where
  "edit_loop complete p [] e = None"
| "edit_loop complete p (c # cs) e =
     (if c = 10 \<or> c = 13 then Some (0, get_end p e)
      else if c = 27 then Some (1, e)
      else edit_loop complete p cs (edit_key complete p c e))"

definition real_get_cmdline :: "(editor \<Rightarrow> editor) \<Rightarrow> cl_args \<Rightarrow> u8 list \<Rightarrow> editor \<Rightarrow> (int \<times> editor) option" where
  "real_get_cmdline complete p keys e = (let (p, e) = get_begin p e in edit_loop complete p keys e)"

text \<open>
  \<^verbatim>\<open>get_cmdline\<close>: on a terminal without echo or editing the characters are only gathered, from \<open>pos\<close> on. The shape of
  the cursor is left out.
\<close>

fun gather_keys :: "bool \<Rightarrow> u8 list \<Rightarrow> int \<Rightarrow> editor \<Rightarrow> (int \<times> editor) option" where
  "gather_keys no_echo [] pos e = None"
| "gather_keys no_echo (c # cs) pos e =
     (if c = 10 \<or> c = 13
      then let e = e\<lparr>e_cmdline := (e_cmdline e)(pos := 0)\<rparr> in Some (0, if no_echo then e else grub_putchar 10 e)
      else if c = 27 then Some (1, e)
      else if 32 \<le> int_of_char c \<and> int_of_char c \<le> 126
      then let e = (if no_echo then e else grub_putchar c e)
           in if c \<noteq> 32 \<or> pos \<noteq> 0 then gather_keys no_echo cs (pos + 1) (e\<lparr>e_cmdline := (e_cmdline e)(pos := c)\<rparr>)
              else gather_keys no_echo cs pos e
      else gather_keys no_echo cs pos e)"

definition get_cmdline :: "bool \<Rightarrow> bool \<Rightarrow> (editor \<Rightarrow> editor) \<Rightarrow> cl_args \<Rightarrow> u8 list \<Rightarrow> editor \<Rightarrow> (int \<times> editor) option" where
  "get_cmdline no_echo no_edit complete p keys e =
     (if no_echo \<or> no_edit then gather_keys no_echo keys 0 (fold grub_putchar (cl_prompt p) e)
      else real_get_cmdline complete p keys e)"

end
