(* ===== verification/LineScreen.thy ===== *)
theory LineScreen
  imports LineEdit
begin

text \<open>
  What the command-line editor shows and holds. \<open>row_char\<close> is the row the comment in the source describes: the prompt
  and the beginning of the line, or a section of it behind a mark, and a mark in the last column when more follows.
\<close>

section \<open>Events\<close>

text \<open>Characters that only move the cursor to the right.\<close>

definition plain :: "u8 \<Rightarrow> bool" where
  "plain c \<longleftrightarrow> c \<notin> {0, 8, 9, 10, 13}"

definition emits :: "term_event list \<Rightarrow> editor \<Rightarrow> editor" where
  "emits evs e = e\<lparr>e_out := e_out e @ evs\<rparr>"

lemma emits_simps [simp]:
  "emits [] e = e" "emits b (emits a e) = emits (a @ b) e"
  "e_xpos (emits a e) = e_xpos e" "e_lpos (emits a e) = e_lpos e" "e_llen (emits a e) = e_llen e"
  "e_section (emits a e) = e_section e" "e_mem (emits a e) = e_mem e" "e_cmdline (emits a e) = e_cmdline e"
  "e_history (emits a e) = e_history e" "e_num_history (emits a e) = e_num_history e" "e_out (emits a e) = e_out e @ a"
  by (simp_all add: emits_def)

lemma putchar_emit: "c \<noteq> 9 \<Longrightarrow> c \<noteq> 10 \<Longrightarrow> grub_putchar c e = emits [TPut c] e"
  by (simp add: grub_putchar_def term_put_def emits_def)

lemma putchars_emit: "\<forall>c\<in>set cs. c \<noteq> 9 \<and> c \<noteq> 10 \<Longrightarrow> fold grub_putchar cs e = emits (map TPut cs) e"
  by (induction cs arbitrary: e) (simp_all add: putchar_emit)

lemma gotox_emit: "gotox x e = emits [TGoto x] e"
  by (simp add: gotox_def emits_def)

text \<open>A loop that puts one character per turn.\<close>

lemma for_int_emit:
  assumes "\<And>i e. a \<le> i \<Longrightarrow> i < b \<Longrightarrow> e_mem e = m \<Longrightarrow> f i e = emits [TPut (g i)] e"
  shows "e_mem e = m \<Longrightarrow> for_int f a b e = emits (map (\<lambda>i. TPut (g i)) [a..b - 1]) e"
  using assms
proof (induction f a b e rule: for_int.induct)
  case (1 f i n e)
  show ?case
  proof (cases "i < n")
    case True
    have "for_int f (i + 1) n (f i e) = emits (map (\<lambda>i. TPut (g i)) [i + 1..n - 1]) (f i e)"
      using True 1 by (intro "1.IH") auto
    then show ?thesis using True 1 by (simp add: for_int_step upto_rec1)
  qed simp
qed

text \<open>The character of the line at an index, as it is shown.\<close>

definition vis :: "cl_args \<Rightarrow> editor \<Rightarrow> int \<Rightarrow> u8" where
  "vis p e i = (if cl_echo p = 0 then e_mem e (CMDLINE_BUF + i) else cl_echo p)"

definition col_char :: "cl_args \<Rightarrow> editor \<Rightarrow> int \<Rightarrow> u8" where
  "col_char p e i = (if i < e_llen e then vis p e i else 32)"

definition plain_line :: "cl_args \<Rightarrow> editor \<Rightarrow> bool" where
  "plain_line p e \<longleftrightarrow> (\<forall>i. 0 \<le> i \<and> i < e_llen e \<longrightarrow> plain (vis p e i))"

lemma put_at_emit: "plain (vis p e i) \<Longrightarrow> put_at p i e = emits [TPut (vis p e i)] e"
  by (auto simp: put_at_def vis_def plain_def putchar_emit)

lemma cl_draw_emit:
  assumes "plain_line p e" and "0 \<le> start" and "0 \<le> len"
  shows "cl_draw p start len pos e =
    (let cs = map (\<lambda>i. TPut (col_char p e i)) [start..start + len - 1];
         full = (pos + len = 78);
         mark = (if full then [TPut (if start + len < e_llen e then 62 else 32)] else []);
         end = pos + len + (if full then 1 else 0)
     in emits (cs @ mark @ (if cl_dumb p then map (\<lambda>_. TPut 8) [0..end - e_xpos e - 1] else [TGoto (e_xpos e)])) e)"
proof -
  define i1 where "i1 = max start (min (start + len) (e_llen e))"
  have i1: "start \<le> i1" "i1 \<le> start + len" "i1 \<le> e_llen e \<or> i1 = start" and low: "\<And>i. start \<le> i \<Longrightarrow> i < i1 \<Longrightarrow> i < e_llen e"
    and high: "\<And>i. start \<le> i \<Longrightarrow> i1 \<le> i \<Longrightarrow> i < start + len \<Longrightarrow> \<not> i < e_llen e"
    using assms(3) by (auto simp: i1_def)
  have a: "for_int (put_at p) start i1 e = emits (map (\<lambda>i. TPut (vis p e i)) [start..i1 - 1]) e"
  proof (rule for_int_emit [where m = "e_mem e"])
    fix i :: int and e' :: editor assume i: "start \<le> i" "i < i1" and m: "e_mem (e' :: editor) = e_mem e"
    have v: "vis p e' i = vis p e i" using m by (simp add: vis_def)
    have "plain (vis p e i)" using i assms(1,2) low by (auto simp: plain_line_def)
    then show "put_at p i e' = emits [TPut (vis p e i)] e'" using put_at_emit [of p e' i] v by simp
  qed simp
  have b: "for_int (\<lambda>_. grub_putchar 32) i1 (max i1 (start + len)) e' = emits (map (\<lambda>_. TPut 32) [i1..max i1 (start + len) - 1]) e'" for e' :: editor
    by (rule for_int_emit [where m = "e_mem e'"]) (simp_all add: putchar_emit)
  have c: "for_int (\<lambda>_. grub_putchar 8) 0 k e' = emits (map (\<lambda>_. TPut 8) [0..k - 1]) e'" for e' :: editor and k
    by (rule for_int_emit [where m = "e_mem e'"]) (simp_all add: putchar_emit)
  have m: "max i1 (start + len) = start + len" using i1(2) by simp
  have split: "[start..start + len - 1] = [start..i1 - 1] @ [i1..max i1 (start + len) - 1]"
  proof (cases "i1 \<le> start + len - 1")
    case True
    from upto_split1 [OF i1(1) True] show ?thesis unfolding m .
  next
    case False
    then have "i1 = start + len" using i1(2) by simp
    then show ?thesis by simp
  qed
  have d: "map (\<lambda>i. TPut (col_char p e i)) [start..start + len - 1]
      = map (\<lambda>i. TPut (vis p e i)) [start..i1 - 1] @ map (\<lambda>_. TPut 32) [i1..max i1 (start + len) - 1]"
    unfolding split using low high i1 by (auto simp: col_char_def)
  have pos: "pos + (i1 - start) + (max i1 (start + len) - i1) = pos + len" by (simp add: m)
  show ?thesis
    unfolding cl_draw_def [of p start len pos e, folded i1_def] Let_def a b pos CMDLINE_WIDTH_def d
    by (cases "pos + len = 78"; simp add: putchar_emit gotox_emit c)
qed

section \<open>The row\<close>

lemma screen_append: "tty b (xs @ ys) = foldl (tstep b) (tty b xs) ys"
  by (simp add: tty_def)

lemma row_puts:
  assumes "a \<le> c" and "\<And>i. a \<le> i \<Longrightarrow> i < c \<Longrightarrow> plain (g i)"
  shows "foldl (tstep b) (row, x) (map (\<lambda>i. TPut (g i)) [a..c - 1])
    = (\<lambda>k. if x \<le> k \<and> k < x + (c - a) then g (a + (k - x)) else row k, x + (c - a))"
  using assms
proof (induction "nat (c - a)" arbitrary: a row x)
  case 0
  then show ?case by (auto simp: fun_eq_iff)
next
  case (Suc n)
  then have lt: "a < c" by simp
  then have "[a..c - 1] = a # [a + 1..c - 1]" by (simp add: upto_rec1)
  moreover have "plain (g a)" using Suc.prems lt by simp
  moreover have "foldl (tstep b) (row(x := g a), x + 1) (map (\<lambda>i. TPut (g i)) [a + 1..c - 1])
    = (\<lambda>k. if x + 1 \<le> k \<and> k < x + 1 + (c - (a + 1)) then g (a + 1 + (k - (x + 1))) else (row(x := g a)) k, x + 1 + (c - (a + 1)))"
    using Suc lt by (intro Suc.hyps) auto
  ultimately show ?case using lt by (auto simp: plain_def fun_eq_iff)
qed

lemma row_list:
  "\<forall>c\<in>set cs. plain c \<Longrightarrow> foldl (tstep b) (row, x) (map TPut cs)
     = (\<lambda>k. if x \<le> k \<and> k < x + int (length cs) then cs ! nat (k - x) else row k, x + int (length cs))"
proof (induction cs arbitrary: row x)
  case (Cons c cs)
  then have "foldl (tstep b) (row, x) (map TPut (c # cs)) = foldl (tstep b) (row(x := c), x + 1) (map TPut cs)"
    by (simp add: plain_def)
  also have "\<dots> = (\<lambda>k. if x + 1 \<le> k \<and> k < x + 1 + int (length cs) then cs ! nat (k - (x + 1)) else (row(x := c)) k,
      x + 1 + int (length cs))"
    using Cons by simp
  also have "\<dots> = (\<lambda>k. if x \<le> k \<and> k < x + int (length (c # cs)) then (c # cs) ! nat (k - x) else row k, x + int (length (c # cs)))"
  proof -
    have "(if x + 1 \<le> k \<and> k < x + 1 + int (length cs) then cs ! nat (k - (x + 1)) else (row(x := c)) k)
      = (if x \<le> k \<and> k < x + int (length (c # cs)) then (c # cs) ! nat (k - x) else row k)" for k
    proof (cases "x < k")
      case True
      then have "nat (k - x) = Suc (nat (k - (x + 1)))" by simp
      with True show ?thesis by auto
    qed auto
    then show ?thesis by simp
  qed
  finally show ?case .
qed (auto simp: fun_eq_iff)

lemma row_backs: "foldl (tstep b) (row, x) (map (\<lambda>_. TPut 8) [0..n - 1]) = (row, x - max 0 n)"
proof -
  have "foldl (tstep b) (row, x) (map (\<lambda>_. TPut 8) xs) = (row, x - int (length xs))" for xs :: "int list"
    by (induction xs arbitrary: x) simp_all
  then show ?thesis by simp
qed

lemma cl_draw_screen:
  assumes "plain_line p e" and "0 \<le> start" and "0 \<le> len" and "tty b (e_out e) = (row, pos)"
    and "pos + len \<le> 78" and "e_xpos e \<le> pos + len"
  shows "tty b (e_out (cl_draw p start len pos e)) =
    (\<lambda>k. if pos \<le> k \<and> k < pos + len then col_char p e (start + (k - pos))
         else if k = 78 \<and> pos + len = 78 then (if start + len < e_llen e then 62 else 32) else row k, e_xpos e)"
proof -
  have pl: "plain (col_char p e i)" if "start \<le> i" for i
    using that assms(1,2) by (auto simp: col_char_def plain_line_def plain_def)
  have puts: "foldl (tstep b) (row, pos) (map (\<lambda>i. TPut (col_char p e i)) [start..start + len - 1])
    = (\<lambda>k. if pos \<le> k \<and> k < pos + len then col_char p e (start + (k - pos)) else row k, pos + len)"
    using row_puts [of start "start + len" "col_char p e"] pl assms(3) by simp
  show ?thesis
    unfolding cl_draw_emit [OF assms(1-3)] Let_def emits_simps screen_append assms(4) foldl_append puts
    using assms(5,6) row_backs [where n = "79 - e_xpos e"]
    by (auto simp: row_backs fun_eq_iff max_def)
qed

lemma cl_draw_state:
  assumes "plain_line p e" and "0 \<le> start" and "0 \<le> len"
  shows "\<exists>evs. cl_draw p start len pos e = emits evs e"
  unfolding cl_draw_emit [OF assms] Let_def by blast

text \<open>
  The row for a line in a section: what stands in column \<open>k\<close>. Section zero starts with the prompt, any other one with
  \<open><\<close>; \<open>shift\<close> is the index of the line minus the column.
\<close>

definition shift :: "cl_args \<Rightarrow> int \<Rightarrow> int" where
  "shift p s = (if s = 0 then - int (length (cl_prompt p)) else section_start p s - 1)"

definition head_width :: "cl_args \<Rightarrow> int \<Rightarrow> int" where
  "head_width p s = (if s = 0 then int (length (cl_prompt p)) else 1)"

definition row_char :: "cl_args \<Rightarrow> int \<Rightarrow> u8 list \<Rightarrow> int \<Rightarrow> u8" where
  "row_char p s line k =
     (let i = k + shift p s; line = (if cl_echo p = 0 then line else replicate (length line) (cl_echo p))
      in if k < head_width p s then (if s = 0 then cl_prompt p ! nat k else 60)
         else if k < 78 then (if i < int (length line) then line ! nat i else 32)
         else (if i < int (length line) then 62 else 32))"

text \<open>The line \<open>l @ r\<close> with the cursor between its parts is in the buffer.\<close>

definition line_in :: "array \<Rightarrow> int \<Rightarrow> u8 list \<Rightarrow> bool" where
  "line_in m a s \<longleftrightarrow> (\<forall>i<length s. m (a + int i) = s ! i) \<and> m (a + int (length s)) = 0 \<and> (\<forall>c\<in>set s. plain c) \<and> int (length s) < 1600"

definition holds :: "editor \<Rightarrow> u8 list \<Rightarrow> u8 list \<Rightarrow> bool" where
  "holds e l r \<longleftrightarrow> line_in (e_mem e) CMDLINE_BUF (l @ r) \<and> e_lpos e = int (length l) \<and> e_llen e = int (length (l @ r))"

text \<open>The arguments the editor is called with: printable prompt and echo, and room for the line behind the prompt.\<close>

definition fair :: "cl_args \<Rightarrow> bool" where
  "fair p \<longleftrightarrow> (\<forall>c\<in>set (cl_prompt p). plain c) \<and> length (cl_prompt p) < 68 \<and> (cl_echo p = 0 \<or> plain (cl_echo p))"

text \<open>The section contains the cursor.\<close>

definition in_section :: "cl_args \<Rightarrow> int \<Rightarrow> int \<Rightarrow> bool" where
  "in_section p s lpos \<longleftrightarrow> 0 \<le> s \<and> lpos - shift p s < 78 \<and> head_width p s \<le> lpos - shift p s \<and>
     (s = 1 \<longrightarrow> 78 \<le> lpos + int (length (cl_prompt p)))"

definition displays :: "(int \<Rightarrow> u8) \<Rightarrow> cl_args \<Rightarrow> editor \<Rightarrow> u8 list \<Rightarrow> u8 list \<Rightarrow> bool" where
  "displays b p e l r \<longleftrightarrow> holds e l r \<and> in_section p (e_section e) (e_lpos e) \<and>
     e_xpos e = e_lpos e - shift p (e_section e) \<and> snd (tty b (e_out e)) = e_xpos e \<and>
     (\<forall>k. 0 \<le> k \<and> k \<le> 78 \<longrightarrow> fst (tty b (e_out e)) k = row_char p (e_section e) (l @ r) k)"

section \<open>Redrawing\<close>

definition echoed :: "cl_args \<Rightarrow> u8 list \<Rightarrow> u8 list" where
  "echoed p line = (if cl_echo p = 0 then line else replicate (length line) (cl_echo p))"

lemma length_echoed [simp]: "length (echoed p line) = length line"
  by (simp add: echoed_def)

lemma row_char_echoed: "row_char p s line k =
  (if k < head_width p s then (if s = 0 then cl_prompt p ! nat k else 60)
   else if k < 78 then (if k + shift p s < int (length line) then echoed p line ! nat (k + shift p s) else 32)
   else (if k + shift p s < int (length line) then 62 else 32))"
  by (simp add: row_char_def echoed_def Let_def)

lemma vis_line: "holds e l r \<Longrightarrow> 0 \<le> i \<Longrightarrow> i < e_llen e \<Longrightarrow> vis p e i = echoed p (l @ r) ! nat i"
proof -
  assume h: "holds e l r" and i: "0 \<le> i" "i < e_llen e"
  then have n: "nat i < length (l @ r)" by (simp add: holds_def)
  then have "e_mem e (CMDLINE_BUF + int (nat i)) = (l @ r) ! nat i"
    using h unfolding holds_def line_in_def by blast
  with n i(1) show ?thesis by (simp add: vis_def echoed_def)
qed

lemma holds_plain: "fair p \<Longrightarrow> holds e l r \<Longrightarrow> plain_line p e"
proof -
  assume f: "fair p" and h: "holds e l r"
  have "plain (echoed p (l @ r) ! n)" if "n < length (l @ r)" for n
    using that f h nth_mem [OF that] by (auto simp: echoed_def fair_def holds_def line_in_def)
  then show ?thesis using vis_line [OF h, of _ p] h by (auto simp: plain_line_def holds_def nat_less_iff)
qed

lemma shift_eq: "shift p s = s * 67 - int (length (cl_prompt p))"
  by (simp add: shift_def section_start_def CMDLINE_WIDTH_def CMDLINE_MARGIN_def)

lemma head_shift: "fair p \<Longrightarrow> 0 \<le> s \<Longrightarrow> 0 \<le> head_width p s + shift p s"
  by (auto simp: fair_def head_width_def shift_eq)

lemma draw_displays:
  assumes "fair p" and "holds e l r" and "in_section p (e_section e) (e_lpos e)"
    and "e_xpos e = e_lpos e - shift p (e_section e)" and "tty b (e_out e) = (row, pos)"
    and "head_width p (e_section e) \<le> pos" and "0 \<le> len" and "pos + len \<le> 78" and "e_xpos e \<le> pos + len"
    and left: "\<And>k. 0 \<le> k \<Longrightarrow> k < pos \<Longrightarrow> row k = row_char p (e_section e) (l @ r) k"
    and right: "\<And>k. pos + len \<le> k \<Longrightarrow> k \<le> 78 \<Longrightarrow> pos + len < 78 \<Longrightarrow> row k = row_char p (e_section e) (l @ r) k"
    and start: "start = pos + shift p (e_section e)"
  shows "displays b p (cl_draw p start len pos e) l r"
proof -
  let ?s = "e_section e"
  have s0: "0 \<le> ?s" using assms(3) by (simp add: in_section_def)
  have st: "0 \<le> start" using head_shift [OF assms(1) s0] assms(6) start by simp
  note pl = holds_plain [OF assms(1,2)]
  obtain evs where ev: "cl_draw p start len pos e = emits evs e" using cl_draw_state [OF pl st assms(7)] by blast
  have sc: "tty b (e_out (cl_draw p start len pos e)) =
    (\<lambda>k. if pos \<le> k \<and> k < pos + len then col_char p e (start + (k - pos))
         else if k = 78 \<and> pos + len = 78 then (if start + len < e_llen e then 62 else 32) else row k, e_xpos e)"
    by (rule cl_draw_screen [OF pl st assms(7) assms(5,8,9)])
  have ll: "e_llen e = int (length (l @ r))" using assms(2) by (simp add: holds_def)
  have mid: "col_char p e (start + (k - pos)) = row_char p ?s (l @ r) k" if "pos \<le> k" "k < pos + len" for k
  proof -
    have i: "start + (k - pos) = k + shift p ?s" "0 \<le> k + shift p ?s" using start that st by simp_all
    show ?thesis
      using that assms(6,8) ll vis_line [OF assms(2) i(2), of p] unfolding i by (auto simp: col_char_def row_char_echoed)
  qed
  have "fst (tty b (e_out (cl_draw p start len pos e))) k = row_char p ?s (l @ r) k" if k: "0 \<le> k" "k \<le> 78" for k
  proof -
    consider "k < pos" | "pos \<le> k" "k < pos + len" | "pos + len \<le> k" "pos + len < 78" | "k = 78" "pos + len = 78"
      using k assms(8) by linarith
    then show ?thesis
    proof cases
      case 1 then show ?thesis using left [OF k(1)] assms(7,8) by (auto simp: sc)
    next
      case 2 then show ?thesis using mid by (simp add: sc)
    next
      case 3 then show ?thesis using right k(2) by (auto simp: sc)
    next
      case 4
      then have "start + len = 78 + shift p ?s" using start by simp
      moreover have "\<not> 78 < head_width p ?s" using assms(6,7) 4 by simp
      ultimately show ?thesis using 4 ll by (simp add: sc row_char_echoed)
    qed
  qed
  moreover have "holds (emits evs e) l r" using assms(2) by (simp add: holds_def)
  ultimately show ?thesis using assms(3,4) sc by (simp add: displays_def ev)
qed

text \<open>Output leaves the line and the history alone.\<close>

definition data :: "editor \<Rightarrow> array \<times> int \<times> int \<times> array \<times> int \<times> int" where
  "data e = (e_mem e, e_lpos e, e_llen e, e_cmdline e, e_history e, e_num_history e)"

lemma data_loop: "(\<And>i e. data (f i e) = data e) \<Longrightarrow> data (for_int f a n e) = data e"
  by (rule for_int_pres) simp_all

lemma data_putchar [simp]: "data (grub_putchar c e) = data e"
proof -
  have "data (term_put c e) = data e" for c and e :: editor by (simp add: data_def term_put_def)
  then show ?thesis by (simp add: grub_putchar_def Let_def data_loop)
qed

lemma data_draw [simp]: "data (cl_draw p start len pos e) = data e"
proof -
  have "data (put_at p i e) = data e" for i e by (simp add: put_at_def)
  then have loops: "data (for_int (put_at p) i n e) = data e" "data (for_int (\<lambda>_. grub_putchar c) i n e) = data e"
    for i n c e by (simp_all add: data_loop)
  have "data (gotox x e) = data e" for x and e :: editor by (simp add: data_def gotox_def)
  then show ?thesis by (simp add: cl_draw_def Let_def loops split: prod.split)
qed

lemma data_putchars [simp]: "data (fold grub_putchar cs e) = data e"
  by (induction cs arbitrary: e) simp_all

lemma data_section: "data (e\<lparr>e_section := s\<rparr>) = data e" "data (e\<lparr>e_xpos := x\<rparr>) = data e"
  by (simp_all add: data_def)

lemma data_refresh [simp]: "data (cl_refresh p full len e) = data e"
  unfolding cl_refresh_def Let_def by (auto simp: data_section split: prod.split)

lemma data_holds: "data e = data e' \<Longrightarrow> holds e l r = holds e' l r"
  by (simp add: data_def holds_def)

lemma full_refresh:
  assumes "fair p" and "holds e l r"
  shows "displays b p (cl_refresh p True 0 e) l r"
proof -
  define n where "n = int (length (cl_prompt p))"
  define s where "s = (if e_lpos e + n < 78 then 0 else (e_lpos e + n - 78) div 67 + 1)"
  have n: "0 \<le> n" "n < 68" using assms(1) by (simp_all add: n_def fair_def)
  have lp: "0 \<le> e_lpos e" using assms(2) by (simp add: holds_def)
  have div: "(e_lpos e + n - 78) div 67 * 67 \<le> e_lpos e + n - 78" "e_lpos e + n - 78 < (e_lpos e + n - 78) div 67 * 67 + 67"
    by presburger+
  have sd: "(if e_lpos e + n < CMDLINE_WIDTH then 0
      else sdiv_c (e_lpos e + n - CMDLINE_WIDTH) (CMDLINE_WIDTH - 1 - CMDLINE_MARGIN) + 1) = s"
    by (simp add: s_def CMDLINE_WIDTH_def CMDLINE_MARGIN_def sdiv_c_nonneg)
  have sec: "in_section p s (e_lpos e)"
    using n lp div by (auto simp: in_section_def s_def shift_eq head_width_def n_def pos_imp_zdiv_nonneg_iff)
  let ?w = "head_width p s"
  have w: "0 \<le> ?w" "?w \<le> 78" using n by (auto simp: head_width_def n_def)
  have hd: "\<forall>c\<in>set (cl_prompt p). c \<noteq> 9 \<and> c \<noteq> 10" using assms(1) by (auto simp: fair_def plain_def)
  define x where "x = (if s = 0 then e_lpos e + n else e_lpos e + 1 - section_start p s)"
  have x: "x = e_lpos e - shift p s" by (simp add: x_def shift_def n_def)
  define evs where "evs = TPut 13 # (if s = 0 then map TPut (cl_prompt p) else [TPut 60])"
  obtain row y where rx: "tty b (e_out e) = (row, y)" by (cases "tty b (e_out e)")
  define e' where "e' = (emits evs (e\<lparr>e_section := s\<rparr>))\<lparr>e_xpos := x\<rparr>"
  have "cl_refresh p True 0 e = cl_draw p (?w + shift p s) (78 - ?w) ?w e'"
    unfolding cl_refresh_def Let_def n_def [symmetric] sd
    by (simp add: evs_def e'_def hd putchar_emit putchars_emit head_width_def shift_def x_def emits_def CMDLINE_WIDTH_def
        n_def)
  moreover have "displays b p (cl_draw p (?w + shift p s) (78 - ?w) ?w e') l r"
  proof (rule draw_displays [OF assms(1)])
    show "holds e' l r" using assms(2) by (simp add: holds_def e'_def)
    show "in_section p (e_section e') (e_lpos e')" using sec by (simp add: e'_def)
    show "e_xpos e' = e_lpos e' - shift p (e_section e')" by (simp add: e'_def x)
    show "tty b (e_out e') = ((\<lambda>k. if 0 \<le> k \<and> k < ?w then (if s = 0 then cl_prompt p ! nat k else 60) else row k), ?w)"
      using row_list [of "cl_prompt p" b row 0] assms(1)
      by (auto simp: e'_def evs_def screen_append rx fair_def head_width_def fun_eq_iff)
    show "head_width p (e_section e') \<le> ?w" by (simp add: e'_def)
    show "?w + shift p s = ?w + shift p (e_section e')" by (simp add: e'_def)
    show "e_xpos e' \<le> ?w + (78 - ?w)" using sec by (simp add: e'_def x in_section_def)
  qed (use w in \<open>simp_all add: e'_def row_char_echoed\<close>)
  ultimately show ?thesis by simp
qed

end
