(* ===== verification/LineSpec.thy ===== *)
theory LineSpec
  imports LineScreen
begin

text \<open>
  The command-line editor as a text editor: a line split at the cursor, a kill text and a history, and how every key
  of the code changes them. What the code does is related to it key by key, with the screen.
\<close>

section \<open>Moving the cursor\<close>

lemma displays_screen:
  assumes "displays b p e l r"
  obtains row where "tty b (e_out e) = (row, e_xpos e)"
    and "\<And>k. 0 \<le> k \<Longrightarrow> k \<le> 78 \<Longrightarrow> row k = row_char p (e_section e) (l @ r) k"
  using assms by (cases "tty b (e_out e)") (auto simp: displays_def)

lemma displays_moved:
  assumes d: "displays b p e l r" and "holds e' l' r'" and "l' @ r' = l @ r"
    and e': "e' = emits evs (e\<lparr>e_lpos := x + shift p (e_section e), e_xpos := x\<rparr>)"
    and "in_section p (e_section e) (x + shift p (e_section e))"
    and scr: "\<And>row. (\<And>k. 0 \<le> k \<Longrightarrow> k \<le> 78 \<Longrightarrow> row k = row_char p (e_section e) (l @ r) k) \<Longrightarrow>
        foldl (tstep b) (row, e_xpos e) evs = (row, x)"
  shows "displays b p e' l' r'"
proof -
  obtain row where row: "tty b (e_out e) = (row, e_xpos e)"
    and r: "\<And>k. 0 \<le> k \<Longrightarrow> k \<le> 78 \<Longrightarrow> row k = row_char p (e_section e) (l @ r) k"
    using displays_screen [OF d] by blast
  have "tty b (e_out e') = (row, x)" using scr [of row, OF r] by (simp add: e' screen_append row)
  with assms(2,3,5) r show ?thesis by (simp add: displays_def e')
qed

lemma plain_echoed: "fair p \<Longrightarrow> \<forall>c\<in>set line. plain c \<Longrightarrow> i < length line \<Longrightarrow> plain (echoed p line ! i)"
  by (auto simp: echoed_def fair_def)

lemma displays_plain: "displays b p e l r \<Longrightarrow> c \<in> set l \<union> set r \<Longrightarrow> plain c"
  by (auto simp: displays_def holds_def line_in_def)

lemma backward_displays:
  assumes "fair p" and "displays b p e (l1 @ l2) r" and n: "n = int (length l2)"
  shows "displays b p (cl_backward p n e) l1 (l2 @ r)"
proof -
  have h: "holds e (l1 @ l2) r" and sec: "in_section p (e_section e) (e_lpos e)" and x: "e_xpos e = e_lpos e - shift p (e_section e)"
    using assms(2) by (auto simp: displays_def)
  have lp: "e_lpos e = int (length l1) + n" using h n by (simp add: holds_def)
  have h1: "holds (e\<lparr>e_lpos := e_lpos e - n\<rparr>) l1 (l2 @ r)" using h n by (simp add: holds_def)
  let ?full = "e_section e = 1 \<and> int (length (cl_prompt p)) + (e_lpos e - n) < 78 \<or> e_xpos e - n < 1"
  show ?thesis
  proof (cases ?full)
    case True
    then have "cl_backward p n e = cl_refresh p True 0 (e\<lparr>e_lpos := e_lpos e - n\<rparr>)"
      by (auto simp: cl_backward_def Let_def CMDLINE_WIDTH_def)
    then show ?thesis using full_refresh [OF assms(1) h1] by simp
  next
    case False
    let ?e = "e\<lparr>e_lpos := e_lpos e - n, e_xpos := e_xpos e - n\<rparr>"
    define evs where "evs = (if cl_dumb p then map (\<lambda>_. TPut 8) [0..n - 1] else [TGoto (e_xpos e - n)])"
    have backs: "for_int (\<lambda>_. grub_putchar 8) 0 n ?e = emits (map (\<lambda>_. TPut 8) [0..n - 1]) ?e"
      by (rule for_int_emit [where m = "e_mem e"]) (simp_all add: putchar_emit)
    have eq: "cl_backward p n e = emits evs ?e"
      using False backs by (auto simp: cl_backward_def evs_def gotox_emit CMDLINE_WIDTH_def)
    have xx: "?e = e\<lparr>e_lpos := (e_xpos e - n) + shift p (e_section e), e_xpos := e_xpos e - n\<rparr>" using x by simp
    show ?thesis
    proof (rule displays_moved [OF assms(2)])
      show "cl_backward p n e = emits evs (e\<lparr>e_lpos := (e_xpos e - n) + shift p (e_section e), e_xpos := e_xpos e - n\<rparr>)"
        using eq xx by simp
      show "holds (cl_backward p n e) l1 (l2 @ r)" unfolding eq using h1 by (simp add: holds_def)
      show "in_section p (e_section e) (e_xpos e - n + shift p (e_section e))"
        using sec False x lp n by (auto simp: in_section_def head_width_def shift_eq)
      show "foldl (tstep b) (row, e_xpos e) evs = (row, e_xpos e - n)" for row
        using n by (simp add: evs_def row_backs)
    qed simp
  qed
qed

lemma forward_displays:
  assumes "fair p" and "displays b p e l (r1 @ r2)" and n: "n = int (length r1)"
  shows "displays b p (cl_forward p n e) (l @ r1) r2"
proof -
  have h: "holds e l (r1 @ r2)" and sec: "in_section p (e_section e) (e_lpos e)" and x: "e_xpos e = e_lpos e - shift p (e_section e)"
    using assms(2) by (auto simp: displays_def)
  have h1: "holds (e\<lparr>e_lpos := e_lpos e + n\<rparr>) (l @ r1) r2" using h n by (simp add: holds_def)
  show ?thesis
  proof (cases "e_xpos e + n \<ge> 78")
    case True
    then have "cl_forward p n e = cl_refresh p True 0 (e\<lparr>e_lpos := e_lpos e + n\<rparr>)"
      by (auto simp: cl_forward_def Let_def CMDLINE_WIDTH_def)
    then show ?thesis using full_refresh [OF assms(1) h1] by simp
  next
    case False
    let ?e = "e\<lparr>e_lpos := e_lpos e + n, e_xpos := e_xpos e + n\<rparr>"
    define evs where "evs = (if cl_dumb p then map (\<lambda>i. TPut (vis p e i)) [e_lpos e..e_lpos e + n - 1] else [TGoto (e_xpos e + n)])"
    have lp: "e_lpos e = int (length l)" "e_llen e = int (length (l @ r1 @ r2))" using h by (auto simp: holds_def)
    have pl: "plain (vis p e i)" if "e_lpos e \<le> i" "i < e_lpos e + n" for i
      using that holds_plain [OF assms(1) h] lp n by (auto simp: plain_line_def)
    have puts: "for_int (put_at p) (e_lpos e) (e_lpos e + n) ?e = emits (map (\<lambda>i. TPut (vis p e i)) [e_lpos e..e_lpos e + n - 1]) ?e"
    proof (rule for_int_emit [where m = "e_mem e"])
      fix i :: int and e' :: editor assume i: "e_lpos e \<le> i" "i < e_lpos e + n" and m: "e_mem (e' :: editor) = e_mem e"
      have v: "vis p e' i = vis p e i" using m by (simp add: vis_def)
      show "put_at p i e' = emits [TPut (vis p e i)] e'" using put_at_emit [of p e' i] pl [OF i] v by simp
    qed simp
    have eq: "cl_forward p n e = emits evs ?e"
      using False puts by (auto simp: cl_forward_def evs_def gotox_emit CMDLINE_WIDTH_def)
    have xx: "?e = e\<lparr>e_lpos := (e_xpos e + n) + shift p (e_section e), e_xpos := e_xpos e + n\<rparr>" using x by simp
    show ?thesis
    proof (rule displays_moved [OF assms(2)])
      show "cl_forward p n e = emits evs (e\<lparr>e_lpos := (e_xpos e + n) + shift p (e_section e), e_xpos := e_xpos e + n\<rparr>)"
        using eq xx by simp
      show "holds (cl_forward p n e) (l @ r1) r2" unfolding eq using h1 by (simp add: holds_def)
      show "in_section p (e_section e) (e_xpos e + n + shift p (e_section e))"
        using sec False x n by (auto simp: in_section_def)
      fix row assume row: "\<And>k. 0 \<le> k \<Longrightarrow> k \<le> 78 \<Longrightarrow> row k = row_char p (e_section e) (l @ r1 @ r2) k"
      have same: "vis p e (e_lpos e + (k - e_xpos e)) = row k" if k: "e_xpos e \<le> k" "k < e_xpos e + n" for k
      proof -
        have i: "e_lpos e + (k - e_xpos e) = k + shift p (e_section e)" using x by simp
        have w: "0 \<le> head_width p (e_section e)" "head_width p (e_section e) \<le> e_xpos e"
          using sec x by (auto simp: in_section_def head_width_def)
        have "0 \<le> k + shift p (e_section e)" "k + shift p (e_section e) < e_llen e" using k x lp n by auto
        then show ?thesis
          using vis_line [OF h, of "k + shift p (e_section e)" p] row [of k] k w lp False unfolding i
          by (simp add: row_char_echoed)
      qed
      have "foldl (tstep b) (row, e_xpos e) (map (\<lambda>i. TPut (vis p e i)) [e_lpos e..e_lpos e + n - 1]) = (row, e_xpos e + n)"
        using row_puts [of "e_lpos e" "e_lpos e + n" "vis p e" b row "e_xpos e"] pl same n by (simp add: fun_eq_iff)
      then show "foldl (tstep b) (row, e_xpos e) evs = (row, e_xpos e + n)" by (simp add: evs_def)
    qed simp
  qed
qed

section \<open>Changing the line\<close>

lemma part_refresh:
  "cl_refresh p False len e =
     cl_draw p (e_xpos e + shift p (e_section e)) len (e_xpos e) (e\<lparr>e_xpos := e_lpos e - shift p (e_section e)\<rparr>)"
  by (simp add: cl_refresh_def Let_def shift_def algebra_simps)

text \<open>
  After a change of the memory that leaves the line before the cursor as it is, the screen is right again once the row has
  been redrawn from the old position of the cursor to the end of the longer line or of the row.
\<close>

lemma change_displays:
  assumes "fair p" and d: "displays b p e l r" and h: "holds e' (l @ s) r'"
    and e': "e' = e\<lparr>e_mem := m, e_llen := n', e_lpos := e_lpos e + int (length s)\<rparr>"
    and "e_xpos e + int (length s) < 78"
    and n: "n = (if e_xpos e + w > 78 then 78 - e_xpos e else w)"
    and w: "int (length s) \<le> w" "int (length r) \<le> w" "int (length (s @ r')) \<le> w"
  shows "displays b p (cl_refresh p False n e') (l @ s) r'"
proof -
  have sec: "in_section p (e_section e) (e_lpos e)" and x: "e_xpos e = e_lpos e - shift p (e_section e)"
    and lp: "e_lpos e = int (length l)"
    using d by (auto simp: displays_def holds_def)
  have hw: "0 \<le> head_width p (e_section e)" "head_width p (e_section e) \<le> e_xpos e" "e_xpos e < 78"
    using sec x by (auto simp: in_section_def head_width_def)
  obtain row where row: "tty b (e_out e) = (row, e_xpos e)"
    and rk: "\<And>k. 0 \<le> k \<Longrightarrow> k \<le> 78 \<Longrightarrow> row k = row_char p (e_section e) (l @ r) k"
    using displays_screen [OF d] by blast
  have s: "e_xpos e' = e_xpos e" "e_section e' = e_section e" "e_lpos e' = e_lpos e + int (length s)" "e_out e' = e_out e"
    by (simp_all add: e')
  let ?e = "e'\<lparr>e_xpos := e_lpos e' - shift p (e_section e')\<rparr>"
  have "displays b p (cl_draw p (e_xpos e' + shift p (e_section e')) n (e_xpos e') ?e) (l @ s) r'"
  proof (rule draw_displays [OF assms(1)])
    show "holds ?e (l @ s) r'" using h by (simp add: holds_def)
    show "in_section p (e_section ?e) (e_lpos ?e)" using sec assms(5) x by (auto simp: s in_section_def)
    show "tty b (e_out ?e) = (row, e_xpos e')" by (simp add: row s)
    show "head_width p (e_section ?e) \<le> e_xpos e'" "0 \<le> n" "e_xpos e' + n \<le> 78" "e_xpos ?e \<le> e_xpos e' + n"
      using hw n w(1) assms(5) x by (auto simp: s)
    fix k
    show "row k = row_char p (e_section ?e) ((l @ s) @ r') k" if k: "0 \<le> k" "k < e_xpos e'"
    proof -
      have "k + shift p (e_section e) < int (length l)" using k x lp by (simp add: s)
      moreover have "\<not> k < head_width p (e_section e) \<Longrightarrow> 0 \<le> k + shift p (e_section e)"
        using head_shift [OF assms(1)] sec by (fastforce simp: in_section_def)
      ultimately show ?thesis
        using rk [of k] k hw by (auto simp: s row_char_echoed echoed_def nth_append nat_less_iff)
    qed
    show "row k = row_char p (e_section ?e) ((l @ s) @ r') k" if k: "e_xpos e' + n \<le> k" "k \<le> 78" "e_xpos e' + n < 78"
    proof -
      have "int (length l) + w \<le> k + shift p (e_section e)" using k n x lp by (auto simp: s split: if_splits)
      then show ?thesis using rk [of k] k hw w n by (auto simp: s row_char_echoed split: if_splits)
    qed
  qed simp_all
  then show ?thesis by (simp add: part_refresh)
qed

section \<open>Strings in the buffers\<close>

lemma line_in_cong:
  "(\<And>i. a \<le> i \<Longrightarrow> i < a + 1600 \<Longrightarrow> m' i = m i) \<Longrightarrow> line_in m a s \<Longrightarrow> line_in m' a s"
  by (auto simp: line_in_def)

lemma line_in_move:
  "(\<And>i. 0 \<le> i \<Longrightarrow> i \<le> int (length s) \<Longrightarrow> m' (a' + i) = m (a + i)) \<Longrightarrow> line_in m a s \<Longrightarrow> line_in m' a' s"
  by (auto simp: line_in_def)

lemma line_in_nth: "line_in m a s \<Longrightarrow> i < length s \<Longrightarrow> m (a + int i) = s ! i"
  by (simp add: line_in_def)

lemma line_in_drop: "line_in m a (s @ t) \<Longrightarrow> line_in m (a + int (length s)) t"
  by (auto simp: line_in_def nth_append add.assoc dest: spec [where x = "length s + _"])

lemma astring_line: "line_in m a s \<Longrightarrow> astring m a = s"
proof -
  assume h: "line_in m a s"
  then have len: "length s < 1600" by (simp add: line_in_def)
  define f where "f = (\<lambda>i. m (a + int i))"
  have "[0..<nat MAX_CMDLINE] = [0..<length s] @ length s # [Suc (length s)..<1600]"
    using len upt_add_eq_append [of 0 "length s" "1600 - length s"] upt_conv_Cons [of "length s" 1600]
    by (simp add: MAX_CMDLINE_def)
  moreover have "map f [0..<length s] = s" using h by (auto simp: line_in_def f_def intro!: nth_equalityI)
  moreover have "f (length s) = 0" using h by (simp add: line_in_def f_def)
  moreover have "\<forall>c\<in>set s. c \<noteq> 0" using h by (auto simp: line_in_def plain_def)
  ultimately have "takeWhile (\<lambda>c. c \<noteq> 0) (map f [0..<nat MAX_CMDLINE]) = s" by (simp add: takeWhile_tail)
  then show ?thesis by (simp only: astring_def f_def)
qed

lemma line_in_astore:
  "\<forall>c\<in>set s. plain c \<Longrightarrow> int (length s) < 1600 \<Longrightarrow> line_in (astore a (s @ [0]) m) a s"
  by (auto simp: line_in_def astore_def nth_append)

lemma line_in_insert:
  assumes "line_in m a (l @ r)" and "\<forall>c\<in>set s. plain c" and "length (l @ s @ r) < 1600"
    and k: "k = a + int (length l)"
  shows "line_in (astore k s (amove (k + int (length s)) k (int (length r) + 1) m)) a (l @ s @ r)"
proof -
  let ?m = "astore k s (amove (k + int (length s)) k (int (length r) + 1) m)"
  have "?m (a + int i) = (l @ s @ r) ! i" if i: "i < length (l @ s @ r)" for i
  proof -
    consider "i < length l" | "length l \<le> i" "i < length l + length s" | "length l + length s \<le> i" by linarith
    then show ?thesis
    proof cases
      case 1 with assms(1) show ?thesis by (auto simp: line_in_def astore_def amove_def k nth_append)
    next
      case 2 then show ?thesis by (auto simp: astore_def k nth_append nat_diff_distrib)
    next
      case 3
      have "m (a + int (i - length s)) = (l @ r) ! (i - length s)" using i 3 by (intro line_in_nth [OF assms(1)]) auto
      moreover have "?m (a + int i) = m (a + int (i - length s))"
        using 3 i by (auto simp: astore_def amove_def k of_nat_diff algebra_simps)
      moreover have "(l @ s @ r) ! i = (l @ r) ! (i - length s)" using 3 by (auto simp: nth_append add.commute)
      ultimately show ?thesis by simp
    qed
  qed
  moreover have "?m (a + int (length (l @ s @ r))) = 0"
    using assms(1) by (auto simp: line_in_def astore_def amove_def k algebra_simps)
  ultimately show ?thesis using assms(1-3) by (auto simp: line_in_def)
qed

lemma line_in_delete:
  assumes "line_in m a (l @ s @ r)" and k: "k = a + int (length l)" and "int (length r) + 1 \<le> n"
  shows "line_in (amove k (k + int (length s)) n m) a (l @ r)"
proof -
  let ?m = "amove k (k + int (length s)) n m"
  have "?m (a + int i) = (l @ r) ! i" if i: "i < length (l @ r)" for i
  proof (cases "i < length l")
    case True with assms(1) show ?thesis by (auto simp: line_in_def amove_def k nth_append)
  next
    case False
    have "m (a + int (i + length s)) = (l @ s @ r) ! (i + length s)" using i by (intro line_in_nth [OF assms(1)]) auto
    with False i assms(3) show ?thesis by (auto simp: amove_def k nth_append algebra_simps)
  qed
  moreover have "?m (a + int (length (l @ r))) = 0"
    using assms by (auto simp: line_in_def amove_def algebra_simps)
  ultimately show ?thesis using assms(1) by (auto simp: line_in_def)
qed

lemma line_in_append:
  assumes "line_in m a l" and "\<forall>c\<in>set s. plain c" and "length (l @ s) < 1600"
  shows "line_in (astore (a + int (length l)) (s @ [0]) m) a (l @ s)"
  using assms by (auto simp: line_in_def astore_def nth_append nat_diff_distrib)

section \<open>Insertion and deletion\<close>

lemma insert_displays:
  assumes "fair p" and d: "displays b p e l r" and pl: "\<forall>c\<in>set s. plain c" and "cl_maxlen p \<le> 1600"
  shows "displays b p (cl_insert p s e) (if int (length (l @ r) + length s) < cl_maxlen p then l @ s else l) r"
proof (cases "int (length (l @ r) + length s) < cl_maxlen p")
  case True
  have h: "line_in (e_mem e) CMDLINE_BUF (l @ r)" "e_lpos e = int (length l)" "e_llen e = int (length (l @ r))"
    using d by (auto simp: displays_def holds_def)
  define m where "m = (if e_lpos e = e_llen e then astore (CMDLINE_BUF + e_lpos e) (s @ [0]) (e_mem e)
    else astore (CMDLINE_BUF + e_lpos e) s (amove (CMDLINE_BUF + e_lpos e + int (length s)) (CMDLINE_BUF + e_lpos e)
      (e_llen e - e_lpos e + 1) (e_mem e)))"
  define e' where "e' = e\<lparr>e_mem := m, e_llen := e_llen e + int (length s), e_lpos := e_lpos e + int (length s)\<rparr>"
  have "line_in m CMDLINE_BUF (l @ s @ r)"
  proof (cases "r = []")
    case True
    with h pl \<open>int (length (l @ r) + length s) < cl_maxlen p\<close> assms(4) show ?thesis
      using line_in_append [of "e_mem e" CMDLINE_BUF l s] by (simp add: m_def)
  next
    case False
    with h pl \<open>int (length (l @ r) + length s) < cl_maxlen p\<close> assms(4) show ?thesis
      using line_in_insert [OF h(1) pl, of "CMDLINE_BUF + int (length l)"] by (simp add: m_def)
  qed
  then have h': "holds e' (l @ s) r" using h by (simp add: holds_def e'_def)
  have "cl_insert p s e = (if e_xpos e' + int (length s) \<ge> 78 then cl_refresh p True 0 e'
      else if e_xpos e' + int (length s) + e_llen e' - e_lpos e' > 78 then cl_refresh p False (78 - e_xpos e') e'
      else cl_refresh p False (int (length s) + e_llen e' - e_lpos e') e')"
    using True h by (simp add: cl_insert_def Let_def e'_def m_def CMDLINE_WIDTH_def)
  moreover have "displays b p (cl_refresh p False (if e_xpos e + int (length s + length r) > 78 then 78 - e_xpos e else int (length s + length r)) e')
      (l @ s) r" if "e_xpos e + int (length s) < 78"
    by (rule change_displays [OF assms(1) d h' e'_def that, where w = "int (length s + length r)"]) simp_all
  ultimately show ?thesis
    using True h full_refresh [OF assms(1) h', of b] by (auto simp: e'_def split: if_splits)
next
  case False
  then have "\<not> e_llen e + int (length s) < cl_maxlen p" using d by (simp add: displays_def holds_def)
  then have "cl_insert p s e = e" by (simp add: cl_insert_def)
  with False d show ?thesis by simp
qed

lemma delete_displays:
  assumes "fair p" and d: "displays b p e l (s @ r)"
  shows "displays b p (cl_delete p (int (length s)) e) l r"
proof -
  have h: "line_in (e_mem e) CMDLINE_BUF (l @ s @ r)" "e_lpos e = int (length l)" "e_llen e = int (length (l @ s @ r))"
    and x: "e_xpos e < 78"
    using d by (auto simp: displays_def holds_def in_section_def)
  define m where "m = amove (CMDLINE_BUF + e_lpos e) (CMDLINE_BUF + e_lpos e + int (length s)) (e_llen e - int (length s) + 1) (e_mem e)"
  define e' where "e' = e\<lparr>e_mem := m, e_llen := e_llen e - int (length s), e_lpos := e_lpos e + int (length ([] :: u8 list))\<rparr>"
  have "line_in m CMDLINE_BUF (l @ r)"
    unfolding m_def by (rule line_in_delete [OF h(1)]) (use h in simp_all)
  then have h': "holds e' (l @ []) r" using h by (simp add: holds_def e'_def)
  have "displays b p (cl_refresh p False (if e_xpos e + int (length s + length r) > 78 then 78 - e_xpos e else int (length s + length r)) e')
      (l @ []) r"
    by (rule change_displays [OF assms(1) d h' e'_def, where w = "int (length s + length r)"]) (use x in simp_all)
  moreover have "e' = e\<lparr>e_mem := m, e_llen := e_llen e - int (length s)\<rparr>" by (cases e) (simp add: e'_def)
  then have "cl_delete p (int (length s)) e =
      cl_refresh p False (if e_xpos e + int (length s + length r) > 78 then 78 - e_xpos e else int (length s + length r)) e'"
    using h by (simp add: cl_delete_def Let_def m_def CMDLINE_WIDTH_def algebra_simps)
  ultimately show ?thesis by simp
qed

lemma load_displays:
  assumes "fair p" and "\<forall>c\<in>set s. plain c" and "int (length s) < 1600"
  shows "displays b p (load_line p s e) s []"
proof -
  let ?m = "astore CMDLINE_BUF (s @ [0]) (e_mem e)"
  have l: "line_in ?m CMDLINE_BUF s" using assms(2,3) by (rule line_in_astore)
  have "load_line p s e = cl_refresh p True 0 (e\<lparr>e_mem := ?m, e_llen := int (length s), e_lpos := int (length s)\<rparr>)"
    by (simp add: load_line_def Let_def astring_line [OF l])
  moreover have "holds (e\<lparr>e_mem := ?m, e_llen := int (length s), e_lpos := int (length s)\<rparr>) s []"
    using l by (simp add: holds_def)
  ultimately show ?thesis using full_refresh [OF assms(1)] by simp
qed

text \<open>Changes of the other buffers do not show.\<close>

lemma displays_data:
  assumes "displays b p e l r" and "\<And>i. CMDLINE_BUF \<le> i \<Longrightarrow> i < KILL_BUF \<Longrightarrow> m i = e_mem e i"
  shows "displays b p (e\<lparr>e_mem := m, e_cmdline := c, e_history := k, e_num_history := n\<rparr>) l r"
proof -
  have "line_in m CMDLINE_BUF (l @ r)"
    by (rule line_in_cong [where m = "e_mem e"]) (use assms in \<open>auto simp: KILL_BUF_def MAX_CMDLINE_def displays_def holds_def\<close>)
  with assms(1) show ?thesis by (auto simp: displays_def holds_def)
qed

section \<open>The abstract editor\<close>

text \<open>
  The line before and behind the cursor, the text killed last, the history with its most recent line first, the place in
  it (\<open>-1\<close> for the line being edited) and that line while another one is recalled.
\<close>

record line =
  z_left :: "u8 list"
  z_right :: "u8 list"
  z_kill :: "u8 list"
  z_hist :: "u8 list list"
  z_pos :: int
  z_saved :: "u8 list"

definition z_line :: "line \<Rightarrow> u8 list" where
  "z_line z = z_left z @ z_right z"

definition z_insert :: "int \<Rightarrow> u8 list \<Rightarrow> line \<Rightarrow> line" where
  "z_insert maxlen s z = (if int (length (z_line z) + length s) < maxlen then z\<lparr>z_left := z_left z @ s\<rparr> else z)"

definition remember :: "u8 list \<Rightarrow> nat \<Rightarrow> u8 list list \<Rightarrow> u8 list list" where
  "remember s n hist = take 5 (take n hist @ s # drop n hist)"

definition z_keep :: "line \<Rightarrow> line" where
  "z_keep z = (if z_hist z ! nat (z_pos z) \<noteq> z_line z then z\<lparr>z_hist := remember (z_line z) (nat (z_pos z)) (z_hist z)\<rparr> else z)"

definition z_recall :: "u8 list \<Rightarrow> line \<Rightarrow> line" where
  "z_recall s z = z\<lparr>z_left := s, z_right := []\<rparr>"

definition z_previous :: "line \<Rightarrow> line" where
  "z_previous z =
     (let z = (if z_pos z < 0 then z\<lparr>z_saved := z_line z\<rparr> else z_keep z)
      in if z_pos z + 1 < int (length (z_hist z))
         then z_recall (z_hist z ! nat (z_pos z + 1)) (z\<lparr>z_pos := z_pos z + 1\<rparr>) else z)"

definition z_next :: "line \<Rightarrow> line" where
  "z_next z =
     (if z_pos z < 0 then z
      else let z = z_keep z
           in z_recall (if z_pos z = 0 then z_saved z else z_hist z ! nat (z_pos z - 1)) (z\<lparr>z_pos := z_pos z - 1\<rparr>))"

definition z_move :: "nat \<Rightarrow> line \<Rightarrow> line" where
  "z_move n z = z\<lparr>z_left := take n (z_line z), z_right := drop n (z_line z)\<rparr>"

definition z_kill_left :: "line \<Rightarrow> line" where
  "z_kill_left z = (if z_left z = [] then z else z\<lparr>z_left := [], z_kill := z_left z\<rparr>)"

definition z_kill_right :: "line \<Rightarrow> line" where
  "z_kill_right z = (if z_right z = [] then z else z\<lparr>z_right := [], z_kill := z_right z\<rparr>)"

definition z_key :: "cl_args \<Rightarrow> u8 \<Rightarrow> line \<Rightarrow> line" where
  "z_key p c z =
     (let n = length (z_left z);
          z = (if cl_readline p
               then if c = 1 then z_move 0 z else if c = 5 then z_move (length (z_line z)) z
                    else if c = 6 then z_move (n + 1) z else if c = 2 then z_move (n - 1) z
                    else if c = 21 then z_kill_left z else if c = 11 then z_kill_right z
                    else if c = 25 then z_insert (cl_maxlen p) (z_kill z) z
                    else if c = 16 then z_previous z else if c = 14 then z_next z else z
               else z)
      in if c = 4 then z\<lparr>z_right := tl (z_right z)\<rparr> else if c = 8 then z\<lparr>z_left := butlast (z_left z)\<rparr>
         else if 32 \<le> int_of_char c \<and> int_of_char c \<le> 126 then z_insert (cl_maxlen p) [c] z else z)"

end
