(* ===== verification/LineKeys.thy ===== *)
theory LineKeys
  imports LineSpec
begin

text \<open>
  Every key of the command-line editor does to the line, the kill text, the history and the screen what the abstract
  editor of \<open>LineSpec\<close> does; so does every sequence of keys, and the line that is returned is the abstract one.
\<close>

section \<open>The kill buffer and the history\<close>

definition keeps :: "editor \<Rightarrow> line \<Rightarrow> bool" where
  "keeps e z \<longleftrightarrow> line_in (e_mem e) KILL_BUF (z_kill z) \<and> e_num_history e = int (length (z_hist z)) \<and> length (z_hist z) \<le> 5 \<and>
     (\<forall>j<length (z_hist z). line_in (e_mem e) (HISTORY_BUF + 1600 * int j) (z_hist z ! j)) \<and>
     e_history e = z_pos z \<and> - 1 \<le> z_pos z \<and> z_pos z < int (length (z_hist z)) \<and>
     (0 \<le> z_pos z \<longrightarrow> line_in (e_cmdline e) 0 (z_saved z))"

definition shows_line :: "(int \<Rightarrow> u8) \<Rightarrow> cl_args \<Rightarrow> editor \<Rightarrow> line \<Rightarrow> bool" where
  "shows_line b p e z \<longleftrightarrow> displays b p e (z_left z) (z_right z) \<and> keeps e z"

definition bufs_kept :: "editor \<Rightarrow> editor \<Rightarrow> bool" where
  "bufs_kept e e' \<longleftrightarrow> (\<forall>i\<ge>KILL_BUF. e_mem e' i = e_mem e i) \<and> e_cmdline e' = e_cmdline e \<and>
     e_history e' = e_history e \<and> e_num_history e' = e_num_history e"

lemmas bufs = KILL_BUF_def HISTORY_BUF_def MAX_CMDLINE_def HISTORY_SIZE_def

lemma keeps_frame: "keeps e z \<Longrightarrow> bufs_kept e e' \<Longrightarrow> keeps e' (z\<lparr>z_left := l, z_right := r\<rparr>)"
  unfolding keeps_def bufs_kept_def
  by (auto simp: bufs elim!: line_in_cong [rotated])

lemma frame_data: "data e' = data e1 \<Longrightarrow> bufs_kept e e1 \<Longrightarrow> bufs_kept e e'"
  by (simp add: bufs_kept_def data_def)

lemma frame_mem:
  "(\<And>i. KILL_BUF \<le> i \<Longrightarrow> m i = e_mem e i) \<Longrightarrow> bufs_kept e (e\<lparr>e_mem := m, e_llen := n, e_lpos := k\<rparr>)"
  by (simp add: bufs_kept_def)

lemma frame_moves: "bufs_kept e (cl_backward p n e)" "bufs_kept e (cl_forward p n e)" "bufs_kept e (cl_refresh p full n e)"
proof -
  have loops: "data (for_int (\<lambda>_. grub_putchar c) i n e) = data e" "data (for_int (put_at p) i n e) = data e" for i n c e
    by (simp_all add: data_loop put_at_def)
  have goto: "data (gotox x e) = data e" for x and e :: editor by (simp add: data_def gotox_def)
  have "data (cl_backward p n e) = data (e\<lparr>e_lpos := e_lpos e - n\<rparr>)"
    by (simp add: cl_backward_def Let_def loops goto data_section)
  then show "bufs_kept e (cl_backward p n e)" by (rule frame_data) (simp add: bufs_kept_def)
  have "data (cl_forward p n e) = data (e\<lparr>e_lpos := e_lpos e + n\<rparr>)"
    by (simp add: cl_forward_def Let_def loops goto data_section)
  then show "bufs_kept e (cl_forward p n e)" by (rule frame_data) (simp add: bufs_kept_def)
  show "bufs_kept e (cl_refresh p full n e)" by (rule frame_data [OF data_refresh]) (simp add: bufs_kept_def)
qed

lemma frame_trans: "bufs_kept a b \<Longrightarrow> bufs_kept b c \<Longrightarrow> bufs_kept a c"
  by (simp add: bufs_kept_def)

lemma frame_insert:
  assumes "holds e l r" and "cl_maxlen p \<le> 1600"
  shows "bufs_kept e (cl_insert p s e)"
proof (cases "e_llen e + int (length s) < cl_maxlen p")
  case True
  have n: "e_llen e + int (length s) < 1600" "e_lpos e \<le> e_llen e" using True assms by (auto simp: holds_def)
  define m where "m = (if e_lpos e = e_llen e then astore (CMDLINE_BUF + e_lpos e) (s @ [0]) (e_mem e)
    else astore (CMDLINE_BUF + e_lpos e) s (amove (CMDLINE_BUF + e_lpos e + int (length s)) (CMDLINE_BUF + e_lpos e)
      (e_llen e - e_lpos e + 1) (e_mem e)))"
  let ?e = "e\<lparr>e_mem := m, e_llen := e_llen e + int (length s), e_lpos := e_lpos e + int (length s)\<rparr>"
  have "bufs_kept e ?e" using n by (intro frame_mem) (auto simp: m_def bufs astore_def amove_def)
  moreover have "bufs_kept ?e (cl_insert p s e)"
    using True by (cases "e_lpos e = e_llen e") (simp_all add: m_def cl_insert_def Let_def frame_moves)
  ultimately show ?thesis by (rule frame_trans)
next
  case False
  then show ?thesis by (simp add: cl_insert_def bufs_kept_def)
qed

text \<open>
  The move in \<^verbatim>\<open>cl_delete\<close> is longer than the rest of the line: from lines of more than 800 characters it can reach the
  kill buffer. The lengths below say when it does not.
\<close>

lemma frame_delete:
  assumes "e_lpos e + e_llen e - n + 1 \<le> 1600"
  shows "bufs_kept e (cl_delete p n e)"
proof -
  let ?e = "e\<lparr>e_mem := amove (CMDLINE_BUF + e_lpos e) (CMDLINE_BUF + e_lpos e + n) (e_llen e - n + 1) (e_mem e),
      e_llen := e_llen e - n\<rparr>"
  have "bufs_kept e ?e" using assms by (auto simp: bufs_kept_def bufs amove_def)
  moreover have "bufs_kept ?e (cl_delete p n e)" by (simp add: cl_delete_def Let_def frame_moves)
  ultimately show ?thesis by (rule frame_trans)
qed

lemma frame_load:
  assumes "int (length s) < 1600"
  shows "bufs_kept e (load_line p s e)"
proof -
  have "bufs_kept e (e\<lparr>e_mem := astore CMDLINE_BUF (s @ [0]) (e_mem e), e_llen := n, e_lpos := k\<rparr>)" for n k
    using assms by (intro frame_mem) (auto simp: bufs astore_def)
  then show ?thesis
    by (simp add: load_line_def Let_def) (rule frame_trans [OF _ frame_moves(3)], simp)
qed

lemma shows_lengths:
  assumes "shows_line b p e z"
  shows "e_lpos e = int (length (z_left z))" "e_llen e = int (length (z_line z))" "buf_string e = z_line z"
    "\<forall>c\<in>set (z_line z). plain c" "int (length (z_line z)) < 1600" "holds e (z_left z) (z_right z)"
  using assms astring_line [of "e_mem e" CMDLINE_BUF "z_line z"]
  by (auto simp: shows_line_def displays_def holds_def z_line_def line_in_def)

lemma shows_update:
  assumes "shows_line b p e z" and "displays b p e' l r" and "bufs_kept e e'"
  shows "shows_line b p e' (z\<lparr>z_left := l, z_right := r\<rparr>)"
  using assms by (auto simp: shows_line_def intro: keeps_frame)

section \<open>Keys that move or change the line\<close>

lemma z_move_simps:
  "z_move 0 z = z\<lparr>z_left := [], z_right := z_left z @ z_right z\<rparr>"
  "z_move (length (z_line z)) z = z\<lparr>z_left := z_left z @ z_right z, z_right := []\<rparr>"
  "z_right z = c # r \<Longrightarrow> z_move (Suc (length (z_left z))) z = z\<lparr>z_left := z_left z @ [c], z_right := r\<rparr>"
  "z_right z = [] \<Longrightarrow> z_move (Suc (length (z_left z))) z = z"
  "z_left z = l @ [c] \<Longrightarrow> z_move (length (z_left z) - 1) z = z\<lparr>z_left := l, z_right := c # z_right z\<rparr>"
  by (simp_all add: z_move_def z_line_def)

lemma z_same: "z_left z = [] \<Longrightarrow> z\<lparr>z_left := []\<rparr> = z" "z_right z = [] \<Longrightarrow> z\<lparr>z_right := []\<rparr> = z"
  by (cases z; simp)+

lemma backward_shows:
  assumes "fair p" and "shows_line b p e z" and "z_left z = l1 @ l2"
  shows "shows_line b p (cl_backward p (int (length l2)) e) (z\<lparr>z_left := l1, z_right := l2 @ z_right z\<rparr>)"
  using assms by (intro shows_update [OF assms(2)] backward_displays frame_moves) (auto simp: shows_line_def)

lemma forward_shows:
  assumes "fair p" and "shows_line b p e z" and "z_right z = r1 @ r2"
  shows "shows_line b p (cl_forward p (int (length r1)) e) (z\<lparr>z_left := z_left z @ r1, z_right := r2\<rparr>)"
  using assms by (intro shows_update [OF assms(2)] forward_displays frame_moves) (auto simp: shows_line_def)

lemma delete_shows:
  assumes "fair p" and "shows_line b p e z" and "z_right z = s @ r" and "length (z_line z) \<le> 800" and "s \<noteq> []"
  shows "shows_line b p (cl_delete p (int (length s)) e) (z\<lparr>z_right := r\<rparr>)"
proof -
  have d: "displays b p e (z_left z) (s @ r)" using assms(2,3) by (simp add: shows_line_def)
  have "e_lpos e + e_llen e - int (length s) + 1 \<le> 1600"
    using assms(3-5) shows_lengths(1,2) [OF assms(2)] by (cases s) (simp_all add: z_line_def)
  then have "bufs_kept e (cl_delete p (int (length s)) e)" by (rule frame_delete)
  then have "shows_line b p (cl_delete p (int (length s)) e) (z\<lparr>z_left := z_left z, z_right := r\<rparr>)"
    by (rule shows_update [OF assms(2) delete_displays [OF assms(1) d]])
  moreover have "z\<lparr>z_left := z_left z, z_right := r\<rparr> = z\<lparr>z_right := r\<rparr>" by (cases z) simp
  ultimately show ?thesis by simp
qed

lemma insert_shows:
  assumes "fair p" and "shows_line b p e z" and "\<forall>c\<in>set s. plain c" and "cl_maxlen p \<le> 1600"
  shows "shows_line b p (cl_insert p s e) (z_insert (cl_maxlen p) s z)"
proof -
  have d: "displays b p e (z_left z) (z_right z)" using assms(2) by (simp add: shows_line_def)
  have "shows_line b p (cl_insert p s e)
    (z\<lparr>z_left := (if int (length (z_left z @ z_right z) + length s) < cl_maxlen p then z_left z @ s else z_left z), z_right := z_right z\<rparr>)"
    by (rule shows_update [OF assms(2) insert_displays [OF assms(1) d assms(3,4)] frame_insert [OF shows_lengths(6) [OF assms(2)] assms(4)]])
  moreover have "(z\<lparr>z_left := (if int (length (z_left z @ z_right z) + length s) < cl_maxlen p then z_left z @ s else z_left z), z_right := z_right z\<rparr>)
      = z_insert (cl_maxlen p) s z"
    by (cases z) (simp add: z_insert_def z_line_def)
  ultimately show ?thesis by simp
qed

lemma move_shows:
  assumes "fair p" and "shows_line b p e z"
  shows "shows_line b p (key_beginning p e) (z_move 0 z)"
    and "shows_line b p (key_end p e) (z_move (length (z_line z)) z)"
    and "shows_line b p (key_right p e) (z_move (length (z_left z) + 1) z)"
    and "shows_line b p (key_left p e) (z_move (length (z_left z) - 1) z)"
proof -
  note len = shows_lengths(1,2) [OF assms(2)]
  show "shows_line b p (key_beginning p e) (z_move 0 z)"
    using backward_shows [OF assms, of "[]" "z_left z"] len by (simp add: key_beginning_def z_move_simps)
  show "shows_line b p (key_end p e) (z_move (length (z_line z)) z)"
    using forward_shows [OF assms, of "z_right z" "[]"] len by (simp add: key_end_def z_move_simps) (simp add: z_line_def)
  show "shows_line b p (key_right p e) (z_move (length (z_left z) + 1) z)"
  proof (cases "z_right z")
    case Nil then show ?thesis using assms(2) len by (simp add: key_right_def z_move_def z_line_def z_same)
  next
    case (Cons c r)
    then show ?thesis using forward_shows [OF assms, of "[c]" r] len by (simp add: key_right_def z_move_simps z_line_def)
  qed
  show "shows_line b p (key_left p e) (z_move (length (z_left z) - 1) z)"
  proof (cases "z_left z" rule: rev_cases)
    case Nil then show ?thesis using assms(2) len by (simp add: key_left_def z_move_def z_line_def z_same)
  next
    case (snoc l c)
    then show ?thesis using backward_shows [OF assms, of l "[c]"] len by (simp add: key_left_def z_move_def z_line_def)
  qed
qed

lemma delete_key_shows:
  assumes "fair p" and "shows_line b p e z" and "length (z_line z) \<le> 800"
  shows "shows_line b p (key_delete p e) (z\<lparr>z_right := tl (z_right z)\<rparr>)"
    and "shows_line b p (key_backspace p e) (z\<lparr>z_left := butlast (z_left z)\<rparr>)"
proof -
  note len = shows_lengths(1,2) [OF assms(2)]
  show "shows_line b p (key_delete p e) (z\<lparr>z_right := tl (z_right z)\<rparr>)"
  proof (cases "z_right z")
    case Nil
    then show ?thesis using assms(2) len by (simp add: key_delete_def z_line_def z_same)
  next
    case (Cons c r)
    then show ?thesis using delete_shows [OF assms(1,2), of "[c]" r] assms(3) len by (simp add: key_delete_def z_line_def)
  qed
  show "shows_line b p (key_backspace p e) (z\<lparr>z_left := butlast (z_left z)\<rparr>)"
  proof (cases "z_left z" rule: rev_cases)
    case Nil
    then show ?thesis using assms(2) len by (simp add: key_backspace_def z_same)
  next
    case (snoc l c)
    let ?z = "z\<lparr>z_left := l, z_right := [c] @ z_right z\<rparr>"
    have "shows_line b p (cl_backward p 1 e) ?z" using backward_shows [OF assms(1,2) snoc] by simp
    then have "shows_line b p (cl_delete p 1 (cl_backward p 1 e)) (?z\<lparr>z_right := z_right z\<rparr>)"
      using delete_shows [OF assms(1), of b _ ?z "[c]" "z_right z"] assms(3) snoc by (simp add: z_line_def)
    moreover have "?z\<lparr>z_right := z_right z\<rparr> = z\<lparr>z_left := l\<rparr>" by (cases z) simp
    ultimately show ?thesis using len snoc by (simp add: key_backspace_def)
  qed
qed

section \<open>Killing\<close>

lemma kill_shows:
  assumes "shows_line b p e z" and "line_in m KILL_BUF s" and "\<And>i. \<not> (KILL_BUF \<le> i \<and> i < HISTORY_BUF) \<Longrightarrow> m i = e_mem e i"
  shows "shows_line b p (e\<lparr>e_mem := m\<rparr>) (z\<lparr>z_kill := s\<rparr>)"
proof -
  have "displays b p (e\<lparr>e_mem := m, e_cmdline := e_cmdline e, e_history := e_history e, e_num_history := e_num_history e\<rparr>)
      (z_left z) (z_right z)"
    using assms(1,3) by (intro displays_data) (auto simp: shows_line_def)
  then have "displays b p (e\<lparr>e_mem := m\<rparr>) (z_left z) (z_right z)" by (cases e) simp
  moreover have "line_in m (HISTORY_BUF + 1600 * int j) (z_hist z ! j)" if "j < length (z_hist z)" for j
    by (rule line_in_cong [where m = "e_mem e"]) (use assms(1,3) that in \<open>auto simp: bufs shows_line_def keeps_def\<close>)
  ultimately show ?thesis using assms(1,2) by (auto simp: shows_line_def keeps_def)
qed

lemma kill_key_shows:
  assumes "fair p" and "shows_line b p e z" and "length (z_line z) \<le> 800"
  shows "shows_line b p (key_kill_left p e) (z_kill_left z)" and "shows_line b p (key_kill_right p e) (z_kill_right z)"
proof -
  note len = shows_lengths(1,2) [OF assms(2)]
  have line: "line_in (e_mem e) CMDLINE_BUF (z_left z @ z_right z)" using shows_lengths(6) [OF assms(2)] by (simp add: holds_def)
  show "shows_line b p (key_kill_left p e) (z_kill_left z)"
  proof (cases "z_left z = []")
    case True then show ?thesis using assms(2) len by (simp add: key_kill_left_def z_kill_left_def)
  next
    case False
    let ?l = "z_left z"
    let ?m = "(amove KILL_BUF CMDLINE_BUF (e_lpos e) (e_mem e))(KILL_BUF + e_lpos e := 0)"
    let ?e = "e\<lparr>e_mem := ?m\<rparr>" and ?z = "z\<lparr>z_kill := ?l\<rparr>"
    have "line_in ?m KILL_BUF ?l"
    proof -
      have "?m (KILL_BUF + int i) = ?l ! i" if "i < length ?l" for i
        using line_in_nth [OF line, of i] that len by (simp add: amove_def nth_append add.commute)
      then show ?thesis using line by (simp add: line_in_def len)
    qed
    then have s: "shows_line b p ?e ?z"
      using assms(3) len by (intro kill_shows [OF assms(2)]) (auto simp: bufs amove_def z_line_def)
    have "shows_line b p (cl_backward p (int (length ?l)) ?e) (?z\<lparr>z_left := [], z_right := ?l @ z_right z\<rparr>)"
      using backward_shows [OF assms(1) s, of "[]" ?l] by simp
    from delete_shows [OF assms(1) this, of ?l "z_right z"] False assms(3)
    have "shows_line b p (cl_delete p (int (length ?l)) (cl_backward p (int (length ?l)) ?e))
        (?z\<lparr>z_left := [], z_right := z_right z\<rparr>)" by (simp add: z_line_def)
    moreover have "?z\<lparr>z_left := [], z_right := z_right z\<rparr> = z_kill_left z" using False by (cases z) (simp add: z_kill_left_def)
    ultimately show ?thesis using len False by (simp add: key_kill_left_def Let_def)
  qed
  show "shows_line b p (key_kill_right p e) (z_kill_right z)"
  proof (cases "z_right z = []")
    case True then show ?thesis using assms(2) len by (simp add: key_kill_right_def z_kill_right_def z_line_def)
  next
    case False
    let ?r = "z_right z"
    let ?m = "amove KILL_BUF (CMDLINE_BUF + e_lpos e) (e_llen e - e_lpos e + 1) (e_mem e)"
    let ?e = "e\<lparr>e_mem := ?m\<rparr>" and ?z = "z\<lparr>z_kill := ?r\<rparr>"
    have "line_in ?m KILL_BUF ?r"
      by (rule line_in_move [OF _ line_in_drop [OF line]]) (use len in \<open>auto simp: amove_def z_line_def algebra_simps\<close>)
    then have s: "shows_line b p ?e ?z"
      using assms(3) len by (intro kill_shows [OF assms(2)]) (auto simp: bufs amove_def z_line_def)
    from delete_shows [OF assms(1) this, of ?r "[]"] False assms(3)
    have "shows_line b p (cl_delete p (int (length ?r)) ?e) (?z\<lparr>z_right := []\<rparr>)" by (simp add: z_line_def)
    moreover have "?z\<lparr>z_right := []\<rparr> = z_kill_right z" using False by (cases z) (simp add: z_kill_right_def)
    ultimately show ?thesis using len False by (simp add: key_kill_right_def Let_def z_line_def)
  qed
qed

lemma yank_shows:
  assumes "fair p" and "shows_line b p e z" and "cl_maxlen p \<le> 1600"
  shows "shows_line b p (key_yank p e) (z_insert (cl_maxlen p) (z_kill z) z)"
proof -
  have k: "line_in (e_mem e) KILL_BUF (z_kill z)" using assms(2) by (simp add: shows_line_def keeps_def)
  then have "\<forall>c\<in>set (z_kill z). plain c" by (simp add: line_in_def)
  from insert_shows [OF assms(1,2) this assms(3)] show ?thesis by (simp add: key_yank_def astring_line [OF k])
qed

section \<open>The history\<close>

lemma keeps_hist: "keeps e z \<Longrightarrow> j < length (z_hist z) \<Longrightarrow> line_in (e_mem e) (HISTORY_BUF + 1600 * int j) (z_hist z ! j)"
  by (simp add: keeps_def)

lemma length_remember: "n \<le> length h \<Longrightarrow> length (remember s n h) = min 5 (length h + 1)"
  by (simp add: remember_def)

lemma remember_nth:
  "n \<le> length h \<Longrightarrow> j < length (remember s n h) \<Longrightarrow> remember s n h ! j = (if j < n then h ! j else if j = n then s else h ! (j - 1))"
  by (auto simp: remember_def nth_append nth_Cons' split: if_splits)

lemma add_history_keeps:
  assumes k: "keeps e z" and n: "n \<le> length (z_hist z)" "n < 5" and s: "\<forall>c\<in>set s. plain c" "int (length s) < 1600"
  shows "keeps (add_history s (int n) e) (z\<lparr>z_hist := remember s n (z_hist z)\<rparr>)"
proof -
  let ?h = "z_hist z"
  let ?m = "astore (HISTORY_BUF + 1600 * int n) (s @ [0])
    (amove (HISTORY_BUF + 1600 * (int n + 1)) (HISTORY_BUF + 1600 * int n) (1600 * (int (length ?h) - int n)) (e_mem e))"
  note line = keeps_hist [OF k]
  have num: "e_num_history e = int (length ?h)" "length ?h \<le> 5" using k by (auto simp: keeps_def)
  have mem: "e_mem (add_history s (int n) e) = ?m" "e_num_history (add_history s (int n) e) = int (min 5 (length ?h + 1))"
    "e_history (add_history s (int n) e) = e_history e" "e_cmdline (add_history s (int n) e) = e_cmdline e"
    using num by (auto simp: add_history_def Let_def MAX_CMDLINE_def HISTORY_SIZE_def)
  have "line_in ?m (HISTORY_BUF + 1600 * int j) (remember s n ?h ! j)" if j: "j < length (remember s n ?h)" for j
  proof -
    note nth = remember_nth [OF n(1) j]
    have jh: "j \<le> length ?h" using j by (simp add: length_remember n)
    consider "j < n" | "j = n" | "n < j" by linarith
    then show ?thesis
    proof cases
      case 1
      have "line_in ?m (HISTORY_BUF + 1600 * int j) (?h ! j)"
      proof (rule line_in_cong [where m = "e_mem e"])
        fix i assume "HISTORY_BUF + 1600 * int j \<le> i" and i: "i < HISTORY_BUF + 1600 * int j + 1600"
        moreover have "1600 * int j + 1600 \<le> 1600 * int n" using 1 by simp
        ultimately show "?m i = e_mem e i" by (simp add: astore_def amove_def)
      qed (use line 1 n in simp)
      with 1 nth show ?thesis by simp
    next
      case 2
      with nth s show ?thesis by (simp add: line_in_astore)
    next
      case 3
      then have jj: "HISTORY_BUF + 1600 * int j = HISTORY_BUF + 1600 * int (j - 1) + 1600" by (simp add: of_nat_diff)
      have "line_in ?m (HISTORY_BUF + 1600 * int j) (?h ! (j - 1))"
      proof (rule line_in_move)
        show l: "line_in (e_mem e) (HISTORY_BUF + 1600 * int (j - 1)) (?h ! (j - 1))"
          by (rule line) (use jh 3 in simp)
        fix i assume i: "0 \<le> i" "i \<le> int (length (?h ! (j - 1)))"
        have "i < 1600" using l i by (simp add: line_in_def)
        moreover have "1600 * int n + 1600 \<le> 1600 * int j" "1600 * int j \<le> 1600 * int (length ?h)" using 3 jh by simp_all
        ultimately show "?m (HISTORY_BUF + 1600 * int j + i) = e_mem e (HISTORY_BUF + 1600 * int (j - 1) + i)"
          using i s jj by (simp add: astore_def amove_def algebra_simps)
      qed
      with 3 nth show ?thesis by simp
    qed
  qed
  moreover have "line_in ?m KILL_BUF (z_kill z)"
    by (rule line_in_cong [where m = "e_mem e"]) (use k in \<open>auto simp: keeps_def astore_def amove_def HISTORY_BUF_def MAX_CMDLINE_def\<close>)
  ultimately show ?thesis using k n by (auto simp: keeps_def mem length_remember)
qed

lemma add_history_shows:
  assumes "shows_line b p e z" and n: "n \<le> length (z_hist z)" "n < 5" and s: "\<forall>c\<in>set s. plain c" "int (length s) < 1600"
  shows "shows_line b p (add_history s (int n) e) (z\<lparr>z_hist := remember s n (z_hist z)\<rparr>)"
proof -
  have e: "add_history s (int n) e = e\<lparr>e_mem := e_mem (add_history s (int n) e), e_cmdline := e_cmdline e, e_history := e_history e,
      e_num_history := e_num_history (add_history s (int n) e)\<rparr>"
    by (cases e) (simp add: add_history_def Let_def)
  have "displays b p (add_history s (int n) e) (z_left z) (z_right z)"
    by (subst e, rule displays_data)
      (use assms(1) in \<open>auto simp: shows_line_def add_history_def Let_def astore_def amove_def bufs\<close>)
  then show ?thesis using assms add_history_keeps [of e z n s] by (simp add: shows_line_def)
qed

lemma keep_line_shows:
  assumes "shows_line b p e z" and "0 \<le> z_pos z"
  shows "shows_line b p (keep_line e) (z_keep z)"
proof -
  obtain n where zn: "z_pos z = int n" using assms(2) by (rule nonneg_int_cases)
  have pos: "e_history e = int n" "n < length (z_hist z)" "n < 5" "e_num_history e = int (length (z_hist z))"
    using assms by (auto simp: shows_line_def keeps_def zn)
  have line: "line_in (e_mem e) (HISTORY_BUF + 1600 * int n) (z_hist z ! n)"
    by (rule keeps_hist) (use assms(1) pos(2) in \<open>simp_all add: shows_line_def\<close>)
  have "get_history (e_history e) e = Some (HISTORY_BUF + 1600 * int n)"
    using pos by (simp add: get_history_def MAX_CMDLINE_def)
  then have "keep_line e = (if z_hist z ! n \<noteq> z_line z then add_history (z_line z) (int n) e else e)"
    using pos(1) by (simp add: keep_line_def astring_line [OF line] shows_lengths(3) [OF assms(1)])
  then show ?thesis
    using assms add_history_shows [OF assms(1), of n "z_line z"] pos shows_lengths(4,5) [OF assms(1)] by (simp add: z_keep_def zn)
qed

lemma z_keep_simps:
  "z_pos (z_keep z) = z_pos z" "z_saved (z_keep z) = z_saved z"
  by (simp_all add: z_keep_def)

lemma recall_shows:
  assumes "fair p" and "shows_line b p e z" and "\<forall>c\<in>set s. plain c" and "int (length s) < 1600"
    and "- 1 \<le> k" and "k < int (length (z_hist z))" and "0 \<le> k \<Longrightarrow> line_in (e_cmdline e) 0 (z_saved z)"
  shows "shows_line b p (load_line p s (e\<lparr>e_history := k\<rparr>)) (z_recall s (z\<lparr>z_pos := k\<rparr>))"
proof -
  have "keeps (e\<lparr>e_history := k\<rparr>) (z\<lparr>z_pos := k\<rparr>)" using assms by (auto simp: shows_line_def keeps_def)
  from keeps_frame [OF this frame_load [OF assms(4)]] show ?thesis
    using load_displays [OF assms(1,3,4)] by (simp add: shows_line_def z_recall_def)
qed

lemma history_at:
  assumes "shows_line b p e z" and "0 \<le> k" and "k < int (length (z_hist z))"
  shows "get_history k e = Some (HISTORY_BUF + 1600 * k)" and "astring (e_mem e) (HISTORY_BUF + 1600 * k) = z_hist z ! nat k"
    and "\<forall>c\<in>set (z_hist z ! nat k). plain c" and "int (length (z_hist z ! nat k)) < 1600"
proof -
  have line: "line_in (e_mem e) (HISTORY_BUF + 1600 * int (nat k)) (z_hist z ! nat k)"
    using assms by (intro keeps_hist) (auto simp: shows_line_def)
  have n: "e_num_history e = int (length (z_hist z))" using assms(1) by (simp add: shows_line_def keeps_def)
  show "get_history k e = Some (HISTORY_BUF + 1600 * k)" using assms n by (simp add: get_history_def MAX_CMDLINE_def)
  show "astring (e_mem e) (HISTORY_BUF + 1600 * k) = z_hist z ! nat k" using astring_line [OF line] assms(2) by simp
  show "\<forall>c\<in>set (z_hist z ! nat k). plain c" "int (length (z_hist z ! nat k)) < 1600" using line by (auto simp: line_in_def)
qed

lemma previous_shows:
  assumes "fair p" and "shows_line b p e z"
  shows "shows_line b p (key_previous p e) (z_previous z)"
proof -
  note len = shows_lengths(3-5) [OF assms(2)]
  have pos: "e_history e = z_pos z" "- 1 \<le> z_pos z" "z_pos z < int (length (z_hist z))" using assms(2) by (auto simp: shows_line_def keeps_def)
  define e1 where "e1 = (if e_history e < 0 then e\<lparr>e_cmdline := astore 0 (buf_string e @ [0]) (e_cmdline e)\<rparr> else keep_line e)"
  define z1 where "z1 = (if z_pos z < 0 then z\<lparr>z_saved := z_line z\<rparr> else z_keep z)"
  have saved: "line_in (e_cmdline e1) 0 (z_saved z1)" and s: "shows_line b p e1 z1"
  proof -
    have "line_in (astore 0 (z_line z @ [0]) (e_cmdline e)) 0 (z_line z)" using len by (intro line_in_astore) auto
    moreover have "displays b p (e\<lparr>e_cmdline := c\<rparr>) (z_left z) (z_right z)" for c
      using displays_data [where e = e and m = "e_mem e" and c = c and k = "e_history e" and n = "e_num_history e"] assms(2)
      by (cases e) (simp add: shows_line_def)
    ultimately have "shows_line b p (e\<lparr>e_cmdline := astore 0 (z_line z @ [0]) (e_cmdline e)\<rparr>) (z\<lparr>z_saved := z_line z\<rparr>)"
      if "z_pos z < 0" using assms(2) that by (simp add: shows_line_def keeps_def)
    then show s: "shows_line b p e1 z1" using keep_line_shows [OF assms(2)] len pos by (auto simp: e1_def z1_def)
    show "line_in (e_cmdline e1) 0 (z_saved z1)"
    proof (cases "z_pos z < 0")
      case True
      then show ?thesis using pos len(2,3) by (auto simp: e1_def z1_def len(1) intro: line_in_astore)
    next
      case False
      then show ?thesis using s by (simp add: z1_def z_keep_simps shows_line_def keeps_def)
    qed
  qed
  have p1: "z_pos z1 = z_pos z" by (simp add: z1_def z_keep_simps)
  have h1: "e_history e1 = z_pos z" "e_num_history e1 = int (length (z_hist z1))" using s p1 by (auto simp: shows_line_def keeps_def)
  have kp: "key_previous p e = (case get_history (z_pos z + 1) (e1\<lparr>e_history := z_pos z + 1\<rparr>) of
      None \<Rightarrow> e1\<lparr>e_history := z_pos z\<rparr> | Some h \<Rightarrow> load_line p (astring (e_mem e1) h) (e1\<lparr>e_history := z_pos z + 1\<rparr>))"
    unfolding key_previous_def e1_def [symmetric] using h1(1) by (simp add: Let_def split: option.split)
  show ?thesis
  proof (cases "z_pos z + 1 < int (length (z_hist z1))")
    case True
    note at = history_at [OF s _ True]
    have "get_history (z_pos z + 1) (e1\<lparr>e_history := z_pos z + 1\<rparr>) = Some (HISTORY_BUF + 1600 * (z_pos z + 1))"
      using at(1) pos by (simp add: get_history_def)
    then have "key_previous p e = load_line p (z_hist z1 ! nat (z_pos z + 1)) (e1\<lparr>e_history := z_pos z + 1\<rparr>)"
      using at(2) pos by (simp add: kp)
    moreover have "z_previous z = z_recall (z_hist z1 ! nat (z_pos z + 1)) (z1\<lparr>z_pos := z_pos z + 1\<rparr>)"
      using True p1 by (simp add: z_previous_def Let_def z1_def [symmetric])
    ultimately show ?thesis using recall_shows [OF assms(1) s at(3,4) _ True saved] pos by simp
  next
    case False
    then have "get_history (z_pos z + 1) (e1\<lparr>e_history := z_pos z + 1\<rparr>) = None" using h1 by (simp add: get_history_def)
    moreover have "e1\<lparr>e_history := z_pos z\<rparr> = e1" using h1 by (cases e1) simp
    ultimately have "key_previous p e = e1" by (simp add: kp)
    moreover have "z_previous z = z1" using False p1 by (simp add: z_previous_def Let_def z1_def [symmetric])
    ultimately show ?thesis using s by simp
  qed
qed

lemma next_shows:
  assumes "fair p" and "shows_line b p e z"
  shows "shows_line b p (key_next p e) (z_next z)"
proof (cases "z_pos z < 0")
  case True
  then show ?thesis using assms(2) by (simp add: key_next_def z_next_def shows_line_def keeps_def)
next
  case False
  have s: "shows_line b p (keep_line e) (z_keep z)" using keep_line_shows assms(2) False by simp
  then have h: "e_history (keep_line e) = z_pos z" "e_num_history (keep_line e) = int (length (z_hist (z_keep z)))"
    "line_in (e_cmdline (keep_line e)) 0 (z_saved (z_keep z))" "z_pos z < int (length (z_hist (z_keep z)))" "e_history e = z_pos z"
    using False assms(2) by (auto simp: shows_line_def keeps_def z_keep_simps)
  let ?s = "if z_pos z = 0 then z_saved (z_keep z) else z_hist (z_keep z) ! nat (z_pos z - 1)"
  define e2 where "e2 = keep_line e\<lparr>e_history := z_pos z - 1\<rparr>"
  have fetched: "(case get_history (z_pos z - 1) e2 of None \<Rightarrow> astring (e_cmdline e2) 0 | Some h \<Rightarrow> astring (e_mem e2) h) = ?s"
    and "\<forall>c\<in>set ?s. plain c" and "int (length ?s) < 1600"
    using h False history_at [OF s, of "z_pos z - 1"] astring_line [OF h(3)]
    by (auto simp: get_history_def line_in_def e2_def)
  then have "shows_line b p (load_line p ?s e2) (z_recall ?s (z_keep z\<lparr>z_pos := z_pos z - 1\<rparr>))"
    unfolding e2_def using h False by (intro recall_shows [OF assms(1) s]) auto
  moreover have "key_next p e = load_line p ?s e2"
    unfolding fetched [symmetric] using False h by (simp add: key_next_def Let_def e2_def cong: option.case_cong)
  moreover have "z_next z = z_recall ?s (z_keep z\<lparr>z_pos := z_pos z - 1\<rparr>)"
    using False by (simp add: z_next_def Let_def z_keep_simps)
  ultimately show ?thesis by (simp only:)
qed

section \<open>Every key\<close>

lemma printable: "32 \<le> int_of_char c \<Longrightarrow> plain c"
  by (auto simp: plain_def int_of_char_def)

lemma key_shows:
  assumes "fair p" and "shows_line b p e z" and "cl_maxlen p \<le> 1600" and "length (z_line z) \<le> 800"
    and "c = 9 \<Longrightarrow> \<not> cl_readline p"
  shows "shows_line b p (edit_key complete p c e) (z_key p c z)"
proof -
  note acts = move_shows [OF assms(1,2)] delete_key_shows [OF assms(1,2,4)] kill_key_shows [OF assms(1,2,4)]
    yank_shows [OF assms(1-3)] previous_shows [OF assms(1,2)] next_shows [OF assms(1,2)]
  show ?thesis
  proof (cases "32 \<le> int_of_char c \<and> int_of_char c \<le> 126")
    case True
    then have "c \<notin> {9, 1, 5, 6, 2, 21, 11, 25, 16, 14, 4, 8}" by (auto simp: int_of_char_def)
    moreover have "shows_line b p (cl_insert p [c] e) (z_insert (cl_maxlen p) [c] z)"
      using True printable by (intro insert_shows [OF assms(1,2) _ assms(3)]) simp
    ultimately show ?thesis using True by (simp add: edit_key_def z_key_def Let_def)
  next
    case False
    show ?thesis
    proof (cases "cl_readline p \<and> c \<in> {1, 5, 6, 2, 21, 11, 25, 16, 14}")
      case True
      then have "cl_readline p" "c \<in> {1, 5, 6, 2, 21, 11, 25, 16, 14}" by simp_all
      with False acts show ?thesis
        unfolding edit_key_def z_key_def Let_def by (elim insertE emptyE) (simp_all only: if_True if_False simp_thms, simp_all)
    next
      case no: False
      let ?e = "if c = 4 then key_delete p e else if c = 8 then key_backspace p e else e"
      let ?z = "if c = 4 then z\<lparr>z_right := tl (z_right z)\<rparr> else if c = 8 then z\<lparr>z_left := butlast (z_left z)\<rparr> else z"
      have "edit_key complete p c e = ?e" "z_key p c z = ?z"
      proof (atomize (full), cases "cl_readline p")
        case True
        then have "c \<noteq> 9" "c \<noteq> 1" "c \<noteq> 5" "c \<noteq> 6" "c \<noteq> 2" "c \<noteq> 21" "c \<noteq> 11" "c \<noteq> 25" "c \<noteq> 16" "c \<noteq> 14"
          using no assms(5) by auto
        then show "edit_key complete p c e = ?e \<and> z_key p c z = ?z"
          using False unfolding edit_key_def z_key_def Let_def by (simp only: if_False if_True if_cancel simp_thms)
      next
        case n: False
        show "edit_key complete p c e = ?e \<and> z_key p c z = ?z"
          using False n unfolding edit_key_def z_key_def Let_def by (simp only: if_False simp_thms)
      qed
      moreover have "shows_line b p ?e ?z" using acts(5,6) assms(2) by simp
      ultimately show ?thesis by simp
    qed
  qed
qed

text \<open>A run of keys during which the line never has more than 800 characters.\<close>

fun short_run :: "cl_args \<Rightarrow> u8 list \<Rightarrow> line \<Rightarrow> bool" where
  "short_run p [] z = (length (z_line z) \<le> 800)"
| "short_run p (c # cs) z = (length (z_line z) \<le> 800 \<and> short_run p cs (z_key p c z))"

lemma keys_show:
  assumes "fair p" and "cl_maxlen p \<le> 1600" and "9 \<in> set cs \<Longrightarrow> \<not> cl_readline p"
    and "shows_line b p e z" and "short_run p cs z"
  shows "shows_line b p (fold (edit_key complete p) cs e) (fold (z_key p) cs z)"
  using assms(3-5)
proof (induction cs arbitrary: e z)
  case (Cons c cs)
  have "shows_line b p (edit_key complete p c e) (z_key p c z)"
    by (rule key_shows [OF assms(1) _ assms(2)]) (use Cons.prems in auto)
  then show ?case using Cons by simp
qed simp

lemma loop_keys:
  "set cs \<inter> {10, 13, 27} = {} \<Longrightarrow> edit_loop complete p (cs @ c # rest) e = edit_loop complete p (c # rest) (fold (edit_key complete p) cs e)"
  by (induction cs arbitrary: e) auto

section \<open>The beginning and the end\<close>

text \<open>What is at rest between two calls: the kill text and the history.\<close>

definition at_rest :: "editor \<Rightarrow> u8 list \<Rightarrow> u8 list list \<Rightarrow> bool" where
  "at_rest e kill hist \<longleftrightarrow> line_in (e_mem e) KILL_BUF kill \<and> e_num_history e = int (length hist) \<and> length hist \<le> 5 \<and>
     (\<forall>j<length hist. line_in (e_mem e) (HISTORY_BUF + 1600 * int j) (hist ! j))"

definition z_start :: "u8 list \<Rightarrow> u8 list \<Rightarrow> u8 list list \<Rightarrow> line" where
  "z_start s kill hist = \<lparr>z_left = s, z_right = [], z_kill = kill, z_hist = hist, z_pos = - 1, z_saved = []\<rparr>"

definition clamp :: "cl_args \<Rightarrow> cl_args" where
  "clamp p = p\<lparr>cl_maxlen := min 1600 (cl_maxlen p)\<rparr>"

lemma clamp_simps [simp]:
  "fair (clamp p) = fair p" "cl_maxlen (clamp p) \<le> 1600" "cl_readline (clamp p) = cl_readline p" "cl_echo (clamp p) = cl_echo p"
  by (simp_all add: clamp_def fair_def)

lemma begin_shows:
  assumes "fair p" and s: "line_in (e_cmdline e) 0 s" and r: "at_rest e kill hist"
  shows "fst (get_begin p e) = clamp p" and "shows_line b (clamp p) (snd (get_begin p e)) (z_start s kill hist)"
proof -
  have len: "length (astring (e_cmdline e) 0) = length s" "int (length s) < 1600" "\<forall>c\<in>set s. plain c"
    using s astring_line [OF s] by (auto simp: line_in_def)
  define e1 where "e1 = e\<lparr>e_llen := int (length s), e_history := - 1, e_lpos := int (length s),
      e_mem := astore CMDLINE_BUF (s @ [0]) (e_mem e)\<rparr>"
  have gb: "get_begin p e = (clamp p, cl_init (clamp p) e1)"
    using len by (cases p) (auto simp: get_begin_def Let_def MAX_CMDLINE_def clamp_def e1_def astring_line [OF s])
  then show "fst (get_begin p e) = clamp p" by simp
  define e2 where "e2 = grub_putchar 10 e1"
  have d: "data e2 = data e1" by (simp add: e2_def)
  have "holds e1 s []" using line_in_astore [OF len(3,2)] by (simp add: holds_def e1_def)
  then have h: "holds e2 s []" by (rule data_holds [OF d, THEN iffD2])
  let ?z = "z_start s kill hist"
  have "line_in (e_mem e1) a t" if "line_in (e_mem e) a t" "KILL_BUF \<le> a" for a t
    by (rule line_in_cong [OF _ that(1)]) (use that(2) len in \<open>auto simp: e1_def astore_def bufs\<close>)
  then have "keeps e1 ?z" using r by (auto simp: keeps_def at_rest_def z_start_def e1_def bufs)
  moreover have "bufs_kept e1 (cl_init (clamp p) e1)"
    unfolding cl_init_def e2_def [symmetric] by (rule frame_trans [OF frame_data [OF d] frame_moves(3)]) (simp add: bufs_kept_def)
  ultimately have "keeps (cl_init (clamp p) e1) (?z\<lparr>z_left := s, z_right := []\<rparr>)" by (rule keeps_frame)
  moreover have "displays b (clamp p) (cl_init (clamp p) e1) s []"
    unfolding cl_init_def e2_def [symmetric] by (rule full_refresh [OF _ h]) (use assms(1) in simp)
  ultimately show "shows_line b (clamp p) (snd (get_begin p e)) ?z"
    by (simp add: gb shows_line_def z_start_def)
qed

definition z_result :: "cl_args \<Rightarrow> line \<Rightarrow> u8 list" where
  "z_result p z = (if cl_echo p = 0 then dropWhile (\<lambda>c. c = 32) (z_line z) else z_line z)"

definition z_history :: "cl_args \<Rightarrow> line \<Rightarrow> u8 list list" where
  "z_history p z = (if cl_readline p \<and> z_result p z \<noteq> [] then remember (z_result p z) 0 (z_hist z) else z_hist z)"

lemma end_result:
  assumes s: "shows_line b p e z"
  shows "line_in (e_cmdline (get_end p e)) 0 (z_result p z)" and "at_rest (get_end p e) (z_kill z) (z_history p z)"
proof -
  note len = shows_lengths [OF s]
  define e1 where "e1 = grub_putchar 10 e"
  have d: "data e1 = data e" by (simp add: e1_def)
  then have f: "e_mem e1 = e_mem e" "e_llen e1 = e_llen e" "e_cmdline e1 = e_cmdline e" "e_num_history e1 = e_num_history e"
    by (simp_all add: data_def)
  define bl where "bl = (if cl_echo p = 0 then takeWhile (\<lambda>c. c = 32) (z_line z) else [])"
  let ?r = "z_result p z"
  have split: "z_line z = bl @ ?r" by (simp add: z_result_def bl_def)
  define e2 where "e2 = e1\<lparr>e_lpos := int (length bl),
      e_cmdline := acopy 0 (e_mem e) (CMDLINE_BUF + int (length bl)) (int (length ?r) + 1) (e_cmdline e)\<rparr>"
  have l: "line_in (e_mem e) CMDLINE_BUF (bl @ ?r)" using len(6) unfolding split [symmetric] by (simp add: holds_def z_line_def)
  have c: "line_in (e_cmdline e2) 0 ?r"
    by (rule line_in_move [OF _ line_in_drop [OF l]]) (auto simp: e2_def acopy_def add.commute)
  have "length (z_line z) = length bl + length ?r" using arg_cong [OF split, of length] by (simp only: length_append)
  then have n: "e_llen e - int (length bl) = int (length ?r)" using len(2) by linarith
  have ge: "get_end p e = (if cl_readline p \<and> ?r \<noteq> [] then add_history ?r (int 0) e2 else e2)"
  proof -
    have "get_end p e = (let e' = e1\<lparr>e_lpos := int (length bl), e_cmdline := acopy 0 (e_mem e) (CMDLINE_BUF + int (length bl))
        (e_llen e - int (length bl) + 1) (e_cmdline e)\<rparr>
      in if cl_readline p \<and> int (length bl) < e_llen e then add_history (astring (e_cmdline e') 0) 0 e' else e')"
      by (cases "cl_echo p = 0") (simp_all add: get_end_def Let_def e1_def [symmetric] bl_def f len(3))
    then have "get_end p e = (if cl_readline p \<and> int (length bl) < e_llen e then add_history (astring (e_cmdline e2) 0) 0 e2 else e2)"
      unfolding n e2_def [symmetric] Let_def .
    moreover have "(int (length bl) < e_llen e) = (?r \<noteq> [])" using n by (cases ?r) auto
    ultimately show ?thesis by (simp add: astring_line [OF c])
  qed
  have k: "keeps (e2\<lparr>e_history := - 1\<rparr>) (z\<lparr>z_pos := - 1\<rparr>)"
    using s by (auto simp: shows_line_def keeps_def e2_def f)
  have pl: "\<forall>c\<in>set ?r. plain c" "int (length ?r) < 1600" using c by (auto simp: line_in_def)
  have "keeps (add_history ?r (int 0) (e2\<lparr>e_history := - 1\<rparr>)) (z\<lparr>z_pos := - 1, z_hist := remember ?r 0 (z_hist z)\<rparr>)"
    using add_history_keeps [OF k _ _ pl, of 0] by simp
  moreover have "at_rest e' kl h" if "keeps (e'\<lparr>e_history := - 1\<rparr>) z'" "z_kill z' = kl" "z_hist z' = h" for e' z' kl h
    using that by (auto simp: keeps_def at_rest_def)
  moreover have "add_history ?r (int 0) (e2\<lparr>e_history := - 1\<rparr>) = (add_history ?r (int 0) e2)\<lparr>e_history := - 1\<rparr>"
    by (simp add: add_history_def Let_def)
  ultimately show "at_rest (get_end p e) (z_kill z) (z_history p z)"
    using k by (auto simp: ge z_history_def)
  show "line_in (e_cmdline (get_end p e)) 0 ?r"
    using c by (simp add: ge add_history_def Let_def)
qed

section \<open>Terminals without editing\<close>

text \<open>
  The printable characters are gathered without the leading spaces. The result does not depend on the length the caller
  allows: a longer line is written behind its buffer.
\<close>

lemma astore_Cons: "astore (n + 1) xs (a(n := c)) = astore n (c # xs) a"
  by (auto simp: astore_def fun_eq_iff nth_Cons' nat_eq_iff intro!: arg_cong [where f = "nth xs"])

lemma gathered:
  assumes "set keys \<inter> {10, 13, 27} = {}" and "c = 10 \<or> c = 13"
  shows "0 \<le> pos \<Longrightarrow> \<exists>e'. gather_keys no_echo (keys @ [c]) pos e = Some (0, e') \<and>
    e_cmdline e' = astore pos ((if pos = 0 then dropWhile (\<lambda>c. c = 32) else (\<lambda>s. s))
      (filter (\<lambda>c. 32 \<le> int_of_char c \<and> int_of_char c \<le> 126) keys) @ [0]) (e_cmdline e)"
  using assms(1)
proof (induction keys arbitrary: pos e)
  case Nil
  have "e_cmdline (grub_putchar 10 e') = e_cmdline e'" for e' :: editor using data_putchar [of 10 e'] by (simp add: data_def)
  then show ?case using assms(2) by (auto simp: astore_def Let_def fun_eq_iff)
next
  case (Cons k keys)
  let ?e = "if no_echo then e else grub_putchar k e"
  have e: "e_cmdline ?e = e_cmdline e" using data_putchar [of k e] by (simp add: data_def)
  have k: "k \<noteq> 10" "k \<noteq> 13" "k \<noteq> 27" and keys: "set keys \<inter> {10, 13, 27} = {}" using Cons.prems(2) by auto
  show ?case
  proof (cases "32 \<le> int_of_char k \<and> int_of_char k \<le> 126 \<and> (k \<noteq> 32 \<or> pos \<noteq> 0)")
    case True
    have pos: "0 \<le> pos + 1" "\<not> pos + 1 = 0" using Cons.prems(1) by simp_all
    have upd: "e_cmdline (?e\<lparr>e_cmdline := (e_cmdline e)(pos := k)\<rparr>) = (e_cmdline e)(pos := k)" by simp
    obtain e' where e': "gather_keys no_echo (keys @ [c]) (pos + 1) (?e\<lparr>e_cmdline := (e_cmdline ?e)(pos := k)\<rparr>) = Some (0, e')"
      "e_cmdline e' = astore (pos + 1) (filter (\<lambda>c. 32 \<le> int_of_char c \<and> int_of_char c \<le> 126) keys @ [0]) ((e_cmdline e)(pos := k))"
      using Cons.IH [OF pos(1) keys, of "?e\<lparr>e_cmdline := (e_cmdline ?e)(pos := k)\<rparr>"] unfolding e upd if_not_P [OF pos(2)]
      by blast
    have "gather_keys no_echo ((k # keys) @ [c]) pos e = Some (0, e')"
      using True k e'(1) by (auto simp: Let_def)
    then show ?thesis using e'(2) True by (auto simp: astore_Cons)
  next
    case False
    then show ?thesis using Cons.IH [OF Cons.prems(1) keys, of ?e] Cons.IH [OF Cons.prems(1) keys, of e] k e
      by (auto simp: Let_def)
  qed
qed

section \<open>Properties\<close>

text \<open>
  From lines of more than 800 characters the move reaches behind the working buffer: deleting \<open>n\<close> characters takes the
  kill buffer from its \<open>n\<close>th character on.
\<close>

lemma long_delete_shifts_kill:
  assumes "e_lpos e \<le> 1600" and "1600 < e_lpos e + (e_llen e - n + 1)"
  shows "e_mem (cl_delete p n e) KILL_BUF = e_mem e (KILL_BUF + n)"
proof -
  let ?m = "amove (CMDLINE_BUF + e_lpos e) (CMDLINE_BUF + e_lpos e + n) (e_llen e - n + 1) (e_mem e)"
  have "data (cl_delete p n e) = data (e\<lparr>e_mem := ?m, e_llen := e_llen e - n\<rparr>)" by (simp add: cl_delete_def Let_def)
  then have "e_mem (cl_delete p n e) = ?m" by (simp add: data_def)
  then show ?thesis using assms by (simp add: amove_def bufs algebra_simps)
qed

text \<open>
  Property C40. The command-line editor of the boot loader: whatever keys but \<^verbatim>\<open>TAB\<close>, \<^verbatim>\<open>ESC\<close> and the ends of a line are typed
  while no line has more than 800 characters, the working buffer, the kill buffer and the history hold what the abstract
  editor holds, and the row of the screen shows the section of the line around the cursor, with the marks for hidden
  characters and the cursor at its place. When the line is ended the editor returns 0, the caller's buffer is the line
  (without leading spaces when it is echoed), and the history begins with it.
\<close>

theorem get_cmdline_correct:
  assumes "fair p" and "line_in (e_cmdline e) 0 s" and "at_rest e kill hist"
    and "set keys \<inter> {10, 13, 27} = {}" and "9 \<in> set keys \<Longrightarrow> \<not> cl_readline p"
    and "short_run (clamp p) keys (z_start s kill hist)" and "c = 10 \<or> c = 13"
  shows "\<exists>z e'. z = fold (z_key (clamp p)) keys (z_start s kill hist) \<and>
    displays b (clamp p) (fold (edit_key complete (clamp p)) keys (snd (get_begin p e))) (z_left z) (z_right z) \<and>
    real_get_cmdline complete p (keys @ [c]) e = Some (0, e') \<and>
    line_in (e_cmdline e') 0 (z_result p z) \<and> at_rest e' (z_kill z) (z_history p z)"
proof -
  let ?z = "fold (z_key (clamp p)) keys (z_start s kill hist)"
  let ?e = "fold (edit_key complete (clamp p)) keys (snd (get_begin p e))"
  have s: "shows_line b (clamp p) ?e ?z"
    by (rule keys_show [OF _ _ _ begin_shows(2) [OF assms(1-3)] assms(6)]) (use assms(1,5) in auto)
  have "get_begin p e = (clamp p, snd (get_begin p e))" using begin_shows(1) [OF assms(1-3)] by (metis prod.collapse)
  then have "real_get_cmdline complete p (keys @ [c]) e = edit_loop complete (clamp p) (keys @ [c]) (snd (get_begin p e))"
    by (simp add: real_get_cmdline_def split: prod.split) (metis prod.inject)
  also have "\<dots> = Some (0, get_end (clamp p) ?e)"
    using loop_keys [OF assms(4), of complete "clamp p" c "[]"] assms(7) by auto
  finally have "real_get_cmdline complete p (keys @ [c]) e = Some (0, get_end (clamp p) ?e)" .
  moreover have "z_result (clamp p) = z_result p" "z_history (clamp p) = z_history p"
    by (simp_all add: fun_eq_iff z_result_def z_history_def)
  ultimately show ?thesis using end_result [OF s] s by (auto simp: shows_line_def)
qed

definition demo_args :: cl_args where
  "demo_args = \<lparr>cl_prompt = bytes ''grub> '', cl_maxlen = 2048, cl_echo = 0, cl_readline = True, cl_dumb = False\<rparr>"

definition demo_editor :: editor where
  "demo_editor = \<lparr>e_xpos = 0, e_lpos = 0, e_llen = 0, e_section = 0, e_mem = (\<lambda>_. 0), e_cmdline = (\<lambda>_. 0), e_history = 0,
     e_num_history = 0, e_out = []\<rparr>"

text \<open>\<open>ob\<close>, back to the beginning, \<open>r\<close>, forward, \<open>o\<close>, kill to the end and yank twice.\<close>

theorem get_cmdline_correct_witness:
  "\<exists>e'. real_get_cmdline (\<lambda>e. e) demo_args [111, 98, 1, 114, 6, 111, 11, 25, 25, 13] demo_editor = Some (0, e') \<and>
     line_in (e_cmdline e') 0 (bytes ''roobb'') \<and> at_rest e' (bytes ''b'') [bytes ''roobb'']"
proof -
  let ?keys = "[111, 98, 1, 114, 6, 111, 11, 25, 25] :: u8 list"
  note z_defs = z_start_def z_key_def z_insert_def z_move_def z_line_def z_kill_right_def clamp_def demo_args_def Let_def int_of_char_def
  have z: "fold (z_key (clamp demo_args)) ?keys (z_start [] [] []) =
      \<lparr>z_left = bytes ''roobb'', z_right = [], z_kill = bytes ''b'', z_hist = [], z_pos = - 1, z_saved = []\<rparr>"
    by (simp add: z_defs)
  have "short_run (clamp demo_args) ?keys (z_start [] [] [])" by (simp add: z_defs)
  moreover have "fair demo_args" by (simp add: fair_def demo_args_def plain_def)
  moreover have "line_in (e_cmdline demo_editor) 0 []" "at_rest demo_editor [] []"
    by (simp_all add: line_in_def at_rest_def demo_editor_def)
  ultimately obtain e' where "real_get_cmdline (\<lambda>e. e) demo_args (?keys @ [13]) demo_editor = Some (0, e')"
    "line_in (e_cmdline e') 0 (z_result demo_args (fold (z_key (clamp demo_args)) ?keys (z_start [] [] [])))"
    "at_rest e' (z_kill (fold (z_key (clamp demo_args)) ?keys (z_start [] [] [])))
       (z_history demo_args (fold (z_key (clamp demo_args)) ?keys (z_start [] [] [])))"
    using get_cmdline_correct [of demo_args demo_editor "[]" "[]" "[]" ?keys 13 "\<lambda>_. 32" "\<lambda>e. e"] by auto
  then show ?thesis
    unfolding z by (auto simp: z_result_def z_history_def remember_def z_line_def demo_args_def)
qed

end
