(* ===== verification/Spec2Isabelle.thy ===== *)
theory Spec2Isabelle
  imports CBase Mm CString Kmalloc Task SimpleQueue Queues Sem Pipe Page Interrupt Numerals Screen Kprintf Exceptions Vesa Paint Canvas Gui Ctype Stdlib Vsprintf Stdio CTime Input StrftimeText Sscanf Kernel Vfs Init TimeOrder Strtod Boot GrubLib Md5 LineKeys
begin

text \<open>
  A verification library for the evilos kernel: a 32-bit x86 hobby kernel in C with a physical memory manager,
  preemptive tasks, semaphores and pipes, paging, drivers for the text screen, a linear frame buffer, the
  keyboard and the mouse, a small window canvas, and a C library. Paths are relative to
  \<^verbatim>\<open>src/evilos/\<close>.

  \<^bold>\<open>How the program works.\<close> The boot loader enters \<^verbatim>\<open>cmain\<close> (\<^verbatim>\<open>kernel.c\<close>), which reports the
  Multiboot information and calls \<^verbatim>\<open>init\<close> (\<^verbatim>\<open>init.c\<close>). \<^verbatim>\<open>init\<close> installs the descriptor
  tables, the interrupt controllers, the timer, the drivers, the memory pool and the page tables, and creates tasks.
  From then on the timer interrupt calls the scheduler, the device interrupts feed the keyboard and the mouse, and
  tasks synchronise with semaphores, whose wait queues are the list macros of \<^verbatim>\<open>include/queue.h\<close> and whose items
  come from \<^verbatim>\<open>kmalloc\<close>, which rests on \<^verbatim>\<open>mem_malloc\<close>. Pipes are ring buffers guarded by semaphores.
  Output goes through \<^verbatim>\<open>vsprintf\<close> to the text screen or the frame buffer, and from exceptions through
  \<^verbatim>\<open>kprintf\<close>. The repository also carries its boot loader, a patched GRUB 0.97
  (\<^verbatim>\<open>tools/grub-vbe-patch/\<close>), with a library, a command line and passwords of its own.

  \<^bold>\<open>The model.\<close> Every definition is executable and at the top level of its theory. The machine types are those of the
  ILP32 target: \<open>u8\<close>, \<open>u16\<close>, \<open>u32\<close> and \<open>u64\<close> are words that wrap, signed readings are \<open>sint\<close>. Where
  code works on raw bytes, memory is one function from 32-bit addresses to bytes, so aliasing, overlap and
  wrap-around of addresses are those of the machine. A structure that is only accessed by its members is a
  record. An operation returns its new state; \<open>None\<close> is a loop that never ends (or, in the list macros and the
  timer, a trap), and an error of the memory manager or of \<open>kprintf\<close> is the left summand. No fuel is used: loops
  that end have a termination proof, loops that may not are partial functions, and each property about one of
  them states that it returns. What the linker or the hardware decides is a parameter: addresses of string literals
  and static buffers, the words on the stack above an argument list, the content of uninitialised locals, what a
  port reads. Writes to ports are recorded in order.

  \<^bold>\<open>Theories.\<close>
  \<^item> \<open>CBase\<close>: machine types, loads and stores, counted loops (\<open>for_int\<close>), C strings in memory, truncated
    division, and the locale \<open>kept_by_steps\<close>: what every step keeps, every run keeps.
  \<^item> \<open>Mm\<close> (\<^verbatim>\<open>mm.c\<close>): the block descriptors and the list of blocks; \<open>alloc\<close> and \<open>release\<close> are the
    abstract first-fit allocator on lists which the pointer code refines. The locale \<open>region_allocator\<close> is the
    contract of an allocator and gives the disjointness of any number of live regions.
  \<^item> \<open>Kmalloc\<close> (\<^verbatim>\<open>kmalloc.c\<close>, \<^verbatim>\<open>malloc.c\<close>, \<^verbatim>\<open>strdup\<close>, \<^verbatim>\<open>strndup\<close>): rounded, cleared allocation.
  \<^item> \<open>CString\<close> (\<^verbatim>\<open>lib/string.c\<close>, \<^verbatim>\<open>libcc.c\<close>): copies with overlap, the word-wise copy against the byte
    copy, the string routines.
  \<^item> \<open>Task\<close> (\<^verbatim>\<open>task.c\<close>, \<^verbatim>\<open>timer.c\<close>): the task list, the scheduler, the timer tick, the descriptors; the step
    relation \<open>kstep\<close>, the invariant \<open>kinv\<close> of all reachable states, and a bound on waiting times.
  \<^item> \<open>SimpleQueue\<close> (the \<^verbatim>\<open>SIMPLEQ\<close> macros of \<^verbatim>\<open>include/queue.h\<close>): refinement to lists; the locale
    \<open>fifo_queue\<close>, interpreted on the macros here, on those of \<open>Queues\<close> and on the byte queues in \<open>Pipe\<close>.
  \<^item> \<open>Queues\<close> (the other macros of \<^verbatim>\<open>include/queue.h\<close>): lists, tail queues and circular queues over
    heads and links in one memory, with traversal in both directions; each refines lists.
  \<^item> \<open>Sem\<close> (\<^verbatim>\<open>sem.c\<close>, \<^verbatim>\<open>include/mutex.h\<close>): the spin lock, waiting and posting over tasks, queue and
    pool, and the deadlock that follows from sleeping with the lock held.
  \<^item> \<open>Pipe\<close> (\<^verbatim>\<open>eeos_pipe.c\<close>): ring buffers, read and write loops, creation and removal, and which
    semaphores the calls on a created pipe use.
  \<^item> \<open>Page\<close> (\<^verbatim>\<open>page.c\<close>): directory and tables in memory; \<open>mmu_translate\<close> is the processor's reading of them.
  \<^item> \<open>Interrupt\<close> (\<^verbatim>\<open>interrupt.c\<close>, \<^verbatim>\<open>syscall.c\<close>): gates, decoded as the processor does, and the writes to the
    interrupt controllers, run through a model of them.
  \<^item> \<open>Screen\<close>, \<open>Numerals\<close>, \<open>Kprintf\<close>, \<open>Exceptions\<close> (\<^verbatim>\<open>screen.c\<close>, \<^verbatim>\<open>kprintf.c\<close>, \<^verbatim>\<open>exceptions.c\<close>): the text
    screen and the cursor, numbers as text, formatted kernel messages with the two overruns the code does not
    check, the exception reports, the table of handlers of \<^verbatim>\<open>isr.S\<close> and how a handler ends.
  \<^item> \<open>Vesa\<close>, \<open>Paint\<close> (\<^verbatim>\<open>vesa.c\<close>, \<^verbatim>\<open>vbe.c\<close>): the drawing routines on the frame buffer, and what each does
    to the picture; \<open>Canvas\<close>, \<open>Gui\<close> (\<^verbatim>\<open>gui/\<close>): the block canvas and its correctness.
  \<^item> \<open>Ctype\<close>, \<open>Stdlib\<close>, \<open>Strtod\<close> (\<^verbatim>\<open>lib/ctype.c\<close>, \<^verbatim>\<open>lib/strings.c\<close>, \<^verbatim>\<open>lib/stdlib.c\<close>): character
    classes, division, searching, sorting, exit handlers, reading numbers.
  \<^item> \<open>Vsprintf\<close>, \<open>Stdio\<close>, \<open>Sscanf\<close> (\<^verbatim>\<open>lib/vsprintf.c\<close>, \<^verbatim>\<open>lib/stdio.c\<close>, \<^verbatim>\<open>lib/sscanf.c\<close>): formats are
    lists of directives whose text is the specification, printed through a buffer of 1024 bytes; reading what was printed gives the values back.
  \<^item> \<open>CTime\<close>, \<open>Strftime\<close>, \<open>StrftimeText\<close>, \<open>TimeOrder\<close> (\<^verbatim>\<open>lib/time.c\<close>): calendar arithmetic; texts of times,
    against a table of what each conversion letter stands for; and the chronological order of broken-down times as an instance of the library's linear orders.
  \<^item> \<open>Input\<close> (\<^verbatim>\<open>kb.c\<close>, \<^verbatim>\<open>mouse.c\<close>), \<open>Vfs\<close> (\<^verbatim>\<open>vfs.c\<close>).
  \<^item> \<open>Printer\<close>, \<open>Kernel\<close> (\<^verbatim>\<open>kernel.c\<close>): the locale \<open>line_printer\<close> describes a program by the lines it shows;
    \<open>cmain\<close> is related to its list of report lines through it.
  \<^item> \<open>Init\<close>, \<open>Boot\<close> (\<^verbatim>\<open>init.c\<close>): the start-up tasks, and the boot sequence over all components on one machine
    with a shared memory: the installation, the interrupt 8 with its handler and its return, and what would follow.
  \<^item> \<open>GrubLib\<close>, \<open>Md5\<close> (\<^verbatim>\<open>stage2/char_io.c\<close>, \<^verbatim>\<open>stage2/md5.c\<close> of the boot loader): its C library, numbers and formats;
    the message digest against the algorithm of RFC 1321, and passwords made and checked with it.
  \<^item> \<open>LineEdit\<close>, \<open>LineScreen\<close>, \<open>LineSpec\<close>, \<open>LineKeys\<close> (\<^verbatim>\<open>get_cmdline\<close> of \<^verbatim>\<open>stage2/char_io.c\<close>): the command-line editor,
    what it shows on a terminal, the abstract editor, and the refinement key by key.

  \<^bold>\<open>What the properties show.\<close> For each component the functional behaviour of its operations on every branch,
  refinement of list or text specifications, the invariants of the reachable states, round trips (allocate and
  free, print and read, seconds and fields), bounds of memory accesses, and termination. Across components:
  semaphores over tasks, queues and pool; formatted output over the screen; the canvas over the pool and the frame
  buffer; and the boot sequence, after which every component satisfies its invariant. Several theorems state
  what the code does where this is not what it should do: they are listed as findings. The gravest are that \<^verbatim>\<open>init\<close>
  stops at an \<^verbatim>\<open>int $0x08\<close>, that the page tables lie in memory the allocator hands out, that a blocking
  \<^verbatim>\<open>sem_wait\<close> keeps the lock of its semaphore, and that \<^verbatim>\<open>mem_malloc\<close> never returns when its descriptors are used up.

  \<^bold>\<open>Simplifications.\<close> Signed values that sums can take out of the range of an \<^verbatim>\<open>int\<close> are brought back to it after each
  such step by \<open>i32\<close>, as two's complement does: the line and rectangle loops, the clipping of the canvas, field widths
  and precisions, the bounds of the binary search, the texts of broken-down times. Indices of pixels count only modulo the
  size of an address. The positions along a drawn text, the small offsets within a glyph or a picture, the ring positions
  of a transfer and the fields that \<^verbatim>\<open>mktime\<close> normalises are exact integers. The end-of-interrupt write of the timer, the messages of \<^verbatim>\<open>mem_init\<close>
  and \<^verbatim>\<open>pipe_write\<close> and the routines that only print (\<^verbatim>\<open>mem_block_print\<close>, \<^verbatim>\<open>print_tasks\<close>, \<^verbatim>\<open>print_waitq\<close>, the
  \<^verbatim>\<open>test\<close> routines) are left out. The result of \<^verbatim>\<open>realloc\<close> in the canvas is a parameter. The tables of
  descriptors and gates are kept apart from the flat memory. A spin lock that is free is taken at once; a lock
  nobody releases is spun on for ever. In the boot loader a copy between buffers of its own is never refused, and the pager is
  off while a line is edited.

  \<^bold>\<open>Not modelled.\<close> The bodies of library routines whose system calls are commented out (\<^verbatim>\<open>fopen\<close>, \<^verbatim>\<open>clock\<close>,
  \<^verbatim>\<open>system\<close>, \<^verbatim>\<open>rand\<close> and others) and the files that hold nothing else; the endless bodies of the demonstration tasks of \<^verbatim>\<open>sem.c\<close> and
  \<^verbatim>\<open>eeos_pipe.c\<close>; the assembly files but for the handler table and the return of the
  interrupt entry, the load of the local descriptor table and the jump to user mode in
  \<^verbatim>\<open>init\<close>; \<^verbatim>\<open>lib/getopt.c\<close>, copied from the GNU C library; and of the boot loader the menu, the commands, the
  file systems, the disks, the decompressor, the terminals and the network drivers, which rest on the firmware and on devices.
\<close>

end
